(* ===== verification/Prelude.thy ===== *)
theory Prelude
  imports Main "HOL-Library.AList"
begin

text \<open>
  Shared vocabulary of the development: JavaScript numbers and strings as the plugin
  uses them, exceptions as a sum type with its bind and fold, insertion-ordered
  \<^verbatim>\<open>Map\<close>s as association lists, length-prefixed composite keys, and the
  evict-oldest loop that the bounded caches share.  The generic lemmas are collected
  here so that the component theories only reason about their own operations.
\<close>

named_theorems exc_simps \<open>rules that compute with exceptions\<close>
named_theorems alist_simps \<open>rules on insertion-ordered maps\<close>

section \<open>Numbers\<close>

text \<open>
  A JavaScript number as far as \<^verbatim>\<open>Number.isSafeInteger\<close> sees it: an integral
  value, or anything else (a fraction, NaN, an infinity), on which every guard of the
  plugin behaves the same way.
\<close>

datatype js_number = JsInt int | JsNonInt

definition max_safe_integer :: int where
  "max_safe_integer = 9007199254740991"

definition safe_nonneg_int :: "int \<Rightarrow> bool" where
  "safe_nonneg_int n \<longleftrightarrow> 0 \<le> n \<and> n \<le> max_safe_integer"

text \<open>\<^verbatim>\<open>Number.isSafeInteger(v) && v >= 0\<close>, with the integer it admits.\<close>

fun safe_nonneg :: "js_number \<Rightarrow> int option" where
  "safe_nonneg (JsInt n) = (if safe_nonneg_int n then Some n else None)"
| "safe_nonneg JsNonInt = None"

lemma safe_nonneg_SomeD: "safe_nonneg v = Some n \<Longrightarrow> v = JsInt n \<and> 0 \<le> n \<and> n \<le> max_safe_integer"
  by (cases v) (auto simp: safe_nonneg_int_def split: if_splits)

section \<open>Exceptions\<close>

text \<open>A computation that may throw is \<open>'e + 'a\<close>; \<open>Inl\<close> is the thrown error.\<close>

fun bindE :: "'e + 'a \<Rightarrow> ('a \<Rightarrow> 'e + 'b) \<Rightarrow> 'e + 'b" where
  "bindE (Inl e) f = Inl e"
| "bindE (Inr a) f = f a"

definition assertE :: "bool \<Rightarrow> 'e \<Rightarrow> 'e + unit" where
  "assertE c e = (if c then Inr () else Inl e)"

text \<open>A \<^verbatim>\<open>for\<close> loop whose body may throw.\<close>

fun foldE :: "('a \<Rightarrow> 's \<Rightarrow> 'e + 's) \<Rightarrow> 'a list \<Rightarrow> 's \<Rightarrow> 'e + 's" where
  "foldE f [] s = Inr s"
| "foldE f (x # xs) s = bindE (f x s) (foldE f xs)"

lemma bindE_Inr_iff [exc_simps]: "bindE m f = Inr b \<longleftrightarrow> (\<exists>a. m = Inr a \<and> f a = Inr b)"
  by (cases m) auto

lemma bindE_Inl_iff: "bindE m f = Inl e \<longleftrightarrow> m = Inl e \<or> (\<exists>a. m = Inr a \<and> f a = Inl e)"
  by (cases m) auto

lemma assertE_Inr_iff [exc_simps]: "assertE c e = Inr u \<longleftrightarrow> c"
  by (simp add: assertE_def)

lemma assertE_True [simp]: "assertE True e = Inr ()"
  by (simp add: assertE_def)

lemma foldE_append: "foldE f (xs @ ys) s = bindE (foldE f xs s) (foldE f ys)"
proof (induction xs arbitrary: s)
  case Nil
  then show ?case by simp
next
  case (Cons x xs)
  then show ?case by (cases "f x s") simp_all
qed

text \<open>
  The contract of a loop body that never throws on states satisfying an invariant: the
  loop then never throws either and keeps the invariant.  Components interpret it with
  their own body, e.g. the release of one reservation.
\<close>

locale total_step =
  fixes step :: "'a \<Rightarrow> 's \<Rightarrow> 'e + 's"
    and inv :: "'s \<Rightarrow> bool"
    and ok :: "'a \<Rightarrow> 's \<Rightarrow> bool"
  assumes step_total: "inv s \<Longrightarrow> ok x s \<Longrightarrow> \<exists>s'. step x s = Inr s' \<and> inv s'"
    and step_ok: "inv s \<Longrightarrow> ok x s \<Longrightarrow> ok y s \<Longrightarrow> step x s = Inr s' \<Longrightarrow> ok y s'"
begin

lemma foldE_total:
  "inv s \<Longrightarrow> (\<forall>x \<in> set xs. ok x s) \<Longrightarrow>
   \<exists>s'. foldE step xs s = Inr s' \<and> inv s' \<and> (\<forall>y. ok y s \<longrightarrow> ok y s')"
proof (induction xs arbitrary: s)
  case Nil
  then show ?case by simp
next
  case (Cons x xs)
  then obtain s1 where s1: "step x s = Inr s1" "inv s1" using step_total[of s x] by auto
  have ok1: "ok y s1" if "ok y s" for y using Cons.prems s1 that step_ok[of s x y s1] by simp
  then obtain s2 where "foldE step xs s1 = Inr s2" "inv s2" "\<forall>y. ok y s1 \<longrightarrow> ok y s2"
    using Cons.IH[of s1] Cons.prems s1 by auto
  then show ?case using s1 ok1 by auto
qed

end

text \<open>
  A body that also settles its element for good, and no other: after the loop the elements it
  ran on are settled, and nothing else is that was not before.
\<close>

locale settling_step = total_step step inv ok
  for step :: "'a \<Rightarrow> 's \<Rightarrow> 'e + 's" and inv :: "'s \<Rightarrow> bool" and ok :: "'a \<Rightarrow> 's \<Rightarrow> bool" +
  fixes settled :: "'a \<Rightarrow> 's \<Rightarrow> bool"
  assumes step_settles: "inv s \<Longrightarrow> ok x s \<Longrightarrow> step x s = Inr s' \<Longrightarrow> settled x s'"
    and settled_mono: "inv s \<Longrightarrow> ok x s \<Longrightarrow> ok y s \<Longrightarrow> settled y s \<Longrightarrow> step x s = Inr s' \<Longrightarrow> settled y s'"
    and settles_only: "inv s \<Longrightarrow> ok x s \<Longrightarrow> ok y s \<Longrightarrow> step x s = Inr s' \<Longrightarrow> settled y s' \<Longrightarrow> y = x \<or> settled y s"
begin

lemma foldE_settled_mono:
  "inv s \<Longrightarrow> (\<forall>x \<in> set xs. ok x s) \<Longrightarrow> ok y s \<Longrightarrow> settled y s \<Longrightarrow> foldE step xs s = Inr s' \<Longrightarrow> settled y s'"
proof (induction xs arbitrary: s)
  case Nil
  then show ?case by simp
next
  case (Cons x xs)
  then obtain s1 where s1: "step x s = Inr s1" "inv s1" using step_total[of s x] by auto
  have "ok z s1" if "ok z s" for z using Cons.prems s1 that step_ok[of s x z s1] by simp
  then show ?case using Cons s1 settled_mono[of s x y s1] by auto
qed

lemma foldE_settles:
  "inv s \<Longrightarrow> (\<forall>x \<in> set xs. ok x s) \<Longrightarrow> foldE step xs s = Inr s' \<Longrightarrow> \<forall>x \<in> set xs. settled x s'"
proof (induction xs arbitrary: s)
  case Nil
  then show ?case by simp
next
  case (Cons x xs)
  then obtain s1 where s1: "step x s = Inr s1" "inv s1" using step_total[of s x] by auto
  have ok1: "ok z s1" if "ok z s" for z using Cons.prems s1 that step_ok[of s x z s1] by simp
  have "settled x s1" using Cons.prems s1 step_settles[of s x s1] by simp
  then have "settled x s'" using foldE_settled_mono[of s1 xs x s'] Cons.prems s1 ok1 by simp
  then show ?case using Cons s1 ok1 by auto
qed

lemma foldE_settled_iff:
  "inv s \<Longrightarrow> (\<forall>x \<in> set xs. ok x s) \<Longrightarrow> ok y s \<Longrightarrow> foldE step xs s = Inr s' \<Longrightarrow> settled y s' \<longleftrightarrow> y \<in> set xs \<or> settled y s"
proof (induction xs arbitrary: s)
  case (Cons x xs)
  then obtain s1 where s1: "step x s = Inr s1" "inv s1" using step_total[of s x] by auto
  have ok1: "ok z s1" if "ok z s" for z using Cons.prems s1 that step_ok[of s x z s1] by simp
  have "settled y s' \<longleftrightarrow> y \<in> set xs \<or> settled y s1" using Cons.IH[of s1] Cons.prems s1 ok1 by simp
  moreover have "settled y s1 \<longleftrightarrow> y = x \<or> settled y s"
    using Cons.prems s1 step_settles[of s x s1] settled_mono[of s x y s1] settles_only[of s x y s1] by auto
  ultimately show ?case by auto
qed simp

end

section \<open>Lists\<close>

lemma sum_list_update_int:
  fixes xs :: "int list"
  shows "k < length xs \<Longrightarrow> sum_list (xs[k := x]) = sum_list xs - xs ! k + x"
proof (induction xs arbitrary: k)
  case Nil
  then show ?case by simp
next
  case (Cons a xs)
  then show ?case by (cases k) auto
qed

lemma map_list_update: "map f (xs[k := x]) = (map f xs)[k := f x]"
  by (simp add: map_update)

lemma sum_map_list_update:
  fixes f :: "'a \<Rightarrow> int"
  shows "k < length xs \<Longrightarrow> sum_list (map f (xs[k := x])) = sum_list (map f xs) - f (xs ! k) + f x"
  by (simp add: map_list_update sum_list_update_int)

lemma sum_list_map_nonneg:
  fixes f :: "'a \<Rightarrow> int"
  shows "(\<And>x. x \<in> set xs \<Longrightarrow> 0 \<le> f x) \<Longrightarrow> 0 \<le> sum_list (map f xs)"
  by (induction xs) auto

lemma sum_list_map_ge_elem:
  fixes f :: "'a \<Rightarrow> int"
  assumes "\<And>x. x \<in> set xs \<Longrightarrow> 0 \<le> f x" and "k < length xs"
  shows "f (xs ! k) \<le> sum_list (map f xs)"
  using assms
proof (induction xs arbitrary: k)
  case Nil
  then show ?case by simp
next
  case (Cons a xs)
  show ?case
  proof (cases k)
    case 0
    have "0 \<le> sum_list (map f xs)" using Cons.prems by (intro sum_list_map_nonneg) auto
    then show ?thesis using 0 by simp
  next
    case (Suc j)
    have "f (xs ! j) \<le> sum_list (map f xs)" using Cons Suc by auto
    moreover have "0 \<le> f a" using Cons.prems by simp
    ultimately show ?thesis using Suc by simp
  qed
qed

lemma sum_list_map_mono_int:
  fixes f g :: "'a \<Rightarrow> int"
  shows "(\<And>x. x \<in> set xs \<Longrightarrow> f x \<le> g x) \<Longrightarrow> sum_list (map f xs) \<le> sum_list (map g xs)"
  by (induction xs) (simp, fastforce)

section \<open>Insertion-ordered maps\<close>

text \<open>
  A JavaScript \<^verbatim>\<open>Map\<close> iterates in insertion order, and \<^verbatim>\<open>set\<close> on a present key
  keeps its place: exactly \<open>AList.update\<close>.  \<^verbatim>\<open>get\<close> is \<open>map_of\<close>,
  \<^verbatim>\<open>delete\<close> is \<open>AList.delete\<close>, \<^verbatim>\<open>size\<close> is \<open>length\<close>.
\<close>

type_synonym ('k, 'v) js_map = "('k \<times> 'v) list"

abbreviation js_keys :: "('k, 'v) js_map \<Rightarrow> 'k list" where
  "js_keys m \<equiv> map fst m"

lemmas alist_conv [alist_simps] = AList.update_conv' AList.delete_conv'

lemma map_of_None_keys: "map_of m k = None \<longleftrightarrow> k \<notin> set (js_keys m)"
  by (simp add: map_of_eq_None_iff)

lemma distinct_keys_update [simp]:
  "distinct (js_keys m) \<Longrightarrow> distinct (js_keys (AList.update k v m))"
  by (rule AList.distinct_update)

lemma distinct_keys_delete [simp]:
  "distinct (js_keys m) \<Longrightarrow> distinct (js_keys (AList.delete k m))"
  by (rule AList.distinct_delete)

lemma update_fresh_append:
  "k \<notin> set (js_keys m) \<Longrightarrow> AList.update k v m = m @ [(k, v)]"
  by (induction m) auto

lemma length_delete_present:
  "distinct (js_keys m) \<Longrightarrow> map_of m k = Some v \<Longrightarrow> Suc (length (AList.delete k m)) = length m"
proof (induction m)
  case Nil
  then show ?case by simp
next
  case (Cons p m)
  obtain a b where p: "p = (a, b)" by (cases p)
  show ?case
  proof (cases "a = k")
    case True
    then have "k \<notin> fst ` set m" using Cons.prems p by simp
    then show ?thesis using True p by simp
  next
    case False
    then show ?thesis using Cons p by simp
  qed
qed

lemma set_delete_eq: "set (AList.delete k m) = {p \<in> set m. fst p \<noteq> k}"
  by (auto simp: AList.delete_eq)

lemma sum_delete_present:
  fixes w :: "'v \<Rightarrow> int"
  shows "distinct (js_keys m) \<Longrightarrow> map_of m k = Some v \<Longrightarrow>
    sum_list (map (w \<circ> snd) (AList.delete k m)) = sum_list (map (w \<circ> snd) m) - w v"
proof (induction m)
  case Nil
  then show ?case by simp
next
  case (Cons p m)
  obtain a b where p: "p = (a, b)" by (cases p)
  show ?case
  proof (cases "a = k")
    case True
    then have "k \<notin> fst ` set m" using Cons.prems p by simp
    then show ?thesis using True p Cons.prems by simp
  next
    case False
    then show ?thesis using Cons p by simp
  qed
qed

section \<open>Strings and composite keys\<close>

text \<open>
  Strings are \<^typ>\<open>string\<close>s of code units below 256; \<^verbatim>\<open>Buffer.byteLength(s, "utf8")\<close>
  of such a string counts one byte per unit below 128 and two per unit from 128 on.
\<close>

definition utf8_units :: "char \<Rightarrow> nat" where
  "utf8_units c = (if of_char c < (128::nat) then 1 else 2)"

definition utf8_length :: "string \<Rightarrow> int" where
  "utf8_length s = int (sum_list (map utf8_units s))"

lemma utf8_length_nonneg [simp]: "0 \<le> utf8_length s"
  by (simp add: utf8_length_def)

lemma utf8_length_append: "utf8_length (s @ t) = utf8_length s + utf8_length t"
  by (simp add: utf8_length_def)

text \<open>Decimal rendering of a length inside a template string.\<close>

definition digit_char :: "nat \<Rightarrow> char" where
  "digit_char d = char_of (48 + d)"

fun show_nat :: "nat \<Rightarrow> string" where
  "show_nat n = (if n < 10 then [digit_char n] else show_nat (n div 10) @ [digit_char (n mod 10)])"

declare show_nat.simps [simp del]

definition digit_val :: "char \<Rightarrow> nat" where
  "digit_val c = of_char c - 48"

definition read_nat :: "string \<Rightarrow> nat" where
  "read_nat s = foldl (\<lambda>n c. 10 * n + digit_val c) 0 s"

lemma of_digit_char: "d < 10 \<Longrightarrow> of_char (digit_char d) = 48 + d"
  by (simp add: digit_char_def take_bit_nat_eq_self)

lemma digit_val_digit_char: "d < 10 \<Longrightarrow> digit_val (digit_char d) = d"
  by (simp add: digit_val_def of_digit_char)

lemma read_show_nat: "read_nat (show_nat n) = n"
proof (induction n rule: show_nat.induct)
  case (1 n)
  show ?case
  proof (cases "n < 10")
    case True
    then show ?thesis
      by (simp add: show_nat.simps[of n] read_nat_def digit_val_digit_char)
  next
    case False
    have "read_nat (show_nat (n div 10) @ [digit_char (n mod 10)])
        = 10 * read_nat (show_nat (n div 10)) + digit_val (digit_char (n mod 10))"
      by (simp add: read_nat_def)
    then show ?thesis
      using False 1 by (simp add: show_nat.simps[of n] digit_val_digit_char)
  qed
qed

lemma show_nat_digits: "c \<in> set (show_nat n) \<Longrightarrow> \<exists>d < 10. c = digit_char d"
proof (induction n rule: show_nat.induct)
  case (1 n)
  show ?case
  proof (cases "n < 10")
    case True
    then show ?thesis using 1 by (auto simp: show_nat.simps[of n])
  next
    case False
    then have "c \<in> set (show_nat (n div 10)) \<or> c = digit_char (n mod 10)"
      using "1.prems" by (auto simp: show_nat.simps[of n])
    moreover have "n mod 10 < 10" by simp
    ultimately show ?thesis using "1.IH"[OF False] by blast
  qed
qed

lemma colon_not_in_show_nat: "CHR '':'' \<notin> set (show_nat n)"
proof
  assume "CHR '':'' \<in> set (show_nat n)"
  then obtain d where d: "d < 10" "CHR '':'' = digit_char d" using show_nat_digits by blast
  then have "of_char (CHR '':'') = (48 + d :: nat)" using of_digit_char by simp
  then show False using d(1) by simp
qed

lemma show_nat_inj: "show_nat m = show_nat n \<Longrightarrow> m = n"
  by (metis read_show_nat)

text \<open>Splitting at the first occurrence of a separator is unambiguous.\<close>

lemma append_sep_inject:
  "c \<notin> set xs \<Longrightarrow> c \<notin> set us \<Longrightarrow> xs @ c # ys = us @ c # vs \<Longrightarrow> xs = us \<and> ys = vs"
proof (induction xs arbitrary: us)
  case Nil
  then show ?case by (cases us) auto
next
  case (Cons a xs)
  then show ?case by (cases us) auto
qed

text \<open>
  The composite key \<^verbatim>\<open>`${a.length}:${a}${k}`\<close> that the debouncer, the outcome
  store, the tombstones and the pressure log all build.
\<close>

definition length_prefixed :: "string \<Rightarrow> string \<Rightarrow> string" where
  "length_prefixed a k = show_nat (length a) @ CHR '':'' # a @ k"

lemma length_prefixed_inject:
  "length_prefixed a k = length_prefixed b l \<longleftrightarrow> a = b \<and> k = l"
proof
  assume "length_prefixed a k = length_prefixed b l"
  then have "show_nat (length a) = show_nat (length b) \<and> a @ k = b @ l"
    unfolding length_prefixed_def by (rule append_sep_inject[OF colon_not_in_show_nat colon_not_in_show_nat])
  then show "a = b \<and> k = l" by (auto dest: show_nat_inj)
qed simp

section \<open>Evict-oldest loop\<close>

text \<open>
  The loop both bounded caches run before inserting an entry of weight \<open>need\<close>:
  while the map is full or the bytes would not fit, drop the oldest entry.
\<close>

fun evict_oldest ::
  "int \<Rightarrow> int \<Rightarrow> ('v \<Rightarrow> int) \<Rightarrow> int \<Rightarrow> ('k, 'v) js_map \<Rightarrow> int \<Rightarrow> ('k, 'v) js_map \<times> int" where
  "evict_oldest cap byteCap w need [] tot = ([], tot)"
| "evict_oldest cap byteCap w need (e # m) tot =
     (if int (length (e # m)) \<ge> cap \<or> tot + need > byteCap
      then evict_oldest cap byteCap w need m (tot - w (snd e))
      else (e # m, tot))"

definition cache_total :: "('v \<Rightarrow> int) \<Rightarrow> ('k, 'v) js_map \<Rightarrow> int" where
  "cache_total w m = sum_list (map (w \<circ> snd) m)"

lemma evict_oldest_suffix:
  "evict_oldest cap byteCap w need m tot = (m', tot') \<Longrightarrow> \<exists>d. m = d @ m' \<and> tot' = tot - cache_total w d"
proof (induction cap byteCap w need m tot rule: evict_oldest.induct)
  case (1 cap byteCap w need tot)
  then show ?case by (simp add: cache_total_def)
next
  case (2 cap byteCap w need e m tot)
  show ?case
  proof (cases "int (length (e # m)) \<ge> cap \<or> tot + need > byteCap")
    case True
    then have "evict_oldest cap byteCap w need m (tot - w (snd e)) = (m', tot')"
      using "2.prems" by simp
    then obtain d where d: "m = d @ m'" "tot' = tot - w (snd e) - cache_total w d"
      using "2.IH"[OF True] by blast
    then show ?thesis by (intro exI[of _ "e # d"]) (simp add: cache_total_def)
  next
    case False
    then have "m' = e # m \<and> tot' = tot" using "2.prems" by simp
    then show ?thesis by (intro exI[of _ "[]"]) (simp add: cache_total_def)
  qed
qed

lemma evict_oldest_fits:
  "evict_oldest cap byteCap w need m tot = (m', tot') \<Longrightarrow> tot = cache_total w m \<Longrightarrow>
   need \<le> byteCap \<Longrightarrow> 0 < cap \<Longrightarrow>
   int (length m') < cap \<and> tot' + need \<le> byteCap \<and> tot' = cache_total w m'"
proof (induction cap byteCap w need m tot rule: evict_oldest.induct)
  case (1 cap byteCap w need tot)
  then show ?case by (auto simp: cache_total_def)
next
  case (2 cap byteCap w need e m tot)
  show ?case
  proof (cases "int (length (e # m)) \<ge> cap \<or> tot + need > byteCap")
    case True
    then show ?thesis
      using 2 by (auto simp: cache_total_def)
  next
    case False
    then have "m' = e # m" and "tot' = tot" using "2.prems"(1) by auto
    then show ?thesis using False "2.prems"(2) by auto
  qed
qed

lemma evict_oldest_noop:
  "int (length m) < cap \<Longrightarrow> tot + need \<le> byteCap \<Longrightarrow> evict_oldest cap byteCap w need m tot = (m, tot)"
  by (cases m) auto

section \<open>Byte-bounded insertion-ordered caches\<close>

text \<open>
  The invariant of such a cache: distinct keys, at most \<open>cap\<close> entries, and a running
  byte total that is exact and within \<open>byteCap\<close>.
\<close>

definition cache_ok :: "int \<Rightarrow> int \<Rightarrow> ('v \<Rightarrow> int) \<Rightarrow> ('k, 'v) js_map \<Rightarrow> int \<Rightarrow> bool" where
  "cache_ok cap byteCap w m tot \<longleftrightarrow>
     distinct (js_keys m) \<and> int (length m) \<le> cap \<and> tot = cache_total w m \<and> tot \<le> byteCap \<and>
     (\<forall>e \<in> set m. 0 \<le> w (snd e))"

lemma cache_ok_empty [simp]: "cache_ok cap byteCap w [] tot \<longleftrightarrow> 0 \<le> cap \<and> tot = 0 \<and> 0 \<le> byteCap"
  by (auto simp: cache_ok_def cache_total_def)

lemma cache_total_delete:
  "distinct (js_keys m) \<Longrightarrow> map_of m k = Some v \<Longrightarrow> cache_total w (AList.delete k m) = cache_total w m - w v"
  by (simp add: cache_total_def sum_delete_present)

lemma cache_ok_delete:
  assumes "cache_ok cap byteCap w m tot" "map_of m k = Some v"
  shows "cache_ok cap byteCap w (AList.delete k m) (tot - w v)"
proof -
  have "length (AList.delete k m) \<le> length m" by (rule AList.length_delete_le)
  moreover have "0 \<le> w v" using assms by (auto simp: cache_ok_def dest!: map_of_SomeD)
  ultimately show ?thesis using assms by (auto simp: cache_ok_def cache_total_delete set_delete_eq)
qed

lemma cache_ok_append:
  assumes "cache_ok (cap - 1) byteCap w m tot" "k \<notin> set (js_keys m)" "tot + w v \<le> byteCap" "0 \<le> w v"
  shows "cache_ok cap byteCap w (AList.update k v m) (tot + w v)"
  using assms by (auto simp: cache_ok_def update_fresh_append cache_total_def)

text \<open>Evicting and then inserting keeps the cache within its caps.\<close>

lemma cache_ok_insert:
  assumes ok: "cache_ok cap byteCap w m tot" and k: "k \<notin> set (js_keys m)"
    and fit: "w v \<le> byteCap" "0 \<le> w v" "0 < cap"
    and ev: "evict_oldest cap byteCap w (w v) m tot = (m', tot')"
  shows "cache_ok cap byteCap w (AList.update k v m') (tot' + w v)"
proof -
  obtain d where d: "m = d @ m'" "tot' = tot - cache_total w d" using evict_oldest_suffix[OF ev] by blast
  have f: "int (length m') < cap" "tot' + w v \<le> byteCap" "tot' = cache_total w m'"
    using evict_oldest_fits[OF ev] ok fit by (auto simp: cache_ok_def)
  have "cache_ok (cap - 1) byteCap w m' tot'"
    using ok d f fit by (auto simp: cache_ok_def)
  then show ?thesis using k d f fit by (intro cache_ok_append) auto
qed


lemma distinct_count_list: "distinct xs \<Longrightarrow> count_list xs x = (if x \<in> set xs then 1 else 0)"
  by (induction xs) auto

section \<open>Single-use tokens\<close>

text \<open>
  A system that answers calls one after another, and the contract of a token in it: the token is
  there only after a call that mints it, and a call that redeems it finds it and leaves it gone.  Then it
  is redeemed at most as often as it was minted.
\<close>

fun run_steps :: "('c \<Rightarrow> 's \<Rightarrow> 'r \<times> 's) \<Rightarrow> 'c list \<Rightarrow> 's \<Rightarrow> ('c \<times> 'r) list \<times> 's" where
  "run_steps step [] s = ([], s)"
| "run_steps step (c # cs) s = (case step c s of (r, s1) \<Rightarrow> case run_steps step cs s1 of (tr, s2) \<Rightarrow> ((c, r) # tr, s2))"

locale single_use =
  fixes step :: "'c \<Rightarrow> 's \<Rightarrow> 'r \<times> 's"
    and inv :: "'s \<Rightarrow> bool"
    and held :: "'s \<Rightarrow> bool"
    and mints :: "'c \<Rightarrow> bool"
    and redeems :: "'c \<Rightarrow> 'r \<Rightarrow> bool"
  assumes step_inv: "inv s \<Longrightarrow> step c s = (r, s') \<Longrightarrow> inv s'"
    and held_step: "inv s \<Longrightarrow> step c s = (r, s') \<Longrightarrow> held s' \<Longrightarrow> held s \<or> mints c"
    and redeem_spends: "inv s \<Longrightarrow> step c s = (r, s') \<Longrightarrow> redeems c r \<Longrightarrow> held s \<and> \<not> held s'"
begin

lemma run_inv: "inv s \<Longrightarrow> run_steps step cs s = (tr, s') \<Longrightarrow> inv s'"
proof (induction cs arbitrary: s tr)
  case (Cons c cs)
  obtain r s1 tr2 where "step c s = (r, s1)" "run_steps step cs s1 = (tr2, s')" using Cons.prems(2) by (auto split: prod.splits)
  then show ?case using Cons.IH step_inv[OF Cons.prems(1)] by blast
qed simp

lemma redeemed_le_minted:
  "inv s \<Longrightarrow> run_steps step cs s = (tr, s') \<Longrightarrow>
   length (filter (\<lambda>(c, r). redeems c r) tr) \<le> length (filter mints cs) + (if held s then 1 else 0)"
proof (induction cs arbitrary: s tr)
  case (Cons c cs)
  obtain r s1 tr2 where run: "step c s = (r, s1)" "run_steps step cs s1 = (tr2, s')" "tr = (c, r) # tr2"
    using Cons.prems(2) by (auto split: prod.splits)
  note IH = Cons.IH[OF step_inv[OF Cons.prems(1) run(1)] run(2)]
  note facts = held_step[OF Cons.prems(1) run(1)] redeem_spends[OF Cons.prems(1) run(1)]
  show ?case
  proof (cases "redeems c r")
    case True
    then show ?thesis using IH facts(2) run(3) by (simp split: if_splits)
  next
    case False
    then show ?thesis using IH facts(1) run(3) by (cases "held s1") (auto split: if_splits)
  qed
qed simp

end

end
