(* ===== verification/Json.thy ===== *)
theory Json
  imports Prelude
begin

text \<open>
  JSON values and \<^verbatim>\<open>JSON.stringify\<close> on them, as the plugin uses it to charge and to
  measure frames: the compact rendering, with JavaScript's escaping of quotes,
  backslashes and control characters.  Numbers are the integers the frames carry.  A
  value JavaScript cannot serialise (\<^verbatim>\<open>undefined\<close>, a function) is \<open>None\<close> where an
  argument may hold one.
\<close>

datatype json =
    JNull
  | JBool bool
  | JNum int
  | JStr string
  | JArr "json list"
  | JObj "(string \<times> json) list"

definition hex_char :: "nat \<Rightarrow> char" where
  "hex_char d = (if d < 10 then char_of (48 + d) else char_of (87 + d))"

definition escape_char :: "char \<Rightarrow> string" where
  "escape_char c =
     (if c = CHR 0x22 then [CHR 0x5C, CHR 0x22]
      else if c = CHR 0x5C then [CHR 0x5C, CHR 0x5C]
      else if c = CHR 0x08 then [CHR 0x5C, CHR ''b'']
      else if c = CHR 0x0C then [CHR 0x5C, CHR ''f'']
      else if c = CHR 0x0A then [CHR 0x5C, CHR ''n'']
      else if c = CHR 0x0D then [CHR 0x5C, CHR ''r'']
      else if c = CHR 0x09 then [CHR 0x5C, CHR ''t'']
      else if of_char c < (32::nat)
        then [CHR 0x5C, CHR ''u'', CHR ''0'', CHR ''0'',
              hex_char (of_char c div 16), hex_char (of_char c mod 16)]
      else [c])"

definition quote :: "string \<Rightarrow> string" where
  "quote s = CHR 0x22 # concat (map escape_char s) @ [CHR 0x22]"

definition show_int :: "int \<Rightarrow> string" where
  "show_int i = (if i < 0 then CHR ''-'' # show_nat (nat (- i)) else show_nat (nat i))"

fun join :: "string \<Rightarrow> string list \<Rightarrow> string" where
  "join sep [] = []"
| "join sep [x] = x"
| "join sep (x # y # xs) = x @ sep @ join sep (y # xs)"

fun stringify :: "json \<Rightarrow> string" where
  "stringify JNull = ''null''"
| "stringify (JBool b) = (if b then ''true'' else ''false'')"
| "stringify (JNum i) = show_int i"
| "stringify (JStr s) = quote s"
| "stringify (JArr xs) = ''['' @ join '','' (map stringify xs) @ '']''"
| "stringify (JObj ps) = ''{'' @ join '','' (map (\<lambda>(k, v). quote k @ '':'' @ stringify v) ps) @ ''}''"

text \<open>Reading a property of a parsed value that is not \<^verbatim>\<open>null\<close>; \<open>None\<close> is \<^verbatim>\<open>undefined\<close>.\<close>

fun json_field :: "string \<Rightarrow> json \<Rightarrow> json option" where
  "json_field k (JObj ps) = map_of ps k"
| "json_field k _ = None"

lemma show_nat_nonempty [simp]: "show_nat n \<noteq> []"
  by (simp add: show_nat.simps)

lemma stringify_nonempty: "stringify j \<noteq> []"
  by (cases j) (auto simp: quote_def show_int_def)

lemma utf8_units_pos: "1 \<le> utf8_units c"
  by (simp add: utf8_units_def)

lemma utf8_length_ge: "int (length s) \<le> utf8_length s"
proof (induction s)
  case Nil
  then show ?case by (simp add: utf8_length_def)
next
  case (Cons c s)
  then show ?case using utf8_units_pos[of c] by (simp add: utf8_length_def)
qed

lemma utf8_stringify_pos: "1 \<le> utf8_length (stringify j)"
proof -
  have "1 \<le> int (length (stringify j))" using stringify_nonempty[of j] by (cases "stringify j") auto
  then show ?thesis using utf8_length_ge[of "stringify j"] by simp
qed

end
