(* ===== verification/Enrollment.thy ===== *)
theory Enrollment
  imports Json "HOL-Library.Sublist"
begin

text \<open>
  Enrolling an agent: the reference enrolment repository with its key registry
  (\<^verbatim>\<open>src/packages/saas/src/enrollment-repository.ts\<close>, \<^verbatim>\<open>agent-key-registry.ts\<close>).

  A repository operation runs without an await, so each is one function on the state.  The clock a call reads,
  the random activation id and the two hashes are arguments.  Records leave and enter the
  repository as copies, so values stand for them; the entry of the enrolment map that an
  operation mutates is named by its key.
\<close>

section \<open>The key registry\<close>

datatype key_status = KeyActive | KeySuperseded | KeyRevoked

record agent_key =
  ak_tenant :: string
  ak_accountId :: string
  ak_publicKey :: string
  ak_keyId :: string
  ak_activationId :: string
  ak_status :: key_status
  ak_enrolledAt :: int
  ak_endedAt :: "int option"
  ak_supersededBy :: "string option"

datatype register_result =
    RegOk agent_key bool
  | RegConflict "agent_key option"
  | RegRevoked

definition agentKeyRegistryKey :: "string \<Rightarrow> string \<Rightarrow> string" where
  "agentKeyRegistryKey tenant accountId =
     show_nat (length tenant) @ '':'' @ tenant @ ''/'' @ show_nat (length accountId) @ '':'' @ accountId"

section \<open>Enrolments\<close>

record permissions =
  pm_pub :: "string list option"
  pm_sub :: "string list option"

record nats_creds =
  nc_userJwt :: string
  nc_userSeed :: string
  nc_userPubkey :: string
  nc_permissions :: "permissions option"

datatype enrollment_status = Pending | Approving | Approved | Expired | Denied

record approval_claim =
  cl_opId :: string
  cl_leaseUntil :: int

record enrollment =
  en_device_code :: string
  en_user_code :: string
  en_agentPublicKey :: string
  en_accountId :: string
  en_tenant :: string
  en_createdAt :: int
  en_expiresAt :: int
  en_status :: enrollment_status
  en_claim :: "approval_claim option"
  en_approvedAt :: "int option"
  en_committedBy :: "string option"
  en_commitDigest :: "string option"
  en_committedRecord :: "agent_key option"
  en_natsCreds :: "nats_creds option"
  en_peerId :: "string option"
  en_pluginVersion :: "string option"
  en_protocolVersion :: "int option"

datatype repository_error =
    UserCodeCollision string
  | DeviceCodeCollision string
  | CommitPayloadMismatch string
  | ImpossibleReconciliation

datatype claim_outcome =
    Claimed enrollment
  | AlreadyApproved enrollment
  | InProgress int
  | ClaimDenied
  | ClaimExpired
  | ClaimNotFound

record commit_payload =
  cp_creds :: nats_creds
  cp_peerId :: string
  cp_agentPublicKey :: string
  cp_expect :: "string option"

datatype commit_outcome =
    Committed agent_key bool
  | ClaimLost
  | CommitExpired
  | CommitConflict "agent_key option"
  | CommitRevoked

datatype noop_reason = NotFound | NotApproved | ActivePresent | HistoryPresent | CommitSnapshotPresent

datatype reconcile_outcome = Registered agent_key | Noop noop_reason

definition json_opt :: "('a \<Rightarrow> json) \<Rightarrow> 'a option \<Rightarrow> json" where
  "json_opt f x = (case x of None \<Rightarrow> JNull | Some y \<Rightarrow> f y)"

definition digest_json :: "commit_payload \<Rightarrow> json" where
  "digest_json p = JObj [
     (''agentPublicKey'', JStr (cp_agentPublicKey p)),
     (''peerId'', JStr (cp_peerId p)),
     (''creds'', JObj [
        (''userJwt'', JStr (nc_userJwt (cp_creds p))),
        (''userSeed'', JStr (nc_userSeed (cp_creds p))),
        (''userPubkey'', JStr (nc_userPubkey (cp_creds p))),
        (''permissions'', json_opt (\<lambda>m. JObj [
           (''pub'', json_opt (\<lambda>xs. JArr (map JStr xs)) (pm_pub m)),
           (''sub'', json_opt (\<lambda>xs. JArr (map JStr xs)) (pm_sub m))]) (nc_permissions (cp_creds p)))]),
     (''expect'', json_opt JStr (cp_expect p))]"

definition digest :: "(string \<Rightarrow> string) \<Rightarrow> commit_payload \<Rightarrow> string" where
  "digest sha p = sha (stringify (digest_json p))"

section \<open>The repository\<close>

record repository =
  er_enrollments :: "(string, enrollment) js_map"
  er_userCodes :: "(string, string) js_map"
  er_histories :: "(string, agent_key list) js_map"
  er_retentionMs :: int

definition new_repository :: "int \<Rightarrow> repository" where
  "new_repository retentionMs = \<lparr>er_enrollments = [], er_userCodes = [], er_histories = [], er_retentionMs = retentionMs\<rparr>"

definition history_of :: "string \<Rightarrow> repository \<Rightarrow> agent_key list" where
  "history_of slot r = (case map_of (er_histories r) slot of Some h \<Rightarrow> h | None \<Rightarrow> [])"

definition put_enrollment :: "string \<Rightarrow> enrollment \<Rightarrow> repository \<Rightarrow> repository" where
  "put_enrollment code e r = r\<lparr>er_enrollments := AList.update code e (er_enrollments r)\<rparr>"

definition createEnrollment :: "enrollment \<Rightarrow> repository \<Rightarrow> repository_error + repository" where
  "createEnrollment e r =
     (if map_of (er_enrollments r) (en_device_code e) \<noteq> None then Inl (DeviceCodeCollision (en_device_code e))
      else case map_of (er_userCodes r) (en_user_code e) of
        Some owner \<Rightarrow>
          if owner \<noteq> [] \<and> map_of (er_enrollments r) owner \<noteq> None then Inl (UserCodeCollision (en_user_code e))
          else Inr (put_enrollment (en_device_code e) e r\<lparr>er_userCodes := AList.update (en_user_code e) (en_device_code e) (er_userCodes r)\<rparr>)
      | None \<Rightarrow> Inr (put_enrollment (en_device_code e) e r\<lparr>er_userCodes := AList.update (en_user_code e) (en_device_code e) (er_userCodes r)\<rparr>))"

definition getEnrollment :: "string \<Rightarrow> repository \<Rightarrow> enrollment option" where
  "getEnrollment code r = map_of (er_enrollments r) code"

text \<open>The entry behind a user code; the empty device code counts as absent.\<close>

definition by_user_code :: "string \<Rightarrow> repository \<Rightarrow> (string \<times> enrollment) option" where
  "by_user_code userCode r =
     (case map_of (er_userCodes r) userCode of
        None \<Rightarrow> None
      | Some code \<Rightarrow> if code = [] then None else map_option (Pair code) (map_of (er_enrollments r) code))"

definition getEnrollmentByUserCode :: "string \<Rightarrow> repository \<Rightarrow> enrollment option" where
  "getEnrollmentByUserCode userCode r = map_option snd (by_user_code userCode r)"

definition claimed_by :: "string \<Rightarrow> enrollment \<Rightarrow> bool" where
  "claimed_by opId e \<longleftrightarrow> map_option cl_opId (en_claim e) = Some opId"

definition claimApproval :: "string \<Rightarrow> string \<Rightarrow> int \<Rightarrow> int \<Rightarrow> repository \<Rightarrow> repository_error + (claim_outcome \<times> repository)" where
  "claimApproval userCode opId leaseMs now r =
     (case by_user_code userCode r of
        None \<Rightarrow> Inr (ClaimNotFound, r)
      | Some (code, e) \<Rightarrow>
          if list_ex (\<lambda>(c, f). en_device_code f \<noteq> en_device_code e \<and> (claimed_by opId f \<or> en_committedBy f = Some opId)) (er_enrollments r)
          then Inl (CommitPayloadMismatch ''webchannel: approval opId reused for another enrollment'')
          else if en_status e = Approved then Inr (AlreadyApproved e, r)
          else if en_status e = Denied then Inr (ClaimDenied, r)
          else if en_status e = Expired then Inr (ClaimExpired, r)
          else if en_status e = Pending \<and> now > en_expiresAt e then Inr (ClaimExpired, put_enrollment code (e\<lparr>en_status := Expired\<rparr>) r)
          else (case (en_status e, en_claim e) of
              (Approving, Some c) \<Rightarrow>
                if now \<le> cl_leaseUntil c then Inr (InProgress (cl_leaseUntil c), r)
                else if now > en_expiresAt e then Inr (ClaimExpired, put_enrollment code (e\<lparr>en_status := Expired, en_claim := None\<rparr>) r)
                else let e' = e\<lparr>en_status := Approving, en_claim := Some \<lparr>cl_opId = opId, cl_leaseUntil = now + leaseMs\<rparr>\<rparr>
                     in Inr (Claimed e', put_enrollment code e' r)
            | (st, _) \<Rightarrow>
                if st = Approving \<and> now > en_expiresAt e then Inr (ClaimExpired, put_enrollment code (e\<lparr>en_status := Expired, en_claim := None\<rparr>) r)
                else let e' = e\<lparr>en_status := Approving, en_claim := Some \<lparr>cl_opId = opId, cl_leaseUntil = now + leaseMs\<rparr>\<rparr>
                     in Inr (Claimed e', put_enrollment code e' r)))"

fun first_active :: "agent_key list \<Rightarrow> nat option" where
  "first_active [] = None"
| "first_active (k # ks) = (if ak_status k = KeyActive then Some 0 else map_option Suc (first_active ks))"

definition registerSync ::
    "(string \<Rightarrow> string) \<Rightarrow> string \<Rightarrow> string \<Rightarrow> string \<Rightarrow> string option \<Rightarrow> int \<Rightarrow> string \<Rightarrow> repository \<Rightarrow> register_result \<times> repository" where
  "registerSync kid tenant accountId publicKey expect now activationId r =
     (let slot = agentKeyRegistryKey tenant accountId;
          history = history_of slot r;
          incoming = kid publicKey;
          index = first_active history;
          active = map_option ((!) history) index
      in if list_ex (\<lambda>k. ak_status k = KeyRevoked \<and> ak_keyId k = incoming) history then (RegRevoked, r)
         else if map_option ak_publicKey active = Some publicKey then (RegOk (the active) True, r)
         else if expect = None \<and> active \<noteq> None \<or> expect \<noteq> None \<and> map_option ak_activationId active \<noteq> expect then (RegConflict active, r)
         else let record = \<lparr>ak_tenant = tenant, ak_accountId = accountId, ak_publicKey = publicKey, ak_keyId = incoming,
                    ak_activationId = activationId, ak_status = KeyActive, ak_enrolledAt = now, ak_endedAt = None, ak_supersededBy = None\<rparr>;
                  ended = (case index of
                      None \<Rightarrow> history
                    | Some i \<Rightarrow> history[i := (history ! i)\<lparr>ak_status := KeySuperseded, ak_endedAt := Some now, ak_supersededBy := Some activationId\<rparr>])
              in (RegOk record False, r\<lparr>er_histories := AList.update slot (record # ended) (er_histories r)\<rparr>))"

definition commitApproval ::
    "(string \<Rightarrow> string) \<Rightarrow> (string \<Rightarrow> string) \<Rightarrow> string \<Rightarrow> commit_payload \<Rightarrow> int \<Rightarrow> int \<Rightarrow> string \<Rightarrow> repository \<Rightarrow> repository_error + (commit_outcome \<times> repository)" where
  "commitApproval kid sha opId commit now now2 activationId r =
     (case List.find (\<lambda>(c, e). claimed_by opId e \<or> en_status e = Approved \<and> en_committedBy e = Some opId) (er_enrollments r) of
        None \<Rightarrow> Inr (ClaimLost, r)
      | Some (code, e) \<Rightarrow>
          if en_status e = Approved \<and> en_committedBy e = Some opId then
            (case en_committedRecord e of
               Some k \<Rightarrow> if en_commitDigest e \<noteq> Some (digest sha commit) then Inl (CommitPayloadMismatch ''webchannel: commit payload does not match the claimed enrollment or committed operation'')
                         else Inr (Committed k True, r)
             | None \<Rightarrow> Inl (CommitPayloadMismatch ''webchannel: commit payload does not match the claimed enrollment or committed operation''))
          else (case en_claim e of
            None \<Rightarrow> Inr (ClaimLost, r)
          | Some cl \<Rightarrow>
              if en_status e \<noteq> Approving \<or> cl_opId cl \<noteq> opId \<or> now > cl_leaseUntil cl then Inr (ClaimLost, r)
              else if now > en_expiresAt e then Inr (CommitExpired, put_enrollment code (e\<lparr>en_status := Expired, en_claim := None\<rparr>) r)
              else if cp_agentPublicKey commit \<noteq> en_agentPublicKey e then Inl (CommitPayloadMismatch ''webchannel: commit agentPublicKey differs from enrollment'')
              else (case registerSync kid (en_tenant e) (en_accountId e) (cp_agentPublicKey commit) (cp_expect commit) now2 activationId r of
                  (RegOk k idem, r') \<Rightarrow>
                    Inr (Committed k False, put_enrollment code (e\<lparr>en_status := Approved, en_natsCreds := Some (cp_creds commit), en_peerId := Some (cp_peerId commit),
                      en_approvedAt := Some now, en_committedBy := Some opId, en_commitDigest := Some (digest sha commit), en_committedRecord := Some k, en_claim := None\<rparr>) r')
                | (RegRevoked, r') \<Rightarrow> Inr (CommitRevoked, put_enrollment code (e\<lparr>en_status := Pending, en_claim := None\<rparr>) r')
                | (RegConflict current, r') \<Rightarrow> Inr (CommitConflict current, put_enrollment code (e\<lparr>en_status := Pending, en_claim := None\<rparr>) r'))))"

definition releaseClaim :: "string \<Rightarrow> repository \<Rightarrow> bool \<times> repository" where
  "releaseClaim opId r =
     (case List.find (\<lambda>(c, e). en_status e = Approving \<and> claimed_by opId e) (er_enrollments r) of
        None \<Rightarrow> (False, r)
      | Some (code, e) \<Rightarrow> (True, put_enrollment code (e\<lparr>en_status := Pending, en_claim := None\<rparr>) r))"

definition tryDeny :: "string \<Rightarrow> int \<Rightarrow> repository \<Rightarrow> bool \<times> repository" where
  "tryDeny userCode now r =
     (case by_user_code userCode r of
        None \<Rightarrow> (False, r)
      | Some (code, e) \<Rightarrow>
          if en_status e \<noteq> Pending \<and> en_status e \<noteq> Approving then (False, r)
          else if now > en_expiresAt e then (False, put_enrollment code (e\<lparr>en_status := Expired, en_claim := None\<rparr>) r)
          else (True, put_enrollment code (e\<lparr>en_status := Denied, en_claim := None\<rparr>) r))"

definition tryExpire :: "string \<Rightarrow> int \<Rightarrow> repository \<Rightarrow> (bool \<times> enrollment option) \<times> repository" where
  "tryExpire deviceCode now r =
     (case map_of (er_enrollments r) deviceCode of
        None \<Rightarrow> ((False, None), r)
      | Some e \<Rightarrow>
          if en_status e = Pending \<and> now > en_expiresAt e then
            let e' = e\<lparr>en_status := Expired\<rparr> in ((True, Some e'), put_enrollment deviceCode e' r)
          else (case en_claim e of
              Some c \<Rightarrow>
                if en_status e = Approving \<and> now > cl_leaseUntil c \<and> now > en_expiresAt e then
                  let e' = e\<lparr>en_status := Expired, en_claim := None\<rparr> in ((True, Some e'), put_enrollment deviceCode e' r)
                else ((False, Some e), r)
            | None \<Rightarrow> ((False, Some e), r)))"

definition truthy :: "string option \<Rightarrow> bool" where
  "truthy x \<longleftrightarrow> x \<noteq> None \<and> x \<noteq> Some []"

definition reconcileApprovedRegistration ::
    "(string \<Rightarrow> string) \<Rightarrow> string \<Rightarrow> int \<Rightarrow> string \<Rightarrow> repository \<Rightarrow> repository_error + (reconcile_outcome \<times> repository)" where
  "reconcileApprovedRegistration kid deviceCode now activationId r =
     (case map_of (er_enrollments r) deviceCode of
        None \<Rightarrow> Inr (Noop NotFound, r)
      | Some e \<Rightarrow>
          if en_status e \<noteq> Approved then Inr (Noop NotApproved, r)
          else let history = history_of (agentKeyRegistryKey (en_tenant e) (en_accountId e)) r in
            if list_ex (\<lambda>k. ak_status k = KeyActive) history then Inr (Noop ActivePresent, r)
            else if history \<noteq> [] then Inr (Noop HistoryPresent, r)
            else if truthy (en_committedBy e) \<or> en_committedRecord e \<noteq> None then Inr (Noop CommitSnapshotPresent, r)
            else (case registerSync kid (en_tenant e) (en_accountId e) (en_agentPublicKey e) None now activationId r of
                (RegOk k idem, r') \<Rightarrow> Inr (Registered k, r')
              | (_, r') \<Rightarrow> Inl ImpossibleReconciliation))"

definition sweep_base :: "enrollment \<Rightarrow> int" where
  "sweep_base e = (if en_status e = Approved then (case en_approvedAt e of Some t \<Rightarrow> t | None \<Rightarrow> en_expiresAt e) else en_expiresAt e)"

definition swept :: "int \<Rightarrow> int \<Rightarrow> enrollment \<Rightarrow> bool" where
  "swept retentionMs now e \<longleftrightarrow>
     \<not> (en_status e = Approving \<and> (case en_claim e of Some c \<Rightarrow> now \<le> cl_leaseUntil c | None \<Rightarrow> False)) \<and> now > sweep_base e + retentionMs"

fun sweep_entry :: "int \<Rightarrow> string \<times> enrollment \<Rightarrow> nat \<times> repository \<Rightarrow> nat \<times> repository" where
  "sweep_entry now (code, e) (removed, r) =
     (if swept (er_retentionMs r) now e
      then (removed + 1, r\<lparr>er_enrollments := AList.delete code (er_enrollments r), er_userCodes := AList.delete (en_user_code e) (er_userCodes r)\<rparr>)
      else (removed, r))"

definition sweepEnrollments :: "int \<Rightarrow> repository \<Rightarrow> nat \<times> repository" where
  "sweepEnrollments now r = fold (sweep_entry now) (er_enrollments r) (0, r)"

definition getActive :: "string \<Rightarrow> string \<Rightarrow> repository \<Rightarrow> agent_key option" where
  "getActive tenant accountId r = List.find (\<lambda>k. ak_status k = KeyActive) (history_of (agentKeyRegistryKey tenant accountId) r)"

definition register where "register = registerSync"

definition revokeActive :: "string \<Rightarrow> string \<Rightarrow> int \<Rightarrow> repository \<Rightarrow> bool \<times> repository" where
  "revokeActive tenant accountId now r =
     (let slot = agentKeyRegistryKey tenant accountId in
      case map_of (er_histories r) slot of
        None \<Rightarrow> (False, r)
      | Some history \<Rightarrow>
          (case first_active history of
             None \<Rightarrow> (False, r)
           | Some i \<Rightarrow> (True, r\<lparr>er_histories := AList.update slot (history[i := (history ! i)\<lparr>ak_status := KeyRevoked, ak_endedAt := Some now\<rparr>]) (er_histories r)\<rparr>)))"

definition listHistory :: "string \<Rightarrow> string \<Rightarrow> repository \<Rightarrow> agent_key list" where
  "listHistory tenant accountId r = history_of (agentKeyRegistryKey tenant accountId) r"

section \<open>Executions\<close>

text \<open>The record \<^verbatim>\<open>enroll\<close> stores for a request.\<close>

record enroll_fields =
  ef_device_code :: string
  ef_user_code :: string
  ef_agentPublicKey :: string
  ef_accountId :: string
  ef_tenant :: string
  ef_now :: int
  ef_expiresAt :: int
  ef_pluginVersion :: "string option"
  ef_protocolVersion :: "int option"

definition pending_enrollment :: "enroll_fields \<Rightarrow> enrollment" where
  "pending_enrollment f = \<lparr>en_device_code = ef_device_code f, en_user_code = ef_user_code f, en_agentPublicKey = ef_agentPublicKey f,
     en_accountId = ef_accountId f, en_tenant = ef_tenant f, en_createdAt = ef_now f, en_expiresAt = ef_expiresAt f, en_status = Pending,
     en_claim = None, en_approvedAt = None, en_committedBy = None, en_commitDigest = None, en_committedRecord = None, en_natsCreds = None,
     en_peerId = None, en_pluginVersion = ef_pluginVersion f, en_protocolVersion = ef_protocolVersion f\<rparr>"

datatype repo_op =
    OpCreate enroll_fields
  | OpClaim string string int int
  | OpCommit string commit_payload int int string
  | OpRelease string
  | OpDeny string int
  | OpExpire string int
  | OpReconcile string int string
  | OpSweep int
  | OpRegister string string string "string option" int string
  | OpRevoke string string int

text \<open>A call that throws leaves the repository as it was.\<close>

definition after :: "'a + ('b \<times> repository) \<Rightarrow> repository \<Rightarrow> repository" where
  "after res r = (case res of Inl _ \<Rightarrow> r | Inr (_, r') \<Rightarrow> r')"

fun repo_step :: "(string \<Rightarrow> string) \<Rightarrow> (string \<Rightarrow> string) \<Rightarrow> repo_op \<Rightarrow> repository \<Rightarrow> repository" where
  "repo_step kid sha (OpCreate f) r = (case createEnrollment (pending_enrollment f) r of Inl _ \<Rightarrow> r | Inr r' \<Rightarrow> r')"
| "repo_step kid sha (OpClaim u op leaseMs now) r = after (claimApproval u op leaseMs now r) r"
| "repo_step kid sha (OpCommit op p now now2 act) r = after (commitApproval kid sha op p now now2 act r) r"
| "repo_step kid sha (OpRelease op) r = snd (releaseClaim op r)"
| "repo_step kid sha (OpDeny u now) r = snd (tryDeny u now r)"
| "repo_step kid sha (OpExpire d now) r = snd (tryExpire d now r)"
| "repo_step kid sha (OpReconcile d now act) r = after (reconcileApprovedRegistration kid d now act r) r"
| "repo_step kid sha (OpSweep now) r = snd (sweepEnrollments now r)"
| "repo_step kid sha (OpRegister t a k expect now act) r = snd (register kid t a k expect now act r)"
| "repo_step kid sha (OpRevoke t a now) r = snd (revokeActive t a now r)"

text \<open>Device codes are encoded random bytes, never empty.\<close>

fun op_ok :: "repo_op \<Rightarrow> bool" where
  "op_ok (OpCreate f) \<longleftrightarrow> ef_device_code f \<noteq> []"
| "op_ok _ \<longleftrightarrow> True"

definition repo_run :: "(string \<Rightarrow> string) \<Rightarrow> (string \<Rightarrow> string) \<Rightarrow> repo_op list \<Rightarrow> repository \<Rightarrow> repository" where
  "repo_run kid sha ops r = fold (repo_step kid sha) ops r"

section \<open>The registry invariant\<close>

definition is_active :: "agent_key \<Rightarrow> bool" where
  "is_active k \<longleftrightarrow> ak_status k = KeyActive"

text \<open>At most one active key, every key id is the hash of its key, and no active key was revoked.\<close>

definition slot_ok :: "(string \<Rightarrow> string) \<Rightarrow> agent_key list \<Rightarrow> bool" where
  "slot_ok kid h \<longleftrightarrow> length (filter is_active h) \<le> 1 \<and> list_all (\<lambda>k. ak_keyId k = kid (ak_publicKey k)) h \<and>
     (\<forall>k \<in> set h. \<forall>k' \<in> set h. ak_status k = KeyRevoked \<longrightarrow> is_active k' \<longrightarrow> ak_keyId k \<noteq> ak_keyId k')"

text \<open>What never changes of a history entry.\<close>

definition activation :: "agent_key \<Rightarrow> string \<times> string \<times> string \<times> string \<times> string \<times> int" where
  "activation k = (ak_tenant k, ak_accountId k, ak_publicKey k, ak_keyId k, ak_activationId k, ak_enrolledAt k)"

lemma first_active_None: "first_active h = None \<longleftrightarrow> filter is_active h = []"
  by (induction h) (auto simp: is_active_def)

lemma first_active_Some: "first_active h = Some i \<Longrightarrow> i < length h \<and> is_active (h ! i) \<and> filter is_active (take i h) = []"
  by (induction h arbitrary: i) (auto simp: is_active_def split: if_splits)

lemma find_first_active: "List.find is_active h = map_option ((!) h) (first_active h)"
  by (induction h) (auto simp: is_active_def option.map_comp comp_def)

lemma filter_update_inactive:
  assumes "first_active h = Some i" "\<not> is_active k"
  shows "length (filter is_active (h[i := k])) = length (filter is_active h) - 1"
proof -
  note i = first_active_Some[OF assms(1)]
  have "h[i := k] = take i h @ k # drop (Suc i) h" using i by (simp add: upd_conv_take_nth_drop)
  moreover have "filter is_active h = filter is_active (take i h @ h ! i # drop (Suc i) h)" using i by (simp add: id_take_nth_drop[symmetric])
  ultimately show ?thesis using i assms(2) by simp
qed

text \<open>How an operation may change one history: an ended entry, or a new activation on top.\<close>

inductive slot_step :: "(string \<Rightarrow> string) \<Rightarrow> agent_key list \<Rightarrow> agent_key list \<Rightarrow> bool" for kid where
  keep: "slot_step kid h h"
| add: "filter is_active h = [] \<Longrightarrow> is_active k \<Longrightarrow> ak_keyId k = kid (ak_publicKey k) \<Longrightarrow>
    \<forall>k' \<in> set h. ak_status k' = KeyRevoked \<longrightarrow> ak_keyId k' \<noteq> ak_keyId k \<Longrightarrow> slot_step kid h (k # h)"
| replace: "first_active h = Some i \<Longrightarrow> is_active k \<Longrightarrow> ak_keyId k = kid (ak_publicKey k) \<Longrightarrow>
    \<forall>k' \<in> set h. ak_status k' = KeyRevoked \<longrightarrow> ak_keyId k' \<noteq> ak_keyId k \<Longrightarrow>
    ended = (h ! i)\<lparr>ak_status := KeySuperseded, ak_endedAt := Some now, ak_supersededBy := Some act\<rparr> \<Longrightarrow> slot_step kid h (k # h[i := ended])"
| revoke: "first_active h = Some i \<Longrightarrow> ended = (h ! i)\<lparr>ak_status := KeyRevoked, ak_endedAt := Some now\<rparr> \<Longrightarrow> slot_step kid h (h[i := ended])"

lemma in_updated: "x \<in> set (h[i := y]) \<Longrightarrow> x = y \<or> x \<in> set h"
  using set_update_subset_insert[of h i y] by blast

lemma slot_step_activations: "slot_step kid h h' \<Longrightarrow> suffix (map activation h) (map activation h')"
proof (induction rule: slot_step.induct)
  case (replace h i k ended now act)
  then have "map activation (h[i := ended]) = map activation h" using first_active_Some[OF replace(1)]
    by (simp add: map_update activation_def list_update_same_conv)
  then show ?case by (simp add: suffix_ConsI)
next
  case (revoke h i ended now)
  then have "map activation (h[i := ended]) = map activation h" using first_active_Some[OF revoke(1)]
    by (simp add: map_update activation_def list_update_same_conv)
  then show ?case by simp
qed (auto simp: suffix_ConsI)

lemma slot_step_revoked:
  assumes "slot_step kid h h'" "k \<in> set h" "ak_status k = KeyRevoked"
  shows "k \<in> set h'"
proof -
  have other: "k \<in> set (h[i := e])" if "first_active h = Some i" for i e
  proof -
    note i = first_active_Some[OF that]
    obtain j where j: "j < length h" "h ! j = k" using assms(2) by (auto simp: in_set_conv_nth)
    then have "j \<noteq> i" using i assms(3) by (auto simp: is_active_def)
    then show ?thesis using j nth_list_update_neq[of i j h e] by (metis length_list_update nth_mem)
  qed
  show ?thesis using assms(1) by cases (use assms(2) other in auto)
qed

lemma slot_step_ok:
  assumes "slot_step kid h h'" "slot_ok kid h"
  shows "slot_ok kid h'"
  using assms(1)
proof cases
  case keep
  then show ?thesis using assms(2) by simp
next
  case (add k)
  then have "\<not> is_active k'" if "k' \<in> set h" for k' using that by (auto simp: filter_empty_conv)
  then show ?thesis using add assms(2) by (auto simp: slot_ok_def is_active_def)
next
  case (replace i k ended now act)
  note i = first_active_Some[OF replace(2)]
  have ended: "\<not> is_active ended" "ak_status ended \<noteq> KeyRevoked" "ak_keyId ended = kid (ak_publicKey ended)"
    using replace(6) i assms(2) by (auto simp: is_active_def slot_ok_def list_all_iff)
  have none: "filter is_active (h[i := ended]) = []"
    using filter_update_inactive[OF replace(2) ended(1)] assms(2) by (simp add: slot_ok_def)
  show ?thesis unfolding replace(1) slot_ok_def
    using none ended replace(3-5) assms(2) by (auto simp: filter_empty_conv slot_ok_def list_all_iff is_active_def dest!: in_updated)
next
  case (revoke i ended now)
  note i = first_active_Some[OF revoke(2)]
  have ended: "\<not> is_active ended" "ak_keyId ended = kid (ak_publicKey ended)"
    using revoke(3) i assms(2) by (auto simp: is_active_def slot_ok_def list_all_iff)
  have none: "filter is_active (h[i := ended]) = []"
    using filter_update_inactive[OF revoke(2) ended(1)] assms(2) by (simp add: slot_ok_def)
  show ?thesis unfolding revoke(1) slot_ok_def
    using none ended assms(2) by (auto simp: filter_empty_conv slot_ok_def list_all_iff dest!: in_updated)
qed

section \<open>The repository invariant\<close>

definition op_ids :: "enrollment \<Rightarrow> string set" where
  "op_ids e = {op. claimed_by op e \<or> en_committedBy e = Some op}"

definition slot_of :: "enrollment \<Rightarrow> string" where
  "slot_of e = agentKeyRegistryKey (en_tenant e) (en_accountId e)"

text \<open>An approved enrolment carries its credentials and an activation of its own key that the
  registry still lists; no other carries any.  Only an enrolment being approved has a claim.\<close>

definition entry_ok :: "repository \<Rightarrow> enrollment \<Rightarrow> bool" where
  "entry_ok r e \<longleftrightarrow> (en_status e = Approving \<longleftrightarrow> en_claim e \<noteq> None) \<and>
     (if en_status e = Approved
      then en_natsCreds e \<noteq> None \<and> en_peerId e \<noteq> None \<and> en_approvedAt e \<noteq> None \<and> en_committedBy e \<noteq> None \<and> en_commitDigest e \<noteq> None \<and>
        (\<exists>k. en_committedRecord e = Some k \<and> ak_publicKey k = en_agentPublicKey e \<and> activation k \<in> activation ` set (history_of (slot_of e) r))
      else en_natsCreds e = None \<and> en_peerId e = None \<and> en_approvedAt e = None \<and> en_committedBy e = None \<and> en_commitDigest e = None \<and> en_committedRecord e = None)"

definition repo_inv :: "(string \<Rightarrow> string) \<Rightarrow> repository \<Rightarrow> bool" where
  "repo_inv kid r \<longleftrightarrow> distinct (js_keys (er_enrollments r)) \<and>
     (\<forall>(c, e) \<in> set (er_enrollments r). c = en_device_code e \<and> c \<noteq> [] \<and> map_of (er_userCodes r) (en_user_code e) = Some c \<and> entry_ok r e) \<and>
     (\<forall>(c, e) \<in> set (er_enrollments r). \<forall>(c', e') \<in> set (er_enrollments r). c \<noteq> c' \<longrightarrow> op_ids e \<inter> op_ids e' = {}) \<and>
     (\<forall>slot. slot_ok kid (history_of slot r))"

lemma inv_entry:
  assumes "repo_inv kid r" "map_of (er_enrollments r) c = Some e"
  shows "c = en_device_code e" "c \<noteq> []" "map_of (er_userCodes r) (en_user_code e) = Some c" "entry_ok r e"
  using assms map_of_SomeD[OF assms(2)] by (auto simp: repo_inv_def)

lemma inv_ids:
  assumes "repo_inv kid r" "map_of (er_enrollments r) c = Some e" "map_of (er_enrollments r) c' = Some e'" "c \<noteq> c'"
  shows "op_ids e \<inter> op_ids e' = {}"
  using assms(1,4) map_of_SomeD[OF assms(2)] map_of_SomeD[OF assms(3)] unfolding repo_inv_def by fastforce

lemma invI:
  assumes "distinct (js_keys (er_enrollments r))"
    and "\<And>c e. map_of (er_enrollments r) c = Some e \<Longrightarrow> c = en_device_code e \<and> c \<noteq> [] \<and> map_of (er_userCodes r) (en_user_code e) = Some c \<and> entry_ok r e"
    and "\<And>c e c' e'. map_of (er_enrollments r) c = Some e \<Longrightarrow> map_of (er_enrollments r) c' = Some e' \<Longrightarrow> c \<noteq> c' \<Longrightarrow> op_ids e \<inter> op_ids e' = {}"
    and "\<And>slot. slot_ok kid (history_of slot r)"
  shows "repo_inv kid r"
  unfolding repo_inv_def
proof (intro conjI ballI; (clarify)?)
  have look: "map_of (er_enrollments r) c = Some e" if "(c, e) \<in> set (er_enrollments r)" for c e
    using that assms(1) by simp
  show "distinct (js_keys (er_enrollments r))" by (rule assms(1))
  show "c = en_device_code e \<and> c \<noteq> [] \<and> map_of (er_userCodes r) (en_user_code e) = Some c \<and> entry_ok r e" if "(c, e) \<in> set (er_enrollments r)" for c e
    using assms(2) look[OF that] by blast
  show "op_ids e \<inter> op_ids e' = {}" if "(c, e) \<in> set (er_enrollments r)" "(c', e') \<in> set (er_enrollments r)" "c \<noteq> c'" for c e c' e'
    using assms(3) look that by blast
  show "slot_ok kid (history_of slot r)" for slot by (rule assms(4))
qed

lemma entry_ok_mono:
  assumes "entry_ok r e" "\<And>slot. activation ` set (history_of slot r) \<subseteq> activation ` set (history_of slot r')"
  shows "entry_ok r' e"
proof -
  have "activation k \<in> activation ` set (history_of (slot_of e) r')" if "activation k \<in> activation ` set (history_of (slot_of e) r)" for k
    by (rule subsetD[OF assms(2) that])
  then show ?thesis using assms(1) unfolding entry_ok_def by (auto split: if_splits)
qed

text \<open>Replacing one entry.\<close>

lemma inv_put:
  assumes inv: "repo_inv kid r" and e: "map_of (er_enrollments r) c = Some e"
    and hist: "\<And>slot. slot_step kid (history_of slot r) (history_of slot r')"
    and enr: "er_enrollments r' = AList.update c e' (er_enrollments r)" "er_userCodes r' = er_userCodes r"
    and same: "en_device_code e' = en_device_code e" "en_user_code e' = en_user_code e"
    and ok: "entry_ok r' e'"
    and ids: "\<And>op c' f. op \<in> op_ids e' \<Longrightarrow> op \<notin> op_ids e \<Longrightarrow> map_of (er_enrollments r) c' = Some f \<Longrightarrow> c' \<noteq> c \<Longrightarrow> op \<notin> op_ids f"
  shows "repo_inv kid r'"
proof (rule invI)
  have act: "activation ` set (history_of slot r) \<subseteq> activation ` set (history_of slot r')" for slot
    using set_mono_suffix[OF slot_step_activations[OF hist[of slot]]] by simp
  show "distinct (js_keys (er_enrollments r'))" using inv enr by (simp add: repo_inv_def)
  show "slot_ok kid (history_of slot r')" for slot using slot_step_ok[OF hist] inv by (simp add: repo_inv_def)
  have look: "map_of (er_enrollments r') d = (if d = c then Some e' else map_of (er_enrollments r) d)" for d
    using enr(1) by (simp add: AList.update_conv')
  show "d = en_device_code f \<and> d \<noteq> [] \<and> map_of (er_userCodes r') (en_user_code f) = Some d \<and> entry_ok r' f" if "map_of (er_enrollments r') d = Some f" for d f
    using that inv_entry[OF inv e] inv_entry[OF inv, of d f] same ok entry_ok_mono[OF _ act] unfolding look enr(2) by (auto split: if_splits)
  show "op_ids f \<inter> op_ids f' = {}" if "map_of (er_enrollments r') d = Some f" "map_of (er_enrollments r') d' = Some f'" "d \<noteq> d'" for d f d' f'
    using that inv_ids[OF inv] ids e unfolding look by (auto split: if_splits; blast)
qed

lemma inv_put_simple:
  assumes "repo_inv kid r" "map_of (er_enrollments r) c = Some e"
    and "en_device_code e' = en_device_code e" "en_user_code e' = en_user_code e" "entry_ok r e'"
    and "\<And>op c' f. op \<in> op_ids e' \<Longrightarrow> op \<notin> op_ids e \<Longrightarrow> map_of (er_enrollments r) c' = Some f \<Longrightarrow> c' \<noteq> c \<Longrightarrow> op \<notin> op_ids f"
  shows "repo_inv kid (put_enrollment c e' r)"
proof (rule inv_put[OF assms(1,2), where e' = e'])
  show "slot_step kid (history_of slot r) (history_of slot (put_enrollment c e' r))" for slot
    by (simp add: history_of_def put_enrollment_def slot_step.keep)
  show "entry_ok (put_enrollment c e' r) e'" using assms(5) by (rule entry_ok_mono) (simp add: history_of_def put_enrollment_def)
qed (use assms in \<open>simp_all add: put_enrollment_def\<close>)

text \<open>Ending an approval without credentials.\<close>

lemma inv_unclaim:
  assumes "repo_inv kid r" "map_of (er_enrollments r) c = Some e" "en_status e = Pending \<or> en_status e = Approving" "st \<noteq> Approving" "st \<noteq> Approved"
  shows "repo_inv kid (put_enrollment c (e\<lparr>en_status := st, en_claim := None\<rparr>) r)"
  by (rule inv_put_simple[OF assms(1,2)])
    (use inv_entry(4)[OF assms(1,2)] assms(3-5) in \<open>auto simp: entry_ok_def op_ids_def claimed_by_def split: if_splits\<close>)

lemma inv_expire_pending:
  assumes "repo_inv kid r" "map_of (er_enrollments r) c = Some e" "en_status e = Pending"
  shows "repo_inv kid (put_enrollment c (e\<lparr>en_status := Expired\<rparr>) r)"
proof -
  have "en_claim e = None" using inv_entry(4)[OF assms(1,2)] assms(3) by (simp add: entry_ok_def)
  then have "e\<lparr>en_status := Expired, en_claim := None\<rparr> = e\<lparr>en_status := Expired\<rparr>" by (cases e) simp
  then show ?thesis using inv_unclaim[OF assms(1,2), of Expired] assms(3) by simp
qed

lemma by_user_code_Some: "by_user_code u r = Some (c, e) \<Longrightarrow> map_of (er_enrollments r) c = Some e"
  by (auto simp: by_user_code_def split: option.splits if_splits)

lemma find_entry:
  assumes "List.find P (er_enrollments r) = Some (c, e)" "repo_inv kid r"
  shows "map_of (er_enrollments r) c = Some e \<and> P (c, e)"
  using assms unfolding repo_inv_def by (auto simp: find_Some_iff)

section \<open>Preservation\<close>

lemma registerSync_cases:
  assumes "registerSync kid t a pk expect now act r = (res, r')"
  shows "er_enrollments r' = er_enrollments r" "er_userCodes r' = er_userCodes r" "er_retentionMs r' = er_retentionMs r"
    and "slot_step kid (history_of slot r) (history_of slot r')"
    and "res = RegOk k idem \<Longrightarrow> ak_publicKey k = pk \<and> is_active k \<and> k \<in> set (history_of (agentKeyRegistryKey t a) r')"
    and "(\<And>k i. res \<noteq> RegOk k i) \<Longrightarrow> r' = r"
proof -
  let ?s = "agentKeyRegistryKey t a"
  let ?h = "history_of ?s r"
  let ?rec = "\<lparr>ak_tenant = t, ak_accountId = a, ak_publicKey = pk, ak_keyId = kid pk,
     ak_activationId = act, ak_status = KeyActive, ak_enrolledAt = now, ak_endedAt = None, ak_supersededBy = None\<rparr>"
  consider (same) "r' = r" "\<And>k i. res = RegOk k i \<Longrightarrow> (\<exists>j. first_active ?h = Some j \<and> k = ?h ! j \<and> ak_publicKey k = pk)"
    | (new) ended where "r' = r\<lparr>er_histories := AList.update ?s (?rec # ended) (er_histories r)\<rparr>" "res = RegOk ?rec False" "slot_step kid ?h (?rec # ended)"
  proof -
    let ?rev = "list_ex (\<lambda>k. ak_status k = KeyRevoked \<and> ak_keyId k = kid pk) ?h"
    show ?thesis
    proof (cases ?rev)
      case True
      then show ?thesis using assms same by (simp add: registerSync_def Let_def)
    next
      case notrev: False
      then have fresh: "\<forall>k' \<in> set ?h. ak_status k' = KeyRevoked \<longrightarrow> ak_keyId k' \<noteq> ak_keyId ?rec" by (auto simp: list_ex_iff)
      show ?thesis
      proof (cases "first_active ?h")
        case None
        then have "slot_step kid ?h (?rec # ?h)" using fresh by (intro slot_step.add) (auto simp: first_active_None is_active_def)
        then show ?thesis using assms notrev None same new[of ?h] by (auto simp: registerSync_def Let_def split: if_splits)
      next
        case (Some i)
        let ?ended = "?h[i := (?h ! i)\<lparr>ak_status := KeySuperseded, ak_endedAt := Some now, ak_supersededBy := Some act\<rparr>]"
        have "slot_step kid ?h (?rec # ?ended)" using Some fresh by (intro slot_step.replace) (auto simp: is_active_def)
        then show ?thesis using assms notrev Some same new[of ?ended] by (auto simp: registerSync_def Let_def split: if_splits)
      qed
    qed
  qed
  note c = this
  have "er_enrollments r' = er_enrollments r \<and> er_userCodes r' = er_userCodes r \<and> er_retentionMs r' = er_retentionMs r"
    using c by cases auto
  then show "er_enrollments r' = er_enrollments r" "er_userCodes r' = er_userCodes r" "er_retentionMs r' = er_retentionMs r" by auto
  show "slot_step kid (history_of slot r) (history_of slot r')"
    using c by cases (auto simp: history_of_def AList.update_conv' slot_step.keep)
  show "ak_publicKey k = pk \<and> is_active k \<and> k \<in> set (history_of ?s r')" if reg: "res = RegOk k idem"
    using c
  proof cases
    case same
    then obtain j where j: "first_active ?h = Some j" "k = ?h ! j" "ak_publicKey k = pk" using reg by blast
    then show ?thesis using first_active_Some[OF j(1)] same(1) by simp
  next
    case (new ended)
    then show ?thesis using reg by (simp add: history_of_def AList.update_conv' is_active_def)
  qed
  show "r' = r" if "\<And>k i. res \<noteq> RegOk k i"
    using c by cases (use that in auto)
qed

lemma inv_registry:
  assumes "repo_inv kid r" "er_enrollments r' = er_enrollments r" "er_userCodes r' = er_userCodes r"
    "\<And>slot. slot_step kid (history_of slot r) (history_of slot r')"
  shows "repo_inv kid r'"
proof (rule invI)
  have act: "activation ` set (history_of slot r) \<subseteq> activation ` set (history_of slot r')" for slot
    using set_mono_suffix[OF slot_step_activations[OF assms(4)[of slot]]] by simp
  show "c = en_device_code e \<and> c \<noteq> [] \<and> map_of (er_userCodes r') (en_user_code e) = Some c \<and> entry_ok r' e"
    if "map_of (er_enrollments r') c = Some e" for c e
    using inv_entry[OF assms(1), of c e] that entry_ok_mono[OF _ act] unfolding assms(2,3) by blast
  show "op_ids e \<inter> op_ids e' = {}" if "map_of (er_enrollments r') c = Some e" "map_of (er_enrollments r') c' = Some e'" "c \<noteq> c'" for c e c' e'
    using inv_ids[OF assms(1)] that unfolding assms(2) by blast
  show "slot_ok kid (history_of slot r')" for slot using slot_step_ok[OF assms(4)] assms(1) by (simp add: repo_inv_def)
  show "distinct (js_keys (er_enrollments r'))" using assms by (simp add: repo_inv_def)
qed

lemma history_put: "history_of slot (put_enrollment c e r) = history_of slot r"
  by (simp add: history_of_def put_enrollment_def)

lemma enrollment_create_inv:
  assumes "repo_inv kid r" "ef_device_code f \<noteq> []" "createEnrollment (pending_enrollment f) r = Inr r'"
  shows "repo_inv kid r'"
proof -
  let ?e = "pending_enrollment f"
  let ?c = "en_device_code ?e" and ?u = "en_user_code ?e"
  have new: "map_of (er_enrollments r) ?c = None" and r': "er_enrollments r' = AList.update ?c ?e (er_enrollments r)"
    "er_userCodes r' = AList.update ?u ?c (er_userCodes r)" "er_histories r' = er_histories r"
    and free: "\<And>d. map_of (er_userCodes r) ?u = Some d \<Longrightarrow> d = [] \<or> map_of (er_enrollments r) d = None"
    using assms(3) by (auto simp: createEnrollment_def put_enrollment_def split: if_splits option.splits)
  have hist: "history_of slot r' = history_of slot r" for slot using r'(3) by (simp add: history_of_def)
  have look: "map_of (er_enrollments r') d = (if d = ?c then Some ?e else map_of (er_enrollments r) d)" for d
    using r'(1) by (simp add: AList.update_conv')
  have other: "en_user_code e \<noteq> ?u" if "map_of (er_enrollments r) d = Some e" for d e
    using inv_entry[OF assms(1) that] free that by (metis option.distinct(1))
  have ids: "op_ids ?e = {}" by (simp add: op_ids_def claimed_by_def pending_enrollment_def)
  show ?thesis
  proof (rule invI)
    show "distinct (js_keys (er_enrollments r'))" using assms(1) r'(1) by (simp add: repo_inv_def)
    show "slot_ok kid (history_of slot r')" for slot using assms(1) hist by (simp add: repo_inv_def)
    show "d = en_device_code e \<and> d \<noteq> [] \<and> map_of (er_userCodes r') (en_user_code e) = Some d \<and> entry_ok r' e" if d: "map_of (er_enrollments r') d = Some e" for d e
    proof (cases "d = ?c")
      case True
      then have e: "e = ?e" using d look by simp
      have "entry_ok r' ?e" by (simp add: entry_ok_def pending_enrollment_def)
      then show ?thesis using True e assms(2) r'(2) by (simp add: AList.update_conv' pending_enrollment_def)
    next
      case False
      then have e: "map_of (er_enrollments r) d = Some e" using d look by simp
      show ?thesis using inv_entry[OF assms(1) e] other[OF e] entry_ok_mono[of r e r'] r'(2) hist by (auto simp: AList.update_conv')
    qed
    show "op_ids e \<inter> op_ids e' = {}" if "map_of (er_enrollments r') d = Some e" "map_of (er_enrollments r') d' = Some e'" "d \<noteq> d'" for d e d' e'
      using that inv_ids[OF assms(1)] ids unfolding look by (cases "d = ?c"; cases "d' = ?c") auto
  qed
qed

lemma claim_puts:
  assumes inv: "repo_inv kid r" and e: "map_of (er_enrollments r) c = Some e" and st: "en_status e = Pending \<or> en_status e = Approving"
    and fresh: "\<not> list_ex (\<lambda>(c, f). en_device_code f \<noteq> en_device_code e \<and> (claimed_by op f \<or> en_committedBy f = Some op)) (er_enrollments r)"
  shows "repo_inv kid (put_enrollment c (e\<lparr>en_status := Approving, en_claim := Some \<lparr>cl_opId = op, cl_leaseUntil = t\<rparr>\<rparr>) r)"
proof (rule inv_put_simple[OF inv e])
  show "entry_ok r (e\<lparr>en_status := Approving, en_claim := Some \<lparr>cl_opId = op, cl_leaseUntil = t\<rparr>\<rparr>)"
    using inv_entry(4)[OF inv e] st by (auto simp: entry_ok_def split: if_splits)
  show "op' \<notin> op_ids f" if "op' \<in> op_ids (e\<lparr>en_status := Approving, en_claim := Some \<lparr>cl_opId = op, cl_leaseUntil = t\<rparr>\<rparr>)" "op' \<notin> op_ids e"
    "map_of (er_enrollments r) c' = Some f" "c' \<noteq> c" for op' c' f
  proof -
    have "op' = op" using that(1,2) by (auto simp: op_ids_def claimed_by_def)
    moreover have "en_device_code f \<noteq> en_device_code e" using inv_entry(1)[OF inv e] inv_entry(1)[OF inv that(3)] that(4) by simp
    ultimately show ?thesis using fresh map_of_SomeD[OF that(3)] by (auto simp: list_ex_iff op_ids_def)
  qed
qed simp_all

lemma claim_cases:
  assumes "claimApproval u op leaseMs now r = Inr (res, r')"
  obtains (same) "r' = r" "\<And>e. res \<noteq> Claimed e"
  | (expire_pending) c e where "map_of (er_enrollments r) c = Some e" "en_status e = Pending" "r' = put_enrollment c (e\<lparr>en_status := Expired\<rparr>) r" "\<And>e. res \<noteq> Claimed e"
  | (expire_approving) c e where "map_of (er_enrollments r) c = Some e" "en_status e = Approving" "r' = put_enrollment c (e\<lparr>en_status := Expired, en_claim := None\<rparr>) r" "\<And>e. res \<noteq> Claimed e"
  | (claimed) c e e' where "by_user_code u r = Some (c, e)" "en_status e = Pending \<or> en_status e = Approving"
      "\<not> list_ex (\<lambda>(c, f). en_device_code f \<noteq> en_device_code e \<and> (claimed_by op f \<or> en_committedBy f = Some op)) (er_enrollments r)"
      "e' = e\<lparr>en_status := Approving, en_claim := Some \<lparr>cl_opId = op, cl_leaseUntil = now + leaseMs\<rparr>\<rparr>" "res = Claimed e'" "r' = put_enrollment c e' r"
proof (cases "by_user_code u r")
  case None
  then show ?thesis using assms same by (simp add: claimApproval_def)
next
  case (Some ce)
  obtain c e where ce: "ce = (c, e)" by fastforce
  note e = by_user_code_Some[OF Some[unfolded ce]]
  note a = assms[unfolded claimApproval_def Some ce option.case prod.case Let_def]
  show ?thesis
  proof (cases "en_status e")
    case Pending
    then show ?thesis using a expire_pending[OF e] claimed[OF Some[unfolded ce]] by (auto split: if_splits)
  next
    case Approving
    then show ?thesis using a same expire_approving[OF e] claimed[OF Some[unfolded ce]] by (cases "en_claim e") (auto split: if_splits)
  qed (use a same in \<open>auto split: if_splits\<close>)
qed

lemma claim_inv:
  assumes "repo_inv kid r" "claimApproval u op leaseMs now r = Inr (res, r')"
  shows "repo_inv kid r'"
  using assms(2)
proof (cases rule: claim_cases)
  case same
  then show ?thesis using assms(1) by simp
next
  case (expire_pending c e)
  then show ?thesis using inv_expire_pending[OF assms(1)] by simp
next
  case (expire_approving c e)
  then show ?thesis using inv_unclaim[OF assms(1)] by simp
next
  case (claimed c e e')
  show ?thesis unfolding claimed(6,4) by (rule claim_puts[OF assms(1) by_user_code_Some[OF claimed(1)] claimed(2,3)])
qed

lemma deny_inv: "repo_inv kid r \<Longrightarrow> repo_inv kid (snd (tryDeny u now r))"
  using inv_unclaim by (fastforce simp: tryDeny_def dest: by_user_code_Some split: option.splits)

lemma release_inv: "repo_inv kid r \<Longrightarrow> repo_inv kid (snd (releaseClaim op r))"
  using inv_unclaim by (fastforce simp: releaseClaim_def dest!: find_entry split: option.splits)

lemma expire_inv: "repo_inv kid r \<Longrightarrow> repo_inv kid (snd (tryExpire d now r))"
proof (cases "map_of (er_enrollments r) d")
  case (Some e)
  assume inv: "repo_inv kid r"
  have "repo_inv kid (put_enrollment d (e\<lparr>en_status := Expired, en_claim := None\<rparr>) r)" if "en_status e = Pending \<or> en_status e = Approving"
    using inv_unclaim[OF inv Some that] by simp
  moreover note inv_expire_pending[OF inv Some]
  ultimately show ?thesis using inv Some by (auto simp: tryExpire_def Let_def split: option.splits)
qed (simp add: tryExpire_def)

lemma revoke_step: "slot_step kid (history_of slot r) (history_of slot (snd (revokeActive t a now r)))"
  by (auto simp: revokeActive_def Let_def history_of_def AList.update_conv' slot_step.keep split: option.splits intro: slot_step.revoke)

lemma revoke_same: "er_enrollments (snd (revokeActive t a now r)) = er_enrollments r" "er_userCodes (snd (revokeActive t a now r)) = er_userCodes r"
  by (auto simp: revokeActive_def Let_def split: option.splits)

lemma revoke_inv: "repo_inv kid r \<Longrightarrow> repo_inv kid (snd (revokeActive t a now r))"
  by (rule inv_registry) (auto simp: revoke_same revoke_step)

lemma register_inv:
  assumes "repo_inv kid r" "registerSync kid t a pk expect now act r = (res, r')"
  shows "repo_inv kid r'"
  by (rule inv_registry[OF assms(1)]) (rule registerSync_cases[OF assms(2)])+

lemma reconcile_cases:
  assumes "reconcileApprovedRegistration kid d now act r = Inr (res, r')"
  shows "r' = r \<or> (\<exists>t a pk x. registerSync kid t a pk None now act r = (x, r'))"
  using assms by (auto simp: reconcileApprovedRegistration_def Let_def split: option.splits if_splits prod.splits register_result.splits)

lemma reconcile_inv: "repo_inv kid r \<Longrightarrow> reconcileApprovedRegistration kid d now act r = Inr (res, r') \<Longrightarrow> repo_inv kid r'"
  using reconcile_cases register_inv by blast

definition approved_entry :: "(string \<Rightarrow> string) \<Rightarrow> string \<Rightarrow> commit_payload \<Rightarrow> int \<Rightarrow> agent_key \<Rightarrow> enrollment \<Rightarrow> enrollment" where
  "approved_entry sha op p now k e = e\<lparr>en_status := Approved, en_natsCreds := Some (cp_creds p), en_peerId := Some (cp_peerId p),
     en_approvedAt := Some now, en_committedBy := Some op, en_commitDigest := Some (digest sha p), en_committedRecord := Some k, en_claim := None\<rparr>"

lemma commit_cases:
  assumes "commitApproval kid sha op p now now2 act r = Inr (res, r')" "repo_inv kid r"
  obtains (lost) "res = ClaimLost" "r' = r"
  | (retried) c e k where "map_of (er_enrollments r) c = Some e" "en_status e = Approved" "en_committedBy e = Some op" "en_committedRecord e = Some k"
      "en_commitDigest e = Some (digest sha p)" "res = Committed k True" "r' = r"
  | (expired) c e where "map_of (er_enrollments r) c = Some e" "en_status e = Approving" "res = CommitExpired" "r' = put_enrollment c (e\<lparr>en_status := Expired, en_claim := None\<rparr>) r"
  | (undone) c e where "map_of (er_enrollments r) c = Some e" "en_status e = Approving" "\<And>k i. res \<noteq> Committed k i" "r' = put_enrollment c (e\<lparr>en_status := Pending, en_claim := None\<rparr>) r"
  | (committed) c e cl k idem r1 where "map_of (er_enrollments r) c = Some e" "en_status e = Approving" "en_claim e = Some cl" "cl_opId cl = op"
      "now \<le> cl_leaseUntil cl" "now \<le> en_expiresAt e" "cp_agentPublicKey p = en_agentPublicKey e"
      "registerSync kid (en_tenant e) (en_accountId e) (cp_agentPublicKey p) (cp_expect p) now2 act r = (RegOk k idem, r1)"
      "res = Committed k False" "r' = put_enrollment c (approved_entry sha op p now k e) r1"
proof (cases "List.find (\<lambda>(c, e). claimed_by op e \<or> en_status e = Approved \<and> en_committedBy e = Some op) (er_enrollments r)")
  case None
  then show ?thesis using assms(1) lost by (simp add: commitApproval_def)
next
  case (Some ce)
  obtain c e where ce: "ce = (c, e)" by fastforce
  have e: "map_of (er_enrollments r) c = Some e" using find_entry[OF Some[unfolded ce] assms(2)] by simp
  note a = assms(1)[unfolded commitApproval_def Some ce option.case prod.case Let_def]
  show ?thesis
  proof (cases "en_status e = Approved \<and> en_committedBy e = Some op")
    case True
    then show ?thesis using a retried[OF e] by (auto split: option.splits if_splits)
  next
    case False
    obtain res1 r1 where reg: "registerSync kid (en_tenant e) (en_accountId e) (cp_agentPublicKey p) (cp_expect p) now2 act r = (res1, r1)" by fastforce
    show ?thesis
    proof (cases "\<exists>k i. res1 = RegOk k i")
      case True
      then show ?thesis using a False lost expired[OF e] committed[OF e, of _ _ _ r1] reg
        by (auto simp: approved_entry_def split: option.splits if_splits)
    next
      case fail: False
      then have "r1 = r" using registerSync_cases(6)[OF reg] by blast
      then show ?thesis using a False fail lost expired[OF e] undone[OF e] reg
        by (auto split: option.splits if_splits register_result.splits)
    qed
  qed
qed

lemma commit_inv:
  assumes "repo_inv kid r" "commitApproval kid sha op p now now2 act r = Inr (res, r')"
  shows "repo_inv kid r'"
  using assms(2,1)
proof (cases rule: commit_cases)
  case (expired c e)
  then show ?thesis using inv_unclaim[OF assms(1)] by simp
next
  case (undone c e)
  then show ?thesis using inv_unclaim[OF assms(1)] by simp
next
  case (committed c e cl k idem r1)
  note reg = registerSync_cases[OF committed(8)]
  let ?e = "approved_entry sha op p now k e"
  have k: "ak_publicKey k = en_agentPublicKey e" "k \<in> set (history_of (slot_of e) r1)"
    using reg(5)[OF refl] committed(7) by (simp_all add: slot_of_def)
  have "entry_ok r' ?e" using k unfolding committed(10)
    by (simp add: entry_ok_def approved_entry_def history_put slot_of_def)
  moreover have "slot_step kid (history_of slot r) (history_of slot r')" for slot
    unfolding committed(10) history_put by (rule reg(4))
  moreover have "op_ids ?e \<subseteq> op_ids e" using committed(3,4) by (auto simp: op_ids_def approved_entry_def claimed_by_def)
  ultimately show ?thesis
    by (intro inv_put[OF assms(1) committed(1), where e' = ?e]) (use committed(10) reg in \<open>auto simp: put_enrollment_def approved_entry_def\<close>)
qed (use assms(1) in simp_all)

lemma inv_remove:
  assumes "repo_inv kid r" "map_of (er_enrollments r) c = Some e"
  shows "repo_inv kid (r\<lparr>er_enrollments := AList.delete c (er_enrollments r), er_userCodes := AList.delete (en_user_code e) (er_userCodes r)\<rparr>)"
proof (rule invI)
  let ?r = "r\<lparr>er_enrollments := AList.delete c (er_enrollments r), er_userCodes := AList.delete (en_user_code e) (er_userCodes r)\<rparr>"
  have look: "map_of (er_enrollments ?r) d = (if d = c then None else map_of (er_enrollments r) d)" for d by (simp add: AList.delete_conv')
  have hist: "history_of slot ?r = history_of slot r" for slot by (simp add: history_of_def)
  show "d = en_device_code f \<and> d \<noteq> [] \<and> map_of (er_userCodes ?r) (en_user_code f) = Some d \<and> entry_ok ?r f" if "map_of (er_enrollments ?r) d = Some f" for d f
  proof -
    have f: "map_of (er_enrollments r) d = Some f" "d \<noteq> c" using that look by (auto split: if_splits)
    have "en_user_code f \<noteq> en_user_code e" using inv_entry(3)[OF assms] inv_entry(3)[OF assms(1) f(1)] f(2) by auto
    then show ?thesis using inv_entry[OF assms(1) f(1)] entry_ok_mono[of r f ?r] hist by (auto simp: AList.delete_conv')
  qed
  show "op_ids f \<inter> op_ids f' = {}" if "map_of (er_enrollments ?r) d = Some f" "map_of (er_enrollments ?r) d' = Some f'" "d \<noteq> d'" for d f d' f'
    using that inv_ids[OF assms(1)] look by (metis option.distinct(1))
  show "slot_ok kid (history_of slot ?r)" for slot using assms(1) hist by (simp add: repo_inv_def)
  show "distinct (js_keys (er_enrollments ?r))" using assms(1) by (simp add: repo_inv_def)
qed

text \<open>What a sweep leaves: a subset of the entries, untouched.\<close>

lemma sweep_fold:
  "repo_inv kid r \<Longrightarrow> distinct (js_keys xs) \<Longrightarrow> (\<forall>(c, e) \<in> set xs. map_of (er_enrollments r) c = Some e) \<Longrightarrow>
   fold (sweep_entry now) xs (n, r) = (n', r') \<Longrightarrow>
   repo_inv kid r' \<and> er_histories r' = er_histories r \<and> er_retentionMs r' = er_retentionMs r \<and>
   (\<forall>c. map_of (er_enrollments r') c = (case map_of xs c of Some e \<Rightarrow> if swept (er_retentionMs r) now e then None else Some e | None \<Rightarrow> map_of (er_enrollments r) c))"
proof (induction xs arbitrary: n r)
  case (Cons x xs)
  obtain c e where x: "x = (c, e)" by fastforce
  have e: "map_of (er_enrollments r) c = Some e" using Cons.prems(3) x by simp
  obtain n1 r1 where r1: "sweep_entry now (c, e) (n, r) = (n1, r1)" by fastforce
  have step: "repo_inv kid r1" "er_histories r1 = er_histories r" "er_retentionMs r1 = er_retentionMs r"
    "\<And>d. map_of (er_enrollments r1) d = (if d = c \<and> swept (er_retentionMs r) now e then None else map_of (er_enrollments r) d)"
    using r1 inv_remove[OF Cons.prems(1) e] Cons.prems(1) by (auto simp: AList.delete_conv' split: if_splits)
  have c: "map_of xs c = None" using Cons.prems(2) x map_of_None_keys[of xs c] by simp
  have mem: "\<forall>(d, f) \<in> set xs. map_of (er_enrollments r1) d = Some f" using Cons.prems(2,3) x step(4) by force
  have rest: "distinct (js_keys xs)" "fold (sweep_entry now) xs (n1, r1) = (n', r')" using Cons.prems(2,4) x r1 by simp_all
  have IH: "repo_inv kid r'" "er_histories r' = er_histories r" "er_retentionMs r' = er_retentionMs r"
    "\<And>d. map_of (er_enrollments r') d = (case map_of xs d of Some f \<Rightarrow> if swept (er_retentionMs r) now f then None else Some f
       | None \<Rightarrow> if d = c \<and> swept (er_retentionMs r) now e then None else map_of (er_enrollments r) d)"
    using Cons.IH[OF step(1) rest(1) mem rest(2), unfolded step(2-4)] by blast+
  have "map_of (er_enrollments r') d = (case map_of (x # xs) d of Some f \<Rightarrow> if swept (er_retentionMs r) now f then None else Some f
       | None \<Rightarrow> map_of (er_enrollments r) d)" for d
    using IH(4)[of d] x c e by (cases "d = c") (auto split: option.split)
  then show ?case using IH(1-3) by blast
qed simp

lemma sweep_cases:
  assumes "repo_inv kid r"
  shows "repo_inv kid (snd (sweepEnrollments now r))" "er_histories (snd (sweepEnrollments now r)) = er_histories r"
    and "map_of (er_enrollments (snd (sweepEnrollments now r))) c =
      (case map_of (er_enrollments r) c of Some e \<Rightarrow> if swept (er_retentionMs r) now e then None else Some e | None \<Rightarrow> None)"
proof -
  obtain n' r' where s: "sweepEnrollments now r = (n', r')" by fastforce
  have d: "distinct (js_keys (er_enrollments r))" using assms by (simp add: repo_inv_def)
  then have "\<forall>(c, e) \<in> set (er_enrollments r). map_of (er_enrollments r) c = Some e" by auto
  from sweep_fold[OF assms d this s[unfolded sweepEnrollments_def]] s
  show "repo_inv kid (snd (sweepEnrollments now r))" "er_histories (snd (sweepEnrollments now r)) = er_histories r"
    "map_of (er_enrollments (snd (sweepEnrollments now r))) c =
      (case map_of (er_enrollments r) c of Some e \<Rightarrow> if swept (er_retentionMs r) now e then None else Some e | None \<Rightarrow> None)"
    by (auto split: option.split)
qed

lemma after_inv: "repo_inv kid r \<Longrightarrow> (\<And>x r'. res = Inr (x, r') \<Longrightarrow> repo_inv kid r') \<Longrightarrow> repo_inv kid (after res r)"
  by (auto simp: after_def split: sum.split prod.split)

lemma repo_step_inv:
  assumes "repo_inv kid r" "op_ok op"
  shows "repo_inv kid (repo_step kid sha op r)"
proof (cases op)
  case (OpCreate f)
  then show ?thesis using assms enrollment_create_inv[OF assms(1)] by (auto split: sum.split)
next
  case (OpClaim u opId leaseMs now)
  then show ?thesis using after_inv[OF assms(1) claim_inv[OF assms(1)]] by simp
next
  case (OpCommit opId p now now2 act)
  then show ?thesis using after_inv[OF assms(1) commit_inv[OF assms(1)]] by simp
next
  case (OpReconcile d now act)
  then show ?thesis using after_inv[OF assms(1) reconcile_inv[OF assms(1)]] by simp
next
  case (OpRegister t a k expect now act)
  obtain res r' where "registerSync kid t a k expect now act r = (res, r')" by fastforce
  then show ?thesis using OpRegister register_inv[OF assms(1)] by (simp add: register_def)
qed (use assms(1) in \<open>simp_all add: release_inv deny_inv expire_inv sweep_cases revoke_inv\<close>)

lemma repo_run_inv: "repo_inv kid r \<Longrightarrow> list_all op_ok ops \<Longrightarrow> repo_inv kid (repo_run kid sha ops r)"
  by (induction ops arbitrary: r) (auto simp: repo_run_def repo_step_inv)

lemma new_repository_inv: "repo_inv kid (new_repository m)"
  by (simp add: repo_inv_def new_repository_def slot_ok_def history_of_def)

section \<open>What lasts\<close>

definition terminal :: "enrollment \<Rightarrow> bool" where
  "terminal e \<longleftrightarrow> en_status e = Approved \<or> en_status e = Denied \<or> en_status e = Expired"

text \<open>The operations that do not sweep an entry away.\<close>

fun retains :: "int \<Rightarrow> enrollment \<Rightarrow> repo_op \<Rightarrow> bool" where
  "retains retentionMs e (OpSweep now) \<longleftrightarrow> \<not> swept retentionMs now e"
| "retains retentionMs e _ \<longleftrightarrow> True"

lemma put_other: "map_of (er_enrollments r) d = Some f \<Longrightarrow> map_of (er_enrollments r) c = Some e \<Longrightarrow> terminal e \<Longrightarrow> \<not> terminal f \<Longrightarrow>
    map_of (er_enrollments (put_enrollment d f' r)) c = Some e"
  by (auto simp: put_enrollment_def AList.update_conv')

lemma after_cases: "(\<And>x r'. res = Inr (x, r') \<Longrightarrow> P r') \<Longrightarrow> P r \<Longrightarrow> P (after res r)"
  by (auto simp: after_def split: sum.split prod.split)

lemma step_retention:
  assumes "repo_inv kid r"
  shows "er_retentionMs (repo_step kid sha op r) = er_retentionMs r"
proof (cases op)
  case (OpClaim u opId leaseMs now)
  have "er_retentionMs r' = er_retentionMs r" if "claimApproval u opId leaseMs now r = Inr (res, r')" for res r'
    using that by (cases rule: claim_cases) (auto simp: put_enrollment_def)
  then show ?thesis using OpClaim by (auto simp: after_def split: sum.split)
next
  case (OpCommit opId p now now2 act)
  have "er_retentionMs r' = er_retentionMs r" if "commitApproval kid sha opId p now now2 act r = Inr (res, r')" for res r'
    using that assms by (cases rule: commit_cases) (auto simp: put_enrollment_def registerSync_cases(3))
  then show ?thesis using OpCommit by (auto simp: after_def split: sum.split)
next
  case (OpReconcile d now act)
  have "er_retentionMs r' = er_retentionMs r" if "reconcileApprovedRegistration kid d now act r = Inr (res, r')" for res r'
    using reconcile_cases[OF that] by (auto simp: registerSync_cases(3))
  then show ?thesis using OpReconcile by (auto simp: after_def split: sum.split)
next
  case (OpRegister t a k expect now act)
  obtain res r' where "registerSync kid t a k expect now act r = (res, r')" by fastforce
  then show ?thesis using OpRegister by (simp add: register_def registerSync_cases(3))
next
  case (OpSweep now)
  have "er_retentionMs (snd (fold (sweep_entry now) xs (n, r))) = er_retentionMs r" for xs n r
    by (induction xs arbitrary: n r) auto
  then show ?thesis using OpSweep by (simp add: sweepEnrollments_def)
qed (auto simp: createEnrollment_def releaseClaim_def tryDeny_def tryExpire_def put_enrollment_def revokeActive_def Let_def split: sum.split option.split)

lemma terminal_step:
  assumes inv: "repo_inv kid r" and e: "map_of (er_enrollments r) c = Some e" and t: "terminal e" and keep: "retains (er_retentionMs r) e op"
  shows "map_of (er_enrollments (repo_step kid sha op r)) c = Some e"
proof (cases op)
  case (OpCreate f)
  then show ?thesis using e by (auto simp: createEnrollment_def put_enrollment_def AList.update_conv' split: sum.split option.split)
next
  case (OpClaim u opId leaseMs now)
  have "map_of (er_enrollments r') c = Some e" if claim: "claimApproval u opId leaseMs now r = Inr (res, r')" for res r'
    using claim
  proof (cases rule: claim_cases)
    case (claimed d f f')
    then show ?thesis using put_other[OF by_user_code_Some[OF claimed(1)] e t] by (auto simp: terminal_def)
  qed (use e put_other[OF _ e t] in \<open>auto simp: terminal_def\<close>)
  then show ?thesis using OpClaim e by (auto simp: after_def split: sum.split)
next
  case (OpCommit opId p now now2 act)
  have "map_of (er_enrollments r') c = Some e" if commit: "commitApproval kid sha opId p now now2 act r = Inr (res, r')" for res r'
    using commit inv
  proof (cases rule: commit_cases)
    case (committed d f cl k idem r1)
    have "er_enrollments r1 = er_enrollments r" by (rule registerSync_cases(1)[OF committed(8)])
    then show ?thesis using put_other[of r1 d f c e] committed e t by (auto simp: terminal_def)
  qed (use e put_other[OF _ e t] in \<open>auto simp: terminal_def\<close>)
  then show ?thesis using OpCommit e by (auto simp: after_def split: sum.split)
next
  case (OpRelease opId)
  then show ?thesis using e put_other[OF _ e t] find_entry[OF _ inv] by (fastforce simp: releaseClaim_def terminal_def split: option.split)
next
  case (OpDeny u now)
  then show ?thesis using e put_other[OF _ e t] by (fastforce simp: tryDeny_def terminal_def dest: by_user_code_Some split: option.split)
next
  case (OpExpire d now)
  then show ?thesis using e t by (cases "d = c") (auto simp: tryExpire_def terminal_def put_enrollment_def AList.update_conv' Let_def split: option.split)
next
  case (OpReconcile d now act)
  have "map_of (er_enrollments r') c = Some e" if "reconcileApprovedRegistration kid d now act r = Inr (res, r')" for res r'
    using reconcile_cases[OF that] e by (auto simp: registerSync_cases(1))
  then show ?thesis using OpReconcile e by (auto simp: after_def split: sum.split)
next
  case (OpSweep now)
  then show ?thesis using sweep_cases(3)[OF inv, of now c] e keep by simp
next
  case (OpRegister ta a k expect now act)
  then show ?thesis using e registerSync_cases(1) by (metis prod.collapse register_def repo_step.simps(9))
next
  case (OpRevoke ta a now)
  then show ?thesis using e by (simp add: revoke_same)
qed

lemma history_step:
  assumes "repo_inv kid r"
  shows "slot_step kid (history_of slot r) (history_of slot (repo_step kid sha op r))"
proof (cases op)
  case (OpCreate f)
  then show ?thesis by (auto simp: createEnrollment_def put_enrollment_def history_of_def slot_step.keep split: sum.split option.split)
next
  case (OpClaim u opId leaseMs now)
  have "slot_step kid (history_of slot r) (history_of slot r')" if "claimApproval u opId leaseMs now r = Inr (res, r')" for res r'
    using that by (cases rule: claim_cases) (auto simp: history_put slot_step.keep)
  then show ?thesis using OpClaim by (auto simp: after_def slot_step.keep split: sum.split)
next
  case (OpCommit opId p now now2 act)
  have "slot_step kid (history_of slot r) (history_of slot r')" if "commitApproval kid sha opId p now now2 act r = Inr (res, r')" for res r'
    using that assms by (cases rule: commit_cases) (auto simp: history_put slot_step.keep intro: registerSync_cases(4))
  then show ?thesis using OpCommit by (auto simp: after_def slot_step.keep split: sum.split)
next
  case (OpReconcile d now act)
  have "slot_step kid (history_of slot r) (history_of slot r')" if "reconcileApprovedRegistration kid d now act r = Inr (res, r')" for res r'
    using reconcile_cases[OF that] by (auto simp: slot_step.keep intro: registerSync_cases(4))
  then show ?thesis using OpReconcile by (auto simp: after_def slot_step.keep split: sum.split)
next
  case (OpSweep now)
  then show ?thesis using sweep_cases(2)[OF assms, of now] by (simp add: history_of_def slot_step.keep)
next
  case (OpRegister t a k expect now act)
  obtain res r' where reg: "registerSync kid t a k expect now act r = (res, r')" by fastforce
  then show ?thesis using OpRegister registerSync_cases(4)[OF reg] by (simp add: register_def)
next
  case (OpRevoke t a now)
  then show ?thesis by (simp add: revoke_step)
qed (auto simp: releaseClaim_def tryDeny_def tryExpire_def history_put slot_step.keep Let_def split: option.split)

lemma terminal_run:
  "repo_inv kid r \<Longrightarrow> list_all op_ok ops \<Longrightarrow> map_of (er_enrollments r) c = Some e \<Longrightarrow> terminal e \<Longrightarrow> list_all (retains (er_retentionMs r) e) ops \<Longrightarrow>
   map_of (er_enrollments (repo_run kid sha ops r)) c = Some e"
proof (induction ops arbitrary: r)
  case (Cons op ops)
  then show ?case using Cons.IH[OF repo_step_inv[OF Cons.prems(1)], of op sha] terminal_step[OF Cons.prems(1,3,4)]
    by (simp add: repo_run_def step_retention[OF Cons.prems(1)])
qed (simp add: repo_run_def)

lemma revoked_run:
  "repo_inv kid r \<Longrightarrow> list_all op_ok ops \<Longrightarrow> k \<in> set (history_of slot r) \<Longrightarrow> ak_status k = KeyRevoked \<Longrightarrow> k \<in> set (history_of slot (repo_run kid sha ops r))"
proof (induction ops arbitrary: r)
  case (Cons op ops)
  then show ?case using Cons.IH[OF repo_step_inv[OF Cons.prems(1)], of op sha] slot_step_revoked[OF history_step[OF Cons.prems(1)] Cons.prems(3,4)]
    by (simp add: repo_run_def)
qed (simp add: repo_run_def)

lemma activations_run:
  "repo_inv kid r \<Longrightarrow> list_all op_ok ops \<Longrightarrow> suffix (map activation (history_of slot r)) (map activation (history_of slot (repo_run kid sha ops r)))"
proof (induction ops arbitrary: r)
  case (Cons op ops)
  have "suffix (map activation (history_of slot (repo_step kid sha op r))) (map activation (history_of slot (repo_run kid sha (op # ops) r)))"
    using Cons.IH[OF repo_step_inv[OF Cons.prems(1)], of op sha] Cons.prems(2) by (simp add: repo_run_def)
  then show ?case using slot_step_activations[OF history_step[OF Cons.prems(1)]] suffix_order.trans by blast
qed (simp add: repo_run_def)

lemma commit_first:
  assumes "commitApproval kid sha op p now now2 act r = Inr (Committed k False, r')" "repo_inv kid r"
  shows "\<exists>c e cl r1. map_of (er_enrollments r) c = Some e \<and> en_status e = Approving \<and> en_claim e = Some cl \<and> cl_opId cl = op \<and>
    now \<le> cl_leaseUntil cl \<and> now \<le> en_expiresAt e \<and> cp_agentPublicKey p = en_agentPublicKey e \<and> r' = put_enrollment c (approved_entry sha op p now k e) r1"
  using assms
proof (cases rule: commit_cases)
  case (committed c e cl k' idem r1)
  then show ?thesis by blast
next
  case (undone c e)
  then show ?thesis by blast
qed auto

section \<open>Properties\<close>

text \<open>
  C16: Approval and activation are one transaction.  After any calls on a new repository, an
  enrolment carries credentials exactly when it is approved, an approved one names an activation of
  its own key that the registry of its account lists, and every stored enrolment is found under its own user
  code.
\<close>

theorem approval_is_atomic:
  assumes "list_all op_ok ops" "getEnrollment code (repo_run kid sha ops (new_repository m)) = Some e"
  shows "(en_natsCreds e \<noteq> None \<longleftrightarrow> en_status e = Approved) \<and>
    (en_status e = Approved \<longrightarrow> (\<exists>k. en_committedRecord e = Some k \<and> ak_publicKey k = en_agentPublicKey e \<and>
       activation k \<in> activation ` set (listHistory (en_tenant e) (en_accountId e) (repo_run kid sha ops (new_repository m))))) \<and>
    getEnrollmentByUserCode (en_user_code e) (repo_run kid sha ops (new_repository m)) = Some e"
proof -
  let ?r = "repo_run kid sha ops (new_repository m)"
  have inv: "repo_inv kid ?r" by (rule repo_run_inv[OF new_repository_inv assms(1)])
  have e: "map_of (er_enrollments ?r) code = Some e" using assms(2) by (simp add: getEnrollment_def)
  note i = inv_entry[OF inv e]
  have "getEnrollmentByUserCode (en_user_code e) ?r = Some e" using i e by (simp add: getEnrollmentByUserCode_def by_user_code_def)
  then show ?thesis using i(4) by (auto simp: entry_ok_def listHistory_def slot_of_def split: if_splits)
qed

text \<open>
  An account has one live agent key and a revoked key never returns.  After any calls on a new repository every
  account has at most one active key; a key revoked at some point stays in the history for good, is
  refused by every later registration, and is never the active key again.
\<close>

theorem revoked_key_never_returns:
  assumes "list_all op_ok (ops @ later)" "k \<in> set (listHistory t a (repo_run kid sha ops (new_repository m)))" "ak_status k = KeyRevoked"
  shows "length (filter is_active (listHistory t a (repo_run kid sha (ops @ later) (new_repository m)))) \<le> 1 \<and>
    k \<in> set (listHistory t a (repo_run kid sha (ops @ later) (new_repository m))) \<and>
    fst (register kid t a (ak_publicKey k) expect now act (repo_run kid sha (ops @ later) (new_repository m))) = RegRevoked \<and>
    map_option ak_keyId (getActive t a (repo_run kid sha (ops @ later) (new_repository m))) \<noteq> Some (ak_keyId k)"
proof -
  let ?s = "agentKeyRegistryKey t a" and ?start = "repo_run kid sha ops (new_repository m)" and ?r = "repo_run kid sha (ops @ later) (new_repository m)"
  have inv0: "repo_inv kid ?start" using assms(1) by (intro repo_run_inv[OF new_repository_inv]) simp
  have r: "?r = repo_run kid sha later ?start" by (simp add: repo_run_def)
  have inv: "repo_inv kid ?r" by (rule repo_run_inv[OF new_repository_inv assms(1)])
  have k: "k \<in> set (history_of ?s ?r)" unfolding r
    by (rule revoked_run[OF inv0]) (use assms in \<open>simp_all add: listHistory_def\<close>)
  have ok: "slot_ok kid (history_of ?s ?r)" using inv by (simp add: repo_inv_def)
  then have "ak_keyId k = kid (ak_publicKey k)" using k by (simp add: slot_ok_def list_all_iff)
  then have reg: "fst (register kid t a (ak_publicKey k) expect now act ?r) = RegRevoked"
    using k assms(3) by (auto simp: register_def registerSync_def Let_def list_ex_iff)
  have "ak_keyId k' \<noteq> ak_keyId k" if "getActive t a ?r = Some k'" for k'
    using that k ok assms(3) by (auto simp: getActive_def find_Some_iff slot_ok_def is_active_def) (metis nth_mem)
  then show ?thesis using reg k ok by (cases "getActive t a ?r") (auto simp: slot_ok_def listHistory_def)
qed

text \<open>
  A decided enrolment stays decided.  Once an enrolment is approved, denied or expired, no call
  changes any part of its record: credentials, peer and idempotency data stay as they are at least
  until a sweep after its retention, so a late commit, claim, denial or expiry cannot overturn the decision.
\<close>

theorem decision_is_final:
  assumes "list_all op_ok (ops @ later)" "getEnrollment code (repo_run kid sha ops (new_repository m)) = Some e"
    "en_status e = Approved \<or> en_status e = Denied \<or> en_status e = Expired" "list_all (retains m e) later"
  shows "getEnrollment code (repo_run kid sha (ops @ later) (new_repository m)) = Some e"
proof -
  let ?start = "repo_run kid sha ops (new_repository m)"
  have inv0: "repo_inv kid ?start" using assms(1) by (intro repo_run_inv[OF new_repository_inv]) simp
  have "er_retentionMs (repo_run kid sha os (new_repository m)) = m" if "list_all op_ok os" for os
    using that
  proof (induction os rule: rev_induct)
    case (snoc op os)
    then show ?case using step_retention[OF repo_run_inv[OF new_repository_inv, of os kid sha m]] by (simp add: repo_run_def)
  qed (simp add: repo_run_def new_repository_def)
  then have "er_retentionMs ?start = m" using assms(1) by simp
  moreover have "repo_run kid sha (ops @ later) (new_repository m) = repo_run kid sha later ?start" by (simp add: repo_run_def)
  ultimately show ?thesis using terminal_run[OF inv0, of later code e sha] assms by (simp add: getEnrollment_def terminal_def)
qed

text \<open>
  Commits are fenced and retries recover.  A commit that is accepted for the first time holds the live claim of an
  enrolment that has not expired and presents its key, and the record then carries exactly the
  committed credentials; while that record is retained, the same commit answers with the same activation
  and changes nothing, and one with another digest is refused.
\<close>

theorem commit_fenced_and_recoverable:
  assumes ops: "list_all op_ok (ops @ later)"
    and commit: "commitApproval kid sha op p now now2 act (repo_run kid sha ops (new_repository m)) = Inr (Committed k False, r1)"
    and keep: "list_all (retains (er_retentionMs r1) e) later" "getEnrollment code r1 = Some e" "en_committedBy e = Some op"
  shows "(\<exists>f cl. getEnrollment code (repo_run kid sha ops (new_repository m)) = Some f \<and> en_status f = Approving \<and> en_claim f = Some cl \<and> cl_opId cl = op \<and>
        now \<le> cl_leaseUntil cl \<and> now \<le> en_expiresAt f \<and> en_agentPublicKey f = cp_agentPublicKey p) \<and>
    en_natsCreds e = Some (cp_creds p) \<and> en_peerId e = Some (cp_peerId p) \<and>
    commitApproval kid sha op p' now' now2' act' (repo_run kid sha later r1) =
      (if digest sha p' = digest sha p then Inr (Committed k True, repo_run kid sha later r1)
       else Inl (CommitPayloadMismatch ''webchannel: commit payload does not match the claimed enrollment or committed operation''))"
proof -
  let ?start = "repo_run kid sha ops (new_repository m)" and ?r = "repo_run kid sha later r1"
  have inv0: "repo_inv kid ?start" using ops by (intro repo_run_inv[OF new_repository_inv]) simp
  note inv1 = commit_inv[OF inv0 commit]
  note inv = repo_run_inv[OF inv1, of later sha]
  have e1: "map_of (er_enrollments r1) code = Some e" using keep(2) by (simp add: getEnrollment_def)
  obtain c f cl r2 where f: "map_of (er_enrollments ?start) c = Some f" "en_status f = Approving" "en_claim f = Some cl" "cl_opId cl = op"
      "now \<le> cl_leaseUntil cl" "now \<le> en_expiresAt f" "cp_agentPublicKey p = en_agentPublicKey f" "r1 = put_enrollment c (approved_entry sha op p now k f) r2"
    using commit_first[OF commit inv0] by blast
  have c: "map_of (er_enrollments r1) c = Some (approved_entry sha op p now k f)" using f(8) by (simp add: put_enrollment_def AList.update_conv')
  have "op \<in> op_ids e" "op \<in> op_ids (approved_entry sha op p now k f)" using keep(3) by (auto simp: op_ids_def approved_entry_def)
  then have "code = c" using inv_ids[OF inv1 e1 c] by blast
  then have e: "e = approved_entry sha op p now k f" and code: "code = c" using c e1 by simp_all
  have stay: "map_of (er_enrollments ?r) c = Some e"
    using terminal_run[OF inv1 _ e1[unfolded code]] keep(1) ops by (simp add: e approved_entry_def terminal_def)
  let ?P = "\<lambda>(c, e). claimed_by op e \<or> en_status e = Approved \<and> en_committedBy e = Some op"
  have "List.find ?P (er_enrollments ?r) = Some (c, e)"
  proof (cases "List.find ?P (er_enrollments ?r)")
    case None
    have "?P (c, e)" by (simp add: e approved_entry_def)
    then show ?thesis using None map_of_SomeD[OF stay] unfolding find_None_iff by blast
  next
    case (Some dg)
    obtain d g where dg: "dg = (d, g)" by fastforce
    have g: "map_of (er_enrollments ?r) d = Some g" "op \<in> op_ids g"
      using find_entry[OF Some[unfolded dg] inv] ops by (auto simp: op_ids_def)
    have "d = c" using inv_ids[OF inv g(1) stay] g(2) ops by (auto simp: op_ids_def e approved_entry_def)
    then show ?thesis using Some dg g(1) stay by simp
  qed
  then have "commitApproval kid sha op p' now' now2' act' ?r = (if digest sha p' = digest sha p then Inr (Committed k True, ?r)
       else Inl (CommitPayloadMismatch ''webchannel: commit payload does not match the claimed enrollment or committed operation''))"
    by (auto simp: commitApproval_def e approved_entry_def)
  then show ?thesis using f code e by (auto simp: getEnrollment_def approved_entry_def)
qed

section \<open>Witnesses\<close>

definition demo_fields :: enroll_fields where
  "demo_fields = \<lparr>ef_device_code = ''d1'', ef_user_code = ''BCDE-GHKM'', ef_agentPublicKey = ''key1'', ef_accountId = ''main'', ef_tenant = ''acme'',
     ef_now = 0, ef_expiresAt = 600000, ef_pluginVersion = None, ef_protocolVersion = Some 3\<rparr>"

definition demo_creds :: nats_creds where
  "demo_creds = \<lparr>nc_userJwt = ''jwt'', nc_userSeed = ''seed'', nc_userPubkey = ''U1'', nc_permissions = None\<rparr>"

definition demo_payload :: commit_payload where
  "demo_payload = \<lparr>cp_creds = demo_creds, cp_peerId = ''peer1'', cp_agentPublicKey = ''key1'', cp_expect = None\<rparr>"

definition demo_claim :: "repo_op list" where
  "demo_claim = [OpCreate demo_fields, OpClaim ''BCDE-GHKM'' ''op1'' 30000 1000]"

definition demo_ops :: "repo_op list" where
  "demo_ops = demo_claim @ [OpCommit ''op1'' demo_payload 2000 2000 ''act1'']"

definition demo_repo :: repository where
  "demo_repo = repo_run id id demo_ops (new_repository 300000)"

definition demo_entry :: enrollment where
  "demo_entry = (case getEnrollment ''d1'' demo_repo of Some e \<Rightarrow> e | None \<Rightarrow> pending_enrollment demo_fields)"

lemma demo_entry_found: "getEnrollment ''d1'' demo_repo = Some demo_entry" "en_status demo_entry = Approved" "en_committedBy demo_entry = Some ''op1''"
  by code_simp+

lemma demo_ok: "list_all op_ok demo_ops" "list_all op_ok demo_claim" by code_simp+

theorem approval_is_atomic_witness:
  "\<exists>k. en_committedRecord demo_entry = Some k \<and> ak_publicKey k = en_agentPublicKey demo_entry"
  using approval_is_atomic[OF demo_ok(1), of "''d1''" id id 300000 demo_entry] demo_entry_found by (auto simp: demo_repo_def)

theorem revoked_key_never_returns_witness:
  "fst (register id ''acme'' ''main'' ''key1'' None 9 ''act9'' (repo_run id id ((demo_ops @ [OpRevoke ''acme'' ''main'' 5000]) @ [OpSweep 9000]) (new_repository 300000))) = RegRevoked"
proof -
  let ?ops = "demo_ops @ [OpRevoke ''acme'' ''main'' 5000]"
  let ?h = "listHistory ''acme'' ''main'' (repo_run id id ?ops (new_repository 300000))"
  have "list_all op_ok (?ops @ [OpSweep 9000])" by code_simp
  moreover have "?h ! 0 \<in> set ?h" "ak_status (?h ! 0) = KeyRevoked" "ak_publicKey (?h ! 0) = ''key1''" by code_simp+
  ultimately show ?thesis using revoked_key_never_returns[of ?ops "[OpSweep 9000]" "?h ! 0" "''acme''" "''main''" id id 300000 None 9 "''act9''"] by simp
qed

theorem decision_is_final_witness:
  "getEnrollment ''d1'' (repo_run id id (demo_ops @ [OpDeny ''BCDE-GHKM'' 3000, OpExpire ''d1'' 700000, OpSweep 300000]) (new_repository 300000)) = Some demo_entry"
proof (rule decision_is_final)
  show "list_all op_ok (demo_ops @ [OpDeny ''BCDE-GHKM'' 3000, OpExpire ''d1'' 700000, OpSweep 300000])" by code_simp
  show "getEnrollment ''d1'' (repo_run id id demo_ops (new_repository 300000)) = Some demo_entry" using demo_entry_found by (simp add: demo_repo_def)
  show "en_status demo_entry = Approved \<or> en_status demo_entry = Denied \<or> en_status demo_entry = Expired" using demo_entry_found by simp
  show "list_all (retains 300000 demo_entry) [OpDeny ''BCDE-GHKM'' 3000, OpExpire ''d1'' 700000, OpSweep 300000]" by code_simp
qed

definition demo_key :: agent_key where
  "demo_key = \<lparr>ak_tenant = ''acme'', ak_accountId = ''main'', ak_publicKey = ''key1'', ak_keyId = ''key1'', ak_activationId = ''act1'',
     ak_status = KeyActive, ak_enrolledAt = 2000, ak_endedAt = None, ak_supersededBy = None\<rparr>"

theorem commit_fenced_and_recoverable_witness:
  "commitApproval id id ''op1'' demo_payload 99999 99999 ''act2'' (repo_run id id [OpDeny ''BCDE-GHKM'' 3000] demo_repo) =
     Inr (Committed demo_key True, repo_run id id [OpDeny ''BCDE-GHKM'' 3000] demo_repo)"
proof -
  have "list_all op_ok (demo_claim @ [OpDeny ''BCDE-GHKM'' 3000])" by code_simp
  moreover have "commitApproval id id ''op1'' demo_payload 2000 2000 ''act1'' (repo_run id id demo_claim (new_repository 300000)) = Inr (Committed demo_key False, demo_repo)"
    by code_simp
  moreover have "list_all (retains (er_retentionMs demo_repo) demo_entry) [OpDeny ''BCDE-GHKM'' 3000]" by simp
  ultimately show ?thesis
    using commit_fenced_and_recoverable[of demo_claim "[OpDeny ''BCDE-GHKM'' 3000]" id id "''op1''" demo_payload 2000 2000 "''act1''" 300000 demo_key demo_repo demo_entry "''d1''"
      demo_payload 99999 99999 "''act2''"] demo_entry_found by simp
qed

end
