(* ===== verification/Pop_Challenge.thy ===== *)
theory Pop_Challenge
  imports Prelude "HOL-Library.Sublist"
begin

text \<open>
  Proof of possession at registration: the single-use nonce store
  (\<^verbatim>\<open>src/packages/plugin/src/pop-challenge.ts\<close>), the message a device signs
  (\<^verbatim>\<open>pop-signed-message.ts\<close>), the associated data that binds a wrapped conversation key to one
  peer and one attempt (\<^verbatim>\<open>wrap-aad.ts\<close>), and the shapes of the tokens in them
  (\<^verbatim>\<open>client-nonce.ts\<close>, \<^verbatim>\<open>subject-token.ts\<close>).

  The clock and the random nonce of a call are arguments.  Key import, base64url decoding and
  the Ed25519 check of \<^verbatim>\<open>node:crypto\<close> are parameters of \<open>verify\<close>.
\<close>

section \<open>Tokens and encodings\<close>

definition token_char :: "char \<Rightarrow> bool" where
  "token_char c \<longleftrightarrow> (let n = of_char c :: nat in
     65 \<le> n \<and> n \<le> 90 \<or> 97 \<le> n \<and> n \<le> 122 \<or> 48 \<le> n \<and> n \<le> 57 \<or> c = CHR ''_'' \<or> c = CHR ''-'')"

definition isValidSubjectToken :: "string \<Rightarrow> bool" where
  "isValidSubjectToken t \<longleftrightarrow> 1 \<le> length t \<and> length t \<le> 128 \<and> list_all token_char t"

datatype token_error = TokenEmpty string | TokenCharacters string

definition assertValidSubjectToken :: "string \<Rightarrow> string \<Rightarrow> token_error + unit" where
  "assertValidSubjectToken t label =
     (if t = [] then Inl (TokenEmpty label) else if \<not> isValidSubjectToken t then Inl (TokenCharacters label) else Inr ())"

definition token_message :: "token_error \<Rightarrow> string" where
  "token_message e = (case e of
     TokenEmpty label \<Rightarrow> ''webchannel: '' @ label @ '' must be a non-empty string''
   | TokenCharacters label \<Rightarrow> ''webchannel: '' @ label @ '' contains characters not allowed in a NATS subject token (allowed: A-Za-z0-9_-; rejected '' @
       [CHR 0x22] @ ''.'' @ [CHR 0x22] @ '', '' @ [CHR 0x22] @ ''*'' @ [CHR 0x22] @ '', '' @ [CHR 0x22] @ ''>'' @ [CHR 0x22] @ '', whitespace, control chars)'')"

definition CLIENT_NONCE_MIN_LENGTH :: nat where
  "CLIENT_NONCE_MIN_LENGTH = 22"

definition CLIENT_NONCE_MAX_LENGTH :: nat where
  "CLIENT_NONCE_MAX_LENGTH = 128"

definition isValidClientNonce :: "string \<Rightarrow> bool" where
  "isValidClientNonce v \<longleftrightarrow> CLIENT_NONCE_MIN_LENGTH \<le> length v \<and> length v \<le> CLIENT_NONCE_MAX_LENGTH \<and> list_all token_char v"

datatype pop_op = Register | Unregister

fun op_name :: "pop_op \<Rightarrow> string" where
  "op_name Register = ''register''"
| "op_name Unregister = ''unregister''"

definition popSignedMessage :: "pop_op \<Rightarrow> string \<Rightarrow> string \<Rightarrow> string" where
  "popSignedMessage op peerId nonce = ''webchannel-pop:'' @ op_name op @ '':'' @ peerId @ '':'' @ nonce"

definition WRAP_AAD_VERSION :: string where
  "WRAP_AAD_VERSION = ''webchannel-wrap-v2''"

type_synonym octet = nat

definition WRAP_AAD_SEPARATOR :: octet where
  "WRAP_AAD_SEPARATOR = 31"

text \<open>\<^verbatim>\<open>TextEncoder.encode\<close> on code units below 256, and \<^verbatim>\<open>Uint8Array.prototype.set\<close>.\<close>

definition utf8_char :: "char \<Rightarrow> octet list" where
  "utf8_char c = (let n = of_char c :: nat in if n < 128 then [n] else [192 + n div 64, 128 + n mod 64])"

definition utf8 :: "string \<Rightarrow> octet list" where
  "utf8 s = concat (map utf8_char s)"

definition u8_set :: "octet list \<Rightarrow> nat \<Rightarrow> octet list \<Rightarrow> octet list" where
  "u8_set out k xs = take k out @ xs @ drop (k + length xs) out"

definition wrapAad :: "string \<Rightarrow> string \<Rightarrow> octet list" where
  "wrapAad peerId clientNonce =
     (let version = utf8 WRAP_AAD_VERSION;
          peer = utf8 peerId;
          nonce = utf8 clientNonce;
          out = replicate (length version + 1 + length peer + 1 + length nonce) 0;
          k = 0;
          out = u8_set out k version;
          k = k + length version;
          out = out[k := WRAP_AAD_SEPARATOR];
          k = k + 1;
          out = u8_set out k peer;
          k = k + length peer;
          out = out[k := WRAP_AAD_SEPARATOR];
          k = k + 1
      in u8_set out k nonce)"

text \<open>A wrapped conversation key, as the registration reply carries it.\<close>

record wrapped_key =
  wk_ephemeralPublicKey :: string
  wk_nonce :: string
  wk_ciphertext :: string
  wk_tag :: string

section \<open>The nonce store\<close>

type_synonym nonce_bucket = "(string, int) js_map"

record pop_store =
  ps_ttlMs :: int
  ps_maxNoncesPerPeer :: int
  ps_byPeer :: "(string, nonce_bucket) js_map"

definition new_pop_store :: "int \<Rightarrow> int \<Rightarrow> pop_store" where
  "new_pop_store ttl cap = \<lparr>ps_ttlMs = ttl, ps_maxNoncesPerPeer = cap, ps_byPeer = []\<rparr>"

definition DEFAULT_TTL_MS :: int where "DEFAULT_TTL_MS = 120000"

definition DEFAULT_MAX_NONCES_PER_PEER :: int where "DEFAULT_MAX_NONCES_PER_PEER = 8"

text \<open>The nonces of a bucket that have not expired, and the number of the others.\<close>

definition live_nonces :: "int \<Rightarrow> nonce_bucket \<Rightarrow> nonce_bucket" where
  "live_nonces now b = filter (\<lambda>(nonce, expiresAt). \<not> now > expiresAt) b"

definition sweep :: "int \<Rightarrow> pop_store \<Rightarrow> nat \<times> pop_store" where
  "sweep now s =
     (sum_list (map (\<lambda>(p, b). length b - length (live_nonces now b)) (ps_byPeer s)),
      s\<lparr>ps_byPeer := filter (\<lambda>(p, b). b \<noteq> []) (map (\<lambda>(p, b). (p, live_nonces now b)) (ps_byPeer s))\<rparr>)"

fun evict_own_oldest :: "int \<Rightarrow> nonce_bucket \<Rightarrow> nonce_bucket" where
  "evict_own_oldest cap [] = []"
| "evict_own_oldest cap (e # b) = (if int (length (e # b)) \<ge> cap then evict_own_oldest cap b else e # b)"

text \<open>\<open>t1\<close> is the clock the sweep reads, \<open>t2\<close> the clock at the insertion, \<open>nonce\<close> the random draw.\<close>

definition issue :: "string \<Rightarrow> string \<Rightarrow> int \<Rightarrow> int \<Rightarrow> pop_store \<Rightarrow> pop_store" where
  "issue peerId nonce t1 t2 s =
     (let s1 = snd (sweep t1 s);
          bucket = (case map_of (ps_byPeer s1) peerId of Some b \<Rightarrow> b | None \<Rightarrow> []);
          kept = evict_own_oldest (ps_maxNoncesPerPeer s1) bucket
      in s1\<lparr>ps_byPeer := AList.update peerId (AList.update nonce (t2 + ps_ttlMs s1) kept) (ps_byPeer s1)\<rparr>)"

definition pop_size :: "pop_store \<Rightarrow> nat" where
  "pop_size s = sum_list (map (\<lambda>(p, b). length b) (ps_byPeer s))"

definition deleteNonce :: "string \<Rightarrow> nonce_bucket \<Rightarrow> string \<Rightarrow> pop_store \<Rightarrow> pop_store" where
  "deleteNonce peerId bucket nonce s =
     (let b = AList.delete nonce bucket in
      s\<lparr>ps_byPeer := (if b = [] then AList.delete peerId (ps_byPeer s) else AList.update peerId b (ps_byPeer s))\<rparr>)"

datatype consumed = ConsumedOk | ConsumedMissing | ConsumedExpired

definition consume :: "string \<Rightarrow> string \<Rightarrow> int \<Rightarrow> pop_store \<Rightarrow> consumed \<times> pop_store" where
  "consume peerId nonce now s =
     (case map_of (ps_byPeer s) peerId of
        None \<Rightarrow> (ConsumedMissing, s)
      | Some bucket \<Rightarrow>
          (case map_of bucket nonce of
             None \<Rightarrow> (ConsumedMissing, s)
           | Some expiresAt \<Rightarrow>
               if now > expiresAt then (ConsumedExpired, deleteNonce peerId bucket nonce s)
               else (ConsumedOk, deleteNonce peerId bucket nonce s)))"

record pop_jwk =
  jwk_kty :: string
  jwk_crv :: string
  jwk_x :: string

datatype verify_reason = Verified | NonceMissing | NonceExpired | NotEd25519 | BadJwk | BadSignatureEncoding | SignatureMismatch

record ('key, 'sig) pop_crypto =
  createPublicKey :: "pop_jwk \<Rightarrow> 'key option"
  decodeBase64Url :: "string \<Rightarrow> 'sig option"
  edVerify :: "string \<Rightarrow> 'key \<Rightarrow> 'sig \<Rightarrow> bool"

definition check_proof :: "('key, 'sig) pop_crypto \<Rightarrow> pop_op \<Rightarrow> string \<Rightarrow> string \<Rightarrow> string \<Rightarrow> pop_jwk \<Rightarrow> verify_reason" where
  "check_proof cr op peerId nonce signature jwk =
     (if jwk_kty jwk \<noteq> ''OKP'' \<or> jwk_crv jwk \<noteq> ''Ed25519'' then NotEd25519
      else case createPublicKey cr jwk of
        None \<Rightarrow> BadJwk
      | Some pub \<Rightarrow>
          (case decodeBase64Url cr signature of
             None \<Rightarrow> BadSignatureEncoding
           | Some sig \<Rightarrow> if edVerify cr (popSignedMessage op peerId nonce) pub sig then Verified else SignatureMismatch))"

definition verify :: "('key, 'sig) pop_crypto \<Rightarrow> pop_op \<Rightarrow> string \<Rightarrow> string \<Rightarrow> string \<Rightarrow> pop_jwk \<Rightarrow> int \<Rightarrow> pop_store \<Rightarrow> verify_reason \<times> pop_store" where
  "verify cr op peerId nonce signature jwk now s =
     (case consume peerId nonce now s of
        (ConsumedMissing, s') \<Rightarrow> (NonceMissing, s')
      | (ConsumedExpired, s') \<Rightarrow> (NonceExpired, s')
      | (ConsumedOk, s') \<Rightarrow> (check_proof cr op peerId nonce signature jwk, s'))"

section \<open>Executions\<close>

datatype pop_call =
    CallIssue string string int int
  | CallSweep int
  | CallVerify pop_op string string string pop_jwk int

fun pop_run :: "('key, 'sig) pop_crypto \<Rightarrow> pop_call \<Rightarrow> pop_store \<Rightarrow> verify_reason option \<times> pop_store" where
  "pop_run cr (CallIssue p n t1 t2) s = (None, issue p n t1 t2 s)"
| "pop_run cr (CallSweep t) s = (None, snd (sweep t s))"
| "pop_run cr (CallVerify op p n sg jwk t) s = (case verify cr op p n sg jwk t s of (r, s') \<Rightarrow> (Some r, s'))"

fun pop_trace :: "('key, 'sig) pop_crypto \<Rightarrow> pop_call list \<Rightarrow> pop_store \<Rightarrow> (pop_call \<times> verify_reason option) list \<times> pop_store" where
  "pop_trace cr [] s = ([], s)"
| "pop_trace cr (c # cs) s =
     (case pop_run cr c s of (r, s1) \<Rightarrow> case pop_trace cr cs s1 of (tr, s2) \<Rightarrow> ((c, r) # tr, s2))"

section \<open>Lemmas\<close>

text \<open>The store invariant: one bucket per peer, never empty, one entry per nonce, within the cap.\<close>

definition bucket_ok :: "int \<Rightarrow> nonce_bucket \<Rightarrow> bool" where
  "bucket_ok cap b \<longleftrightarrow> b \<noteq> [] \<and> distinct (js_keys b) \<and> int (length b) \<le> max 1 cap"

definition pop_ok :: "pop_store \<Rightarrow> bool" where
  "pop_ok s \<longleftrightarrow> distinct (js_keys (ps_byPeer s)) \<and> (\<forall>(p, b) \<in> set (ps_byPeer s). bucket_ok (ps_maxNoncesPerPeer s) b)"

lemma pop_ok_lookup: "pop_ok s \<Longrightarrow> map_of (ps_byPeer s) p = Some b \<Longrightarrow> bucket_ok (ps_maxNoncesPerPeer s) b"
  by (auto simp: pop_ok_def dest!: map_of_SomeD)

lemma in_update: "x \<in> set (AList.update p b m) \<Longrightarrow> x \<in> set m \<or> x = (p, b)"
  by (induction m) (auto split: if_splits)

lemma pop_ok_update:
  assumes "pop_ok s" "bucket_ok (ps_maxNoncesPerPeer s) b"
  shows "pop_ok (s\<lparr>ps_byPeer := AList.update p b (ps_byPeer s)\<rparr>)"
  using assms by (auto simp: pop_ok_def dest: in_update)

lemma pop_ok_delete: "pop_ok s \<Longrightarrow> pop_ok (s\<lparr>ps_byPeer := AList.delete p (ps_byPeer s)\<rparr>)"
  by (auto simp: pop_ok_def set_delete_eq)

lemma live_nonces_ok: "bucket_ok cap b \<Longrightarrow> live_nonces now b = [] \<or> bucket_ok cap (live_nonces now b)"
  by (auto simp: bucket_ok_def live_nonces_def distinct_map_filter intro: order_trans[OF _ _] order.trans[of "int (length (filter _ b))" "int (length b)"])

lemma sweep_ok:
  assumes "pop_ok s"
  shows "pop_ok (snd (sweep now s))"
proof -
  have "js_keys (map (\<lambda>(p, b). (p, live_nonces now b)) m) = js_keys m" for m :: "(string, nonce_bucket) js_map" by (induction m) auto
  then have "distinct (js_keys (map (\<lambda>(p, b). (p, live_nonces now b)) (ps_byPeer s)))"
    using assms by (simp only: pop_ok_def)
  then have "distinct (js_keys (filter (\<lambda>(p, b). b \<noteq> []) (map (\<lambda>(p, b). (p, live_nonces now b)) (ps_byPeer s))))"
    by (rule distinct_map_filter)
  then show ?thesis using assms live_nonces_ok by (fastforce simp: pop_ok_def sweep_def)
qed

lemma evict_bound: "int (length (evict_own_oldest cap b)) \<le> max 0 (cap - 1)"
  by (induction cap b rule: evict_own_oldest.induct) auto

lemma evict_suffix: "suffix (evict_own_oldest cap b) b"
  by (induction cap b rule: evict_own_oldest.induct) (auto simp: suffix_ConsI)

lemma length_update_le: "length (AList.update k v m) \<le> Suc (length m)"
  by (induction m) auto

lemma update_nonempty: "AList.update k v m \<noteq> []"
  by (cases m) auto

lemma bucket_ok_issue:
  assumes "distinct (js_keys b)"
  shows "bucket_ok cap (AList.update n e (evict_own_oldest cap b))"
proof -
  have "distinct (js_keys (evict_own_oldest cap b))"
    using assms evict_suffix[of cap b] unfolding suffix_def by (metis distinct_append map_append)
  moreover have "int (length (AList.update n e (evict_own_oldest cap b))) \<le> max 1 cap"
    using length_update_le[of n e "evict_own_oldest cap b"] evict_bound[of cap b] by linarith
  ultimately show ?thesis using update_nonempty by (simp add: bucket_ok_def)
qed

lemma issue_ok:
  assumes "pop_ok s"
  shows "pop_ok (issue p n t1 t2 s)"
proof -
  let ?s1 = "snd (sweep t1 s)"
  have s1: "pop_ok ?s1" by (rule sweep_ok[OF assms])
  have "distinct (js_keys (case map_of (ps_byPeer ?s1) p of Some b \<Rightarrow> b | None \<Rightarrow> []))"
    using pop_ok_lookup[OF s1, of p] by (auto simp: bucket_ok_def split: option.split)
  then show ?thesis unfolding issue_def Let_def by (intro pop_ok_update[OF s1] bucket_ok_issue)
qed

lemma delete_nonce_ok:
  assumes "pop_ok s" "map_of (ps_byPeer s) p = Some b"
  shows "pop_ok (deleteNonce p b n s)"
proof (cases "AList.delete n b = []")
  case True
  then show ?thesis using pop_ok_delete[OF assms(1)] by (simp add: deleteNonce_def Let_def)
next
  case False
  have "bucket_ok (ps_maxNoncesPerPeer s) (AList.delete n b)"
    using pop_ok_lookup[OF assms] False AList.length_delete_le[of n b] by (auto simp: bucket_ok_def)
  then show ?thesis using pop_ok_update[OF assms(1)] False by (simp add: deleteNonce_def Let_def)
qed

lemma verify_ok: "pop_ok s \<Longrightarrow> verify cr op p n sg jwk t s = (r, s') \<Longrightarrow> pop_ok s'"
  by (auto simp: verify_def consume_def delete_nonce_ok split: option.splits if_splits)

lemma pop_run_ok: "pop_ok s \<Longrightarrow> pop_run cr c s = (r, s') \<Longrightarrow> pop_ok s'"
  by (cases c) (auto simp: issue_ok sweep_ok verify_ok split: prod.splits)

lemma pop_trace_ok: "pop_ok s \<Longrightarrow> pop_trace cr cs s = (tr, s') \<Longrightarrow> pop_ok s'"
proof (induction cs arbitrary: s tr)
  case (Cons c cs)
  obtain r s1 tr2 where "pop_run cr c s = (r, s1)" "pop_trace cr cs s1 = (tr2, s')" using Cons.prems(2) by (auto split: prod.splits)
  then show ?case using Cons.IH pop_run_ok[OF Cons.prems(1)] by blast
qed simp

text \<open>A nonce a peer may still redeem.\<close>

definition stored :: "pop_store \<Rightarrow> string \<Rightarrow> string \<Rightarrow> bool" where
  "stored s p n \<longleftrightarrow> (\<exists>b. (p, b) \<in> set (ps_byPeer s) \<and> n \<in> set (js_keys b))"

lemma stored_lookup: "pop_ok s \<Longrightarrow> stored s p n \<longleftrightarrow> (\<exists>b e. map_of (ps_byPeer s) p = Some b \<and> map_of b n = Some e)"
proof
  assume ok: "pop_ok s"
  show "stored s p n \<Longrightarrow> \<exists>b e. map_of (ps_byPeer s) p = Some b \<and> map_of b n = Some e"
  proof -
    assume "stored s p n"
    then obtain b where b: "(p, b) \<in> set (ps_byPeer s)" "n \<in> set (js_keys b)" by (auto simp: stored_def)
    have "map_of (ps_byPeer s) p = Some b" using ok b(1) by (simp add: pop_ok_def)
    moreover obtain e where "map_of b n = Some e" using b(2) map_of_None_keys[of b n] by auto
    ultimately show ?thesis by blast
  qed
next
  assume "\<exists>b e. map_of (ps_byPeer s) p = Some b \<and> map_of b n = Some e"
  then obtain b e where be: "map_of (ps_byPeer s) p = Some b" "map_of b n = Some e" by blast
  then show "stored s p n" using map_of_SomeD[OF be(1)] map_of_None_keys[of b n] by (auto simp: stored_def)
qed

lemma stored_sweep: "stored (snd (sweep t s)) p n \<Longrightarrow> stored s p n"
  by (fastforce simp: stored_def sweep_def live_nonces_def)

lemma stored_issue:
  assumes "pop_ok s" "stored (issue p' n' t1 t2 s) p n" "(p, n) \<noteq> (p', n')"
  shows "stored s p n"
proof -
  let ?s1 = "snd (sweep t1 s)"
  have ok: "pop_ok ?s1" "pop_ok (issue p' n' t1 t2 s)" using assms(1) by (simp_all add: sweep_ok issue_ok)
  obtain b e where be: "map_of (ps_byPeer (issue p' n' t1 t2 s)) p = Some b" "map_of b n = Some e" using assms(2) stored_lookup[OF ok(2)] by blast
  have "stored ?s1 p n"
  proof (cases "p = p'")
    case False
    then show ?thesis using be stored_lookup[OF ok(1)] by (auto simp: issue_def Let_def AList.update_conv')
  next
    case True
    let ?b = "case map_of (ps_byPeer ?s1) p' of Some b \<Rightarrow> b | None \<Rightarrow> []"
    have "map_of (evict_own_oldest (ps_maxNoncesPerPeer ?s1) ?b) n = Some e"
      using be True assms(3) by (auto simp: issue_def Let_def AList.update_conv')
    then have "n \<in> set (js_keys ?b)" using evict_suffix[of "ps_maxNoncesPerPeer ?s1" ?b]
      by (auto dest!: map_of_SomeD set_mono_suffix simp: image_iff) fastforce
    then obtain b where "map_of (ps_byPeer ?s1) p' = Some b" "n \<in> set (js_keys b)" by (cases "map_of (ps_byPeer ?s1) p'") auto
    then show ?thesis using True map_of_SomeD[of "ps_byPeer ?s1" p' b] unfolding stored_def by blast
  qed
  then show ?thesis by (rule stored_sweep)
qed

lemma stored_delete:
  assumes "pop_ok s" "map_of (ps_byPeer s) p' = Some b"
  shows "stored (deleteNonce p' b n' s) p n \<longleftrightarrow> stored s p n \<and> (p, n) \<noteq> (p', n')"
proof -
  note ok = delete_nonce_ok[OF assms, of n']
  have other: "map_of b m = None" if "AList.delete n' b = []" "m \<noteq> n'" for m
    using that fun_cong[OF AList.delete_conv'[of n' b], of m] by simp
  show ?thesis unfolding stored_lookup[OF ok] stored_lookup[OF assms(1)]
    using assms(2) other by (auto simp: deleteNonce_def Let_def AList.update_conv' AList.delete_conv' split: if_splits)
qed

lemma verify_cases:
  assumes "pop_ok s" "verify cr op p n sg jwk t s = (r, s')"
  obtains (missing) "\<not> stored s p n" "r = NonceMissing" "s' = s"
  | (spent) "stored s p n" "r \<noteq> NonceMissing" "\<And>q m. stored s' q m \<longleftrightarrow> stored s q m \<and> (q, m) \<noteq> (p, n)"
proof (cases "stored s p n")
  case True
  then obtain b e where be: "map_of (ps_byPeer s) p = Some b" "map_of b n = Some e" using stored_lookup[OF assms(1)] by blast
  have "r \<noteq> NonceMissing" "s' = deleteNonce p b n s" using assms(2) be
    by (auto simp: verify_def consume_def check_proof_def split: if_splits option.splits)
  then show ?thesis using spent[OF True] stored_delete[OF assms(1) be(1), of n] by blast
next
  case False
  then have "consume p n t s = (ConsumedMissing, s)" using stored_lookup[OF assms(1), of p n]
    by (auto simp: consume_def split: option.splits)
  then show ?thesis using missing[OF False] assms(2) by (simp add: verify_def)
qed

section \<open>Where stored nonces come from\<close>

text \<open>Every stored entry was issued by one of the calls made so far, with the lifetime of the store.\<close>

definition issued_by :: "pop_call list \<Rightarrow> pop_store \<Rightarrow> bool" where
  "issued_by cs s \<longleftrightarrow> (\<forall>(p, b) \<in> set (ps_byPeer s). \<forall>(n, e) \<in> set b. \<exists>t1 t2. CallIssue p n t1 t2 \<in> set cs \<and> e = t2 + ps_ttlMs s)"

lemma issued_byD: "issued_by cs s \<Longrightarrow> (p, b) \<in> set (ps_byPeer s) \<Longrightarrow> (n, e) \<in> set b \<Longrightarrow> \<exists>t1 t2. CallIssue p n t1 t2 \<in> set cs \<and> e = t2 + ps_ttlMs s"
  by (auto simp: issued_by_def)

lemma issued_by_weaken:
  assumes "issued_by cs s" "ps_ttlMs s' = ps_ttlMs s" "set cs \<subseteq> set cs'"
    and "\<And>p b n e. (p, b) \<in> set (ps_byPeer s') \<Longrightarrow> (n, e) \<in> set b \<Longrightarrow> \<exists>b'. (p, b') \<in> set (ps_byPeer s) \<and> (n, e) \<in> set b'"
  shows "issued_by cs' s'"
  unfolding issued_by_def
proof clarify
  fix p b n e
  assume "(p, b) \<in> set (ps_byPeer s')" "(n, e) \<in> set b"
  then obtain b' where "(p, b') \<in> set (ps_byPeer s)" "(n, e) \<in> set b'" using assms(4) by blast
  then show "\<exists>t1 t2. CallIssue p n t1 t2 \<in> set cs' \<and> e = t2 + ps_ttlMs s'"
    using issued_byD[OF assms(1)] assms(2,3) by fastforce
qed

lemma issued_by_sweep: "issued_by cs s \<Longrightarrow> issued_by (cs @ [c]) (snd (sweep t s))"
  by (rule issued_by_weaken) (auto simp: sweep_def live_nonces_def)

lemma issued_by_delete:
  assumes "issued_by cs s" "map_of (ps_byPeer s) p = Some b"
  shows "issued_by (cs @ [c]) (deleteNonce p b n s)"
proof (rule issued_by_weaken[OF assms(1)])
  fix q b' m e
  assume b': "(q, b') \<in> set (ps_byPeer (deleteNonce p b n s))" and me: "(m, e) \<in> set b'"
  have "(q, b') \<in> set (ps_byPeer s) \<or> q = p \<and> b' = AList.delete n b"
    using b' in_update[of "(q, b')" p "AList.delete n b" "ps_byPeer s"] by (auto simp: deleteNonce_def Let_def set_delete_eq split: if_splits)
  then show "\<exists>b''. (q, b'') \<in> set (ps_byPeer s) \<and> (m, e) \<in> set b''"
    using me map_of_SomeD[OF assms(2)] by (auto simp: set_delete_eq)
qed (auto simp: deleteNonce_def Let_def)

lemma issued_by_verify: "issued_by cs s \<Longrightarrow> verify cr op p n sg jwk t s = (r, s') \<Longrightarrow> issued_by (cs @ [c]) s'"
  by (auto simp: verify_def consume_def issued_by_delete intro: issued_by_weaken split: option.splits if_splits)

lemma issued_by_issue:
  assumes "issued_by cs s"
  shows "issued_by (cs @ [CallIssue p n t1 t2]) (issue p n t1 t2 s)"
proof -
  let ?s1 = "snd (sweep t1 s)" and ?cs = "cs @ [CallIssue p n t1 t2]"
  let ?b = "case map_of (ps_byPeer ?s1) p of Some b \<Rightarrow> b | None \<Rightarrow> []"
  have s1: "issued_by ?cs ?s1" by (rule issued_by_sweep[OF assms])
  have old: "\<exists>t1 t2. CallIssue p m t1 t2 \<in> set ?cs \<and> e = t2 + ps_ttlMs ?s1"
    if "(m, e) \<in> set (evict_own_oldest (ps_maxNoncesPerPeer ?s1) ?b)" for m e
  proof -
    have "(m, e) \<in> set ?b" using that set_mono_suffix[OF evict_suffix] by blast
    then obtain b where b: "map_of (ps_byPeer ?s1) p = Some b" "(m, e) \<in> set b" by (cases "map_of (ps_byPeer ?s1) p") auto
    show ?thesis by (rule issued_byD[OF s1 map_of_SomeD[OF b(1)] b(2)])
  qed
  show ?thesis unfolding issued_by_def
  proof (clarify)
    fix q b m e
    assume b: "(q, b) \<in> set (ps_byPeer (issue p n t1 t2 s))" and e: "(m, e) \<in> set b"
    have ttl: "ps_ttlMs (issue p n t1 t2 s) = ps_ttlMs ?s1" by (simp add: issue_def Let_def)
    consider "(q, b) \<in> set (ps_byPeer ?s1)"
      | "q = p" "b = AList.update n (t2 + ps_ttlMs ?s1) (evict_own_oldest (ps_maxNoncesPerPeer ?s1) ?b)"
      using b by (auto simp: issue_def Let_def dest: in_update)
    then show "\<exists>t1' t2'. CallIssue q m t1' t2' \<in> set ?cs \<and> e = t2' + ps_ttlMs (issue p n t1 t2 s)"
    proof cases
      case 1
      then show ?thesis unfolding ttl by (rule issued_byD[OF s1 _ e])
    next
      case 2
      then have "(m, e) \<in> set (AList.update n (t2 + ps_ttlMs ?s1) (evict_own_oldest (ps_maxNoncesPerPeer ?s1) ?b))" using e by simp
      then have "(m, e) \<in> set (evict_own_oldest (ps_maxNoncesPerPeer ?s1) ?b) \<or> (m, e) = (n, t2 + ps_ttlMs ?s1)" by (rule in_update)
      then show ?thesis
      proof
        assume "(m, e) \<in> set (evict_own_oldest (ps_maxNoncesPerPeer ?s1) ?b)"
        then show ?thesis unfolding ttl 2(1) by (rule old)
      next
        assume "(m, e) = (n, t2 + ps_ttlMs ?s1)"
        then show ?thesis unfolding ttl 2(1) by auto
      qed
    qed
  qed
qed

lemma ttl_const: "ps_ttlMs (snd (sweep t s)) = ps_ttlMs s" "ps_maxNoncesPerPeer (snd (sweep t s)) = ps_maxNoncesPerPeer s"
  "ps_ttlMs (issue p n t1 t2 s) = ps_ttlMs s" "ps_maxNoncesPerPeer (issue p n t1 t2 s) = ps_maxNoncesPerPeer s"
  by (simp_all add: sweep_def issue_def Let_def)

lemma verify_const: "verify cr op p n sg jwk t s = (r, s') \<Longrightarrow> ps_ttlMs s' = ps_ttlMs s \<and> ps_maxNoncesPerPeer s' = ps_maxNoncesPerPeer s"
  by (auto simp: verify_def consume_def deleteNonce_def Let_def split: option.splits if_splits)

lemma issued_by_run: "issued_by cs s \<Longrightarrow> pop_run cr c s = (r, s') \<Longrightarrow> issued_by (cs @ [c]) s' \<and> ps_ttlMs s' = ps_ttlMs s"
  by (cases c) (auto simp: issued_by_issue issued_by_sweep ttl_const dest: issued_by_verify verify_const split: prod.splits)

lemma issued_by_trace: "issued_by cs0 s \<Longrightarrow> pop_trace cr cs s = (tr, s') \<Longrightarrow> issued_by (cs0 @ cs) s' \<and> ps_ttlMs s' = ps_ttlMs s"
proof (induction cs arbitrary: cs0 s tr)
  case (Cons c cs)
  obtain r s1 tr2 where run: "pop_run cr c s = (r, s1)" "pop_trace cr cs s1 = (tr2, s')" using Cons.prems(2) by (auto split: prod.splits)
  then show ?case using Cons.IH[of "cs0 @ [c]" s1 tr2] issued_by_run[OF Cons.prems(1) run(1)] by simp
qed simp

lemma new_pop_store_ok: "pop_ok (new_pop_store ttl cap)" "issued_by [] (new_pop_store ttl cap)"
  by (simp_all add: pop_ok_def issued_by_def new_pop_store_def)

section \<open>Survival of a live nonce\<close>

text \<open>The calls that neither redeem the nonce \<open>n\<close> of peer \<open>p\<close> nor read a clock past its deadline before a sweep.\<close>

fun undisturbing :: "string \<Rightarrow> string \<Rightarrow> int \<Rightarrow> pop_call \<Rightarrow> bool" where
  "undisturbing p n deadline (CallIssue q m t1 t2) \<longleftrightarrow> t1 \<le> deadline \<and> (q, m) \<noteq> (p, n)"
| "undisturbing p n deadline (CallSweep t) \<longleftrightarrow> t \<le> deadline"
| "undisturbing p n deadline (CallVerify op q m sg jwk t) \<longleftrightarrow> (q, m) \<noteq> (p, n)"

fun issue_of :: "string \<Rightarrow> pop_call \<Rightarrow> bool" where
  "issue_of p (CallIssue q m t1 t2) \<longleftrightarrow> q = p"
| "issue_of p c \<longleftrightarrow> False"

text \<open>At most \<open>k\<close> nonces of the peer are younger than \<open>n\<close>.\<close>

definition waiting :: "string \<Rightarrow> string \<Rightarrow> int \<Rightarrow> nat \<Rightarrow> pop_store \<Rightarrow> bool" where
  "waiting p n e k s \<longleftrightarrow> (\<exists>pre post. map_of (ps_byPeer s) p = Some (pre @ (n, e) # post) \<and> n \<notin> set (js_keys pre) \<and> length post \<le> k)"

lemma sweep_lookup:
  assumes "distinct (js_keys m)" "map_of m p = Some b" "live_nonces t b \<noteq> []"
  shows "map_of (filter (\<lambda>(p, b). b \<noteq> []) (map (\<lambda>(p, b). (p, live_nonces t b)) m)) p = Some (live_nonces t b)"
  using assms by (induction m) (auto split: if_splits)

lemma waiting_sweep:
  assumes "pop_ok s" "waiting p n e k s" "t \<le> e"
  shows "waiting p n e k (snd (sweep t s))"
proof -
  obtain pre post where b: "map_of (ps_byPeer s) p = Some (pre @ (n, e) # post)" "n \<notin> set (js_keys pre)" "length post \<le> k"
    using assms(2) by (auto simp: waiting_def)
  have live: "live_nonces t (pre @ (n, e) # post) = live_nonces t pre @ (n, e) # live_nonces t post"
    using assms(3) by (simp add: live_nonces_def)
  have "map_of (ps_byPeer (snd (sweep t s))) p = Some (live_nonces t pre @ (n, e) # live_nonces t post)"
    using sweep_lookup[OF _ b(1), of t] assms(1) live by (simp add: sweep_def pop_ok_def)
  moreover have "n \<notin> set (js_keys (live_nonces t pre))" using b(2) by (auto simp: live_nonces_def)
  moreover have "length (live_nonces t post) \<le> k" using b(3) length_filter_le order_trans unfolding live_nonces_def by blast
  ultimately show ?thesis unfolding waiting_def by blast
qed

lemma evict_keeps:
  "int (length post) + 2 \<le> cap \<Longrightarrow> \<exists>pre'. evict_own_oldest cap (pre @ x # post) = pre' @ x # post \<and> suffix pre' pre"
  by (induction pre) (fastforce simp: suffix_Cons)+

lemma update_behind:
  "m \<noteq> n \<Longrightarrow> n \<notin> set (js_keys pre) \<Longrightarrow>
   \<exists>pre' post'. AList.update m v (pre @ (n, e) # post) = pre' @ (n, e) # post' \<and> n \<notin> set (js_keys pre') \<and> length post' \<le> Suc (length post)"
proof (induction pre)
  case Nil
  then show ?case using length_update_le[of m v post] by (intro exI[of _ "[]"] exI[of _ "AList.update m v post"]) simp
next
  case (Cons x pre)
  obtain j w where x: "x = (j, w)" by (cases x)
  show ?case
  proof (cases "j = m")
    case True
    then show ?thesis using Cons.prems x by (intro exI[of _ "(m, v) # pre"] exI[of _ post]) auto
  next
    case False
    obtain pre' post' where "AList.update m v (pre @ (n, e) # post) = pre' @ (n, e) # post'" "n \<notin> set (js_keys pre')" "length post' \<le> Suc (length post)"
      using Cons by auto
    then show ?thesis using False x Cons.prems by (intro exI[of _ "x # pre'"] exI[of _ post']) auto
  qed
qed

lemma waiting_issue_other:
  assumes "pop_ok s" "waiting p n e k s" "t1 \<le> e" "q \<noteq> p"
  shows "waiting p n e k (issue q m t1 t2 s)"
  using waiting_sweep[OF assms(1-3)] assms(4) by (simp add: waiting_def issue_def Let_def AList.update_conv')

lemma waiting_issue_own:
  assumes "pop_ok s" "waiting p n e k s" "t1 \<le> e" "m \<noteq> n" "int k + 2 \<le> ps_maxNoncesPerPeer s"
  shows "waiting p n e (Suc k) (issue p m t1 t2 s)"
proof -
  let ?s1 = "snd (sweep t1 s)"
  obtain pre post where b: "map_of (ps_byPeer ?s1) p = Some (pre @ (n, e) # post)" "n \<notin> set (js_keys pre)" "length post \<le> k"
    using waiting_sweep[OF assms(1-3)] by (auto simp: waiting_def)
  have "int (length post) + 2 \<le> ps_maxNoncesPerPeer ?s1" using b(3) assms(5) by (simp add: ttl_const)
  then obtain pre1 where pre1: "evict_own_oldest (ps_maxNoncesPerPeer ?s1) (pre @ (n, e) # post) = pre1 @ (n, e) # post" "suffix pre1 pre"
    using evict_keeps by blast
  have npre: "n \<notin> set (js_keys pre1)" using b(2) set_mono_suffix[OF pre1(2)] by auto
  obtain pre2 post2 where u: "AList.update m (t2 + ps_ttlMs ?s1) (pre1 @ (n, e) # post) = pre2 @ (n, e) # post2" "n \<notin> set (js_keys pre2)" "length post2 \<le> Suc (length post)"
    using update_behind[OF assms(4) npre, where v = "t2 + ps_ttlMs ?s1" and e = e and post = post] by (elim exE conjE)
  have "map_of (ps_byPeer (issue p m t1 t2 s)) p = Some (pre2 @ (n, e) # post2)"
    unfolding issue_def Let_def b(1) option.case pre1(1) u(1) by (simp add: AList.update_conv')
  moreover have "length post2 \<le> Suc k" using u(3) b(3) by simp
  ultimately show ?thesis unfolding waiting_def using u(2) by blast
qed

lemma delete_behind: "m \<noteq> n \<Longrightarrow> AList.delete m (pre @ (n, e) # post) = AList.delete m pre @ (n, e) # AList.delete m post"
  by (simp add: AList.delete_eq)

lemma waiting_verify:
  assumes "waiting p n e k s" "(q, m) \<noteq> (p, n)" "verify cr op q m sg jwk t s = (r, s')"
  shows "waiting p n e k s'"
proof -
  obtain pre post where b: "map_of (ps_byPeer s) p = Some (pre @ (n, e) # post)" "n \<notin> set (js_keys pre)" "length post \<le> k"
    using assms(1) by (auto simp: waiting_def)
  have "waiting p n e k (deleteNonce q c m s)" if c: "map_of (ps_byPeer s) q = Some c" for c
  proof (cases "q = p")
    case True
    then have m: "m \<noteq> n" and cb: "c = pre @ (n, e) # post" using assms(2) c b(1) by auto
    have "length (AList.delete m post) \<le> k" using b(3) AList.length_delete_le[of m post] by linarith
    moreover have "n \<notin> set (js_keys (AList.delete m pre))" using b(2) by (auto simp: set_delete_eq)
    ultimately show ?thesis using True by (auto simp: waiting_def deleteNonce_def Let_def cb delete_behind[OF m] AList.update_conv')
  next
    case False
    then show ?thesis using b by (auto simp: waiting_def deleteNonce_def Let_def AList.update_conv' AList.delete_conv')
  qed
  then show ?thesis using assms(1,3) by (auto simp: verify_def consume_def split: option.splits if_splits)
qed

lemma waiting_run:
  assumes "pop_ok s" "waiting p n e k s" "undisturbing p n e c" "issue_of p c \<Longrightarrow> int k + 2 \<le> ps_maxNoncesPerPeer s" "pop_run cr c s = (r, s')"
  shows "waiting p n e (if issue_of p c then Suc k else k) s'" and "ps_maxNoncesPerPeer s' = ps_maxNoncesPerPeer s"
proof -
  show "waiting p n e (if issue_of p c then Suc k else k) s'"
  proof (cases c)
    case (CallIssue q m t1 t2)
    then show ?thesis using assms waiting_issue_own[OF assms(1,2)] waiting_issue_other[OF assms(1,2)] by (cases "q = p") auto
  next
    case (CallSweep t)
    then show ?thesis using assms waiting_sweep by auto
  next
    case (CallVerify op q m sg jwk t)
    obtain r' where v: "verify cr op q m sg jwk t s = (r', s')" using assms(5) CallVerify by (auto split: prod.splits)
    then show ?thesis using waiting_verify[OF assms(2) _ v] assms(3) CallVerify by auto
  qed
  show "ps_maxNoncesPerPeer s' = ps_maxNoncesPerPeer s"
    using assms(5) by (cases c) (auto simp: ttl_const dest: verify_const split: prod.splits)
qed

lemma waiting_trace:
  "pop_ok s \<Longrightarrow> waiting p n e k s \<Longrightarrow> list_all (undisturbing p n e) cs \<Longrightarrow>
   int (k + length (filter (issue_of p) cs)) < ps_maxNoncesPerPeer s \<Longrightarrow> pop_trace cr cs s = (tr, s') \<Longrightarrow> \<exists>k'. waiting p n e k' s'"
proof (induction cs arbitrary: s k tr)
  case (Cons c cs)
  obtain r s1 tr2 where run: "pop_run cr c s = (r, s1)" "pop_trace cr cs s1 = (tr2, s')" using Cons.prems(5) by (auto split: prod.splits)
  have k: "issue_of p c \<Longrightarrow> int k + 2 \<le> ps_maxNoncesPerPeer s" using Cons.prems(4) by simp
  have w: "waiting p n e (if issue_of p c then Suc k else k) s1" "ps_maxNoncesPerPeer s1 = ps_maxNoncesPerPeer s"
    using waiting_run[OF Cons.prems(1,2) _ k run(1)] Cons.prems(3) by auto
  show ?case
    by (rule Cons.IH[OF pop_run_ok[OF Cons.prems(1) run(1)] w(1) _ _ run(2)]) (use Cons.prems(3,4) w(2) in \<open>auto split: if_splits\<close>)
qed auto

section \<open>Encodings\<close>

text \<open>Writing the next field into the zeroes behind what is already written.\<close>

lemma u8_set_next: "k = length xs \<Longrightarrow> u8_set (xs @ replicate (length ys + m) 0) k ys = xs @ ys @ replicate m 0"
  by (simp add: u8_set_def)

lemma put_next: "k = length xs \<Longrightarrow> (xs @ replicate (Suc m) 0)[k := v] = (xs @ [v]) @ replicate m 0"
  by (simp add: list_update_append)

lemma wrapAad_concat:
  "wrapAad p n = utf8 WRAP_AAD_VERSION @ [WRAP_AAD_SEPARATOR] @ utf8 p @ [WRAP_AAD_SEPARATOR] @ utf8 n"
proof -
  let ?v = "utf8 WRAP_AAD_VERSION" and ?sep = "WRAP_AAD_SEPARATOR"
  have 1: "u8_set (replicate (length ?v + 1 + length (utf8 p) + 1 + length (utf8 n)) 0) 0 ?v
      = ?v @ replicate (Suc (length (utf8 p) + Suc (length (utf8 n)))) 0"
    using u8_set_next[of 0 "[]" ?v "Suc (length (utf8 p) + Suc (length (utf8 n)))"] by (simp add: add.assoc)
  have 2: "(?v @ replicate (Suc (length (utf8 p) + Suc (length (utf8 n)))) 0)[0 + length ?v := ?sep]
      = (?v @ [?sep]) @ replicate (length (utf8 p) + Suc (length (utf8 n))) 0"
    by (rule put_next) simp
  have 3: "u8_set ((?v @ [?sep]) @ replicate (length (utf8 p) + Suc (length (utf8 n))) 0) (0 + length ?v + 1) (utf8 p)
      = (?v @ [?sep] @ utf8 p) @ replicate (Suc (length (utf8 n))) 0"
    using u8_set_next[of "0 + length ?v + 1" "?v @ [?sep]" "utf8 p" "Suc (length (utf8 n))"] by simp
  have 4: "((?v @ [?sep] @ utf8 p) @ replicate (Suc (length (utf8 n))) 0)[0 + length ?v + 1 + length (utf8 p) := ?sep]
      = ((?v @ [?sep] @ utf8 p) @ [?sep]) @ replicate (length (utf8 n)) 0"
    by (rule put_next) simp
  have 5: "u8_set (((?v @ [?sep] @ utf8 p) @ [?sep]) @ replicate (length (utf8 n)) 0) (0 + length ?v + 1 + length (utf8 p) + 1) (utf8 n)
      = ((?v @ [?sep] @ utf8 p) @ [?sep]) @ utf8 n"
    using u8_set_next[of "0 + length ?v + 1 + length (utf8 p) + 1" "(?v @ [?sep] @ utf8 p) @ [?sep]" "utf8 n" 0] by simp
  show ?thesis unfolding wrapAad_def Let_def 1 2 3 4 5 by simp
qed

lemma token_ascii: "token_char c \<Longrightarrow> (of_char c :: nat) < 128 \<and> (of_char c :: nat) \<noteq> 31 \<and> c \<noteq> CHR '':''"
  by (auto simp: token_char_def Let_def)

lemma utf8_token: "list_all token_char s \<Longrightarrow> utf8 s = map of_char s"
  by (induction s) (auto simp: utf8_def utf8_char_def Let_def dest: token_ascii)

lemma split_at_first: "x \<notin> set xs \<Longrightarrow> x \<notin> set ys \<Longrightarrow> xs @ x # us = ys @ x # vs \<Longrightarrow> xs = ys \<and> us = vs"
  by (induction xs arbitrary: ys) (case_tac ys; auto)+

lemma split_at_last:
  assumes "x \<notin> set us" "x \<notin> set vs" "xs @ x # us = ys @ x # vs"
  shows "xs = ys \<and> us = vs"
proof -
  have "rev us @ x # rev xs = rev vs @ x # rev ys" using arg_cong[OF assms(3), of rev] by simp
  then show ?thesis using split_at_first[of x "rev us" "rev vs" "rev xs" "rev ys"] assms(1,2) by simp
qed

lemma pop_trace_append: "snd (pop_trace cr (xs @ ys) s) = snd (pop_trace cr ys (snd (pop_trace cr xs s)))"
proof (induction xs arbitrary: s)
  case (Cons c xs)
  obtain r s1 where "pop_run cr c s = (r, s1)" by fastforce
  then show ?case using Cons[of s1] by (simp split: prod.split) (metis snd_conv)
qed simp

lemma pop_trace_const: "pop_trace cr cs s = (tr, s') \<Longrightarrow> ps_maxNoncesPerPeer s' = ps_maxNoncesPerPeer s"
proof (induction cs arbitrary: s tr)
  case (Cons c cs)
  obtain r s1 tr2 where run: "pop_run cr c s = (r, s1)" "pop_trace cr cs s1 = (tr2, s')" using Cons.prems by (auto split: prod.splits)
  have "ps_maxNoncesPerPeer s1 = ps_maxNoncesPerPeer s"
    using run(1) by (cases c) (auto simp: ttl_const dest: verify_const split: prod.splits)
  then show ?case using Cons.IH[OF run(2)] by simp
qed simp

section \<open>Properties\<close>

fun issue_call :: "string \<Rightarrow> string \<Rightarrow> pop_call \<Rightarrow> bool" where
  "issue_call p n (CallIssue q m t1 t2) \<longleftrightarrow> q = p \<and> m = n"
| "issue_call p n c \<longleftrightarrow> False"

fun redeemed :: "string \<Rightarrow> string \<Rightarrow> pop_call \<times> verify_reason option \<Rightarrow> bool" where
  "redeemed p n (CallVerify op q m sg jwk t, r) \<longleftrightarrow> q = p \<and> m = n \<and> r \<noteq> Some NonceMissing"
| "redeemed p n c \<longleftrightarrow> False"

lemma pop_trace_run: "pop_trace cr cs s = run_steps (pop_run cr) cs s"
  by (induction cs arbitrary: s) (auto split: prod.splits)

interpretation pop_use: single_use "pop_run cr" pop_ok "\<lambda>s. stored s p n" "issue_call p n" "\<lambda>c r. redeemed p n (c, r)" for cr p n
proof
  fix c s r s'
  assume s: "pop_ok s" and run: "pop_run cr c s = (r, s')"
  show "pop_ok s'" by (rule pop_run_ok[OF s run])
  show "stored s p n \<or> issue_call p n c" if "stored s' p n"
  proof (cases c)
    case (CallIssue q m t1 t2)
    then show ?thesis using run that stored_issue[OF s, of q m t1 t2 p n] by auto
  next
    case (CallSweep t)
    then show ?thesis using run that stored_sweep[of t s p n] by auto
  next
    case (CallVerify op q m sg jwk t)
    then obtain r' where "verify cr op q m sg jwk t s = (r', s')" using run by (auto split: prod.splits)
    with s show ?thesis using that by (cases rule: verify_cases) auto
  qed
  show "stored s p n \<and> \<not> stored s' p n" if red: "redeemed p n (c, r)"
  proof (cases c)
    case (CallVerify op q m sg jwk t)
    then obtain r' where v: "verify cr op q m sg jwk t s = (r', s')" "r = Some r'" using run by (auto split: prod.splits)
    show ?thesis using s v(1) by (cases rule: verify_cases) (use red CallVerify v(2) in auto)
  qed (use red in auto)
qed

text \<open>
  C17: Challenges are single use.  In any sequence of issues, sweeps and verifications on a new
  store, the verifications that get past the nonce check for a nonce of a peer are at most as many
  as the times that nonce was issued to that peer: a replay, a second operation or another peer finds nothing, whatever the
  signature.
\<close>

theorem pop_single_use:
  "length (filter (redeemed p n) (fst (pop_trace cr cs (new_pop_store ttl cap)))) \<le> length (filter (issue_call p n) cs)"
proof -
  obtain tr s' where t: "pop_trace cr cs (new_pop_store ttl cap) = (tr, s')" by fastforce
  then show ?thesis using pop_use.redeemed_le_minted[OF new_pop_store_ok(1) t[unfolded pop_trace_run], of p n]
    by (simp add: stored_def new_pop_store_def cong: filter_cong)
qed

text \<open>
  A verified proof means what it says.  If a verification after any calls on a new store
  succeeds, the nonce was issued to that very peer by one of these calls and has not expired, the
  key is an Ed25519 key that imports, and the signature decodes and verifies under it on the message
  that names the operation, the peer and the nonce.
\<close>

theorem pop_verified_sound:
  assumes "fst (verify cr op p n sg jwk t (snd (pop_trace cr cs (new_pop_store ttl cap)))) = Verified"
  shows "(\<exists>t1 t2. CallIssue p n t1 t2 \<in> set cs \<and> t \<le> t2 + ttl) \<and> jwk_kty jwk = ''OKP'' \<and> jwk_crv jwk = ''Ed25519'' \<and>
    (\<exists>pub sig. createPublicKey cr jwk = Some pub \<and> decodeBase64Url cr sg = Some sig \<and> edVerify cr (popSignedMessage op p n) pub sig)"
proof -
  obtain tr s where t: "pop_trace cr cs (new_pop_store ttl cap) = (tr, s)" by fastforce
  have s: "issued_by cs s" "ps_ttlMs s = ttl" using issued_by_trace[OF new_pop_store_ok(2) t] by (simp_all add: new_pop_store_def)
  obtain b e where be: "map_of (ps_byPeer s) p = Some b" "map_of b n = Some e" "\<not> t > e" and chk: "check_proof cr op p n sg jwk = Verified"
    using assms t by (auto simp: verify_def consume_def split: option.splits if_splits)
  have "\<exists>t1 t2. CallIssue p n t1 t2 \<in> set cs \<and> t \<le> t2 + ttl"
    using issued_byD[OF s(1) map_of_SomeD[OF be(1)] map_of_SomeD[OF be(2)]] be(3) s(2) by fastforce
  then show ?thesis using chk by (auto simp: check_proof_def split: if_splits option.splits)
qed

lemma nonce_survives:
  assumes "list_all (undisturbing p n (t2 + ttl)) cs" "int (length (filter (issue_of p) cs)) < cap" "t \<le> t2 + ttl"
    and "\<not> list_ex (issue_call p n) before"
  shows "fst (verify cr op p n sg jwk t (snd (pop_trace cr (before @ CallIssue p n t1 t2 # cs) (new_pop_store ttl cap)))) =
    check_proof cr op p n sg jwk"
proof -
  obtain tr0 s0 where s0: "pop_trace cr before (new_pop_store ttl cap) = (tr0, s0)" by fastforce
  have ok: "pop_ok s0" and iss: "issued_by before s0" and ttl: "ps_ttlMs s0 = ttl"
    using pop_trace_ok[OF new_pop_store_ok(1) s0] issued_by_trace[OF new_pop_store_ok(2) s0] by (simp_all add: new_pop_store_def)
  let ?s1 = "issue p n t1 t2 s0" and ?w = "snd (sweep t1 s0)"
  let ?b = "case map_of (ps_byPeer ?w) p of Some b \<Rightarrow> b | None \<Rightarrow> []"
  have cap: "ps_maxNoncesPerPeer s0 = cap" using pop_trace_const[OF s0] by (simp add: new_pop_store_def)
  have "\<not> stored ?w p n" using stored_sweep[of t1 s0 p n] iss assms(4)
    by (fastforce simp: stored_def issued_by_def list_ex_iff dest: bspec)
  then have "n \<notin> set (js_keys ?b)"
    by (cases "map_of (ps_byPeer ?w) p") (auto simp: stored_def dest!: map_of_SomeD[where k = p])
  then have fresh: "n \<notin> set (js_keys (evict_own_oldest cap ?b))" using set_mono_suffix[OF evict_suffix[of cap ?b]] by auto
  then have "map_of (ps_byPeer ?s1) p = Some (evict_own_oldest cap ?b @ (n, t2 + ttl) # [])"
    by (simp add: issue_def Let_def AList.update_conv' ttl_const ttl cap update_fresh_append)
  then have w: "waiting p n (t2 + ttl) 0 ?s1" using fresh by (auto simp: waiting_def)
  obtain tr s where s: "pop_trace cr cs ?s1 = (tr, s)" by fastforce
  have "\<exists>k. waiting p n (t2 + ttl) k s"
    by (rule waiting_trace[OF issue_ok[OF ok] w assms(1) _ s]) (use assms(2) cap in \<open>simp add: ttl_const\<close>)
  then have "\<exists>s'. consume p n t s = (ConsumedOk, s')" using assms(3) by (auto simp: waiting_def consume_def map_add_def map_of_eq_None_iff[THEN iffD2])
  moreover have "snd (pop_trace cr (before @ CallIssue p n t1 t2 # cs) (new_pop_store ttl cap)) = s"
    using s0 s by (simp add: pop_trace_append split: prod.splits)
  ultimately show ?thesis by (auto simp: verify_def)
qed

text \<open>
  No flood evicts a live challenge of another peer, nor the same peer's within the cap.  After a
  nonce is issued, any calls that neither redeem it nor sweep past its deadline, with fewer than
  \<^verbatim>\<open>maxNoncesPerPeer\<close> further issues to the same peer and any number to others, leave it redeemable:
  a verification in time answers by the signature alone, with no missing or expired nonce.
\<close>

theorem pop_nonce_survives:
  assumes "list_all (undisturbing p n (t2 + ttl)) cs" "int (length (filter (issue_of p) cs)) < cap" "t \<le> t2 + ttl"
    and "\<not> list_ex (issue_call p n) before"
  shows "fst (verify cr op p n sg jwk t (snd (pop_trace cr (before @ CallIssue p n t1 t2 # cs) (new_pop_store ttl cap)))) =
    check_proof cr op p n sg jwk"
  using assms by (rule nonce_survives)

definition demo_crypto :: "(string, string) pop_crypto" where
  "demo_crypto = \<lparr>createPublicKey = \<lambda>jwk. Some (jwk_x jwk), decodeBase64Url = Some, edVerify = \<lambda>msg pub sig. sig = pub @ msg\<rparr>"

definition demo_jwk :: pop_jwk where
  "demo_jwk = \<lparr>jwk_kty = ''OKP'', jwk_crv = ''Ed25519'', jwk_x = ''k''\<rparr>"

theorem pop_verified_sound_witness:
  "(\<exists>t1 t2. CallIssue ''ann'' ''n1'' t1 t2 \<in> set [CallIssue ''ann'' ''n1'' 0 1] \<and> 100 \<le> t2 + 120000)"
proof -
  have "fst (verify demo_crypto Register ''ann'' ''n1'' (''k'' @ popSignedMessage Register ''ann'' ''n1'') demo_jwk 100
      (snd (pop_trace demo_crypto [CallIssue ''ann'' ''n1'' 0 1] (new_pop_store 120000 8)))) = Verified"
    by code_simp
  from pop_verified_sound[OF this] show ?thesis by blast
qed

theorem pop_nonce_survives_witness:
  "fst (verify demo_crypto Unregister ''ann'' ''n1'' ''bad'' demo_jwk 100
     (snd (pop_trace demo_crypto ([CallSweep 0] @ CallIssue ''ann'' ''n1'' 0 1 # [CallIssue ''bob'' ''n2'' 5 5, CallIssue ''ann'' ''n3'' 6 6])
        (new_pop_store 120000 2)))) = SignatureMismatch"
proof -
  have "list_all (undisturbing ''ann'' ''n1'' (1 + 120000)) [CallIssue ''bob'' ''n2'' 5 5, CallIssue ''ann'' ''n3'' 6 6]"
    "int (length (filter (issue_of ''ann'') [CallIssue ''bob'' ''n2'' 5 5, CallIssue ''ann'' ''n3'' 6 6])) < 2"
    "(100::int) \<le> 1 + 120000" "\<not> list_ex (issue_call ''ann'' ''n1'') [CallSweep 0]"
    by simp_all
  from pop_nonce_survives[OF this, of demo_crypto Unregister "''bad''" demo_jwk 0] show ?thesis
    by (simp add: check_proof_def demo_jwk_def demo_crypto_def popSignedMessage_def)
qed

lemma signed_message_inject:
  assumes "CHR '':'' \<notin> set n" "CHR '':'' \<notin> set n'" "popSignedMessage op p n = popSignedMessage op' p' n'"
  shows "op = op' \<and> p = p' \<and> n = n'"
proof -
  have "(op_name op @ '':'' @ p) @ CHR '':'' # n = (op_name op' @ '':'' @ p') @ CHR '':'' # n'" using assms(3) by (simp add: popSignedMessage_def)
  from split_at_last[OF assms(1,2) this] have "op_name op @ '':'' @ p = op_name op' @ '':'' @ p'" "n = n'" by simp_all
  then show ?thesis by (cases op; cases op'; simp)
qed

lemma wrapAad_inject:
  assumes "isValidSubjectToken q" "isValidSubjectToken q'" "isValidClientNonce c" "isValidClientNonce c'" "wrapAad q c = wrapAad q' c'"
  shows "q = q' \<and> c = c'"
proof -
  have tok: "list_all token_char q" "list_all token_char q'" "list_all token_char c" "list_all token_char c'"
    using assms by (simp_all add: isValidSubjectToken_def isValidClientNonce_def)
  have sep: "WRAP_AAD_SEPARATOR \<notin> set (map of_char s)" if "list_all token_char s" for s
    using that token_ascii by (fastforce simp: WRAP_AAD_SEPARATOR_def list_all_iff)
  have "map of_char q @ WRAP_AAD_SEPARATOR # map of_char c = map of_char q' @ WRAP_AAD_SEPARATOR # map of_char c'"
    using assms(5) by (simp add: wrapAad_concat utf8_token tok)
  from split_at_first[OF sep[OF tok(1)] sep[OF tok(2)] this]
  have "map (of_char :: char \<Rightarrow> nat) q = map of_char q'" "map (of_char :: char \<Rightarrow> nat) c = map of_char c'" by simp_all
  then show ?thesis using inj_map_eq_map[OF inj_of_char] by blast
qed

text \<open>
  A proof and a wrapped key are bound to one purpose.  Two signed messages with colon-free nonces are
  equal only when operation, peer and nonce are, so a registration proof never passes for an
  unregistration; and two associated data of valid peers and client nonces are equal only when peer and nonce are,
  so a wrap opens for one peer and one attempt alone.
\<close>

theorem pop_binding_injective:
  "(CHR '':'' \<notin> set n \<and> CHR '':'' \<notin> set n' \<longrightarrow>
      popSignedMessage op p n = popSignedMessage op' p' n' \<longrightarrow> op = op' \<and> p = p' \<and> n = n') \<and>
   (isValidSubjectToken q \<and> isValidSubjectToken q' \<and> isValidClientNonce c \<and> isValidClientNonce c' \<longrightarrow>
      wrapAad q c = wrapAad q' c' \<longrightarrow> q = q' \<and> c = c')"
  using signed_message_inject[of n n' op p op' p'] wrapAad_inject[of q q' c c'] by blast

theorem pop_binding_injective_witness:
  "popSignedMessage Register ''ann'' ''n1'' \<noteq> popSignedMessage Unregister ''ann'' ''n1'' \<and>
   wrapAad ''ann'' ''AAAAAAAAAAAAAAAAAAAAAA'' \<noteq> wrapAad ''bob'' ''AAAAAAAAAAAAAAAAAAAAAA''"
proof -
  have v: "isValidSubjectToken ''ann''" "isValidSubjectToken ''bob''" "isValidClientNonce ''AAAAAAAAAAAAAAAAAAAAAA''" by code_simp+
  show ?thesis
    using pop_binding_injective[of "''n1''" "''n1''" Register "''ann''" Unregister "''ann''" "''ann''" "''bob''" "''AAAAAAAAAAAAAAAAAAAAAA''" "''AAAAAAAAAAAAAAAAAAAAAA''"] v
    by (auto simp del: isValidSubjectToken_def)
qed

end
