(* ===== verification/Device_Flow.thy ===== *)
theory Device_Flow
  imports Enrollment Pop_Challenge
begin

text \<open>
  The enrolment service (\<^verbatim>\<open>src/packages/saas/src/device-flow-enrollment.ts\<close>) over the repository
  of \<^verbatim>\<open>Enrollment\<close>: validation of a request, \<^verbatim>\<open>enroll\<close>, \<^verbatim>\<open>poll\<close>, \<^verbatim>\<open>approve\<close> and \<^verbatim>\<open>deny\<close>.

  \<^verbatim>\<open>approveInner\<close> is cut at its awaits: a stage is what the running call has learnt so far, and a step
  runs the code up to the next await with the repository call it makes.  Any number of approvals and the
  other calls interleave; the process-local queue per user code, which only saves duplicate work, is not
  assumed.  Random codes, the minted credentials and a repository that loses an answer are inputs
  of the steps.
\<close>

section \<open>Requests\<close>

definition DEFAULT_EXPIRATION_SECONDS :: int where "DEFAULT_EXPIRATION_SECONDS = 600"
definition MIN_POLL_INTERVAL_SECONDS :: int where "MIN_POLL_INTERVAL_SECONDS = 5"
definition USER_CODE_ALPHABET :: string where "USER_CODE_ALPHABET = ''BCDEGHKMNPQRSTVWXZ''"
definition MAX_ENROLL_ATTEMPTS :: nat where "MAX_ENROLL_ATTEMPTS = 5"
definition PLUGIN_VERSION_MAX_LEN :: nat where "PLUGIN_VERSION_MAX_LEN = 64"

record df_options =
  do_expirationSeconds :: int
  do_pollIntervalSeconds :: int
  do_approvalLeaseMs :: int
  do_saasBaseUrl :: string
  do_jwksUrl :: string
  do_bootstrapUrl :: string
  do_natsUrl :: string
  do_issuer :: string

definition defaultIssuer :: "string \<Rightarrow> string" where
  "defaultIssuer saasBaseUrl = rev (dropWhile (\<lambda>c. c = CHR ''/'') (rev saasBaseUrl))"

text \<open>The constructor's defaults for options that are left out.\<close>

definition make_options :: "int option \<Rightarrow> int option \<Rightarrow> int option \<Rightarrow> string option \<Rightarrow> string \<Rightarrow> string \<Rightarrow> string \<Rightarrow> string \<Rightarrow> df_options" where
  "make_options expirationSeconds pollIntervalSeconds approvalLeaseMs issuer saasBaseUrl jwksUrl bootstrapUrl natsUrl =
     \<lparr>do_expirationSeconds = (case expirationSeconds of Some n \<Rightarrow> n | None \<Rightarrow> DEFAULT_EXPIRATION_SECONDS),
      do_pollIntervalSeconds = (case pollIntervalSeconds of Some n \<Rightarrow> n | None \<Rightarrow> MIN_POLL_INTERVAL_SECONDS),
      do_approvalLeaseMs = (case approvalLeaseMs of Some n \<Rightarrow> n | None \<Rightarrow> 30000),
      do_saasBaseUrl = saasBaseUrl, do_jwksUrl = jwksUrl, do_bootstrapUrl = bootstrapUrl, do_natsUrl = natsUrl,
      do_issuer = (case issuer of Some i \<Rightarrow> i | None \<Rightarrow> defaultIssuer saasBaseUrl)\<rparr>"

datatype enroll_error =
    EnrollmentValidation string
  | RepositoryFailure repository_error

text \<open>The fields of a decoded request body; a missing one is \<open>None\<close>.\<close>

record enrollment_request =
  rq_tenant :: "json option"
  rq_accountId :: "json option"
  rq_agentPublicKey :: "json option"
  rq_pluginVersion :: "json option"
  rq_protocolVersion :: "json option"

definition check_subject :: "json option \<Rightarrow> string \<Rightarrow> enroll_error + string" where
  "check_subject v label = (case v of
     Some (JStr t) \<Rightarrow> (case assertValidSubjectToken t label of Inl e \<Rightarrow> Inl (EnrollmentValidation (token_message e)) | Inr _ \<Rightarrow> Inr t)
   | _ \<Rightarrow> Inl (EnrollmentValidation (token_message (TokenEmpty label))))"

definition assertValidAgentPublicKey :: "json option \<Rightarrow> enroll_error + string" where
  "assertValidAgentPublicKey v = (case v of
     Some (JStr k) \<Rightarrow> if length k = 43 \<and> list_all token_char k then Inr k
        else Inl (EnrollmentValidation ''webchannel: agentPublicKey must be base64url of a 32-byte X25519 public key'')
   | _ \<Rightarrow> Inl (EnrollmentValidation ''webchannel: agentPublicKey must be base64url of a 32-byte X25519 public key''))"

definition sanitizePluginVersion :: "json option \<Rightarrow> string option" where
  "sanitizePluginVersion v = (case v of
     Some (JStr s) \<Rightarrow> if length s > 0 \<and> length s \<le> PLUGIN_VERSION_MAX_LEN \<and>
         list_all (\<lambda>c. token_char c \<or> c = CHR ''.'' \<or> c = CHR ''+'') s then Some s else None
   | _ \<Rightarrow> None)"

definition sanitizeProtocolVersion :: "json option \<Rightarrow> int option" where
  "sanitizeProtocolVersion v = (case v of Some (JNum i) \<Rightarrow> if 0 \<le> i \<and> i \<le> 9007199254740991 then Some i else None | _ \<Rightarrow> None)"

text \<open>
  The user code: eight letters drawn by rejection from random bytes.  The loop reads bytes
  from refilled pools; \<open>None\<close> stands for the bytes given having run out.
\<close>

fun nextUniformIndex :: "nat list \<Rightarrow> (nat \<times> nat list) option" where
  "nextUniformIndex [] = None"
| "nextUniformIndex (b # bs) =
     (let n = length USER_CODE_ALPHABET in if b < 256 - 256 mod n then Some (b mod n, bs) else nextUniformIndex bs)"

fun draw_letters :: "nat \<Rightarrow> nat list \<Rightarrow> string option" where
  "draw_letters 0 bs = Some []"
| "draw_letters (Suc k) bs =
     (case nextUniformIndex bs of
        None \<Rightarrow> None
      | Some (i, bs') \<Rightarrow> map_option (\<lambda>cs. USER_CODE_ALPHABET ! i # cs) (draw_letters k bs'))"

definition generateUserCode :: "nat list \<Rightarrow> string option" where
  "generateUserCode bs = map_option (\<lambda>cs. take 4 cs @ ''-'' @ drop 4 cs) (draw_letters 8 bs)"

section \<open>Enrolling and polling\<close>

record enrollment_response =
  rs_device_code :: string
  rs_user_code :: string
  rs_verification_uri :: string
  rs_verification_uri_complete :: string
  rs_expires_in :: int
  rs_interval :: int

text \<open>One attempt: the calls of others before it, and the two codes drawn for it.\<close>

type_synonym attempt = "repo_op list \<times> string \<times> string"

fun enroll_loop ::
    "(string \<Rightarrow> string) \<Rightarrow> (string \<Rightarrow> string) \<Rightarrow> enroll_fields \<Rightarrow> (nat \<Rightarrow> attempt) \<Rightarrow> nat \<Rightarrow> nat \<Rightarrow> repository_error option \<Rightarrow> repository \<Rightarrow>
     (repository_error option + string \<times> string) \<times> repository" where
  "enroll_loop kid sha f draw i 0 lastCollision r = (Inl lastCollision, r)"
| "enroll_loop kid sha f draw i (Suc k) lastCollision r =
     (case draw i of (ops, device_code, user_code) \<Rightarrow>
        let r1 = repo_run kid sha ops r in
        case createEnrollment (pending_enrollment (f\<lparr>ef_device_code := device_code, ef_user_code := user_code\<rparr>)) r1 of
          Inr r2 \<Rightarrow> (Inr (device_code, user_code), r2)
        | Inl err \<Rightarrow> (case err of
              UserCodeCollision _ \<Rightarrow> enroll_loop kid sha f draw (Suc i) k (Some err) r1
            | DeviceCodeCollision _ \<Rightarrow> enroll_loop kid sha f draw (Suc i) k (Some err) r1
            | _ \<Rightarrow> (Inl (Some err), r1)))"

definition enroll ::
    "(string \<Rightarrow> string) \<Rightarrow> (string \<Rightarrow> string) \<Rightarrow> df_options \<Rightarrow> enrollment_request \<Rightarrow> int \<Rightarrow> (nat \<Rightarrow> attempt) \<Rightarrow> repository \<Rightarrow>
     (enroll_error option + enrollment_response) \<times> repository" where
  "enroll kid sha opt rq now draw r =
     (case check_subject (rq_tenant rq) ''tenant'' of
        Inl e \<Rightarrow> (Inl (Some e), r)
      | Inr tenant \<Rightarrow> (case check_subject (rq_accountId rq) ''accountId'' of
          Inl e \<Rightarrow> (Inl (Some e), r)
        | Inr accountId \<Rightarrow> (case assertValidAgentPublicKey (rq_agentPublicKey rq) of
            Inl e \<Rightarrow> (Inl (Some e), r)
          | Inr key \<Rightarrow>
              let f = \<lparr>ef_device_code = '''', ef_user_code = '''', ef_agentPublicKey = key, ef_accountId = accountId, ef_tenant = tenant,
                    ef_now = now, ef_expiresAt = now + do_expirationSeconds opt * 1000,
                    ef_pluginVersion = sanitizePluginVersion (rq_pluginVersion rq), ef_protocolVersion = sanitizeProtocolVersion (rq_protocolVersion rq)\<rparr>
              in case enroll_loop kid sha f draw 0 MAX_ENROLL_ATTEMPTS None r of
                   (Inl err, r') \<Rightarrow> (Inl (map_option RepositoryFailure err), r')
                 | (Inr (device_code, user_code), r') \<Rightarrow>
                     let uri = do_saasBaseUrl opt @ ''/enroll'' in
                     (Inr \<lparr>rs_device_code = device_code, rs_user_code = user_code, rs_verification_uri = uri,
                        rs_verification_uri_complete = uri @ ''?user_code='' @ user_code,
                        rs_expires_in = do_expirationSeconds opt, rs_interval = do_pollIntervalSeconds opt\<rparr>, r'))))"

record enrollment_result =
  er_creds :: nats_creds
  er_peerId :: string
  er_jwksUrl :: string
  er_bootstrapUrl :: string
  er_natsUrl :: string
  er_issuer :: string

datatype device_flow_error = InvalidDeviceCode string | AccessDenied | ExpiredToken | AuthorizationPending

definition df_result :: "df_options \<Rightarrow> nats_creds \<Rightarrow> string \<Rightarrow> enrollment_result" where
  "df_result opt creds peerId = \<lparr>er_creds = creds, er_peerId = peerId, er_jwksUrl = do_jwksUrl opt,
     er_bootstrapUrl = do_bootstrapUrl opt, er_natsUrl = do_natsUrl opt, er_issuer = do_issuer opt\<rparr>"

definition poll :: "df_options \<Rightarrow> string \<Rightarrow> int \<Rightarrow> repository \<Rightarrow> (device_flow_error + enrollment_result) \<times> repository" where
  "poll opt device_code now r =
     (case tryExpire device_code now r of ((_, found), r') \<Rightarrow>
        (case found of
           None \<Rightarrow> Inl (InvalidDeviceCode ''Device code not found'')
         | Some e \<Rightarrow>
             (case en_status e of
                Denied \<Rightarrow> Inl AccessDenied
              | Expired \<Rightarrow> Inl ExpiredToken
              | Pending \<Rightarrow> Inl AuthorizationPending
              | Approving \<Rightarrow> Inl AuthorizationPending
              | Approved \<Rightarrow>
                  (case (en_natsCreds e, en_peerId e) of
                     (Some creds, Some peerId) \<Rightarrow>
                       if peerId = [] then Inl (InvalidDeviceCode ''Invalid enrollment state'') else Inr (df_result opt creds peerId)
                   | _ \<Rightarrow> Inl (InvalidDeviceCode ''Invalid enrollment state''))), r'))"

definition handlePollRequest :: "df_options \<Rightarrow> string \<Rightarrow> int \<Rightarrow> repository \<Rightarrow> (int \<times> (device_flow_error + enrollment_result)) \<times> repository" where
  "handlePollRequest opt device_code now r =
     (case poll opt device_code now r of (body, r') \<Rightarrow> ((case body of Inl _ \<Rightarrow> 400 | Inr _ \<Rightarrow> 200, body), r'))"

definition deny :: "string \<Rightarrow> int \<Rightarrow> repository \<Rightarrow> bool \<times> repository" where
  "deny userCode now r = tryDeny userCode now r"

section \<open>Approving\<close>

datatype approve_outcome =
    ApprovedOut enrollment_result
  | InProgressOut
  | ConflictOut "(string \<times> string \<times> int) option" string
  | RevokedKeyOut
  | RejectedOut

definition conflict_outcome :: "agent_key option \<Rightarrow> string \<Rightarrow> approve_outcome" where
  "conflict_outcome active incomingKeyId =
     ConflictOut (map_option (\<lambda>k. (ak_activationId k, take 12 (ak_keyId k), ak_enrolledAt k)) active) (take 12 incomingKeyId)"

datatype approve_error = RepositoryThrew repository_error | MintFailed | AnswerLost

text \<open>What a running approval awaits: the answer of the last call it made.\<close>

datatype approve_stage =
    AtStart
  | AtClaim claim_outcome
  | AtReconciled enrollment
  | AtHistory enrollment "agent_key list"
  | AtReleased "approve_error + approve_outcome"
  | AtActive enrollment "agent_key option"
  | AtMint enrollment "string option"
  | AtCommit enrollment commit_payload bool "approve_error + commit_outcome"
  | Finished "approve_error + approve_outcome"

record approval =
  ap_userCode :: string
  ap_opId :: string
  ap_replace :: "string option"
  ap_stage :: approve_stage

text \<open>The inputs of a step: the clock at the call and inside it, the random draws, the mint's answer, and whether the
  repository applies a commit and whether its answer arrives.\<close>

record step_input =
  si_now :: int
  si_now2 :: int
  si_activation :: string
  si_mint :: "nats_creds option"
  si_peerId :: string
  si_applied :: bool
  si_answered :: bool

definition expectation :: "enrollment \<Rightarrow> string option \<Rightarrow> agent_key option \<Rightarrow> string option option" where
  "expectation e replace active =
     (if active = None \<and> replace = None then Some None
      else case active of
        None \<Rightarrow> None
      | Some k \<Rightarrow>
          if ak_publicKey k = en_agentPublicKey e then Some (Some (ak_activationId k))
          else if replace = Some (ak_activationId k) then Some (Some (ak_activationId k))
          else None)"

text \<open>A commit call: applied or not, answered or not.\<close>

definition commit_call ::
    "(string \<Rightarrow> string) \<Rightarrow> (string \<Rightarrow> string) \<Rightarrow> string \<Rightarrow> commit_payload \<Rightarrow> step_input \<Rightarrow> repository \<Rightarrow> (approve_error + commit_outcome) \<times> repository" where
  "commit_call kid sha opId p si r =
     (if \<not> si_applied si then (Inl AnswerLost, r)
      else case commitApproval kid sha opId p (si_now si) (si_now2 si) (si_activation si) r of
        Inl e \<Rightarrow> (if si_answered si then Inl (RepositoryThrew e) else Inl AnswerLost, r)
      | Inr (res, r') \<Rightarrow> (if si_answered si then Inr res else Inl AnswerLost, r'))"

definition commit_result :: "df_options \<Rightarrow> string \<Rightarrow> commit_payload \<Rightarrow> commit_outcome \<Rightarrow> approve_outcome" where
  "commit_result opt incomingKeyId p res = (case res of
     Committed _ _ \<Rightarrow> ApprovedOut (df_result opt (cp_creds p) (cp_peerId p))
   | CommitRevoked \<Rightarrow> RevokedKeyOut
   | CommitConflict current \<Rightarrow> conflict_outcome current incomingKeyId
   | _ \<Rightarrow> RejectedOut)"

fun approve_stage_step ::
    "(string \<Rightarrow> string) \<Rightarrow> (string \<Rightarrow> string) \<Rightarrow> df_options \<Rightarrow> string \<Rightarrow> string \<Rightarrow> string option \<Rightarrow> step_input \<Rightarrow> approve_stage \<Rightarrow> repository \<Rightarrow> approve_stage \<times> repository" where
  "approve_stage_step kid sha opt u opId replace si AtStart r =
     (case claimApproval u opId (do_approvalLeaseMs opt) (si_now si) r of
        Inl e \<Rightarrow> (Finished (Inl (RepositoryThrew e)), r)
      | Inr (res, r') \<Rightarrow> (AtClaim res, r'))"
| "approve_stage_step kid sha opt u opId replace si (AtClaim res) r =
     (case res of
        InProgress _ \<Rightarrow> (Finished (Inr InProgressOut), r)
      | AlreadyApproved e \<Rightarrow>
          (case reconcileApprovedRegistration kid (en_device_code e) (si_now si) (si_activation si) r of
             Inl err \<Rightarrow> (Finished (Inl (RepositoryThrew err)), r)
           | Inr (_, r') \<Rightarrow> (AtReconciled e, r'))
      | Claimed e \<Rightarrow> (AtHistory e (listHistory (en_tenant e) (en_accountId e) r), r)
      | _ \<Rightarrow> (Finished (Inr RejectedOut), r))"
| "approve_stage_step kid sha opt u opId replace si (AtReconciled e) r =
     (Finished (Inr (case (en_natsCreds e, en_peerId e) of
        (Some creds, Some peerId) \<Rightarrow> if peerId = [] then RejectedOut else ApprovedOut (df_result opt creds peerId)
      | _ \<Rightarrow> RejectedOut)), r)"
| "approve_stage_step kid sha opt u opId replace si (AtHistory e history) r =
     (if list_ex (\<lambda>k. ak_status k = KeyRevoked \<and> ak_keyId k = kid (en_agentPublicKey e)) history
      then (AtReleased (Inr RevokedKeyOut), if si_applied si then snd (releaseClaim opId r) else r)
      else (AtActive e (getActive (en_tenant e) (en_accountId e) r), r))"
| "approve_stage_step kid sha opt u opId replace si (AtReleased out) r = (Finished out, r)"
| "approve_stage_step kid sha opt u opId replace si (AtActive e active) r =
     (case expectation e replace active of
        None \<Rightarrow> (AtReleased (Inr (conflict_outcome active (kid (en_agentPublicKey e)))), if si_applied si then snd (releaseClaim opId r) else r)
      | Some expect \<Rightarrow> (AtMint e expect, r))"
| "approve_stage_step kid sha opt u opId replace si (AtMint e expect) r =
     (case si_mint si of
        None \<Rightarrow> (AtReleased (Inl MintFailed), if si_applied si then snd (releaseClaim opId r) else r)
      | Some creds \<Rightarrow>
          let p = \<lparr>cp_creds = creds, cp_peerId = si_peerId si, cp_agentPublicKey = en_agentPublicKey e, cp_expect = expect\<rparr> in
          case commit_call kid sha opId p si r of (res, r') \<Rightarrow> (AtCommit e p False res, r'))"
| "approve_stage_step kid sha opt u opId replace si (AtCommit e p retried res) r =
     (case res of
        Inr out \<Rightarrow> (Finished (Inr (commit_result opt (kid (en_agentPublicKey e)) p out)), r)
      | Inl err \<Rightarrow>
          if retried \<or> (case err of RepositoryThrew (CommitPayloadMismatch _) \<Rightarrow> True | _ \<Rightarrow> False) then (Finished (Inl err), r)
          else case commit_call kid sha opId p si r of (res', r') \<Rightarrow> (AtCommit e p True res', r'))"
| "approve_stage_step kid sha opt u opId replace si (Finished out) r = (Finished out, r)"

section \<open>Concurrent executions\<close>

datatype df_event =
    EvRepo repo_op
  | EvApprove string string "string option"
  | EvStep nat step_input

fun df_step :: "(string \<Rightarrow> string) \<Rightarrow> (string \<Rightarrow> string) \<Rightarrow> df_options \<Rightarrow> df_event \<Rightarrow> repository \<times> approval list \<Rightarrow> repository \<times> approval list" where
  "df_step kid sha opt (EvRepo op) (r, as) = (repo_step kid sha op r, as)"
| "df_step kid sha opt (EvApprove u opId replace) (r, as) =
     (r, as @ [\<lparr>ap_userCode = u, ap_opId = opId, ap_replace = replace, ap_stage = AtStart\<rparr>])"
| "df_step kid sha opt (EvStep i si) (r, as) =
     (if i < length as then
        let a = as ! i in
        case approve_stage_step kid sha opt (ap_userCode a) (ap_opId a) (ap_replace a) si (ap_stage a) r of
          (st, r') \<Rightarrow> (r', as[i := a\<lparr>ap_stage := st\<rparr>])
      else (r, as))"

definition df_run :: "(string \<Rightarrow> string) \<Rightarrow> (string \<Rightarrow> string) \<Rightarrow> df_options \<Rightarrow> df_event list \<Rightarrow> repository \<times> approval list \<Rightarrow> repository \<times> approval list" where
  "df_run kid sha opt evs s = fold (df_step kid sha opt) evs s"

section \<open>What an operation changes of an entry\<close>

text \<open>How a record may change: its identity never, its operation ids only by a claim on it, its credentials only by a
  commit of the claim it holds.\<close>

definition same_identity :: "enrollment \<Rightarrow> enrollment \<Rightarrow> bool" where
  "same_identity f f' \<longleftrightarrow> en_device_code f' = en_device_code f \<and> en_user_code f' = en_user_code f \<and> en_agentPublicKey f' = en_agentPublicKey f"

definition same_commit :: "enrollment \<Rightarrow> enrollment \<Rightarrow> bool" where
  "same_commit f f' \<longleftrightarrow> en_committedBy f' = en_committedBy f \<and> en_natsCreds f' = en_natsCreds f \<and> en_peerId f' = en_peerId f"

inductive entry_change :: "(string \<Rightarrow> string) \<Rightarrow> repo_op \<Rightarrow> string \<Rightarrow> repository \<Rightarrow> enrollment \<Rightarrow> enrollment \<Rightarrow> bool" for sha op c r where
  quiet: "same_identity f f' \<Longrightarrow> same_commit f f' \<Longrightarrow> op_ids f' \<subseteq> op_ids f \<Longrightarrow> entry_change sha op c r f f'"
| claim: "op = OpClaim u x leaseMs now \<Longrightarrow> by_user_code u r = Some (c, f) \<Longrightarrow> same_identity f f' \<Longrightarrow> same_commit f f' \<Longrightarrow> op_ids f' \<subseteq> insert x (op_ids f) \<Longrightarrow>
    entry_change sha op c r f f'"
| commit: "op = OpCommit x p now now2 act \<Longrightarrow> x \<in> op_ids f \<Longrightarrow> f' = approved_entry sha x p now k f \<Longrightarrow> entry_change sha op c r f f'"

lemma quiet_refl: "entry_change sha op c r f f"
  by (rule entry_change.quiet) (auto simp: same_identity_def same_commit_def)

lemma quiet_end: "entry_change sha op c r f (f\<lparr>en_status := st, en_claim := None\<rparr>)"
  by (rule entry_change.quiet) (auto simp: same_identity_def same_commit_def op_ids_def claimed_by_def)

lemma quiet_status: "entry_change sha op c r f (f\<lparr>en_status := st\<rparr>)"
  by (rule entry_change.quiet) (auto simp: same_identity_def same_commit_def op_ids_def claimed_by_def)

text \<open>The effect of a call on the whole map of enrolments, other than creating and sweeping.\<close>

definition entries_change :: "(string \<Rightarrow> string) \<Rightarrow> repo_op \<Rightarrow> repository \<Rightarrow> repository \<Rightarrow> bool" where
  "entries_change sha op r r' \<longleftrightarrow> er_userCodes r' = er_userCodes r \<and>
     (\<forall>c. rel_option (entry_change sha op c r) (map_of (er_enrollments r) c) (map_of (er_enrollments r') c))"

lemma entries_refl: "er_userCodes r' = er_userCodes r \<Longrightarrow> er_enrollments r' = er_enrollments r \<Longrightarrow> entries_change sha op r r'"
  by (simp add: entries_change_def option.rel_refl quiet_refl)

lemma entries_put:
  assumes "map_of (er_enrollments r) c = Some f" "entry_change sha op c r f f'" "er_userCodes r1 = er_userCodes r" "er_enrollments r1 = er_enrollments r"
  shows "entries_change sha op r (put_enrollment c f' r1)"
  using assms by (auto simp: entries_change_def put_enrollment_def AList.update_conv' option.rel_refl quiet_refl)

lemma claim_entries:
  assumes "claimApproval u x leaseMs now r = Inr (res, r')"
  shows "entries_change sha (OpClaim u x leaseMs now) r r'"
  using assms
proof (cases rule: claim_cases)
  case (claimed c e e')
  have "entry_change sha (OpClaim u x leaseMs now) c r e e'" unfolding claimed(4)
    by (rule entry_change.claim[OF refl claimed(1)]) (auto simp: same_identity_def same_commit_def op_ids_def claimed_by_def)
  then show ?thesis using claimed by_user_code_Some[OF claimed(1)] entries_put by blast
qed (auto intro: entries_refl entries_put quiet_status quiet_end)

lemma commit_entries:
  assumes "commitApproval kid sha x p now now2 act r = Inr (res, r')" "repo_inv kid r"
  shows "entries_change sha (OpCommit x p now now2 act) r r'"
  using assms
proof (cases rule: commit_cases)
  case (committed c e cl k idem r1)
  have "entry_change sha (OpCommit x p now now2 act) c r e (approved_entry sha x p now k e)"
    by (rule entry_change.commit[OF refl]) (use committed(3,4) in \<open>auto simp: op_ids_def claimed_by_def\<close>)
  then show ?thesis using committed registerSync_cases[OF committed(8)] entries_put by metis
qed (auto intro: entries_refl entries_put quiet_end)

lemma repo_step_entries:
  assumes "repo_inv kid r" "\<And>f. op \<noteq> OpCreate f" "\<And>now. op \<noteq> OpSweep now"
  shows "entries_change sha op r (repo_step kid sha op r)"
proof (cases op)
  case (OpClaim u x leaseMs now)
  then show ?thesis using claim_entries by (auto simp: after_def entries_refl split: sum.split)
next
  case (OpCommit x p now now2 act)
  then show ?thesis using commit_entries[OF _ assms(1)] by (auto simp: after_def entries_refl split: sum.split)
next
  case (OpRelease x)
  then show ?thesis using find_entry[OF _ assms(1)] by (fastforce simp: releaseClaim_def entries_refl intro: entries_put quiet_end split: option.split)
next
  case (OpDeny u now)
  then show ?thesis by (auto simp: tryDeny_def entries_refl intro: entries_put quiet_end dest: by_user_code_Some split: option.split)
next
  case (OpExpire d now)
  then show ?thesis by (auto simp: tryExpire_def entries_refl Let_def intro: entries_put quiet_end quiet_status split: option.split)
next
  case (OpReconcile d now act)
  have "entries_change sha op r r'" if "reconcileApprovedRegistration kid d now act r = Inr (res, r')" for res r'
    using reconcile_cases[OF that] by (auto intro!: entries_refl simp: registerSync_cases(1,2))
  then show ?thesis using OpReconcile by (auto simp: after_def entries_refl split: sum.split)
next
  case (OpRegister t a k expect now act)
  obtain res r' where "registerSync kid t a k expect now act r = (res, r')" by fastforce
  then show ?thesis using OpRegister by (auto simp: register_def registerSync_cases(1,2) intro!: entries_refl)
next
  case (OpRevoke t a now)
  then show ?thesis by (simp add: revoke_same entries_refl)
qed (use assms in auto)

section \<open>The invariant of concurrent approvals\<close>

definition codes_ok :: "repository \<Rightarrow> bool" where
  "codes_ok r \<longleftrightarrow> (\<forall>u c. map_of (er_userCodes r) u = Some c \<longrightarrow> (\<exists>e. map_of (er_enrollments r) c = Some e \<and> en_user_code e = u))"

definition owned :: "string \<Rightarrow> string \<Rightarrow> repository \<Rightarrow> bool" where
  "owned u op r \<longleftrightarrow> (\<forall>c f. map_of (er_enrollments r) c = Some f \<longrightarrow> op \<in> op_ids f \<longrightarrow> en_user_code f = u)"

definition unpaid :: "string \<Rightarrow> repository \<Rightarrow> bool" where
  "unpaid op r \<longleftrightarrow> (\<forall>c f. map_of (er_enrollments r) c = Some f \<longrightarrow> en_committedBy f \<noteq> Some op)"

definition paid :: "string \<Rightarrow> commit_payload \<Rightarrow> repository \<Rightarrow> bool" where
  "paid op p r \<longleftrightarrow> (\<forall>c f. map_of (er_enrollments r) c = Some f \<longrightarrow> en_committedBy f = Some op \<longrightarrow>
     en_natsCreds f = Some (cp_creds p) \<and> en_peerId f = Some (cp_peerId p))"

definition settled_as :: "string \<Rightarrow> nats_creds \<Rightarrow> string \<Rightarrow> repository \<Rightarrow> bool" where
  "settled_as u creds peer r \<longleftrightarrow> (\<exists>c f. map_of (er_enrollments r) c = Some f \<and> en_user_code f = u \<and> en_status f = Approved \<and>
     en_natsCreds f = Some creds \<and> en_peerId f = Some peer)"

fun stage_ok :: "df_options \<Rightarrow> string \<Rightarrow> string \<Rightarrow> approve_stage \<Rightarrow> repository \<Rightarrow> bool" where
  "stage_ok opt u op AtStart r \<longleftrightarrow> (\<forall>c f. map_of (er_enrollments r) c = Some f \<longrightarrow> op \<notin> op_ids f)"
| "stage_ok opt u op (AtClaim res) r \<longleftrightarrow> owned u op r \<and> unpaid op r \<and>
     (\<forall>e. res = AlreadyApproved e \<longrightarrow> (\<exists>c. map_of (er_enrollments r) c = Some e \<and> en_user_code e = u \<and> en_status e = Approved))"
| "stage_ok opt u op (AtReconciled e) r \<longleftrightarrow> (\<exists>c. map_of (er_enrollments r) c = Some e \<and> en_user_code e = u \<and> en_status e = Approved)"
| "stage_ok opt u op (AtHistory e h) r \<longleftrightarrow> owned u op r \<and> unpaid op r"
| "stage_ok opt u op (AtReleased out) r \<longleftrightarrow> (\<forall>x. out \<noteq> Inr (ApprovedOut x))"
| "stage_ok opt u op (AtActive e k) r \<longleftrightarrow> owned u op r \<and> unpaid op r"
| "stage_ok opt u op (AtMint e expect) r \<longleftrightarrow> owned u op r \<and> unpaid op r"
| "stage_ok opt u op (AtCommit e p retried res) r \<longleftrightarrow> owned u op r \<and> paid op p r \<and> cp_peerId p \<noteq> [] \<and>
     (\<forall>k i. res = Inr (Committed k i) \<longrightarrow> settled_as u (cp_creds p) (cp_peerId p) r)"
| "stage_ok opt u op (Finished out) r \<longleftrightarrow> (\<forall>x. out = Inr (ApprovedOut x) \<longrightarrow>
     (\<exists>creds peer. x = df_result opt creds peer \<and> peer \<noteq> [] \<and> settled_as u creds peer r))"

text \<open>A change of the repository that concerns an operation in no other way than keeping what it holds.\<close>

definition stable :: "string \<Rightarrow> repository \<Rightarrow> repository \<Rightarrow> bool" where
  "stable op r r' \<longleftrightarrow>
     (\<forall>c f'. map_of (er_enrollments r') c = Some f' \<longrightarrow> op \<in> op_ids f' \<longrightarrow>
        (\<exists>f. map_of (er_enrollments r) c = Some f \<and> op \<in> op_ids f \<and> en_user_code f' = en_user_code f \<and> (en_committedBy f' = Some op \<longrightarrow> same_commit f f'))) \<and>
     (\<forall>c f. map_of (er_enrollments r) c = Some f \<longrightarrow> terminal f \<longrightarrow> map_of (er_enrollments r') c = Some f)"

lemma stable_ids: "stable op r r' \<Longrightarrow> map_of (er_enrollments r') c = Some f' \<Longrightarrow> op \<in> op_ids f' \<Longrightarrow>
    \<exists>f. map_of (er_enrollments r) c = Some f \<and> op \<in> op_ids f \<and> en_user_code f' = en_user_code f \<and> (en_committedBy f' = Some op \<longrightarrow> same_commit f f')"
  by (simp add: stable_def)

lemma stable_kept: "stable op r r' \<Longrightarrow> map_of (er_enrollments r) c = Some f \<Longrightarrow> en_status f = Approved \<Longrightarrow> map_of (er_enrollments r') c = Some f"
  by (simp add: stable_def terminal_def)

lemma committed_op: "en_committedBy f = Some op \<Longrightarrow> op \<in> op_ids f"
  by (simp add: op_ids_def)

lemma stable_owned: "stable op r r' \<Longrightarrow> owned u op r \<Longrightarrow> owned u op r'"
  unfolding owned_def using stable_ids by metis

lemma stable_unpaid:
  assumes "stable op r r'" "unpaid op r"
  shows "unpaid op r'"
  unfolding unpaid_def
proof (intro allI impI notI)
  fix c f'
  assume f': "map_of (er_enrollments r') c = Some f'" "en_committedBy f' = Some op"
  then obtain f where "map_of (er_enrollments r) c = Some f" "same_commit f f'" using stable_ids[OF assms(1) f'(1) committed_op] by blast
  then show False using assms(2) f'(2) unfolding unpaid_def same_commit_def by metis
qed

lemma stable_paid:
  assumes "stable op r r'" "paid op p r"
  shows "paid op p r'"
  unfolding paid_def
proof (intro allI impI)
  fix c f'
  assume f': "map_of (er_enrollments r') c = Some f'" "en_committedBy f' = Some op"
  then obtain f where "map_of (er_enrollments r) c = Some f" "same_commit f f'" using stable_ids[OF assms(1) f'(1) committed_op] by blast
  then show "en_natsCreds f' = Some (cp_creds p) \<and> en_peerId f' = Some (cp_peerId p)" using assms(2) f'(2) by (simp add: paid_def same_commit_def)
qed

lemma stable_settled: "stable op r r' \<Longrightarrow> settled_as u creds peer r \<Longrightarrow> settled_as u creds peer r'"
  unfolding settled_as_def using stable_kept by blast

lemma stage_stable: "stable op r r' \<Longrightarrow> stage_ok opt u op st r \<Longrightarrow> stage_ok opt u op st r'"
proof (cases st)
  case AtStart
  assume "stable op r r'" "stage_ok opt u op st r"
  then show ?thesis using AtStart stable_ids by (metis stage_ok.simps(1))
next
  case (AtReconciled e)
  assume "stable op r r'" "stage_ok opt u op st r"
  then show ?thesis unfolding AtReconciled stage_ok.simps using stable_kept by blast
next
  case (AtClaim res)
  assume "stable op r r'" "stage_ok opt u op st r"
  then show ?thesis unfolding AtClaim stage_ok.simps using stable_kept stable_owned stable_unpaid by blast
qed (auto simp: stable_owned stable_unpaid stable_paid stable_settled, (use stable_settled in blast)+)

fun op_names :: "repo_op \<Rightarrow> string set" where
  "op_names (OpClaim u x leaseMs now) = {x}"
| "op_names (OpCommit x p now now2 act) = {x}"
| "op_names _ = {}"

lemma entries_stable:
  assumes "entries_change sha op r r'" "x \<notin> op_names op" "\<And>c f. map_of (er_enrollments r) c = Some f \<Longrightarrow> terminal f \<Longrightarrow> map_of (er_enrollments r') c = Some f"
  shows "stable x r r'"
  unfolding stable_def
proof (intro conjI allI impI)
  fix c f'
  assume f': "map_of (er_enrollments r') c = Some f'" "x \<in> op_ids f'"
  obtain f where f: "map_of (er_enrollments r) c = Some f" "entry_change sha op c r f f'"
    using assms(1) f'(1) unfolding entries_change_def by (metis option.rel_distinct(1) option.rel_inject(2) option.exhaust)
  from f(2) show "\<exists>f. map_of (er_enrollments r) c = Some f \<and> x \<in> op_ids f \<and> en_user_code f' = en_user_code f \<and> (en_committedBy f' = Some x \<longrightarrow> same_commit f f')"
  proof cases
    case quiet
    then show ?thesis using f f' by (auto simp: same_identity_def)
  next
    case (claim u y leaseMs now)
    then show ?thesis using f f' assms(2) by (auto simp: same_identity_def)
  next
    case (commit y p now now2 act k)
    then show ?thesis using f f' assms(2) by (auto simp: op_ids_def approved_entry_def claimed_by_def)
  qed
qed (use assms(3) in blast)

lemma entries_codes:
  assumes "entries_change sha op r r'" "codes_ok r"
  shows "codes_ok r'"
  unfolding codes_ok_def
proof (intro allI impI)
  fix u c
  assume "map_of (er_userCodes r') u = Some c"
  then obtain e where e: "map_of (er_enrollments r) c = Some e" "en_user_code e = u" using assms unfolding entries_change_def codes_ok_def by metis
  obtain e' where e': "map_of (er_enrollments r') c = Some e'" "entry_change sha op c r e e'"
    using assms(1) e(1) unfolding entries_change_def by (metis option.rel_distinct(2) option.rel_inject(2) option.exhaust)
  from e'(2) have "en_user_code e' = en_user_code e" by cases (auto simp: same_identity_def approved_entry_def)
  then show "\<exists>e. map_of (er_enrollments r') c = Some e \<and> en_user_code e = u" using e e' by simp
qed

definition all_ops :: "repository \<Rightarrow> string set" where
  "all_ops r = {op. \<exists>c f. map_of (er_enrollments r) c = Some f \<and> op \<in> op_ids f}"

lemma entries_ops:
  assumes "entries_change sha op r r'"
  shows "all_ops r' \<subseteq> all_ops r \<union> op_names op"
proof
  fix x
  assume "x \<in> all_ops r'"
  then obtain c f' where f': "map_of (er_enrollments r') c = Some f'" "x \<in> op_ids f'" by (auto simp: all_ops_def)
  obtain f where f: "map_of (er_enrollments r) c = Some f" "entry_change sha op c r f f'"
    using assms(1) f'(1) unfolding entries_change_def by (metis option.rel_distinct(1) option.rel_inject(2) option.exhaust)
  from f(2) have "op_ids f' \<subseteq> op_ids f \<union> op_names op" by cases (auto simp: op_ids_def approved_entry_def claimed_by_def)
  then show "x \<in> all_ops r \<union> op_names op" using f f' by (auto simp: all_ops_def)
qed

section \<open>The steps of an approval\<close>

lemma code_owner: "codes_ok r \<Longrightarrow> by_user_code u r = Some (c, f) \<Longrightarrow> en_user_code f = u"
  by (fastforce simp: codes_ok_def by_user_code_def split: option.splits if_splits)

lemma already_approved:
  assumes "claimApproval u op leaseMs now r = Inr (AlreadyApproved e, r')"
  shows "r' = r \<and> (\<exists>c. by_user_code u r = Some (c, e)) \<and> en_status e = Approved"
proof (cases "by_user_code u r")
  case None
  then show ?thesis using assms by (simp add: claimApproval_def)
next
  case (Some ce)
  obtain c f where ce: "ce = (c, f)" by fastforce
  show ?thesis using assms[unfolded claimApproval_def Some ce option.case prod.case Let_def] Some ce
    by (cases "en_status f"; cases "en_claim f") (auto split: if_splits)
qed

lemma entries_back:
  assumes "entries_change sha op r r'" "map_of (er_enrollments r') c = Some f'"
  shows "\<exists>f. map_of (er_enrollments r) c = Some f \<and> entry_change sha op c r f f'"
  using assms unfolding entries_change_def by (metis option.rel_distinct(1) option.rel_inject(2) option.exhaust)

lemma claim_stage:
  assumes codes: "codes_ok r" and start: "\<And>c f. map_of (er_enrollments r) c = Some f \<Longrightarrow> op \<notin> op_ids f"
    and claim: "claimApproval u op leaseMs now r = Inr (res, r')"
  shows "stage_ok opt u op (AtClaim res) r'"
proof -
  note ch = claim_entries[OF claim, where sha = id]
  have "en_user_code f' = u" if f': "map_of (er_enrollments r') c = Some f'" "op \<in> op_ids f'" for c f'
  proof -
    obtain f where f: "map_of (er_enrollments r) c = Some f" "entry_change id (OpClaim u op leaseMs now) c r f f'" using entries_back[OF ch f'(1)] by blast
    from f(2) show ?thesis
    proof cases
      case quiet
      then show ?thesis using f'(2) start[OF f(1)] by auto
    next
      case (claim v x l n)
      then show ?thesis using code_owner[OF codes claim(2)] by (auto simp: same_identity_def)
    qed simp
  qed
  moreover have "en_committedBy f' \<noteq> Some op" if f': "map_of (er_enrollments r') c = Some f'" for c f'
  proof -
    obtain f where f: "map_of (er_enrollments r) c = Some f" "entry_change id (OpClaim u op leaseMs now) c r f f'" using entries_back[OF ch f'] by blast
    from f(2) have "same_commit f f'" by cases auto
    then show ?thesis using start[OF f(1)] committed_op by (auto simp: same_commit_def)
  qed
  moreover have "\<exists>c. map_of (er_enrollments r') c = Some e \<and> en_user_code e = u \<and> en_status e = Approved" if e: "res = AlreadyApproved e" for e
  proof -
    obtain c where c: "r' = r" "by_user_code u r = Some (c, e)" "en_status e = Approved" using already_approved claim e by blast
    then show ?thesis using by_user_code_Some[OF c(2)] code_owner[OF codes c(2)] by blast
  qed
  ultimately show ?thesis by (auto simp: owned_def unpaid_def)
qed

lemma commit_stage:
  assumes inv: "repo_inv kid r" and own: "owned u op r" and paid: "paid op p r"
    and commit: "commitApproval kid sha op p now now2 act r = Inr (res, r')"
  shows "owned u op r' \<and> paid op p r' \<and> (\<forall>k i. res = Committed k i \<longrightarrow> settled_as u (cp_creds p) (cp_peerId p) r')"
proof (intro conjI allI impI)
  note ch = commit_entries[OF commit inv]
  have origin: "\<exists>f. map_of (er_enrollments r) c = Some f \<and> en_user_code f' = en_user_code f \<and> op_ids f' \<subseteq> op_ids f \<and>
      (same_commit f f' \<or> en_natsCreds f' = Some (cp_creds p) \<and> en_peerId f' = Some (cp_peerId p))"
    if f': "map_of (er_enrollments r') c = Some f'" for c f'
  proof -
    obtain f where f: "map_of (er_enrollments r) c = Some f" "entry_change sha (OpCommit op p now now2 act) c r f f'" using entries_back[OF ch f'] by blast
    from f(2) show ?thesis using f(1) by cases (auto simp: same_identity_def approved_entry_def op_ids_def claimed_by_def)
  qed
  show "owned u op r'" unfolding owned_def using origin own unfolding owned_def by (metis subsetD)
  show "paid op p r'" unfolding paid_def using origin paid unfolding paid_def same_commit_def by metis
  fix k i
  assume res: "res = Committed k i"
  show "settled_as u (cp_creds p) (cp_peerId p) r'"
    using commit inv
  proof (cases rule: commit_cases)
    case (retried c e k')
    then have "en_user_code e = u" "en_natsCreds e = Some (cp_creds p)" "en_peerId e = Some (cp_peerId p)"
      using own paid committed_op[OF retried(3)] by (auto simp: owned_def paid_def)
    then show ?thesis using retried unfolding settled_as_def by blast
  next
    case (committed c e cl k' idem r1)
    have "en_user_code e = u" using own committed(1,3,4) by (auto simp: owned_def op_ids_def claimed_by_def)
    then have "map_of (er_enrollments r') c = Some (approved_entry sha op p now k' e)" "en_user_code (approved_entry sha op p now k' e) = u"
      using committed(10) by (simp_all add: put_enrollment_def AList.update_conv' approved_entry_def)
    then show ?thesis unfolding settled_as_def
      by (intro exI[of _ c] exI[of _ "approved_entry sha op p now k' e"]) (simp add: approved_entry_def)
  next
    case (undone c e)
    then show ?thesis using res by blast
  qed (use res in auto)
qed

text \<open>The repository call a step of an approval makes, if any.\<close>

fun stage_call :: "df_options \<Rightarrow> string \<Rightarrow> string \<Rightarrow> step_input \<Rightarrow> approve_stage \<Rightarrow> repo_op list" where
  "stage_call opt u op si AtStart = [OpClaim u op (do_approvalLeaseMs opt) (si_now si)]"
| "stage_call opt u op si (AtClaim (AlreadyApproved e)) = [OpReconcile (en_device_code e) (si_now si) (si_activation si)]"
| "stage_call opt u op si (AtMint e expect) = (case si_mint si of
     Some creds \<Rightarrow> [OpCommit op \<lparr>cp_creds = creds, cp_peerId = si_peerId si, cp_agentPublicKey = en_agentPublicKey e, cp_expect = expect\<rparr> (si_now si) (si_now2 si) (si_activation si)]
   | None \<Rightarrow> [OpRelease op])"
| "stage_call opt u op si (AtCommit e p retried res) = [OpCommit op p (si_now si) (si_now2 si) (si_activation si)]"
| "stage_call opt u op si (AtHistory e h) = [OpRelease op]"
| "stage_call opt u op si (AtActive e k) = [OpRelease op]"
| "stage_call opt u op si st = []"

lemma commit_call_repo:
  assumes "commit_call kid sha op p si r = (res, r')"
  shows "r' = r \<or> r' = repo_step kid sha (OpCommit op p (si_now si) (si_now2 si) (si_activation si)) r"
  using assms by (auto simp: commit_call_def after_def split: if_splits sum.splits prod.splits)

lemma stage_step_repo:
  assumes "approve_stage_step kid sha opt u op replace si st r = (st', r')"
  shows "r' = r \<or> (\<exists>c \<in> set (stage_call opt u op si st). r' = repo_step kid sha c r)"
proof (cases st)
  case (AtClaim res)
  then show ?thesis using assms by (cases res) (auto simp: after_def split: sum.splits prod.splits)
next
  case (AtMint e expect)
  then show ?thesis using assms commit_call_repo by (fastforce simp: Let_def split: option.splits prod.splits if_splits)
next
  case (AtCommit e p retried res)
  then show ?thesis using assms commit_call_repo by (fastforce split: sum.splits prod.splits if_splits)
qed (use assms in \<open>auto simp: after_def split: sum.splits prod.splits if_splits option.splits\<close>)

text \<open>The events of a system whose claims, commits and releases are those of its approvals, before any sweep.\<close>

fun ev_ok :: "df_event \<Rightarrow> bool" where
  "ev_ok (EvRepo (OpCreate f)) \<longleftrightarrow> ef_device_code f \<noteq> []"
| "ev_ok (EvRepo (OpDeny u now)) \<longleftrightarrow> True"
| "ev_ok (EvRepo (OpExpire d now)) \<longleftrightarrow> True"
| "ev_ok (EvRepo (OpReconcile d now act)) \<longleftrightarrow> True"
| "ev_ok (EvRepo (OpRegister t a k expect now act)) \<longleftrightarrow> True"
| "ev_ok (EvRepo (OpRevoke t a now)) \<longleftrightarrow> True"
| "ev_ok (EvRepo _) \<longleftrightarrow> False"
| "ev_ok (EvApprove u op replace) \<longleftrightarrow> True"
| "ev_ok (EvStep i si) \<longleftrightarrow> si_peerId si \<noteq> []"

fun ev_opIds :: "df_event \<Rightarrow> string list" where
  "ev_opIds (EvApprove u op replace) = [op]"
| "ev_opIds _ = []"

definition df_inv :: "(string \<Rightarrow> string) \<Rightarrow> df_options \<Rightarrow> repository \<times> approval list \<Rightarrow> bool" where
  "df_inv kid opt s = (case s of (r, as) \<Rightarrow> repo_inv kid r \<and> codes_ok r \<and> distinct (map ap_opId as) \<and> all_ops r \<subseteq> set (map ap_opId as) \<and>
     (\<forall>a \<in> set as. stage_ok opt (ap_userCode a) (ap_opId a) (ap_stage a) r))"

lemma create_stable:
  assumes "repo_inv kid r"
  shows "stable x r (repo_step kid sha (OpCreate f) r)"
    and "codes_ok r \<Longrightarrow> codes_ok (repo_step kid sha (OpCreate f) r)" and "all_ops (repo_step kid sha (OpCreate f) r) \<subseteq> all_ops r"
proof -
  let ?e = "pending_enrollment f" and ?r = "repo_step kid sha (OpCreate f) r"
  have ids: "op_ids ?e = {}" by (simp add: op_ids_def claimed_by_def pending_enrollment_def)
  have code: "en_user_code ?e = ef_user_code f" by (simp add: pending_enrollment_def)
  consider (same) "?r = r" | (new) "map_of (er_enrollments r) (ef_device_code f) = None"
      "\<And>c. map_of (er_enrollments ?r) c = (if c = ef_device_code f then Some ?e else map_of (er_enrollments r) c)"
      "\<And>u. map_of (er_userCodes ?r) u = (if u = ef_user_code f then Some (ef_device_code f) else map_of (er_userCodes r) u)"
    by (cases "createEnrollment ?e r") (auto simp: createEnrollment_def put_enrollment_def pending_enrollment_def AList.update_conv' split: option.splits if_splits)
  then have "stable x r ?r \<and> (codes_ok r \<longrightarrow> codes_ok ?r) \<and> all_ops ?r \<subseteq> all_ops r"
  proof cases
    case same
    then show ?thesis by (simp add: stable_def same_commit_def)
  next
    case new
    have "stable x r ?r" unfolding stable_def new(2) using ids new(1) by (auto simp: same_commit_def split: if_splits)
    moreover have "codes_ok ?r" if codes: "codes_ok r"
      unfolding codes_ok_def
    proof (intro allI impI)
      fix u c
      assume u: "map_of (er_userCodes ?r) u = Some c"
      show "\<exists>e. map_of (er_enrollments ?r) c = Some e \<and> en_user_code e = u"
      proof (cases "u = ef_user_code f")
        case True
        then show ?thesis using u new(2)[of c] new(3)[of u] code by simp
      next
        case False
        then have "map_of (er_userCodes r) u = Some c" using u new(3)[of u] by simp
        then obtain e where "map_of (er_enrollments r) c = Some e" "en_user_code e = u" using codes unfolding codes_ok_def by blast
        then show ?thesis using new(1) new(2)[of c] by (cases "c = ef_device_code f") auto
      qed
    qed
    moreover have "all_ops ?r \<subseteq> all_ops r" unfolding all_ops_def new(2) using ids by (fastforce split: if_splits)
    ultimately show ?thesis by blast
  qed
  then show "stable x r ?r" "codes_ok r \<Longrightarrow> codes_ok ?r" "all_ops ?r \<subseteq> all_ops r" by blast+
qed

lemma quiet_step:
  assumes "repo_inv kid r" "\<And>f. op \<noteq> OpCreate f" "\<And>now. op \<noteq> OpSweep now" "x \<notin> op_names op"
  shows "stable x r (repo_step kid sha op r)"
proof (rule entries_stable[OF repo_step_entries[OF assms(1-3)] assms(4)])
  fix c f
  assume "map_of (er_enrollments r) c = Some f" "terminal f"
  moreover have "retains (er_retentionMs r) f op" using assms(3) by (cases op) auto
  ultimately show "map_of (er_enrollments (repo_step kid sha op r)) c = Some f"
    by (rule terminal_step[OF assms(1)])
qed

lemma stage_call_ok:
  assumes "c \<in> set (stage_call opt u op si st)"
  shows "op_ok c" "op_names c \<subseteq> {op}" "c \<noteq> OpCreate f" "c \<noteq> OpSweep now"
  using assms by (induction opt u op si st rule: stage_call.induct) (auto split: option.splits)

lemma stage_step_stable:
  assumes "repo_inv kid r" "approve_stage_step kid sha opt u op replace si st r = (st', r')"
  shows "x \<noteq> op \<Longrightarrow> stable x r r'" and "codes_ok r \<Longrightarrow> codes_ok r'" and "all_ops r' \<subseteq> insert op (all_ops r)" and "repo_inv kid r'"
    and "map_of (er_enrollments r) c = Some f \<Longrightarrow> terminal f \<Longrightarrow> map_of (er_enrollments r') c = Some f"
proof -
  consider "r' = r" | c where "c \<in> set (stage_call opt u op si st)" "r' = repo_step kid sha c r"
    using stage_step_repo[OF assms(2)] by blast
  then have "(x \<noteq> op \<longrightarrow> stable x r r') \<and> (codes_ok r \<longrightarrow> codes_ok r') \<and> all_ops r' \<subseteq> insert op (all_ops r) \<and> repo_inv kid r' \<and>
    (map_of (er_enrollments r) c = Some f \<longrightarrow> terminal f \<longrightarrow> map_of (er_enrollments r') c = Some f)"
  proof cases
    case 1
    then show ?thesis using assms(1) by (auto simp: stable_def same_commit_def)
  next
    case (2 d)
    note ok = stage_call_ok[OF 2(1)]
    have ch: "entries_change sha d r r'" unfolding 2(2) by (rule repo_step_entries[OF assms(1) ok(3,4)])
    have "stable x r r'" if "x \<noteq> op" unfolding 2(2) by (rule quiet_step[OF assms(1) ok(3,4)]) (use ok(2) that in auto)
    moreover have "retains (er_retentionMs r) f d" using ok(4) by (cases d) auto
    then have "map_of (er_enrollments r) c = Some f \<longrightarrow> terminal f \<longrightarrow> map_of (er_enrollments r') c = Some f"
      unfolding 2(2) using terminal_step[OF assms(1)] by blast
    ultimately show ?thesis using entries_codes[OF ch] entries_ops[OF ch] ok(2) repo_step_inv[OF assms(1) ok(1), of sha] 2(2) by auto
  qed
  then show "x \<noteq> op \<Longrightarrow> stable x r r'" "codes_ok r \<Longrightarrow> codes_ok r'" "all_ops r' \<subseteq> insert op (all_ops r)" "repo_inv kid r'"
    "map_of (er_enrollments r) c = Some f \<Longrightarrow> terminal f \<Longrightarrow> map_of (er_enrollments r') c = Some f" by blast+
qed

lemma commit_call_ok:
  assumes "repo_inv kid r" "owned u op r" "paid op p r" "commit_call kid sha op p si r = (res, r')"
  shows "owned u op r' \<and> paid op p r' \<and> (\<forall>k i. res = Inr (Committed k i) \<longrightarrow> settled_as u (cp_creds p) (cp_peerId p) r')"
proof (cases "commitApproval kid sha op p (si_now si) (si_now2 si) (si_activation si) r")
  case (Inl e)
  then show ?thesis using assms by (auto simp: commit_call_def split: if_splits)
next
  case (Inr out)
  obtain o' r1 where out: "out = (o', r1)" by fastforce
  show ?thesis using commit_stage[OF assms(1-3) Inr[unfolded out]] assms Inr out by (auto simp: commit_call_def split: if_splits)
qed

lemma unpaid_paid: "unpaid op r \<Longrightarrow> paid op p r"
  by (auto simp: unpaid_def paid_def)

lemma own_step:
  assumes inv: "repo_inv kid r" "codes_ok r" and ok: "stage_ok opt u op st r" and peer: "si_peerId si \<noteq> []"
    and step: "approve_stage_step kid sha opt u op replace si st r = (st', r')"
  shows "stage_ok opt u op st' r'"
proof (cases st)
  case AtStart
  have start: "op \<notin> op_ids f" if "map_of (er_enrollments r) c = Some f" for c f using ok AtStart that by simp
  show ?thesis
  proof (cases "claimApproval u op (do_approvalLeaseMs opt) (si_now si) r")
    case (Inl e)
    then show ?thesis using step AtStart by auto
  next
    case (Inr out)
    obtain res r1 where out: "out = (res, r1)" by fastforce
    then have st': "st' = AtClaim res" "r' = r1" using step AtStart Inr by auto
    show ?thesis unfolding st' by (rule claim_stage[OF inv(2) start Inr[unfolded out]])
  qed
next
  case (AtClaim res)
  show ?thesis
  proof (cases "\<exists>e. res = AlreadyApproved e")
    case True
    then obtain e c where e: "res = AlreadyApproved e" "map_of (er_enrollments r) c = Some e" "en_user_code e = u" "en_status e = Approved"
      using ok AtClaim by auto
    have "map_of (er_enrollments r') c = Some e" using stage_step_stable(5)[OF inv(1) step e(2)] e(4) by (simp add: terminal_def)
    then show ?thesis using step AtClaim e by (auto split: sum.splits prod.splits)
  next
    case False
    then show ?thesis using step AtClaim ok by (cases res) auto
  qed
next
  case (AtReconciled e)
  then have e: "\<exists>c. map_of (er_enrollments r) c = Some e \<and> en_user_code e = u \<and> en_status e = Approved" "r' = r" using step ok by auto
  then have "settled_as u creds peer r'" if "en_natsCreds e = Some creds" "en_peerId e = Some peer" for creds peer
    using that unfolding settled_as_def by blast
  then have "stage_ok opt u op (Finished (Inr (ApprovedOut (df_result opt creds peer)))) r'"
    if "en_natsCreds e = Some creds" "en_peerId e = Some peer" "peer \<noteq> []" for creds peer using that by auto
  then show ?thesis using step AtReconciled by (cases "en_natsCreds e"; cases "en_peerId e") (auto simp del: stage_ok.simps split: if_splits, auto)
next
  case (AtHistory e h)
  then show ?thesis using step ok by (auto split: if_splits)
next
  case (AtActive e k)
  then show ?thesis using step ok by (auto simp: conflict_outcome_def split: option.splits)
next
  case (AtMint e expect)
  show ?thesis
  proof (cases "si_mint si")
    case None
    then show ?thesis using step AtMint by auto
  next
    case (Some creds)
    let ?p = "\<lparr>cp_creds = creds, cp_peerId = si_peerId si, cp_agentPublicKey = en_agentPublicKey e, cp_expect = expect\<rparr>"
    obtain res r1 where call: "commit_call kid sha op ?p si r = (res, r1)" by fastforce
    have "owned u op r" "paid op ?p r" using ok AtMint unpaid_paid by auto
    from commit_call_ok[OF inv(1) this call] show ?thesis using step AtMint Some call peer by auto
  qed
next
  case (AtCommit e p retried res)
  show ?thesis
  proof (cases res)
    case (Inr out)
    have "stage_ok opt u op (Finished (Inr (ApprovedOut (df_result opt (cp_creds p) (cp_peerId p))))) r"
      if "out = Committed k i" for k i using ok AtCommit Inr that by auto
    then show ?thesis using step AtCommit Inr
      by (cases out) (auto simp: commit_result_def conflict_outcome_def simp del: stage_ok.simps, auto)
  next
    case (Inl err)
    obtain res1 r1 where call: "commit_call kid sha op p si r = (res1, r1)" by fastforce
    have "owned u op r" "paid op p r" "cp_peerId p \<noteq> []" using ok AtCommit by auto
    with commit_call_ok[OF inv(1) this(1,2) call] show ?thesis using step AtCommit Inl call by (auto split: if_splits)
  qed
qed (use step ok in auto)

lemma env_op: "ev_ok (EvRepo op) \<Longrightarrow> op_ok op \<and> op_names op = {} \<and> (\<forall>now. op \<noteq> OpSweep now)"
  by (cases op) auto

lemma repo_event:
  assumes "repo_inv kid r" "ev_ok (EvRepo op)"
  shows "stable x r (repo_step kid sha op r)" "codes_ok r \<Longrightarrow> codes_ok (repo_step kid sha op r)" "all_ops (repo_step kid sha op r) \<subseteq> all_ops r"
proof -
  note env = env_op[OF assms(2)]
  have "stable x r (repo_step kid sha op r) \<and> (codes_ok r \<longrightarrow> codes_ok (repo_step kid sha op r)) \<and> all_ops (repo_step kid sha op r) \<subseteq> all_ops r"
  proof (cases "\<exists>f. op = OpCreate f")
    case True
    then show ?thesis using create_stable[OF assms(1)] by blast
  next
    case False
    then have ne: "\<And>f. op \<noteq> OpCreate f" "\<And>now. op \<noteq> OpSweep now" using env by auto
    note ch = repo_step_entries[OF assms(1) ne, where sha = sha]
    show ?thesis using quiet_step[OF assms(1) ne, where x = x and sha = sha] entries_codes[OF ch] entries_ops[OF ch] env by auto
  qed
  then show "stable x r (repo_step kid sha op r)" "codes_ok r \<Longrightarrow> codes_ok (repo_step kid sha op r)" "all_ops (repo_step kid sha op r) \<subseteq> all_ops r" by auto
qed

lemma df_step_inv:
  assumes "df_inv kid opt s" "ev_ok ev" "set (ev_opIds ev) \<inter> set (map ap_opId (snd s)) = {}" "df_step kid sha opt ev s = s'"
  shows "df_inv kid opt s' \<and> map ap_opId (snd s') = map ap_opId (snd s) @ ev_opIds ev"
proof -
  obtain r as where s: "s = (r, as)" by fastforce
  have inv: "repo_inv kid r" "codes_ok r" "distinct (map ap_opId as)" "all_ops r \<subseteq> set (map ap_opId as)"
    "\<And>a. a \<in> set as \<Longrightarrow> stage_ok opt (ap_userCode a) (ap_opId a) (ap_stage a) r"
    using assms(1) s by (auto simp: df_inv_def)
  show ?thesis
  proof (cases ev)
    case (EvRepo op)
    then have op: "ev_ok (EvRepo op)" using assms(2) by simp
    have "repo_inv kid (repo_step kid sha op r)" using repo_step_inv[OF inv(1)] env_op[OF op] by blast
    moreover have "stage_ok opt (ap_userCode a) (ap_opId a) (ap_stage a) (repo_step kid sha op r)" if "a \<in> set as" for a
      by (rule stage_stable[OF repo_event(1)[OF inv(1) op] inv(5)[OF that]])
    ultimately show ?thesis using assms(4) s EvRepo repo_event(2,3)[OF inv(1) op, where sha = sha] inv by (auto simp: df_inv_def)
  next
    case (EvApprove u op replace)
    have "op \<notin> all_ops r" using inv(4) assms(3) EvApprove s by auto
    then have "stage_ok opt u op AtStart r" by (auto simp: all_ops_def)
    then show ?thesis using assms(3,4) s EvApprove inv by (auto simp: df_inv_def)
  next
    case (EvStep i si)
    show ?thesis
    proof (cases "i < length as")
      case False
      then show ?thesis using assms s EvStep by auto
    next
      case True
      let ?a = "as ! i"
      obtain st r' where step: "approve_stage_step kid sha opt (ap_userCode ?a) (ap_opId ?a) (ap_replace ?a) si (ap_stage ?a) r = (st, r')" by fastforce
      have a: "?a \<in> set as" using True by simp
      have s': "s' = (r', as[i := ?a\<lparr>ap_stage := st\<rparr>])" using assms(4) s EvStep True step by simp
      have ids: "map ap_opId (as[i := ?a\<lparr>ap_stage := st\<rparr>]) = map ap_opId as" using True by (simp add: map_update list_update_same_conv)
      have own: "stage_ok opt (ap_userCode ?a) (ap_opId ?a) st r'"
        by (rule own_step[OF inv(1,2) inv(5)[OF a] _ step]) (use assms(2) EvStep in simp)
      have "stage_ok opt (ap_userCode b) (ap_opId b) (ap_stage b) r'" if b: "b \<in> set (as[i := ?a\<lparr>ap_stage := st\<rparr>])" for b
      proof -
        obtain j where j: "j < length as" "b = as[i := ?a\<lparr>ap_stage := st\<rparr>] ! j" using b by (auto simp: in_set_conv_nth)
        show ?thesis
        proof (cases "j = i")
          case True
          then show ?thesis using j own by simp
        next
          case False
          then have bj: "b = as ! j" using j by simp
          have "ap_opId b \<noteq> ap_opId ?a" using inv(3) j(1) True False bj by (simp add: distinct_conv_nth)
          then show ?thesis using stage_stable[OF stage_step_stable(1)[OF inv(1) step]] inv(5) j(1) bj by simp
        qed
      qed
      moreover have "all_ops r' \<subseteq> set (map ap_opId as)" using stage_step_stable(3)[OF inv(1) step] inv(4) a by auto
      moreover have "set (map ap_opId (as[i := ?a\<lparr>ap_stage := st\<rparr>])) = set (map ap_opId as)" unfolding ids ..
      ultimately show ?thesis using stage_step_stable(2,4)[OF inv(1) step] inv(1-3) ids EvStep unfolding s' s df_inv_def prod.case
        by (intro conjI ballI) simp_all
    qed
  qed
qed

lemma df_run_inv:
  "df_inv kid opt s \<Longrightarrow> list_all ev_ok evs \<Longrightarrow> distinct (map ap_opId (snd s) @ concat (map ev_opIds evs)) \<Longrightarrow> df_inv kid opt (df_run kid sha opt evs s)"
proof (induction evs arbitrary: s)
  case (Cons ev evs)
  have "set (ev_opIds ev) \<inter> set (map ap_opId (snd s)) = {}" using Cons.prems(3) by auto
  then have s': "df_inv kid opt (df_step kid sha opt ev s)" "map ap_opId (snd (df_step kid sha opt ev s)) = map ap_opId (snd s) @ ev_opIds ev"
    using df_step_inv[OF Cons.prems(1) _ _ refl, of ev sha] Cons.prems(2) by auto
  have "distinct (map ap_opId (snd (df_step kid sha opt ev s)) @ concat (map ev_opIds evs))" unfolding s'(2) using Cons.prems(3) by simp
  then show ?case using Cons.IH[OF s'(1)] Cons.prems(2) by (simp add: df_run_def)
qed (simp add: df_run_def)

lemma df_init_inv: "df_inv kid opt (new_repository m, [])"
  by (simp add: df_inv_def new_repository_inv codes_ok_def all_ops_def) (simp add: new_repository_def)

lemma df_terminal:
  "df_inv kid opt s \<Longrightarrow> list_all ev_ok evs \<Longrightarrow> distinct (map ap_opId (snd s) @ concat (map ev_opIds evs)) \<Longrightarrow>
   map_of (er_enrollments (fst s)) c = Some f \<Longrightarrow> terminal f \<Longrightarrow> map_of (er_enrollments (fst (df_run kid sha opt evs s))) c = Some f"
proof (induction evs arbitrary: s)
  case (Cons ev evs)
  obtain r as where s: "s = (r, as)" by fastforce
  have inv: "repo_inv kid r" using Cons.prems(1) s by (simp add: df_inv_def)
  have "set (ev_opIds ev) \<inter> set (map ap_opId (snd s)) = {}" using Cons.prems(3) by auto
  then have s': "df_inv kid opt (df_step kid sha opt ev s)" "map ap_opId (snd (df_step kid sha opt ev s)) = map ap_opId (snd s) @ ev_opIds ev"
    using df_step_inv[OF Cons.prems(1) _ _ refl, of ev sha] Cons.prems(2) by auto
  have d: "distinct (map ap_opId (snd (df_step kid sha opt ev s)) @ concat (map ev_opIds evs))" unfolding s'(2) using Cons.prems(3) by simp
  have "map_of (er_enrollments (fst (df_step kid sha opt ev s))) c = Some f"
  proof (cases ev)
    case (EvRepo op)
    then show ?thesis using repo_event(1)[OF inv, of op "''''" sha] Cons.prems s by (simp add: stable_def)
  next
    case (EvApprove u op replace)
    then show ?thesis using Cons.prems s by simp
  next
    case (EvStep i si)
    then show ?thesis using Cons.prems(4,5) s stage_step_stable(5)[OF inv] by (auto simp: Let_def split: prod.split)
  qed
  then show ?case using Cons.IH[OF s'(1) _ d] Cons.prems(2,5) by (simp add: df_run_def)
qed (simp add: df_run_def)

lemma df_run_ids:
  "df_inv kid opt s \<Longrightarrow> list_all ev_ok evs \<Longrightarrow> distinct (map ap_opId (snd s) @ concat (map ev_opIds evs)) \<Longrightarrow>
   map ap_opId (snd (df_run kid sha opt evs s)) = map ap_opId (snd s) @ concat (map ev_opIds evs)"
proof (induction evs arbitrary: s)
  case (Cons ev evs)
  have "set (ev_opIds ev) \<inter> set (map ap_opId (snd s)) = {}" using Cons.prems(3) by auto
  then have s': "df_inv kid opt (df_step kid sha opt ev s)" "map ap_opId (snd (df_step kid sha opt ev s)) = map ap_opId (snd s) @ ev_opIds ev"
    using df_step_inv[OF Cons.prems(1) _ _ refl, of ev sha] Cons.prems(2) by auto
  have "distinct (map ap_opId (snd (df_step kid sha opt ev s)) @ concat (map ev_opIds evs))" unfolding s'(2) using Cons.prems(3) by simp
  then show ?case using Cons.IH[OF s'(1)] Cons.prems(2) s'(2) by (simp add: df_run_def)
qed (simp add: df_run_def)

section \<open>Properties\<close>

lemma settled_entry:
  assumes "repo_inv kid r" "settled_as u creds peer r"
  shows "\<exists>e. getEnrollmentByUserCode u r = Some e \<and> getEnrollment (en_device_code e) r = Some e \<and> en_status e = Approved \<and>
    en_natsCreds e = Some creds \<and> en_peerId e = Some peer"
proof -
  obtain c e where e: "map_of (er_enrollments r) c = Some e" "en_user_code e = u" "en_status e = Approved" "en_natsCreds e = Some creds" "en_peerId e = Some peer"
    using assms(2) by (auto simp: settled_as_def)
  then show ?thesis using inv_entry[OF assms(1) e(1)] by (auto simp: getEnrollmentByUserCode_def by_user_code_def getEnrollment_def)
qed

text \<open>
  C15: What an operator is told is what the plugin gets.  In any interleaving of approvals, denials,
  polls and key registrations, with commits whose answers may be lost, an approval that ends with
  credentials leaves an approved enrolment under its user code, every later poll of that device answers with the very same
  credentials, peer and addresses, and all approvals of that user code that end with
  credentials end with the same ones.
\<close>

theorem approvals_agree_with_poll:
  assumes "list_all ev_ok evs" "distinct (concat (map ev_opIds evs))" "df_run kid sha opt evs (new_repository m, []) = (r, as)"
    "a \<in> set as" "ap_stage a = Finished (Inr (ApprovedOut x))"
  shows "(\<exists>e. getEnrollmentByUserCode (ap_userCode a) r = Some e \<and> en_status e = Approved \<and> fst (poll opt (en_device_code e) now r) = Inr x) \<and>
    (\<forall>b y. b \<in> set as \<longrightarrow> ap_userCode b = ap_userCode a \<longrightarrow> ap_stage b = Finished (Inr (ApprovedOut y)) \<longrightarrow> y = x)"
proof -
  have inv: "df_inv kid opt (r, as)" using df_run_inv[OF df_init_inv[of kid opt m], of evs sha] assms(1-3) by simp
  have entry: "\<exists>e creds peer. getEnrollmentByUserCode (ap_userCode b) r = Some e \<and> getEnrollment (en_device_code e) r = Some e \<and> en_status e = Approved \<and>
      en_natsCreds e = Some creds \<and> en_peerId e = Some peer \<and> peer \<noteq> [] \<and> y = df_result opt creds peer"
    if b: "b \<in> set as" "ap_stage b = Finished (Inr (ApprovedOut y))" for b y
  proof -
    have "stage_ok opt (ap_userCode b) (ap_opId b) (ap_stage b) r" using inv b(1) by (simp add: df_inv_def)
    then obtain creds peer where "y = df_result opt creds peer" "peer \<noteq> []" "settled_as (ap_userCode b) creds peer r" using b(2) by auto
    then show ?thesis using settled_entry[of kid r] inv by (fastforce simp: df_inv_def)
  qed
  obtain e creds peer where e: "getEnrollmentByUserCode (ap_userCode a) r = Some e" "getEnrollment (en_device_code e) r = Some e" "en_status e = Approved"
    "en_natsCreds e = Some creds" "en_peerId e = Some peer" "peer \<noteq> []" "x = df_result opt creds peer" using entry[OF assms(4,5)] by blast
  have "entry_ok r e" using inv_entry(4)[of kid r "en_device_code e" e] inv e(2) by (simp add: df_inv_def getEnrollment_def)
  then have "en_claim e = None" using e(3) by (auto simp: entry_ok_def)
  then have "fst (poll opt (en_device_code e) now r) = Inr x" using e by (simp add: poll_def tryExpire_def getEnrollment_def)
  moreover have "y = x" if "b \<in> set as" "ap_userCode b = ap_userCode a" "ap_stage b = Finished (Inr (ApprovedOut y))" for b y
    using entry[OF that(1,3)] e that(2) by auto
  ultimately show ?thesis using e by blast
qed

text \<open>
  A denial wins.  If a denial of a user code succeeds at some point of any interleaving, no approval of that code,
  running before or started after it, ever ends with credentials, and every poll of the device answers that access was
  denied.
\<close>

theorem denial_wins:
  assumes "list_all ev_ok (evs @ later)" "distinct (concat (map ev_opIds (evs @ later)))"
    "df_run kid sha opt evs (new_repository m, []) = (r1, as1)" "deny u now r1 = (True, r2)"
    "df_run kid sha opt later (r2, as1) = (r, as)" "a \<in> set as" "ap_userCode a = u"
  shows "(\<forall>x. ap_stage a \<noteq> Finished (Inr (ApprovedOut x))) \<and>
    (\<exists>e. getEnrollmentByUserCode u r = Some e \<and> fst (poll opt (en_device_code e) t r) = Inl AccessDenied)"
proof -
  have inv1: "df_inv kid opt (r1, as1)" using df_run_inv[OF df_init_inv[of kid opt m], of evs sha] assms(1-3) by simp
  have r2: "r2 = repo_step kid sha (OpDeny u now) r1" using assms(4) by (simp add: deny_def)
  have inv2: "df_inv kid opt (r2, as1)" using df_step_inv[OF inv1, of "EvRepo (OpDeny u now)" sha "(r2, as1)"] r2 by simp
  obtain c f where cf: "map_of (er_enrollments r2) c = Some f" "en_status f = Denied" "en_user_code f = u"
  proof -
    obtain c e where ce: "by_user_code u r1 = Some (c, e)" "r2 = put_enrollment c (e\<lparr>en_status := Denied, en_claim := None\<rparr>) r1"
      using assms(4) by (auto simp: deny_def tryDeny_def split: option.splits if_splits)
    have "en_user_code e = u" using code_owner[OF _ ce(1)] inv1 by (simp add: df_inv_def)
    then show ?thesis using ce(2) by (intro that[of c "e\<lparr>en_status := Denied, en_claim := None\<rparr>"]) (simp_all add: put_enrollment_def AList.update_conv')
  qed
  have ids: "map ap_opId as1 = concat (map ev_opIds evs)" using df_run_ids[OF df_init_inv[of kid opt m], of evs sha] assms(1-3) by simp
  have d: "distinct (map ap_opId (snd (r2, as1)) @ concat (map ev_opIds later))" using ids assms(2) by simp
  have ok: "list_all ev_ok later" using assms(1) by simp
  have inv: "df_inv kid opt (r, as)" using df_run_inv[OF inv2 ok d, of sha] assms(5) by simp
  have f: "map_of (er_enrollments r) c = Some f" using df_terminal[OF inv2 ok d, of c f sha] cf assms(5) by (simp add: terminal_def)
  have rinv: "repo_inv kid r" using inv by (simp add: df_inv_def)
  note fe = inv_entry[OF rinv f]
  have "\<not> settled_as u creds peer r" for creds peer
  proof
    assume "settled_as u creds peer r"
    then obtain d g where g: "map_of (er_enrollments r) d = Some g" "en_user_code g = u" "en_status g = Approved" by (auto simp: settled_as_def)
    then have "d = c" using inv_entry(3)[OF rinv g(1)] fe(3) cf(3) by simp
    then show False using g f cf(2) by simp
  qed
  moreover have "stage_ok opt u (ap_opId a) (ap_stage a) r" using inv assms(6,7) by (auto simp: df_inv_def)
  ultimately have no: "ap_stage a \<noteq> Finished (Inr (ApprovedOut x))" for x by auto
  have "getEnrollmentByUserCode u r = Some f" using fe f cf(3) by (simp add: getEnrollmentByUserCode_def by_user_code_def)
  moreover have "fst (poll opt (en_device_code f) t r) = Inl AccessDenied"
    using fe f cf(2) by (auto simp: poll_def tryExpire_def entry_ok_def split: option.split)
  ultimately show ?thesis using no by blast
qed

definition demo_input :: step_input where
  "demo_input = \<lparr>si_now = 2000, si_now2 = 2000, si_activation = ''act1'', si_mint = Some demo_creds, si_peerId = ''peer1'', si_applied = True, si_answered = True\<rparr>"

definition demo_options :: df_options where
  "demo_options = make_options None None None None ''https://saas.example/'' ''https://saas.example/jwks'' ''https://saas.example/bootstrap'' ''wss://nats.example''"

text \<open>A first approval whose commit answer is lost and a second one of the same code.\<close>

definition demo_events :: "df_event list" where
  "demo_events = [EvRepo (OpCreate demo_fields), EvApprove ''BCDE-GHKM'' ''op1'' None] @ replicate 3 (EvStep 0 demo_input) @
     [EvStep 0 demo_input, EvStep 0 (demo_input\<lparr>si_answered := False\<rparr>), EvStep 0 demo_input, EvStep 0 demo_input,
      EvApprove ''BCDE-GHKM'' ''op2'' None] @ replicate 3 (EvStep 1 demo_input)"

definition demo_end :: "repository \<times> approval list" where
  "demo_end = df_run id id demo_options demo_events (new_repository 300000, [])"

theorem approvals_agree_with_poll_witness:
  "\<exists>e. getEnrollmentByUserCode ''BCDE-GHKM'' (fst demo_end) = Some e \<and> fst (poll demo_options (en_device_code e) 9999999 (fst demo_end)) = Inr (df_result demo_options demo_creds ''peer1'')"
proof -
  have ev: "list_all ev_ok demo_events" "distinct (concat (map ev_opIds demo_events))" by code_simp+
  have fin: "ap_stage (snd demo_end ! 1) = Finished (Inr (ApprovedOut (df_result demo_options demo_creds ''peer1'')))"
    "ap_userCode (snd demo_end ! 1) = ''BCDE-GHKM''" "1 < length (snd demo_end)"
    by code_simp+
  have run: "df_run id id demo_options demo_events (new_repository 300000, []) = (fst demo_end, snd demo_end)" by (simp add: demo_end_def)
  have a: "snd demo_end ! 1 \<in> set (snd demo_end)" using fin(3) by (rule nth_mem)
  show ?thesis using approvals_agree_with_poll[OF ev run a fin(1), of 9999999] fin(2) by auto
qed

theorem denial_wins_witness:
  "ap_stage (snd (df_run id id demo_options [EvStep 0 demo_input, EvStep 0 demo_input]
     (snd (deny ''BCDE-GHKM'' 3000 (fst (df_run id id demo_options (take 5 demo_events) (new_repository 300000, [])))),
      snd (df_run id id demo_options (take 5 demo_events) (new_repository 300000, [])))) ! 0)
   \<noteq> Finished (Inr (ApprovedOut (df_result demo_options demo_creds ''peer1'')))"
proof -
  let ?s1 = "df_run id id demo_options (take 5 demo_events) (new_repository 300000, [])"
  let ?r2 = "snd (deny ''BCDE-GHKM'' 3000 (fst ?s1))"
  let ?later = "[EvStep 0 demo_input, EvStep 0 demo_input]"
  let ?s = "df_run id id demo_options ?later (?r2, snd ?s1)"
  have ev: "list_all ev_ok (take 5 demo_events @ ?later)" "distinct (concat (map ev_opIds (take 5 demo_events @ ?later)))" by code_simp+
  have run: "?s1 = (fst ?s1, snd ?s1)" "?s = (fst ?s, snd ?s)" by simp_all
  have "fst (deny ''BCDE-GHKM'' 3000 (fst ?s1))" by code_simp
  then have den: "deny ''BCDE-GHKM'' 3000 (fst ?s1) = (True, ?r2)" by (metis (full_types) prod.collapse)
  have a: "0 < length (snd ?s)" "ap_userCode (snd ?s ! 0) = ''BCDE-GHKM''" by code_simp+
  show ?thesis using denial_wins[OF ev run(1) den run(2) nth_mem[OF a(1)] a(2), of 0] by blast
qed

definition collision :: "repository_error \<Rightarrow> bool" where
  "collision err \<longleftrightarrow> (\<exists>x. err = UserCodeCollision x \<or> err = DeviceCodeCollision x)"

lemma create_error: "createEnrollment e r = Inl err \<Longrightarrow> collision err"
  by (auto simp: createEnrollment_def collision_def split: if_splits option.splits)

lemma create_stored: "createEnrollment e r = Inr r' \<Longrightarrow> getEnrollment (en_device_code e) r' = Some e"
  by (auto simp: createEnrollment_def getEnrollment_def put_enrollment_def AList.update_conv' split: if_splits option.splits)

lemma enroll_loop_result:
  "enroll_loop kid sha f draw i k lastC r = (res, r') \<Longrightarrow> (\<forall>err. lastC = Some err \<longrightarrow> collision err) \<Longrightarrow> 0 < k \<or> lastC \<noteq> None \<Longrightarrow>
   (case res of Inr (d, u) \<Rightarrow> getEnrollment d r' = Some (pending_enrollment (f\<lparr>ef_device_code := d, ef_user_code := u\<rparr>))
    | Inl None \<Rightarrow> False | Inl (Some err) \<Rightarrow> collision err)"
proof (induction k arbitrary: i lastC r)
  case (Suc k)
  obtain ops dc uc where draw: "draw i = (ops, dc, uc)" by (cases "draw i") auto
  let ?e = "pending_enrollment (f\<lparr>ef_device_code := dc, ef_user_code := uc\<rparr>)"
  show ?case
  proof (cases "createEnrollment ?e (repo_run kid sha ops r)")
    case (Inl err)
    then have c: "collision err" by (rule create_error)
    then have "enroll_loop kid sha f draw (Suc i) k (Some err) (repo_run kid sha ops r) = (res, r')"
      using Suc.prems(1) draw Inl by (auto simp: collision_def)
    from Suc.IH[OF this] c show ?thesis by simp
  next
    case (Inr r2)
    then show ?thesis using Suc.prems(1) draw create_stored[OF Inr] by (auto simp: pending_enrollment_def)
  qed
qed (auto split: option.splits)

lemma check_subject_Inr: "check_subject v label = Inr t \<Longrightarrow> isValidSubjectToken t"
  by (auto simp: check_subject_def assertValidSubjectToken_def split: option.splits json.splits sum.splits if_splits)

lemma agent_key_Inr: "assertValidAgentPublicKey v = Inr k \<Longrightarrow> length k = 43 \<and> list_all token_char k"
  by (auto simp: assertValidAgentPublicKey_def split: option.splits json.splits if_splits)

lemma check_subject_Inl: "check_subject v label = Inl e \<Longrightarrow> \<exists>m. e = EnrollmentValidation m"
  by (auto simp: check_subject_def split: option.splits json.splits sum.splits)

lemma agent_key_Inl: "assertValidAgentPublicKey v = Inl e \<Longrightarrow> \<exists>m. e = EnrollmentValidation m"
  by (auto simp: assertValidAgentPublicKey_def split: option.splits json.splits if_splits)

text \<open>
  Nothing unvalidated is stored.  A successful \<^verbatim>\<open>enroll\<close> stores under the returned device code a pending enrolment with
  no credentials, whose tenant and account are valid subject tokens and whose key has the exact wire
  format; a malformed request fails before the repository is touched; any other failure is a
  collision of random codes, after five attempts.
\<close>

theorem enroll_validates:
  "case enroll kid sha opt rq now draw r of
      (Inr resp, r') \<Rightarrow> (\<exists>e. getEnrollment (rs_device_code resp) r' = Some e \<and> en_status e = Pending \<and> en_natsCreds e = None \<and> en_user_code e = rs_user_code resp \<and>
        isValidSubjectToken (en_tenant e) \<and> isValidSubjectToken (en_accountId e) \<and> length (en_agentPublicKey e) = 43 \<and> list_all token_char (en_agentPublicKey e) \<and>
        en_expiresAt e = now + do_expirationSeconds opt * 1000)
    | (Inl None, r') \<Rightarrow> False
    | (Inl (Some (EnrollmentValidation msg)), r') \<Rightarrow> r' = r
    | (Inl (Some (RepositoryFailure err)), r') \<Rightarrow> collision err"
proof (cases "check_subject (rq_tenant rq) ''tenant''")
  case (Inl e)
  then show ?thesis using check_subject_Inl[OF Inl] by (auto simp: enroll_def)
next
  case tenant: (Inr t)
  show ?thesis
  proof (cases "check_subject (rq_accountId rq) ''accountId''")
    case (Inl e)
    then show ?thesis using tenant check_subject_Inl[OF Inl] by (auto simp: enroll_def)
  next
    case account: (Inr a)
    show ?thesis
    proof (cases "assertValidAgentPublicKey (rq_agentPublicKey rq)")
      case (Inl e)
      then show ?thesis using tenant account agent_key_Inl[OF Inl] by (auto simp: enroll_def)
    next
      case key: (Inr k)
      let ?f = "\<lparr>ef_device_code = [], ef_user_code = [], ef_agentPublicKey = k, ef_accountId = a, ef_tenant = t,
         ef_now = now, ef_expiresAt = now + do_expirationSeconds opt * 1000,
         ef_pluginVersion = sanitizePluginVersion (rq_pluginVersion rq), ef_protocolVersion = sanitizeProtocolVersion (rq_protocolVersion rq)\<rparr>"
      obtain res r' where loop: "enroll_loop kid sha ?f draw 0 MAX_ENROLL_ATTEMPTS None r = (res, r')" by fastforce
      have "case res of Inr (d, u) \<Rightarrow> getEnrollment d r' = Some (pending_enrollment (?f\<lparr>ef_device_code := d, ef_user_code := u\<rparr>))
         | Inl None \<Rightarrow> False | Inl (Some err) \<Rightarrow> collision err"
        by (rule enroll_loop_result[OF loop]) (simp_all add: MAX_ENROLL_ATTEMPTS_def)
      then show ?thesis using tenant account key loop check_subject_Inr[OF tenant] check_subject_Inr[OF account] agent_key_Inr[OF key]
        by (auto simp: enroll_def Let_def pending_enrollment_def split: sum.splits option.splits)
    qed
  qed
qed

lemma letters_range: "nextUniformIndex bs = Some (i, bs') \<Longrightarrow> i < length USER_CODE_ALPHABET"
  by (induction bs) (auto simp: Let_def USER_CODE_ALPHABET_def split: if_splits)

lemma draw_letters_ok: "draw_letters k bs = Some cs \<Longrightarrow> length cs = k \<and> set cs \<subseteq> set USER_CODE_ALPHABET"
proof (induction k arbitrary: bs cs)
  case (Suc k)
  obtain i bs' cs' where "nextUniformIndex bs = Some (i, bs')" "draw_letters k bs' = Some cs'" "cs = USER_CODE_ALPHABET ! i # cs'"
    using Suc.prems by (auto split: option.splits)
  then show ?case using Suc.IH[of bs' cs'] nth_mem[OF letters_range[of bs i bs']] by simp
qed simp

lemma next_index_total: "nextUniformIndex bs = None \<longleftrightarrow> filter (\<lambda>b. b < 252) bs = []"
  by (induction bs) (auto simp: Let_def USER_CODE_ALPHABET_def)

lemma next_index_rest: "nextUniformIndex bs = Some (i, bs') \<Longrightarrow> length (filter (\<lambda>b. b < 252) bs) = Suc (length (filter (\<lambda>b. b < 252) bs'))"
  by (induction bs) (auto simp: Let_def USER_CODE_ALPHABET_def split: if_splits)

lemma draw_letters_total: "k \<le> length (filter (\<lambda>b. b < 252) bs) \<longleftrightarrow> draw_letters k bs \<noteq> None"
proof (induction k arbitrary: bs)
  case (Suc k)
  show ?case
  proof (cases "nextUniformIndex bs")
    case None
    then show ?thesis using next_index_total[of bs] by simp
  next
    case (Some ib)
    obtain i bs' where "ib = (i, bs')" by fastforce
    then show ?thesis using Some Suc[of bs'] next_index_rest[of bs i bs'] by auto
  qed
qed simp

lemma residue_block: "i < n \<Longrightarrow> length (filter (\<lambda>b. b mod n = i) [n * k..<n * k + n]) = 1"
proof -
  assume i: "i < n"
  have "[n * k..<n * k + n] = map (\<lambda>b. b + n * k) [0..<n]" by (simp add: map_add_upt add.commute)
  then have "length (filter (\<lambda>b. b mod n = i) [n * k..<n * k + n]) = length (filter (\<lambda>b. b mod n = i) [0..<n])"
    by (simp add: filter_map comp_def)
  also have "\<dots> = length (filter (\<lambda>b. b = i) [0..<n])" by (intro arg_cong[of _ _ length] filter_cong) auto
  also have "\<dots> = 1" using i by (simp add: distinct_length_filter Collect_conv_if)
  finally show ?thesis .
qed

lemma residue_count: "i < n \<Longrightarrow> length (filter (\<lambda>b. b mod n = i) [0..<n * k]) = k"
proof (induction k)
  case (Suc k)
  have "[0..<n * Suc k] = [0..<n * k] @ [n * k..<n * k + n]" using upt_add_eq_append[of 0 "n * k" n] by (simp add: add.commute)
  then show ?case using Suc residue_block[OF Suc.prems, of k] by simp
qed simp

lemma upt_append_252: "[0..<256] = [0..<252] @ [252..<(256::nat)]"
  using upt_add_eq_append[of 0 252 4] by simp

text \<open>
  User codes are unbiased and well formed.  Whenever eight usable bytes are among those drawn, a code is
  produced, of the shape of four letters, a hyphen and four letters of the alphabet; and of the 256
  values of a byte exactly fourteen select each letter, the remaining four being rejected.
\<close>

theorem user_code_uniform:
  "(8 \<le> length (filter (\<lambda>b. b < 252) bs) \<longleftrightarrow> generateUserCode bs \<noteq> None) \<and>
   (\<forall>code. generateUserCode bs = Some code \<longrightarrow> (\<exists>xs ys. code = xs @ ''-'' @ ys \<and> length xs = 4 \<and> length ys = 4 \<and> set (xs @ ys) \<subseteq> set USER_CODE_ALPHABET)) \<and>
   (\<forall>i < length USER_CODE_ALPHABET. length (filter (\<lambda>b. map_option fst (nextUniformIndex [b]) = Some i) [0..<256]) = 14)"
proof (intro conjI allI impI)
  show "(8 \<le> length (filter (\<lambda>b. b < 252) bs)) = (generateUserCode bs \<noteq> None)" using draw_letters_total[of 8 bs] by (simp add: generateUserCode_def)
  show "\<exists>xs ys. code = xs @ ''-'' @ ys \<and> length xs = 4 \<and> length ys = 4 \<and> set (xs @ ys) \<subseteq> set USER_CODE_ALPHABET" if code: "generateUserCode bs = Some code" for code
  proof -
    obtain cs where cs: "draw_letters 8 bs = Some cs" "code = take 4 cs @ ''-'' @ drop 4 cs" using code by (auto simp: generateUserCode_def)
    then show ?thesis using draw_letters_ok[OF cs(1)] by (intro exI[of _ "take 4 cs"] exI[of _ "drop 4 cs"]) (auto dest: in_set_takeD in_set_dropD)
  qed
  show "length (filter (\<lambda>b. map_option fst (nextUniformIndex [b]) = Some i) [0..<256]) = 14" if "i < length USER_CODE_ALPHABET" for i
  proof -
    have "map_option fst (nextUniformIndex [b]) = Some i \<longleftrightarrow> b < 252 \<and> b mod 18 = i" for b by (simp add: USER_CODE_ALPHABET_def)
    then have "length (filter (\<lambda>b. map_option fst (nextUniformIndex [b]) = Some i) [0..<256]) = length (filter (\<lambda>b. b < 252 \<and> b mod 18 = i) ([0..<252] @ [252..<256]))"
      by (simp only: upt_append_252)
    also have "\<dots> = length (filter (\<lambda>b. b mod 18 = i) [0..<252])"
    proof -
      have "filter (\<lambda>b. b < 252 \<and> b mod 18 = i) [0..<252] = filter (\<lambda>b. b mod 18 = i) [0..<252]" by (rule filter_cong) auto
      then show ?thesis by simp
    qed
    also have "\<dots> = 14" using residue_count[of i 18 14] that by (simp add: USER_CODE_ALPHABET_def)
    finally show ?thesis .
  qed
qed

theorem user_code_uniform_witness:
  "\<exists>xs ys. the (generateUserCode [0, 1, 2, 3, 255, 4, 5, 6, 7]) = xs @ ''-'' @ ys \<and> length xs = 4 \<and> length ys = 4"
proof -
  have "generateUserCode [0, 1, 2, 3, 255, 4, 5, 6, 7] \<noteq> None" using user_code_uniform[of "[0, 1, 2, 3, 255, 4, 5, 6, 7]"] by simp
  then obtain code where "generateUserCode [0, 1, 2, 3, 255, 4, 5, 6, 7] = Some code" by blast
  then show ?thesis using user_code_uniform[of "[0, 1, 2, 3, 255, 4, 5, 6, 7]"] by force
qed

end
