(* ===== verification/Chacha.thy ===== *)
theory Chacha
  imports Main "HOL-Library.Word"
begin

text \<open>
  The browser's ChaCha20-Poly1305 (\<^verbatim>\<open>packages/client/src/chacha20poly1305.ts\<close>), the cipher
  the end-to-end encryption of the client uses where the plugin uses Node's.  Octets are
  \<open>8 word\<close>s, the cipher state is a list of sixteen \<open>32 word\<close>s, and the field arithmetic of
  Poly1305, which the code does in \<^verbatim>\<open>BigInt\<close>, is over the integers.  A typed array is the list
  of its elements; reading a key of fewer than 32 or a nonce of fewer than 12 octets through
  a \<^verbatim>\<open>DataView\<close> throws, which is \<open>None\<close>.
\<close>

unbundle bit_operations_syntax

type_synonym octet = "8 word"
type_synonym word32 = "32 word"

section \<open>The stream cipher\<close>

definition rotl32 :: "word32 \<Rightarrow> nat \<Rightarrow> word32" where
  "rotl32 n r = push_bit r n OR drop_bit (32 - r) n"

definition quarterRound :: "nat \<Rightarrow> nat \<Rightarrow> nat \<Rightarrow> nat \<Rightarrow> word32 list \<Rightarrow> word32 list" where
  "quarterRound a b c d s =
     (let s = s[a := s ! a + s ! b]; s = s[d := rotl32 (s ! d XOR s ! a) 16];
          s = s[c := s ! c + s ! d]; s = s[b := rotl32 (s ! b XOR s ! c) 12];
          s = s[a := s ! a + s ! b]; s = s[d := rotl32 (s ! d XOR s ! a) 8];
          s = s[c := s ! c + s ! d]; s = s[b := rotl32 (s ! b XOR s ! c) 7]
      in s)"

text \<open>Little-endian accesses of a \<^verbatim>\<open>DataView\<close>.\<close>

definition getUint32 :: "octet list \<Rightarrow> nat \<Rightarrow> word32" where
  "getUint32 bs off =
     ucast (bs ! off) OR push_bit 8 (ucast (bs ! (off + 1))) OR push_bit 16 (ucast (bs ! (off + 2)))
     OR push_bit 24 (ucast (bs ! (off + 3)))"

definition setUint32 :: "word32 \<Rightarrow> octet list" where
  "setUint32 w = [ucast w, ucast (drop_bit 8 w), ucast (drop_bit 16 w), ucast (drop_bit 24 w)]"

definition double_round :: "word32 list \<Rightarrow> word32 list" where
  "double_round s =
     (quarterRound 3 4 9 14 \<circ> quarterRound 2 7 8 13 \<circ> quarterRound 1 6 11 12 \<circ> quarterRound 0 5 10 15 \<circ>
      quarterRound 3 7 11 15 \<circ> quarterRound 2 6 10 14 \<circ> quarterRound 1 5 9 13 \<circ> quarterRound 0 4 8 12) s"

definition initial_state :: "octet list \<Rightarrow> int \<Rightarrow> octet list \<Rightarrow> word32 list" where
  "initial_state key counter nonce =
     [0x61707865, 0x3320646e, 0x79622d32, 0x6b206574] @
     map (\<lambda>i. getUint32 key (4 * i)) [0..<8] @
     [word_of_int counter] @ map (\<lambda>i. getUint32 nonce (4 * i)) [0..<3]"

definition chacha20Block :: "octet list \<Rightarrow> int \<Rightarrow> octet list \<Rightarrow> octet list option" where
  "chacha20Block key counter nonce =
     (if length key < 32 \<or> length nonce < 12 then None
      else let ini = initial_state key counter nonce; s = (double_round ^^ 10) ini
           in Some (concat (map (\<lambda>i. setUint32 (s ! i + ini ! i)) [0..<16])))"

text \<open>The loop over blocks; the result is the part of the output from \<open>blockIdx\<close> on.\<close>

function chacha20_from ::
  "octet list \<Rightarrow> octet list \<Rightarrow> int \<Rightarrow> octet list \<Rightarrow> nat \<Rightarrow> octet list option" where
  "chacha20_from key nonce counter plain blockIdx =
     (if blockIdx * 64 < length plain
      then case chacha20Block key (counter + int blockIdx) nonce of
             None \<Rightarrow> None
           | Some block \<Rightarrow>
               let base = blockIdx * 64; len = min 64 (length plain - base) in
               map_option (\<lambda>rest. map (\<lambda>i. plain ! (base + i) XOR block ! i) [0..<len] @ rest)
                 (chacha20_from key nonce counter plain (blockIdx + 1))
      else Some [])"
  by pat_completeness auto
termination
  by (relation "measure (\<lambda>(key, nonce, counter, plain, blockIdx). length plain - blockIdx * 64)") auto

declare chacha20_from.simps [simp del]

definition chacha20 :: "octet list \<Rightarrow> octet list \<Rightarrow> int \<Rightarrow> octet list \<Rightarrow> octet list option" where
  "chacha20 key nonce counter plain = chacha20_from key nonce counter plain 0"

section \<open>The authenticator\<close>

definition P1305 :: int where "P1305 = push_bit 130 1 - 5"

definition clamp :: "octet list \<Rightarrow> octet list" where
  "clamp bs =
     (let m = (\<lambda>i v. (\<lambda>b. b[i := b ! i AND v])) in
      (m 12 0xfc \<circ> m 8 0xfc \<circ> m 4 0xfc \<circ> m 15 0x0f \<circ> m 11 0x0f \<circ> m 7 0x0f \<circ> m 3 0x0f) bs)"

text \<open>\<^verbatim>\<open>n |= BigInt(b[j]) << BigInt(j * 8)\<close> over a range of octets.\<close>

definition or_octets :: "octet list \<Rightarrow> int" where
  "or_octets bs = fold (\<lambda>j n. n OR push_bit (8 * j) (uint (bs ! j))) [0..<length bs] 0"

function poly_loop :: "int \<Rightarrow> octet list \<Rightarrow> nat \<Rightarrow> int \<Rightarrow> int" where
  "poly_loop r msg i a =
     (if i < length msg
      then let chunk = take 16 (drop i msg);
               n = or_octets chunk OR push_bit (8 * length chunk) 1
           in poly_loop r msg (i + 16) (((a + n) * r) mod P1305)
      else a)"
  by pat_completeness auto
termination
  by (relation "measure (\<lambda>(r, msg, i, a). length msg - i)") auto

declare poly_loop.simps [simp del]

primrec tag_loop :: "nat \<Rightarrow> int \<Rightarrow> octet list" where
  "tag_loop 0 a = []"
| "tag_loop (Suc n) a = word_of_int (a AND 0xff) # tag_loop n (drop_bit 8 a)"

definition poly1305 :: "octet list \<Rightarrow> octet list \<Rightarrow> octet list" where
  "poly1305 key msg =
     (let r = or_octets (clamp (take 16 key)); s = or_octets (take 16 (drop 16 key));
          a = poly_loop r msg 0 0
      in tag_loop 16 ((a + s) AND 0xFFFFFFFFFFFFFFFFFFFFFFFFFFFFFFFF))"

definition timingSafeEqual :: "octet list \<Rightarrow> octet list \<Rightarrow> bool" where
  "timingSafeEqual a b =
     (if length a \<noteq> length b then False
      else fold (\<lambda>i diff. diff OR (a ! i XOR b ! i)) [0..<length a] 0 = 0)"

section \<open>The AEAD\<close>

definition pad16 :: "nat \<Rightarrow> nat" where
  "pad16 n = (16 - n mod 16) mod 16"

definition setBigUint64 :: "nat \<Rightarrow> octet list" where
  "setBigUint64 n = map (\<lambda>i. word_of_nat (n div 256 ^ i)) [0..<8]"

definition buildMacInput :: "octet list \<Rightarrow> octet list \<Rightarrow> octet list" where
  "buildMacInput aad ciphertext =
     aad @ replicate (pad16 (length aad)) 0 @ ciphertext @ replicate (pad16 (length ciphertext)) 0 @
     setBigUint64 (length aad) @ setBigUint64 (length ciphertext)"

definition chacha20poly1305Encrypt ::
  "octet list \<Rightarrow> octet list \<Rightarrow> octet list \<Rightarrow> octet list \<Rightarrow> (octet list \<times> octet list) option" where
  "chacha20poly1305Encrypt key nonce plaintext aad =
     (case chacha20Block key 0 nonce of
        None \<Rightarrow> None
      | Some block \<Rightarrow>
          (case chacha20 key nonce 1 plaintext of
             None \<Rightarrow> None
           | Some ciphertext \<Rightarrow> Some (ciphertext, poly1305 (take 32 block) (buildMacInput aad ciphertext))))"

datatype aead_error = CipherRangeError | AuthenticationFailed

definition chacha20poly1305Decrypt ::
  "octet list \<Rightarrow> octet list \<Rightarrow> octet list \<Rightarrow> octet list \<Rightarrow> octet list \<Rightarrow> aead_error + octet list" where
  "chacha20poly1305Decrypt key nonce ciphertext tag aad =
     (case chacha20Block key 0 nonce of
        None \<Rightarrow> Inl CipherRangeError
      | Some block \<Rightarrow>
          if \<not> timingSafeEqual tag (poly1305 (take 32 block) (buildMacInput aad ciphertext)) then Inl AuthenticationFailed
          else case chacha20 key nonce 1 ciphertext of None \<Rightarrow> Inl CipherRangeError | Some p \<Rightarrow> Inr p)"

section \<open>Lengths and the key stream\<close>

lemma length_quarterRound [simp]: "length (quarterRound a b c d s) = length s"
  by (simp add: quarterRound_def Let_def)

lemma length_double_round [simp]: "length (double_round s) = length s"
  by (simp add: double_round_def)

lemma length_rounds [simp]: "length ((double_round ^^ n) s) = length s"
  by (induction n) simp_all

lemma length_concat_const: "(\<And>x. x \<in> set xs \<Longrightarrow> length (f x) = k) \<Longrightarrow> length (concat (map f xs)) = k * length xs"
  by (induction xs) simp_all

lemma chacha20Block_iff: "(\<exists>b. chacha20Block key ctr nonce = Some b) \<longleftrightarrow> 32 \<le> length key \<and> 12 \<le> length nonce"
  by (auto simp: chacha20Block_def Let_def)

lemma length_chacha20Block: "chacha20Block key ctr nonce = Some b \<Longrightarrow> length b = 64"
  by (auto simp: chacha20Block_def Let_def setUint32_def length_concat_const split: if_splits)

definition block_at :: "octet list \<Rightarrow> octet list \<Rightarrow> int \<Rightarrow> nat \<Rightarrow> octet list" where
  "block_at key nonce counter i = the (chacha20Block key (counter + int i) nonce)"

text \<open>The reference: the key stream is the blocks one after the other, and the cipher is
  the octet-wise exclusive or of message and key stream.\<close>

definition keystream :: "octet list \<Rightarrow> octet list \<Rightarrow> int \<Rightarrow> nat \<Rightarrow> octet list" where
  "keystream key nonce counter n = map (\<lambda>i. block_at key nonce counter (i div 64) ! (i mod 64)) [0..<n]"

lemma chacha20_from_spec:
  assumes "32 \<le> length key" "12 \<le> length nonce"
  shows "chacha20_from key nonce counter plain idx =
     Some (map (\<lambda>i. plain ! i XOR block_at key nonce counter (i div 64) ! (i mod 64)) [idx * 64..<length plain])"
  using assms
proof (induction key nonce counter plain idx rule: chacha20_from.induct)
  case (1 key nonce counter plain idx)
  show ?case
  proof (cases "idx * 64 < length plain")
    case False
    then show ?thesis by (subst chacha20_from.simps) simp
  next
    case True
    obtain b where b: "chacha20Block key (counter + int idx) nonce = Some b" using 1(2,3) chacha20Block_iff by blast
    let ?len = "min 64 (length plain - idx * 64)"
    let ?f = "\<lambda>i. plain ! i XOR block_at key nonce counter (i div 64) ! (i mod 64)"
    have e: "map (\<lambda>i. plain ! (idx * 64 + i) XOR b ! i) [0..<?len] = map ?f [idx * 64..<idx * 64 + ?len]"
    proof (rule nth_equalityI)
      fix i
      assume i: "i < length (map (\<lambda>i. plain ! (idx * 64 + i) XOR b ! i) [0..<?len])"
      then have "(idx * 64 + i) div 64 = idx" "(idx * 64 + i) mod 64 = i" by simp_all
      then show "map (\<lambda>i. plain ! (idx * 64 + i) XOR b ! i) [0..<?len] ! i = map ?f [idx * 64..<idx * 64 + ?len] ! i"
        using i b by (simp add: block_at_def)
    qed simp
    have split: "[idx * 64..<idx * 64 + ?len] @ [(idx + 1) * 64..<length plain] = [idx * 64..<length plain]"
    proof (cases "(idx + 1) * 64 \<le> length plain")
      case True
      then have "idx * 64 + ?len = (idx + 1) * 64" by simp
      then show ?thesis using True upt_add_eq_append[of "idx * 64" "(idx + 1) * 64" "length plain - (idx + 1) * 64"]
        by (simp add: add.commute)
    next
      case False
      then have "idx * 64 + ?len = length plain" using \<open>idx * 64 < length plain\<close> by simp
      then show ?thesis using False by simp
    qed
    have "chacha20_from key nonce counter plain idx = Some (map ?f [idx * 64..<idx * 64 + ?len] @ map ?f [(idx + 1) * 64..<length plain])"
      using True b e 1(1)[OF True b refl refl 1(2,3)] by (subst chacha20_from.simps) (simp add: Let_def)
    then show ?thesis by (simp only: map_append[symmetric] split)
  qed
qed

lemma chacha20_spec:
  assumes "32 \<le> length key" "12 \<le> length nonce"
  shows "chacha20 key nonce counter plain = Some (map2 (XOR) plain (keystream key nonce counter (length plain)))"
  by (auto simp: chacha20_def chacha20_from_spec[OF assms] keystream_def intro: nth_equalityI)

section \<open>Numbers as octets\<close>

fun le_val :: "octet list \<Rightarrow> int" where
  "le_val [] = 0"
| "le_val (b # bs) = uint b + 256 * le_val bs"

lemma le_val_append: "le_val (as @ bs) = le_val as + 256 ^ length as * le_val bs"
  by (induction as) (simp_all add: algebra_simps)

lemma uint_octet: "0 \<le> uint (b :: octet)" "uint (b :: octet) \<le> 255"
  using uint_bounded[of b] by simp_all

lemma le_val_bounds: "0 \<le> le_val bs \<and> le_val bs < 256 ^ length bs"
proof (induction bs)
  case (Cons b bs)
  then show ?case using uint_octet[of b] by simp
qed simp

lemma or_disjoint:
  fixes n m :: int
  assumes "0 \<le> n" "n < 2 ^ k"
  shows "n OR push_bit k m = n + push_bit k m"
proof -
  have "take_bit k n = n" using assms by (simp add: take_bit_int_eq_self)
  then have "\<not> bit n i" if "k \<le> i" for i using that by (metis bit_take_bit_iff linorder_not_less)
  then have "\<not> bit n i \<or> \<not> bit (push_bit k m) i" for i by (auto simp: bit_push_bit_iff)
  then show ?thesis by (rule disjunctive_add[symmetric])
qed

lemma or_octets_eq: "or_octets bs = le_val bs"
proof -
  have "fold (\<lambda>j n. n OR push_bit (8 * j) (uint (bs ! j))) [0..<k] 0 = le_val (take k bs)" if "k \<le> length bs" for k
    using that
  proof (induction k)
    case (Suc k)
    have pw: "(2 :: int) ^ (8 * k) = 256 ^ k" by (simp add: power_mult)
    have "le_val (take k bs) < 2 ^ (8 * k)" "0 \<le> le_val (take k bs)"
      using le_val_bounds[of "take k bs"] Suc.prems by (simp_all add: power_mult min_def)
    then have "le_val (take k bs) OR push_bit (8 * k) (uint (bs ! k)) = le_val (take k bs) + push_bit (8 * k) (uint (bs ! k))"
      by (intro or_disjoint)
    moreover have "push_bit (8 * k) (uint (bs ! k)) = 256 ^ k * uint (bs ! k)"
      using pw by (simp add: push_bit_eq_mult)
    ultimately show ?case using Suc by (simp add: take_Suc_conv_app_nth le_val_append min_def)
  qed simp
  then show ?thesis by (simp add: or_octets_def)
qed

lemma length_tag_loop [simp]: "length (tag_loop n a) = n"
  by (induction n arbitrary: a) simp_all

lemma and_low: "(a :: int) AND 0xff = a mod 256" "a AND 0xFFFFFFFFFFFFFFFFFFFFFFFFFFFFFFFF = a mod 2 ^ 128"
proof -
  have "(0xff :: int) = mask 8" "(0xFFFFFFFFFFFFFFFFFFFFFFFFFFFFFFFF :: int) = mask 128" by (simp_all add: mask_eq_exp_minus_1)
  then show "a AND 0xff = a mod 256" "a AND 0xFFFFFFFFFFFFFFFFFFFFFFFFFFFFFFFF = a mod 2 ^ 128"
    by (simp_all only: take_bit_eq_mask[symmetric] take_bit_eq_mod) simp_all
qed

lemma le_val_tag_loop: "le_val (tag_loop n a) = a mod 256 ^ n"
proof (induction n arbitrary: a)
  case (Suc n)
  have "uint (word_of_int (a AND 0xff) :: octet) = a mod 256" by (simp add: and_low uint_word_of_int)
  moreover have "drop_bit 8 a = a div 256" by (simp add: drop_bit_eq_div)
  moreover have "a mod (256 * 256 ^ n) = 256 * (a div 256 mod 256 ^ n) + a mod 256" by (rule zmod_zmult2_eq) simp
  ultimately show ?case using Suc[of "drop_bit 8 a"] by simp
qed simp

lemma le_val_inject: "length as = length bs \<Longrightarrow> le_val as = le_val bs \<Longrightarrow> as = bs"
proof (induction as bs rule: list_induct2)
  case (Cons a as b bs)
  have "(uint a + 256 * le_val as) mod 256 = uint a" "(uint b + 256 * le_val bs) mod 256 = uint b"
    using uint_octet[of a] uint_octet[of b] by simp_all
  then have "uint a = uint b" using Cons.prems by (metis le_val.simps(2))
  then show ?case using Cons by (simp add: word_uint_eq_iff)
qed simp

section \<open>What the authenticator computes\<close>

text \<open>The reference: the message is cut into chunks of 16 octets; each chunk is read as a
  little-endian number with a one bit above it, and the numbers are the coefficients of a
  polynomial evaluated at \<open>r\<close>.\<close>

fun chunks16 :: "octet list \<Rightarrow> octet list list" where
  "chunks16 [] = []"
| "chunks16 (b # bs) = take 16 (b # bs) # chunks16 (drop 16 (b # bs))"

definition coefficients :: "octet list \<Rightarrow> int list" where
  "coefficients msg = map (\<lambda>c. le_val c + 256 ^ length c) (chunks16 msg)"

fun poly_sum :: "int \<Rightarrow> int list \<Rightarrow> int" where
  "poly_sum r [] = 0"
| "poly_sum r (c # cs) = c * r ^ length (c # cs) + poly_sum r cs"

lemma horner: "fold (\<lambda>c a. ((a + c) * r) mod p) cs a mod p = (a * r ^ length cs + poly_sum r cs) mod p"
proof (induction cs arbitrary: a)
  case (Cons c cs)
  have "fold (\<lambda>c a. ((a + c) * r) mod p) (c # cs) a mod p = (((a + c) * r) mod p * r ^ length cs + poly_sum r cs) mod p"
    using Cons by simp
  also have "\<dots> = ((a + c) * r * r ^ length cs + poly_sum r cs) mod p" by (metis mod_add_left_eq mod_mult_left_eq)
  also have "(a + c) * r * r ^ length cs = a * r ^ length (c # cs) + c * r ^ length (c # cs)" by (simp add: algebra_simps)
  finally show ?case by (simp add: add.assoc)
qed simp

lemma chunk_number: "or_octets c OR push_bit (8 * length c) 1 = le_val c + 256 ^ length c"
proof -
  have pw: "(2 :: int) ^ (8 * length c) = 256 ^ length c" by (simp add: power_mult)
  show ?thesis using le_val_bounds[of c] or_disjoint[of "le_val c" "8 * length c" 1] pw
    by (simp add: or_octets_eq push_bit_eq_mult)
qed

lemma poly_loop_fold: "poly_loop r msg i a = fold (\<lambda>c a. ((a + c) * r) mod P1305) (coefficients (drop i msg)) a"
proof (induction r msg i a rule: poly_loop.induct)
  case (1 r msg i a)
  show ?case
  proof (cases "i < length msg")
    case True
    then obtain b bs where b: "drop i msg = b # bs" by (metis drop_eq_Nil linorder_not_less neq_Nil_conv)
    have "chunks16 (drop i msg) = take 16 (drop i msg) # chunks16 (drop 16 (drop i msg))" unfolding b by (rule chunks16.simps(2))
    then have "chunks16 (drop i msg) = take 16 (drop i msg) # chunks16 (drop (i + 16) msg)" by (simp add: add.commute)
    then show ?thesis using True 1[OF True refl refl] chunk_number[of "take 16 (drop i msg)"]
      by (subst poly_loop.simps) (simp add: Let_def coefficients_def)
  next
    case False
    then show ?thesis by (subst poly_loop.simps) (simp add: coefficients_def)
  qed
qed

lemma poly_loop_mod: "poly_loop r msg 0 0 = poly_sum r (coefficients msg) mod P1305"
proof -
  have "fold (\<lambda>c a. ((a + c) * r) mod p) cs 0 mod p = fold (\<lambda>c a. ((a + c) * r) mod p) cs 0" for p and cs :: "int list"
    by (cases cs rule: rev_cases) simp_all
  then show ?thesis using horner[of r P1305 "coefficients msg" 0] by (simp add: poly_loop_fold)
qed

section \<open>Properties\<close>

text \<open>The stream cipher is the exclusive or of the message with the key stream. For a key
  and a nonce of the required lengths the block-wise loop with its running counter produces,
  for every message length including partial last blocks, the octet-wise exclusive or of the
  message with the concatenated ChaCha20 blocks.\<close>

theorem chacha20_is_xor_of_keystream:
  assumes "32 \<le> length key" "12 \<le> length nonce"
  shows "chacha20 key nonce counter plain = Some (map2 (XOR) plain (keystream key nonce counter (length plain)))"
  by (rule chacha20_spec[OF assms])

theorem chacha20_is_xor_of_keystream_witness:
  "chacha20 (replicate 32 7) (replicate 12 9) 1 [1, 2, 3] =
     Some (map2 (XOR) [1, 2, 3] (keystream (replicate 32 7) (replicate 12 9) 1 (length [1, 2, 3 :: octet])))"
  by (rule chacha20_is_xor_of_keystream) simp_all

text \<open>Poly1305 computes the polynomial of RFC 8439. Read as a little-endian number, the tag
  is the polynomial whose coefficients are the message chunks with a one bit above them,
  evaluated at the clamped first half of the key modulo two to the power 130 minus five, plus
  the second half of the key, modulo two to the power 128.\<close>

theorem poly1305_polynomial:
  "le_val (poly1305 key msg) =
     (poly_sum (le_val (clamp (take 16 key))) (coefficients msg) mod (2 ^ 130 - 5) + le_val (take 16 (drop 16 key))) mod 2 ^ 128 \<and>
   length (poly1305 key msg) = 16"
proof -
  have "P1305 = 2 ^ 130 - 5" by (simp add: P1305_def)
  moreover have "(256 :: int) ^ 16 = 2 ^ 128" by simp
  ultimately show ?thesis
    by (simp add: poly1305_def Let_def le_val_tag_loop and_low or_octets_eq poly_loop_mod del: power_numeral)
qed

lemma fold_or_zero: "fold (\<lambda>i d. d OR f i) is (d :: octet) = 0 \<longleftrightarrow> d = 0 \<and> (\<forall>i \<in> set is. f i = 0)"
  by (induction "is" arbitrary: d) (auto simp: or_eq_0_iff)

lemma xor_zero_iff: "(a :: 'a::len word) XOR b = 0 \<longleftrightarrow> a = b"
  by (metis bit.xor_left_self bit.xor_self xor.right_neutral)

text \<open>The constant-time comparison is equality.\<close>

lemma timingSafeEqual_iff: "timingSafeEqual a b \<longleftrightarrow> a = b"
  by (auto simp: timingSafeEqual_def fold_or_zero xor_zero_iff intro: nth_equalityI)

lemma keystream_length [simp]: "length (keystream key nonce counter n) = n"
  by (simp add: keystream_def)

lemma xor_twice: "length xs = length ks \<Longrightarrow> map2 (XOR) (map2 (XOR) xs ks) ks = (xs :: octet list)"
  by (induction xs ks rule: list_induct2) (simp_all add: xor.assoc)

lemma encrypt_value:
  assumes "32 \<le> length key" "12 \<le> length nonce"
  shows "\<exists>block. chacha20Block key 0 nonce = Some block \<and>
    chacha20poly1305Encrypt key nonce plaintext aad =
      (let ct = map2 (XOR) plaintext (keystream key nonce 1 (length plaintext)) in
       Some (ct, poly1305 (take 32 block) (buildMacInput aad ct)))"
proof -
  obtain block where "chacha20Block key 0 nonce = Some block" using assms chacha20Block_iff[of key 0 nonce] by blast
  then show ?thesis by (simp add: chacha20poly1305Encrypt_def chacha20_spec[OF assms] Let_def)
qed

lemma aead_opens:
  assumes "32 \<le> length key" "12 \<le> length nonce"
  shows "\<exists>ct tag. chacha20poly1305Encrypt key nonce plaintext aad = Some (ct, tag) \<and> length ct = length plaintext \<and> length tag = 16 \<and>
     chacha20poly1305Decrypt key nonce ct tag aad = Inr plaintext"
proof -
  obtain block where b: "chacha20Block key 0 nonce = Some block" and
      e: "chacha20poly1305Encrypt key nonce plaintext aad =
        (let ct = map2 (XOR) plaintext (keystream key nonce 1 (length plaintext)) in Some (ct, poly1305 (take 32 block) (buildMacInput aad ct)))"
    using encrypt_value[OF assms] by blast
  show ?thesis using b
    by (simp add: e Let_def chacha20poly1305Decrypt_def timingSafeEqual_iff chacha20_spec[OF assms] xor_twice) (simp add: poly1305_def Let_def)
qed

text \<open>C36: Decryption inverts encryption. With a key of at least 32 and a nonce of at least 12
  octets, encryption returns a ciphertext of the message's length and a 16-octet tag, and
  decrypting them under the same key, nonce and associated data gives back the message.\<close>

theorem aead_round_trip:
  assumes "32 \<le> length key" "12 \<le> length nonce"
  shows "\<exists>ct tag. chacha20poly1305Encrypt key nonce plaintext aad = Some (ct, tag) \<and> length ct = length plaintext \<and> length tag = 16 \<and>
     chacha20poly1305Decrypt key nonce ct tag aad = Inr plaintext"
  using assms by (rule aead_opens)

theorem aead_round_trip_witness:
  "\<exists>ct tag. chacha20poly1305Encrypt (replicate 32 7) (replicate 12 9) [1, 2, 3] [4] = Some (ct, tag) \<and> length ct = 3 \<and>
     chacha20poly1305Decrypt (replicate 32 7) (replicate 12 9) ct tag [4] = Inr [1, 2, 3]"
  using aead_round_trip[of "replicate 32 7" "replicate 12 9" "[1, 2, 3]" "[4]"] by auto

text \<open>Only an authentic ciphertext decrypts. Decryption returns a plaintext exactly when the
  given tag is the Poly1305 tag, under the one-time key of block zero, of the associated data
  and the ciphertext; every other tag, whatever its length, is an authentication failure and
  nothing is decrypted.\<close>

theorem decrypt_authenticates:
  assumes "chacha20Block key 0 nonce = Some block"
  shows "chacha20poly1305Decrypt key nonce ct tag aad =
    (if tag = poly1305 (take 32 block) (buildMacInput aad ct)
     then Inr (map2 (XOR) ct (keystream key nonce 1 (length ct))) else Inl AuthenticationFailed)"
proof -
  have "32 \<le> length key" "12 \<le> length nonce" using assms chacha20Block_iff[of key 0 nonce] by auto
  then show ?thesis using assms by (simp add: chacha20poly1305Decrypt_def timingSafeEqual_iff chacha20_spec)
qed

theorem decrypt_authenticates_witness:
  "\<exists>block. chacha20Block (replicate 32 7) 0 (replicate 12 9) = Some block \<and>
     chacha20poly1305Decrypt (replicate 32 7) (replicate 12 9) [1, 2] [] [] = Inl AuthenticationFailed"
proof -
  obtain block where b: "chacha20Block (replicate 32 7) 0 (replicate 12 9) = Some block"
    using chacha20Block_iff[of "replicate 32 7" 0 "replicate 12 9"] by auto
  have "length (poly1305 (take 32 block) (buildMacInput [] [1, 2])) = 16" by (simp add: poly1305_def Let_def)
  then have "[] \<noteq> poly1305 (take 32 block) (buildMacInput [] [1, 2])" by auto
  then show ?thesis using b decrypt_authenticates[OF b, of "[1, 2]" "[]" "[]"] by auto
qed

lemma le_val_setBigUint64:
  assumes "n < 2 ^ 64"
  shows "le_val (setBigUint64 n) = int n"
proof -
  have u: "uint (word_of_nat k :: octet) = int (k mod 256)" for k
    using unat_of_nat[of k, where 'a = 8] by (simp add: uint_nat)
  have "le_val (map (\<lambda>i. word_of_nat (n div 256 ^ i)) [0..<k]) = int (n mod 256 ^ k)" for k
  proof (induction k)
    case (Suc k)
    have "n mod 256 ^ Suc k = 256 ^ k * (n div 256 ^ k mod 256) + n mod 256 ^ k"
      using mod_mult2_eq[of n "256 ^ k" 256] by (simp add: mult.commute)
    then show ?case using Suc by (simp add: le_val_append u del: power_Suc)
  qed simp
  then show ?thesis using assms by (simp add: setBigUint64_def)
qed

lemma setBigUint64_inject: "n < 2 ^ 64 \<Longrightarrow> m < 2 ^ 64 \<Longrightarrow> setBigUint64 n = setBigUint64 m \<Longrightarrow> n = m"
  by (metis le_val_setBigUint64 of_nat_eq_iff)

lemma length_setBigUint64 [simp]: "length (setBigUint64 n) = 8"
  by (simp add: setBigUint64_def)

text \<open>The MAC input determines what is authenticated. Two pairs of associated data and
  ciphertext with the same MAC input are the same pair (both shorter than two to the power 64
  octets), so moving octets between the two or extending one with padding changes the input.\<close>

theorem mac_input_injective:
  assumes "length a < 2 ^ 64" "length c < 2 ^ 64" "length a' < 2 ^ 64" "length c' < 2 ^ 64"
  shows "buildMacInput a c = buildMacInput a' c' \<longleftrightarrow> a = a' \<and> c = c'"
proof
  assume same: "buildMacInput a c = buildMacInput a' c'"
  let ?pre = "\<lambda>a c. a @ replicate (pad16 (length a)) 0 @ c @ replicate (pad16 (length c)) (0 :: octet)"
  let ?len = "\<lambda>a c :: octet list. setBigUint64 (length a) @ setBigUint64 (length c)"
  have "?pre a c @ ?len a c = ?pre a' c' @ ?len a' c'" using same by (simp add: buildMacInput_def)
  then have e: "?pre a c = ?pre a' c'" "?len a c = ?len a' c'" by (simp_all add: append_eq_append_conv del: append_assoc)
  then have "length a = length a'" "length c = length c'"
    using assms setBigUint64_inject[of "length a" "length a'"] setBigUint64_inject[of "length c" "length c'"] by auto
  then show "a = a' \<and> c = c'" using e(1) by simp
qed simp

theorem mac_input_injective_witness:
  "buildMacInput [1] [2] \<noteq> buildMacInput [1, 2] ([] :: octet list)"
  using mac_input_injective[of "[1]" "[2]" "[1, 2]" "[]"] by auto


text \<open>The quarter round reproduces the test vector of RFC 8439, section 2.1.1.\<close>

lemma quarterRound_vector:
  "quarterRound 0 1 2 3 [0x11111111, 0x01020304, 0x9b8d6f43, 0x01234567] = [0xea2a92f4, 0xcb1cf8ce, 0x4581472e, 0x5881c4bb]"
  by (simp add: quarterRound_def rotl32_def Let_def)

end
