(* ===== verification/Startup.thy ===== *)
theory Startup
  imports Json Complex_Main "HOL-Library.Sublist"
begin

text \<open>
  Starting one NATS account (\<^verbatim>\<open>src/packages/plugin/src/nats-account-coordinator.ts\<close>, up to the
  coordinator class): the classification of startup failures, the jittered backoff, the
  owner-local retry loop, the publication fence with its rollback, the transport listeners
  and the diagnostics that report a permanent failure, a quarantine or a change in how many
  accounts serve.

  An awaited promise is an argument: the answer the environment gives.  A loop that awaits
  takes the list of answers of its rounds and stops at \<open>Pending\<close> when they run out.  What
  the code tells its callers on the way (attempts, observers, log sinks) is a trace.
  Error objects are the constructors of \<open>cause\<close>, with the fields the code reads.
\<close>

section \<open>Failures\<close>

datatype failure_kind = Transient | Permanent | Aborted | UnknownKind

datatype startup_phase = Preflight | Dns | Websocket | Tls | NatsAuth | NatsProtocol | Wiring

text \<open>A transport close report; the probe closure of its handle is known by a number.\<close>

record close_report =
  reconnectSuppressed :: bool
  socketClosed :: bool
  forcedTerminationAttempted :: bool
  gracefulTimedOut :: bool
  closeHandle :: "nat option"

text \<open>\<^verbatim>\<open>report.reconnectSuppressed && report.socketClosed\<close>: the only evidence that a socket is gone.\<close>

definition confirmed :: "close_report \<Rightarrow> bool" where
  "confirmed r \<longleftrightarrow> reconnectSuppressed r \<and> socketClosed r"

datatype failure = Failure (f_kind: failure_kind) (f_code: string) (f_phase: startup_phase)
    (f_cause: cause) (f_operatorMessage: string)
and cause =
    AccountStartupError failure
  | RemovedAudienceConfigError string
  | NatsLifecycleAbortError
  | JwksLifecycleAbortError
  | DOMException string string
  | NatsHandshakeTimeoutError string
  | NatsUnexpectedResponseError int
  | NatsConnectionClosedError int bool
  | NatsServerError string
  | AccountRunFailure string close_report "cause option"
  | CodedError string
  | OtherError string

text \<open>
  A \<^verbatim>\<open>DOMException\<close> carries its name and its legacy numeric code, rendered.  \<open>CodedError\<close> is
  any other object with a \<^verbatim>\<open>code\<close> property, rendered; \<open>OtherError\<close> a value without one.
\<close>

definition TRANSIENT_CODES :: "string list" where
  "TRANSIENT_CODES =
     [''EAI_AGAIN'', ''ENOTFOUND'', ''ECONNREFUSED'', ''ECONNRESET'', ''EHOSTUNREACH'',
      ''ENETUNREACH'', ''ENETDOWN'', ''EHOSTDOWN'', ''ECONNABORTED'', ''ETIMEDOUT'',
      ''ESOCKETTIMEDOUT'', ''EPIPE'', ''UND_ERR_CONNECT_TIMEOUT'']"

definition TLS_PERMANENT_CODES :: "string list" where
  "TLS_PERMANENT_CODES =
     [''CERT_HAS_EXPIRED'', ''CERT_NOT_YET_VALID'', ''DEPTH_ZERO_SELF_SIGNED_CERT'',
      ''ERR_TLS_CERT_ALTNAME_INVALID'', ''ERR_TLS_CERT_SIGNATURE_ALGORITHM_UNSUPPORTED'',
      ''SELF_SIGNED_CERT_IN_CHAIN'', ''UNABLE_TO_GET_ISSUER_CERT'', ''UNABLE_TO_GET_ISSUER_CERT_LOCALLY'',
      ''UNABLE_TO_VERIFY_LEAF_SIGNATURE'', ''CERT_SIGNATURE_FAILURE'', ''ERR_TLS_INVALID_PROTOCOL_VERSION'']"

definition TRANSIENT_CLOSE_CODES :: "int list" where
  "TRANSIENT_CLOSE_CODES = [0, 1000, 1001, 1005, 1006, 1011, 1012, 1013, 1014]"

definition PERMANENT_CLOSE_CODES :: "int list" where
  "PERMANENT_CLOSE_CODES = [1002, 1003, 1007, 1009, 1010]"

definition startupCloseLabel :: "int \<Rightarrow> string" where
  "startupCloseLabel code =
     (if code = 0 \<or> code = 1005 then ''no-status''
      else if code = 1000 then ''normal-closure''
      else if code = 1001 then ''going-away''
      else if code = 1002 then ''protocol-error''
      else if code = 1003 then ''unsupported-data''
      else if code = 1006 then ''abnormal-closure''
      else if code = 1007 then ''invalid-payload''
      else if code = 1008 then ''policy-violation''
      else if code = 1009 then ''message-too-big''
      else if code = 1010 then ''missing-extension''
      else if code = 1011 then ''server-error''
      else if code = 1012 then ''service-restart''
      else if code = 1013 then ''try-again-later''
      else if code = 1014 then ''bad-gateway''
      else ''unmapped'')"

text \<open>\<^verbatim>\<open>toLowerCase\<close> on the code units below 256, and \<^verbatim>\<open>/pat/.test\<close> for a literal pattern.\<close>

definition lower_char :: "char \<Rightarrow> char" where
  "lower_char c =
     (let n = of_char c :: nat in
      if 65 \<le> n \<and> n \<le> 90 \<or> 192 \<le> n \<and> n \<le> 222 \<and> n \<noteq> 215 then char_of (n + 32) else c)"

definition toLowerCase :: "string \<Rightarrow> string" where
  "toLowerCase = map lower_char"

definition contains_str :: "string \<Rightarrow> string \<Rightarrow> bool" where
  "contains_str pat s = list_ex (prefix pat) (suffixes s)"

definition show_bool :: "bool \<Rightarrow> string" where
  "show_bool b = (if b then ''true'' else ''false'')"

text \<open>The code that the last part of the classification reads off an arbitrary cause.\<close>

fun code_property :: "cause \<Rightarrow> string" where
  "code_property (DOMException _ code) = code"
| "code_property (CodedError code) = code"
| "code_property _ = ''''"

definition classify_code :: "cause \<Rightarrow> startup_phase \<Rightarrow> string \<Rightarrow> failure" where
  "classify_code cause phase code =
     (if code = ''ERR_INVALID_URL'' then Failure Permanent ''invalid-relay-url'' Preflight cause ''relay WebSocket URL is invalid''
      else if code = ''NATS_CREDENTIAL_INVALID'' then
        Failure Permanent ''nats-credential-invalid'' Preflight cause ''NATS credential material is invalid; re-enroll the account''
      else if code \<in> set TRANSIENT_CODES then
        Failure Transient (toLowerCase code) (if take 3 code = ''EAI'' \<or> code = ''ENOTFOUND'' then Dns else Websocket) cause
          (''relay connection unavailable ('' @ code @ '')'')
      else if code \<in> set TLS_PERMANENT_CODES then
        Failure Permanent (toLowerCase code) Tls cause (''relay TLS validation failed ('' @ code @ '')'')
      else if (contains_str ''TLS'' code \<or> contains_str ''SSL'' code) \<and>
              (contains_str ''TIMEOUT'' code \<or> contains_str ''RESET'' code \<or> contains_str ''EOF'' code) then
        Failure Transient (toLowerCase code) Tls cause (''relay TLS connection was interrupted ('' @ code @ '')'')
      else Failure UnknownKind ''unknown-startup-failure'' phase cause ''account startup failed for an unclassified reason'')"

definition aborted_failure :: "cause \<Rightarrow> startup_phase \<Rightarrow> failure" where
  "aborted_failure cause phase = Failure Aborted ''lifecycle-aborted'' phase cause ''account startup aborted''"

fun classifyAccountStartupFailure :: "cause \<Rightarrow> startup_phase \<Rightarrow> failure" where
  "classifyAccountStartupFailure (AccountStartupError failure) phase = failure"
| "classifyAccountStartupFailure (RemovedAudienceConfigError msg) phase =
     Failure Permanent ''audience-override-removed'' Preflight (RemovedAudienceConfigError msg) msg"
| "classifyAccountStartupFailure NatsLifecycleAbortError phase = aborted_failure NatsLifecycleAbortError phase"
| "classifyAccountStartupFailure JwksLifecycleAbortError phase = aborted_failure JwksLifecycleAbortError phase"
| "classifyAccountStartupFailure (DOMException nm code) phase =
     (if nm = ''AbortError'' then aborted_failure (DOMException nm code) phase
      else classify_code (DOMException nm code) phase code)"
| "classifyAccountStartupFailure (NatsHandshakeTimeoutError p) phase =
     Failure Transient ''handshake-timeout'' Websocket (NatsHandshakeTimeoutError p) ''NATS handshake timed out''"
| "classifyAccountStartupFailure (NatsUnexpectedResponseError status) phase =
     Failure (if status = 408 \<or> status = 425 \<or> status = 429 \<or> 500 \<le> status then Transient else Permanent)
       (''http-upgrade-'' @ show_int status) Websocket (NatsUnexpectedResponseError status)
       (''relay WebSocket upgrade failed (HTTP '' @ show_int status @ '')'')"
| "classifyAccountStartupFailure (NatsConnectionClosedError code reasonPresent) phase =
     (let closeCode = if code = 0 then 1005 else code in
      Failure (if code \<in> set TRANSIENT_CLOSE_CODES then Transient else if code \<in> set PERMANENT_CLOSE_CODES then Permanent else UnknownKind)
        (''websocket-close-'' @ show_int closeCode) Websocket (NatsConnectionClosedError code reasonPresent)
        (''relay WebSocket closed during startup (code='' @ show_int closeCode @ '', label='' @ startupCloseLabel closeCode @
         '', reasonPresent='' @ show_bool reasonPresent @ '')''))"
| "classifyAccountStartupFailure (NatsServerError code) phase =
     (if code = ''authentication-timeout'' then
        Failure Transient code NatsAuth (NatsServerError code) ''NATS authentication timed out''
      else if code = ''authorization-violation'' \<or> code = ''credentials-expired'' then
        Failure Permanent code NatsAuth (NatsServerError code) (''NATS rejected account credentials ('' @ code @ '')'')
      else Failure (if code = ''protocol-error'' then Permanent else UnknownKind) code NatsProtocol (NatsServerError code)
        ''NATS server rejected the startup protocol'')"
| "classifyAccountStartupFailure cause phase = classify_code cause phase (code_property cause)"

section \<open>Backoff\<close>

definition retryCeilingMs :: "int \<Rightarrow> int" where
  "retryCeilingMs failedAttempts =
     (if failedAttempts \<le> 1 then 1000 else min 60000 (1000 * 2 ^ nat (min 30 (failedAttempts - 1))))"

text \<open>The random draw is an exact rational; the product of the clamped draw with a ceiling of
  at most 60000 is far from the next integer, so rounding cannot change the floor's bound.\<close>

definition fullJitterDelayMs :: "int \<Rightarrow> rat \<Rightarrow> int" where
  "fullJitterDelayMs failedAttempts random =
     \<lfloor>max 0 (min (999999999999 / 1000000000000) random) * of_int (retryCeilingMs failedAttempts)\<rfloor>"

definition shouldLogRetryAttempt :: "int \<Rightarrow> bool" where
  "shouldLogRetryAttempt failedAttempts \<longleftrightarrow> failedAttempts = 1 \<or> 0 < failedAttempts \<and> failedAttempts mod 10 = 0"

section \<open>The retry loop\<close>

datatype attempt_outcome = Completed "close_report option" | Failed cause "close_report option"

datatype attempt_result = AttemptReturned attempt_outcome | AttemptThrew cause | AttemptUnsettled

datatype settlement = Resolved | Rejected cause | Unsettled

text \<open>
  What one round of the loop is told: whether the host had aborted at its head, the clock at
  each \<^verbatim>\<open>markCommitted\<close> call, how the attempt settled, whether the host had aborted by then,
  the random draw, and how the backoff delay and the wait for the abort settled.
\<close>

record round =
  rd_aborted :: bool
  rd_commits :: "int list"
  rd_result :: attempt_result
  rd_aborted_after :: bool
  rd_random :: rat
  rd_delay :: settlement
  rd_wait :: settlement

datatype loop_event =
    EvAttempt int int
  | EvRecovered int int int
  | EvTerminal failure int bool
  | EvRetry failure int int

datatype loop_result = Returned "close_report option" | Threw cause | Pending

text \<open>Only the first \<^verbatim>\<open>markCommitted\<close> of an attempt counts, and only after a failure.\<close>

fun markCommitted :: "int \<Rightarrow> int \<Rightarrow> int list \<Rightarrow> loop_event list" where
  "markCommitted outageStartedAt failedAttempts [] = []"
| "markCommitted outageStartedAt failedAttempts (now # later) =
     (if 0 < failedAttempts
      then [EvRecovered (failedAttempts + 1) failedAttempts (max 0 (now - outageStartedAt))] else [])"

text \<open>An unconfirmed close; a missing report counts as confirmed.\<close>

fun closeConfirmed :: "close_report option \<Rightarrow> bool" where
  "closeConfirmed None = True"
| "closeConfirmed (Some r) = confirmed r"

text \<open>The part of a round after a failed attempt; \<open>None\<close> for the next round.\<close>

definition after_failure :: "int \<Rightarrow> round \<Rightarrow> cause \<Rightarrow> close_report option \<Rightarrow> loop_event list \<times> loop_result option" where
  "after_failure failedAttempts rd cause closeReport =
     (let failure = classifyAccountStartupFailure cause Websocket in
      if f_kind failure = Aborted \<or> rd_aborted_after rd then ([], Some (Returned closeReport))
      else let n = failedAttempts + 1 in
      if \<not> closeConfirmed closeReport then ([EvTerminal failure n True], Some (Returned closeReport))
      else if f_kind failure \<noteq> Transient then
        ([EvTerminal failure n False],
         Some (case rd_wait rd of Resolved \<Rightarrow> Returned closeReport | Rejected c \<Rightarrow> Threw c | Unsettled \<Rightarrow> Pending))
      else
        ([EvRetry failure n (fullJitterDelayMs n (rd_random rd))],
         (case rd_delay rd of
            Resolved \<Rightarrow> None
          | Rejected c \<Rightarrow> Some (if f_kind (classifyAccountStartupFailure c Websocket) \<noteq> Aborted then Threw c else Returned closeReport)
          | Unsettled \<Rightarrow> Some Pending)))"

definition attempt_round :: "int \<Rightarrow> int \<Rightarrow> round \<Rightarrow> loop_event list \<times> loop_result option" where
  "attempt_round outageStartedAt failedAttempts rd =
     (let evs = EvAttempt (failedAttempts + 1) failedAttempts # markCommitted outageStartedAt failedAttempts (rd_commits rd);
          failed = (\<lambda>cause report. case after_failure failedAttempts rd cause report of (rest, next) \<Rightarrow> (evs @ rest, next)) in
      case rd_result rd of
        AttemptUnsettled \<Rightarrow> (evs, Some Pending)
      | AttemptThrew cause \<Rightarrow>
          (case cause of AccountRunFailure _ _ _ \<Rightarrow> (evs, Some (Threw cause)) | _ \<Rightarrow> failed cause None)
      | AttemptReturned (Completed report) \<Rightarrow> (evs, Some (Returned report))
      | AttemptReturned (Failed cause report) \<Rightarrow> failed cause report)"

fun runAccountStartupLoop :: "int \<Rightarrow> int \<Rightarrow> round list \<Rightarrow> loop_event list \<times> loop_result" where
  "runAccountStartupLoop outageStartedAt failedAttempts [] = ([], Pending)"
| "runAccountStartupLoop outageStartedAt failedAttempts (rd # rds) =
     (if rd_aborted rd then ([], Returned None)
      else case attempt_round outageStartedAt failedAttempts rd of
        (evs, Some r) \<Rightarrow> (evs, r)
      | (evs, None) \<Rightarrow>
          (case runAccountStartupLoop outageStartedAt (failedAttempts + 1) rds of (rest, r) \<Rightarrow> (evs @ rest, r)))"

section \<open>Readiness, publication and listeners\<close>

datatype 'v readiness = Ready 'v | ReadinessAborted close_report

text \<open>
  \<open>abortedBefore\<close> is the signal at the call, \<open>race\<close> how the race between the readiness work
  and the abort settled, \<open>abortedAfter\<close> the signal then (an abort is never undone), \<open>d1\<close> and
  \<open>d2\<close> the answers of a first and a second call of the disposer.  The number counts the calls.
\<close>

definition resolvePrivateReadiness ::
    "bool \<Rightarrow> cause + 'v \<Rightarrow> bool \<Rightarrow> cause + close_report \<Rightarrow> cause + close_report \<Rightarrow> (cause + 'v readiness) \<times> nat" where
  "resolvePrivateReadiness abortedBefore race abortedAfter d1 d2 =
     (let disposed = (\<lambda>d. map_sum id ReadinessAborted d) in
      if abortedBefore then (disposed d1, 1)
      else case race of
        Inr value \<Rightarrow>
          if abortedAfter then (case d1 of Inr r \<Rightarrow> (disposed d1, 1) | Inl c \<Rightarrow> (disposed d2, 2))
          else (Inr (Ready value), 0)
      | Inl c \<Rightarrow>
          if abortedAfter \<or> f_kind (classifyAccountStartupFailure c Wiring) = Aborted then (disposed d1, 1)
          else (Inl c, 0))"

datatype publish_step = StepPublish | StepStatus | StepCapture cause | StepRollback | StepDispose

datatype 'p publication = Published 'p | PublicationRejected cause | PublicationPending

text \<open>
  \<open>publish\<close> and \<open>status\<close> are the results of the two synchronous writes; what the capture and the
  rollback throw is swallowed, so only that they are called matters.
\<close>

definition commitAccountPublication ::
    "cause + 'p \<Rightarrow> cause option \<Rightarrow> bool \<Rightarrow> settlement \<Rightarrow> publish_step list \<times> 'p publication" where
  "commitAccountPublication publish status captures dispose =
     (let fails = (\<lambda>steps cause.
          (steps @ (if captures then [StepCapture cause] else []) @ [StepRollback, StepDispose],
           (case dispose of Resolved \<Rightarrow> PublicationRejected cause
            | Rejected disposeCause \<Rightarrow> PublicationRejected disposeCause | Unsettled \<Rightarrow> PublicationPending))) in
      case publish of
        Inl cause \<Rightarrow> fails [StepPublish] cause
      | Inr p \<Rightarrow> (case status of None \<Rightarrow> ([StepPublish, StepStatus], Published p)
                 | Some cause \<Rightarrow> fails [StepPublish, StepStatus] cause))"

record publication_state =
  poisoned :: bool
  privateFailure :: "cause option"
  connected :: bool

definition resolveAccountPublicationFailure ::
    "publication_state \<Rightarrow> cause \<Rightarrow> close_report \<Rightarrow> cause + attempt_outcome" where
  "resolveAccountPublicationFailure st cause closeReport =
     (if poisoned st \<or> privateFailure st \<noteq> None \<or> \<not> connected st then
        Inr (Failed (case privateFailure st of Some c \<Rightarrow> c | None \<Rightarrow> NatsConnectionClosedError 1006 False) (Some closeReport))
      else Inl (AccountRunFailure ''account publication invariant failed'' closeReport (Some cause)))"

datatype listener_call = On string | Off string

definition listener_events :: "string list" where
  "listener_events = [''connect'', ''disconnect'', ''reconnect'', ''error'']"

text \<open>The attach loop: \<open>done\<close> holds the attached events, newest first; \<open>on\<close> says what a call throws.\<close>

fun attach_from :: "(string \<Rightarrow> cause option) \<Rightarrow> string list \<Rightarrow> string list \<Rightarrow> listener_call list \<times> (cause + unit)" where
  "attach_from on attached [] = ([], Inr ())"
| "attach_from on attached (e # es) =
     (case on e of
        Some cause \<Rightarrow> (On e # map Off attached, Inl cause)
      | None \<Rightarrow> (case attach_from on (e # attached) es of (calls, r) \<Rightarrow> (On e # calls, r)))"

definition attachAccountTransportListeners :: "(string \<Rightarrow> cause option) \<Rightarrow> listener_call list \<times> (cause + unit)" where
  "attachAccountTransportListeners on = attach_from on [] listener_events"

text \<open>The cleanup closure: its \<^verbatim>\<open>detached\<close> flag, the calls it makes, and the causes of the aggregate
  error it throws (none when the list is empty).\<close>

definition detachListeners :: "(string \<Rightarrow> cause option) \<Rightarrow> bool \<Rightarrow> listener_call list \<times> cause list \<times> bool" where
  "detachListeners off detached =
     (if detached then ([], [], True)
      else (map Off listener_events, concat (map (\<lambda>e. case off e of Some c \<Rightarrow> [c] | None \<Rightarrow> []) listener_events), True))"

section \<open>Status and diagnostics\<close>

datatype transport_event = Disconnect | Reconnect | TransportError

fun accountTransportStatusPatch :: "transport_event \<Rightarrow> int \<Rightarrow> (string \<times> json) list" where
  "accountTransportStatusPatch Disconnect now =
     [(''connected'', JBool False), (''restartPending'', JBool True),
      (''lastDisconnect'', JObj [(''at'', JNum now), (''error'', JStr ''relay disconnected'')]),
      (''lastError'', JStr ''relay disconnected; reconnect pending'')]"
| "accountTransportStatusPatch Reconnect now =
     [(''connected'', JBool True), (''restartPending'', JBool False), (''reconnectAttempts'', JNum 0),
      (''lastConnectedAt'', JNum now), (''lastError'', JNull)]"
| "accountTransportStatusPatch TransportError now = [(''lastError'', JStr ''NATS transport error observed'')]"

text \<open>
  A diagnostic line goes to the supplied logger method, or to the console when there is none;
  when that sink throws, the console gets it (again), and a second throw is swallowed.
\<close>

datatype sink_call = ToLogger string | ToConsole string

definition emit :: "bool \<Rightarrow> bool \<Rightarrow> string \<Rightarrow> sink_call list" where
  "emit hasLogger throws message =
     (if hasLogger then ToLogger message else ToConsole message) # (if throws then [ToConsole message] else [])"

definition quarantine_error :: string where
  "quarantine_error = ''transport closure could not be confirmed; account quarantined; restart the gateway after confirming the relay socket is closed''"

definition notifyAccountQuarantine :: "string \<Rightarrow> int \<Rightarrow> bool \<Rightarrow> bool \<Rightarrow> (string \<times> json) list \<times> sink_call list" where
  "notifyAccountQuarantine accountId generation hasLogger throws =
     ([(''connected'', JBool False), (''restartPending'', JBool False), (''lastError'', JStr quarantine_error)],
      emit hasLogger throws
        (''event=webchannel.account_quarantine accountId='' @ quote accountId @ '' generation='' @ show_int generation @
         '' state=quarantined code=transport-close-unconfirmed detail='' @ quote quarantine_error))"

definition safe_code_char :: "char \<Rightarrow> bool" where
  "safe_code_char c \<longleftrightarrow>
     (let n = of_char c :: nat in 65 \<le> n \<and> n \<le> 90 \<or> 97 \<le> n \<and> n \<le> 122 \<or> 48 \<le> n \<and> n \<le> 57 \<or> c \<in> {CHR ''.'', CHR ''_'', CHR ''-''})"

definition report_code :: "string \<Rightarrow> string" where
  "report_code code =
     (let c = take 128 (map (\<lambda>c. if safe_code_char c then c else CHR ''_'') code) in if c = [] then ''unknown'' else c)"

definition report_key :: "int \<Rightarrow> string \<Rightarrow> string" where
  "report_key generation accountId = stringify (JArr [JNum generation, JStr accountId])"

text \<open>\<^verbatim>\<open>AccountPermanentFailureReporter.report\<close> on the set of keys it has reported.\<close>

definition reporter_report ::
    "int \<Rightarrow> string \<Rightarrow> string \<Rightarrow> string \<Rightarrow> int option \<Rightarrow> bool \<Rightarrow> bool \<Rightarrow> string list \<Rightarrow> bool \<times> sink_call list \<times> string list" where
  "reporter_report generation accountId code operatorMessage attempt hasLogger throws reported =
     (let key = report_key generation accountId in
      if key \<in> set reported then (False, [], reported)
      else (True,
        emit hasLogger throws
          (''event=webchannel.account_startup accountId='' @ quote accountId @ '' state=permanent_skip attempt='' @
           show_int (case attempt of Some a \<Rightarrow> a | None \<Rightarrow> 0) @ '' code='' @ report_code code @ '' detail='' @ quote operatorMessage),
        key # reported))"

datatype aggregate_category = ZeroServing | PartialServing | CompleteServing

record aggregate =
  ag_generation :: int
  ag_expected :: "string list"
  ag_lastCategory :: "aggregate_category option"
  ag_logger :: "nat option"

record aggregate_transition =
  at_generation :: int
  at_category :: aggregate_category
  at_servingCount :: nat
  at_totalCount :: nat

definition new_aggregate :: aggregate where
  "new_aggregate = \<lparr>ag_generation = 0, ag_expected = [], ag_lastCategory = None, ag_logger = None\<rparr>"

fun category_name :: "aggregate_category \<Rightarrow> string" where
  "category_name ZeroServing = ''zero''"
| "category_name PartialServing = ''partial''"
| "category_name CompleteServing = ''complete''"

definition aggregate_line :: "aggregate_transition \<Rightarrow> string" where
  "aggregate_line t = ''event=webchannel.account_aggregate generation='' @ show_int (at_generation t) @ '' state='' @
     category_name (at_category t) @ '' servingCount='' @ show_nat (at_servingCount t) @ '' totalCount='' @ show_nat (at_totalCount t)"

text \<open>The first part of \<^verbatim>\<open>update\<close>: the newest generation owns the expected set; \<open>None\<close> is the early return.\<close>

definition aggregate_generation :: "int \<Rightarrow> string list \<Rightarrow> nat option \<Rightarrow> aggregate \<Rightarrow> aggregate option" where
  "aggregate_generation generation expected logger ag =
     (if ag_generation ag < generation then
        Some (ag\<lparr>ag_generation := generation, ag_expected := remdups expected, ag_logger := logger, ag_lastCategory := None\<rparr>)
      else if generation = ag_generation ag then
        Some (ag\<lparr>ag_expected := remdups expected, ag_logger := (case logger of None \<Rightarrow> ag_logger ag | Some l \<Rightarrow> Some l)\<rparr>)
      else if ag_generation ag = 0 then None
      else Some ag)"

definition category_of :: "nat \<Rightarrow> nat \<Rightarrow> aggregate_category" where
  "category_of servingCount totalCount =
     (if servingCount = 0 then ZeroServing else if totalCount \<le> servingCount then CompleteServing else PartialServing)"

definition aggregate_update ::
    "int \<Rightarrow> string list \<Rightarrow> string list \<Rightarrow> nat option \<Rightarrow> aggregate \<Rightarrow> aggregate_transition option \<times> aggregate" where
  "aggregate_update generation expected serving logger ag =
     (case aggregate_generation generation expected logger ag of
        None \<Rightarrow> (None, ag)
      | Some ag1 \<Rightarrow>
          let servingCount = length (filter (\<lambda>a. a \<in> set serving) (ag_expected ag1));
              totalCount = length (ag_expected ag1);
              category = category_of servingCount totalCount in
          if ag_lastCategory ag1 = Some category then (None, ag1)
          else (Some \<lparr>at_generation = ag_generation ag1, at_category = category,
                      at_servingCount = servingCount, at_totalCount = totalCount\<rparr>,
                ag1\<lparr>ag_lastCategory := Some category\<rparr>))"

section \<open>Lemmas\<close>

lemma retryCeilingMs_bounds: "1000 \<le> retryCeilingMs n \<and> retryCeilingMs n \<le> 60000"
proof -
  have "(1 :: int) \<le> 2 ^ nat (min 30 (n - 1))" by simp
  then show ?thesis by (auto simp: retryCeilingMs_def)
qed

lemma retryCeilingMs_mono: "m \<le> n \<Longrightarrow> retryCeilingMs m \<le> retryCeilingMs n"
proof -
  assume "m \<le> n"
  then have "(2 :: int) ^ nat (min 30 (m - 1)) \<le> 2 ^ nat (min 30 (n - 1))" by (intro power_increasing) auto
  then have "min 60000 (1000 * (2 :: int) ^ nat (min 30 (m - 1))) \<le> min 60000 (1000 * 2 ^ nat (min 30 (n - 1)))"
    by (intro min.mono) auto
  then show ?thesis using \<open>m \<le> n\<close> retryCeilingMs_bounds[of n] by (auto simp: retryCeilingMs_def)
qed

lemma fullJitterDelayMs_bounds: "0 \<le> fullJitterDelayMs n r \<and> fullJitterDelayMs n r < retryCeilingMs n"
proof -
  let ?u = "max 0 (min (999999999999 / 1000000000000) r)" and ?c = "of_int (retryCeilingMs n) :: rat"
  have c: "0 < ?c" using retryCeilingMs_bounds[of n] by simp
  have u: "0 \<le> ?u" "?u < 1" by simp_all
  have "0 \<le> ?u * ?c" "?u * ?c < ?c" using c u mult_strict_right_mono[OF u(2) c] by simp_all
  then show ?thesis by (simp add: fullJitterDelayMs_def floor_less_iff)
qed

fun is_recovered :: "loop_event \<Rightarrow> bool" where
  "is_recovered (EvRecovered _ _ _) = True"
| "is_recovered _ = False"

abbreviation lifecycle_events :: "loop_event list \<Rightarrow> loop_event list" where
  "lifecycle_events \<equiv> filter (\<lambda>e. \<not> is_recovered e)"

lemma lifecycle_markCommitted [simp]: "lifecycle_events (markCommitted t n cs) = []"
  by (cases cs) auto

text \<open>The three ways a round goes on.\<close>

datatype round_shape = RStop | RTerminal failure bool | RRetry failure int

fun shape_events :: "int \<Rightarrow> round_shape \<Rightarrow> loop_event list" where
  "shape_events n RStop = [EvAttempt (n + 1) n]"
| "shape_events n (RTerminal f q) = [EvAttempt (n + 1) n, EvTerminal f (n + 1) q]"
| "shape_events n (RRetry f d) = [EvAttempt (n + 1) n, EvRetry f (n + 1) d]"

fun shape_ok :: "int \<Rightarrow> round_shape \<Rightarrow> loop_result option \<Rightarrow> bool" where
  "shape_ok n RStop next \<longleftrightarrow> next \<noteq> None"
| "shape_ok n (RTerminal f q) next \<longleftrightarrow>
     (if q then \<exists>rep. next = Some (Returned (Some rep)) \<and> \<not> confirmed rep else f_kind f \<noteq> Transient \<and> next \<noteq> None)"
| "shape_ok n (RRetry f d) next \<longleftrightarrow> f_kind f = Transient \<and> 0 \<le> d \<and> d < retryCeilingMs (n + 1)"

lemma after_failure_shape:
  assumes "after_failure n rd c rep = (evs, next)"
  shows "\<exists>sh. EvAttempt (n + 1) n # evs = shape_events n sh \<and> shape_ok n sh next"
proof -
  let ?f = "classifyAccountStartupFailure c Websocket"
  consider "f_kind ?f = Aborted \<or> rd_aborted_after rd"
    | (unconfirmed) r where "\<not> (f_kind ?f = Aborted \<or> rd_aborted_after rd)" "rep = Some r" "\<not> confirmed r"
    | (terminal) "\<not> (f_kind ?f = Aborted \<or> rd_aborted_after rd)" "closeConfirmed rep" "f_kind ?f \<noteq> Transient"
    | (retry) "\<not> (f_kind ?f = Aborted \<or> rd_aborted_after rd)" "closeConfirmed rep" "f_kind ?f = Transient"
    by (cases rep) auto
  then show ?thesis
  proof cases
    case 1
    then show ?thesis using assms by (intro exI[of _ RStop]) (auto simp: after_failure_def Let_def)
  next
    case unconfirmed
    then show ?thesis using assms by (intro exI[of _ "RTerminal ?f True"]) (auto simp: after_failure_def Let_def)
  next
    case terminal
    then show ?thesis using assms by (intro exI[of _ "RTerminal ?f False"]) (auto simp: after_failure_def Let_def)
  next
    case retry
    then show ?thesis using assms fullJitterDelayMs_bounds[of "n + 1" "rd_random rd"]
      by (intro exI[of _ "RRetry ?f (fullJitterDelayMs (n + 1) (rd_random rd))"]) (auto simp: after_failure_def Let_def)
  qed
qed

lemma lifecycle_after_failure: "after_failure n rd c rep = (evs, next) \<Longrightarrow> lifecycle_events evs = evs"
  by (auto simp: after_failure_def Let_def split: if_splits settlement.splits)

lemma attempt_round_shape:
  assumes "attempt_round t n rd = (evs, next)"
  shows "\<exists>sh. lifecycle_events evs = shape_events n sh \<and> shape_ok n sh next"
proof -
  have stop: ?thesis if "lifecycle_events evs = [EvAttempt (n + 1) n]" "next \<noteq> None"
    using that by (intro exI[of _ RStop]) simp
  have failed: ?thesis if "(case after_failure n rd c rep of (rest, next) \<Rightarrow>
      (EvAttempt (n + 1) n # markCommitted t n (rd_commits rd) @ rest, next)) = (evs, next)" for c rep
  proof -
    obtain rest nx where a: "after_failure n rd c rep = (rest, nx)" by force
    then have "lifecycle_events evs = EvAttempt (n + 1) n # rest" "next = nx"
      using that lifecycle_after_failure[OF a] by auto
    then show ?thesis using after_failure_shape[OF a] by simp
  qed
  show ?thesis
  proof (cases "rd_result rd")
    case (AttemptReturned x1)
    then show ?thesis using assms failed stop by (cases x1) (auto simp: attempt_round_def Let_def simp del: not_None_eq)
  next
    case (AttemptThrew c)
    then show ?thesis using assms failed[of c None] stop by (cases c) (auto simp: attempt_round_def Let_def)
  next
    case AttemptUnsettled
    then show ?thesis using assms stop by (auto simp: attempt_round_def Let_def)
  qed
qed

definition retries_from :: "nat \<Rightarrow> (failure \<times> int) list \<Rightarrow> loop_event list" where
  "retries_from n rs = concat (map (\<lambda>(k, f, d). [EvAttempt (int k + 1) (int k), EvRetry f (int k + 1) d]) (enumerate n rs))"

lemma retries_from_simps [simp]:
  "retries_from n [] = []"
  "retries_from n ((f, d) # rs) = EvAttempt (int n + 1) (int n) # EvRetry f (int n + 1) d # retries_from (Suc n) rs"
  by (simp_all add: retries_from_def)

lemma startup_loop_shape:
  assumes "runAccountStartupLoop t (int n) rds = (tr, r)"
  shows "\<exists>rs tail. lifecycle_events tr = retries_from n rs @ tail \<and>
    (\<forall>k < length rs. f_kind (fst (rs ! k)) = Transient \<and> 0 \<le> snd (rs ! k) \<and> snd (rs ! k) < retryCeilingMs (int (n + k) + 1)) \<and>
    (tail = [] \<or> (\<exists>sh. tail = shape_events (int (n + length rs)) sh \<and> shape_ok (int (n + length rs)) sh (Some r)))"
  using assms
proof (induction rds arbitrary: n tr)
  case Nil
  then show ?case by (intro exI[of _ "[]"]) simp
next
  case (Cons rd rds)
  show ?case
  proof (cases "rd_aborted rd")
    case True
    then show ?thesis using Cons.prems by (intro exI[of _ "[]"]) simp
  next
    case False
    obtain evs nx where a: "attempt_round t (int n) rd = (evs, nx)" by force
    obtain sh where sh: "lifecycle_events evs = shape_events (int n) sh" "shape_ok (int n) sh nx"
      using attempt_round_shape[OF a] by blast
    show ?thesis
    proof (cases nx)
      case (Some res)
      then have "tr = evs" "r = res" using Cons.prems False a by simp_all
      then show ?thesis using sh Some by (intro exI[of _ "[]"] exI[of _ "lifecycle_events evs"]) auto
    next
      case None
      then obtain f d where rt: "sh = RRetry f d" using sh(2) by (cases sh) (auto split: if_splits)
      obtain rest where run: "runAccountStartupLoop t (int (Suc n)) rds = (rest, r)" and tr: "tr = evs @ rest"
        using Cons.prems False a None by (auto simp: add.commute split: prod.splits)
      obtain rs tail where ih: "lifecycle_events rest = retries_from (Suc n) rs @ tail"
        "\<forall>k < length rs. f_kind (fst (rs ! k)) = Transient \<and> 0 \<le> snd (rs ! k) \<and> snd (rs ! k) < retryCeilingMs (int (Suc n + k) + 1)"
        "tail = [] \<or> (\<exists>sh. tail = shape_events (int (Suc n + length rs)) sh \<and> shape_ok (int (Suc n + length rs)) sh (Some r))"
        using Cons.IH[OF run] by blast
      show ?thesis using ih sh rt tr
        by (intro exI[of _ "(f, d) # rs"] exI[of _ tail]) (auto simp: nth_Cons add.commute split: nat.splits)
    qed
  qed
qed


fun is_attempt :: "loop_event \<Rightarrow> bool" where
  "is_attempt (EvAttempt _ _) = True"
| "is_attempt _ = False"

lemma is_attempt_lifecycle: "filter is_attempt (lifecycle_events tr) = filter is_attempt tr"
proof -
  have "(\<lambda>e. is_attempt e \<and> \<not> is_recovered e) = is_attempt"
  proof
    show "(is_attempt e \<and> \<not> is_recovered e) = is_attempt e" for e by (cases e) auto
  qed
  then show ?thesis by (simp add: conj_commute)
qed

lemma one_attempt_per_round:
  assumes "attempt_round t n rd = (evs, nx)"
  shows "length (filter is_attempt evs) = 1"
proof -
  obtain sh where "lifecycle_events evs = shape_events n sh" using attempt_round_shape[OF assms] by blast
  then show ?thesis using is_attempt_lifecycle[of evs] by (cases sh) (metis filter.simps is_attempt.simps length_Cons list.size(3) One_nat_def shape_events.simps)+
qed

lemma unconfirmed_stops:
  assumes "rd_result rd = AttemptReturned (Failed c (Some rep))" "\<not> confirmed rep"
  shows "\<exists>evs. attempt_round t n rd = (evs, Some (Returned (Some rep)))"
  using assms by (auto simp: attempt_round_def after_failure_def Let_def)

lemma attempts_until_unconfirmed:
  assumes "k < length rds" "rd_result (rds ! k) = AttemptReturned (Failed c (Some rep))" "\<not> confirmed rep"
  shows "length (filter is_attempt (fst (runAccountStartupLoop t n rds))) \<le> Suc k"
  using assms(1,2)
proof (induction rds arbitrary: k n)
  case (Cons rd rds)
  obtain evs nx where a: "attempt_round t n rd = (evs, nx)" by force
  note one = one_attempt_per_round[OF a]
  show ?case
  proof (cases "rd_aborted rd \<or> nx \<noteq> None")
    case True
    then show ?thesis using a one by auto
  next
    case False
    then obtain k' where k: "k = Suc k'" using Cons.prems unconfirmed_stops[OF _ assms(3), of rd c t n] a by (cases k) auto
    have "length (filter is_attempt (fst (runAccountStartupLoop t (n + 1) rds))) \<le> Suc k'"
      using Cons.prems k by (intro Cons.IH) auto
    then show ?thesis using a one False k by (auto split: prod.splits)
  qed
qed simp

text \<open>A round whose attempt fails for a transient reason with its socket gone, and whose delay runs out.\<close>

definition transient_round :: "round \<Rightarrow> bool" where
  "transient_round rd \<longleftrightarrow> \<not> rd_aborted rd \<and> \<not> rd_aborted_after rd \<and> rd_commits rd = [] \<and> rd_delay rd = Resolved \<and>
     (case rd_result rd of
        AttemptReturned (Failed c rep) \<Rightarrow> closeConfirmed rep \<and> f_kind (classifyAccountStartupFailure c Websocket) = Transient
      | _ \<Rightarrow> False)"

lemma transient_round_step:
  assumes "transient_round rd"
  shows "\<exists>f d. attempt_round t n rd = ([EvAttempt (n + 1) n, EvRetry f (n + 1) d], None) \<and>
    f_kind f = Transient \<and> 0 \<le> d \<and> d < retryCeilingMs (n + 1)"
  using assms fullJitterDelayMs_bounds[of "n + 1" "rd_random rd"]
  by (auto simp: transient_round_def attempt_round_def after_failure_def Let_def
      split: attempt_result.splits attempt_outcome.splits)

lemma startup_loop_after_transients:
  assumes "\<forall>rd \<in> set fails. transient_round rd"
  shows "\<exists>rs. length rs = length fails \<and>
    (\<forall>k < length rs. f_kind (fst (rs ! k)) = Transient \<and> 0 \<le> snd (rs ! k) \<and> snd (rs ! k) < retryCeilingMs (int (n + k) + 1)) \<and>
    runAccountStartupLoop t (int n) (fails @ rds) =
      (case runAccountStartupLoop t (int (n + length fails)) rds of (tr, r) \<Rightarrow> (retries_from n rs @ tr, r))"
  using assms
proof (induction fails arbitrary: n)
  case Nil
  then show ?case by (intro exI[of _ "[]"]) (simp split: prod.split)
next
  case (Cons rd fails)
  then have na: "\<not> rd_aborted rd" by (simp add: transient_round_def)
  obtain f d where a: "attempt_round t (int n) rd = ([EvAttempt (int n + 1) (int n), EvRetry f (int n + 1) d], None)"
    and fd: "f_kind f = Transient" "0 \<le> d" "d < retryCeilingMs (int n + 1)"
    using Cons.prems transient_round_step by fastforce
  obtain rs where rs: "length rs = length fails"
      "\<forall>k < length rs. f_kind (fst (rs ! k)) = Transient \<and> 0 \<le> snd (rs ! k) \<and> snd (rs ! k) < retryCeilingMs (int (Suc n + k) + 1)"
      "runAccountStartupLoop t (int (Suc n)) (fails @ rds) =
      (case runAccountStartupLoop t (int (Suc n + length fails)) rds of (tr, r) \<Rightarrow> (retries_from (Suc n) rs @ tr, r))"
    using Cons.IH[of "Suc n"] Cons.prems by auto
  have "\<forall>k < length ((f, d) # rs). f_kind (fst (((f, d) # rs) ! k)) = Transient \<and> 0 \<le> snd (((f, d) # rs) ! k) \<and>
      snd (((f, d) # rs) ! k) < retryCeilingMs (int (n + k) + 1)"
    using rs(2) fd by (auto simp: nth_Cons split: nat.splits)
  then show ?case using rs(1,3) a na
    by (intro exI[of _ "(f, d) # rs"]) (auto simp: add.commute add.left_commute split: prod.splits)
qed

section \<open>Properties\<close>

text \<open>Rounds for the witnesses: a refused connection, a socket whose close is not confirmed, a success.\<close>

definition refused_round :: round where
  "refused_round = \<lparr>rd_aborted = False, rd_commits = [], rd_result = AttemptReturned (Failed (CodedError ''ECONNREFUSED'') None),
     rd_aborted_after = False, rd_random = 1 / 2, rd_delay = Resolved, rd_wait = Unsettled\<rparr>"

definition unconfirmed_report :: close_report where
  "unconfirmed_report = \<lparr>reconnectSuppressed = True, socketClosed = False, forcedTerminationAttempted = True,
     gracefulTimedOut = True, closeHandle = Some 0\<rparr>"

definition unconfirmed_round :: round where
  "unconfirmed_round = refused_round\<lparr>rd_result := AttemptReturned (Failed (NatsConnectionClosedError 1006 False) (Some unconfirmed_report))\<rparr>"

definition serving_round :: round where
  "serving_round = refused_round\<lparr>rd_commits := [700], rd_result := AttemptReturned (Completed None)\<rparr>"

lemma refused_round_transient: "transient_round refused_round" by code_simp

text \<open>The startup loop is disciplined. Whatever the environment answers, apart from recovery
  notices the loop does this and nothing else: numbered attempts, each but the last followed by
  one scheduled retry of a transient failure with the attempt's number and a delay below that
  attempt's ceiling; then it stops, or makes one last attempt followed by nothing, by a last
  scheduled retry whose delay does not run out, or by one terminal report. A terminal report is either for a failure that is not
  transient, or a quarantine, which returns the unconfirmed close report to the coordinator.\<close>

theorem startup_loop_trace:
  "case runAccountStartupLoop t 0 rds of (tr, r) \<Rightarrow>
     \<exists>rs tail. lifecycle_events tr = retries_from 0 rs @ tail \<and>
       (\<forall>k < length rs. f_kind (fst (rs ! k)) = Transient \<and> 0 \<le> snd (rs ! k) \<and> snd (rs ! k) < retryCeilingMs (int k + 1)) \<and>
       (tail = [] \<or> (\<exists>sh. tail = shape_events (int (length rs)) sh \<and> shape_ok (int (length rs)) sh (Some r)))"
  using startup_loop_shape[of t 0 rds] by (auto split: prod.split)

theorem startup_loop_trace_witness:
  "\<exists>rs tail. lifecycle_events (fst (runAccountStartupLoop 0 0 [refused_round, serving_round])) = retries_from 0 rs @ tail \<and>
     (\<forall>k < length rs. f_kind (fst (rs ! k)) = Transient \<and> snd (rs ! k) < retryCeilingMs (int k + 1)) \<and>
     length (filter is_attempt (fst (runAccountStartupLoop 0 0 [refused_round, serving_round]))) = 2"
proof -
  have "length (filter is_attempt (fst (runAccountStartupLoop 0 0 [refused_round, serving_round]))) = 2" by code_simp
  then show ?thesis using startup_loop_trace[of 0 "[refused_round, serving_round]"]
    by (simp split: prod.splits del: runAccountStartupLoop.simps) blast
qed

text \<open>An unconfirmed socket is never redialled. When an attempt fails and the close of its
  socket is not confirmed, that attempt is the last one the loop makes.\<close>

theorem unconfirmed_never_redialled:
  assumes "k < length rds" "rd_result (rds ! k) = AttemptReturned (Failed c (Some rep))" "\<not> confirmed rep"
  shows "length (filter is_attempt (fst (runAccountStartupLoop t n rds))) \<le> Suc k"
  by (rule attempts_until_unconfirmed[OF assms])

theorem unconfirmed_never_redialled_witness:
  "length (filter is_attempt (fst (runAccountStartupLoop 0 0 [refused_round, unconfirmed_round, serving_round]))) \<le> Suc 1 \<and>
   length (filter is_attempt (fst (runAccountStartupLoop 0 0 [refused_round, unconfirmed_round, serving_round]))) = 2"
proof
  show "length (filter is_attempt (fst (runAccountStartupLoop 0 0 [refused_round, unconfirmed_round, serving_round]))) \<le> Suc 1"
    by (rule unconfirmed_never_redialled[of 1 _ "NatsConnectionClosedError 1006 False" unconfirmed_report])
      (simp_all add: unconfirmed_round_def unconfirmed_report_def confirmed_def)
  show "length (filter is_attempt (fst (runAccountStartupLoop 0 0 [refused_round, unconfirmed_round, serving_round]))) = 2"
    by code_simp
qed

text \<open>C39: The loop recovers.  After any number of transient failures whose sockets are gone, the
  first attempt that commits and completes ends the loop with its close report.  The loop has done
  exactly this: for every failure a numbered attempt and one retry, after a delay below the ceiling
  of that attempt, then the attempt that succeeds, and one report of the recovery with the number of failures before it
  and the length of the outage.\<close>

theorem startup_loop_recovers:
  assumes "\<forall>rd \<in> set fails. transient_round rd" "fails \<noteq> []"
    and "\<not> rd_aborted good" "rd_result good = AttemptReturned (Completed rep)" "rd_commits good = now # later"
  shows "\<exists>rs. length rs = length fails \<and>
    (\<forall>k < length rs. f_kind (fst (rs ! k)) = Transient \<and> 0 \<le> snd (rs ! k) \<and> snd (rs ! k) < retryCeilingMs (int k + 1)) \<and>
    runAccountStartupLoop t 0 (fails @ good # rest) =
    (retries_from 0 rs @
       [EvAttempt (int (length fails) + 1) (int (length fails)),
        EvRecovered (int (length fails) + 1) (int (length fails)) (max 0 (now - t))], Returned rep)"
  using startup_loop_after_transients[OF assms(1), of 0 t "good # rest"] assms(2-)
  by (auto simp: attempt_round_def Let_def)

theorem startup_loop_recovers_witness:
  "\<exists>rs. length rs = 2 \<and> runAccountStartupLoop 100 0 [refused_round, refused_round, serving_round] =
     (retries_from 0 rs @ [EvAttempt 3 2, EvRecovered 3 2 600], Returned None)"
proof -
  have g: "\<not> rd_aborted serving_round" "rd_result serving_round = AttemptReturned (Completed None)" "rd_commits serving_round = [700]"
    by (simp_all add: serving_round_def refused_round_def)
  have "\<forall>rd \<in> set [refused_round, refused_round]. transient_round rd" by (simp add: refused_round_transient)
  then show ?thesis using startup_loop_recovers[OF _ _ g, of "[refused_round, refused_round]" 100 "[]"]
    by (simp del: runAccountStartupLoop.simps add: numeral_2_eq_2) blast
qed

end
