(* ===== verification/Lease_Coordinator.thy ===== *)
theory Lease_Coordinator
  imports Startup "HOL-Library.Product_Lexorder"
begin

text \<open>
  The per-account lease of \<^verbatim>\<open>NatsAccountRuntimeCoordinator\<close>
  (\<^verbatim>\<open>src/packages/plugin/src/nats-account-coordinator.ts\<close>, lines 566 to 826).

  Slots, owners, waiters and quarantines are objects compared by identity: a slot is an index
  into a store of slots (the \<^verbatim>\<open>slots\<close> map holds the index, and an invocation keeps the index it
  captured, even after the map forgot it), owners and quarantines carry a fresh number, and a
  waiter is known by the invocation of \<^verbatim>\<open>runAccount\<close> that created it, which has at most one at
  a time.  Abort signals are numbers; several invocations may share one.

  \<^verbatim>\<open>runAccount\<close> is cut at its awaits.  An invocation is awaiting its grant, has its grant but has
  not resumed (\<open>PhGranted\<close>), is inside \<^verbatim>\<open>run\<close>, or has finished.  Each operation below is one
  synchronous stretch: the call, the settlement of \<^verbatim>\<open>run\<close>, the resumption after a grant, the
  abort of a signal with the listeners it fires, and the settlement of a physical-close probe.
  Any sequence of them is an execution.  The diagnostic callback of a quarantine is an entry
  of a log; it does not call back.
\<close>

section \<open>State\<close>

record install =
  in_generation :: nat
  in_fingerprint :: string
  in_runtime :: nat
  in_logger :: nat

record lease_owner =
  lo_id :: nat
  lo_install :: install
  lo_arrival :: nat
  lo_signal :: nat

record waiter =
  wt_inv :: nat
  wt_install :: install
  wt_arrival :: nat
  wt_signal :: nat

text \<open>\<^verbatim>\<open>probePhysicalClose\<close>: the probe of a transport's close handle, or the closure that
  returns the retained unconfirmed report.\<close>

datatype probe_fn = ProbeHandle nat | ProbeConst close_report

record quarantine =
  qu_id :: nat
  probeCutoffArrival :: nat
  probing :: bool
  probePhysicalClose :: probe_fn

record slot =
  sl_owner :: "lease_owner option"
  sl_waiters :: "waiter list"
  highestGeneration :: nat
  nextArrival :: nat
  sl_quarantine :: "quarantine option"

datatype phase = PhAwaiting | PhGranted "lease_owner option" | PhRunning lease_owner | PhDone "cause option"

record invocation =
  iv_account :: string
  iv_slot :: nat
  iv_signal :: nat
  iv_phase :: phase

record pending_probe =
  pp_account :: string
  pp_slot :: nat
  pp_quarantine :: nat

record coordinator =
  co_install :: "install option"
  co_nextGeneration :: nat
  co_slots :: "(string, nat) js_map"
  co_store :: "slot list"
  co_invs :: "invocation list"
  co_aborted :: "nat list"
  co_probes :: "pending_probe list"
  co_released :: "nat list"
  co_fresh :: nat
  co_log :: "(string \<times> nat) list"

definition new_coordinator :: coordinator where
  "new_coordinator = \<lparr>co_install = None, co_nextGeneration = 0, co_slots = [], co_store = [], co_invs = [],
     co_aborted = [], co_probes = [], co_released = [], co_fresh = 0, co_log = []\<rparr>"

definition new_slot :: slot where
  "new_slot = \<lparr>sl_owner = None, sl_waiters = [], highestGeneration = 0, nextArrival = 0, sl_quarantine = None\<rparr>"

definition slot_at :: "coordinator \<Rightarrow> nat \<Rightarrow> slot" where
  "slot_at st sid = co_store st ! sid"

definition upd_slot :: "nat \<Rightarrow> (slot \<Rightarrow> slot) \<Rightarrow> coordinator \<Rightarrow> coordinator" where
  "upd_slot sid f st = st\<lparr>co_store := (co_store st)[sid := f (slot_at st sid)]\<rparr>"

definition phase_of :: "coordinator \<Rightarrow> nat \<Rightarrow> phase" where
  "phase_of st i = iv_phase (co_invs st ! i)"

definition set_phase :: "nat \<Rightarrow> phase \<Rightarrow> coordinator \<Rightarrow> coordinator" where
  "set_phase i ph st = st\<lparr>co_invs := (co_invs st)[i := (co_invs st ! i)\<lparr>iv_phase := ph\<rparr>]\<rparr>"

definition aborted :: "coordinator \<Rightarrow> nat \<Rightarrow> bool" where
  "aborted st sig \<longleftrightarrow> sig \<in> set (co_aborted st)"

section \<open>Operations\<close>

text \<open>The part of \<^verbatim>\<open>installFull\<close> after the fingerprint is known.\<close>

definition install_fingerprint :: "string \<Rightarrow> nat \<Rightarrow> nat \<Rightarrow> coordinator \<Rightarrow> coordinator" where
  "install_fingerprint fingerprint runtime logger st =
     (case co_install st of
        Some i \<Rightarrow>
          if in_fingerprint i = fingerprint then st\<lparr>co_install := Some (i\<lparr>in_runtime := runtime, in_logger := logger\<rparr>)\<rparr>
          else st\<lparr>co_nextGeneration := co_nextGeneration st + 1,
                  co_install := Some \<lparr>in_generation = co_nextGeneration st + 1, in_fingerprint = fingerprint,
                                      in_runtime = runtime, in_logger = logger\<rparr>\<rparr>
      | None \<Rightarrow>
          st\<lparr>co_nextGeneration := co_nextGeneration st + 1,
             co_install := Some \<lparr>in_generation = co_nextGeneration st + 1, in_fingerprint = fingerprint,
                                 in_runtime = runtime, in_logger = logger\<rparr>\<rparr>)"

record account_state =
  as_owner :: bool
  as_waiters :: nat
  as_quarantined :: bool
  as_probing :: bool

definition inspectAccountState :: "string \<Rightarrow> coordinator \<Rightarrow> account_state option" where
  "inspectAccountState accountId st =
     (case map_of (co_slots st) accountId of
        None \<Rightarrow> None
      | Some sid \<Rightarrow>
          let slot = slot_at st sid in
          Some \<lparr>as_owner = sl_owner slot \<noteq> None, as_waiters = length (sl_waiters slot),
                as_quarantined = sl_quarantine slot \<noteq> None,
                as_probing = (case sl_quarantine slot of Some q \<Rightarrow> probing q | None \<Rightarrow> False)\<rparr>)"

definition cleanupSlot :: "string \<Rightarrow> nat \<Rightarrow> coordinator \<Rightarrow> coordinator" where
  "cleanupSlot accountId sid st =
     (let slot = slot_at st sid in
      if sl_owner slot = None \<and> sl_quarantine slot = None \<and> sl_waiters slot = [] \<and> map_of (co_slots st) accountId = Some sid
      then st\<lparr>co_slots := AList.delete accountId (co_slots st)\<rparr> else st)"

text \<open>Resolving a grant: the first resolution wins.\<close>

definition resolve_grant :: "nat \<Rightarrow> lease_owner option \<Rightarrow> coordinator \<Rightarrow> coordinator" where
  "resolve_grant i owner st = (if phase_of st i = PhAwaiting then set_phase i (PhGranted owner) st else st)"

text \<open>The order of \<^verbatim>\<open>eligible.sort\<close>: newest generation first, then earliest arrival.\<close>

definition waiter_rank :: "waiter \<Rightarrow> int \<times> nat" where
  "waiter_rank w = (- int (in_generation (wt_install w)), wt_arrival w)"

definition promote :: "nat \<Rightarrow> coordinator \<Rightarrow> coordinator" where
  "promote sid st =
     (let slot = slot_at st sid;
          waiters = filter (\<lambda>w. \<not> aborted st (wt_signal w)) (sl_waiters slot);
          eligible = sort_key waiter_rank
            (filter (\<lambda>w. \<not> aborted st (wt_signal w) \<and> highestGeneration slot \<le> in_generation (wt_install w)) waiters) in
      case eligible of
        [] \<Rightarrow> upd_slot sid (\<lambda>s. s\<lparr>sl_waiters := waiters\<rparr>) st
      | selected # _ \<Rightarrow>
          let owner = \<lparr>lo_id = co_fresh st, lo_install = wt_install selected, lo_arrival = wt_arrival selected,
                       lo_signal = wt_signal selected\<rparr> in
          resolve_grant (wt_inv selected) (Some owner)
            (upd_slot sid (\<lambda>s. s\<lparr>sl_waiters := filter (\<lambda>w. wt_inv w \<noteq> wt_inv selected) waiters, sl_owner := Some owner\<rparr>)
               (st\<lparr>co_fresh := co_fresh st + 1\<rparr>)))"

definition owns :: "coordinator \<Rightarrow> nat \<Rightarrow> lease_owner \<Rightarrow> bool" where
  "owns st sid owner \<longleftrightarrow> (case sl_owner (slot_at st sid) of Some o' \<Rightarrow> lo_id o' = lo_id owner | None \<Rightarrow> False)"

text \<open>\<^verbatim>\<open>if (slot.owner === owner) slot.owner = undefined; owner.released.resolve()\<close>.\<close>

definition drop_owner :: "nat \<Rightarrow> lease_owner \<Rightarrow> coordinator \<Rightarrow> coordinator" where
  "drop_owner sid owner st =
     (let st1 = (if owns st sid owner then upd_slot sid (\<lambda>s. s\<lparr>sl_owner := None\<rparr>) st else st) in
      st1\<lparr>co_released := lo_id owner # co_released st1\<rparr>)"

definition releaseUnstartedOwner :: "string \<Rightarrow> nat \<Rightarrow> lease_owner \<Rightarrow> coordinator \<Rightarrow> coordinator" where
  "releaseUnstartedOwner accountId sid owner st = cleanupSlot accountId sid (promote sid (drop_owner sid owner st))"

definition removeWaiter :: "string \<Rightarrow> nat \<Rightarrow> nat \<Rightarrow> coordinator \<Rightarrow> coordinator" where
  "removeWaiter accountId sid i st =
     cleanupSlot accountId sid (upd_slot sid (\<lambda>s. s\<lparr>sl_waiters := filter (\<lambda>w. wt_inv w \<noteq> i) (sl_waiters s)\<rparr>) st)"

text \<open>The synchronous start of \<^verbatim>\<open>awaitGrant\<close>; without an abort the invocation stays awaiting.\<close>

definition awaitGrant :: "nat \<Rightarrow> coordinator \<Rightarrow> coordinator" where
  "awaitGrant i st =
     (let iv = co_invs st ! i in
      if aborted st (iv_signal iv) then set_phase i (PhGranted None) (removeWaiter (iv_account iv) (iv_slot iv) i st) else st)"

definition maybeProbe :: "string \<Rightarrow> nat \<Rightarrow> waiter \<Rightarrow> coordinator \<Rightarrow> coordinator" where
  "maybeProbe accountId sid w st =
     (case sl_quarantine (slot_at st sid) of
        None \<Rightarrow> st
      | Some q \<Rightarrow>
          if probing q \<or> aborted st (wt_signal w) \<or> wt_arrival w \<le> probeCutoffArrival q then st
          else (upd_slot sid (\<lambda>s. s\<lparr>sl_quarantine := Some (q\<lparr>probing := True\<rparr>)\<rparr>) st)
            \<lparr>co_probes := co_probes st @ [\<lparr>pp_account = accountId, pp_slot = sid, pp_quarantine = qu_id q\<rparr>]\<rparr>)"

text \<open>The settlement of a probe: a rejected probe and an unconfirmed report both move the cutoff.\<close>

definition probe_answer :: "probe_fn \<Rightarrow> cause + close_report \<Rightarrow> cause + close_report" where
  "probe_answer probe answer = (case probe of ProbeConst r \<Rightarrow> Inr r | ProbeHandle _ \<Rightarrow> answer)"

definition closes_socket :: "cause + close_report \<Rightarrow> bool" where
  "closes_socket answer = (case answer of Inr r \<Rightarrow> confirmed r | Inl _ \<Rightarrow> False)"

definition probe_settled :: "nat \<Rightarrow> cause + close_report \<Rightarrow> coordinator \<Rightarrow> coordinator" where
  "probe_settled k answer st =
     (if length (co_probes st) \<le> k then st
      else
        let p = co_probes st ! k; sid = pp_slot p;
            st1 = st\<lparr>co_probes := take k (co_probes st) @ drop (Suc k) (co_probes st)\<rparr> in
        case sl_quarantine (slot_at st1 sid) of
          None \<Rightarrow> st1
        | Some q \<Rightarrow>
            if qu_id q \<noteq> pp_quarantine p then st1
            else cleanupSlot (pp_account p) sid
              (if closes_socket (probe_answer (probePhysicalClose q) answer)
               then promote sid (upd_slot sid (\<lambda>s. s\<lparr>sl_quarantine := None\<rparr>) st1)
               else upd_slot sid (\<lambda>s. s\<lparr>sl_quarantine := Some (q\<lparr>probing := False, probeCutoffArrival := nextArrival s\<rparr>)\<rparr>) st1))"

text \<open>The call of \<^verbatim>\<open>runAccount\<close> up to its first await.\<close>

definition enter_slot :: "string \<Rightarrow> coordinator \<Rightarrow> nat \<times> coordinator" where
  "enter_slot accountId st =
     (case map_of (co_slots st) accountId of
        Some sid \<Rightarrow> (sid, st)
      | None \<Rightarrow> (length (co_store st),
          st\<lparr>co_store := co_store st @ [new_slot], co_slots := AList.update accountId (length (co_store st)) (co_slots st)\<rparr>))"

definition missing_install :: cause where
  "missing_install = AccountStartupError (Failure UnknownKind ''host-full-registration-missing'' Preflight (OtherError ''null'')
     ''full plugin registration has not completed'')"

definition add_invocation :: "string \<Rightarrow> nat \<Rightarrow> nat \<Rightarrow> phase \<Rightarrow> coordinator \<Rightarrow> coordinator" where
  "add_invocation accountId sid sig ph st =
     st\<lparr>co_invs := co_invs st @ [\<lparr>iv_account = accountId, iv_slot = sid, iv_signal = sig, iv_phase = ph\<rparr>]\<rparr>"

definition runAccount :: "string \<Rightarrow> nat \<Rightarrow> coordinator \<Rightarrow> cause + coordinator" where
  "runAccount accountId sig st =
     (case co_install st of
        None \<Rightarrow> Inl missing_install
      | Some install \<Rightarrow>
          case enter_slot accountId st of (sid, st1) \<Rightarrow>
            let arrival = nextArrival (slot_at st1 sid) + 1;
                st2 = upd_slot sid (\<lambda>s. s\<lparr>nextArrival := arrival,
                        highestGeneration := max (highestGeneration s) (in_generation install)\<rparr>) st1;
                slot = slot_at st2 sid; i = length (co_invs st2) in
            if sl_owner slot = None \<and> sl_quarantine slot = None then
              let owner = \<lparr>lo_id = co_fresh st2, lo_install = install, lo_arrival = arrival, lo_signal = sig\<rparr>;
                  st3 = upd_slot sid (\<lambda>s. s\<lparr>sl_owner := Some owner\<rparr>) (st2\<lparr>co_fresh := co_fresh st2 + 1\<rparr>) in
              if aborted st3 sig
              then Inr (add_invocation accountId sid sig (PhDone None) (releaseUnstartedOwner accountId sid owner st3))
              else Inr (add_invocation accountId sid sig (PhRunning owner) st3)
            else
              let w = \<lparr>wt_inv = i, wt_install = install, wt_arrival = arrival, wt_signal = sig\<rparr>;
                  st3 = upd_slot sid (\<lambda>s. s\<lparr>sl_waiters := sl_waiters s @ [w]\<rparr>) (add_invocation accountId sid sig PhAwaiting st2) in
              Inr (awaitGrant i (maybeProbe accountId sid w st3)))"

text \<open>What a \<^verbatim>\<open>run\<close> callback resolves to, and what the coordinator reads from its settlement.\<close>

record run_result =
  rr_closeReport :: "close_report option"
  rr_probePhysicalClose :: "nat option"

definition run_reading :: "cause + run_result \<Rightarrow> bool \<times> close_report option \<times> nat option \<times> cause option" where
  "run_reading settled =
     (case settled of
        Inr r \<Rightarrow> (case rr_closeReport r of None \<Rightarrow> True | Some c \<Rightarrow> confirmed c, rr_closeReport r, rr_probePhysicalClose r, None)
      | Inl (AccountRunFailure m c k) \<Rightarrow> (confirmed c, Some c, closeHandle c, Some (AccountRunFailure m c k))
      | Inl e \<Rightarrow> (False, None, None, Some e))"

definition unconfirmed_default :: close_report where
  "unconfirmed_default = \<lparr>reconnectSuppressed = True, socketClosed = False, forcedTerminationAttempted = False,
     gracefulTimedOut = False, closeHandle = None\<rparr>"

definition quarantine_slot :: "nat \<Rightarrow> close_report option \<Rightarrow> nat option \<Rightarrow> coordinator \<Rightarrow> coordinator" where
  "quarantine_slot sid report probe st =
     (upd_slot sid (\<lambda>s. s\<lparr>sl_quarantine := Some \<lparr>qu_id = co_fresh st, probeCutoffArrival = nextArrival s, probing = False,
        probePhysicalClose = (case probe of Some h \<Rightarrow> ProbeHandle h
          | None \<Rightarrow> ProbeConst (case report of Some r \<Rightarrow> r | None \<Rightarrow> unconfirmed_default))\<rparr>\<rparr>) st)\<lparr>co_fresh := co_fresh st + 1\<rparr>"

definition notify_quarantine :: "nat \<Rightarrow> string \<Rightarrow> lease_owner \<Rightarrow> coordinator \<Rightarrow> coordinator" where
  "notify_quarantine sid accountId owner st =
     (if owns st sid owner then st\<lparr>co_log := co_log st @ [(accountId, in_generation (lo_install owner))]\<rparr> else st)"

definition run_settled :: "nat \<Rightarrow> cause + run_result \<Rightarrow> coordinator \<Rightarrow> coordinator" where
  "run_settled i settled st =
     (case phase_of st i of
        PhRunning owner \<Rightarrow>
          let iv = co_invs st ! i; sid = iv_slot iv; account = iv_account iv in
          (case run_reading settled of (canPromote, report, probe, runError) \<Rightarrow>
             if canPromote
             then set_phase i (PhDone runError) (cleanupSlot account sid (promote sid (drop_owner sid owner st)))
             else
               let st1 = drop_owner sid owner (notify_quarantine sid account owner (quarantine_slot sid report probe st)) in
               if \<not> aborted st1 (iv_signal iv) then
                 awaitGrant i (upd_slot sid (\<lambda>s. s\<lparr>sl_waiters := sl_waiters s @
                     [\<lparr>wt_inv = i, wt_install = lo_install owner, wt_arrival = lo_arrival owner, wt_signal = iv_signal iv\<rparr>]\<rparr>)
                   (set_phase i PhAwaiting st1))
               else set_phase i (PhDone runError) (cleanupSlot account sid st1))
      | _ \<Rightarrow> st)"

text \<open>The invocation resumes after its grant.\<close>

definition resume_granted :: "nat \<Rightarrow> coordinator \<Rightarrow> coordinator" where
  "resume_granted i st =
     (case phase_of st i of
        PhGranted None \<Rightarrow> set_phase i (PhDone None) st
      | PhGranted (Some owner) \<Rightarrow>
          let iv = co_invs st ! i in
          if aborted st (iv_signal iv)
          then set_phase i (PhDone None) (releaseUnstartedOwner (iv_account iv) (iv_slot iv) owner st)
          else set_phase i (PhRunning owner) st
      | _ \<Rightarrow> st)"

text \<open>A signal fires: the abort listeners of the invocations that wait on it run in order.  The
  listener of an invocation that has its grant but has not resumed finds no waiter to remove and
  a settled grant, so it does nothing.\<close>

definition on_abort :: "nat \<Rightarrow> nat \<Rightarrow> coordinator \<Rightarrow> coordinator" where
  "on_abort sig i st =
     (let iv = co_invs st ! i in
      if iv_signal iv = sig \<and> iv_phase iv = PhAwaiting
      then resolve_grant i None (removeWaiter (iv_account iv) (iv_slot iv) i st) else st)"

definition abort_signal :: "nat \<Rightarrow> coordinator \<Rightarrow> coordinator" where
  "abort_signal sig st =
     (if aborted st sig then st
      else fold (on_abort sig) [0..<length (co_invs st)] (st\<lparr>co_aborted := sig # co_aborted st\<rparr>))"

section \<open>Executions\<close>

datatype lease_op =
    OpInstall string nat nat
  | OpRun string nat
  | OpSettle nat "cause + run_result"
  | OpResume nat
  | OpAbort nat
  | OpProbe nat "cause + close_report"

fun lease_run :: "lease_op \<Rightarrow> coordinator \<Rightarrow> coordinator" where
  "lease_run (OpInstall fp rt lg) st = install_fingerprint fp rt lg st"
| "lease_run (OpRun a sig) st = (case runAccount a sig st of Inl _ \<Rightarrow> st | Inr st' \<Rightarrow> st')"
| "lease_run (OpSettle i r) st = (if i < length (co_invs st) then run_settled i r st else st)"
| "lease_run (OpResume i) st = (if i < length (co_invs st) then resume_granted i st else st)"
| "lease_run (OpAbort sig) st = abort_signal sig st"
| "lease_run (OpProbe k ans) st = probe_settled k ans st"

inductive reachable_co :: "coordinator \<Rightarrow> bool" where
  start: "reachable_co new_coordinator"
| step: "reachable_co st \<Longrightarrow> reachable_co (lease_run op st)"

end
