(* ===== verification/Canonical.thy ===== *)
theory Canonical
  imports Lease_Coordinator "HOL-Library.List_Lexorder" "HOL-Library.Char_ord"
begin

text \<open>
  The identity of a configuration: \<^verbatim>\<open>canonicalJson\<close> and \<^verbatim>\<open>installFull\<close> of
  \<^verbatim>\<open>src/packages/plugin/src/nats-account-coordinator.ts\<close>.

  The host's configuration is an object graph, so a value is a scalar or the address of an
  array or object in a heap, and the graph may have cycles; \<^verbatim>\<open>seen\<close> is the list of addresses on
  the path.  A finite number is known by the literal JavaScript renders it with, which is all
  the code looks at.  \<open>VOther\<close> is a value JSON has no form for (undefined, a function).  An
  address outside the heap is no JavaScript value; the model treats it like \<open>VOther\<close>.  The
  SHA-256 digest of \<^verbatim>\<open>node:crypto\<close> is a parameter.

  The lemmas show that the rendering ends on every graph, that it is the rendering of the tree
  the value unfolds to, and that the rendering determines that tree.
\<close>

section \<open>Model\<close>

datatype jval =
    VNull
  | VString string
  | VBool bool
  | VNumber string
  | VNonFinite
  | VRef nat
  | VOther

datatype hobj = HArray "jval list" | HObject "(string \<times> jval) list"

type_synonym heap = "hobj list"

definition host_config_invariant :: cause where
  "host_config_invariant = AccountStartupError (Failure UnknownKind ''host-config-invariant'' Preflight (OtherError ''value'')
     ''host supplied non-JSON configuration'')"

definition host_config_cycle :: cause where
  "host_config_cycle = AccountStartupError (Failure UnknownKind ''host-config-cycle'' Preflight (OtherError ''value'')
     ''host supplied cyclic configuration'')"

text \<open>\<^verbatim>\<open>map\<close> with a callback that may throw: the first failure stops it.\<close>

fun traverse :: "('a \<Rightarrow> 'e + 'b) \<Rightarrow> 'a list \<Rightarrow> 'e + 'b list" where
  "traverse f [] = Inr []"
| "traverse f (x # xs) = (case f x of Inl e \<Rightarrow> Inl e | Inr y \<Rightarrow> (case traverse f xs of Inl e \<Rightarrow> Inl e | Inr ys \<Rightarrow> Inr (y # ys)))"

lemma traverse_cong [fundef_cong]: "xs = ys \<Longrightarrow> (\<And>x. x \<in> set ys \<Longrightarrow> f x = g x) \<Longrightarrow> traverse f xs = traverse g ys"
  by (induction xs arbitrary: ys) (auto split: sum.splits)

definition property :: "(string \<times> jval) list \<Rightarrow> string \<Rightarrow> jval" where
  "property ps k = (case map_of ps k of Some v \<Rightarrow> v | None \<Rightarrow> VOther)"

definition unseen :: "heap \<Rightarrow> nat list \<Rightarrow> nat" where
  "unseen h seen = length (filter (\<lambda>a. a \<notin> set seen) [0..<length h])"

lemma unseen_visit: "a < length h \<Longrightarrow> a \<notin> set seen \<Longrightarrow> unseen h (a # seen) < unseen h seen"
proof -
  assume a: "a < length h" "a \<notin> set seen"
  have "length (filter (\<lambda>b. b \<notin> set (a # seen)) [0..<length h]) = card {b. b < length h \<and> b \<notin> set (a # seen)}"
    "length (filter (\<lambda>b. b \<notin> set seen) [0..<length h]) = card {b. b < length h \<and> b \<notin> set seen}"
    by (simp_all add: distinct_length_filter Collect_conj_eq lessThan_def[symmetric] atLeast0LessThan Int_commute)
  moreover have "{b. b < length h \<and> b \<notin> set (a # seen)} \<subset> {b. b < length h \<and> b \<notin> set seen}" using a by auto
  moreover have "finite {b. b < length h \<and> b \<notin> set seen}" by simp
  ultimately show ?thesis by (simp add: unseen_def psubset_card_mono)
qed

function canonicalJson :: "heap \<Rightarrow> nat list \<Rightarrow> jval \<Rightarrow> cause + string" where
  "canonicalJson h seen VNull = Inr ''null''"
| "canonicalJson h seen (VString s) = Inr (quote s)"
| "canonicalJson h seen (VBool b) = Inr (show_bool b)"
| "canonicalJson h seen (VNumber s) = Inr s"
| "canonicalJson h seen VNonFinite = Inl host_config_invariant"
| "canonicalJson h seen VOther = Inl host_config_invariant"
| "canonicalJson h seen (VRef a) =
     (if \<not> a < length h then Inl host_config_invariant
      else if a \<in> set seen then Inl host_config_cycle
      else case h ! a of
        HArray vs \<Rightarrow>
          (case traverse (canonicalJson h (a # seen)) vs of
             Inl e \<Rightarrow> Inl e | Inr rs \<Rightarrow> Inr (''['' @ join '','' rs @ '']''))
      | HObject ps \<Rightarrow>
          (case traverse (\<lambda>k. case canonicalJson h (a # seen) (property ps k) of
                                Inl e \<Rightarrow> Inl e | Inr r \<Rightarrow> Inr (quote k @ '':'' @ r)) (sort (map fst ps)) of
             Inl e \<Rightarrow> Inl e | Inr rs \<Rightarrow> Inr (''{'' @ join '','' rs @ ''}'')))"
  by pat_completeness auto
termination
  by (relation "measure (\<lambda>(h, seen, v). unseen h seen)") (auto simp: unseen_visit)

definition installFull ::
    "(string \<Rightarrow> string) \<Rightarrow> string option \<Rightarrow> heap \<Rightarrow> jval \<Rightarrow> nat \<Rightarrow> nat \<Rightarrow> coordinator \<Rightarrow> cause + (install option \<times> coordinator)" where
  "installFull hash mode h config runtime logger st =
     (if mode \<noteq> Some ''full'' then Inr (co_install st, st)
      else case canonicalJson h [] config of
        Inl e \<Rightarrow> Inl e
      | Inr s \<Rightarrow> let st' = install_fingerprint (hash s) runtime logger st in Inr (co_install st', st'))"

section \<open>What a value denotes\<close>

text \<open>The tree a value unfolds to, objects with their keys in order; a cyclic value has none.\<close>

datatype jtree =
    TNull
  | TString string
  | TBool bool
  | TNumber string
  | TArray "jtree list"
  | TObject "(string \<times> jtree) list"

inductive unfolds :: "heap \<Rightarrow> jval \<Rightarrow> jtree \<Rightarrow> bool" for h where
  "unfolds h VNull TNull"
| "unfolds h (VString s) (TString s)"
| "unfolds h (VBool b) (TBool b)"
| "unfolds h (VNumber s) (TNumber s)"
| array: "a < length h \<Longrightarrow> h ! a = HArray vs \<Longrightarrow> list_all2 (unfolds h) vs ts \<Longrightarrow> unfolds h (VRef a) (TArray ts)"
| object: "a < length h \<Longrightarrow> h ! a = HObject ps \<Longrightarrow> list_all2 (\<lambda>k t. unfolds h (property ps k) t) (sort (map fst ps)) ts \<Longrightarrow>
    unfolds h (VRef a) (TObject (zip (sort (map fst ps)) ts))"

inductive_simps unfolds_simps [simp]:
  "unfolds h VNull t" "unfolds h (VString s) t" "unfolds h (VBool b) t" "unfolds h (VNumber s) t" "unfolds h VNonFinite t"
  "unfolds h VOther t"
inductive_cases unfolds_refE: "unfolds h (VRef a) t"

fun render :: "jtree \<Rightarrow> string" where
  "render TNull = ''null''"
| "render (TString s) = quote s"
| "render (TBool b) = show_bool b"
| "render (TNumber s) = s"
| "render (TArray ts) = ''['' @ join '','' (map render ts) @ '']''"
| "render (TObject ps) = ''{'' @ join '','' (map (\<lambda>(k, t). quote k @ '':'' @ render t) ps) @ ''}''"

lemma unfolds_det: "unfolds h v t \<Longrightarrow> unfolds h v t' \<Longrightarrow> t = t'"
proof (induction arbitrary: t' rule: unfolds.induct)
  case (array a vs ts)
  from array(4) obtain ts' where t': "t' = TArray ts'" "list_all2 (unfolds h) vs ts'" using array(2) by (cases rule: unfolds.cases) auto
  then have "ts = ts'" using array(3) by (auto simp: list_all2_conv_all_nth intro: nth_equalityI)
  then show ?case using t' by simp
next
  case (object a ps ts)
  from object(4) obtain ts' where t': "t' = TObject (zip (sort (map fst ps)) ts')"
    "list_all2 (\<lambda>k t. unfolds h (property ps k) t) (sort (map fst ps)) ts'" using object(2) by (cases rule: unfolds.cases) auto
  then have "ts = ts'" using object(3) by (auto simp: list_all2_conv_all_nth intro: nth_equalityI)
  then show ?case using t' by simp
qed auto


lemma traverse_Inr: "traverse f xs = Inr ys \<longleftrightarrow> list_all2 (\<lambda>x y. f x = Inr y) xs ys"
proof (induction xs arbitrary: ys)
  case (Cons x xs)
  have "traverse f (x # xs) = Inr ys \<longleftrightarrow> (\<exists>z zs. ys = z # zs \<and> f x = Inr z \<and> traverse f xs = Inr zs)"
    by (auto split: sum.splits)
  then show ?case by (simp add: Cons.IH list_all2_Cons1)
qed auto

lemma canonical_sound: "canonicalJson h seen v = Inr s \<Longrightarrow> \<exists>t. unfolds h v t \<and> s = render t"
proof (induction h seen v arbitrary: s rule: canonicalJson.induct)
  case (7 h seen a)
  have a: "a < length h" "a \<notin> set seen" using "7.prems" by (auto split: if_splits)
  show ?case
  proof (cases "h ! a")
    case (HArray vs)
    then obtain rs where rs: "list_all2 (\<lambda>v r. canonicalJson h (a # seen) v = Inr r) vs rs" "s = ''['' @ join '','' rs @ '']''"
      using "7.prems" a by (auto simp: traverse_Inr split: sum.splits)
    have "\<exists>t. unfolds h (vs ! n) t \<and> rs ! n = render t" if "n < length vs" for n
      using "7.IH"(1)[OF _ a(2) HArray, of "vs ! n" "rs ! n"] a rs(1) that by (auto simp: list_all2_conv_all_nth)
    then obtain f where f: "\<And>n. n < length vs \<Longrightarrow> unfolds h (vs ! n) (f n) \<and> rs ! n = render (f n)" by metis
    let ?ts = "map f [0..<length vs]"
    have "list_all2 (unfolds h) vs ?ts" using f by (simp add: list_all2_conv_all_nth)
    moreover have "rs = map render ?ts" using f rs(1) by (intro nth_equalityI) (auto simp: list_all2_conv_all_nth)
    ultimately show ?thesis using a HArray rs(2) by (intro exI[of _ "TArray ?ts"]) (auto intro: unfolds.array simp del: map_map)
  next
    case (HObject ps)
    let ?ks = "sort (map fst ps)"
    let ?f = "\<lambda>k. case canonicalJson h (a # seen) (property ps k) of Inl e \<Rightarrow> Inl e | Inr r \<Rightarrow> Inr (quote k @ '':'' @ r)"
    obtain rs where rs: "list_all2 (\<lambda>k r. ?f k = Inr r) ?ks rs" "s = ''{'' @ join '','' rs @ ''}''"
      using "7.prems" a HObject by (auto simp: traverse_Inr split: sum.splits)
    have "\<exists>t. unfolds h (property ps (?ks ! n)) t \<and> rs ! n = quote (?ks ! n) @ '':'' @ render t" if "n < length ?ks" for n
    proof -
      have "?f (?ks ! n) = Inr (rs ! n)" using rs(1) that by (simp add: list_all2_conv_all_nth)
      then obtain r where r: "canonicalJson h (a # seen) (property ps (?ks ! n)) = Inr r" "rs ! n = quote (?ks ! n) @ '':'' @ r"
        by (auto split: sum.splits)
      moreover have "?ks ! n \<in> set ?ks" using that by (rule nth_mem)
      ultimately show ?thesis using "7.IH"(2)[OF _ a(2) HObject, of "?ks ! n" r] a by auto
    qed
    then obtain f where f: "\<And>n. n < length ?ks \<Longrightarrow> unfolds h (property ps (?ks ! n)) (f n) \<and> rs ! n = quote (?ks ! n) @ '':'' @ render (f n)" by metis
    let ?ts = "map f [0..<length ?ks]"
    have "list_all2 (\<lambda>k t. unfolds h (property ps k) t) ?ks ?ts" using f by (simp add: list_all2_conv_all_nth)
    moreover have "rs = map (\<lambda>(k, t). quote k @ '':'' @ render t) (zip ?ks ?ts)"
      using f rs(1) by (intro nth_equalityI) (auto simp: list_all2_conv_all_nth)
    ultimately show ?thesis using a HObject rs(2) by (intro exI[of _ "TObject (zip ?ks ?ts)"]) (auto intro: unfolds.object)
  qed
qed auto

text \<open>A value that unfolds meets no address twice on a path: the address would unfold to a proper part of itself.\<close>

lemma seen_grows:
  assumes "unfolds h (VRef a) t" "size t' < size t" "\<forall>b \<in> set seen. \<exists>tb. unfolds h (VRef b) tb \<and> size t < size tb"
  shows "\<forall>b \<in> set (a # seen). \<exists>tb. unfolds h (VRef b) tb \<and> size t' < size tb"
proof
  fix b assume "b \<in> set (a # seen)"
  then consider "b = a" | "b \<in> set seen" by auto
  then show "\<exists>tb. unfolds h (VRef b) tb \<and> size t' < size tb"
  proof cases
    case 2
    then obtain tb where "unfolds h (VRef b) tb" "size t < size tb" using assms(3) by blast
    then show ?thesis using assms(2) by (auto intro: less_trans)
  qed (use assms in blast)
qed

lemma canonical_complete:
  assumes "unfolds h v t" "\<forall>a \<in> set seen. \<exists>ta. unfolds h (VRef a) ta \<and> size t < size ta"
  shows "canonicalJson h seen v = Inr (render t)"
  using assms
proof (induction arbitrary: seen rule: unfolds.induct)
  case (array a vs ts)
  have whole: "unfolds h (VRef a) (TArray ts)" using array(1-3) by (auto intro: unfolds.array elim: list.rel_mono_strong)
  have fresh: "a \<notin> set seen" using array(4) unfolds_det[OF whole] by force
  have part: "size t < size (TArray ts)" if "t \<in> set ts" for t using size_list_estimation'[OF that, of "size t" size] by simp
  have "canonicalJson h (a # seen) (vs ! n) = Inr (render (ts ! n))" if n: "n < length vs" for n
  proof -
    have l: "length ts = length vs" using array(3) by (simp add: list_all2_lengthD)
    then have s: "size (ts ! n) < size (TArray ts)" using n by (intro part) simp
    have "\<forall>b \<in> set (a # seen). \<exists>tb. unfolds h (VRef b) tb \<and> size (ts ! n) < size tb"
      by (rule seen_grows[OF whole s array(4)])
    then show ?thesis using array(3) n by (simp add: list_all2_conv_all_nth)
  qed
  then have "traverse (canonicalJson h (a # seen)) vs = Inr (map render ts)"
    using array(3) by (simp add: traverse_Inr list_all2_conv_all_nth)
  then show ?case using array(1,2) fresh by simp
next
  case (object a ps ts)
  let ?ks = "sort (map fst ps)" let ?t = "TObject (zip ?ks ts)"
  have whole: "unfolds h (VRef a) ?t" using object(1-3) by (auto intro: unfolds.object elim: list.rel_mono_strong)
  have fresh: "a \<notin> set seen" using object(4) unfolds_det[OF whole] by force
  have l: "length ts = length ?ks" using list_all2_lengthD[OF object(3)] by simp
  have "(case canonicalJson h (a # seen) (property ps (?ks ! n)) of Inl e \<Rightarrow> Inl e | Inr r \<Rightarrow> Inr (quote (?ks ! n) @ '':'' @ r)) =
      Inr (quote (?ks ! n) @ '':'' @ render (ts ! n))" if n: "n < length ?ks" for n
  proof -
    have "(?ks ! n, ts ! n) \<in> set (zip ?ks ts)" using n l by (auto simp: in_set_zip)
    then have s: "size (ts ! n) < size ?t" using size_list_estimation'[of "(?ks ! n, ts ! n)" "zip ?ks ts" "size (ts ! n)"
        "size_prod (\<lambda>_. 0) size"] by simp
    have "\<forall>b \<in> set (a # seen). \<exists>tb. unfolds h (VRef b) tb \<and> size (ts ! n) < size tb"
      by (rule seen_grows[OF whole s object(4)])
    then have "canonicalJson h (a # seen) (property ps (?ks ! n)) = Inr (render (ts ! n))" using object(3) n l by (simp add: list_all2_conv_all_nth)
    then show ?thesis by simp
  qed
  then have "traverse (\<lambda>k. case canonicalJson h (a # seen) (property ps k) of Inl e \<Rightarrow> Inl e | Inr r \<Rightarrow> Inr (quote k @ '':'' @ r)) ?ks =
      Inr (map (\<lambda>(k, t). quote k @ '':'' @ render t) (zip ?ks ts))"
    using l by (simp add: traverse_Inr list_all2_conv_all_nth)
  then show ?case using object(1,2) fresh by simp
qed auto


section \<open>The rendering determines the tree\<close>

definition hex_val :: "char \<Rightarrow> nat" where
  "hex_val c = (let n = of_char c in if n < 58 then n - 48 else n - 87)"

lemma hex_val_hex_char: "d < 16 \<Longrightarrow> hex_val (hex_char d) = d"
  by (simp add: hex_val_def hex_char_def)

definition short_escape :: "char \<Rightarrow> char" where
  "short_escape d =
     (if d = CHR ''b'' then CHR 0x08 else if d = CHR ''f'' then CHR 0x0C else if d = CHR ''n'' then CHR 0x0A
      else if d = CHR ''r'' then CHR 0x0D else if d = CHR ''t'' then CHR 0x09 else d)"

fun unescape :: "string \<Rightarrow> char \<times> string" where
  "unescape (c # cs) =
     (if c \<noteq> CHR 0x5C then (c, cs)
      else if hd cs = CHR ''u'' then (char_of (16 * hex_val (cs ! 3) + hex_val (cs ! 4)), drop 5 cs)
      else (short_escape (hd cs), tl cs))"
| "unescape [] = (CHR 0x00, [])"

lemma unescape_escape: "unescape (escape_char c @ x) = (c, x)"
proof (cases "of_char c < (32 :: nat) \<and> c \<notin> {CHR 0x08, CHR 0x0C, CHR 0x0A, CHR 0x0D, CHR 0x09}")
  case True
  let ?n = "of_char c :: nat"
  have "c \<noteq> CHR 0x22" "c \<noteq> CHR 0x5C"
  proof -
    show "c \<noteq> CHR 0x22" using True by (rule contrapos_pn) simp
    show "c \<noteq> CHR 0x5C" using True by (rule contrapos_pn) simp
  qed
  then have e: "escape_char c = [CHR 0x5C, CHR ''u'', CHR ''0'', CHR ''0'', hex_char (?n div 16), hex_char (?n mod 16)]"
    using True by (simp add: escape_char_def)
  have "?n < 32" using True by simp
  then have "?n div 16 < 16" by presburger
  then show ?thesis by (simp add: e hex_val_hex_char)
next
  case False
  then show ?thesis by (auto simp: escape_char_def short_escape_def)
qed

lemma escape_head: "\<exists>d ds. escape_char c = d # ds \<and> d \<noteq> CHR 0x22"
  by (simp add: escape_char_def)

lemma quote_inject: "quote s @ r = quote s' @ r' \<Longrightarrow> s = s' \<and> r = r'"
proof -
  have "concat (map escape_char s) @ CHR 0x22 # r = concat (map escape_char s') @ CHR 0x22 # r' \<Longrightarrow> s = s' \<and> r = r'"
  proof (induction s arbitrary: s')
    case Nil
    show ?case
    proof (cases s')
      case (Cons c s2)
      obtain d ds where "escape_char c = d # ds" "d \<noteq> CHR 0x22" using escape_head[of c] by blast
      then show ?thesis using Nil Cons by simp
    qed (use Nil in simp)
  next
    case (Cons c s)
    show ?case
    proof (cases s')
      case Nil
      then show ?thesis using Cons.prems escape_head[of c] by auto
    next
      case (Cons d s2)
      have "unescape (escape_char c @ concat (map escape_char s) @ CHR 0x22 # r) =
          unescape (escape_char d @ concat (map escape_char s2) @ CHR 0x22 # r')" using Cons.prems Cons by simp
      then show ?thesis using Cons.IH[of s2] Cons by (simp add: unescape_escape)
    qed
  qed
  then show "quote s @ r = quote s' @ r' \<Longrightarrow> s = s' \<and> r = r'" by (simp add: quote_def)
qed

definition number_chars :: "char set" where
  "number_chars = set ''0123456789+-.e''"

definition number_literal :: "string \<Rightarrow> bool" where
  "number_literal s \<longleftrightarrow> s \<noteq> [] \<and> set s \<subseteq> number_chars"

fun tree_ok :: "jtree \<Rightarrow> bool" where
  "tree_ok (TNumber s) = number_literal s"
| "tree_ok (TArray ts) = (\<forall>t \<in> set ts. tree_ok t)"
| "tree_ok (TObject ps) = (\<forall>p \<in> set ps. tree_ok (snd p))"
| "tree_ok _ = True"

text \<open>What may follow a rendered value: the end, a comma or a closing bracket.\<close>

definition delimited :: "string \<Rightarrow> bool" where
  "delimited r \<longleftrightarrow> r = [] \<or> hd r \<in> {CHR '','', CHR '']'', CHR ''}''}"

lemma delimited_Cons [simp]: "delimited (CHR '','' # r)" "delimited (CHR '']'' # r)" "delimited (CHR ''}'' # r)" "delimited []"
  by (simp_all add: delimited_def)

lemma number_inject:
  assumes "number_literal s" "number_literal s'" "delimited r" "delimited r'" "s @ r = s' @ r'"
  shows "s = s' \<and> r = r'"
proof -
  have d: "c \<notin> number_chars" if "delimited (c # cs)" for c cs using that by (auto simp: delimited_def number_chars_def)
  have tw: "takeWhile (\<lambda>c. c \<in> number_chars) (u @ v) = u" if "number_literal u" "delimited v" for u v
    using that d by (cases v) (auto simp: number_literal_def takeWhile_append2 subset_iff)
  have "s = s'" using tw[OF assms(1,3)] tw[OF assms(2,4)] assms(5) by simp
  then show ?thesis using assms(5) by simp
qed

lemma join_Cons: "join sep (x # xs) = x @ (if xs = [] then [] else sep @ join sep xs)"
  by (cases xs) simp_all

text \<open>A joined list is determined by its elements, when each is determined before a delimiter.\<close>

lemma join_inject:
  assumes el: "\<And>x y r r'. x \<in> set xs \<Longrightarrow> y \<in> set ys \<Longrightarrow> delimited r \<Longrightarrow> delimited r' \<Longrightarrow> f x @ r = f y @ r' \<Longrightarrow> x = y \<and> r = r'"
    and hx: "\<And>x. x \<in> set xs \<Longrightarrow> f x \<noteq> [] \<and> hd (f x) \<noteq> c" and hy: "\<And>y. y \<in> set ys \<Longrightarrow> f y \<noteq> [] \<and> hd (f y) \<noteq> c"
    and c: "c = CHR '']'' \<or> c = CHR ''}''"
    and eq: "join '','' (map f xs) @ c # r = join '','' (map f ys) @ c # r'"
  shows "xs = ys \<and> r = r'"
  using el hx hy eq
proof (induction xs arbitrary: ys)
  case Nil
  show ?case
  proof (cases ys)
    case (Cons y ys')
    then show ?thesis using Nil.prems(3)[of y] Nil.prems(4) by (cases "f y") (auto simp: join_Cons)
  qed (use Nil in simp)
next
  case (Cons x xs)
  show ?case
  proof (cases ys)
    case Nil
    then show ?thesis using Cons.prems(2)[of x] Cons.prems(4) by (cases "f x") (auto simp: join_Cons)
  next
    case (Cons y ys')
    let ?tail = "\<lambda>zs q. (if zs = [] then [] else '','' @ join '','' (map f zs)) @ c # q"
    have d: "delimited (?tail zs q)" for zs q using c by auto
    have "f x @ ?tail xs r = f y @ ?tail ys' r'" using Cons.prems(4) Cons by (simp add: join_Cons)
    then have xy: "x = y" "?tail xs r = ?tail ys' r'" using Cons.prems(1)[of x y] Cons d by auto
    have comma: "c \<noteq> CHR '',''" using c by auto
    show ?thesis
    proof (cases "xs = []")
      case True
      then show ?thesis using xy comma Cons by (cases "ys' = []") auto
    next
      case False
      then have "ys' \<noteq> []" "join '','' (map f xs) @ c # r = join '','' (map f ys') @ c # r'" using xy(2) comma by (auto split: if_splits)
      then have "xs = ys' \<and> r = r'" using Cons.IH[of ys'] Cons.prems(1-3) Cons by auto
      then show ?thesis using xy(1) Cons by simp
    qed
  qed
qed


lemma render_head:
  assumes "tree_ok t"
  shows "render t \<noteq> [] \<and> hd (render t) \<notin> {CHR '']'', CHR ''}''}"
proof (cases t)
  case (TNumber s)
  then have "number_literal s" using assms by simp
  then have "s \<noteq> []" "hd s \<in> number_chars" by (auto simp: number_literal_def)
  then show ?thesis using TNumber by (auto simp: number_chars_def)
qed (simp_all add: quote_def show_bool_def)

text \<open>The first character of a rendering tells the constructor.\<close>

fun tree_kind :: "jtree \<Rightarrow> nat" where
  "tree_kind TNull = 0"
| "tree_kind (TString _) = 1"
| "tree_kind (TBool True) = 2"
| "tree_kind (TBool False) = 3"
| "tree_kind (TNumber _) = 4"
| "tree_kind (TArray _) = 5"
| "tree_kind (TObject _) = 6"

definition char_kind :: "char \<Rightarrow> nat" where
  "char_kind c = (if c = CHR ''n'' then 0 else if c = CHR 0x22 then 1 else if c = CHR ''t'' then 2 else if c = CHR ''f'' then 3
     else if c = CHR ''['' then 5 else if c = CHR ''{'' then 6 else 4)"

lemma render_kind: "tree_ok t \<Longrightarrow> char_kind (hd (render t)) = tree_kind t"
proof (cases t)
  case (TNumber s)
  moreover assume "tree_ok t"
  ultimately have "s \<noteq> []" "hd s \<in> number_chars" by (auto simp: number_literal_def)
  then show ?thesis using TNumber by (auto simp: number_chars_def char_kind_def)
next
  case (TBool b)
  then show ?thesis by (cases b) (simp_all add: show_bool_def char_kind_def)
qed (simp_all add: quote_def char_kind_def)

lemma render_inject:
  assumes "tree_ok t" "tree_ok t'" "delimited r" "delimited r'" "render t @ r = render t' @ r'"
  shows "t = t' \<and> r = r'"
  using assms
proof (induction t arbitrary: t' r r')
  case (TNumber s)
  then have "tree_kind t' = 4" using render_kind[of "TNumber s"] render_kind[of t'] render_head[of "TNumber s"] render_head[of t']
    by (metis hd_append tree_kind.simps(5))
  then obtain s' where t': "t' = TNumber s'" by (cases t' rule: tree_kind.cases) simp_all
  then show ?case using TNumber number_inject[of s s' r r'] by simp
next
  case (TString s)
  then have "tree_kind t' = 1" using render_kind[of "TString s"] render_kind[of t'] render_head[of "TString s"] render_head[of t']
    by (metis hd_append tree_kind.simps(2))
  then obtain s' where t': "t' = TString s'" by (cases t' rule: tree_kind.cases) simp_all
  then show ?case using TString quote_inject[of s r s' r'] by simp
next
  case TNull
  then have "tree_kind t' = 0" using render_kind[of TNull] render_kind[of t'] render_head[of TNull] render_head[of t']
    by (metis hd_append tree_kind.simps(1))
  then have "t' = TNull" by (cases t' rule: tree_kind.cases) simp_all
  then show ?case using TNull by simp
next
  case (TBool b)
  then have "tree_kind t' = tree_kind (TBool b)" using render_kind[of "TBool b"] render_kind[of t'] render_head[of "TBool b"] render_head[of t']
    by (metis hd_append)
  then have "t' = TBool b" by (cases t' rule: tree_kind.cases; cases b) simp_all
  then show ?case using TBool by simp
next
  case (TArray ts)
  then have "tree_kind t' = 5" using render_kind[of "TArray ts"] render_kind[of t'] render_head[of "TArray ts"] render_head[of t']
    by (metis hd_append tree_kind.simps(6))
  then obtain us where t': "t' = TArray us" by (cases t' rule: tree_kind.cases) simp_all
  have "ts = us \<and> r = r'"
  proof (rule join_inject[of ts us render "CHR '']''"])
    show "x = y \<and> q = q'" if "x \<in> set ts" "y \<in> set us" "delimited q" "delimited q'" "render x @ q = render y @ q'" for x y q q'
      using TArray.IH[OF that(1), of y q q'] TArray.prems(1,2) that t' by simp
    show "render x \<noteq> [] \<and> hd (render x) \<noteq> CHR '']''" if "x \<in> set ts" for x using render_head[of x] TArray.prems(1) that by auto
    show "render x \<noteq> [] \<and> hd (render x) \<noteq> CHR '']''" if "x \<in> set us" for x using render_head[of x] TArray.prems(2) that t' by auto
  qed (use TArray.prems(5) t' in simp_all)
  then show ?case using t' by simp
next
  case (TObject ps)
  then have "tree_kind t' = 6" using render_kind[of "TObject ps"] render_kind[of t'] render_head[of "TObject ps"] render_head[of t']
    by (metis hd_append tree_kind.simps(7))
  then obtain qs where t': "t' = TObject qs" by (cases t' rule: tree_kind.cases) simp_all
  let ?f = "\<lambda>(k, t). quote k @ '':'' @ render t"
  have "ps = qs \<and> r = r'"
  proof (rule join_inject[of ps qs ?f "CHR ''}''"])
    show "x = y \<and> q = q'" if "x \<in> set ps" "y \<in> set qs" "delimited q" "delimited q'" "?f x @ q = ?f y @ q'" for x y q q'
    proof -
      obtain k v l w where xy: "x = (k, v)" "y = (l, w)" by (cases x; cases y)
      then have kl: "k = l" "render v @ q = render w @ q'" using quote_inject[of k "'':'' @ render v @ q" l "'':'' @ render w @ q'"] that(5) by auto
      have "tree_ok v" "tree_ok w" using TObject.prems(1,2) that(1,2) xy t' by fastforce+
      then have "v = w \<and> q = q'" using TObject.IH[of x v w q q'] that kl(2) xy by simp
      then show ?thesis using xy kl by simp
    qed
    show "?f x \<noteq> [] \<and> hd (?f x) \<noteq> CHR ''}''" if "x \<in> set ps" for x by (cases x) (simp add: quote_def)
    show "?f x \<noteq> [] \<and> hd (?f x) \<noteq> CHR ''}''" if "x \<in> set qs" for x by (cases x) (simp add: quote_def)
  qed (use TObject.prems(5) t' in simp_all)
  then show ?case using t' by simp
qed


text \<open>JavaScript renders a finite number with the characters of a number literal.\<close>

fun value_ok :: "jval \<Rightarrow> bool" where
  "value_ok (VNumber s) = number_literal s"
| "value_ok _ = True"

fun object_ok :: "hobj \<Rightarrow> bool" where
  "object_ok (HArray vs) = (\<forall>v \<in> set vs. value_ok v)"
| "object_ok (HObject ps) = (\<forall>p \<in> set ps. value_ok (snd p))"

definition config_ok :: "heap \<Rightarrow> jval \<Rightarrow> bool" where
  "config_ok h v \<longleftrightarrow> value_ok v \<and> (\<forall>ob \<in> set h. object_ok ob)"

lemma unfolds_tree_ok: "unfolds h v t \<Longrightarrow> config_ok h v \<Longrightarrow> tree_ok t"
proof (induction rule: unfolds.induct)
  case (array a vs ts)
  have "tree_ok t" if t: "t \<in> set ts" for t
  proof -
    have obj: "object_ok (HArray vs)" using array(1,2,4) nth_mem[of a h] unfolding config_ok_def by metis
    obtain n where n: "n < length vs" "t = ts ! n" using t list_all2_lengthD[OF array(3)] by (auto simp: in_set_conv_nth)
    then have "config_ok h (vs ! n)" using obj array(4) by (simp add: config_ok_def)
    then show ?thesis using array(3) n by (simp add: list_all2_conv_all_nth)
  qed
  then show ?case by simp
next
  case (object a ps ts)
  have "tree_ok t" if t: "t \<in> set ts" for t
  proof -
    have obj: "object_ok (HObject ps)" using object(1,2,4) nth_mem[of a h] unfolding config_ok_def by metis
    obtain n where n: "n < length (sort (map fst ps))" "t = ts ! n" using t list_all2_lengthD[OF object(3)] by (auto simp: in_set_conv_nth)
    have "config_ok h (property ps k)" for k using obj object(4)
      by (fastforce simp: config_ok_def property_def dest: map_of_SomeD split: option.split)
    then show ?thesis using list_all2_nthD[OF object(3) n(1)] n(2) by simp
  qed
  then show ?case by (auto dest: set_zip_rightD)
qed (simp_all add: config_ok_def)

lemma same_rendering:
  assumes "unfolds h v t" "unfolds h' v' t'" "config_ok h v" "config_ok h' v'" "render t = render t'"
  shows "t = t'"
  using render_inject[of t t' "[]" "[]"] unfolds_tree_ok assms by simp

lemma canonical_errors: "canonicalJson h seen v = Inl e \<Longrightarrow> e = host_config_invariant \<or> e = host_config_cycle"
proof (induction h seen v arbitrary: e rule: canonicalJson.induct)
  case (7 h seen a)
  have tr: "\<exists>x \<in> set xs. f x = Inl e" if "traverse f xs = Inl e" for f :: "'a \<Rightarrow> cause + 'b" and xs
    using that by (induction xs) (auto split: sum.splits)
  show ?case
  proof (cases "a < length h \<and> a \<notin> set seen")
    case True
    show ?thesis
    proof (cases "h ! a")
      case (HArray vs)
      then have "traverse (canonicalJson h (a # seen)) vs = Inl e" using "7.prems" True by (auto split: sum.splits)
      then obtain v where "v \<in> set vs" "canonicalJson h (a # seen) v = Inl e" using tr by blast
      then show ?thesis using "7.IH"(1)[OF _ _ HArray] True by blast
    next
      case (HObject ps)
      then have "traverse (\<lambda>k. case canonicalJson h (a # seen) (property ps k) of Inl e \<Rightarrow> Inl e | Inr r \<Rightarrow> Inr (quote k @ '':'' @ r))
          (sort (map fst ps)) = Inl e" using "7.prems" True by (auto split: sum.splits)
      then obtain k where "k \<in> set (sort (map fst ps))" "canonicalJson h (a # seen) (property ps k) = Inl e"
        by (auto dest!: tr split: sum.splits)
      then show ?thesis using "7.IH"(2)[OF _ _ HObject] True by blast
    qed
  qed (use "7.prems" in \<open>auto split: if_splits\<close>)
qed auto

lemma canonical_value: "canonicalJson h [] v = Inr s \<longleftrightarrow> (\<exists>t. unfolds h v t \<and> s = render t)"
  using canonical_sound[of h "[]" v s] canonical_complete[of h v _ "[]"] by auto

definition generation_ok :: "coordinator \<Rightarrow> bool" where
  "generation_ok st \<longleftrightarrow> (\<forall>i. co_install st = Some i \<longrightarrow> in_generation i \<le> co_nextGeneration st)"

lemma installs: "\<exists>i. co_install (install_fingerprint fp rt lg st) = Some i \<and> in_fingerprint i = fp"
  by (simp add: install_fingerprint_def split: option.split)

lemma install_generation_ok: "generation_ok st \<Longrightarrow> generation_ok (install_fingerprint fp rt lg st)"
  by (auto simp: generation_ok_def install_fingerprint_def split: option.split)


text \<open>Only \<^verbatim>\<open>installFull\<close> touches the install and its generation counter.\<close>

definition installed :: "coordinator \<Rightarrow> install option \<times> nat" where
  "installed st = (co_install st, co_nextGeneration st)"

lemma installed_sel [simp]:
  "installed (upd_slot sid f st) = installed st" "installed (set_phase i ph st) = installed st"
  "installed (cleanupSlot a sid st) = installed st" "installed (st\<lparr>co_fresh := n\<rparr>) = installed st"
  "installed (st\<lparr>co_released := rs\<rparr>) = installed st" "installed (st\<lparr>co_probes := ps\<rparr>) = installed st"
  "installed (st\<lparr>co_log := lg\<rparr>) = installed st" "installed (st\<lparr>co_aborted := as\<rparr>) = installed st"
  "installed (add_invocation a sid sig ph st) = installed st"
  by (simp_all add: installed_def upd_slot_def set_phase_def cleanupSlot_def add_invocation_def Let_def)

lemma installed_ops [simp]:
  "installed (promote sid st) = installed st" "installed (drop_owner sid ow st) = installed st"
  "installed (removeWaiter a sid i st) = installed st" "installed (maybeProbe a sid w st) = installed st"
  "installed (quarantine_slot sid rep pr st) = installed st" "installed (notify_quarantine sid a ow st) = installed st"
  by (simp_all add: promote_def resolve_grant_def drop_owner_def removeWaiter_def maybeProbe_def quarantine_slot_def notify_quarantine_def
      Let_def split: list.split option.split)

lemma installed_calls [simp]:
  "installed (awaitGrant i st) = installed st" "installed (releaseUnstartedOwner a sid ow st) = installed st"
  "installed (on_abort sig i st) = installed st"
  by (simp_all add: awaitGrant_def releaseUnstartedOwner_def on_abort_def resolve_grant_def Let_def)

lemma installed_enter: "enter_slot a st = (sid, st') \<Longrightarrow> installed st' = installed st"
  by (auto simp: enter_slot_def installed_def split: option.splits)

lemma installed_run: "runAccount a sig st = Inr st' \<Longrightarrow> installed st' = installed st"
  using installed_enter[of a st] by (auto simp: runAccount_def Let_def split: option.splits prod.splits if_splits)

lemma installed_step: "(\<And>fp rt lg. op \<noteq> OpInstall fp rt lg) \<Longrightarrow> installed (lease_run op st) = installed st"
proof (cases op)
  case (OpRun a sig)
  then show ?thesis using installed_run by (auto split: sum.split)
next
  case (OpAbort sig)
  have "installed (fold (on_abort sig) xs s) = installed s" for xs s by (induction xs arbitrary: s) simp_all
  then show ?thesis using OpAbort by (simp add: abort_signal_def)
qed (auto simp: run_settled_def resume_granted_def probe_settled_def Let_def split: phase.split option.split prod.split)

lemma generation_ok_reachable: "reachable_co st \<Longrightarrow> generation_ok st"
proof (induction rule: reachable_co.induct)
  case start
  then show ?case by (simp add: generation_ok_def new_coordinator_def)
next
  case (step st op)
  show ?case
  proof (cases "\<exists>fp rt lg. op = OpInstall fp rt lg")
    case True
    then show ?thesis using install_generation_ok[OF step.IH] by auto
  next
    case False
    then have "installed (lease_run op st) = installed st" by (intro installed_step) blast
    then show ?thesis using step.IH by (simp add: generation_ok_def installed_def)
  qed
qed

section \<open>Properties\<close>

text \<open>Canonical JSON always ends, and its result is the value's. On every object graph, cyclic or
  not, the rendering ends; it succeeds exactly when the value unfolds to a finite tree of JSON
  data, with the rendering of that tree (keys in order), and otherwise it throws one of the two
  configuration errors.\<close>

theorem canonical_total:
  "(case canonicalJson h [] v of
      Inr s \<Rightarrow> \<exists>t. unfolds h v t \<and> s = render t
    | Inl e \<Rightarrow> (e = host_config_invariant \<or> e = host_config_cycle) \<and> (\<nexists>t. unfolds h v t))"
proof (cases "canonicalJson h [] v")
  case (Inl e)
  then have "\<nexists>t. unfolds h v t" using canonical_complete[of h v _ "[]"] by auto
  then show ?thesis using Inl canonical_errors[OF Inl] by simp
next
  case (Inr s)
  then show ?thesis using canonical_sound[OF Inr] by simp
qed

text \<open>C34: A new configuration is a new generation, and only that. Installing two configurations one
  after the other keeps the generation exactly when both denote the same JSON data (the order of
  their keys apart), provided the hash does not map their two renderings to one digest; the
  generation never goes back.\<close>

theorem generation_tracks_config:
  assumes "reachable_co st" "config_ok h v" "config_ok h' v'" "unfolds h v t" "unfolds h' v' t'"
    and "hash (render t) = hash (render t') \<longrightarrow> render t = render t'"
  shows "\<exists>i st1 i' st2. installFull hash (Some ''full'') h v rt lg st = Inr (Some i, st1) \<and>
    installFull hash (Some ''full'') h' v' rt' lg' st1 = Inr (Some i', st2) \<and>
    (in_generation i' = in_generation i \<longleftrightarrow> t = t') \<and> in_generation i \<le> in_generation i'"
proof -
  let ?st1 = "install_fingerprint (hash (render t)) rt lg st"
  let ?st2 = "install_fingerprint (hash (render t')) rt' lg' ?st1"
  have c: "canonicalJson h [] v = Inr (render t)" "canonicalJson h' [] v' = Inr (render t')" using assms(4,5) canonical_value by blast+
  obtain i where i: "co_install ?st1 = Some i" "in_fingerprint i = hash (render t)" using installs by blast
  obtain i' where i': "co_install ?st2 = Some i'" using installs by blast
  have le: "in_generation i \<le> co_nextGeneration ?st1"
    using install_generation_ok[OF generation_ok_reachable[OF assms(1)]] i(1) by (simp add: generation_ok_def)
  have gen: "in_generation i' = (if hash (render t') = hash (render t) then in_generation i else co_nextGeneration ?st1 + 1)"
    using i i' by (simp add: install_fingerprint_def[of "hash (render t')"] split: if_splits) (auto split: if_splits)
  have "hash (render t') = hash (render t) \<longleftrightarrow> t = t'" using assms(6) same_rendering[OF assms(4,5,2,3)] by auto
  then have "in_generation i' = in_generation i \<longleftrightarrow> t = t'" "in_generation i \<le> in_generation i'" using gen le by auto
  then show ?thesis using c i(1) i' by (simp add: installFull_def Let_def)
qed

text \<open>Two configurations that differ in the order of their keys only.\<close>

theorem generation_tracks_config_witness:
  "\<exists>i st1 i' st2.
     installFull id (Some ''full'') [HObject [(''b'', VNumber ''1''), (''a'', VNull)]] (VRef 0) 0 0 new_coordinator = Inr (Some i, st1) \<and>
     installFull id (Some ''full'') [HObject [(''a'', VNull), (''b'', VNumber ''1'')]] (VRef 0) 0 0 st1 = Inr (Some i', st2) \<and>
     in_generation i' = in_generation i"
proof -
  let ?h = "[HObject [(''b'', VNumber ''1''), (''a'', VNull)]]" let ?h' = "[HObject [(''a'', VNull), (''b'', VNumber ''1'')]]"
  let ?t = "TObject [(''a'', TNull), (''b'', TNumber ''1'')]"
  have s: "sort [''b'', ''a''] = [''a'', ''b'']" "sort [''a'', ''b''] = [''a'', ''b'']" by code_simp+
  have "unfolds ?h (VRef 0) (TObject (zip (sort (map fst [(''b'', VNumber ''1''), (''a'', VNull)])) [TNull, TNumber ''1'']))"
    by (rule unfolds.object) (simp_all add: s property_def)
  then have u: "unfolds ?h (VRef 0) ?t" by (simp add: s)
  have "unfolds ?h' (VRef 0) (TObject (zip (sort (map fst [(''a'', VNull), (''b'', VNumber ''1'')])) [TNull, TNumber ''1'']))"
    by (rule unfolds.object) (simp_all add: s property_def)
  then have u': "unfolds ?h' (VRef 0) ?t" by (simp add: s)
  have ok: "config_ok ?h (VRef 0)" "config_ok ?h' (VRef 0)" by (simp_all add: config_ok_def number_literal_def number_chars_def)
  show ?thesis using generation_tracks_config[OF reachable_co.start ok u u', of id 0 0 0 0] by auto
qed

end
