(* ===== verification/Browser_Crypto.thy ===== *)
theory Browser_Crypto
  imports Chacha Canonical Pop_Challenge
begin

text \<open>
  The browser's end-to-end encryption (\<^verbatim>\<open>src/packages/client/src/e2e-crypto-browser.ts\<close>): base64url, the
  unwrapping of the conversation key and the message envelopes, over the cipher of \<^verbatim>\<open>Chacha\<close>.

  \<^verbatim>\<open>btoa\<close> and \<^verbatim>\<open>atob\<close> are written out after the standard.  X25519 and HKDF of Web Crypto, \<^verbatim>\<open>TextDecoder\<close> and
  \<^verbatim>\<open>JSON.parse\<close> are parameters, the fields of a platform record; random octets and the clock are arguments.  The envelope a
  payload parses to is an untyped value, as in the code.
\<close>

type_synonym byte = "8 word"

section \<open>base64url\<close>

definition b64_char :: "nat \<Rightarrow> char" where
  "b64_char n = (if n < 26 then char_of (65 + n) else if n < 52 then char_of (71 + n) else if n < 62 then char_of (n - 4)
     else if n = 62 then CHR ''+'' else CHR ''/'')"

definition b64_value :: "char \<Rightarrow> nat option" where
  "b64_value c = (let n = of_char c :: nat in
     if 65 \<le> n \<and> n \<le> 90 then Some (n - 65) else if 97 \<le> n \<and> n \<le> 122 then Some (n - 71) else if 48 \<le> n \<and> n \<le> 57 then Some (n + 4)
     else if c = CHR ''+'' then Some 62 else if c = CHR ''/'' then Some 63 else None)"

fun sextets :: "nat list \<Rightarrow> nat list" where
  "sextets [] = []"
| "sextets [a] = [a div 4, a mod 4 * 16]"
| "sextets [a, b] = [a div 4, a mod 4 * 16 + b div 16, b mod 16 * 4]"
| "sextets (a # b # c # rest) = [a div 4, a mod 4 * 16 + b div 16, b mod 16 * 4 + c div 64, c mod 64] @ sextets rest"

definition btoa :: "nat list \<Rightarrow> string" where
  "btoa bs = map b64_char (sextets bs) @ replicate ((3 - length bs mod 3) mod 3) (CHR ''='')"

fun octets_of :: "nat list \<Rightarrow> nat list" where
  "octets_of (a # b # c # d # rest) = [a * 4 + b div 16, b mod 16 * 16 + c div 4, c mod 4 * 64 + d] @ octets_of rest"
| "octets_of [a, b, c] = [a * 4 + b div 16, b mod 16 * 16 + c div 4]"
| "octets_of [a, b] = [a * 4 + b div 16]"
| "octets_of _ = []"

definition ascii_whitespace :: "char \<Rightarrow> bool" where
  "ascii_whitespace c \<longleftrightarrow> c = CHR 0x09 \<or> c = CHR 0x0A \<or> c = CHR 0x0C \<or> c = CHR 0x0D \<or> c = CHR '' ''"

definition strip_padding :: "string \<Rightarrow> string" where
  "strip_padding s =
     (if length s mod 4 \<noteq> 0 then s
      else case rev s of
        c # d # r \<Rightarrow> if c = CHR ''='' then (if d = CHR ''='' then rev r else rev (d # r)) else s
      | _ \<Rightarrow> s)"

definition atob :: "string \<Rightarrow> nat list option" where
  "atob s =
     (let t = strip_padding (filter (\<lambda>c. \<not> ascii_whitespace c) s) in
      if length t mod 4 = 1 then None
      else map_option octets_of (those (map b64_value t)))"

definition base64urlEncode :: "byte list \<Rightarrow> string" where
  "base64urlEncode bytes =
     filter (\<lambda>c. c \<noteq> CHR ''='') (map (\<lambda>c. if c = CHR ''/'' then CHR ''_'' else c) (map (\<lambda>c. if c = CHR ''+'' then CHR ''-'' else c) (btoa (map unat bytes))))"

definition base64urlDecode :: "string \<Rightarrow> byte list option" where
  "base64urlDecode b64url =
     (let b64 = map (\<lambda>c. if c = CHR ''_'' then CHR ''/'' else c) (map (\<lambda>c. if c = CHR ''-'' then CHR ''+'' else c) b64url);
          padded = b64 @ replicate ((4 - length b64 mod 4) mod 4) (CHR ''='')
      in map_option (map word_of_nat) (atob padded))"

section \<open>The conversation key\<close>

definition KEY_WRAP_INFO :: string where
  "KEY_WRAP_INFO = ''webchannel-key-wrap-v1''"

text \<open>The platform: \<open>bp_x25519\<close> imports the public key and derives the bits, or throws.\<close>

record 'sk browser_platform =
  bp_x25519 :: "'sk \<Rightarrow> string \<Rightarrow> byte list option"
  bp_hkdf :: "byte list \<Rightarrow> string \<Rightarrow> byte list"
  bp_textDecode :: "byte list \<Rightarrow> string"
  bp_parse :: "string \<Rightarrow> json option"

datatype unwrap_error = NotBase64 | IdentityMismatch | NoSharedSecret | CipherError aead_error

definition textEncode :: "string \<Rightarrow> byte list" where
  "textEncode s = map word_of_nat (utf8 s)"

definition octets_to_bytes :: "nat list \<Rightarrow> byte list" where
  "octets_to_bytes = map word_of_nat"

definition unwrapConversationKey :: "'sk browser_platform \<Rightarrow> wrapped_key \<Rightarrow> 'sk \<Rightarrow> string \<Rightarrow> string \<Rightarrow> string \<Rightarrow> unwrap_error + byte list" where
  "unwrapConversationKey bp wrapped devicePrivateKey agentPublicKeyB64url peerId clientNonce =
     (case (base64urlDecode (wk_ephemeralPublicKey wrapped), base64urlDecode agentPublicKeyB64url) of
        (Some wireAgentKey, Some pinnedAgentKey) \<Rightarrow>
          if wireAgentKey \<noteq> pinnedAgentKey then Inl IdentityMismatch
          else (case bp_x25519 bp devicePrivateKey agentPublicKeyB64url of
              None \<Rightarrow> Inl NoSharedSecret
            | Some rawSecret \<Rightarrow>
                let wrapKey = bp_hkdf bp rawSecret KEY_WRAP_INFO in
                (case (base64urlDecode (wk_nonce wrapped), base64urlDecode (wk_ciphertext wrapped), base64urlDecode (wk_tag wrapped)) of
                   (Some nonce, Some ciphertext, Some tag) \<Rightarrow>
                     (case chacha20poly1305Decrypt wrapKey nonce ciphertext tag (octets_to_bytes (wrapAad peerId clientNonce)) of
                        Inl e \<Rightarrow> Inl (CipherError e) | Inr k \<Rightarrow> Inr k)
                 | _ \<Rightarrow> Inl NotBase64))
      | _ \<Rightarrow> Inl NotBase64)"

section \<open>Envelopes\<close>

record routing =
  er_accountId :: string
  er_tenant :: string
  er_sub :: string
  er_messageId :: string
  er_envelopeType :: string
  er_ts :: int

record content_block =
  cb_nonce :: string
  cb_ciphertext :: string
  cb_tag :: string

definition canonicalAad :: "routing \<Rightarrow> byte list" where
  "canonicalAad r = textEncode (stringify (JObj [(''tenant'', JStr (er_tenant r)), (''accountId'', JStr (er_accountId r)), (''sub'', JStr (er_sub r)),
     (''messageId'', JStr (er_messageId r)), (''envelopeType'', JStr (er_envelopeType r)), (''ts'', JNum (er_ts r))]))"

definition envelope_json :: "routing \<Rightarrow> content_block \<Rightarrow> json" where
  "envelope_json r c = JObj [(''v'', JNum 1), (''accountId'', JStr (er_accountId r)), (''tenant'', JStr (er_tenant r)), (''sub'', JStr (er_sub r)),
     (''messageId'', JStr (er_messageId r)), (''envelopeType'', JStr (er_envelopeType r)), (''ts'', JNum (er_ts r)),
     (''content'', JObj [(''nonce'', JStr (cb_nonce c)), (''ciphertext'', JStr (cb_ciphertext c)), (''tag'', JStr (cb_tag c))])]"

definition encodeEnvelope :: "routing \<Rightarrow> string \<Rightarrow> byte list \<Rightarrow> byte list \<Rightarrow> json option" where
  "encodeEnvelope r plaintext sessionKey nonce =
     (case chacha20poly1305Encrypt sessionKey nonce (textEncode plaintext) (canonicalAad r) of
        None \<Rightarrow> None
      | Some (ciphertext, tag) \<Rightarrow>
          Some (envelope_json r \<lparr>cb_nonce = base64urlEncode nonce, cb_ciphertext = base64urlEncode ciphertext, cb_tag = base64urlEncode tag\<rparr>))"

text \<open>A field that is \<^verbatim>\<open>undefined\<close> is left out by \<^verbatim>\<open>JSON.stringify\<close>.\<close>

definition aad_of_fields :: "json \<Rightarrow> byte list" where
  "aad_of_fields env = textEncode (stringify (JObj (concat (map (\<lambda>k. case json_field k env of Some v \<Rightarrow> [(k, v)] | None \<Rightarrow> [])
     [''tenant'', ''accountId'', ''sub'', ''messageId'', ''envelopeType'', ''ts'']))))"

text \<open>Decoding a field that is no string throws, as a bad character does.\<close>

definition decode_field :: "string \<Rightarrow> json \<Rightarrow> byte list option" where
  "decode_field k c = (case json_field k c of Some (JStr s) \<Rightarrow> base64urlDecode s | _ \<Rightarrow> None)"

definition decodeEnvelope :: "'sk browser_platform \<Rightarrow> json \<Rightarrow> json \<Rightarrow> byte list \<Rightarrow> string option" where
  "decodeEnvelope bp env content sessionKey =
     (case (decode_field ''nonce'' content, decode_field ''ciphertext'' content, decode_field ''tag'' content) of
        (Some nonce, Some ciphertext, Some tag) \<Rightarrow>
          (case chacha20poly1305Decrypt sessionKey nonce ciphertext tag (aad_of_fields env) of
             Inr plaintext \<Rightarrow> Some (bp_textDecode bp plaintext)
           | Inl _ \<Rightarrow> None)
      | _ \<Rightarrow> None)"

record session_routing =
  sr_accountId :: string
  sr_tenant :: string
  sr_sub :: string

definition hex_id :: "byte list \<Rightarrow> string" where
  "hex_id bytes = concat (map (\<lambda>b. [hex_char (unat b div 16), hex_char (unat b mod 16)]) bytes)"

text \<open>\<open>ident\<close> are the eight random octets of the message id.\<close>

definition full_routing :: "session_routing \<Rightarrow> string \<Rightarrow> byte list \<Rightarrow> int \<Rightarrow> routing" where
  "full_routing s envelopeType ident now = \<lparr>er_accountId = sr_accountId s, er_tenant = sr_tenant s, er_sub = sr_sub s,
     er_messageId = hex_id ident, er_envelopeType = envelopeType, er_ts = now\<rparr>"

definition sealMessage :: "session_routing \<Rightarrow> byte list \<Rightarrow> json \<Rightarrow> string \<Rightarrow> byte list \<Rightarrow> int \<Rightarrow> byte list \<Rightarrow> string option" where
  "sealMessage s sessionKey message envelopeType ident now nonce =
     map_option stringify (encodeEnvelope (full_routing s envelopeType ident now) (stringify message) sessionKey nonce)"

text \<open>\<^verbatim>\<open>null\<close>, the sign to drop the frame, is \<open>JNull\<close>.\<close>

definition openMessage :: "'sk browser_platform \<Rightarrow> string \<Rightarrow> byte list \<Rightarrow> json" where
  "openMessage bp payload sessionKey =
     (case bp_parse bp payload of
        None \<Rightarrow> JNull
      | Some env \<Rightarrow>
          if json_field ''v'' env \<noteq> Some (JNum 1) then JNull
          else (case json_field ''content'' env of
              None \<Rightarrow> JNull
            | Some content \<Rightarrow>
                (case decodeEnvelope bp env content sessionKey of
                   None \<Rightarrow> JNull
                 | Some text \<Rightarrow> (case bp_parse bp text of Some m \<Rightarrow> m | None \<Rightarrow> JNull))))"

section \<open>base64url round trip\<close>

lemma char_of_eq: "(n :: nat) < 256 \<Longrightarrow> char_of n = (c :: char) \<longleftrightarrow> n = of_char c"
proof
  assume n: "n < 256" "char_of n = c"
  then have "of_char c = n mod 256" by (metis of_char_of)
  then show "n = of_char c" using n(1) by simp
qed simp

lemma unat_byte: "unat (b :: byte) < 256"
  using unsigned_less[of b, where 'a = nat] by simp

lemma b64_value_char: "n < 64 \<Longrightarrow> b64_value (b64_char n) = Some n"
  by (auto simp: b64_value_def b64_char_def Let_def char_of_eq)

text \<open>What the two passes over the alphabet make of a sextet.\<close>

definition url_char :: "nat \<Rightarrow> char" where
  "url_char n = (if n = 62 then CHR ''-'' else if n = 63 then CHR ''_'' else b64_char n)"

lemma b64_char_plain:
  assumes "n < 62"
  shows "token_char (b64_char n)" "b64_char n \<notin> {CHR ''='', CHR ''+'', CHR ''/'', CHR ''-'', CHR ''_''}" "\<not> ascii_whitespace (b64_char n)"
  using assms by (auto simp: b64_char_def char_of_eq token_char_def ascii_whitespace_def Let_def)

lemma url_char_table:
  assumes "n < 64"
  shows "token_char (url_char n)" "url_char n \<noteq> CHR ''=''" "\<not> ascii_whitespace (b64_char n)" "b64_char n \<noteq> CHR ''=''"
    "(if (if b64_char n = CHR ''+'' then CHR ''-'' else b64_char n) = CHR ''/'' then CHR ''_'' else (if b64_char n = CHR ''+'' then CHR ''-'' else b64_char n)) = url_char n"
    "(if (if url_char n = CHR ''-'' then CHR ''+'' else url_char n) = CHR ''_'' then CHR ''/'' else (if url_char n = CHR ''-'' then CHR ''+'' else url_char n)) = b64_char n"
proof -
  consider "n < 62" | "n = 62" | "n = 63" using assms by linarith
  then have "token_char (url_char n) \<and> url_char n \<noteq> CHR ''='' \<and> \<not> ascii_whitespace (b64_char n) \<and> b64_char n \<noteq> CHR ''='' \<and>
    (if (if b64_char n = CHR ''+'' then CHR ''-'' else b64_char n) = CHR ''/'' then CHR ''_'' else (if b64_char n = CHR ''+'' then CHR ''-'' else b64_char n)) = url_char n \<and>
    (if (if url_char n = CHR ''-'' then CHR ''+'' else url_char n) = CHR ''_'' then CHR ''/'' else (if url_char n = CHR ''-'' then CHR ''+'' else url_char n)) = b64_char n"
  proof cases
    case 1
    then show ?thesis using b64_char_plain[OF 1] by (simp add: url_char_def)
  qed (simp_all add: url_char_def b64_char_def token_char_def ascii_whitespace_def Let_def)
  then show "token_char (url_char n)" "url_char n \<noteq> CHR ''=''" "\<not> ascii_whitespace (b64_char n)" "b64_char n \<noteq> CHR ''=''"
    "(if (if b64_char n = CHR ''+'' then CHR ''-'' else b64_char n) = CHR ''/'' then CHR ''_'' else (if b64_char n = CHR ''+'' then CHR ''-'' else b64_char n)) = url_char n"
    "(if (if url_char n = CHR ''-'' then CHR ''+'' else url_char n) = CHR ''_'' then CHR ''/'' else (if url_char n = CHR ''-'' then CHR ''+'' else url_char n)) = b64_char n"
    by blast+
qed

lemma sextets_bound: "list_all (\<lambda>b. b < 256) bs \<Longrightarrow> list_all (\<lambda>n. n < 64) (sextets bs)"
proof (induction bs rule: sextets.induct)
  case (4 a b c rest)
  have "b div 16 < 16" "a mod 4 * 16 \<le> 48" "b mod 16 * 4 \<le> 60" "c div 64 < 4" using "4.prems" by (auto simp: less_mult_imp_div_less)
  then show ?case using 4 by (auto simp: less_mult_imp_div_less)
qed (auto simp: less_mult_imp_div_less, (metis)?)

lemma octets_sextets: "list_all (\<lambda>b. b < 256) bs \<Longrightarrow> octets_of (sextets bs) = bs"
  by (induction bs rule: sextets.induct) auto

lemma length_sextets: "length (sextets bs) = (4 * length bs + 2) div 3"
  by (induction bs rule: sextets.induct) auto

lemma unat_sextets: "list_all (\<lambda>n. n < 64) (sextets (map unat (bytes :: byte list)))"
  by (rule sextets_bound) (simp add: list_all_iff unat_byte)

lemma to_url: "list_all (\<lambda>n. n < 64) xs \<Longrightarrow>
   filter (\<lambda>c. c \<noteq> CHR ''='') (map (\<lambda>c. if c = CHR ''/'' then CHR ''_'' else c) (map (\<lambda>c. if c = CHR ''+'' then CHR ''-'' else c) (map b64_char xs))) = map url_char xs"
  by (induction xs) (simp_all add: url_char_table)

lemma from_url: "list_all (\<lambda>n. n < 64) xs \<Longrightarrow>
   map (\<lambda>c. if c = CHR ''_'' then CHR ''/'' else c) (map (\<lambda>c. if c = CHR ''-'' then CHR ''+'' else c) (map url_char xs)) = map b64_char xs"
  by (induction xs) (simp_all add: url_char_table)

lemma encode_sextets: "base64urlEncode bytes = map url_char (sextets (map unat bytes))"
  using to_url[OF unat_sextets[of bytes]] by (simp add: base64urlEncode_def btoa_def)

lemma values_of_chars: "list_all (\<lambda>n. n < 64) xs \<Longrightarrow> those (map b64_value (map b64_char xs)) = Some xs"
  by (induction xs) (simp_all add: b64_value_char)

lemma no_whitespace: "list_all (\<lambda>n. n < 64) xs \<Longrightarrow> filter (\<lambda>c. \<not> ascii_whitespace c) (map b64_char xs @ replicate k (CHR ''='')) = map b64_char xs @ replicate k (CHR ''='')"
proof -
  assume xs: "list_all (\<lambda>n. n < 64) xs"
  have "\<not> ascii_whitespace (CHR ''='')" by (simp add: ascii_whitespace_def)
  then show ?thesis using xs by (auto simp: filter_id_conv list_all_iff url_char_table)
qed

lemma strip_equals:
  assumes "c \<noteq> CHR ''=''" "(length zs + 1 + k) mod 4 = 0" "k \<le> 2"
  shows "strip_padding (zs @ c # replicate k (CHR ''='')) = zs @ [c]"
proof -
  consider "k = 0" | "k = 1" | "k = 2" using assms(3) by linarith
  then show ?thesis
  proof cases
    case 1
    then show ?thesis using assms(1) by (cases zs rule: rev_cases) (simp_all add: strip_padding_def)
  next
    case 2
    then show ?thesis using assms by (simp add: strip_padding_def)
  next
    case 3
    then have "zs @ c # replicate k (CHR ''='') = (zs @ [c]) @ [CHR ''='', CHR ''='']" by (simp add: numeral_2_eq_2)
    then show ?thesis using assms 3 by (simp add: strip_padding_def)
  qed
qed

lemma pad_four: "((m :: nat) + (4 - m mod 4) mod 4) mod 4 = 0" "m mod 4 \<noteq> 1 \<Longrightarrow> (4 - m mod 4) mod 4 \<le> 2"
proof -
  have "m mod 4 < 4" by simp
  then have four: "m mod 4 = 0 \<or> m mod 4 = 1 \<or> m mod 4 = 2 \<or> m mod 4 = 3" by linarith
  have "(m + (4 - m mod 4) mod 4) mod 4 = (m mod 4 + (4 - m mod 4) mod 4) mod 4" by (rule mod_add_left_eq[symmetric])
  also have "\<dots> = 0" using four by (elim disjE) simp_all
  finally show "(m + (4 - m mod 4) mod 4) mod 4 = 0" .
  show "(4 - m mod 4) mod 4 \<le> 2" if "m mod 4 \<noteq> 1" using four that by (elim disjE) simp_all
qed

lemma strip_own_padding:
  assumes "list_all (\<lambda>n. n < 64) xs" "length xs mod 4 \<noteq> 1"
  shows "strip_padding (map b64_char xs @ replicate ((4 - length xs mod 4) mod 4) (CHR ''='')) = map b64_char xs"
proof (cases "xs = []")
  case False
  then obtain ys y where xs: "xs = ys @ [y]" by (cases xs rule: rev_cases) auto
  have y: "b64_char y \<noteq> CHR ''=''" using assms(1) xs by (simp add: url_char_table)
  have "(length (map b64_char ys) + 1 + (4 - length xs mod 4) mod 4) mod 4 = 0" using pad_four(1)[of "length xs"] xs by simp
  from strip_equals[OF y this pad_four(2)[OF assms(2)]] show ?thesis by (simp add: xs)
qed (simp add: strip_padding_def)

lemma sextets_mod: "length (sextets bs) mod 4 \<noteq> 1"
  by (induction bs rule: sextets.induct) auto

lemma decode_encode: "base64urlDecode (base64urlEncode bytes) = Some bytes"
proof -
  let ?xs = "sextets (map unat bytes)"
  have "octets_of ?xs = map unat bytes" by (rule octets_sextets) (simp add: list_all_iff unat_byte)
  then show ?thesis unfolding base64urlDecode_def Let_def encode_sextets from_url[OF unat_sextets] length_map atob_def
      no_whitespace[OF unat_sextets] strip_own_padding[OF unat_sextets sextets_mod] values_of_chars[OF unat_sextets]
    using sextets_mod[of "map unat bytes"] by (simp add: comp_def)
qed

lemma encode_tokens: "list_all token_char (base64urlEncode bytes)" "length (base64urlEncode bytes) = (4 * length bytes + 2) div 3"
  using unat_sextets[of bytes] by (auto simp: encode_sextets list_all_iff url_char_table length_sextets)

section \<open>UTF-8\<close>

text \<open>Reading back what the encoder makes of code units below 256.\<close>

fun utf8_decode :: "nat list \<Rightarrow> string" where
  "utf8_decode [] = []"
| "utf8_decode (b # bs) = (if b < 128 then char_of b # utf8_decode bs
     else case bs of c # cs \<Rightarrow> char_of ((b - 192) * 64 + (c - 128)) # utf8_decode cs | [] \<Rightarrow> [])"

lemma utf8_decode_char: "utf8_decode (utf8_char c @ bs) = c # utf8_decode bs"
proof -
  have "(of_char c :: nat) < 256" by simp
  then have "(of_char c :: nat) div 64 * 64 + of_char c mod 64 = of_char c" by simp
  then show ?thesis by (auto simp: utf8_char_def Let_def)
qed

lemma utf8_decode_utf8: "utf8_decode (utf8 s) = s"
  by (induction s) (simp_all add: utf8_def utf8_decode_char)

lemma utf8_bound: "list_all (\<lambda>b. b < 256) (utf8 s)"
proof (induction s)
  case (Cons c s)
  have "(of_char c :: nat) div 64 < 4" by (simp add: less_mult_imp_div_less)
  then have "list_all (\<lambda>b. b < 256) (utf8_char c)" by (auto simp: utf8_char_def Let_def)
  then show ?case using Cons by (simp add: utf8_def)
qed (simp add: utf8_def)

lemma unat_of_bytes: "list_all (\<lambda>b. b < 256) bs \<Longrightarrow> map unat (map word_of_nat bs :: byte list) = bs"
  by (induction bs) (simp_all add: unat_of_nat)

definition textDecode :: "byte list \<Rightarrow> string" where
  "textDecode bs = utf8_decode (map unat bs)"

lemma text_round_trip: "textDecode (textEncode s) = s"
  unfolding textDecode_def textEncode_def unat_of_bytes[OF utf8_bound] by (rule utf8_decode_utf8)

lemma textEncode_inject: "textEncode s = textEncode s' \<longleftrightarrow> s = s'"
  by (metis text_round_trip)

section \<open>Canonical associated data\<close>

lemma show_int_inject: "show_int i = show_int j \<longleftrightarrow> i = j"
proof -
  have minus: "CHR ''-'' \<notin> set (show_nat n)" for n 
  proof
    assume "CHR ''-'' \<in> set (show_nat n)"
    then obtain d where "d < 10" "CHR ''-'' = digit_char d" using show_nat_digits by blast
    then have "char_of (48 + d) = CHR ''-''" by (metis digit_char_def)
    then have "48 + d = (of_char (CHR ''-'') :: nat)" using \<open>d < 10\<close> by (subst char_of_eq[symmetric]) simp_all
    then show False by simp
  qed
  have "CHR ''-'' # xs \<noteq> show_nat n" for xs n using minus[of n] by (metis list.set_intros(1))
  then show ?thesis by (auto simp: show_int_def eq_nat_nat_iff split: if_splits dest: sym dest!: show_nat_inj)
qed

lemma canonical_fields:
  assumes "canonicalAad r = canonicalAad r'"
  shows "r = r'"
proof -
  have "''{'' @ quote ''tenant'' @ '':'' @ quote (er_tenant r) @ '','' @ quote ''accountId'' @ '':'' @ quote (er_accountId r) @ '','' @ quote ''sub'' @ '':'' @ quote (er_sub r) @ '','' @
      quote ''messageId'' @ '':'' @ quote (er_messageId r) @ '','' @ quote ''envelopeType'' @ '':'' @ quote (er_envelopeType r) @ '','' @ quote ''ts'' @ '':'' @ show_int (er_ts r) @ ''}'' =
    ''{'' @ quote ''tenant'' @ '':'' @ quote (er_tenant r') @ '','' @ quote ''accountId'' @ '':'' @ quote (er_accountId r') @ '','' @ quote ''sub'' @ '':'' @ quote (er_sub r') @ '','' @
      quote ''messageId'' @ '':'' @ quote (er_messageId r') @ '','' @ quote ''envelopeType'' @ '':'' @ quote (er_envelopeType r') @ '','' @ quote ''ts'' @ '':'' @ show_int (er_ts r') @ ''}''"
    using assms unfolding canonicalAad_def textEncode_inject by simp
  then have "er_tenant r = er_tenant r' \<and> er_accountId r = er_accountId r' \<and> er_sub r = er_sub r' \<and> er_messageId r = er_messageId r' \<and>
      er_envelopeType r = er_envelopeType r' \<and> show_int (er_ts r) = show_int (er_ts r')"
    unfolding same_append_eq by (auto dest!: quote_inject)
  then show ?thesis by (simp add: show_int_inject)
qed

section \<open>Opening what was sealed\<close>

text \<open>\<open>parse\<close> reads the rendering of a value back.\<close>

definition reads :: "(string \<Rightarrow> json option) \<Rightarrow> json \<Rightarrow> bool" where
  "reads parse j \<longleftrightarrow> parse (stringify j) = Some j"

lemma envelope_fields:
  "json_field ''v'' (envelope_json r c) = Some (JNum 1)"
  "json_field ''content'' (envelope_json r c) = Some (JObj [(''nonce'', JStr (cb_nonce c)), (''ciphertext'', JStr (cb_ciphertext c)), (''tag'', JStr (cb_tag c))])"
  "aad_of_fields (envelope_json r c) = canonicalAad r"
  by (simp_all add: envelope_json_def aad_of_fields_def canonicalAad_def)

lemma open_envelope_json:
  assumes "bp_parse bp payload = Some (envelope_json r \<lparr>cb_nonce = base64urlEncode nonce, cb_ciphertext = base64urlEncode ct, cb_tag = base64urlEncode tag\<rparr>)"
    and "chacha20poly1305Decrypt key nonce ct tag (canonicalAad r) = Inr (textEncode (stringify m))"
    and "bp_textDecode bp (textEncode (stringify m)) = stringify m" "reads (bp_parse bp) m"
  shows "openMessage bp payload key = m"
proof -
  have "decodeEnvelope bp (envelope_json r \<lparr>cb_nonce = base64urlEncode nonce, cb_ciphertext = base64urlEncode ct, cb_tag = base64urlEncode tag\<rparr>)
      (JObj [(''nonce'', JStr (base64urlEncode nonce)), (''ciphertext'', JStr (base64urlEncode ct)), (''tag'', JStr (base64urlEncode tag))]) key = Some (stringify m)"
    using assms(2,3) by (simp add: decodeEnvelope_def decode_field_def decode_encode envelope_fields)
  then show ?thesis using assms(1,4) by (simp add: openMessage_def envelope_fields reads_def)
qed

lemma encode_envelope_value:
  assumes "length key = 32" "length nonce = 12"
  obtains ct tag where "encodeEnvelope r text key nonce = Some (envelope_json r \<lparr>cb_nonce = base64urlEncode nonce, cb_ciphertext = base64urlEncode ct, cb_tag = base64urlEncode tag\<rparr>)"
    "chacha20poly1305Encrypt key nonce (textEncode text) (canonicalAad r) = Some (ct, tag)"
    "chacha20poly1305Decrypt key nonce ct tag (canonicalAad r) = Inr (textEncode text)" "length tag = 16" "length ct = length (textEncode text)"
  using aead_opens[of key nonce "textEncode text" "canonicalAad r"] assms by (force simp: encodeEnvelope_def)

section \<open>Properties\<close>

text \<open>
  base64url is exact.  Decoding an encoding gives the octets back, for every length; the encoding has no padding,
  its length is four thirds of that of the octets, rounded up, and it uses the characters of a token only, so the client nonce of a registration, 16 to 96 random octets,
  passes the validation of the agent.
\<close>

theorem base64url_round_trip:
  "base64urlDecode (base64urlEncode bytes) = Some bytes \<and> length (base64urlEncode bytes) = (4 * length bytes + 2) div 3 \<and>
   list_all token_char (base64urlEncode bytes) \<and> (16 \<le> length bytes \<and> length bytes \<le> 96 \<longrightarrow> isValidClientNonce (base64urlEncode bytes))"
proof -
  have "22 \<le> (4 * n + 2) div 3 \<and> (4 * n + 2) div 3 \<le> 128" if "16 \<le> n" "n \<le> 96" for n :: nat using that by linarith
  then show ?thesis using decode_encode[of bytes] encode_tokens[of bytes]
    by (simp add: isValidClientNonce_def CLIENT_NONCE_MIN_LENGTH_def CLIENT_NONCE_MAX_LENGTH_def)
qed

theorem base64url_round_trip_witness: "isValidClientNonce (base64urlEncode (replicate 32 7))"
  using base64url_round_trip[of "replicate 32 7"] by simp

text \<open>
  An accepted frame is authentic in all its parts.  When the browser opens a frame to a message, the frame is a version 1 envelope
  whose tag is the Poly1305 tag, under the one-time key of its nonce, of the associated data of its routing and of its ciphertext; these
  octets determine routing and ciphertext, so no other routing and no other ciphertext has the same input to the tag.
\<close>

theorem opened_frame_authentic:
  assumes "openMessage bp payload key \<noteq> JNull"
  shows "\<exists>env content nonce ct tag block. bp_parse bp payload = Some env \<and> json_field ''v'' env = Some (JNum 1) \<and> json_field ''content'' env = Some content \<and>
    decode_field ''nonce'' content = Some nonce \<and> decode_field ''ciphertext'' content = Some ct \<and> decode_field ''tag'' content = Some tag \<and>
    chacha20Block key 0 nonce = Some block \<and> tag = poly1305 (take 32 block) (buildMacInput (aad_of_fields env) ct) \<and>
    (\<forall>r c r' ct'. env = envelope_json r c \<longrightarrow> length (canonicalAad r) < 2 ^ 64 \<longrightarrow> length (canonicalAad r') < 2 ^ 64 \<longrightarrow> length ct < 2 ^ 64 \<longrightarrow> length ct' < 2 ^ 64 \<longrightarrow>
       buildMacInput (canonicalAad r') ct' = buildMacInput (aad_of_fields env) ct \<longrightarrow> r' = r \<and> ct' = ct)"
proof -
  obtain env content where env: "bp_parse bp payload = Some env" "json_field ''v'' env = Some (JNum 1)" "json_field ''content'' env = Some content" "decodeEnvelope bp env content key \<noteq> None"
    using assms by (auto simp: openMessage_def split: option.splits if_splits)
  obtain nonce ct tag p where parts: "decode_field ''nonce'' content = Some nonce" "decode_field ''ciphertext'' content = Some ct" "decode_field ''tag'' content = Some tag"
    "chacha20poly1305Decrypt key nonce ct tag (aad_of_fields env) = Inr p"
    using env(4) by (auto simp: decodeEnvelope_def split: option.splits sum.splits)
  obtain block where "chacha20Block key 0 nonce = Some block" "tag = poly1305 (take 32 block) (buildMacInput (aad_of_fields env) ct)"
    using parts(4) by (auto simp: chacha20poly1305Decrypt_def timingSafeEqual_iff split: option.splits if_splits)
  moreover have "r' = r \<and> ct' = ct" if "env = envelope_json r c" "length (canonicalAad r) < 2 ^ 64" "length (canonicalAad r') < 2 ^ 64" "length ct < 2 ^ 64" "length ct' < 2 ^ 64"
    "buildMacInput (canonicalAad r') ct' = buildMacInput (aad_of_fields env) ct" for r c r' ct'
    using mac_input_injective[of "canonicalAad r'" ct' "canonicalAad r" ct] canonical_fields[of r' r] that by (simp add: envelope_fields)
  ultimately show ?thesis using env(1-3) parts(1-3) by blast
qed

end
