(* ===== verification/Agent_Crypto.thy ===== *)
theory Agent_Crypto
  imports Browser_Crypto
begin

text \<open>
  The agent's side of the end-to-end encryption: the envelope codec
  (\<^verbatim>\<open>src/packages/plugin/src/e2e-envelope.ts\<close>, \<^verbatim>\<open>e2e-session.ts\<close>), the wrapping of conversation keys and the decryption of
  a backlog (\<^verbatim>\<open>late-join-decryptor.ts\<close>), and the calls of \<^verbatim>\<open>e2e-crypto.ts\<close> into Node.

  Node's cipher, key agreement, key derivation and decoders are the fields of a platform record; \<^verbatim>\<open>toString("base64url")\<close> is the
  encoding without padding that the browser computes too.  Frames are given as text.  An envelope is its routing
  and its content block.
\<close>

section \<open>Node's cryptography\<close>

record node_platform =
  np_x25519 :: "byte list \<Rightarrow> byte list \<Rightarrow> byte list option"
  np_hkdf :: "byte list \<Rightarrow> string \<Rightarrow> byte list"
  np_seal :: "byte list \<Rightarrow> byte list \<Rightarrow> byte list \<Rightarrow> byte list \<Rightarrow> (byte list \<times> byte list) option"
  np_open :: "byte list \<Rightarrow> byte list \<Rightarrow> byte list \<Rightarrow> byte list \<Rightarrow> byte list \<Rightarrow> byte list option"
  np_base64url :: "string \<Rightarrow> byte list"
  np_toString :: "byte list \<Rightarrow> string"
  np_parse :: "string \<Rightarrow> json option"

record key_pair =
  kp_publicKey :: "byte list"
  kp_privateKey :: "byte list"

text \<open>Without associated data the cipher authenticates none.\<close>

definition encrypt :: "node_platform \<Rightarrow> byte list \<Rightarrow> byte list \<Rightarrow> byte list option \<Rightarrow> byte list \<Rightarrow> (byte list \<times> byte list \<times> byte list) option" where
  "encrypt np key plaintext aad nonce =
     (case np_seal np key nonce plaintext (case aad of Some a \<Rightarrow> a | None \<Rightarrow> []) of
        Some (ciphertext, tag) \<Rightarrow> Some (ciphertext, nonce, tag) | None \<Rightarrow> None)"

definition decrypt :: "node_platform \<Rightarrow> byte list \<Rightarrow> byte list \<Rightarrow> byte list \<Rightarrow> byte list \<Rightarrow> byte list option \<Rightarrow> byte list option" where
  "decrypt np key nonce ciphertext tag aad = np_open np key nonce ciphertext tag (case aad of Some a \<Rightarrow> a | None \<Rightarrow> [])"

section \<open>Envelopes\<close>

definition ENVELOPE_VERSION :: int where "ENVELOPE_VERSION = 1"

record message_envelope =
  me_routing :: routing
  me_content :: content_block

datatype envelope_error = InvalidJson | NotAnObject | UnsupportedVersion | MissingField string | BadTimestamp | BadContent | BadContentField string

definition agent_encodeEnvelope :: "node_platform \<Rightarrow> routing \<Rightarrow> byte list \<Rightarrow> byte list \<Rightarrow> byte list option \<Rightarrow> byte list \<Rightarrow> message_envelope option" where
  "agent_encodeEnvelope np r plaintext key aad nonce =
     (case encrypt np key plaintext aad nonce of
        Some (ciphertext, nonce', tag) \<Rightarrow> Some \<lparr>me_routing = r, me_content = \<lparr>cb_nonce = base64urlEncode nonce', cb_ciphertext = base64urlEncode ciphertext, cb_tag = base64urlEncode tag\<rparr>\<rparr>
      | None \<Rightarrow> None)"

definition decryptEnvelopeContent :: "node_platform \<Rightarrow> message_envelope \<Rightarrow> byte list \<Rightarrow> byte list option \<Rightarrow> byte list option" where
  "decryptEnvelopeContent np env key aad =
     decrypt np key (np_base64url np (cb_nonce (me_content env))) (np_base64url np (cb_ciphertext (me_content env))) (np_base64url np (cb_tag (me_content env))) aad"

definition serializeEnvelope :: "message_envelope \<Rightarrow> string" where
  "serializeEnvelope env = stringify (envelope_json (me_routing env) (me_content env))"

fun nonempty_string :: "json option \<Rightarrow> string option" where
  "nonempty_string (Some (JStr s)) = (if s = [] then None else Some s)"
| "nonempty_string _ = None"

definition first_bad_field :: "json \<Rightarrow> string list \<Rightarrow> string option" where
  "first_bad_field j ks = List.find (\<lambda>k. nonempty_string (json_field k j) = None) ks"

definition string_field :: "string \<Rightarrow> json \<Rightarrow> string" where
  "string_field k j = (case json_field k j of Some (JStr s) \<Rightarrow> s | _ \<Rightarrow> [])"

text \<open>The fields of the validated object; numbers that are no integers count as no number here.\<close>

definition validateEnvelope :: "json \<Rightarrow> envelope_error + message_envelope" where
  "validateEnvelope raw =
     (case raw of
        JObj ps \<Rightarrow>
          if json_field ''v'' raw \<noteq> Some (JNum ENVELOPE_VERSION) then Inl UnsupportedVersion
          else (case first_bad_field raw [''accountId'', ''tenant'', ''sub'', ''messageId'', ''envelopeType''] of
            Some k \<Rightarrow> Inl (MissingField k)
          | None \<Rightarrow> (case json_field ''ts'' raw of
              Some (JNum ts) \<Rightarrow> (case json_field ''content'' raw of
                  Some (JObj c) \<Rightarrow> (case first_bad_field (JObj c) [''nonce'', ''ciphertext'', ''tag''] of
                      Some k \<Rightarrow> Inl (BadContentField k)
                    | None \<Rightarrow> Inr \<lparr>me_routing = \<lparr>er_accountId = string_field ''accountId'' raw, er_tenant = string_field ''tenant'' raw, er_sub = string_field ''sub'' raw,
                        er_messageId = string_field ''messageId'' raw, er_envelopeType = string_field ''envelopeType'' raw, er_ts = ts\<rparr>,
                        me_content = \<lparr>cb_nonce = string_field ''nonce'' (JObj c), cb_ciphertext = string_field ''ciphertext'' (JObj c), cb_tag = string_field ''tag'' (JObj c)\<rparr>\<rparr>)
                | _ \<Rightarrow> Inl BadContent)
            | _ \<Rightarrow> Inl BadTimestamp))
      | _ \<Rightarrow> Inl NotAnObject)"

definition deserializeEnvelope :: "node_platform \<Rightarrow> string \<Rightarrow> envelope_error + message_envelope" where
  "deserializeEnvelope np payload = (case np_parse np payload of None \<Rightarrow> Inl InvalidJson | Some raw \<Rightarrow> validateEnvelope raw)"

datatype open_error = Malformed envelope_error | Undecryptable | BadMessage

definition getEnvelopeRouting :: "message_envelope \<Rightarrow> routing" where
  "getEnvelopeRouting env = me_routing env"

definition sealEnvelope :: "node_platform \<Rightarrow> session_routing \<Rightarrow> byte list \<Rightarrow> json \<Rightarrow> string \<Rightarrow> byte list \<Rightarrow> int \<Rightarrow> byte list \<Rightarrow> string option" where
  "sealEnvelope np s key message envelopeType ident now nonce =
     (let fullRouting = full_routing s envelopeType ident now in
      map_option serializeEnvelope (agent_encodeEnvelope np fullRouting (textEncode (stringify message)) key (Some (canonicalAad fullRouting)) nonce))"

definition openEnvelope :: "node_platform \<Rightarrow> string \<Rightarrow> byte list \<Rightarrow> open_error + (routing \<times> json)" where
  "openEnvelope np payload key =
     (case deserializeEnvelope np payload of
        Inl e \<Rightarrow> Inl (Malformed e)
      | Inr env \<Rightarrow> (case decryptEnvelopeContent np env key (Some (canonicalAad (getEnvelopeRouting env))) of
          None \<Rightarrow> Inl Undecryptable
        | Some plaintext \<Rightarrow> (case np_parse np (np_toString np plaintext) of
            None \<Rightarrow> Inl BadMessage
          | Some message \<Rightarrow> Inr (getEnvelopeRouting env, message))))"

section \<open>Conversation keys\<close>

datatype wrap_error = HalfBinding | WrapNoSecret | WrapCipher

definition bindingAad :: "string option \<Rightarrow> string option \<Rightarrow> wrap_error + byte list option" where
  "bindingAad peerId clientNonce =
     (case (peerId, clientNonce) of
        (Some p, Some c) \<Rightarrow> Inr (Some (octets_to_bytes (wrapAad p c)))
      | (None, None) \<Rightarrow> Inr None
      | _ \<Rightarrow> Inl HalfBinding)"

text \<open>\<open>fresh\<close> is the key pair a call generates when it is given none.\<close>

definition wrapConversationKey ::
    "node_platform \<Rightarrow> byte list \<Rightarrow> byte list \<Rightarrow> key_pair option \<Rightarrow> string option \<Rightarrow> string option \<Rightarrow> key_pair \<Rightarrow> byte list \<Rightarrow> wrap_error + wrapped_key" where
  "wrapConversationKey np conversationKey devicePublicKey agentIdentityKeyPair peerId clientNonce fresh nonce =
     (let wrapKp = (case agentIdentityKeyPair of Some kp \<Rightarrow> kp | None \<Rightarrow> fresh) in
      case np_x25519 np (kp_privateKey wrapKp) devicePublicKey of
        None \<Rightarrow> Inl WrapNoSecret
      | Some rawSecret \<Rightarrow>
          let wrapKey = np_hkdf np rawSecret KEY_WRAP_INFO in
          (case bindingAad peerId clientNonce of
             Inl e \<Rightarrow> Inl e
           | Inr aad \<Rightarrow> (case encrypt np wrapKey conversationKey aad nonce of
               None \<Rightarrow> Inl WrapCipher
             | Some (ciphertext, nonce', tag) \<Rightarrow> Inr \<lparr>wk_ephemeralPublicKey = base64urlEncode (kp_publicKey wrapKp), wk_nonce = base64urlEncode nonce',
                 wk_ciphertext = base64urlEncode ciphertext, wk_tag = base64urlEncode tag\<rparr>)))"

definition agent_unwrapConversationKey ::
    "node_platform \<Rightarrow> wrapped_key \<Rightarrow> byte list \<Rightarrow> byte list option \<Rightarrow> string option \<Rightarrow> string option \<Rightarrow> wrap_error + byte list" where
  "agent_unwrapConversationKey np wrapped devicePrivateKey agentPublicKey peerId clientNonce =
     (let agentKey = (case agentPublicKey of Some k \<Rightarrow> k | None \<Rightarrow> np_base64url np (wk_ephemeralPublicKey wrapped)) in
      case np_x25519 np devicePrivateKey agentKey of
        None \<Rightarrow> Inl WrapNoSecret
      | Some rawSecret \<Rightarrow>
          let wrapKey = np_hkdf np rawSecret KEY_WRAP_INFO in
          (case bindingAad peerId clientNonce of
             Inl e \<Rightarrow> Inl e
           | Inr aad \<Rightarrow> (case decrypt np wrapKey (np_base64url np (wk_nonce wrapped)) (np_base64url np (wk_ciphertext wrapped)) (np_base64url np (wk_tag wrapped)) aad of
               None \<Rightarrow> Inl WrapCipher | Some k \<Rightarrow> Inr k)))"

text \<open>The first envelope that does not decrypt throws.\<close>

definition decryptBacklog ::
    "node_platform \<Rightarrow> message_envelope list \<Rightarrow> wrapped_key \<Rightarrow> byte list \<Rightarrow> byte list option \<Rightarrow> string option \<Rightarrow> string option \<Rightarrow> wrap_error + (byte list list \<times> byte list)" where
  "decryptBacklog np envelopes wrappedKey devicePrivateKey agentPublicKey peerId clientNonce =
     (case agent_unwrapConversationKey np wrappedKey devicePrivateKey agentPublicKey peerId clientNonce of
        Inl e \<Rightarrow> Inl e
      | Inr conversationKey \<Rightarrow> (case those (map (\<lambda>env. decryptEnvelopeContent np env conversationKey None) envelopes) of
          None \<Rightarrow> Inl WrapCipher
        | Some plaintexts \<Rightarrow> Inr (plaintexts, conversationKey)))"

section \<open>Two implementations of one cipher\<close>

text \<open>
  What is documented of Node: \<^verbatim>\<open>chacha20-poly1305\<close> is the cipher of RFC 8439, which the browser computes itself, for keys of
  32, nonces of 12 and tags of 16 octets; \<^verbatim>\<open>base64url\<close> and UTF-8 read back what they wrote.
\<close>

definition standard_node :: "node_platform \<Rightarrow> bool" where
  "standard_node np \<longleftrightarrow>
     (\<forall>key nonce plaintext aad. length key = 32 \<longrightarrow> length nonce = 12 \<longrightarrow> np_seal np key nonce plaintext aad = chacha20poly1305Encrypt key nonce plaintext aad) \<and>
     (\<forall>key nonce ct tag aad. length key = 32 \<longrightarrow> length nonce = 12 \<longrightarrow> length tag = 16 \<longrightarrow>
        np_open np key nonce ct tag aad = (case chacha20poly1305Decrypt key nonce ct tag aad of Inr p \<Rightarrow> Some p | Inl _ \<Rightarrow> None)) \<and>
     (\<forall>bs. np_base64url np (base64urlEncode bs) = bs) \<and> (\<forall>s. np_toString np (textEncode s) = s)"

lemma standard_nodeD:
  assumes "standard_node np"
  shows "length key = 32 \<Longrightarrow> length nonce = 12 \<Longrightarrow> np_seal np key nonce plaintext aad = chacha20poly1305Encrypt key nonce plaintext aad"
    and "length key = 32 \<Longrightarrow> length nonce = 12 \<Longrightarrow> length tag = 16 \<Longrightarrow> chacha20poly1305Decrypt key nonce ct tag aad = Inr p \<Longrightarrow> np_open np key nonce ct tag aad = Some p"
    and "np_base64url np (base64urlEncode bs) = bs" and "np_toString np (textEncode s) = s"
  using assms by (simp_all add: standard_node_def)

lemma encode_nonempty: "bs \<noteq> [] \<Longrightarrow> base64urlEncode bs \<noteq> []"
  using encode_tokens(2)[of bs] by (cases bs) auto

definition routing_ok :: "routing \<Rightarrow> bool" where
  "routing_ok r \<longleftrightarrow> er_accountId r \<noteq> [] \<and> er_tenant r \<noteq> [] \<and> er_sub r \<noteq> [] \<and> er_messageId r \<noteq> [] \<and> er_envelopeType r \<noteq> []"

lemma validate_own:
  assumes "routing_ok r" "cb_nonce c \<noteq> []" "cb_ciphertext c \<noteq> []" "cb_tag c \<noteq> []"
  shows "validateEnvelope (envelope_json r c) = Inr \<lparr>me_routing = r, me_content = c\<rparr>"
  using assms by (simp add: validateEnvelope_def envelope_json_def ENVELOPE_VERSION_def first_bad_field_def routing_ok_def string_field_def)


section \<open>Delivery of the conversation key\<close>

text \<open>The agreement of the two key exchanges on one wrapping key of 32 octets.\<close>

definition same_wrap_key :: "node_platform \<Rightarrow> 'sk browser_platform \<Rightarrow> key_pair \<Rightarrow> byte list \<Rightarrow> 'sk \<Rightarrow> byte list \<Rightarrow> bool" where
  "same_wrap_key np bp kp devicePublicKey devicePrivateKey wrapKey \<longleftrightarrow> length wrapKey = 32 \<and>
     map_option (\<lambda>z. np_hkdf np z KEY_WRAP_INFO) (np_x25519 np (kp_privateKey kp) devicePublicKey) = Some wrapKey \<and>
     map_option (\<lambda>z. bp_hkdf bp z KEY_WRAP_INFO) (bp_x25519 bp devicePrivateKey (base64urlEncode (kp_publicKey kp))) = Some wrapKey"

lemma wrap_value:
  assumes "standard_node np" "same_wrap_key np bp kp dpk dsk wk" "length nonce = 12"
  obtains ct tag where
    "wrapConversationKey np K dpk (Some kp) (Some p) (Some c) fresh nonce = Inr \<lparr>wk_ephemeralPublicKey = base64urlEncode (kp_publicKey kp), wk_nonce = base64urlEncode nonce,
       wk_ciphertext = base64urlEncode ct, wk_tag = base64urlEncode tag\<rparr>"
    "chacha20poly1305Decrypt wk nonce ct tag (octets_to_bytes (wrapAad p c)) = Inr K" "length ct = length K" "length tag = 16"
proof -
  have wk: "length wk = 32" using assms(2) by (simp add: same_wrap_key_def)
  obtain ct tag where e: "chacha20poly1305Encrypt wk nonce K (octets_to_bytes (wrapAad p c)) = Some (ct, tag)" "length ct = length K" "length tag = 16"
    "chacha20poly1305Decrypt wk nonce ct tag (octets_to_bytes (wrapAad p c)) = Inr K"
    using aead_opens[of wk nonce K "octets_to_bytes (wrapAad p c)"] wk assms(3) by auto
  then show ?thesis using that[OF _ e(4,2,3)] assms(2) standard_nodeD(1)[OF assms(1) wk assms(3)]
    by (auto simp: same_wrap_key_def wrapConversationKey_def bindingAad_def encrypt_def)
qed

lemma unwrap_value:
  assumes "same_wrap_key np bp kp dpk dsk wk"
  shows "unwrapConversationKey bp \<lparr>wk_ephemeralPublicKey = base64urlEncode (kp_publicKey kp), wk_nonce = base64urlEncode nonce,
       wk_ciphertext = base64urlEncode ct, wk_tag = base64urlEncode tag\<rparr> dsk (base64urlEncode (kp_publicKey kp)) p c =
    (case chacha20poly1305Decrypt wk nonce ct tag (octets_to_bytes (wrapAad p c)) of Inl e \<Rightarrow> Inl (CipherError e) | Inr k \<Rightarrow> Inr k)"
  using assms by (auto simp: unwrapConversationKey_def decode_encode same_wrap_key_def)

text \<open>
  The conversation key arrives.  A key the agent wraps with its identity key for a device, a peer and an attempt is what
  the browser of that device unwraps under the pinned agent key with the same peer and attempt; under any other pinned key the
  browser refuses before it computes anything.
\<close>

lemma wrap_reaches_device:
  assumes "standard_node np" "same_wrap_key np bp kp dpk dsk wk" "length nonce = 12"
  shows "\<exists>w. wrapConversationKey np K dpk (Some kp) (Some p) (Some c) fresh nonce = Inr w \<and>
    unwrapConversationKey bp w dsk (base64urlEncode (kp_publicKey kp)) p c = Inr K \<and>
    (\<forall>pinned. pinned \<noteq> kp_publicKey kp \<longrightarrow> unwrapConversationKey bp w dsk (base64urlEncode pinned) p c = Inl IdentityMismatch)"
proof -
  obtain ct tag where w: "wrapConversationKey np K dpk (Some kp) (Some p) (Some c) fresh nonce = Inr \<lparr>wk_ephemeralPublicKey = base64urlEncode (kp_publicKey kp), wk_nonce = base64urlEncode nonce,
       wk_ciphertext = base64urlEncode ct, wk_tag = base64urlEncode tag\<rparr>" "chacha20poly1305Decrypt wk nonce ct tag (octets_to_bytes (wrapAad p c)) = Inr K"
    using wrap_value[OF assms] by metis
  then show ?thesis using unwrap_value[OF assms(2), of nonce ct tag p c] by (auto simp: unwrapConversationKey_def decode_encode)
qed

lemma aad_bytes_inject:
  assumes "isValidSubjectToken p" "isValidSubjectToken p'" "isValidClientNonce c" "isValidClientNonce c'" "octets_to_bytes (wrapAad p c) = octets_to_bytes (wrapAad p' c')"
  shows "p = p' \<and> c = c'"
proof -
  have bound: "list_all (\<lambda>b. b < 256) (wrapAad q d)" for q d
    using utf8_bound by (simp add: wrapAad_concat WRAP_AAD_SEPARATOR_def)
  have "wrapAad p c = wrapAad p' c'" using assms(5) unat_of_bytes[OF bound] unfolding octets_to_bytes_def by metis
  then show ?thesis by (rule wrapAad_inject[OF assms(1-4)])
qed

lemma aad_length: "isValidSubjectToken p \<Longrightarrow> isValidClientNonce c \<Longrightarrow> length (octets_to_bytes (wrapAad p c)) < 2 ^ 64"
proof -
  assume v: "isValidSubjectToken p" "isValidClientNonce c"
  have "length (utf8 WRAP_AAD_VERSION) = 18" by (simp add: WRAP_AAD_VERSION_def utf8_def utf8_char_def)
  moreover have "length (utf8 p) \<le> 128" "length (utf8 c) \<le> 128" using v by (simp_all add: utf8_token isValidSubjectToken_def isValidClientNonce_def CLIENT_NONCE_MAX_LENGTH_def)
  ultimately show ?thesis by (simp add: octets_to_bytes_def wrapAad_concat)
qed

text \<open>
  C40: A wrapped key is bound to one peer and one attempt.  A browser that registers as another peer, or in another attempt,
  fails to authenticate a key that was wrapped for this one, unless two octet strings, computed from the two bindings and the
  ciphertext of the wrap and different because the bindings are, have the same Poly1305 tag under the one-time key of the wrap.
\<close>

theorem wrap_bound_to_attempt:
  assumes "standard_node np" "same_wrap_key np bp kp dpk dsk wk" "length nonce = 12" "length K < 2 ^ 64"
    and "isValidSubjectToken p" "isValidSubjectToken p'" "isValidClientNonce c" "isValidClientNonce c'" "(p, c) \<noteq> (p', c')"
    and "wrapConversationKey np K dpk (Some kp) (Some p) (Some c) fresh nonce = Inr w"
  shows "unwrapConversationKey bp w dsk (base64urlEncode (kp_publicKey kp)) p' c' = Inl (CipherError AuthenticationFailed) \<or>
    (\<exists>block ct. chacha20Block wk 0 nonce = Some block \<and> base64urlDecode (wk_ciphertext w) = Some ct \<and>
      buildMacInput (octets_to_bytes (wrapAad p c)) ct \<noteq> buildMacInput (octets_to_bytes (wrapAad p' c')) ct \<and>
      poly1305 (take 32 block) (buildMacInput (octets_to_bytes (wrapAad p c)) ct) = poly1305 (take 32 block) (buildMacInput (octets_to_bytes (wrapAad p' c')) ct))"
proof -
  obtain ct tag where w: "w = \<lparr>wk_ephemeralPublicKey = base64urlEncode (kp_publicKey kp), wk_nonce = base64urlEncode nonce,
       wk_ciphertext = base64urlEncode ct, wk_tag = base64urlEncode tag\<rparr>" "chacha20poly1305Decrypt wk nonce ct tag (octets_to_bytes (wrapAad p c)) = Inr K" "length ct = length K"
    using wrap_value[OF assms(1-3), of K p c fresh] assms(10) by (metis sum.inject(2))
  obtain block where b: "chacha20Block wk 0 nonce = Some block" "tag = poly1305 (take 32 block) (buildMacInput (octets_to_bytes (wrapAad p c)) ct)"
    using w(2) by (auto simp: chacha20poly1305Decrypt_def timingSafeEqual_iff split: option.splits if_splits)
  have differ: "buildMacInput (octets_to_bytes (wrapAad p c)) ct \<noteq> buildMacInput (octets_to_bytes (wrapAad p' c')) ct"
    using mac_input_injective[of "octets_to_bytes (wrapAad p c)" ct "octets_to_bytes (wrapAad p' c')" ct] aad_length[OF assms(5,7)] aad_length[OF assms(6,8)]
      assms(4,9) w(3) aad_bytes_inject[OF assms(5-8)] by auto
  show ?thesis
  proof (cases "tag = poly1305 (take 32 block) (buildMacInput (octets_to_bytes (wrapAad p' c')) ct)")
    case True
    have "base64urlDecode (wk_ciphertext w) = Some ct" using w(1) by (simp add: decode_encode)
    then show ?thesis using True b differ by metis
  next
    case False
    then have "chacha20poly1305Decrypt wk nonce ct tag (octets_to_bytes (wrapAad p' c')) = Inl AuthenticationFailed"
      using b(1) by (simp add: chacha20poly1305Decrypt_def timingSafeEqual_iff)
    then show ?thesis using unwrap_value[OF assms(2), of nonce ct tag p' c'] w(1) by simp
  qed
qed

section \<open>Witnesses\<close>

definition demo_node :: "(string \<Rightarrow> json option) \<Rightarrow> node_platform" where
  "demo_node parse = \<lparr>np_x25519 = \<lambda>a b. Some (a @ b), np_hkdf = \<lambda>z info. replicate 32 5, np_seal = chacha20poly1305Encrypt,
     np_open = \<lambda>key nonce ct tag aad. (case chacha20poly1305Decrypt key nonce ct tag aad of Inr p \<Rightarrow> Some p | Inl _ \<Rightarrow> None),
     np_base64url = \<lambda>s. (case base64urlDecode s of Some bs \<Rightarrow> bs | None \<Rightarrow> []), np_toString = textDecode, np_parse = parse\<rparr>"

definition demo_browser :: "(string \<Rightarrow> json option) \<Rightarrow> byte list browser_platform" where
  "demo_browser parse = \<lparr>bp_x25519 = \<lambda>sk pk. map_option (\<lambda>p. p @ sk) (base64urlDecode pk), bp_hkdf = \<lambda>z info. replicate 32 5, bp_textDecode = textDecode, bp_parse = parse\<rparr>"

definition demo_session :: session_routing where
  "demo_session = \<lparr>sr_accountId = ''acc'', sr_tenant = ''t1'', sr_sub = ''ann''\<rparr>"

definition demo_routing :: routing where
  "demo_routing = full_routing demo_session ''conversation'' [1, 2] 5"

definition demo_env :: json where
  "demo_env = the (encodeEnvelope demo_routing (stringify (JStr ''hi'')) (replicate 32 1) (replicate 12 2))"

definition demo_parse :: "string \<Rightarrow> json option" where
  "demo_parse s = (if s = stringify (JStr ''hi'') then Some (JStr ''hi'') else if s = stringify demo_env then Some demo_env else None)"

definition demo_kp :: key_pair where
  "demo_kp = \<lparr>kp_publicKey = [1, 2], kp_privateKey = [1, 2]\<rparr>"

lemma demo_node_standard: "standard_node (demo_node parse)"
  by (simp add: standard_node_def demo_node_def decode_encode text_round_trip)

lemma demo_same_key: "same_wrap_key (demo_node parse) (demo_browser parse) demo_kp [3] [3] (replicate 32 5)"
  by (simp add: same_wrap_key_def demo_node_def demo_browser_def demo_kp_def decode_encode)

lemma demo_env_obj:
  obtains ps where "encodeEnvelope demo_routing (stringify (JStr ''hi'')) (replicate 32 1) (replicate 12 2) = Some demo_env" "demo_env = JObj ps"
proof (rule encode_envelope_value)
  fix ct tag
  assume e: "encodeEnvelope demo_routing (stringify (JStr ''hi'')) (replicate 32 1) (replicate 12 2) =
      Some (envelope_json demo_routing \<lparr>cb_nonce = base64urlEncode (replicate 12 2), cb_ciphertext = base64urlEncode ct, cb_tag = base64urlEncode tag\<rparr>)"
  then have "demo_env = envelope_json demo_routing \<lparr>cb_nonce = base64urlEncode (replicate 12 2), cb_ciphertext = base64urlEncode ct, cb_tag = base64urlEncode tag\<rparr>"
    unfolding demo_env_def by (rule ssubst) (rule option.sel)
  with e show thesis by (rule_tac that) (simp_all only: envelope_json_def)
qed (rule length_replicate)+

lemma demo_reads: "reads demo_parse (JStr ''hi'')" "reads demo_parse demo_env"
proof -
  show "reads demo_parse (JStr ''hi'')" by (simp add: reads_def demo_parse_def)
  obtain ps where ps: "demo_env = JObj ps" using demo_env_obj by blast
  have "stringify (JObj ps) \<noteq> stringify (JStr ''hi'')" by (simp add: quote_def)
  then show "reads demo_parse demo_env" by (simp only: reads_def demo_parse_def ps if_False if_True simp_thms)
qed


theorem opened_frame_authentic_witness:
  "\<exists>content tag block ct. json_field ''content'' demo_env = Some content \<and> decode_field ''tag'' content = Some tag \<and> decode_field ''ciphertext'' content = Some ct \<and>
     tag = poly1305 (take 32 block) (buildMacInput (aad_of_fields demo_env) ct)"
proof -
  have parse: "bp_parse (demo_browser demo_parse) = demo_parse" by (simp add: demo_browser_def)
  have p: "demo_parse (stringify demo_env) = Some demo_env" using demo_reads(2) by (simp only: reads_def)
  have "openMessage (demo_browser demo_parse) (stringify demo_env) (replicate 32 1) = JStr ''hi''"
  proof (rule encode_envelope_value)
    fix ct tag
    assume e: "encodeEnvelope demo_routing (stringify (JStr ''hi'')) (replicate 32 1) (replicate 12 2) =
        Some (envelope_json demo_routing \<lparr>cb_nonce = base64urlEncode (replicate 12 2), cb_ciphertext = base64urlEncode ct, cb_tag = base64urlEncode tag\<rparr>)"
      "chacha20poly1305Decrypt (replicate 32 1) (replicate 12 2) ct tag (canonicalAad demo_routing) = Inr (textEncode (stringify (JStr ''hi'')))"
    have "bp_parse (demo_browser demo_parse) (stringify demo_env) =
        Some (envelope_json demo_routing \<lparr>cb_nonce = base64urlEncode (replicate 12 2), cb_ciphertext = base64urlEncode ct, cb_tag = base64urlEncode tag\<rparr>)"
      using demo_env_obj e(1) unfolding parse p by metis
    then show ?thesis
      by (rule open_envelope_json[OF _ e(2)]) (simp_all only: parse demo_reads(1), simp add: demo_browser_def text_round_trip)
  qed (rule length_replicate)+
  then have "openMessage (demo_browser demo_parse) (stringify demo_env) (replicate 32 1) \<noteq> JNull" by (simp only: json.distinct not_False_eq_True)
  from opened_frame_authentic[OF this] show ?thesis unfolding parse p by (metis option.inject)
qed

theorem wrap_bound_to_attempt_witness:
  "\<exists>w. wrapConversationKey (demo_node demo_parse) (replicate 32 9) [3] (Some demo_kp) (Some ''ann'') (Some ''abcdefghijklmnopqrstuv'') demo_kp (replicate 12 4) = Inr w \<and>
    (unwrapConversationKey (demo_browser demo_parse) w [3] (base64urlEncode (kp_publicKey demo_kp)) ''bob'' ''abcdefghijklmnopqrstuv'' = Inl (CipherError AuthenticationFailed) \<or>
     (\<exists>block x y. chacha20Block (replicate 32 5) 0 (replicate 12 4) = Some block \<and> x \<noteq> y \<and> poly1305 (take 32 block) x = poly1305 (take 32 block) y))"
proof -
  have v: "isValidSubjectToken ''ann''" "isValidSubjectToken ''bob''" "isValidClientNonce ''abcdefghijklmnopqrstuv''" by code_simp+
  have K: "length (replicate 32 9 :: byte list) < 2 ^ 64" by simp
  have ne: "(''ann'', ''abcdefghijklmnopqrstuv'') \<noteq> (''bob'', ''abcdefghijklmnopqrstuv'')" by simp
  obtain w where w: "wrapConversationKey (demo_node demo_parse) (replicate 32 9) [3] (Some demo_kp) (Some ''ann'') (Some ''abcdefghijklmnopqrstuv'') demo_kp (replicate 12 4) = Inr w"
    by (rule wrap_value[OF demo_node_standard demo_same_key length_replicate, where K = "replicate 32 9" and p = "''ann''" and c = "''abcdefghijklmnopqrstuv''" and fresh = demo_kp])
  from wrap_bound_to_attempt[OF demo_node_standard demo_same_key length_replicate K v(1,2,3,3) ne w] w show ?thesis by blast
qed

end
