(* ===== verification/Register_Hop.thy ===== *)
theory Register_Hop
  imports Json Pop_Challenge
begin

text \<open>
  Admission of a browser over NATS (\<^verbatim>\<open>src/packages/plugin/src/nats-register.ts\<close>,
  \<^verbatim>\<open>register-pop-gate.ts\<close>): \<^verbatim>\<open>handleRegisterRequest\<close> over the nonce store of \<^verbatim>\<open>Pop_Challenge\<close>.

  The handler awaits the token verifier once and touches no state before; what follows runs to the
  end, so a request is one function on the nonce store.  A run is the list of the calls it makes on
  its dependencies, the store, and whether its promise resolves.  The answers of the
  dependencies are the fields of the request: the verifier, the peer registry, the key wrap, the
  snapshots, and which calls of \<^verbatim>\<open>reply\<close> and of the logger return instead of throwing.  The payload is given as the result
  of \<^verbatim>\<open>JSON.parse\<close>, \<open>None\<close> when that throws; numbers in it that are no integers count as absent, like them they fail every check
  the handler makes.  The dash of the log texts is written as two hyphens.
\<close>

section \<open>Log lines\<close>

definition unescaped_by_json :: "char \<Rightarrow> bool" where
  "unescaped_by_json c \<longleftrightarrow> 127 \<le> (of_char c :: nat) \<and> (of_char c :: nat) \<le> 159"

definition logSafe :: "string \<Rightarrow> string" where
  "logSafe text = concat (map (\<lambda>c. if unescaped_by_json c
     then [CHR 0x5C, CHR ''u'', CHR ''0'', CHR ''0'', hex_char (of_char c div 16), hex_char (of_char c mod 16)] else [c]) (quote text))"

section \<open>Replies\<close>

definition WEBCHANNEL_PROTOCOL_VERSION :: int where
  "WEBCHANNEL_PROTOCOL_VERSION = 3"

definition error_reply :: "string \<Rightarrow> int \<Rightarrow> json" where
  "error_reply err code = JObj [(''error'', JStr err), (''code'', JNum code)]"

definition REGISTER_UNAUTHORIZED :: string where
  "REGISTER_UNAUTHORIZED = stringify (error_reply ''unauthorized'' 401)"

definition REGISTER_FAILED :: string where
  "REGISTER_FAILED = stringify (error_reply ''registration_failed'' 500)"

definition REGISTER_CAPACITY_EXCEEDED :: string where
  "REGISTER_CAPACITY_EXCEEDED = stringify (error_reply ''capacity_exceeded'' 507)"

definition REGISTER_UNAVAILABLE :: string where
  "REGISTER_UNAVAILABLE = stringify (error_reply ''unavailable'' 503)"

definition REGISTER_PROTOCOL_MISMATCH :: string where
  "REGISTER_PROTOCOL_MISMATCH = stringify (JObj [(''error'', JStr ''protocol_mismatch''), (''code'', JNum 426), (''protocolVersion'', JNum WEBCHANNEL_PROTOCOL_VERSION)])"

record capacity_status =
  cs_accountId :: string
  cs_currentKeys :: int
  cs_maxKeys :: int

definition formatCapacityReject :: "capacity_status \<Rightarrow> string" where
  "formatCapacityReject st = ''[webchannel] account '' @ [CHR 0x22] @ cs_accountId st @ [CHR 0x22] @ '' conversation-key capacity reached ('' @
     show_int (cs_currentKeys st) @ ''/'' @ show_int (cs_maxKeys st) @
     ''); existing keys were preserved and new admission was rejected. Investigate issuer/audience/account routing and unexpected JWT sub churn; do not delete conversation-keys.json entries. Use a disjoint account shard for post-cutover new users if growth is legitimate.''"

section \<open>Requests\<close>

record jwt_identity =
  ji_peerId :: string
  ji_tenant :: "string option"
  ji_displayName :: "string option"
  ji_devicePublicKey :: "string option"
  ji_popPublicJwk :: "pop_jwk option"

text \<open>What awaiting the verifier gives; a thrown error carries its \<^verbatim>\<open>String(err)\<close>.\<close>

datatype verify_answer =
    Identity jwt_identity
  | NoIdentity
  | VerifyTransient string
  | VerifyThrew string

text \<open>A thrown value: its own fields as far as it is an object, and its \<^verbatim>\<open>String(err)\<close>.\<close>

record thrown =
  th_fields :: json
  th_text :: string

record reg_config =
  rc_tenant :: string
  rc_requirePoP :: bool

record reg_request =
  rr_subjectPeerId :: string
  rr_parsed :: "json option"
  rr_verifyIdentity :: "string \<Rightarrow> verify_answer"
  rr_drawn :: string
  rr_sweepClock :: int
  rr_clock :: int
  rr_base64url :: "string \<Rightarrow> octet list"
  rr_registerPeer :: "thrown option"
  rr_wrap :: "octet list \<Rightarrow> string \<Rightarrow> thrown + wrapped_key option"
  rr_history :: "thrown option"
  rr_approvals :: "thrown option"
  rr_pluginVersion :: "string option"
  rr_reply :: "string \<Rightarrow> thrown option"
  rr_logger :: "(string \<Rightarrow> thrown option) option"
  rr_onCapacityReject :: "bool option"

datatype reg_effect =
    EReply string
  | EReplyThrew string
  | ELog string
  | EConsole string
  | ERegisterPeer string
  | EWrapKey string "octet list" string
  | EUnregisterPeer string
  | ESendHistory string
  | ESendApprovals string
  | ECapacityReject capacity_status

type_synonym reg_run = "reg_effect list \<times> pop_store \<times> bool"

definition str_field :: "string \<Rightarrow> json \<Rightarrow> string" where
  "str_field k j = (case json_field k j of Some (JStr s) \<Rightarrow> s | _ \<Rightarrow> [])"

definition send_reply :: "reg_request \<Rightarrow> string \<Rightarrow> pop_store \<Rightarrow> reg_run" where
  "send_reply r text s = (if rr_reply r text = None then ([EReply text], s, True) else ([EReplyThrew text], s, False))"

text \<open>\<^verbatim>\<open>logger?.error?.(text)\<close> followed by the rest of the run.\<close>

definition log_then :: "reg_request \<Rightarrow> string \<Rightarrow> pop_store \<Rightarrow> reg_run \<Rightarrow> reg_run" where
  "log_then r text s rest = (case rr_logger r of
     None \<Rightarrow> rest
   | Some f \<Rightarrow> if f text = None then (ELog text # fst rest, snd rest) else ([ELog text], s, False))"

section \<open>The handler\<close>

definition popRequirementUnmet :: "bool \<Rightarrow> bool \<Rightarrow> bool" where
  "popRequirementUnmet requirePoP hasPopJwk \<longleftrightarrow> requirePoP \<and> \<not> hasPopJwk"

definition identityMatchesTenantScope :: "jwt_identity \<Rightarrow> string \<Rightarrow> bool" where
  "identityMatchesTenantScope i tenant \<longleftrightarrow> (case ji_tenant i of Some t \<Rightarrow> t \<noteq> [] \<and> t = tenant | None \<Rightarrow> False)"

definition hasCapacityErrorName :: "json \<Rightarrow> bool" where
  "hasCapacityErrorName err \<longleftrightarrow> json_field ''name'' err = Some (JStr ''ConversationKeyCapacityError'')"

definition isConversationKeyCapacityError :: "json \<Rightarrow> capacity_status option" where
  "isConversationKeyCapacityError err =
     (if hasCapacityErrorName err then
        (case (json_field ''accountId'' err, json_field ''currentKeys'' err, json_field ''maxKeys'' err) of
           (Some (JStr a), Some (JNum c), Some (JNum m)) \<Rightarrow>
             if a \<noteq> [] \<and> safe_nonneg_int c \<and> safe_nonneg_int m \<and> 0 < m
             then Some \<lparr>cs_accountId = a, cs_currentKeys = c, cs_maxKeys = m\<rparr> else None
         | _ \<Rightarrow> None)
      else None)"

fun reason_name :: "verify_reason \<Rightarrow> string" where
  "reason_name Verified = ''verified''"
| "reason_name NonceMissing = ''nonce-missing''"
| "reason_name NonceExpired = ''nonce-expired''"
| "reason_name NotEd25519 = ''not-ed25519''"
| "reason_name BadJwk = ''bad-jwk''"
| "reason_name BadSignatureEncoding = ''bad-signature-encoding''"
| "reason_name SignatureMismatch = ''signature-mismatch''"

text \<open>The unregister branch.\<close>

definition handle_unregister ::
    "('key, 'sig) pop_crypto \<Rightarrow> reg_config \<Rightarrow> reg_request \<Rightarrow> json \<Rightarrow> string \<Rightarrow> pop_store \<Rightarrow> reg_run" where
  "handle_unregister cr cfg r parsed token s =
     (let silent = ([], s, True) in
      if token = [] then silent
      else case rr_verifyIdentity r token of
        VerifyTransient err \<Rightarrow> log_then r (''webchannel: unregister verify error (ignored): '' @ logSafe err) s silent
      | VerifyThrew err \<Rightarrow> log_then r (''webchannel: unregister verify error (ignored): '' @ logSafe err) s silent
      | NoIdentity \<Rightarrow> silent
      | Identity i \<Rightarrow>
          if \<not> identityMatchesTenantScope i (rc_tenant cfg) then
            log_then r ''webchannel: unregister JWT tenant does not match configured tenant -- ignoring'' s silent
          else if rr_subjectPeerId r \<noteq> ji_peerId i then
            log_then r (''webchannel: unregister subject peerId '' @ logSafe (rr_subjectPeerId r) @ '' != JWT peerId '' @ logSafe (ji_peerId i) @ '' -- ignoring'') s silent
          else (case assertValidSubjectToken (ji_peerId i) ''peerId'' of
            Inl e \<Rightarrow> log_then r (''webchannel: unregister '' @ logSafe (token_message e)) s silent
          | Inr _ \<Rightarrow>
              if popRequirementUnmet (rc_requirePoP cfg) (ji_popPublicJwk i \<noteq> None) then
                log_then r (''webchannel: unregister ignored for '' @ logSafe (ji_peerId i) @ '' -- proof-of-possession required (JWT has no pop_jwk)'') s silent
              else (case ji_popPublicJwk i of
                None \<Rightarrow> ([EUnregisterPeer (ji_peerId i)], s, True)
              | Some jwk \<Rightarrow>
                  let nonce = str_field ''nonce'' parsed; signature = str_field ''signature'' parsed in
                  if nonce = [] \<or> signature = [] then silent
                  else (case verify cr Unregister (ji_peerId i) nonce signature jwk (rr_clock r) s of
                    (Verified, s') \<Rightarrow> ([EUnregisterPeer (ji_peerId i)], s', True)
                  | (reason, s') \<Rightarrow> log_then r (''webchannel: unregister PoP verification failed for '' @ logSafe (ji_peerId i) @ '' ('' @ logSafe (reason_name reason) @ '')'')
                      s' ([], s', True)))))"

text \<open>The guarded block at the end of a registration: the calls made, and the error if one throws.\<close>

definition wrapped_json :: "wrapped_key \<Rightarrow> json" where
  "wrapped_json w = JObj [(''ephemeralPublicKey'', JStr (wk_ephemeralPublicKey w)), (''nonce'', JStr (wk_nonce w)),
     (''ciphertext'', JStr (wk_ciphertext w)), (''tag'', JStr (wk_tag w))]"

definition success_json :: "reg_request \<Rightarrow> string \<Rightarrow> wrapped_key \<Rightarrow> json" where
  "success_json r peerId w = JObj ([(''peerId'', JStr peerId), (''registered'', JBool True), (''wrappedConversationKey'', wrapped_json w),
     (''protocolVersion'', JNum WEBCHANNEL_PROTOCOL_VERSION)] @
     (case rr_pluginVersion r of Some v \<Rightarrow> [(''pluginVersion'', JStr v)] | None \<Rightarrow> []))"

definition success_reply :: "reg_request \<Rightarrow> string \<Rightarrow> wrapped_key \<Rightarrow> string" where
  "success_reply r peerId w = stringify (success_json r peerId w)"

definition reply_in_try :: "reg_request \<Rightarrow> string \<Rightarrow> reg_effect list \<times> thrown option" where
  "reply_in_try r text = (case rr_reply r text of None \<Rightarrow> ([EReply text], None) | Some e \<Rightarrow> ([EReplyThrew text], Some e))"

definition log_in_try :: "reg_request \<Rightarrow> string \<Rightarrow> reg_effect list \<times> thrown option" where
  "log_in_try r text = (case rr_logger r of None \<Rightarrow> ([], None) | Some f \<Rightarrow> ([ELog text], f text))"

text \<open>The calls of a block in order, up to the first that throws.\<close>

fun in_order :: "(reg_effect list \<times> thrown option) list \<Rightarrow> reg_effect list \<times> thrown option" where
  "in_order [] = ([], None)"
| "in_order ((es, Some e) # cs) = (es, Some e)"
| "in_order ((es, None) # cs) = (case in_order cs of (es', e) \<Rightarrow> (es @ es', e))"

definition deliver_key :: "reg_request \<Rightarrow> string \<Rightarrow> octet list \<Rightarrow> string \<Rightarrow> reg_effect list \<times> thrown option" where
  "deliver_key r peerId deviceKey clientNonce =
     in_order [
       ([ERegisterPeer peerId], rr_registerPeer r),
       (case rr_wrap r deviceKey clientNonce of
          Inl e \<Rightarrow> ([EWrapKey peerId deviceKey clientNonce], Some e)
        | Inr None \<Rightarrow> in_order [
            ([EWrapKey peerId deviceKey clientNonce], None),
            log_in_try r (''webchannel: no conversation key established for '' @ logSafe peerId @ '' at register''),
            reply_in_try r REGISTER_FAILED]
        | Inr (Some w) \<Rightarrow> in_order [
            ([EWrapKey peerId deviceKey clientNonce], None),
            ([ESendHistory peerId], rr_history r),
            ([ESendApprovals peerId], rr_approvals r),
            reply_in_try r (success_reply r peerId w)])]"

definition capacity_diagnostics :: "reg_request \<Rightarrow> capacity_status \<Rightarrow> reg_effect list" where
  "capacity_diagnostics r st =
     (case rr_onCapacityReject r of
        Some returns \<Rightarrow> ECapacityReject st # (if returns then [] else [EConsole (formatCapacityReject st)])
      | None \<Rightarrow> (case rr_logger r of
          Some f \<Rightarrow> ELog (formatCapacityReject st) # (if f (formatCapacityReject st) = None then [] else [EConsole (formatCapacityReject st)])
        | None \<Rightarrow> [EConsole (formatCapacityReject st)]))"

definition catch_failure :: "reg_request \<Rightarrow> string \<Rightarrow> thrown \<Rightarrow> pop_store \<Rightarrow> reg_run" where
  "catch_failure r peerId err s =
     (case isConversationKeyCapacityError (th_fields err) of
        Some st \<Rightarrow> (case send_reply r REGISTER_CAPACITY_EXCEEDED s of
            (es, s', True) \<Rightarrow> (es @ capacity_diagnostics r st, s', True)
          | failed \<Rightarrow> failed)
      | None \<Rightarrow>
          if hasCapacityErrorName (th_fields err) then
            (case send_reply r REGISTER_FAILED s of
               (es, s', True) \<Rightarrow> (es @ fst (log_in_try r ''webchannel: malformed conversation-key capacity error; registration failed''), s', True)
             | failed \<Rightarrow> failed)
          else log_then r (''webchannel: register failed for '' @ logSafe peerId @ '': '' @ logSafe (th_text err)) s (send_reply r REGISTER_FAILED s))"

definition admit_peer :: "reg_request \<Rightarrow> string \<Rightarrow> octet list \<Rightarrow> string \<Rightarrow> pop_store \<Rightarrow> reg_run" where
  "admit_peer r peerId deviceKey clientNonce s =
     (case deliver_key r peerId deviceKey clientNonce of
        (es, None) \<Rightarrow> (es, s, True)
      | (es, Some err) \<Rightarrow> (case catch_failure r peerId err s of (es', rest) \<Rightarrow> (es @ es', rest)))"

text \<open>From the proof of possession to the device key.\<close>

definition with_device_key :: "reg_request \<Rightarrow> jwt_identity \<Rightarrow> string \<Rightarrow> pop_store \<Rightarrow> reg_run" where
  "with_device_key r i clientNonce s =
     (case ji_devicePublicKey i of
        Some k \<Rightarrow>
          if k = [] then log_then r (''webchannel: register rejected for '' @ logSafe (ji_peerId i) @ '' -- JWT has no cnf device key (key delivery impossible)'') s (send_reply r REGISTER_UNAUTHORIZED s)
          else if length (rr_base64url r k) \<noteq> 32 then send_reply r REGISTER_UNAUTHORIZED s
          else admit_peer r (ji_peerId i) (rr_base64url r k) clientNonce s
      | None \<Rightarrow> log_then r (''webchannel: register rejected for '' @ logSafe (ji_peerId i) @ '' -- JWT has no cnf device key (key delivery impossible)'') s (send_reply r REGISTER_UNAUTHORIZED s))"

definition register_proof :: "('key, 'sig) pop_crypto \<Rightarrow> reg_request \<Rightarrow> json \<Rightarrow> jwt_identity \<Rightarrow> string \<Rightarrow> pop_store \<Rightarrow> reg_run" where
  "register_proof cr r parsed i clientNonce s =
     (case ji_popPublicJwk i of
        None \<Rightarrow> with_device_key r i clientNonce s
      | Some jwk \<Rightarrow>
          let nonce = str_field ''nonce'' parsed; signature = str_field ''signature'' parsed in
          if nonce = [] \<or> signature = [] then send_reply r REGISTER_UNAUTHORIZED s
          else (case verify cr Register (ji_peerId i) nonce signature jwk (rr_clock r) s of
            (Verified, s') \<Rightarrow> with_device_key r i clientNonce s'
          | (reason, s') \<Rightarrow> log_then r (''webchannel: PoP verification failed for '' @ logSafe (ji_peerId i) @ '' ('' @ logSafe (reason_name reason) @ '')'')
              s' (send_reply r REGISTER_UNAUTHORIZED s')))"

definition handle_register :: "('key, 'sig) pop_crypto \<Rightarrow> reg_config \<Rightarrow> reg_request \<Rightarrow> json \<Rightarrow> jwt_identity \<Rightarrow> pop_store \<Rightarrow> reg_run" where
  "handle_register cr cfg r parsed i s =
     (if json_field ''protocolVersion'' parsed \<noteq> Some (JNum WEBCHANNEL_PROTOCOL_VERSION) then send_reply r REGISTER_PROTOCOL_MISMATCH s
      else if \<not> isValidClientNonce (str_field ''clientNonce'' parsed) then
        log_then r (''webchannel: register rejected for '' @ logSafe (ji_peerId i) @ '' -- missing or malformed clientNonce'') s (send_reply r REGISTER_UNAUTHORIZED s)
      else if popRequirementUnmet (rc_requirePoP cfg) (ji_popPublicJwk i \<noteq> None) then
        log_then r (''webchannel: register rejected for '' @ logSafe (ji_peerId i) @ '' -- proof-of-possession required (JWT has no pop_jwk)'') s (send_reply r REGISTER_UNAUTHORIZED s)
      else register_proof cr r parsed i (str_field ''clientNonce'' parsed) s)"

definition handle_identity :: "('key, 'sig) pop_crypto \<Rightarrow> reg_config \<Rightarrow> reg_request \<Rightarrow> json \<Rightarrow> string \<Rightarrow> jwt_identity \<Rightarrow> pop_store \<Rightarrow> reg_run" where
  "handle_identity cr cfg r parsed op i s =
     (if \<not> identityMatchesTenantScope i (rc_tenant cfg) then
        log_then r ''webchannel: register JWT tenant does not match configured tenant -- rejecting'' s (send_reply r REGISTER_UNAUTHORIZED s)
      else if rr_subjectPeerId r \<noteq> ji_peerId i then
        log_then r (''webchannel: register subject peerId '' @ logSafe (rr_subjectPeerId r) @ '' != JWT peerId '' @ logSafe (ji_peerId i) @ '' -- rejecting'') s (send_reply r REGISTER_UNAUTHORIZED s)
      else (case assertValidSubjectToken (ji_peerId i) ''peerId'' of
        Inl e \<Rightarrow> log_then r (''webchannel: '' @ logSafe (token_message e)) s (send_reply r REGISTER_UNAUTHORIZED s)
      | Inr _ \<Rightarrow>
          if op = ''challenge'' then
            let s' = issue (ji_peerId i) (rr_drawn r) (rr_sweepClock r) (rr_clock r) s
            in send_reply r (stringify (JObj [(''nonce'', JStr (rr_drawn r))])) s'
          else handle_register cr cfg r parsed i s))"

text \<open>
  Reading a property of \<^verbatim>\<open>null\<close> throws outside every guard, so that payload rejects the promise
  without a reply.
\<close>

definition handleRegisterRequest :: "('key, 'sig) pop_crypto \<Rightarrow> reg_config \<Rightarrow> reg_request \<Rightarrow> pop_store \<Rightarrow> reg_run" where
  "handleRegisterRequest cr cfg r s =
     (case rr_parsed r of
        None \<Rightarrow> send_reply r REGISTER_UNAUTHORIZED s
      | Some parsed \<Rightarrow>
          if parsed = JNull then ([], s, False)
          else let op = str_field ''op'' parsed; token = str_field ''token'' parsed in
          if op \<noteq> ''challenge'' \<and> op \<noteq> ''register'' \<and> op \<noteq> ''unregister'' then send_reply r REGISTER_UNAUTHORIZED s
          else if op = ''unregister'' then handle_unregister cr cfg r parsed token s
          else if token = [] then send_reply r REGISTER_UNAUTHORIZED s
          else (case rr_verifyIdentity r token of
            VerifyTransient err \<Rightarrow> log_then r (''webchannel: register verify unavailable (transient): '' @ logSafe err) s (send_reply r REGISTER_UNAVAILABLE s)
          | VerifyThrew err \<Rightarrow> log_then r (''webchannel: register verify error: '' @ logSafe err) s (send_reply r REGISTER_UNAUTHORIZED s)
          | NoIdentity \<Rightarrow> send_reply r REGISTER_UNAUTHORIZED s
          | Identity i \<Rightarrow> handle_identity cr cfg r parsed op i s))"

text \<open>A sequence of requests.\<close>

definition hop_step :: "('key, 'sig) pop_crypto \<Rightarrow> reg_config \<Rightarrow> reg_request \<Rightarrow> pop_store \<Rightarrow> reg_effect list \<times> pop_store" where
  "hop_step cr cfg r s = (case handleRegisterRequest cr cfg r s of (es, s', ok) \<Rightarrow> (es, s'))"

definition run_requests :: "('key, 'sig) pop_crypto \<Rightarrow> reg_config \<Rightarrow> reg_request list \<Rightarrow> pop_store \<Rightarrow> (reg_request \<times> reg_effect list) list \<times> pop_store" where
  "run_requests cr cfg = run_steps (hop_step cr cfg)"

section \<open>The nonce store under the handler\<close>

text \<open>The calls a request makes on the nonce store; they do not depend on its contents.\<close>

definition pop_calls :: "reg_config \<Rightarrow> reg_request \<Rightarrow> pop_call list" where
  "pop_calls cfg r =
     (case rr_parsed r of
        None \<Rightarrow> []
      | Some parsed \<Rightarrow> (case rr_verifyIdentity r (str_field ''token'' parsed) of
          Identity i \<Rightarrow>
            let op = str_field ''op'' parsed; nonce = str_field ''nonce'' parsed; signature = str_field ''signature'' parsed in
            if str_field ''token'' parsed = [] \<or> \<not> identityMatchesTenantScope i (rc_tenant cfg) \<or> rr_subjectPeerId r \<noteq> ji_peerId i \<or> \<not> isValidSubjectToken (ji_peerId i) then []
            else if op = ''challenge'' then [CallIssue (ji_peerId i) (rr_drawn r) (rr_sweepClock r) (rr_clock r)]
            else (case ji_popPublicJwk i of
                None \<Rightarrow> []
              | Some jwk \<Rightarrow>
                  if nonce = [] \<or> signature = [] then []
                  else if op = ''unregister'' then [CallVerify Unregister (ji_peerId i) nonce signature jwk (rr_clock r)]
                  else if op = ''register'' \<and> json_field ''protocolVersion'' parsed = Some (JNum WEBCHANNEL_PROTOCOL_VERSION) \<and> isValidClientNonce (str_field ''clientNonce'' parsed)
                  then [CallVerify Register (ji_peerId i) nonce signature jwk (rr_clock r)] else [])
        | _ \<Rightarrow> []))"

named_theorems hop_store \<open>the nonce store after a piece of the handler\<close>

lemma store_reply [hop_store]: "fst (snd (send_reply r t s)) = s"
  by (simp add: send_reply_def)

lemma store_log [hop_store]: "fst (snd k) = s \<Longrightarrow> fst (snd (log_then r t s k)) = s"
  by (auto simp: log_then_def split: option.splits)

lemma store_catch [hop_store]: "fst (snd (catch_failure r p e s)) = s"
proof -
  have "fst (snd (case send_reply r t s of (es, s', True) \<Rightarrow> (f es, s', True) | failed \<Rightarrow> failed)) = s" for t f
    by (simp add: send_reply_def)
  then show ?thesis by (simp add: catch_failure_def hop_store split: option.split)
qed

lemma store_admit [hop_store]: "fst (snd (admit_peer r p k c s)) = s"
  using store_catch[of r p _ s] by (auto simp: admit_peer_def split: prod.splits option.splits) (metis fst_conv snd_conv)

lemma store_device [hop_store]: "fst (snd (with_device_key r i c s)) = s"
  by (simp add: with_device_key_def hop_store split: option.split)

lemma valid_token: "assertValidSubjectToken t l = (if isValidSubjectToken t then Inr () else Inl (if t = [] then TokenEmpty l else TokenCharacters l))"
  by (auto simp: assertValidSubjectToken_def isValidSubjectToken_def)

lemma store_proof [hop_store]:
  "fst (snd (register_proof cr r parsed i c s)) = (case ji_popPublicJwk i of
     Some jwk \<Rightarrow> if str_field ''nonce'' parsed = [] \<or> str_field ''signature'' parsed = [] then s
       else snd (verify cr Register (ji_peerId i) (str_field ''nonce'' parsed) (str_field ''signature'' parsed) jwk (rr_clock r) s)
   | None \<Rightarrow> s)"
  by (simp add: register_proof_def hop_store Let_def split: option.split prod.split verify_reason.split)

lemma store_unregister [hop_store]:
  "fst (snd (handle_unregister cr cfg r parsed token s)) =
     (case rr_verifyIdentity r token of
        Identity i \<Rightarrow>
          if token = [] \<or> \<not> identityMatchesTenantScope i (rc_tenant cfg) \<or> rr_subjectPeerId r \<noteq> ji_peerId i \<or> \<not> isValidSubjectToken (ji_peerId i) then s
          else (case ji_popPublicJwk i of
             Some jwk \<Rightarrow> if str_field ''nonce'' parsed = [] \<or> str_field ''signature'' parsed = [] then s
               else snd (verify cr Unregister (ji_peerId i) (str_field ''nonce'' parsed) (str_field ''signature'' parsed) jwk (rr_clock r) s)
           | None \<Rightarrow> s)
      | _ \<Rightarrow> s)"
  by (simp add: handle_unregister_def hop_store Let_def valid_token popRequirementUnmet_def split: option.split prod.split verify_reason.split verify_answer.split)

lemma handler_store:
  "fst (snd (handleRegisterRequest cr cfg r s)) = snd (pop_trace cr (pop_calls cfg r) s)"
proof (cases "rr_parsed r")
  case None
  then show ?thesis by (simp add: handleRegisterRequest_def pop_calls_def hop_store)
next
  case (Some parsed)
  have null: "str_field k JNull = []" for k by (simp add: str_field_def)
  show ?thesis
    by (cases "rr_verifyIdentity r (str_field ''token'' parsed)")
      (auto simp: Some null handleRegisterRequest_def pop_calls_def hop_store Let_def handle_identity_def handle_register_def valid_token popRequirementUnmet_def
        split: option.split prod.split)
qed

lemma hop_step_store: "snd (hop_step cr cfg r s) = snd (pop_trace cr (pop_calls cfg r) s)"
  unfolding handler_store[symmetric] by (simp add: hop_step_def split: prod.split)

section \<open>What the handler does on behalf of a peer\<close>

text \<open>The calls that act for a peer, with the operation that must have been proved.\<close>

fun acts_for :: "reg_effect \<Rightarrow> (pop_op \<times> string) option" where
  "acts_for (ERegisterPeer p) = Some (Register, p)"
| "acts_for (EWrapKey p k c) = Some (Register, p)"
| "acts_for (ESendHistory p) = Some (Register, p)"
| "acts_for (ESendApprovals p) = Some (Register, p)"
| "acts_for (EUnregisterPeer p) = Some (Unregister, p)"
| "acts_for _ = None"

definition authorised :: "('key, 'sig) pop_crypto \<Rightarrow> reg_config \<Rightarrow> reg_request \<Rightarrow> pop_store \<Rightarrow> pop_op \<Rightarrow> string \<Rightarrow> bool" where
  "authorised cr cfg r s op p \<longleftrightarrow> (\<exists>parsed i. rr_parsed r = Some parsed \<and> str_field ''op'' parsed = op_name op \<and>
     rr_verifyIdentity r (str_field ''token'' parsed) = Identity i \<and> ji_peerId i = p \<and> ji_tenant i = Some (rc_tenant cfg) \<and> rc_tenant cfg \<noteq> [] \<and>
     rr_subjectPeerId r = p \<and> isValidSubjectToken p \<and>
     (case ji_popPublicJwk i of
        None \<Rightarrow> \<not> rc_requirePoP cfg
      | Some jwk \<Rightarrow> fst (verify cr op p (str_field ''nonce'' parsed) (str_field ''signature'' parsed) jwk (rr_clock r) s) = Verified \<and>
          pop_calls cfg r = [CallVerify op p (str_field ''nonce'' parsed) (str_field ''signature'' parsed) jwk (rr_clock r)]))"

definition acted :: "reg_run \<Rightarrow> (pop_op \<times> string) set" where
  "acted run = {a. \<exists>e \<in> set (fst run). acts_for e = Some a}"

named_theorems hop_acts \<open>the acting calls of a piece of the handler\<close>

lemma acted_pair [hop_acts]: "acted (es, rest) = {a. \<exists>e \<in> set es. acts_for e = Some a}"
  by (simp add: acted_def)

lemma acted_reply [hop_acts]: "acted (send_reply r t s) = {}"
  by (simp add: send_reply_def acted_def)

lemma acted_log [hop_acts]: "acted (log_then r t s k) \<subseteq> acted k"
  by (auto simp: log_then_def acted_def split: option.splits if_splits)

lemma acted_log_reply [hop_acts]: "acted (log_then r t s (send_reply r t' s')) = {}"
  using acted_log[of r t s "send_reply r t' s'"] by (simp add: hop_acts)

lemma acted_log_silent [hop_acts]: "acted (log_then r t s ([], rest)) = {}"
  using acted_log[of r t s "([], rest)"] by (simp add: hop_acts)

lemma acted_catch [hop_acts]: "acted (catch_failure r p e s) = {}"
proof -
  have reply: "acted (case send_reply r t s of (es, s', True) \<Rightarrow> (es @ f, s', True) | failed \<Rightarrow> failed) = {}" if "\<forall>x \<in> set f. acts_for x = None" for t f
    using that by (auto simp: send_reply_def acted_def)
  have "\<forall>x \<in> set (capacity_diagnostics r st). acts_for x = None" "\<forall>x \<in> set (fst (log_in_try r t)). acts_for x = None" for st t
    by (auto simp: capacity_diagnostics_def log_in_try_def split: option.splits)
  then show ?thesis by (simp add: catch_failure_def acted_log_reply reply split: option.split)
qed

definition only_for :: "pop_op \<times> string \<Rightarrow> reg_effect list \<Rightarrow> bool" where
  "only_for a es \<longleftrightarrow> (\<forall>e \<in> set es. acts_for e = None \<or> acts_for e = Some a)"

lemma only_in_order: "list_all (\<lambda>c. only_for a (fst c)) cs \<Longrightarrow> only_for a (fst (in_order cs))"
  by (induction cs rule: in_order.induct) (auto simp: only_for_def split: prod.splits)

lemma only_try: "only_for a (fst (log_in_try r t))" "only_for a (fst (reply_in_try r t))"
  by (auto simp: only_for_def log_in_try_def reply_in_try_def split: option.splits)

lemma acts_deliver: "only_for (Register, p) (fst (deliver_key r p k c))"
proof -
  have call: "only_for (Register, p) [ERegisterPeer p]" "only_for (Register, p) [EWrapKey p k c]" "only_for (Register, p) [ESendHistory p]" "only_for (Register, p) [ESendApprovals p]"
    by (simp_all add: only_for_def)
  show ?thesis unfolding deliver_key_def
    by (rule only_in_order) (auto simp: call only_try simp del: in_order.simps intro!: only_in_order split: sum.split option.split)
qed

lemma acted_admit [hop_acts]: "acted (admit_peer r p k c s) \<subseteq> {(Register, p)}"
proof -
  obtain es e where d: "deliver_key r p k c = (es, e)" by fastforce
  have "a = (Register, p)" if "x \<in> set es" "acts_for x = Some a" for x a using acts_deliver[of p r k c] that d by (auto simp: only_for_def)
  moreover have "acts_for x \<noteq> Some a" if "x \<in> set (fst (catch_failure r p err s))" for x err a
    using acted_catch[of r p err s] that by (cases a) (auto simp: acted_def)
  moreover have "fst (admit_peer r p k c s) = es @ (case e of None \<Rightarrow> [] | Some err \<Rightarrow> fst (catch_failure r p err s))"
    using d by (simp add: admit_peer_def split: option.split prod.split)
  ultimately show ?thesis unfolding acted_def by (cases e) (fastforce, fastforce)
qed

lemma acted_device [hop_acts]: "acted (with_device_key r i c s) \<subseteq> {(Register, ji_peerId i)}"
  using acted_admit by (simp add: with_device_key_def hop_acts split: option.split)

lemma acted_proof:
  assumes "a \<in> acted (register_proof cr r parsed i c s)"
  shows "a = (Register, ji_peerId i) \<and> (case ji_popPublicJwk i of None \<Rightarrow> True
    | Some jwk \<Rightarrow> str_field ''nonce'' parsed \<noteq> [] \<and> str_field ''signature'' parsed \<noteq> [] \<and>
        fst (verify cr Register (ji_peerId i) (str_field ''nonce'' parsed) (str_field ''signature'' parsed) jwk (rr_clock r) s) = Verified)"
  using assms by (auto simp: register_proof_def hop_acts Let_def dest: subsetD[OF acted_device] split: option.splits if_splits prod.splits verify_reason.splits)

lemma acted_unregister:
  assumes "a \<in> acted (handle_unregister cr cfg r parsed token s)"
  obtains i where "a = (Unregister, ji_peerId i)" "token \<noteq> []" "rr_verifyIdentity r token = Identity i" "identityMatchesTenantScope i (rc_tenant cfg)"
    "rr_subjectPeerId r = ji_peerId i" "isValidSubjectToken (ji_peerId i)"
    "case ji_popPublicJwk i of None \<Rightarrow> \<not> rc_requirePoP cfg
     | Some jwk \<Rightarrow> str_field ''nonce'' parsed \<noteq> [] \<and> str_field ''signature'' parsed \<noteq> [] \<and>
        fst (verify cr Unregister (ji_peerId i) (str_field ''nonce'' parsed) (str_field ''signature'' parsed) jwk (rr_clock r) s) = Verified"
  using assms by (auto simp: handle_unregister_def hop_acts Let_def valid_token popRequirementUnmet_def
      split: option.splits if_splits prod.splits verify_reason.splits verify_answer.splits)

lemma acted_identity:
  assumes "a \<in> acted (handle_identity cr cfg r parsed op i s)"
  shows "op \<noteq> ''challenge'' \<and> a = (Register, ji_peerId i) \<and> identityMatchesTenantScope i (rc_tenant cfg) \<and> rr_subjectPeerId r = ji_peerId i \<and> isValidSubjectToken (ji_peerId i) \<and>
    json_field ''protocolVersion'' parsed = Some (JNum WEBCHANNEL_PROTOCOL_VERSION) \<and> isValidClientNonce (str_field ''clientNonce'' parsed) \<and>
    (case ji_popPublicJwk i of None \<Rightarrow> \<not> rc_requirePoP cfg
    | Some jwk \<Rightarrow> str_field ''nonce'' parsed \<noteq> [] \<and> str_field ''signature'' parsed \<noteq> [] \<and>
        fst (verify cr Register (ji_peerId i) (str_field ''nonce'' parsed) (str_field ''signature'' parsed) jwk (rr_clock r) s) = Verified)"
proof -
  have "op \<noteq> ''challenge''" "identityMatchesTenantScope i (rc_tenant cfg)" "rr_subjectPeerId r = ji_peerId i" "isValidSubjectToken (ji_peerId i)"
    "a \<in> acted (handle_register cr cfg r parsed i s)"
    using assms by (auto simp: handle_identity_def hop_acts valid_token Let_def split: if_splits)
  moreover from this(5) have "json_field ''protocolVersion'' parsed = Some (JNum WEBCHANNEL_PROTOCOL_VERSION)" "isValidClientNonce (str_field ''clientNonce'' parsed)"
    "\<not> popRequirementUnmet (rc_requirePoP cfg) (ji_popPublicJwk i \<noteq> None)" "a \<in> acted (register_proof cr r parsed i (str_field ''clientNonce'' parsed) s)"
    by (auto simp: handle_register_def hop_acts split: if_splits)
  ultimately show ?thesis using acted_proof[of a cr r parsed i "str_field ''clientNonce'' parsed" s]
    by (auto simp: popRequirementUnmet_def split: option.splits)
qed

lemma handler_acts_authorised:
  assumes "(op, p) \<in> acted (handleRegisterRequest cr cfg r s)"
  shows "authorised cr cfg r s op p"
proof -
  obtain parsed where parsed: "rr_parsed r = Some parsed" "parsed \<noteq> JNull"
    using assms by (auto simp: handleRegisterRequest_def hop_acts split: option.splits if_splits)
  have tenant: "ji_tenant i = Some (rc_tenant cfg) \<and> rc_tenant cfg \<noteq> []" if "identityMatchesTenantScope i (rc_tenant cfg)" for i
    using that by (auto simp: identityMatchesTenantScope_def split: option.splits)
  let ?op = "str_field ''op'' parsed" and ?token = "str_field ''token'' parsed"
  show ?thesis
  proof (cases "?op = ''unregister''")
    case True
    then have "(op, p) \<in> acted (handle_unregister cr cfg r parsed ?token s)" using assms parsed by (simp add: handleRegisterRequest_def Let_def)
    then show ?thesis by (rule acted_unregister)
      (use True parsed(1) tenant in \<open>auto simp: authorised_def pop_calls_def Let_def split: option.splits\<close>)
  next
    case False
    then obtain i where i: "rr_verifyIdentity r ?token = Identity i" "?token \<noteq> []" "(op, p) \<in> acted (handle_identity cr cfg r parsed ?op i s)" "?op = ''challenge'' \<or> ?op = ''register''"
      using assms parsed by (auto simp: handleRegisterRequest_def Let_def hop_acts split: if_splits verify_answer.splits)
    show ?thesis using acted_identity[OF i(3)] i(1,2,4) parsed(1) tenant
      by (auto simp: authorised_def pop_calls_def Let_def split: option.splits)
  qed
qed

section \<open>Admissions and challenges\<close>

definition challenged :: "reg_config \<Rightarrow> string \<Rightarrow> string \<Rightarrow> reg_request \<Rightarrow> bool" where
  "challenged cfg p n r \<longleftrightarrow> list_ex (issue_call p n) (pop_calls cfg r)"

definition acts_with :: "string \<Rightarrow> string \<Rightarrow> reg_request \<Rightarrow> reg_effect list \<Rightarrow> bool" where
  "acts_with p n r es \<longleftrightarrow> (case rr_parsed r of
     Some parsed \<Rightarrow> str_field ''nonce'' parsed = n \<and> list_ex (\<lambda>e. map_option snd (acts_for e) = Some p) es
   | None \<Rightarrow> False)"

lemma one_call: "pop_calls cfg r = [] \<or> (\<exists>c. pop_calls cfg r = [c])"
  by (auto simp: pop_calls_def Let_def split: option.split verify_answer.split)

lemma hop_step_ok: "pop_ok s \<Longrightarrow> hop_step cr cfg r s = (es, s') \<Longrightarrow> pop_ok s'"
  using hop_step_store[of cr cfg r s] pop_trace_ok[of s cr "pop_calls cfg r"] by (metis prod.collapse snd_conv)

lemma stored_after_step:
  assumes "pop_ok s" "hop_step cr cfg r s = (es, s')" "stored s' p n"
  shows "stored s p n \<or> challenged cfg p n r"
proof (cases "pop_calls cfg r")
  case Nil
  then show ?thesis using hop_step_store[of cr cfg r s] assms by simp
next
  case (Cons c cs)
  then have c: "pop_calls cfg r = [c]" using one_call[of cfg r] by auto
  obtain a where "pop_run cr c s = (a, s')" using hop_step_store[of cr cfg r s] assms(2) c by (simp split: prod.splits)
  then show ?thesis using pop_use.held_step[OF assms(1) _ assms(3)] c by (simp add: challenged_def)
qed

lemma acting_step_spends:
  assumes "pop_ok s" "hop_step cr cfg r s = (es, s')" "rc_requirePoP cfg" "acts_with p n r es"
  shows "stored s p n \<and> \<not> stored s' p n"
proof -
  obtain parsed op where parsed: "rr_parsed r = Some parsed" "str_field ''nonce'' parsed = n" and act: "(op, p) \<in> acted (handleRegisterRequest cr cfg r s)"
    using assms(2,4) by (fastforce simp: acts_with_def acted_def hop_step_def list_ex_iff split: option.splits prod.splits)
  obtain jwk sg where v: "fst (verify cr op p n sg jwk (rr_clock r) s) = Verified" "pop_calls cfg r = [CallVerify op p n sg jwk (rr_clock r)]"
    using handler_acts_authorised[OF act] parsed assms(3) by (auto simp: authorised_def split: option.splits)
  have "s' = snd (verify cr op p n sg jwk (rr_clock r) s)" using hop_step_store[of cr cfg r s] assms(2) v(2) by (simp split: prod.splits)
  then have "pop_run cr (CallVerify op p n sg jwk (rr_clock r)) s = (Some Verified, s')" using v(1) by (cases "verify cr op p n sg jwk (rr_clock r) s") simp
  then show ?thesis using pop_use.redeem_spends[OF assms(1), where p = p and n = n] by fastforce
qed

text \<open>The handler under the contract of a single-use token, with proof of possession required.\<close>

interpretation hop_use: single_use "hop_step cr (cfg\<lparr>rc_requirePoP := True\<rparr>)" pop_ok "\<lambda>s. stored s p n" "challenged (cfg\<lparr>rc_requirePoP := True\<rparr>) p n" "acts_with p n"
  for cr cfg p n
proof
  fix s s' c r
  assume step: "pop_ok s" "hop_step cr (cfg\<lparr>rc_requirePoP := True\<rparr>) c s = (r, s')"
  show "pop_ok s'" by (rule hop_step_ok[OF step])
  show "stored s p n \<or> challenged (cfg\<lparr>rc_requirePoP := True\<rparr>) p n c" if "stored s' p n" by (rule stored_after_step[OF step that])
  show "stored s p n \<and> \<not> stored s' p n" if "acts_with p n c r" by (rule acting_step_spends[OF step _ that]) simp
qed

lemma run_requests_store: "snd (run_requests cr cfg rs s) = snd (pop_trace cr (concat (map (pop_calls cfg) rs)) s)"
proof (induction rs arbitrary: s)
  case (Cons r rs)
  obtain es s1 where st: "hop_step cr cfg r s = (es, s1)" by fastforce
  have "snd (run_requests cr cfg (r # rs) s) = snd (run_requests cr cfg rs s1)" using st by (simp add: run_requests_def split: prod.split)
  then show ?case using Cons hop_step_store[of cr cfg r s] st by (simp add: pop_trace_append)
qed (simp add: run_requests_def)

section \<open>Replies\<close>

fun is_reply :: "reg_effect \<Rightarrow> bool" where
  "is_reply (EReply t) \<longleftrightarrow> True"
| "is_reply (EReplyThrew t) \<longleftrightarrow> True"
| "is_reply _ \<longleftrightarrow> False"

text \<open>Neither the reply nor the logger throws.\<close>

definition calm :: "reg_request \<Rightarrow> bool" where
  "calm r \<longleftrightarrow> (\<forall>t. rr_reply r t = None) \<and> (\<forall>f t. rr_logger r = Some f \<longrightarrow> f t = None)"

definition answered :: "reg_run \<Rightarrow> bool" where
  "answered run \<longleftrightarrow> length (filter is_reply (fst run)) = 1 \<and> snd (snd run)"

named_theorems hop_answers \<open>pieces of the handler that answer once\<close>

lemma answered_reply [hop_answers]: "calm r \<Longrightarrow> answered (send_reply r t s)"
  by (simp add: calm_def send_reply_def answered_def)

lemma answered_log [hop_answers]: "calm r \<Longrightarrow> answered k \<Longrightarrow> answered (log_then r t s k)"
  by (auto simp: calm_def log_then_def answered_def split: option.split)

lemma answered_catch [hop_answers]:
  assumes "calm r"
  shows "answered (catch_failure r p e s)"
proof -
  have "answered (case send_reply r t s of (es, s', True) \<Rightarrow> (es @ f, s', True) | failed \<Rightarrow> failed)" if "filter is_reply f = []" for t f
    using assms that by (simp add: calm_def send_reply_def answered_def)
  moreover have "filter is_reply (capacity_diagnostics r st) = []" "filter is_reply (fst (log_in_try r t)) = []" for st t
    by (simp_all add: capacity_diagnostics_def log_in_try_def split: option.split)
  ultimately show ?thesis using assms by (simp add: catch_failure_def hop_answers split: option.split)
qed

lemma deliver_answers:
  assumes "calm r"
  shows "length (filter is_reply (fst (deliver_key r p k c))) = (if snd (deliver_key r p k c) = None then 1 else 0)"
proof -
  have reply: "reply_in_try r t = ([EReply t], None)" for t using assms by (simp add: calm_def reply_in_try_def)
  have log: "\<exists>es. log_in_try r t = (es, None) \<and> filter is_reply es = []" for t using assms by (auto simp: calm_def log_in_try_def split: option.split)
  have block: "length (filter is_reply (fst (in_order [([ERegisterPeer p], x), b]))) = (if snd (in_order [([ERegisterPeer p], x), b]) = None then 1 else 0)"
    if "length (filter is_reply (fst b)) = (if snd b = None then 1 else 0)" for x b
    using that by (cases x; cases b; cases "snd b") auto
  show ?thesis unfolding deliver_key_def
  proof (rule block, cases "rr_wrap r k c")
    case (Inr w)
    show "length (filter is_reply (fst (case rr_wrap r k c of Inl e \<Rightarrow> ([EWrapKey p k c], Some e)
        | Inr None \<Rightarrow> in_order [([EWrapKey p k c], None), log_in_try r (''webchannel: no conversation key established for '' @ logSafe p @ '' at register''), reply_in_try r REGISTER_FAILED]
        | Inr (Some w) \<Rightarrow> in_order [([EWrapKey p k c], None), ([ESendHistory p], rr_history r), ([ESendApprovals p], rr_approvals r), reply_in_try r (success_reply r p w)]))) =
      (if snd (case rr_wrap r k c of Inl e \<Rightarrow> ([EWrapKey p k c], Some e)
        | Inr None \<Rightarrow> in_order [([EWrapKey p k c], None), log_in_try r (''webchannel: no conversation key established for '' @ logSafe p @ '' at register''), reply_in_try r REGISTER_FAILED]
        | Inr (Some w) \<Rightarrow> in_order [([EWrapKey p k c], None), ([ESendHistory p], rr_history r), ([ESendApprovals p], rr_approvals r), reply_in_try r (success_reply r p w)]) = None then 1 else 0)"
      using Inr log[of "''webchannel: no conversation key established for '' @ logSafe p @ '' at register''"]
      by (cases w; cases "rr_history r"; cases "rr_approvals r") (auto simp: reply)
  qed simp
qed

lemma answered_admit [hop_answers]:
  assumes "calm r"
  shows "answered (admit_peer r p k c s)"
proof -
  obtain es e where d: "deliver_key r p k c = (es, e)" by fastforce
  obtain es' s' b where "catch_failure r p (the e) s = (es', s', b)" by (metis prod_cases3)
  then show ?thesis using deliver_answers[OF assms, of p k c] answered_catch[OF assms, of p "the e" s] d
    by (cases e) (simp_all add: admit_peer_def answered_def)
qed

lemma answered_device [hop_answers]: "calm r \<Longrightarrow> answered (with_device_key r i c s)"
  by (simp add: with_device_key_def hop_answers split: option.split)

lemma answered_proof [hop_answers]: "calm r \<Longrightarrow> answered (register_proof cr r parsed i c s)"
  by (simp add: register_proof_def hop_answers Let_def split: option.split prod.split verify_reason.split)

lemma answered_identity [hop_answers]: "calm r \<Longrightarrow> answered (handle_identity cr cfg r parsed op i s)"
  by (simp add: handle_identity_def handle_register_def hop_answers Let_def valid_token)

definition silent :: "reg_run \<Rightarrow> bool" where
  "silent run \<longleftrightarrow> filter is_reply (fst run) = []"

lemma silent_log: "silent (log_then r t s ([], rest))"
  by (simp add: silent_def log_then_def split: option.split)

lemma silent_effects: "silent ([], rest)" "silent ([EUnregisterPeer p], rest)"
  by (simp_all add: silent_def)

lemma unregister_silent: "silent (handle_unregister cr cfg r parsed token s)"
  by (simp add: handle_unregister_def silent_log silent_effects Let_def valid_token split: option.split prod.split verify_reason.split verify_answer.split)

lemma unregister_resolves:
  assumes "calm r"
  shows "snd (snd (handle_unregister cr cfg r parsed token s))"
proof -
  have "snd (snd (log_then r t s' ([], s', True)))" for t s' using assms by (simp add: calm_def log_then_def split: option.split)
  then show ?thesis by (simp add: handle_unregister_def Let_def valid_token split: option.split prod.split verify_reason.split verify_answer.split)
qed

definition replied :: "reg_run \<Rightarrow> string set" where
  "replied run = {t. EReply t \<in> set (fst run)}"

named_theorems hop_replies \<open>what a piece of the handler may reply\<close>

lemma replied_pair [hop_replies]: "replied (es, rest) = {t. EReply t \<in> set es}"
  by (simp add: replied_def)

lemma replied_send: "t' \<in> replied (send_reply r t s) \<Longrightarrow> t' = t"
  by (simp add: send_reply_def replied_def split: if_splits)

lemma replied_log: "t \<in> replied (log_then r x s k) \<Longrightarrow> t \<in> replied k"
  by (auto simp: log_then_def replied_def split: option.splits if_splits)

lemma registers_first: "(Register, p) \<in> acted (admit_peer r p k c s)"
  by (cases "rr_registerPeer r") (auto simp: admit_peer_def deliver_key_def acted_def split: prod.split option.split)

lemma replied_device: "t \<in> replied (with_device_key r i c s) \<Longrightarrow> t = REGISTER_UNAUTHORIZED \<or> (Register, ji_peerId i) \<in> acted (with_device_key r i c s)"
  by (auto simp: with_device_key_def registers_first dest!: replied_log replied_send split: option.splits if_splits)

lemma replied_register:
  "t \<in> replied (handle_register cr cfg r parsed i s) \<Longrightarrow>
   t = REGISTER_UNAUTHORIZED \<or> t = REGISTER_PROTOCOL_MISMATCH \<or> (Register, ji_peerId i) \<in> acted (handle_register cr cfg r parsed i s)"
  by (auto simp: handle_register_def register_proof_def Let_def dest!: replied_log replied_send dest: replied_device
      split: option.splits prod.splits verify_reason.splits if_splits)

text \<open>The identity a request has established, short of the proof of possession.\<close>

definition identified :: "reg_config \<Rightarrow> reg_request \<Rightarrow> bool" where
  "identified cfg r \<longleftrightarrow> (case rr_parsed r of
     Some parsed \<Rightarrow> (case rr_verifyIdentity r (str_field ''token'' parsed) of
        Identity i \<Rightarrow> identityMatchesTenantScope i (rc_tenant cfg) \<and> rr_subjectPeerId r = ji_peerId i \<and> isValidSubjectToken (ji_peerId i)
      | _ \<Rightarrow> False)
   | None \<Rightarrow> False)"

lemma replied_identity:
  assumes "t \<in> replied (handle_identity cr cfg r parsed op i s)"
  shows "t = REGISTER_UNAUTHORIZED \<or> identityMatchesTenantScope i (rc_tenant cfg) \<and> rr_subjectPeerId r = ji_peerId i \<and> isValidSubjectToken (ji_peerId i) \<and>
    (op = ''challenge'' \<and> t = stringify (JObj [(''nonce'', JStr (rr_drawn r))]) \<or> t = REGISTER_PROTOCOL_MISMATCH \<or>
     (Register, ji_peerId i) \<in> acted (handle_identity cr cfg r parsed op i s))"
  using assms by (auto simp: handle_identity_def Let_def valid_token dest!: replied_log replied_send dest: replied_register split: if_splits)

section \<open>Properties\<close>

text \<open>
  C13: Nothing is done for a peer without its proof.  Whenever the handler registers or unregisters a peer, wraps its key or sends it a
  snapshot, the token was verified to that very peer, its tenant is the configured one, the request came on that peer's
  subject, the peer id is a valid subject token, and either the proof of possession for exactly this operation was verified against the
  current nonces or the operator has switched the requirement off and the token names no key.
\<close>

theorem register_authorised:
  assumes "e \<in> set (fst (handleRegisterRequest cr cfg r s))" "acts_for e = Some (op, p)"
  shows "authorised cr cfg r s op p"
  using assms by (intro handler_acts_authorised) (auto simp: acted_def)

text \<open>
  C14: A captured request is worth nothing a second time.  Where proof of possession is required, in any sequence of
  requests on a new store, the requests that carry a nonce and act for a peer are at most as many as the challenges that drew
  that nonce for that peer; registrations and unregistrations count together.
\<close>

theorem admissions_single_use:
  assumes "rc_requirePoP cfg"
  shows "length (filter (\<lambda>(r, es). acts_with p n r es) (fst (run_requests cr cfg rs (new_pop_store ttl cap)))) \<le> length (filter (challenged cfg p n) rs)"
proof -
  have cfg: "cfg\<lparr>rc_requirePoP := True\<rparr> = cfg" using assms by simp
  obtain tr s' where t: "run_steps (hop_step cr cfg) rs (new_pop_store ttl cap) = (tr, s')" by fastforce
  have "\<not> stored (new_pop_store ttl cap) p n" by (simp add: stored_def new_pop_store_def)
  then show ?thesis using hop_use.redeemed_le_minted[of "new_pop_store ttl cap" cr cfg rs tr s' p n] t new_pop_store_ok(1)
    by (simp add: cfg run_requests_def)
qed

text \<open>
  A request is answered once, and an unregistration never.  As long as the reply and the logger do not throw, a challenge, a
  registration and a malformed request get exactly one reply and the handler resolves, whatever the key store, the wrap and
  the snapshots do; an unregistration gets none.  The payload \<^verbatim>\<open>null\<close> is the exception: the handler throws before it replies.
\<close>

theorem register_answers_once:
  assumes "calm r"
  shows "case rr_parsed r of
      None \<Rightarrow> answered (handleRegisterRequest cr cfg r s)
    | Some parsed \<Rightarrow>
        if parsed = JNull then handleRegisterRequest cr cfg r s = ([], s, False)
        else if str_field ''op'' parsed = ''unregister'' then
          silent (handleRegisterRequest cr cfg r s) \<and> snd (snd (handleRegisterRequest cr cfg r s))
        else answered (handleRegisterRequest cr cfg r s)"
proof (cases "rr_parsed r")
  case None
  then show ?thesis using assms by (simp add: handleRegisterRequest_def hop_answers)
next
  case (Some parsed)
  have "answered (case rr_verifyIdentity r (str_field ''token'' parsed) of
            VerifyTransient err \<Rightarrow> log_then r (x err) s (send_reply r REGISTER_UNAVAILABLE s)
          | VerifyThrew err \<Rightarrow> log_then r (y err) s (send_reply r REGISTER_UNAUTHORIZED s)
          | NoIdentity \<Rightarrow> send_reply r REGISTER_UNAUTHORIZED s
          | Identity i \<Rightarrow> handle_identity cr cfg r parsed op i s)" for x y op
    using assms by (simp add: hop_answers split: verify_answer.split)
  then show ?thesis using assms Some
    by (simp add: handleRegisterRequest_def Let_def hop_answers unregister_silent unregister_resolves)
qed

text \<open>
  Replies are no oracle.  A reply is the one opaque 401, or the retryable 503 of a verifier that could not decide, unless the
  token was verified for this tenant and this subject; then it is a challenge, the version mismatch, or the outcome of a registration
  whose proof was verified.  In particular the capacity of the account is only ever told to an admitted peer.
\<close>

theorem register_reply_opaque:
  assumes "EReply t \<in> set (fst (handleRegisterRequest cr cfg r s))"
  shows "t = REGISTER_UNAUTHORIZED \<or>
    t = REGISTER_UNAVAILABLE \<and> (\<exists>parsed err. rr_parsed r = Some parsed \<and> rr_verifyIdentity r (str_field ''token'' parsed) = VerifyTransient err) \<or>
    identified cfg r \<and> (t = stringify (JObj [(''nonce'', JStr (rr_drawn r))]) \<or> t = REGISTER_PROTOCOL_MISMATCH \<or>
      authorised cr cfg r s Register (rr_subjectPeerId r))"
proof -
  have t: "t \<in> replied (handleRegisterRequest cr cfg r s)" using assms by (simp add: replied_def)
  show ?thesis
  proof (cases "rr_parsed r")
    case None
    then show ?thesis using t by (auto simp: handleRegisterRequest_def dest: replied_send)
  next
    case (Some parsed)
    let ?op = "str_field ''op'' parsed" and ?a = "rr_verifyIdentity r (str_field ''token'' parsed)"
    have no: "t \<notin> replied (handle_unregister cr cfg r parsed token s)" for token
      using unregister_silent[of cr cfg r parsed token s] by (auto simp: replied_def silent_def filter_empty_conv dest: bspec[where x = "EReply t"])
    consider (rejected) "t = REGISTER_UNAUTHORIZED"
      | (transient) err where "?a = VerifyTransient err" "t = REGISTER_UNAVAILABLE"
      | (identity) i where "?a = Identity i" "t \<in> replied (handle_identity cr cfg r parsed ?op i s)" "handleRegisterRequest cr cfg r s = handle_identity cr cfg r parsed ?op i s"
      using t no Some by (auto simp: handleRegisterRequest_def Let_def replied_pair dest!: replied_log replied_send split: if_splits verify_answer.splits)
    then show ?thesis
    proof cases
      case identity
      then show ?thesis using replied_identity[OF identity(2)] handler_acts_authorised[of Register "ji_peerId i" cr cfg r s] Some
        by (auto simp: identified_def)
    qed (use Some in auto)
  qed
qed

text \<open>
  An honest registration: the fields a browser sends after its challenge, and dependencies that do their work.
\<close>

definition honest :: "('key, 'sig) pop_crypto \<Rightarrow> reg_config \<Rightarrow> reg_request \<Rightarrow> string \<Rightarrow> string \<Rightarrow> octet list \<Rightarrow> string \<Rightarrow> wrapped_key \<Rightarrow> bool" where
  "honest cr cfg r p n k c w \<longleftrightarrow> (\<exists>parsed i jwk key.
     rr_parsed r = Some parsed \<and> str_field ''op'' parsed = ''register'' \<and> str_field ''token'' parsed \<noteq> [] \<and>
     rr_verifyIdentity r (str_field ''token'' parsed) = Identity i \<and> ji_peerId i = p \<and> identified cfg r \<and>
     json_field ''protocolVersion'' parsed = Some (JNum WEBCHANNEL_PROTOCOL_VERSION) \<and> str_field ''clientNonce'' parsed = c \<and> isValidClientNonce c \<and>
     ji_popPublicJwk i = Some jwk \<and> str_field ''nonce'' parsed = n \<and> n \<noteq> [] \<and> str_field ''signature'' parsed \<noteq> [] \<and>
     check_proof cr Register p n (str_field ''signature'' parsed) jwk = Verified \<and>
     ji_devicePublicKey i = Some key \<and> key \<noteq> [] \<and> rr_base64url r key = k \<and> length k = 32 \<and>
     rr_registerPeer r = None \<and> rr_wrap r k c = Inr (Some w) \<and> rr_history r = None \<and> rr_approvals r = None \<and> rr_reply r (success_reply r p w) = None)"

lemma honest_run:
  assumes "honest cr cfg r p n k c w" "\<And>sg jwk. fst (verify cr Register p n sg jwk (rr_clock r) s) = check_proof cr Register p n sg jwk"
  shows "fst (handleRegisterRequest cr cfg r s) = [ERegisterPeer p, EWrapKey p k c, ESendHistory p, ESendApprovals p, EReply (success_reply r p w)]"
proof -
  obtain parsed i jwk key where h: "rr_parsed r = Some parsed" "str_field ''op'' parsed = ''register''" "str_field ''token'' parsed \<noteq> []"
     "rr_verifyIdentity r (str_field ''token'' parsed) = Identity i" "ji_peerId i = p" "identified cfg r"
     "json_field ''protocolVersion'' parsed = Some (JNum WEBCHANNEL_PROTOCOL_VERSION)" "str_field ''clientNonce'' parsed = c" "isValidClientNonce c"
     "ji_popPublicJwk i = Some jwk" "str_field ''nonce'' parsed = n" "n \<noteq> []" "str_field ''signature'' parsed \<noteq> []"
     "check_proof cr Register p n (str_field ''signature'' parsed) jwk = Verified"
     "ji_devicePublicKey i = Some key" "key \<noteq> []" "rr_base64url r key = k" "length k = 32"
     and host: "rr_registerPeer r = None" "rr_wrap r k c = Inr (Some w)" "rr_history r = None" "rr_approvals r = None" "rr_reply r (success_reply r p w) = None"
    using assms(1) unfolding honest_def by blast
  obtain s' where v: "verify cr Register p n (str_field ''signature'' parsed) jwk (rr_clock r) s = (Verified, s')"
    using assms(2)[of "str_field ''signature'' parsed" jwk] h(14) by (cases "verify cr Register p n (str_field ''signature'' parsed) jwk (rr_clock r) s") auto
  have "deliver_key r p k c = ([ERegisterPeer p, EWrapKey p k c, ESendHistory p, ESendApprovals p, EReply (success_reply r p w)], None)"
    using host by (simp add: deliver_key_def reply_in_try_def)
  then have "fst (register_proof cr r parsed i c s) = [ERegisterPeer p, EWrapKey p k c, ESendHistory p, ESendApprovals p, EReply (success_reply r p w)]"
    using h v by (simp add: register_proof_def with_device_key_def admit_peer_def)
  moreover have "parsed \<noteq> JNull" using h(3) by (auto simp: str_field_def)
  ultimately show ?thesis using h
    by (simp add: handleRegisterRequest_def handle_identity_def handle_register_def identified_def valid_token popRequirementUnmet_def)
qed

lemma nonce_held:
  assumes "pop_calls cfg ch = [CallIssue p n t1 t2]" "\<not> list_ex (challenged cfg p n) before"
    and "list_all (\<lambda>q. list_all (undisturbing p n (t2 + ttl)) (pop_calls cfg q)) others" "int (length (filter (issue_of p) (concat (map (pop_calls cfg) others)))) < cap" "t \<le> t2 + ttl"
  shows "fst (verify cr op p n sg jwk t (snd (run_requests cr cfg (before @ ch # others) (new_pop_store ttl cap)))) = check_proof cr op p n sg jwk"
proof -
  have "list_all (undisturbing p n (t2 + ttl)) (concat (map (pop_calls cfg) others))"
    using assms(3) by (auto simp: list_all_iff)
  moreover have "\<not> list_ex (issue_call p n) (concat (map (pop_calls cfg) before))" using assms(2) by (auto simp: challenged_def list_ex_iff)
  ultimately have "fst (verify cr op p n sg jwk t
      (snd (pop_trace cr (concat (map (pop_calls cfg) before) @ CallIssue p n t1 t2 # concat (map (pop_calls cfg) others)) (new_pop_store ttl cap)))) = check_proof cr op p n sg jwk"
    using assms(4,5) by (intro nonce_survives)
  then show ?thesis by (simp add: run_requests_store assms(1))
qed

text \<open>
  C33: An honest browser gets in.  After its challenge, whatever other peers request in the meantime, and with fewer than
  \<^verbatim>\<open>maxNoncesPerPeer\<close> further challenges of its own, a registration within the lifetime of the nonce with a valid proof is
  carried out: the peer is registered, its key is wrapped for its device and its attempt, both snapshots are sent and the reply carries
  the wrapped key.
\<close>

theorem honest_browser_registers:
  assumes "pop_calls cfg ch = [CallIssue p n t1 t2]" "\<not> list_ex (challenged cfg p n) before"
    and "list_all (\<lambda>q. list_all (undisturbing p n (t2 + ttl)) (pop_calls cfg q)) others" "int (length (filter (issue_of p) (concat (map (pop_calls cfg) others)))) < cap"
    and "honest cr cfg r p n k c w" "rr_clock r \<le> t2 + ttl"
  shows "fst (handleRegisterRequest cr cfg r (snd (run_requests cr cfg (before @ ch # others) (new_pop_store ttl cap)))) =
    [ERegisterPeer p, EWrapKey p k c, ESendHistory p, ESendApprovals p, EReply (success_reply r p w)]"
  by (rule honest_run[OF assms(5)]) (rule nonce_held[OF assms(1-4,6)])

section \<open>Log integrity\<close>

definition printable :: "char \<Rightarrow> bool" where
  "printable c \<longleftrightarrow> 32 \<le> (of_char c :: nat) \<and> \<not> unescaped_by_json c"

lemma hex_char_value: "d < 16 \<Longrightarrow> (of_char (hex_char d) :: nat) = (if d < 10 then 48 + d else 87 + d)"
  by (simp add: hex_char_def of_char_of)

lemma hex_char_printable: "d < 16 \<Longrightarrow> printable (hex_char d)"
  by (auto simp: printable_def unescaped_by_json_def hex_char_value)

lemma char_div: "(of_char (c :: char) :: nat) div 16 < 16" "(of_char (c :: char) :: nat) mod 16 < 16"
proof -
  have "(of_char c :: nat) < 256" by simp
  then show "(of_char c :: nat) div 16 < 16" by (simp add: less_mult_imp_div_less)
qed simp

lemma escape_printable: "list_all (\<lambda>d. 32 \<le> (of_char d :: nat)) (escape_char c)"
  using hex_char_printable char_div[of c] by (auto simp: escape_char_def printable_def)

lemma logSafe_printable: "list_all printable (logSafe s)"
proof -
  have "list_all (\<lambda>d. 32 \<le> (of_char d :: nat)) (quote s)"
    using escape_printable by (auto simp: quote_def list_all_iff)
  moreover have "list_all printable [CHR 0x5C, CHR ''u'', CHR ''0'']" by (simp add: printable_def unescaped_by_json_def)
  ultimately show ?thesis using hex_char_printable char_div
    by (auto simp: logSafe_def list_all_iff) (auto simp: printable_def)
qed

text \<open>The log lines of a run other than the capacity diagnostics are printable.\<close>

definition clean_logs :: "reg_run \<Rightarrow> bool" where
  "clean_logs run \<longleftrightarrow> (\<forall>t. ELog t \<in> set (fst run) \<longrightarrow> list_all printable t \<or> (\<exists>st. t = formatCapacityReject st))"

named_theorems hop_logs \<open>pieces of the handler that log only printable lines\<close>

lemma clean_reply [hop_logs]: "clean_logs (send_reply r t s)"
  by (simp add: clean_logs_def send_reply_def)

lemma clean_pair [hop_logs]: "clean_logs ([], rest)" "clean_logs ([EUnregisterPeer p], rest)"
  by (simp_all add: clean_logs_def)

lemma clean_log [hop_logs]: "list_all printable t \<Longrightarrow> clean_logs k \<Longrightarrow> clean_logs (log_then r t s k)"
  by (auto simp: clean_logs_def log_then_def split: option.splits if_splits)

lemmas printable_text = logSafe_printable printable_def unescaped_by_json_def

lemma clean_diagnostics: "t \<in> set (capacity_diagnostics r st) \<Longrightarrow> t = ELog x \<Longrightarrow> x = formatCapacityReject st"
  by (auto simp: capacity_diagnostics_def split: option.splits if_splits)

lemma clean_catch [hop_logs]: "clean_logs (catch_failure r p e s)"
proof -
  have reply: "clean_logs (case send_reply r t s of (es, s', True) \<Rightarrow> (es @ f, s', True) | failed \<Rightarrow> failed)" if "clean_logs (f, s, True)" for t f
    using that by (simp add: send_reply_def clean_logs_def)
  have "clean_logs (capacity_diagnostics r st, s, True)" for st
    using clean_diagnostics[of _ r st] by (auto simp: clean_logs_def)
  moreover have "clean_logs (fst (log_in_try r ''webchannel: malformed conversation-key capacity error; registration failed''), s, True)"
    by (simp add: clean_logs_def log_in_try_def printable_text split: option.split)
  ultimately show ?thesis unfolding catch_failure_def
    by (simp add: reply hop_logs printable_text split: option.split)
qed

definition clean_effects :: "reg_effect list \<Rightarrow> bool" where
  "clean_effects es \<longleftrightarrow> (\<forall>t. ELog t \<in> set es \<longrightarrow> list_all printable t)"

lemma clean_in_order: "list_all (\<lambda>c. clean_effects (fst c)) cs \<Longrightarrow> clean_effects (fst (in_order cs))"
  by (induction cs rule: in_order.induct) (auto simp: clean_effects_def split: prod.splits)

lemma clean_deliver: "clean_effects (fst (deliver_key r p k c))"
proof -
  have "clean_effects [ERegisterPeer p]" "clean_effects [EWrapKey p k c]" "clean_effects [ESendHistory p]" "clean_effects [ESendApprovals p]" "clean_effects (fst (reply_in_try r t))" for t
    by (auto simp: clean_effects_def reply_in_try_def split: option.splits)
  moreover have "clean_effects (fst (log_in_try r (''webchannel: no conversation key established for '' @ logSafe p @ '' at register'')))"
    by (simp add: clean_effects_def log_in_try_def printable_text split: option.split)
  ultimately show ?thesis unfolding deliver_key_def
    by (intro clean_in_order) (auto simp del: in_order.simps append_Cons intro!: clean_in_order split: sum.split option.split)
qed

lemma clean_admit [hop_logs]: "clean_logs (admit_peer r p k c s)"
proof -
  obtain es e where d: "deliver_key r p k c = (es, e)" by fastforce
  obtain es' rest where f: "catch_failure r p (the e) s = (es', rest)" by (meson surj_pair)
  show ?thesis using clean_deliver[of r p k c] clean_catch[of r p "the e" s] d f
    by (cases e) (auto simp: admit_peer_def clean_logs_def clean_effects_def)
qed

lemma clean_device [hop_logs]: "clean_logs (with_device_key r i c s)"
  by (simp add: with_device_key_def hop_logs printable_text split: option.split)

lemma clean_proof [hop_logs]: "clean_logs (register_proof cr r parsed i c s)"
  by (simp add: register_proof_def hop_logs printable_text Let_def split: option.split prod.split verify_reason.split)

lemma clean_unregister [hop_logs]: "clean_logs (handle_unregister cr cfg r parsed token s)"
  by (simp add: handle_unregister_def hop_logs printable_text Let_def valid_token split: option.split prod.split verify_reason.split verify_answer.split)

lemma clean_identity [hop_logs]: "clean_logs (handle_identity cr cfg r parsed op i s)"
  by (simp add: handle_identity_def handle_register_def hop_logs printable_text Let_def valid_token)

text \<open>
  No request can forge a log record.  Every line the handler writes to the security log consists of printable characters
  only, whatever the peer id, the subject or the text of an error contain; the one line that is not escaped is the capacity diagnostic, which
  names nothing of the request.
\<close>

theorem register_logs_printable:
  assumes "ELog t \<in> set (fst (handleRegisterRequest cr cfg r s))"
  shows "list_all printable t \<or> (\<exists>st. t = formatCapacityReject st)"
proof -
  have "clean_logs (handleRegisterRequest cr cfg r s)"
    by (simp add: handleRegisterRequest_def hop_logs printable_text Let_def split: option.split verify_answer.split)
  then show ?thesis using assms by (simp add: clean_logs_def)
qed

section \<open>Witnesses\<close>

definition demo_cfg :: reg_config where
  "demo_cfg = \<lparr>rc_tenant = ''t1'', rc_requirePoP = True\<rparr>"

definition demo_identity :: jwt_identity where
  "demo_identity = \<lparr>ji_peerId = ''ann'', ji_tenant = Some ''t1'', ji_displayName = None, ji_devicePublicKey = Some ''dk'', ji_popPublicJwk = Some demo_jwk\<rparr>"

definition demo_wrapped :: wrapped_key where
  "demo_wrapped = \<lparr>wk_ephemeralPublicKey = ''e'', wk_nonce = ''n'', wk_ciphertext = ''c'', wk_tag = ''t''\<rparr>"

definition demo_request :: "string \<Rightarrow> string \<Rightarrow> reg_request" where
  "demo_request op signature = \<lparr>rr_subjectPeerId = ''ann'',
     rr_parsed = Some (JObj [(''op'', JStr op), (''token'', JStr ''jwt''), (''nonce'', JStr ''n1''), (''signature'', JStr signature),
       (''protocolVersion'', JNum 3), (''clientNonce'', JStr ''abcdefghijklmnopqrstuv'')]),
     rr_verifyIdentity = \<lambda>_. Identity demo_identity, rr_drawn = ''n1'', rr_sweepClock = 0, rr_clock = 1, rr_base64url = \<lambda>_. replicate 32 0,
     rr_registerPeer = None, rr_wrap = \<lambda>_ _. Inr (Some demo_wrapped), rr_history = None, rr_approvals = None, rr_pluginVersion = None,
     rr_reply = \<lambda>_. None, rr_logger = Some (\<lambda>_. None), rr_onCapacityReject = None\<rparr>"

definition demo_challenge :: reg_request where
  "demo_challenge = demo_request ''challenge'' ''''"

definition demo_register :: reg_request where
  "demo_register = demo_request ''register'' (''k'' @ popSignedMessage Register ''ann'' ''n1'')"

text \<open>A full account: the key store refuses the new peer.\<close>

definition demo_full :: reg_request where
  "demo_full = demo_register\<lparr>rr_registerPeer := Some \<lparr>th_fields = JObj [(''name'', JStr ''ConversationKeyCapacityError''), (''accountId'', JStr ''acc''),
     (''currentKeys'', JNum 5), (''maxKeys'', JNum 5)], th_text = ''ConversationKeyCapacityError''\<rparr>\<rparr>"

definition demo_after :: pop_store where
  "demo_after = snd (run_requests demo_crypto demo_cfg [demo_challenge] (new_pop_store 120000 8))"

lemma demo_calm: "calm demo_register"
  by (simp add: calm_def demo_register_def demo_request_def)

theorem register_authorised_witness:
  "ERegisterPeer ''ann'' \<in> set (fst (handleRegisterRequest demo_crypto demo_cfg demo_register demo_after)) \<and>
   authorised demo_crypto demo_cfg demo_register demo_after Register ''ann''"
proof -
  have "ERegisterPeer ''ann'' \<in> set (fst (handleRegisterRequest demo_crypto demo_cfg demo_register demo_after))" by code_simp
  then show ?thesis using register_authorised by fastforce
qed

theorem admissions_single_use_witness:
  "length (filter (\<lambda>(r, es). acts_with ''ann'' ''n1'' r es)
     (fst (run_requests demo_crypto demo_cfg [demo_challenge, demo_register, demo_register] (new_pop_store 120000 8)))) \<le> 1"
proof -
  have "length (filter (challenged demo_cfg ''ann'' ''n1'') [demo_challenge, demo_register, demo_register]) = 1" by code_simp
  moreover have "rc_requirePoP demo_cfg" by (simp add: demo_cfg_def)
  ultimately show ?thesis using admissions_single_use[of demo_cfg "''ann''" "''n1''" demo_crypto "[demo_challenge, demo_register, demo_register]" 120000 8] by simp
qed

theorem register_answers_once_witness: "answered (handleRegisterRequest demo_crypto demo_cfg demo_register demo_after)"
proof -
  have "str_field ''op'' (the (rr_parsed demo_register)) \<noteq> ''unregister''" "rr_parsed demo_register \<noteq> None" "the (rr_parsed demo_register) \<noteq> JNull" by code_simp+
  then show ?thesis using register_answers_once[OF demo_calm, of demo_crypto demo_cfg demo_after] by auto
qed

theorem register_reply_opaque_witness: "authorised demo_crypto demo_cfg demo_full demo_after Register ''ann''"
proof -
  have "EReply REGISTER_CAPACITY_EXCEEDED \<in> set (fst (handleRegisterRequest demo_crypto demo_cfg demo_full demo_after))" by code_simp
  moreover have "REGISTER_CAPACITY_EXCEEDED \<notin> {REGISTER_UNAUTHORIZED, REGISTER_UNAVAILABLE, REGISTER_PROTOCOL_MISMATCH, stringify (JObj [(''nonce'', JStr (rr_drawn demo_full))])}"
    "rr_subjectPeerId demo_full = ''ann''" by code_simp+
  ultimately show ?thesis using register_reply_opaque[of REGISTER_CAPACITY_EXCEEDED demo_crypto demo_cfg demo_full demo_after] by auto
qed

lemma demo_honest: "honest demo_crypto demo_cfg demo_register ''ann'' ''n1'' (replicate 32 0) ''abcdefghijklmnopqrstuv'' demo_wrapped"
proof -
  have "identified demo_cfg demo_register" "isValidClientNonce ''abcdefghijklmnopqrstuv''"
    "check_proof demo_crypto Register ''ann'' ''n1'' (''k'' @ popSignedMessage Register ''ann'' ''n1'') demo_jwk = Verified" by code_simp+
  then show ?thesis unfolding honest_def
    by (intro exI[of _ "the (rr_parsed demo_register)"] exI[of _ demo_identity] exI[of _ demo_jwk] exI[of _ "''dk''"])
      (simp add: demo_register_def demo_request_def demo_identity_def str_field_def WEBCHANNEL_PROTOCOL_VERSION_def)
qed

theorem honest_browser_registers_witness:
  "fst (handleRegisterRequest demo_crypto demo_cfg demo_register (snd (run_requests demo_crypto demo_cfg ([] @ demo_challenge # []) (new_pop_store 120000 8)))) =
    [ERegisterPeer ''ann'', EWrapKey ''ann'' (replicate 32 0) ''abcdefghijklmnopqrstuv'', ESendHistory ''ann'', ESendApprovals ''ann'', EReply (success_reply demo_register ''ann'' demo_wrapped)]"
proof -
  have "pop_calls demo_cfg demo_challenge = [CallIssue ''ann'' ''n1'' 0 1]" "rr_clock demo_register \<le> 1 + 120000" by code_simp+
  from honest_browser_registers[OF this(1) _ _ _ demo_honest this(2), of "[]" "[]" 8] show ?thesis by simp
qed

theorem register_logs_printable_witness:
  "list_all printable (''webchannel: register subject peerId '' @ logSafe (''a'' @ [CHR 0x0A]) @ '' != JWT peerId '' @ logSafe ''ann'' @ '' -- rejecting'')"
proof -
  let ?t = "''webchannel: register subject peerId '' @ logSafe (''a'' @ [CHR 0x0A]) @ '' != JWT peerId '' @ logSafe ''ann'' @ '' -- rejecting''"
  have "ELog ?t \<in> set (fst (handleRegisterRequest demo_crypto demo_cfg (demo_register\<lparr>rr_subjectPeerId := ''a'' @ [CHR 0x0A]\<rparr>) demo_after))" by code_simp
  from register_logs_printable[OF this] show ?thesis
  proof
    assume "\<exists>st. ?t = formatCapacityReject st"
    then show ?thesis by (simp add: formatCapacityReject_def)
  qed
qed

end
