(* ===== verification/Browser_Register.thy ===== *)
theory Browser_Register
  imports Browser_Crypto Register_Hop
begin

text \<open>
  The browser's half of the registration (\<^verbatim>\<open>src/packages/client/src/pop-register.ts\<close>): the challenge, the signed
  proof, the registration with its bounded retry, and the teardown.

  One round trip is a function of the state of the network, an error where the promise rejects; the random octets
  of an attempt are a function of its number.  \<^verbatim>\<open>crypto.subtle.sign\<close> is a parameter, \<open>None\<close> where it throws.  Replies are parsed values, and
  only objects carry fields.
\<close>

section \<open>The proof\<close>

definition CLIENT_NONCE_BYTES :: nat where
  "CLIENT_NONCE_BYTES = 32"

text \<open>The argument is \<^verbatim>\<open>randomBytes\<close>.\<close>

definition generateClientNonce :: "(nat \<Rightarrow> byte list) \<Rightarrow> string" where
  "generateClientNonce random = base64urlEncode (random CLIENT_NONCE_BYTES)"

definition browser_popSignedMessage :: "pop_op \<Rightarrow> string \<Rightarrow> string \<Rightarrow> string" where
  "browser_popSignedMessage op peerId nonce = ''webchannel-pop:'' @ (case op of Register \<Rightarrow> ''register'' | Unregister \<Rightarrow> ''unregister'') @ '':'' @ peerId @ '':'' @ nonce"

definition signPop :: "('sk \<Rightarrow> byte list \<Rightarrow> byte list option) \<Rightarrow> 'sk \<Rightarrow> pop_op \<Rightarrow> string \<Rightarrow> string \<Rightarrow> string option" where
  "signPop sign privateKey op peerId nonce = map_option base64urlEncode (sign privateKey (textEncode (browser_popSignedMessage op peerId nonce)))"

section \<open>Replies\<close>

text \<open>JavaScript's truth value of a property.\<close>

fun field_truthy :: "json option \<Rightarrow> bool" where
  "field_truthy None \<longleftrightarrow> False"
| "field_truthy (Some JNull) \<longleftrightarrow> False"
| "field_truthy (Some (JBool b)) \<longleftrightarrow> b"
| "field_truthy (Some (JNum i)) \<longleftrightarrow> i \<noteq> 0"
| "field_truthy (Some (JStr s)) \<longleftrightarrow> s \<noteq> []"
| "field_truthy (Some _) \<longleftrightarrow> True"

text \<open>What a template literal makes of a value; an object has the default conversion.\<close>

fun js_String :: "json \<Rightarrow> string" where
  "js_String JNull = ''null''"
| "js_String (JBool b) = (if b then ''true'' else ''false'')"
| "js_String (JNum i) = show_int i"
| "js_String (JStr s) = s"
| "js_String (JArr xs) = join '','' (map (\<lambda>x. if x = JNull then [] else js_String x) xs)"
| "js_String (JObj ps) = ''[object Object]''"

definition safe_integer :: "int \<Rightarrow> bool" where
  "safe_integer i \<longleftrightarrow> \<bar>i\<bar> \<le> max_safe_integer"

text \<open>
  The errors of a registration.  \<open>RequestFailed\<close> is what a rejected round trip throws, \<open>SignFailed\<close> what the signature throws, and \<open>NullReply\<close> the type
  error of reading a field of \<^verbatim>\<open>null\<close>.
\<close>

datatype register_error =
    RequestFailed string
  | ChallengeUnavailable
  | ChallengeWithoutNonce
  | RegisterUnavailable
  | RetriesExhausted
  | SignFailed
  | NullReply
  | PopRejectedError
  | PopServerError "json option"
  | PopCapacityError
  | ProtocolMismatchError int
  | ProtocolVersionMalformedError "json option"

fun isTerminalRegisterError :: "register_error \<Rightarrow> bool" where
  "isTerminalRegisterError PopRejectedError \<longleftrightarrow> True"
| "isTerminalRegisterError PopCapacityError \<longleftrightarrow> True"
| "isTerminalRegisterError (PopServerError c) \<longleftrightarrow> True"
| "isTerminalRegisterError (ProtocolMismatchError v) \<longleftrightarrow> True"
| "isTerminalRegisterError (ProtocolVersionMalformedError v) \<longleftrightarrow> True"
| "isTerminalRegisterError _ \<longleftrightarrow> False"

record registration =
  rg_peerId :: string
  rg_wrappedConversationKey :: "json option"
  rg_clientNonce :: string
  rg_protocolVersion :: int
  rg_pluginVersion :: "string option"

text \<open>How an attempt ends: \<open>Again\<close> is \<^verbatim>\<open>continue\<close> with the error kept in \<^verbatim>\<open>lastTimeout\<close>, \<open>Fail\<close> a throw.\<close>

datatype attempt_end = Again register_error | Fail register_error | Done registration

definition version_error :: "json option \<Rightarrow> register_error + int" where
  "version_error pv = (case pv of
     Some (JNum v) \<Rightarrow> if safe_integer v then Inr v else Inl (ProtocolVersionMalformedError pv)
   | _ \<Rightarrow> Inl (ProtocolVersionMalformedError pv))"

definition register_outcome :: "string \<Rightarrow> string \<Rightarrow> json \<Rightarrow> attempt_end" where
  "register_outcome peerId clientNonce reply =
     (let code = json_field ''code'' reply in
      if field_truthy (json_field ''error'' reply) then
        if code = Some (JNum 503) then Again RegisterUnavailable
        else if code = Some (JNum 401) then Fail PopRejectedError
        else if code = Some (JNum 426) then
          (case version_error (json_field ''protocolVersion'' reply) of Inl e \<Rightarrow> Fail e | Inr advertised \<Rightarrow> Fail (ProtocolMismatchError advertised))
        else if code = Some (JNum 507) \<and> json_field ''error'' reply = Some (JStr ''capacity_exceeded'') then Fail PopCapacityError
        else Fail (PopServerError code)
      else if reply = JNull then Fail NullReply
      else (case version_error (json_field ''protocolVersion'' reply) of
          Inl e \<Rightarrow> Fail e
        | Inr pv \<Rightarrow> Done \<lparr>rg_peerId = peerId,
            rg_wrappedConversationKey = (if field_truthy (json_field ''wrappedConversationKey'' reply) then json_field ''wrappedConversationKey'' reply else None),
            rg_clientNonce = clientNonce, rg_protocolVersion = pv,
            rg_pluginVersion = (case json_field ''pluginVersion'' reply of Some (JStr v) \<Rightarrow> Some v | _ \<Rightarrow> None)\<rparr>))"

section \<open>Registration\<close>

type_synonym 's request_fn = "'s \<Rightarrow> json \<Rightarrow> (string + json) \<times> 's"

record ('s, 'sk) register_options =
  ro_request :: "'s request_fn"
  ro_jwt :: string
  ro_peerId :: string
  ro_sign :: "'sk \<Rightarrow> byte list \<Rightarrow> byte list option"
  ro_devicePrivateKey :: 'sk
  ro_retries :: "int option"

definition challenge_request :: "string \<Rightarrow> json" where
  "challenge_request jwt = JObj [(''op'', JStr ''challenge''), (''token'', JStr jwt)]"

definition register_request :: "string \<Rightarrow> json \<Rightarrow> string \<Rightarrow> string \<Rightarrow> json" where
  "register_request jwt nonce signature clientNonce = JObj [(''op'', JStr ''register''), (''token'', JStr jwt), (''nonce'', nonce), (''signature'', JStr signature),
     (''protocolVersion'', JNum WEBCHANNEL_PROTOCOL_VERSION), (''clientNonce'', JStr clientNonce)]"

text \<open>One pass of the loop, from the challenge to the register reply.\<close>

definition present_proof :: "('s, 'sk) register_options \<Rightarrow> string \<Rightarrow> json \<Rightarrow> 's \<Rightarrow> attempt_end \<times> 's" where
  "present_proof opts clientNonce nonce s =
     (case signPop (ro_sign opts) (ro_devicePrivateKey opts) Register (ro_peerId opts) (js_String nonce) of
        None \<Rightarrow> (Fail SignFailed, s)
      | Some signature \<Rightarrow>
          (case ro_request opts s (register_request (ro_jwt opts) nonce signature clientNonce) of
             (Inl err, s') \<Rightarrow> (Again (RequestFailed err), s')
           | (Inr reply, s') \<Rightarrow> (register_outcome (ro_peerId opts) clientNonce reply, s')))"

definition register_attempt :: "('s, 'sk) register_options \<Rightarrow> string \<Rightarrow> 's \<Rightarrow> attempt_end \<times> 's" where
  "register_attempt opts clientNonce s =
     (case ro_request opts s (challenge_request (ro_jwt opts)) of
        (Inl err, s') \<Rightarrow> (Again (RequestFailed err), s')
      | (Inr reply, s') \<Rightarrow>
          if field_truthy (json_field ''error'' reply) then
            if json_field ''code'' reply = Some (JNum 503) then (Again ChallengeUnavailable, s') else (Fail PopRejectedError, s')
          else if \<not> field_truthy (json_field ''nonce'' reply) then (Again ChallengeWithoutNonce, s')
          else present_proof opts clientNonce (the (json_field ''nonce'' reply)) s')"

text \<open>The passes that are left, counting up from \<open>attempt\<close>.\<close>

fun register_attempts :: "('s, 'sk) register_options \<Rightarrow> (nat \<Rightarrow> nat \<Rightarrow> byte list) \<Rightarrow> nat \<Rightarrow> nat \<Rightarrow> register_error option \<Rightarrow> 's \<Rightarrow> (register_error + registration) \<times> 's" where
  "register_attempts opts random attempt 0 lastTimeout s = (Inl (case lastTimeout of Some e \<Rightarrow> e | None \<Rightarrow> RetriesExhausted), s)"
| "register_attempts opts random attempt (Suc left) lastTimeout s =
     (case register_attempt opts (generateClientNonce (random attempt)) s of
        (Done result, s') \<Rightarrow> (Inr result, s')
      | (Fail e, s') \<Rightarrow> (Inl e, s')
      | (Again e, s') \<Rightarrow> register_attempts opts random (Suc attempt) left (Some e) s')"

definition max_attempts :: "('s, 'sk) register_options \<Rightarrow> nat" where
  "max_attempts opts = nat ((case ro_retries opts of Some r \<Rightarrow> r | None \<Rightarrow> 2) + 1)"

definition registerWithPop :: "('s, 'sk) register_options \<Rightarrow> (nat \<Rightarrow> nat \<Rightarrow> byte list) \<Rightarrow> 's \<Rightarrow> (register_error + registration) \<times> 's" where
  "registerWithPop opts random s = register_attempts opts random 0 (max_attempts opts) None s"

section \<open>Teardown\<close>

text \<open>\<open>publish\<close> gives whether it returned.\<close>

definition unregisterWithPop :: "('s, 'sk) register_options \<Rightarrow> ('s \<Rightarrow> json \<Rightarrow> bool \<times> 's) \<Rightarrow> 's \<Rightarrow> bool \<times> 's" where
  "unregisterWithPop opts publish s =
     (case ro_request opts s (challenge_request (ro_jwt opts)) of
        (Inl err, s') \<Rightarrow> (False, s')
      | (Inr reply, s') \<Rightarrow>
          if field_truthy (json_field ''error'' reply) \<or> \<not> field_truthy (json_field ''nonce'' reply) then (False, s')
          else (let nonce = the (json_field ''nonce'' reply) in
            case signPop (ro_sign opts) (ro_devicePrivateKey opts) Unregister (ro_peerId opts) (js_String nonce) of
              None \<Rightarrow> (False, s')
            | Some signature \<Rightarrow>
                publish s' (JObj [(''op'', JStr ''unregister''), (''token'', JStr (ro_jwt opts)), (''nonce'', nonce), (''signature'', JStr signature)])))"

section \<open>The frames of a registration\<close>

text \<open>The same options over a network that keeps the frames sent.\<close>

definition recording :: "('s, 'sk) register_options \<Rightarrow> (json list \<times> 's, 'sk) register_options" where
  "recording opts = \<lparr>ro_request = \<lambda>(sent, s) j. (case ro_request opts s j of (a, s') \<Rightarrow> (a, (sent @ [j], s'))),
     ro_jwt = ro_jwt opts, ro_peerId = ro_peerId opts, ro_sign = ro_sign opts, ro_devicePrivateKey = ro_devicePrivateKey opts, ro_retries = ro_retries opts\<rparr>"

lemma recording_simps [simp]:
  "ro_request (recording opts) (sent, s) j = (fst (ro_request opts s j), (sent @ [j], snd (ro_request opts s j)))"
  "ro_jwt (recording opts) = ro_jwt opts" "ro_peerId (recording opts) = ro_peerId opts" "ro_sign (recording opts) = ro_sign opts"
  "ro_devicePrivateKey (recording opts) = ro_devicePrivateKey opts" "ro_retries (recording opts) = ro_retries opts"
  by (simp_all add: recording_def split: prod.split)

definition anchors :: "json list \<Rightarrow> string list" where
  "anchors sent = concat (map (\<lambda>j. if json_field ''op'' j = Some (JStr ''register'') then [str_field ''clientNonce'' j] else []) sent)"

definition challenges :: "json list \<Rightarrow> nat" where
  "challenges sent = length (filter (\<lambda>j. json_field ''op'' j = Some (JStr ''challenge'')) sent)"

lemma anchors_simps [simp]:
  "anchors [] = []" "anchors (sent @ sent') = anchors sent @ anchors sent'" "anchors (challenge_request jwt # sent) = anchors sent"
  "anchors (register_request jwt n sg c # sent) = c # anchors sent"
  "challenges [] = 0" "challenges (sent @ sent') = challenges sent + challenges sent'" "challenges (challenge_request jwt # sent) = Suc (challenges sent)"
  "challenges (register_request jwt n sg c # sent) = challenges sent"
  by (simp_all add: anchors_def challenges_def challenge_request_def register_request_def str_field_def)

definition ends_loop :: "register_error \<Rightarrow> bool" where
  "ends_loop e \<longleftrightarrow> isTerminalRegisterError e \<or> e = SignFailed \<or> e = NullReply"

text \<open>What one pass sends, and what its end says.\<close>

lemma register_outcome_cases:
  "register_outcome p c reply = Done r \<Longrightarrow> rg_clientNonce r = c \<and> rg_peerId r = p"
  "register_outcome p c reply = Fail e \<Longrightarrow> ends_loop e"
  "register_outcome p c reply = Again e \<Longrightarrow> \<not> ends_loop e"
  by (auto simp: register_outcome_def Let_def version_error_def ends_loop_def split: if_splits sum.splits option.splits json.splits)

lemma register_attempt_frames:
  assumes "register_attempt (recording opts) c (sent, s) = (a, (sent', s'))"
  obtains fs where "sent' = sent @ fs" "challenges fs = 1" "length fs \<le> 2" "anchors fs = [] \<and> (\<forall>r. a \<noteq> Done r) \<or> anchors fs = [c]"
    "\<forall>r. a = Done r \<longrightarrow> rg_clientNonce r = c \<and> rg_peerId r = ro_peerId opts" "\<forall>e. a = Fail e \<longrightarrow> ends_loop e" "\<forall>e. a = Again e \<longrightarrow> \<not> ends_loop e"
    "register_attempt opts c s = (a, s')"
proof -
  let ?ch = "challenge_request (ro_jwt opts)"
  obtain b s1 where b: "ro_request opts s ?ch = (b, s1)" by fastforce
  show ?thesis
  proof (cases "\<exists>reply. b = Inr reply \<and> \<not> field_truthy (json_field ''error'' reply) \<and> field_truthy (json_field ''nonce'' reply)")
    case False
    then show ?thesis using assms b
      by (intro that[of "[?ch]"]) (auto simp: register_attempt_def ends_loop_def split: sum.splits if_splits)
  next
    case True
    then obtain reply where r: "b = Inr reply" "\<not> field_truthy (json_field ''error'' reply)" "field_truthy (json_field ''nonce'' reply)" by blast
    let ?n = "the (json_field ''nonce'' reply)"
    have p: "present_proof (recording opts) c ?n (sent @ [?ch], s1) = (a, (sent', s'))" "register_attempt opts c s = present_proof opts c ?n s1"
      using assms b r by (simp_all add: register_attempt_def)
    show ?thesis
    proof (cases "signPop (ro_sign opts) (ro_devicePrivateKey opts) Register (ro_peerId opts) (js_String ?n)")
      case None
      then show ?thesis using p by (intro that[of "[?ch]"]) (auto simp: present_proof_def ends_loop_def)
    next
      case (Some sg)
      let ?rg = "register_request (ro_jwt opts) ?n sg c"
      obtain d s2 where d: "ro_request opts s1 ?rg = (d, s2)" by fastforce
      show ?thesis using p Some d
        by (intro that[of "[?ch, ?rg]"]) (auto simp: present_proof_def ends_loop_def[of "RequestFailed _"] dest: register_outcome_cases split: sum.splits)
    qed
  qed
qed

definition nonces_of :: "(nat \<Rightarrow> nat \<Rightarrow> byte list) \<Rightarrow> nat list \<Rightarrow> string list" where
  "nonces_of random as = map (\<lambda>a. generateClientNonce (random a)) as"

text \<open>The frames \<open>fs\<close> of the passes from \<open>a\<close> on, of which at most \<open>n\<close> are left, with their result.\<close>

definition frames_of_run :: "(nat \<Rightarrow> nat \<Rightarrow> byte list) \<Rightarrow> string \<Rightarrow> nat \<Rightarrow> nat \<Rightarrow> json list \<Rightarrow> register_error + registration \<Rightarrow> bool" where
  "frames_of_run random p a n fs res \<longleftrightarrow> length fs \<le> 2 * challenges fs \<and> challenges fs \<le> n \<and>
     (\<exists>as. anchors fs = nonces_of random as \<and> sorted_wrt (<) as \<and> (\<forall>x \<in> set as. a \<le> x \<and> x < a + n) \<and>
        (\<forall>r. res = Inr r \<longrightarrow> rg_peerId r = p \<and> as \<noteq> [] \<and> rg_clientNonce r = generateClientNonce (random (last as)))) \<and>
     (\<forall>e. res = Inl e \<longrightarrow> ends_loop e \<or> challenges fs = n)"

lemma frames_of_run_step:
  assumes "frames_of_run random p (Suc a) n gs res" "challenges fs = 1" "length fs \<le> 2" "anchors fs = [] \<or> anchors fs = [generateClientNonce (random a)]"
  shows "frames_of_run random p a (Suc n) (fs @ gs) res"
proof -
  obtain as where as: "anchors gs = nonces_of random as" "sorted_wrt (<) as" "\<forall>x \<in> set as. Suc a \<le> x \<and> x < Suc a + n"
    "\<forall>r. res = Inr r \<longrightarrow> rg_peerId r = p \<and> as \<noteq> [] \<and> rg_clientNonce r = generateClientNonce (random (last as))"
    using assms(1) by (auto simp: frames_of_run_def)
  let ?as = "(if anchors fs = [] then [] else [a]) @ as"
  have "anchors (fs @ gs) = nonces_of random ?as" using assms(4) as(1) by (auto simp: nonces_of_def)
  moreover have "sorted_wrt (<) ?as" "\<forall>x \<in> set ?as. a \<le> x \<and> x < a + Suc n" using as(2,3) by (auto simp: sorted_wrt_append)
  moreover have "\<forall>r. res = Inr r \<longrightarrow> rg_peerId r = p \<and> ?as \<noteq> [] \<and> rg_clientNonce r = generateClientNonce (random (last ?as))" using as(4) by auto
  moreover have "length (fs @ gs) \<le> 2 * challenges (fs @ gs)" "challenges (fs @ gs) \<le> Suc n" "\<forall>e. res = Inl e \<longrightarrow> ends_loop e \<or> challenges (fs @ gs) = Suc n"
    using assms(1-3) by (auto simp: frames_of_run_def)
  ultimately show ?thesis unfolding frames_of_run_def by blast
qed

lemma register_attempts_frames:
  assumes "register_attempts (recording opts) random a n t (sent, s) = (res, (sent', s'))" "\<forall>e. t = Some e \<longrightarrow> \<not> ends_loop e"
  shows "\<exists>fs. sent' = sent @ fs \<and> frames_of_run random (ro_peerId opts) a n fs res \<and> register_attempts opts random a n t s = (res, s')"
  using assms
proof (induction n arbitrary: a t sent s)
  case 0
  have "frames_of_run random (ro_peerId opts) a 0 [] res" using 0 by (auto simp: frames_of_run_def nonces_of_def)
  then show ?case using 0 by auto
next
  case (Suc n)
  obtain b s1 sent1 where b: "register_attempt (recording opts) (generateClientNonce (random a)) (sent, s) = (b, (sent1, s1))"
    by (metis prod.collapse)
  then obtain fs where fs: "sent1 = sent @ fs" "challenges fs = 1" "length fs \<le> 2" "anchors fs = [] \<and> (\<forall>r. b \<noteq> Done r) \<or> anchors fs = [generateClientNonce (random a)]"
    "\<forall>r. b = Done r \<longrightarrow> rg_clientNonce r = generateClientNonce (random a) \<and> rg_peerId r = ro_peerId opts" "\<forall>e. b = Fail e \<longrightarrow> ends_loop e" "\<forall>e. b = Again e \<longrightarrow> \<not> ends_loop e"
    "register_attempt opts (generateClientNonce (random a)) s = (b, s1)"
    by (rule register_attempt_frames)
  show ?case
  proof (cases b)
    case (Again e)
    then have "register_attempts (recording opts) random (Suc a) n (Some e) (sent1, s1) = (res, (sent', s'))" using Suc.prems(1) b by simp
    from Suc.IH[OF this] fs(7) Again obtain gs where "sent' = sent1 @ gs" "frames_of_run random (ro_peerId opts) (Suc a) n gs res"
      "register_attempts opts random (Suc a) n (Some e) s1 = (res, s')" by auto
    then show ?thesis using frames_of_run_step[OF _ fs(2,3)] fs(1,4,8) Again by auto
  next
    case (Fail e)
    then have "frames_of_run random (ro_peerId opts) a (Suc n) fs res" "res = Inl e" "sent' = sent1" "s' = s1"
      using Suc.prems(1) b fs(2-4) fs(6) Fail
      by (auto simp: frames_of_run_def nonces_of_def intro: exI[of _ "[]"] exI[of _ "[a]"])
    then show ?thesis using fs(1,8) Fail by auto
  next
    case (Done r)
    then have "frames_of_run random (ro_peerId opts) a (Suc n) fs res" "res = Inr r" "sent' = sent1" "s' = s1"
      using Suc.prems(1) b fs(2-4) fs(5) Done
      by (auto simp: frames_of_run_def nonces_of_def intro!: exI[of _ "[a]"])
    then show ?thesis using fs(1,8) Done by auto
  qed
qed

lemma base64url_inject: "base64urlEncode x = base64urlEncode y \<longleftrightarrow> x = y"
  by (metis decode_encode option.inject)

section \<open>Properties\<close>

text \<open>
  C32: The browser never presents a freshness anchor twice.  As long as the random source does not repeat itself within the call, the register
  frames of a call carry pairwise different client nonces, and the nonce a successful call hands on is the one of its last register frame, whatever
  the replies contain.
\<close>

theorem register_anchor_fresh:
  assumes "registerWithPop (recording opts) random ([], s) = (res, (sent, s'))" "inj_on (\<lambda>a. random a CLIENT_NONCE_BYTES) {..<max_attempts opts}"
  shows "distinct (anchors sent) \<and> (\<forall>r. res = Inr r \<longrightarrow> rg_peerId r = ro_peerId opts \<and> anchors sent \<noteq> [] \<and> rg_clientNonce r = last (anchors sent)) \<and>
    registerWithPop opts random s = (res, s')"
proof -
  have "max_attempts (recording opts) = max_attempts opts" by (simp add: max_attempts_def)
  then obtain as where as: "anchors sent = nonces_of random as" "sorted_wrt (<) as" "\<forall>x \<in> set as. x < max_attempts opts"
    "\<forall>r. res = Inr r \<longrightarrow> rg_peerId r = ro_peerId opts \<and> as \<noteq> [] \<and> rg_clientNonce r = generateClientNonce (random (last as))"
    and run: "registerWithPop opts random s = (res, s')"
    using register_attempts_frames[of opts random 0 "max_attempts opts" None "[]" s res sent s'] assms(1)
    by (auto simp: registerWithPop_def frames_of_run_def)
  have "inj_on (\<lambda>a. generateClientNonce (random a)) (set as)" 
    using assms(2) as(3) by (auto simp: inj_on_def generateClientNonce_def base64url_inject)
  then have "distinct (anchors sent)" using as(1,2) by (simp add: nonces_of_def distinct_map strict_sorted_iff)
  then show ?thesis using as(1,4) run by (auto simp: nonces_of_def last_map)
qed

text \<open>
  Retries are bounded and given up only for a reason.  A call sends at most one challenge for each of its attempts and at most two
  frames for each challenge; it ends with an error before the last attempt only for a reply that no retry can change, for
  a failing signature or for the reply \<^verbatim>\<open>null\<close>.
\<close>

theorem register_retries_bounded:
  assumes "registerWithPop (recording opts) random ([], s) = (res, (sent, s'))"
  shows "length sent \<le> 2 * challenges sent \<and> challenges sent \<le> max_attempts opts \<and>
    (\<forall>e. res = Inl e \<longrightarrow> isTerminalRegisterError e \<or> e = SignFailed \<or> e = NullReply \<or> challenges sent = max_attempts opts)"
proof -
  have "max_attempts (recording opts) = max_attempts opts" by (simp add: max_attempts_def)
  then show ?thesis
    using register_attempts_frames[of opts random 0 "max_attempts opts" None "[]" s res sent s'] assms
    by (auto simp: registerWithPop_def frames_of_run_def ends_loop_def)
qed

section \<open>Witnesses\<close>

text \<open>A network that loses the first challenge and answers the second registration only.\<close>

definition demo_reply :: "nat \<Rightarrow> string + json" where
  "demo_reply i = (if i = 0 then Inl ''timeout'' else if i = 2 then Inr (error_reply ''unavailable'' 503)
     else if i = 4 then Inr (JObj [(''registered'', JBool True), (''protocolVersion'', JNum 3)]) else Inr (JObj [(''nonce'', JStr ''n1'')]))"

definition demo_options :: "(nat, unit) register_options" where
  "demo_options = \<lparr>ro_request = \<lambda>i j. (demo_reply i, Suc i), ro_jwt = ''jwt'', ro_peerId = ''ann'', ro_sign = \<lambda>_ _. Some [1], ro_devicePrivateKey = (), ro_retries = None\<rparr>"

definition demo_random :: "nat \<Rightarrow> nat \<Rightarrow> byte list" where
  "demo_random a n = replicate n (word_of_nat a)"

definition demo_run :: "(register_error + registration) \<times> (json list \<times> nat)" where
  "demo_run = registerWithPop (recording demo_options) demo_random ([], 0)"

lemma demo_run_succeeds: "\<not> isl (fst demo_run)" "length (anchors (fst (snd demo_run))) = 2" "challenges (fst (snd demo_run)) = 3"
  by code_simp+

lemma demo_random_inj: "inj_on (\<lambda>a. demo_random a CLIENT_NONCE_BYTES) {..<max_attempts demo_options}"
proof -
  have "{..<max_attempts demo_options} = {0, 1, 2}" by (auto simp: max_attempts_def demo_options_def)
  then show ?thesis by (simp add: demo_random_def CLIENT_NONCE_BYTES_def)
qed

theorem register_anchor_fresh_witness: "distinct (anchors (fst (snd demo_run))) \<and> length (anchors (fst (snd demo_run))) = 2"
proof -
  have "registerWithPop (recording demo_options) demo_random ([], 0) = (fst demo_run, (fst (snd demo_run), snd (snd demo_run)))" unfolding demo_run_def prod.collapse ..
  from register_anchor_fresh[OF this demo_random_inj] demo_run_succeeds(2) show ?thesis by blast
qed

theorem register_retries_bounded_witness: "length (fst (snd demo_run)) \<le> 6"
proof -
  have "registerWithPop (recording demo_options) demo_random ([], 0) = (fst demo_run, (fst (snd demo_run), snd (snd demo_run)))" unfolding demo_run_def prod.collapse ..
  from register_retries_bounded[OF this] have "length (fst (snd demo_run)) \<le> 2 * challenges (fst (snd demo_run))" by blast
  then show ?thesis unfolding demo_run_succeeds(3) by simp
qed

end
