(* ===== verification/Handshake.thy ===== *)
theory Handshake
  imports Agent_Crypto Browser_Register
begin

text \<open>
  The browser's registration against the agent's handler, over a network that loses frames: \<^verbatim>\<open>registerWithPop\<close> of
  \<^verbatim>\<open>Browser_Register\<close> on top of \<^verbatim>\<open>handleRegisterRequest\<close> of \<^verbatim>\<open>Register_Hop\<close>, with the key wrap of \<^verbatim>\<open>Agent_Crypto\<close> and the unwrap of
  \<^verbatim>\<open>Browser_Crypto\<close>.

  The locale \<open>register_server\<close> is what the retry loop relies on; it is interpreted on the handler.  A frame arrives as the value it was
  rendered from; replies are parsed by the browser.
\<close>

section \<open>What the browser relies on\<close>

text \<open>
  \<open>ready s\<close>: the server will answer a challenge; \<open>held s n\<close>: it waits for a proof over \<open>n\<close>; \<open>losses s\<close>: how many more round trips will fail;
  \<open>anchor c\<close>: the browser uses the client nonce \<open>c\<close>.
\<close>

locale register_server =
  fixes opts :: "('s, 'sk) register_options"
    and ready :: "'s \<Rightarrow> bool"
    and held :: "'s \<Rightarrow> string \<Rightarrow> bool"
    and losses :: "'s \<Rightarrow> nat"
    and anchor :: "string \<Rightarrow> bool"
    and accepted :: "string \<Rightarrow> json \<Rightarrow> bool"
  assumes challenge_answer: "ready s \<Longrightarrow> ro_request opts s (challenge_request (ro_jwt opts)) = (a, s') \<Longrightarrow>
      isl a \<and> ready s' \<and> losses s' < losses s \<or> (\<exists>n. a = Inr (JObj [(''nonce'', JStr n)]) \<and> n \<noteq> [] \<and> held s' n \<and> losses s' \<le> losses s)"
    and proof_signed: "held s n \<Longrightarrow> \<exists>sg. signPop (ro_sign opts) (ro_devicePrivateKey opts) Register (ro_peerId opts) n = Some sg"
    and register_answer: "held s n \<Longrightarrow> anchor c \<Longrightarrow> signPop (ro_sign opts) (ro_devicePrivateKey opts) Register (ro_peerId opts) n = Some sg \<Longrightarrow>
      ro_request opts s (register_request (ro_jwt opts) (JStr n) sg c) = (a, s') \<Longrightarrow>
      isl a \<and> ready s' \<and> losses s' < losses s \<or> (\<exists>reply. a = Inr reply \<and> accepted c reply)"
    and accepted_reply: "accepted c reply \<Longrightarrow> \<exists>r. register_outcome (ro_peerId opts) c reply = Done r"
begin

text \<open>A pass either ends the registration or has used up a loss.\<close>

lemma attempt_progress:
  assumes "ready s" "anchor c" "register_attempt opts c s = (a, s')"
  shows "(\<exists>e. a = Again e) \<and> ready s' \<and> losses s' < losses s \<or> (\<exists>r reply. a = Done r \<and> accepted c reply \<and> register_outcome (ro_peerId opts) c reply = Done r)"
proof -
  obtain b s1 where b: "ro_request opts s (challenge_request (ro_jwt opts)) = (b, s1)" by fastforce
  from challenge_answer[OF assms(1) b] show ?thesis
  proof
    assume "isl b \<and> ready s1 \<and> losses s1 < losses s"
    then show ?thesis using assms(3) b by (auto simp: register_attempt_def isl_def)
  next
    assume "\<exists>n. b = Inr (JObj [(''nonce'', JStr n)]) \<and> n \<noteq> [] \<and> held s1 n \<and> losses s1 \<le> losses s"
    then obtain n where n: "b = Inr (JObj [(''nonce'', JStr n)])" "n \<noteq> []" "held s1 n" "losses s1 \<le> losses s" by blast
    obtain sg where sg: "signPop (ro_sign opts) (ro_devicePrivateKey opts) Register (ro_peerId opts) n = Some sg" using proof_signed[OF n(3)] by blast
    obtain d s2 where d: "ro_request opts s1 (register_request (ro_jwt opts) (JStr n) sg c) = (d, s2)" by fastforce
    have "(a, s') = (case d of Inl err \<Rightarrow> (Again (RequestFailed err), s2) | Inr reply \<Rightarrow> (register_outcome (ro_peerId opts) c reply, s2))"
      using assms(3) b n(1,2) sg d by (simp add: register_attempt_def present_proof_def split: sum.split)
    then show ?thesis using register_answer[OF n(3) assms(2) sg d] n(4) accepted_reply by (cases d) (auto, blast)
  qed
qed

lemma registers_despite_losses:
  assumes "ready s" "losses s < n" "\<And>b. anchor (generateClientNonce (random b))"
  shows "\<exists>r reply c s'. register_attempts opts random a n t s = (Inr r, s') \<and> accepted c reply \<and> register_outcome (ro_peerId opts) c reply = Done r"
  using assms(1,2)
proof (induction n arbitrary: a t s)
  case (Suc n)
  obtain b s1 where b: "register_attempt opts (generateClientNonce (random a)) s = (b, s1)" by fastforce
  from attempt_progress[OF Suc.prems(1) assms(3) b] show ?case
  proof
    assume "(\<exists>e. b = Again e) \<and> ready s1 \<and> losses s1 < losses s"
    then show ?thesis using Suc.IH[of s1 "Suc a"] Suc.prems(2) b by auto
  next
    assume "\<exists>r reply. b = Done r \<and> accepted (generateClientNonce (random a)) reply \<and> register_outcome (ro_peerId opts) (generateClientNonce (random a)) reply = Done r"
    then show ?thesis using b by auto blast
  qed
qed simp

end

section \<open>The handler behind a lossy network\<close>

text \<open>
  A meeting of one browser and one agent: \<open>mt_agent m i\<close> is the request the handler sees as the \<open>i\<close>-th, but for its payload.
\<close>

record ('key, 'sig, 'sk) meeting =
  mt_crypto :: "('key, 'sig) pop_crypto"
  mt_cfg :: reg_config
  mt_agent :: "nat \<Rightarrow> reg_request"
  mt_ttl :: int
  mt_cap :: int
  mt_parse :: "string \<Rightarrow> json option"
  mt_jwt :: string
  mt_identity :: jwt_identity
  mt_deviceKey :: "octet list"
  mt_sign :: "'sk \<Rightarrow> byte list \<Rightarrow> byte list option"
  mt_popKey :: 'sk
  mt_random :: "nat \<Rightarrow> nat \<Rightarrow> byte list"
  mt_retries :: "int option"

abbreviation mt_peer :: "('key, 'sig, 'sk) meeting \<Rightarrow> string" where
  "mt_peer m \<equiv> ji_peerId (mt_identity m)"

abbreviation mt_drawn :: "('key, 'sig, 'sk) meeting \<Rightarrow> nat \<Rightarrow> string" where
  "mt_drawn m i \<equiv> rr_drawn (mt_agent m i)"

definition request_at :: "('key, 'sig, 'sk) meeting \<Rightarrow> nat \<Rightarrow> json \<Rightarrow> reg_request" where
  "request_at m i j = (mt_agent m i)\<lparr>rr_parsed := Some j\<rparr>"

fun reply_text :: "reg_effect list \<Rightarrow> string option" where
  "reply_text [] = None"
| "reply_text (EReply t # es) = Some t"
| "reply_text (e # es) = reply_text es"

definition deliver :: "('key, 'sig, 'sk) meeting \<Rightarrow> (nat \<times> pop_store) request_fn" where
  "deliver m st j = (case st of (i, s) \<Rightarrow>
     (case hop_step (mt_crypto m) (mt_cfg m) (request_at m i j) s of
        (es, s') \<Rightarrow> ((case reply_text es of
            None \<Rightarrow> Inl ''request timed out''
          | Some t \<Rightarrow> (case mt_parse m t of None \<Rightarrow> Inl ''malformed reply'' | Some v \<Rightarrow> Inr v)), (Suc i, s'))))"

datatype fate = Arrives | RequestLost | ReplyLost

fun lossy :: "'s request_fn \<Rightarrow> (fate list \<times> 's) request_fn" where
  "lossy request ([], s) j = (case request s j of (a, s') \<Rightarrow> (a, ([], s')))"
| "lossy request (Arrives # fs, s) j = (case request s j of (a, s') \<Rightarrow> (a, (fs, s')))"
| "lossy request (RequestLost # fs, s) j = (Inl ''request timed out'', (fs, s))"
| "lossy request (ReplyLost # fs, s) j = (Inl ''request timed out'', (fs, snd (request s j)))"

fun losses_left :: "fate list \<times> 's \<Rightarrow> nat" where
  "losses_left (fs, s) = length (filter (\<lambda>f. f \<noteq> Arrives) fs)"

definition client :: "('key, 'sig, 'sk) meeting \<Rightarrow> (fate list \<times> nat \<times> pop_store, 'sk) register_options" where
  "client m = \<lparr>ro_request = lossy (deliver m), ro_jwt = mt_jwt m, ro_peerId = mt_peer m, ro_sign = mt_sign m, ro_devicePrivateKey = mt_popKey m, ro_retries = mt_retries m\<rparr>"

definition mt_anchor :: "('key, 'sig, 'sk) meeting \<Rightarrow> string \<Rightarrow> bool" where
  "mt_anchor m c \<longleftrightarrow> (\<exists>a. c = generateClientNonce (mt_random m a))"

text \<open>
  What makes a registration possible: the token verifies to a peer with both keys, the device signs what the agent
  accepts, nonces do not repeat, a registration follows its challenge within the lifetime of the nonce, the dependencies of the handler do their
  work, and the browser parses the two replies.
\<close>

definition serving :: "('key, 'sig, 'sk) meeting \<Rightarrow> bool" where
  "serving m \<longleftrightarrow> 0 < mt_cap m \<and> mt_jwt m \<noteq> [] \<and> isValidSubjectToken (mt_peer m) \<and> identityMatchesTenantScope (mt_identity m) (rc_tenant (mt_cfg m)) \<and>
     (\<exists>jwk. ji_popPublicJwk (mt_identity m) = Some jwk \<and>
        (\<forall>n. \<exists>sg. signPop (mt_sign m) (mt_popKey m) Register (mt_peer m) n = Some sg \<and> sg \<noteq> [] \<and> check_proof (mt_crypto m) Register (mt_peer m) n sg jwk = Verified)) \<and>
     (\<exists>dk. ji_devicePublicKey (mt_identity m) = Some dk \<and> dk \<noteq> [] \<and> (\<forall>i. rr_base64url (mt_agent m i) dk = mt_deviceKey m)) \<and> length (mt_deviceKey m) = 32 \<and>
     (\<forall>a. length (mt_random m a CLIENT_NONCE_BYTES) = CLIENT_NONCE_BYTES) \<and> inj (mt_drawn m) \<and>
     (\<forall>i. rr_verifyIdentity (mt_agent m i) (mt_jwt m) = Identity (mt_identity m) \<and> rr_subjectPeerId (mt_agent m i) = mt_peer m \<and>
        (\<forall>t. rr_reply (mt_agent m i) t = None) \<and> rr_registerPeer (mt_agent m i) = None \<and> rr_history (mt_agent m i) = None \<and> rr_approvals (mt_agent m i) = None \<and>
        mt_drawn m i \<noteq> [] \<and> rr_clock (mt_agent m (Suc i)) \<le> rr_clock (mt_agent m i) + mt_ttl m \<and> reads (mt_parse m) (JObj [(''nonce'', JStr (mt_drawn m i))]) \<and>
        (\<forall>c. mt_anchor m c \<longrightarrow> (\<exists>w. rr_wrap (mt_agent m i) (mt_deviceKey m) c = Inr (Some w) \<and> reads (mt_parse m) (success_json (mt_agent m i) (mt_peer m) w))))"

definition meeting_history :: "('key, 'sig, 'sk) meeting \<Rightarrow> reg_request list \<Rightarrow> pop_store" where
  "meeting_history m rs = snd (run_requests (mt_crypto m) (mt_cfg m) rs (new_pop_store (mt_ttl m) (mt_cap m)))"

definition undrawn :: "('key, 'sig, 'sk) meeting \<Rightarrow> nat \<Rightarrow> reg_request list \<Rightarrow> bool" where
  "undrawn m i rs \<longleftrightarrow> (\<forall>j \<ge> i. \<not> list_ex (challenged (mt_cfg m) (mt_peer m) (mt_drawn m j)) rs)"

fun agent_ready :: "('key, 'sig, 'sk) meeting \<Rightarrow> fate list \<times> nat \<times> pop_store \<Rightarrow> bool" where
  "agent_ready m (fs, i, s) \<longleftrightarrow> serving m \<and> (\<exists>rs. s = meeting_history m rs \<and> undrawn m i rs)"

fun agent_waits :: "('key, 'sig, 'sk) meeting \<Rightarrow> fate list \<times> nat \<times> pop_store \<Rightarrow> string \<Rightarrow> bool" where
  "agent_waits m (fs, i, s) n \<longleftrightarrow> serving m \<and> (\<exists>k rs. i = Suc k \<and> n = mt_drawn m k \<and> undrawn m k rs \<and> s = meeting_history m (rs @ [request_at m k (challenge_request (mt_jwt m))]))"

definition agent_accepts :: "('key, 'sig, 'sk) meeting \<Rightarrow> string \<Rightarrow> json \<Rightarrow> bool" where
  "agent_accepts m c reply \<longleftrightarrow> (\<exists>i w. rr_wrap (mt_agent m i) (mt_deviceKey m) c = Inr (Some w) \<and> reply = success_json (mt_agent m i) (mt_peer m) w)"

lemma history_snoc: "snd (hop_step (mt_crypto m) (mt_cfg m) r (meeting_history m rs)) = meeting_history m (rs @ [r])"
  by (simp add: meeting_history_def run_requests_store hop_step_store pop_trace_append split: prod.split)

lemma challenge_hop:
  assumes "serving m"
  shows "fst (hop_step (mt_crypto m) (mt_cfg m) (request_at m i (challenge_request (mt_jwt m))) s) = [EReply (stringify (JObj [(''nonce'', JStr (mt_drawn m i))]))]"
    and "pop_calls (mt_cfg m) (request_at m i (challenge_request (mt_jwt m))) =
      [CallIssue (mt_peer m) (mt_drawn m i) (rr_sweepClock (mt_agent m i)) (rr_clock (mt_agent m i))]"
  using assms unfolding serving_def
  by (simp_all add: hop_step_def handleRegisterRequest_def handle_identity_def send_reply_def request_at_def challenge_request_def str_field_def valid_token pop_calls_def
      del: stringify.simps)

lemma undrawn_challenge:
  assumes "serving m" "undrawn m i rs"
  shows "undrawn m (Suc i) (rs @ [request_at m i (challenge_request (mt_jwt m))])"
proof -
  have "mt_drawn m i \<noteq> mt_drawn m j" if "Suc i \<le> j" for j using assms(1) that unfolding serving_def inj_def by (metis Suc_n_not_le_n)
  then show ?thesis using assms(2) challenge_hop(2)[OF assms(1), of i] by (auto simp: undrawn_def challenged_def)
qed

lemma register_not_challenge: "rr_parsed r = Some j \<Longrightarrow> str_field ''op'' j = ''register'' \<Longrightarrow> \<not> challenged cfg p x r"
  by (auto simp: challenged_def pop_calls_def Let_def split: option.split verify_answer.split)

lemma undrawn_register: "undrawn m i rs \<Longrightarrow> undrawn m (Suc i) (rs @ [request_at m i (register_request jwt n sg c)])"
  using register_not_challenge[of "request_at m i (register_request jwt n sg c)" "register_request jwt n sg c"]
  by (auto simp: undrawn_def request_at_def register_request_def str_field_def)

lemma undrawn_later: "undrawn m i rs \<Longrightarrow> undrawn m (Suc i) rs"
  by (simp add: undrawn_def)

lemma hop_fst: "fst (hop_step cr cfg r s) = fst (handleRegisterRequest cr cfg r s)"
  by (simp add: hop_step_def split: prod.split)

lemma register_hop:
  assumes "serving m" "undrawn m k rs" "mt_anchor m c" "signPop (mt_sign m) (mt_popKey m) Register (mt_peer m) (mt_drawn m k) = Some sg"
  obtains w where "rr_wrap (mt_agent m (Suc k)) (mt_deviceKey m) c = Inr (Some w)" "reads (mt_parse m) (success_json (mt_agent m (Suc k)) (mt_peer m) w)"
    "fst (hop_step (mt_crypto m) (mt_cfg m) (request_at m (Suc k) (register_request (mt_jwt m) (JStr (mt_drawn m k)) sg c))
       (meeting_history m (rs @ [request_at m k (challenge_request (mt_jwt m))]))) =
     [ERegisterPeer (mt_peer m), EWrapKey (mt_peer m) (mt_deviceKey m) c, ESendHistory (mt_peer m), ESendApprovals (mt_peer m),
      EReply (stringify (success_json (mt_agent m (Suc k)) (mt_peer m) w))]"
proof -
  let ?j = "register_request (mt_jwt m) (JStr (mt_drawn m k)) sg c"
  let ?r = "request_at m (Suc k) ?j" and ?ch = "request_at m k (challenge_request (mt_jwt m))"
  obtain w where w: "rr_wrap (mt_agent m (Suc k)) (mt_deviceKey m) c = Inr (Some w)" "reads (mt_parse m) (success_json (mt_agent m (Suc k)) (mt_peer m) w)"
    using assms(1,3) unfolding serving_def by blast
  have c: "isValidClientNonce c"
    using assms(1,3) encode_tokens by (auto simp: serving_def mt_anchor_def generateClientNonce_def isValidClientNonce_def CLIENT_NONCE_BYTES_def
        CLIENT_NONCE_MIN_LENGTH_def CLIENT_NONCE_MAX_LENGTH_def)
  obtain jwk dk where keys: "ji_popPublicJwk (mt_identity m) = Some jwk" "sg \<noteq> []" "check_proof (mt_crypto m) Register (mt_peer m) (mt_drawn m k) sg jwk = Verified"
    "ji_devicePublicKey (mt_identity m) = Some dk" "dk \<noteq> []" "\<forall>i. rr_base64url (mt_agent m i) dk = mt_deviceKey m"
    using assms(1,4) unfolding serving_def by (metis option.inject)
  have json: "str_field ''op'' ?j = ''register''" "str_field ''token'' ?j = mt_jwt m" "json_field ''protocolVersion'' ?j = Some (JNum WEBCHANNEL_PROTOCOL_VERSION)"
    "str_field ''clientNonce'' ?j = c" "str_field ''nonce'' ?j = mt_drawn m k" "str_field ''signature'' ?j = sg"
    by (simp_all add: register_request_def str_field_def)
  have "identified (mt_cfg m) ?r" using assms(1) json(2) by (simp add: identified_def request_at_def serving_def)
  then have "honest (mt_crypto m) (mt_cfg m) ?r (mt_peer m) (mt_drawn m k) (mt_deviceKey m) c w"
    unfolding honest_def using assms(1) keys w(1) c json
    by (intro exI[of _ ?j] exI[of _ "mt_identity m"] exI[of _ jwk] exI[of _ dk]) (simp add: request_at_def serving_def)
  moreover have "fst (verify (mt_crypto m) Register (mt_peer m) (mt_drawn m k) g j (rr_clock ?r) (meeting_history m (rs @ [?ch]))) = check_proof (mt_crypto m) Register (mt_peer m) (mt_drawn m k) g j" for g j
    unfolding meeting_history_def using assms(1,2)
    by (intro nonce_held[OF challenge_hop(2)[OF assms(1)]]) (simp_all add: undrawn_def serving_def request_at_def)
  ultimately have "fst (handleRegisterRequest (mt_crypto m) (mt_cfg m) ?r (meeting_history m (rs @ [?ch]))) =
      [ERegisterPeer (mt_peer m), EWrapKey (mt_peer m) (mt_deviceKey m) c, ESendHistory (mt_peer m), ESendApprovals (mt_peer m), EReply (success_reply ?r (mt_peer m) w)]"
    by (rule honest_run)
  moreover have "success_reply ?r (mt_peer m) w = stringify (success_json (mt_agent m (Suc k)) (mt_peer m) w)"
    by (simp add: success_reply_def success_json_def request_at_def del: stringify.simps)
  ultimately show ?thesis by (intro that[OF w]) (simp only: hop_fst)
qed

text \<open>The two round trips, when no frame is lost.\<close>

lemma deliver_challenge:
  assumes "serving m" "undrawn m i rs"
  shows "deliver m (i, meeting_history m rs) (challenge_request (mt_jwt m)) =
    (Inr (JObj [(''nonce'', JStr (mt_drawn m i))]), (Suc i, meeting_history m (rs @ [request_at m i (challenge_request (mt_jwt m))])))"
proof -
  have "reads (mt_parse m) (JObj [(''nonce'', JStr (mt_drawn m i))])" using assms(1) unfolding serving_def by blast
  then show ?thesis using challenge_hop(1)[OF assms(1), of i "meeting_history m rs"] history_snoc[of m "request_at m i (challenge_request (mt_jwt m))" rs]
    by (cases "hop_step (mt_crypto m) (mt_cfg m) (request_at m i (challenge_request (mt_jwt m))) (meeting_history m rs)") (simp add: deliver_def reads_def del: stringify.simps)
qed

lemma deliver_register:
  assumes "serving m" "undrawn m k rs" "mt_anchor m c" "signPop (mt_sign m) (mt_popKey m) Register (mt_peer m) (mt_drawn m k) = Some sg"
  shows "\<exists>reply s'. deliver m (Suc k, meeting_history m (rs @ [request_at m k (challenge_request (mt_jwt m))])) (register_request (mt_jwt m) (JStr (mt_drawn m k)) sg c) = (Inr reply, s') \<and>
    agent_accepts m c reply"
proof -
  let ?r = "request_at m (Suc k) (register_request (mt_jwt m) (JStr (mt_drawn m k)) sg c)" and ?rs = "rs @ [request_at m k (challenge_request (mt_jwt m))]"
  obtain w where w: "rr_wrap (mt_agent m (Suc k)) (mt_deviceKey m) c = Inr (Some w)" "reads (mt_parse m) (success_json (mt_agent m (Suc k)) (mt_peer m) w)"
    "fst (hop_step (mt_crypto m) (mt_cfg m) ?r (meeting_history m ?rs)) = [ERegisterPeer (mt_peer m), EWrapKey (mt_peer m) (mt_deviceKey m) c, ESendHistory (mt_peer m), ESendApprovals (mt_peer m),
      EReply (stringify (success_json (mt_agent m (Suc k)) (mt_peer m) w))]"
    by (rule register_hop[OF assms])
  then have "fst (deliver m (Suc k, meeting_history m ?rs) (register_request (mt_jwt m) (JStr (mt_drawn m k)) sg c)) = Inr (success_json (mt_agent m (Suc k)) (mt_peer m) w)"
    by (cases "hop_step (mt_crypto m) (mt_cfg m) ?r (meeting_history m ?rs)") (simp add: deliver_def reads_def del: stringify.simps)
  then show ?thesis using w(1) unfolding agent_accepts_def by (metis prod.collapse)
qed

lemma deliver_state: "snd (deliver m (i, meeting_history m rs) j) = (Suc i, meeting_history m (rs @ [request_at m i j]))"
  using history_snoc[of m "request_at m i j" rs]
  by (cases "hop_step (mt_crypto m) (mt_cfg m) (request_at m i j) (meeting_history m rs)") (simp add: deliver_def)

text \<open>A lost frame costs one of the losses; any other is delivered.\<close>

lemma lossy_cases:
  obtains (Whole) "losses_left (tl fs, s') = losses_left (fs, s)" "lossy request (fs, s) j = (fst (request s j), (tl fs, snd (request s j)))"
  | (Before) "losses_left (tl fs, s') < losses_left (fs, s)" "lossy request (fs, s) j = (Inl ''request timed out'', (tl fs, s))"
  | (After) "losses_left (tl fs, s') < losses_left (fs, s)" "lossy request (fs, s) j = (Inl ''request timed out'', (tl fs, snd (request s j)))"
  by (cases "(request, (fs, s), j)" rule: lossy.cases) (auto split: prod.splits)

lemma accepted_outcome:
  assumes "agent_accepts m c reply"
  obtains i w r where "rr_wrap (mt_agent m i) (mt_deviceKey m) c = Inr (Some w)" "register_outcome p c reply = Done r"
    "rg_peerId r = p" "rg_clientNonce r = c" "rg_wrappedConversationKey r = Some (wrapped_json w)"
proof -
  obtain i w where w: "rr_wrap (mt_agent m i) (mt_deviceKey m) c = Inr (Some w)" "reply = success_json (mt_agent m i) (mt_peer m) w"
    using assms unfolding agent_accepts_def by blast
  then have "register_outcome p c reply = Done \<lparr>rg_peerId = p, rg_wrappedConversationKey = Some (wrapped_json w), rg_clientNonce = c,
      rg_protocolVersion = WEBCHANNEL_PROTOCOL_VERSION, rg_pluginVersion = rr_pluginVersion (mt_agent m i)\<rparr>"
    by (simp add: register_outcome_def success_json_def version_error_def safe_integer_def WEBCHANNEL_PROTOCOL_VERSION_def max_safe_integer_def wrapped_json_def split: option.split)
  then show ?thesis by (rule that[OF w(1)]) simp_all
qed

lemma client_simps [simp]:
  "ro_request (client m) = lossy (deliver m)" "ro_jwt (client m) = mt_jwt m" "ro_peerId (client m) = mt_peer m" "ro_sign (client m) = mt_sign m"
  "ro_devicePrivateKey (client m) = mt_popKey m" "ro_retries (client m) = mt_retries m"
  by (simp_all add: client_def)

text \<open>The agent behind the lossy network is what the browser relies on.\<close>

interpretation hop_server: register_server "client m" "agent_ready m" "agent_waits m" losses_left "mt_anchor m" "agent_accepts m"
  for m :: "('key, 'sig, 'sk) meeting"
proof
  fix st a st'
  assume ready: "agent_ready m st" and req: "ro_request (client m) st (challenge_request (ro_jwt (client m))) = (a, st')"
  obtain fs i rs where st: "st = (fs, i, meeting_history m rs)" and sv: "serving m" "undrawn m i rs" using ready by (cases st) auto
  let ?j = "challenge_request (mt_jwt m)"
  let ?next = "(Suc i, meeting_history m (rs @ [request_at m i ?j]))"
  note later = undrawn_later[OF sv(2)] undrawn_challenge[OF sv]
  show "isl a \<and> agent_ready m st' \<and> losses_left st' < losses_left st \<or> (\<exists>n. a = Inr (JObj [(''nonce'', JStr n)]) \<and> n \<noteq> [] \<and> agent_waits m st' n \<and> losses_left st' \<le> losses_left st)"
  proof (cases rule: lossy_cases[where fs = fs and s = "(i, meeting_history m rs)" and s' = "snd st'" and request = "deliver m" and j = ?j])
    case Whole
    have "mt_drawn m i \<noteq> []" using sv(1) unfolding serving_def by blast
    then show ?thesis using Whole req st sv deliver_challenge[OF sv] by auto
  next
    case Before
    then show ?thesis using req st sv by auto
  next
    case After
    then show ?thesis using req st sv later(2) deliver_challenge[OF sv] by auto
  qed
next
  fix st n
  assume "agent_waits m st n"
  then have "serving m" by (cases st) auto
  then show "\<exists>sg. signPop (ro_sign (client m)) (ro_devicePrivateKey (client m)) Register (ro_peerId (client m)) n = Some sg"
    unfolding serving_def by auto
next
  fix st n c sg a st'
  assume waits: "agent_waits m st n" and c: "mt_anchor m c" and sg: "signPop (ro_sign (client m)) (ro_devicePrivateKey (client m)) Register (ro_peerId (client m)) n = Some sg"
    and req: "ro_request (client m) st (register_request (ro_jwt (client m)) (JStr n) sg c) = (a, st')"
  obtain fs k rs where st: "st = (fs, Suc k, meeting_history m (rs @ [request_at m k (challenge_request (mt_jwt m))]))" and sv: "serving m" "undrawn m k rs" and n: "n = mt_drawn m k"
    using waits by (cases st) auto
  let ?j = "register_request (mt_jwt m) (JStr n) sg c" and ?rs = "rs @ [request_at m k (challenge_request (mt_jwt m))]"
  have later: "undrawn m (Suc k) ?rs" "undrawn m (Suc (Suc k)) (?rs @ [request_at m (Suc k) ?j])"
    using undrawn_challenge[OF sv] undrawn_register by blast+
  show "isl a \<and> agent_ready m st' \<and> losses_left st' < losses_left st \<or> (\<exists>reply. a = Inr reply \<and> agent_accepts m c reply)"
  proof (cases rule: lossy_cases[where fs = fs and s = "(Suc k, meeting_history m ?rs)" and s' = "snd st'" and request = "deliver m" and j = ?j])
    case Whole
    then show ?thesis using req st deliver_register[OF sv c] sg n by auto
  next
    case Before
    then show ?thesis using req st sv(1) later(1) by auto
  next
    case After
    then show ?thesis using req st sv(1) later(2) deliver_state[of m "Suc k" ?rs ?j] by auto
  qed
next
  fix c reply
  assume "agent_accepts m c reply"
  then show "\<exists>r. register_outcome (ro_peerId (client m)) c reply = Done r" by (rule accepted_outcome) auto
qed

section \<open>Property\<close>

text \<open>
  C12: Registration delivers the key over a lossy network.  However requests and replies are lost, as long as fewer round trips fail than the browser has
  attempts, its registration succeeds against the agent's handler, after any earlier requests of anyone that did not draw the same nonces;
  and the wrapped key it receives unwraps under the pinned agent key, with its own client nonce, to the conversation key of the agent.
\<close>

theorem handshake_delivers_key:
  assumes "serving m" "undrawn m i rs" "length (filter (\<lambda>f. f \<noteq> Arrives) fates) < max_attempts (client m)"
    and "standard_node np" "same_wrap_key np bp kp (octets_to_bytes (mt_deviceKey m)) dsk wk"
    and "\<forall>i c w. rr_wrap (mt_agent m i) (mt_deviceKey m) c = Inr (Some w) \<longrightarrow>
      (\<exists>fresh nonce. length nonce = 12 \<and> wrapConversationKey np K (octets_to_bytes (mt_deviceKey m)) (Some kp) (Some (mt_peer m)) (Some c) fresh nonce = Inr w)"
  shows "\<exists>r w st. registerWithPop (client m) (mt_random m) (fates, i, meeting_history m rs) = (Inr r, st) \<and> rg_peerId r = mt_peer m \<and>
    rg_wrappedConversationKey r = Some (wrapped_json w) \<and>
    unwrapConversationKey bp w dsk (base64urlEncode (kp_publicKey kp)) (mt_peer m) (rg_clientNonce r) = Inr K"
proof -
  have "agent_ready m (fates, i, meeting_history m rs)" using assms(1,2) by auto
  moreover have "losses_left (fates, i, meeting_history m rs) < max_attempts (client m)" using assms(3) by simp
  moreover have "mt_anchor m (generateClientNonce (mt_random m b))" for b by (auto simp: mt_anchor_def)
  ultimately obtain r reply c st where run: "register_attempts (client m) (mt_random m) 0 (max_attempts (client m)) None (fates, i, meeting_history m rs) = (Inr r, st)"
    "agent_accepts m c reply" "register_outcome (mt_peer m) c reply = Done r"
    using hop_server.registers_despite_losses[of m "(fates, i, meeting_history m rs)" "max_attempts (client m)" "mt_random m" 0 None] by auto
  obtain i w where w: "rr_wrap (mt_agent m i) (mt_deviceKey m) c = Inr (Some w)" "rg_peerId r = mt_peer m" "rg_clientNonce r = c" "rg_wrappedConversationKey r = Some (wrapped_json w)"
    using run(3) by (rule_tac accepted_outcome[OF run(2), of "mt_peer m"]) (metis attempt_end.inject(3))
  obtain fresh nonce where n: "length nonce = 12" "wrapConversationKey np K (octets_to_bytes (mt_deviceKey m)) (Some kp) (Some (mt_peer m)) (Some c) fresh nonce = Inr w"
    using assms(6) w(1) by blast
  have "unwrapConversationKey bp w dsk (base64urlEncode (kp_publicKey kp)) (mt_peer m) c = Inr K"
    using wrap_reaches_device[OF assms(4,5) n(1), of K "mt_peer m" c fresh] n(2) by auto
  then show ?thesis using run(1) w(2-4) unfolding registerWithPop_def by blast
qed

section \<open>Witness\<close>

definition demo_ed :: "(string, byte list) pop_crypto" where
  "demo_ed = \<lparr>createPublicKey = \<lambda>jwk. Some (jwk_x jwk), decodeBase64Url = base64urlDecode, edVerify = \<lambda>msg pub sig. sig = textEncode msg\<rparr>"

definition demo_anchor :: string where
  "demo_anchor = base64urlEncode (replicate 32 7)"

definition demo_key_for :: "string \<Rightarrow> wrap_error + wrapped_key" where
  "demo_key_for c = wrapConversationKey (demo_node (\<lambda>_. None)) (replicate 32 9) (octets_to_bytes (replicate 32 0)) (Some demo_kp) (Some ''ann'') (Some c) demo_kp (replicate 12 4)"

definition demo_agent :: "nat \<Rightarrow> reg_request" where
  "demo_agent i = (demo_request '''' '''')\<lparr>rr_drawn := replicate (Suc i) (CHR ''a''),
     rr_wrap := \<lambda>k c. (if k = replicate 32 0 then case demo_key_for c of Inr w \<Rightarrow> Inr (Some w) | Inl e \<Rightarrow> Inr None else Inr None)\<rparr>"

definition demo_success :: json where
  "demo_success = success_json (demo_agent 0) ''ann'' (projr (demo_key_for demo_anchor))"

text \<open>A parser for the two replies of the witness: the nonces are runs of one letter that occurs nowhere else in the reply.\<close>

definition demo_parser :: "string \<Rightarrow> json option" where
  "demo_parser s = (if s = stringify demo_success then Some demo_success else Some (JObj [(''nonce'', JStr (filter (\<lambda>c. c = CHR ''a'') s))]))"

definition demo_meeting :: "(string, byte list, unit) meeting" where
  "demo_meeting = \<lparr>mt_crypto = demo_ed, mt_cfg = demo_cfg, mt_agent = demo_agent, mt_ttl = 120000, mt_cap = 8, mt_parse = demo_parser, mt_jwt = ''jwt'', mt_identity = demo_identity,
     mt_deviceKey = replicate 32 0, mt_sign = \<lambda>_ b. Some b, mt_popKey = (), mt_random = \<lambda>a n. replicate n 7, mt_retries = None\<rparr>"

lemma demo_wrap_key: "same_wrap_key (demo_node parse) (demo_browser parse') demo_kp dpk dsk (replicate 32 5)"
  by (simp add: same_wrap_key_def demo_node_def demo_browser_def demo_kp_def decode_encode)

lemma demo_key_value: "\<exists>w. demo_key_for c = Inr w"
  unfolding demo_key_for_def
  by (rule wrap_value[OF demo_node_standard demo_wrap_key length_replicate, where K = "replicate 32 9" and p = "''ann''" and c = c and fresh = demo_kp]) blast

lemma demo_agent_fields:
  "rr_drawn (demo_agent i) = replicate (Suc i) (CHR ''a'')" "rr_verifyIdentity (demo_agent i) = (\<lambda>_. Identity demo_identity)" "rr_subjectPeerId (demo_agent i) = ''ann''"
  "rr_reply (demo_agent i) = (\<lambda>_. None)" "rr_registerPeer (demo_agent i) = None" "rr_history (demo_agent i) = None" "rr_approvals (demo_agent i) = None"
  "rr_clock (demo_agent i) = 1" "rr_base64url (demo_agent i) = (\<lambda>_. replicate 32 0)" "rr_pluginVersion (demo_agent i) = None"
  by (simp_all add: demo_agent_def demo_request_def)

lemma demo_success_same: "success_json (demo_agent i) ''ann'' (projr (demo_key_for demo_anchor)) = demo_success"
  by (simp add: demo_success_def success_json_def demo_agent_fields)

lemma demo_reads_nonce: "reads demo_parser (JObj [(''nonce'', JStr (replicate (Suc i) (CHR ''a'')))])"
proof -
  have run: "concat (map escape_char (replicate n (CHR ''a''))) = replicate n (CHR ''a'')" for n by (induction n) (simp_all add: escape_char_def)
  have "stringify (JObj [(''nonce'', JStr (replicate (Suc i) (CHR ''a'')))]) \<noteq> stringify demo_success"
    unfolding demo_success_def success_json_def by (simp add: quote_def escape_char_def)
  moreover have "filter (\<lambda>c. c = CHR ''a'') (stringify (JObj [(''nonce'', JStr (replicate (Suc i) (CHR ''a'')))])) = replicate (Suc i) (CHR ''a'')"
    by (simp add: quote_def run del: replicate.simps) (simp add: escape_char_def)
  ultimately show ?thesis unfolding reads_def demo_parser_def by (simp only: if_False simp_thms)
qed

lemma demo_proof: "\<exists>sg. signPop (\<lambda>_ b. Some b) () Register ''ann'' n = Some sg \<and> sg \<noteq> [] \<and> check_proof demo_ed Register ''ann'' n sg demo_jwk = Verified"
proof -
  have "browser_popSignedMessage Register ''ann'' n = popSignedMessage Register ''ann'' n" by (simp add: browser_popSignedMessage_def popSignedMessage_def)
  moreover have "textEncode (popSignedMessage Register ''ann'' n) \<noteq> []" using textEncode_inject[of "popSignedMessage Register ''ann'' n" "[]"] by (auto simp: textEncode_def utf8_def popSignedMessage_def)
  ultimately show ?thesis by (simp add: signPop_def encode_nonempty check_proof_def demo_ed_def demo_jwk_def decode_encode)
qed

lemma demo_serving: "serving demo_meeting"
proof -
  have "isValidSubjectToken ''ann''" "identityMatchesTenantScope demo_identity (rc_tenant demo_cfg)" by code_simp+
  moreover have "inj (\<lambda>i. replicate (Suc i) (CHR ''a''))" by (simp add: inj_def)
  moreover have "\<exists>w. rr_wrap (demo_agent i) (replicate 32 0) demo_anchor = Inr (Some w) \<and> reads demo_parser (success_json (demo_agent i) ''ann'' w)" for i
    using demo_key_value[of demo_anchor] demo_success_same[of i] by (auto simp: demo_agent_def reads_def demo_parser_def)
  moreover have "mt_anchor demo_meeting c \<longleftrightarrow> c = demo_anchor" for c by (simp add: mt_anchor_def demo_meeting_def generateClientNonce_def demo_anchor_def CLIENT_NONCE_BYTES_def)
  ultimately show ?thesis unfolding serving_def using demo_proof demo_reads_nonce
    by (simp add: demo_meeting_def demo_agent_fields demo_identity_def del: stringify.simps)
qed

text \<open>The first challenge and the reply to the second registration are lost.\<close>

theorem handshake_delivers_key_witness:
  "\<exists>r w st. registerWithPop (client demo_meeting) (mt_random demo_meeting) ([RequestLost, Arrives, ReplyLost], 0, meeting_history demo_meeting []) = (Inr r, st) \<and> rg_peerId r = mt_peer demo_meeting \<and>
    rg_wrappedConversationKey r = Some (wrapped_json w) \<and>
    unwrapConversationKey (demo_browser (\<lambda>_. None)) w [3] (base64urlEncode (kp_publicKey demo_kp)) (mt_peer demo_meeting) (rg_clientNonce r) = Inr (replicate 32 9)"
proof -
  have "length (filter (\<lambda>f. f \<noteq> Arrives) [RequestLost, Arrives, ReplyLost]) < max_attempts (client demo_meeting)"
    by (simp add: max_attempts_def) (simp add: demo_meeting_def)
  moreover have "undrawn demo_meeting 0 []" by (simp add: undrawn_def)
  moreover have "\<forall>i c w. rr_wrap (mt_agent demo_meeting i) (mt_deviceKey demo_meeting) c = Inr (Some w) \<longrightarrow>
      (\<exists>fresh nonce. length nonce = 12 \<and> wrapConversationKey (demo_node (\<lambda>_. None)) (replicate 32 9) (octets_to_bytes (mt_deviceKey demo_meeting)) (Some demo_kp) (Some (mt_peer demo_meeting)) (Some c) fresh nonce = Inr w)"
  proof (intro allI impI)
    fix i c w
    assume "rr_wrap (mt_agent demo_meeting i) (mt_deviceKey demo_meeting) c = Inr (Some w)"
    then have "demo_key_for c = Inr w" by (simp add: demo_meeting_def demo_agent_def split: sum.splits)
    then show "\<exists>fresh nonce. length nonce = 12 \<and> wrapConversationKey (demo_node (\<lambda>_. None)) (replicate 32 9) (octets_to_bytes (mt_deviceKey demo_meeting)) (Some demo_kp) (Some (mt_peer demo_meeting)) (Some c) fresh nonce = Inr w"
      by (intro exI[of _ demo_kp] exI[of _ "replicate 12 4"]) (simp add: demo_key_for_def demo_meeting_def demo_identity_def)
  qed
  ultimately show ?thesis using handshake_delivers_key[OF demo_serving _ _ demo_node_standard demo_wrap_key] by blast
qed

end
