(* ===== verification/Result_Chunks.thy ===== *)
theory Result_Chunks
  imports Json "HOL-Library.Sublist"
begin

text \<open>
  The bounded writer that streams ingress result ids into \<^verbatim>\<open>ack\<close> and
  \<^verbatim>\<open>inbound_rejected\<close> frames (\<^verbatim>\<open>packages/plugin/src/ingress-result-chunks.ts\<close>).
  The transport is a parameter: \<open>publish\<close> decides whether a frame was sent, given the
  frames published before it; the writer records every frame it hands over.  Wire
  measurements are integers (a byte count); the two limits are integers when given.
\<close>

section \<open>Data\<close>

definition MAX_INGRESS_RESULT_IDS :: int where "MAX_INGRESS_RESULT_IDS = 64"
definition MAX_INGRESS_RESULT_WIRE_BYTES :: int where "MAX_INGRESS_RESULT_WIRE_BYTES = 65536"
definition MAX_INGRESS_RESULT_ID_LENGTH :: nat where "MAX_INGRESS_RESULT_ID_LENGTH = 128"

datatype frame_type = AckType | RejectedType

datatype result_frame = Ack "string list" | InboundRejected "string list"

fun frame_ids :: "result_frame \<Rightarrow> string list" where
  "frame_ids (Ack ids) = ids"
| "frame_ids (InboundRejected ids) = ids"

fun frame_json :: "result_frame \<Rightarrow> json" where
  "frame_json (Ack ids) = JObj [(''type'', JStr ''ack''), (''ids'', JArr (map JStr ids))]"
| "frame_json (InboundRejected ids) =
     JObj [(''type'', JStr ''inbound_rejected''), (''ids'', JArr (map JStr ids)), (''reason'', JStr ''overloaded'')]"

record chunk_options =
  co_type :: frame_type
  co_publish :: "result_frame list \<Rightarrow> result_frame \<Rightarrow> bool"
  co_measure :: "(result_frame \<Rightarrow> int) option"
  co_effectiveLimit :: "int option"
  co_maxIds :: "int option"
  co_maxWireBytes :: "int option"

datatype chunk_error = MaxIdsNotPositive | EffectiveLimitInvalid | WireMeasurementInvalid

record chunk_writer =
  w_type :: frame_type
  w_publish :: "result_frame list \<Rightarrow> result_frame \<Rightarrow> bool"
  w_measure :: "result_frame \<Rightarrow> int"
  w_maxIds :: int
  w_limit :: int
  w_ids :: "string list"
  w_inChunk :: "string set"
  w_ok :: bool
  w_published :: "result_frame list"
  w_tooSmall :: nat

section \<open>Operations\<close>

definition base64UrlLength :: "nat \<Rightarrow> nat" where
  "base64UrlLength n =
     (let full = (n div 3) * 4; rem = n mod 3 in full + (if rem = 0 then 0 else rem + 1))"

definition default_measure :: "result_frame \<Rightarrow> int" where
  "default_measure f = utf8_length (stringify (frame_json f))"

definition createIngressResultChunkWriter :: "chunk_options \<Rightarrow> chunk_error + chunk_writer" where
  "createIngressResultChunkWriter opts =
     (let maxIds = (case co_maxIds opts of Some n \<Rightarrow> n | None \<Rightarrow> MAX_INGRESS_RESULT_IDS);
          limit = min (case co_maxWireBytes opts of Some n \<Rightarrow> n | None \<Rightarrow> MAX_INGRESS_RESULT_WIRE_BYTES)
                      (case co_effectiveLimit opts of Some n \<Rightarrow> n | None \<Rightarrow> max_safe_integer)
      in if \<not> (maxIds \<le> max_safe_integer) \<or> maxIds < 1 then Inl MaxIdsNotPositive
         else if \<not> (safe_nonneg_int limit) then Inl EffectiveLimitInvalid
         else Inr \<lparr>w_type = co_type opts, w_publish = co_publish opts,
                   w_measure = (case co_measure opts of Some m \<Rightarrow> m | None \<Rightarrow> default_measure),
                   w_maxIds = maxIds, w_limit = limit, w_ids = [], w_inChunk = {}, w_ok = True,
                   w_published = [], w_tooSmall = 0\<rparr>)"

definition frameFor :: "chunk_writer \<Rightarrow> string list \<Rightarrow> result_frame" where
  "frameFor w values = (case w_type w of AckType \<Rightarrow> Ack values | RejectedType \<Rightarrow> InboundRejected values)"

definition flush :: "chunk_writer \<Rightarrow> bool \<times> chunk_writer" where
  "flush w =
     (if w_ids w = [] then (True, w)
      else let frame = frameFor w (w_ids w);
               sent = w_publish w (w_published w) frame
           in (sent, w\<lparr>w_ok := (sent \<and> w_ok w), w_ids := [], w_inChunk := {},
                       w_published := w_published w @ [frame]\<rparr>))"

text \<open>A candidate that is not a string is \<open>None\<close>.  A throw keeps what was already published.\<close>

definition add :: "string option \<Rightarrow> chunk_writer \<Rightarrow> (chunk_error + bool) \<times> chunk_writer" where
  "add candidate w =
     (case candidate of
        None \<Rightarrow> (Inr False, w)
      | Some c \<Rightarrow>
          if length c = 0 \<or> length c > MAX_INGRESS_RESULT_ID_LENGTH then (Inr False, w)
          else if c \<in> w_inChunk w then (Inr True, w)
          else
            let w1 = (if int (length (w_ids w)) \<ge> w_maxIds w then snd (flush w) else w);
                bytes1 = w_measure w1 (frameFor w1 (w_ids w1 @ [c]))
            in if \<not> safe_nonneg_int bytes1 then (Inl WireMeasurementInvalid, w1)
               else
                 let split = (bytes1 > w_limit w1 \<and> w_ids w1 \<noteq> []);
                     w2 = (if split then snd (flush w1) else w1);
                     next = (if split then [c] else w_ids w1 @ [c]);
                     bytes2 = (if split then w_measure w2 (frameFor w2 [c]) else bytes1)
                 in if bytes2 > w_limit w2
                    then (Inr False, w2\<lparr>w_tooSmall := Suc (w_tooSmall w2), w_ok := False\<rparr>)
                    else (Inr True, w2\<lparr>w_ids := next, w_inChunk := insert c (w_inChunk w2)\<rparr>))"

definition finish :: "chunk_writer \<Rightarrow> bool \<times> chunk_writer" where
  "finish w = (let w' = snd (flush w) in (w_ok w', w'))"

definition retainedIds :: "chunk_writer \<Rightarrow> nat" where
  "retainedIds w = length (w_ids w)"

text \<open>A whole flush: every candidate is added in order (a throw ends the loop), then the
  writer finishes.  \<open>accepted\<close> collects the candidates for which \<^verbatim>\<open>add\<close> returned true.\<close>

fun add_all :: "string option list \<Rightarrow> chunk_writer \<Rightarrow> (chunk_error + string list) \<times> chunk_writer" where
  "add_all [] w = (Inr [], w)"
| "add_all (c # cs) w =
     (case add c w of
        (Inl e, w') \<Rightarrow> (Inl e, w')
      | (Inr b, w') \<Rightarrow>
          (case add_all cs w' of
             (Inl e, w'') \<Rightarrow> (Inl e, w'')
           | (Inr acc, w'') \<Rightarrow> (Inr (if b then the c # acc else acc), w'')))"

section \<open>Invariant\<close>

definition valid_result_id :: "string \<Rightarrow> bool" where
  "valid_result_id c \<longleftrightarrow> 0 < length c \<and> length c \<le> MAX_INGRESS_RESULT_ID_LENGTH"

definition chunk_ok :: "chunk_writer \<Rightarrow> string list \<Rightarrow> bool" where
  "chunk_ok w ids \<longleftrightarrow>
     distinct ids \<and> int (length ids) \<le> w_maxIds w \<and> list_all valid_result_id ids \<and>
     (ids \<noteq> [] \<longrightarrow> w_measure w (frameFor w ids) \<le> w_limit w)"

definition frame_ok :: "chunk_writer \<Rightarrow> result_frame \<Rightarrow> bool" where
  "frame_ok w f \<longleftrightarrow> frame_ids f \<noteq> [] \<and> chunk_ok w (frame_ids f) \<and> f = frameFor w (frame_ids f)"

definition writer_inv :: "chunk_writer \<Rightarrow> bool" where
  "writer_inv w \<longleftrightarrow>
     1 \<le> w_maxIds w \<and> w_inChunk w = set (w_ids w) \<and> chunk_ok w (w_ids w) \<and> list_all (frame_ok w) (w_published w)"

definition same_config :: "chunk_writer \<Rightarrow> chunk_writer \<Rightarrow> bool" where
  "same_config w w' \<longleftrightarrow>
     w_type w' = w_type w \<and> w_publish w' = w_publish w \<and> w_measure w' = w_measure w \<and>
     w_maxIds w' = w_maxIds w \<and> w_limit w' = w_limit w"

text \<open>Everything handed over so far, published or still retained, in order.\<close>

definition streamed :: "chunk_writer \<Rightarrow> string list" where
  "streamed w = concat (map frame_ids (w_published w)) @ w_ids w"

lemma frame_ids_frameFor [simp]: "frame_ids (frameFor w ids) = ids"
  by (simp add: frameFor_def split: frame_type.split)

lemma same_config_refl [simp]: "same_config w w"
  by (simp add: same_config_def)

lemma same_config_trans: "same_config w w' \<Longrightarrow> same_config w' w'' \<Longrightarrow> same_config w w''"
  by (simp add: same_config_def)

lemma frameFor_config: "same_config w w' \<Longrightarrow> frameFor w' = frameFor w"
  by (simp add: frameFor_def same_config_def fun_eq_iff)

lemma ok_config: "same_config w w' \<Longrightarrow> chunk_ok w' = chunk_ok w \<and> frame_ok w' = frame_ok w"
  using frameFor_config[of w w']
  by (simp add: chunk_ok_def frame_ok_def fun_eq_iff) (simp add: same_config_def)

lemma flush_facts:
  assumes "writer_inv w"
  shows "writer_inv (snd (flush w))" and "same_config w (snd (flush w))"
    and "w_ids (snd (flush w)) = []" and "w_inChunk (snd (flush w)) = {}"
    and "streamed (snd (flush w)) = streamed w"
proof -
  show cfg: "same_config w (snd (flush w))" by (simp add: flush_def same_config_def Let_def)
  show "w_ids (snd (flush w)) = []" by (simp add: flush_def Let_def)
  show "w_inChunk (snd (flush w)) = {}" using assms by (auto simp: flush_def Let_def writer_inv_def)
  show "streamed (snd (flush w)) = streamed w" by (simp add: flush_def Let_def streamed_def)
  show "writer_inv (snd (flush w))"
  proof (cases "w_ids w = []")
    case True
    then show ?thesis using assms by (simp add: flush_def)
  next
    case False
    have "frame_ok w (frameFor w (w_ids w))" using assms False by (simp add: frame_ok_def writer_inv_def)
    then show ?thesis
      using assms False ok_config[OF cfg]
      by (simp add: flush_def Let_def writer_inv_def chunk_ok_def frame_ok_def frameFor_def)
  qed
qed

lemma add_facts:
  assumes inv: "writer_inv w" and "add c w = (res, w')"
  shows "writer_inv w' \<and> same_config w w' \<and>
     (if res = Inr True \<and> the c \<notin> w_inChunk w then streamed w' = streamed w @ [the c] else streamed w' = streamed w) \<and>
     (res = Inr True \<longrightarrow> (\<exists>s. c = Some s \<and> valid_result_id s \<and> s \<in> set (streamed w')))"
proof (cases "\<exists>s. c = Some s \<and> valid_result_id s \<and> s \<notin> w_inChunk w")
  case False
  then show ?thesis using assms
    by (auto simp: add_def valid_result_id_def writer_inv_def streamed_def split: option.splits if_splits)
next
  case True
  then obtain s where s: "c = Some s" "valid_result_id s" "s \<notin> w_inChunk w" by blast
  define w1 where "w1 = (if int (length (w_ids w)) \<ge> w_maxIds w then snd (flush w) else w)"
  have w1: "writer_inv w1" "same_config w w1" "streamed w1 = streamed w" "s \<notin> w_inChunk w1"
      "int (length (w_ids w1)) < w_maxIds w1"
    using inv flush_facts[OF inv] s(3) by (auto simp: w1_def writer_inv_def)
  define w2 where "w2 = (if w_measure w1 (frameFor w1 (w_ids w1 @ [s])) > w_limit w1 \<and> w_ids w1 \<noteq> []
      then snd (flush w1) else w1)"
  have w2: "writer_inv w2" "same_config w w2" "streamed w2 = streamed w" "s \<notin> w_inChunk w2"
      "int (length (w_ids w2)) < w_maxIds w2" "same_config w1 w2"
    using w1 flush_facts[OF w1(1)] same_config_trans[OF w1(2)] by (auto simp: w2_def writer_inv_def)
  define w3 where "w3 = w2\<lparr>w_ids := w_ids w2 @ [s], w_inChunk := insert s (w_inChunk w2)\<rparr>"
  have cfg3: "same_config w2 w3" by (simp add: w3_def same_config_def)
  have inv3: "writer_inv w3" if "w_measure w2 (frameFor w2 (w_ids w2 @ [s])) \<le> w_limit w2"
    using w2 that s(2) ok_config[OF cfg3] frameFor_config[OF cfg3]
    by (auto simp: writer_inv_def chunk_ok_def w3_def)
  define w4 where "w4 = w2\<lparr>w_tooSmall := Suc (w_tooSmall w2), w_ok := False\<rparr>"
  have cfg4: "same_config w2 w4" by (simp add: w4_def same_config_def)
  have inv4: "writer_inv w4" using w2(1) ok_config[OF cfg4] by (simp add: writer_inv_def w4_def)
  have eval: "(res, w') =
      (if \<not> safe_nonneg_int (w_measure w1 (frameFor w1 (w_ids w1 @ [s]))) then (Inl WireMeasurementInvalid, w1)
       else if w_measure w2 (frameFor w2 (w_ids w2 @ [s])) > w_limit w2 then (Inr False, w4) else (Inr True, w3))"
  proof (cases "w_measure w1 (frameFor w1 (w_ids w1 @ [s])) > w_limit w1 \<and> w_ids w1 \<noteq> []")
    case True
    then have "w2 = snd (flush w1)" "w_ids w2 = []" using flush_facts(3)[OF w1(1)] by (simp_all add: w2_def)
    then show ?thesis using assms(2) s True
      by (simp add: add_def valid_result_id_def Let_def w1_def[symmetric] w3_def w4_def split: if_splits)
  next
    case False
    then have "w2 = w1" by (auto simp: w2_def)
    then show ?thesis using assms(2) s False
      by (auto simp: add_def valid_result_id_def Let_def w1_def[symmetric] w3_def w4_def split: if_splits)
  qed
  have str: "streamed w3 = streamed w @ [s]" "streamed w4 = streamed w"
    using w2(3) by (simp_all add: w3_def w4_def streamed_def)
  show ?thesis
    using eval w1 w2 s inv3 inv4 str same_config_trans[OF w2(2) cfg3] same_config_trans[OF w2(2) cfg4]
    by (auto split: if_splits)
qed

section \<open>Whole flushes\<close>

lemma create_inv:
  "createIngressResultChunkWriter opts = Inr w \<Longrightarrow>
   writer_inv w \<and> streamed w = [] \<and> w_published w = [] \<and> w_ok w \<and> w_tooSmall w = 0"
  by (auto simp: createIngressResultChunkWriter_def Let_def writer_inv_def chunk_ok_def streamed_def
      split: if_splits)

lemma add_all_inv:
  "writer_inv w \<Longrightarrow> add_all cs w = (res, w') \<Longrightarrow> writer_inv w' \<and> same_config w w'"
proof (induction cs arbitrary: w res w')
  case Nil
  then show ?case by simp
next
  case (Cons c cs)
  obtain r1 w1 where a: "add c w = (r1, w1)" by (cases "add c w")
  have f: "writer_inv w1" "same_config w w1" using add_facts[OF Cons.prems(1) a] by auto
  show ?case
  proof (cases r1)
    case (Inl e)
    then show ?thesis using Cons.prems(2) a f by simp
  next
    case (Inr b)
    obtain r2 w2 where r: "add_all cs w1 = (r2, w2)" by (cases "add_all cs w1")
    then have "w' = w2" using Cons.prems(2) a Inr by (auto split: sum.splits)
    then show ?thesis using Cons.IH[OF f(1) r] same_config_trans[OF f(2)] by auto
  qed
qed

lemma add_all_streamed:
  "writer_inv w \<Longrightarrow> add_all cs w = (Inr acc, w') \<Longrightarrow>
   \<exists>zs. streamed w' = streamed w @ zs \<and> subseq zs acc \<and> set acc \<subseteq> set (streamed w')"
proof (induction cs arbitrary: w acc)
  case Nil
  then show ?case by simp
next
  case (Cons c cs)
  obtain b w1 where a: "add c w = (Inr b, w1)"
    using Cons.prems(2) by (cases "add c w") (auto split: sum.splits)
  obtain acc1 where r: "add_all cs w1 = (Inr acc1, w')" "acc = (if b then the c # acc1 else acc1)"
    using Cons.prems(2) a by (auto split: prod.splits sum.splits)
  note f = add_facts[OF Cons.prems(1) a]
  have inv1: "writer_inv w1" using f by blast
  obtain zs where zs: "streamed w' = streamed w1 @ zs" "subseq zs acc1" "set acc1 \<subseteq> set (streamed w')"
    using Cons.IH[OF inv1 r(1)] by blast
  show ?case
  proof (cases b)
    case True
    then have mem: "the c \<in> set (streamed w')" using f zs(1) by auto
    consider "streamed w1 = streamed w @ [the c]" | "streamed w1 = streamed w" using f by (auto split: if_splits)
    then show ?thesis
    proof cases
      case 1
      then show ?thesis using True zs r(2) mem by (intro exI[of _ "the c # zs"]) auto
    next
      case 2
      then show ?thesis using True zs r(2) mem by (intro exI[of _ zs]) auto
    qed
  next
    case False
    then have "streamed w1 = streamed w" using f by simp
    then show ?thesis using False zs r(2) by (intro exI[of _ zs]) auto
  qed
qed

text \<open>The verdict \<^verbatim>\<open>ok\<close> is a history: every hand-over succeeded and nothing was too big.\<close>

definition all_sent :: "chunk_writer \<Rightarrow> bool" where
  "all_sent w \<longleftrightarrow> (\<forall>n < length (w_published w). w_publish w (take n (w_published w)) (w_published w ! n))"

definition verdict_inv :: "chunk_writer \<Rightarrow> bool" where
  "verdict_inv w \<longleftrightarrow> (w_ok w \<longleftrightarrow> all_sent w \<and> w_tooSmall w = 0)"

lemma all_sent_append:
  "all_sent (w\<lparr>w_published := w_published w @ [f]\<rparr>) \<longleftrightarrow> all_sent w \<and> w_publish w (w_published w) f"
  by (auto simp: all_sent_def nth_append less_Suc_eq)

lemma flush_verdict: "verdict_inv w \<Longrightarrow> verdict_inv (snd (flush w))"
  using all_sent_append[of w "frameFor w (w_ids w)"]
  by (auto simp: flush_def Let_def verdict_inv_def all_sent_def)

lemma add_verdict:
  assumes "verdict_inv w" and "add c w = (res, w')"
  shows "verdict_inv w'"
proof -
  define w1 where "w1 = (if int (length (w_ids w)) \<ge> w_maxIds w then snd (flush w) else w)"
  have 1: "verdict_inv w1" using assms(1) flush_verdict by (simp add: w1_def)
  have 2: "verdict_inv (snd (flush w1))" using 1 by (rule flush_verdict)
  have upd: "verdict_inv (v\<lparr>w_ids := x, w_inChunk := y\<rparr>) = verdict_inv v"
    "verdict_inv (v\<lparr>w_tooSmall := Suc n, w_ok := False\<rparr>)" for v x y n
    by (simp_all add: verdict_inv_def all_sent_def)
  show ?thesis using assms 1 2
    by (auto simp: add_def Let_def w1_def[symmetric] upd split: option.splits if_splits)
qed

lemma add_all_verdict: "verdict_inv w \<Longrightarrow> add_all cs w = (res, w') \<Longrightarrow> verdict_inv w'"
proof (induction cs arbitrary: w res w')
  case Nil
  then show ?case by simp
next
  case (Cons c cs)
  obtain r1 w1 where a: "add c w = (r1, w1)" by (cases "add c w")
  have v: "verdict_inv w1" using Cons.prems(1) a by (rule add_verdict)
  obtain r2 w2 where r: "add_all cs w1 = (r2, w2)" by (cases "add_all cs w1")
  have "w' = w1 \<or> w' = w2" using Cons.prems(2) a r by (auto split: sum.splits)
  then show ?case using v Cons.IH[OF v r] by auto
qed

lemma base64_ceiling: "base64UrlLength n = (4 * n + 2) div 3"
proof -
  define q r where "q = n div 3" and "r = n mod 3"
  then have n: "n = 3 * q + r" and "r < 3" by simp_all
  then consider "r = 0" | "r = 1" | "r = 2" by linarith
  moreover have "base64UrlLength n = 4 * q + (if r = 0 then 0 else r + 1)"
    by (simp add: base64UrlLength_def Let_def q_def r_def)
  ultimately show ?thesis by cases (simp_all add: n)
qed

section \<open>Properties\<close>

text \<open>C29: Every result frame the writer hands to the transport, over any sequence of
  candidates and the final flush, carries between one and \<^verbatim>\<open>maxIds\<close> distinct ids of
  legal length and measures at most the effective wire limit.\<close>

theorem result_frames_bounded:
  assumes c: "createIngressResultChunkWriter opts = Inr w0" and a: "add_all cs w0 = (res, w)"
  shows "list_all (\<lambda>f. frame_ids f \<noteq> [] \<and> int (length (frame_ids f)) \<le> w_maxIds w0 \<and>
      distinct (frame_ids f) \<and> list_all valid_result_id (frame_ids f) \<and>
      w_measure w0 f \<le> w_limit w0) (w_published (snd (finish w)))"
proof -
  have i0: "writer_inv w0" using create_inv[OF c] by simp
  have i: "writer_inv w" "same_config w0 w" using add_all_inv[OF i0 a] by auto
  have f: "writer_inv (snd (flush w))" "same_config w0 (snd (flush w))"
    using flush_facts(1,2)[OF i(1)] same_config_trans[OF i(2)] by auto
  have "list_all (frame_ok w0) (w_published (snd (flush w)))"
    using f(1) ok_config[OF f(2)] by (simp add: writer_inv_def)
  then show ?thesis
    by (auto simp: finish_def Let_def list_all_iff frame_ok_def chunk_ok_def)
qed

definition demo_options :: chunk_options where
  "demo_options = \<lparr>co_type = AckType, co_publish = (\<lambda>_ _. True), co_measure = Some (\<lambda>f. int (length (frame_ids f))),
     co_effectiveLimit = None, co_maxIds = Some 2, co_maxWireBytes = Some 2\<rparr>"

definition demo_writer :: chunk_writer where
  "demo_writer = \<lparr>w_type = AckType, w_publish = (\<lambda>_ _. True), w_measure = (\<lambda>f. int (length (frame_ids f))),
     w_maxIds = 2, w_limit = 2, w_ids = [], w_inChunk = {}, w_ok = True, w_published = [], w_tooSmall = 0\<rparr>"

lemma demo_create: "createIngressResultChunkWriter demo_options = Inr demo_writer"
  by (simp add: createIngressResultChunkWriter_def demo_options_def demo_writer_def Let_def
      max_safe_integer_def safe_nonneg_int_def)

lemma demo_run:
  "\<exists>w. add_all [Some ''a'', Some ''b'', None, Some ''b'', Some ''c''] demo_writer = (Inr [''a'', ''b'', ''b'', ''c''], w) \<and>
     w_published (snd (finish w)) = [Ack [''a'', ''b''], Ack [''c'']] \<and> w_publish (snd (finish w)) = (\<lambda>_ _. True)"
  by (simp add: demo_writer_def add_def flush_def finish_def frameFor_def Let_def safe_nonneg_int_def
      max_safe_integer_def MAX_INGRESS_RESULT_ID_LENGTH_def)

theorem result_frames_bounded_witness:
  "\<exists>w. createIngressResultChunkWriter demo_options = Inr demo_writer \<and>
     add_all [Some ''a'', Some ''b'', None, Some ''b'', Some ''c''] demo_writer = (Inr [''a'', ''b'', ''b'', ''c''], w) \<and>
     list_all (\<lambda>f. int (length (frame_ids f)) \<le> 2) (w_published (snd (finish w)))"
proof -
  obtain w where w: "add_all [Some ''a'', Some ''b'', None, Some ''b'', Some ''c''] demo_writer
      = (Inr [''a'', ''b'', ''b'', ''c''], w)" using demo_run by blast
  show ?thesis using demo_create w result_frames_bounded[OF demo_create w]
    by (intro exI[of _ w]) (auto simp: list_all_iff demo_writer_def)
qed



text \<open>\<^verbatim>\<open>finish\<close> reports success exactly when the transport accepted every frame that
  was handed over and no single id was too large for the wire limit.\<close>

theorem finish_verdict:
  assumes c: "createIngressResultChunkWriter opts = Inr w0" and a: "add_all cs w0 = (res, w)"
  shows "fst (finish w) \<longleftrightarrow> all_sent (snd (finish w)) \<and> w_tooSmall (snd (finish w)) = 0"
proof -
  have "verdict_inv w0" using create_inv[OF c] by (simp add: verdict_inv_def all_sent_def)
  then have "verdict_inv (snd (flush w))" using add_all_verdict[OF _ a] flush_verdict by blast
  then show ?thesis by (simp add: finish_def Let_def verdict_inv_def)
qed

theorem finish_verdict_witness:
  "\<exists>w. add_all [Some ''a'', Some ''b'', None, Some ''b'', Some ''c''] demo_writer = (Inr [''a'', ''b'', ''b'', ''c''], w) \<and>
     fst (finish w) = (all_sent (snd (finish w)) \<and> w_tooSmall (snd (finish w)) = 0)"
proof -
  obtain w where w: "add_all [Some ''a'', Some ''b'', None, Some ''b'', Some ''c''] demo_writer
      = (Inr [''a'', ''b'', ''b'', ''c''], w)" using demo_run by blast
  show ?thesis using w finish_verdict[OF demo_create w] by blast
qed

end
