(* ===== verification/Nats_Channel.thy ===== *)
theory Nats_Channel
  imports Agent_Crypto Result_Chunks
begin

text \<open>
  The agent's peer channel (\<^verbatim>\<open>src/packages/plugin/src/nats-channel.ts\<close>): the peers and their keys, everything that is sent to a peer, and the
  routing, decryption and replay check of what arrives.

  An operation gives the calls it makes on the transport and on the handlers, in order, and the new state.  The answers of
  the transport, of the key store and of the clock, and the random draws, are the fields of an environment.  Handlers return; a
  message listener that throws is caught by the transport.  Console lines are not modelled.  Frames are given as text, and
  the four limits are integers.
\<close>

section \<open>State\<close>

record channel =
  ch_accountId :: string
  ch_tenant :: string
  ch_disposed :: bool
  ch_registerSid :: "nat option"
  ch_peerSubscriptions :: "(string, nat) js_map"
  ch_approvalResolutions :: "(string, string) js_map"
  ch_maxPeers :: int
  ch_maxApprovalResolutions :: int
  ch_replayWindowMs :: int
  ch_maxSeenMessageIdsPerPeer :: int
  ch_seenMessageIds :: "(string, (string, int) js_map) js_map"
  ch_typingEnabled :: bool
  ch_encryptionRequired :: bool
  ch_keyStore :: bool
  ch_identityKeyPair :: "key_pair option"
  ch_peerSessionKeys :: "(string, byte list) js_map"
  ch_onMessage :: bool
  ch_onApprovalDecision :: bool
  ch_onLoadHistory :: bool
  ch_onLoadCommands :: bool
  ch_onPeerUnregister :: bool
  ch_onRegisterRequest :: bool
  ch_lastResultLimitWarningAt :: "int option"
  ch_suppressedResultLimitWarnings :: int

datatype chan_call =
    Subscribe string nat
  | Unsubscribe nat
  | Publish string string
  | PublishThrew string string
  | HostUnregister string
  | HostMessage string json
  | HostApproval string string string
  | HostHistory string "json option" "json option"
  | HostCommands string
  | HostRegister string string

text \<open>
  The environment of one operation.  \<open>ce_sid\<close> is the id the next subscription gets, \<open>None\<close> when it throws; \<open>ce_publish\<close> says whether a publish returns.
  The draws for the frames of an operation are numbered; those for measuring a frame are \<open>ce_sizeIdent\<close> and \<open>ce_sizeNonce\<close>, on whose values the size does
  not depend.
\<close>

record chan_env =
  ce_node :: node_platform
  ce_connected :: bool
  ce_sid :: "nat option"
  ce_publish :: "string \<Rightarrow> string \<Rightarrow> bool"
  ce_getOrCreate :: "string \<Rightarrow> byte list option"
  ce_now :: int
  ce_ident :: "nat \<Rightarrow> byte list"
  ce_nonce :: "nat \<Rightarrow> byte list"
  ce_sizeIdent :: "byte list"
  ce_sizeNonce :: "byte list"
  ce_effectiveOutboundLimit :: js_number

datatype chan_error = ChannelDisposed | KeyStoreThrew | SubscribeThrew | MissingCrypto | DeviceKeyLength | WrapThrew wrap_error

definition DEFAULT_MAX_PEERS :: int where "DEFAULT_MAX_PEERS = 10000"
definition DEFAULT_MAX_APPROVAL_RESOLUTIONS :: int where "DEFAULT_MAX_APPROVAL_RESOLUTIONS = 10000"
definition DEFAULT_REPLAY_WINDOW_MS :: int where "DEFAULT_REPLAY_WINDOW_MS = 10 * 60 * 1000"
definition DEFAULT_MAX_SEEN_MESSAGE_IDS_PER_PEER :: int where "DEFAULT_MAX_SEEN_MESSAGE_IDS_PER_PEER = 2000"
definition RESULT_LIMIT_WARNING_INTERVAL_MS :: int where "RESULT_LIMIT_WARNING_INTERVAL_MS = 60000"

record channel_limits =
  li_maxPeers :: "int option"
  li_maxApprovalResolutions :: "int option"
  li_replayWindowMs :: "int option"
  li_maxSeenMessageIdsPerPeer :: "int option"

definition or_else :: "'a option \<Rightarrow> 'a \<Rightarrow> 'a" where
  "or_else v d = (case v of Some x \<Rightarrow> x | None \<Rightarrow> d)"

text \<open>The crypto options are \<open>Some (keyStore present, identity key)\<close>, \<open>None\<close> for a plaintext channel.\<close>

definition newNatsChannel :: "string \<Rightarrow> string \<Rightarrow> (bool \<times> key_pair option) option \<Rightarrow> channel_limits \<Rightarrow> chan_error + channel" where
  "newNatsChannel accountId tenant crypto limits =
     (let encryptionRequired = (crypto \<noteq> None);
          keyStore = (case crypto of Some (ks, _) \<Rightarrow> ks | None \<Rightarrow> False);
          identity = (case crypto of Some (_, kp) \<Rightarrow> kp | None \<Rightarrow> None)
      in if encryptionRequired \<and> (\<not> keyStore \<or> identity = None) then Inl MissingCrypto
         else Inr \<lparr>ch_accountId = accountId, ch_tenant = tenant, ch_disposed = False, ch_registerSid = None, ch_peerSubscriptions = [], ch_approvalResolutions = [],
           ch_maxPeers = or_else (li_maxPeers limits) DEFAULT_MAX_PEERS, ch_maxApprovalResolutions = or_else (li_maxApprovalResolutions limits) DEFAULT_MAX_APPROVAL_RESOLUTIONS,
           ch_replayWindowMs = or_else (li_replayWindowMs limits) DEFAULT_REPLAY_WINDOW_MS,
           ch_maxSeenMessageIdsPerPeer = or_else (li_maxSeenMessageIdsPerPeer limits) DEFAULT_MAX_SEEN_MESSAGE_IDS_PER_PEER,
           ch_seenMessageIds = [], ch_typingEnabled = True, ch_encryptionRequired = encryptionRequired, ch_keyStore = keyStore, ch_identityKeyPair = identity,
           ch_peerSessionKeys = [], ch_onMessage = False, ch_onApprovalDecision = False, ch_onLoadHistory = False, ch_onLoadCommands = False, ch_onPeerUnregister = False,
           ch_onRegisterRequest = False, ch_lastResultLimitWarningAt = None, ch_suppressedResultLimitWarnings = 0\<rparr>)"

section \<open>Peers\<close>

definition subject_base :: "channel \<Rightarrow> string \<Rightarrow> string" where
  "subject_base ch peerId = ''webchannel.'' @ ch_tenant ch @ ''.'' @ ch_accountId ch @ ''.'' @ peerId"

definition inboundSubject :: "channel \<Rightarrow> string \<Rightarrow> string" where
  "inboundSubject ch peerId = subject_base ch peerId @ ''.in''"

definition outboundSubject :: "channel \<Rightarrow> string \<Rightarrow> string" where
  "outboundSubject ch peerId = subject_base ch peerId @ ''.out''"

text \<open>A subscription id 0 counts as none, as in the code.\<close>

definition unregisterPeer :: "channel \<Rightarrow> string \<Rightarrow> chan_call list \<times> channel" where
  "unregisterPeer ch peerId =
     (let host = (if ch_onPeerUnregister ch then [HostUnregister peerId] else []);
          ch' = ch\<lparr>ch_peerSessionKeys := AList.delete peerId (ch_peerSessionKeys ch), ch_seenMessageIds := AList.delete peerId (ch_seenMessageIds ch)\<rparr>
      in case map_of (ch_peerSubscriptions ch) peerId of
           Some sid \<Rightarrow> if sid \<noteq> 0 then (host @ [Unsubscribe sid], ch'\<lparr>ch_peerSubscriptions := AList.delete peerId (ch_peerSubscriptions ch)\<rparr>) else (host, ch')
         | None \<Rightarrow> (host, ch'))"

text \<open>The loop that makes room for a peer; \<open>None\<close> where it does not end.\<close>

function evict_peers :: "channel \<Rightarrow> (chan_call list \<times> channel) option" where
  "evict_peers ch =
     (if int (length (ch_peerSubscriptions ch)) \<ge> ch_maxPeers ch then
        (case ch_peerSubscriptions ch of
           [] \<Rightarrow> Some ([], ch)
         | (oldest, sid) # _ \<Rightarrow>
             if sid = 0 then None
             else (case evict_peers (snd (unregisterPeer ch oldest)) of
                 None \<Rightarrow> None
               | Some (calls, ch') \<Rightarrow> Some (fst (unregisterPeer ch oldest) @ calls, ch')))
      else Some ([], ch))"
  by pat_completeness auto

termination
proof (relation "measure (\<lambda>ch. length (ch_peerSubscriptions ch))")
  fix ch :: channel and p rest oldest sid
  assume "ch_peerSubscriptions ch = p # rest" "(oldest, sid) = p" "sid \<noteq> (0 :: nat)"
  moreover from this have "length (AList.delete oldest (ch_peerSubscriptions ch)) \<le> length rest"
    by (auto simp: AList.delete_eq)
  ultimately show "(snd (unregisterPeer ch oldest), ch) \<in> measure (\<lambda>ch. length (ch_peerSubscriptions ch))"
    by (auto simp: unregisterPeer_def Let_def)
qed simp

declare evict_peers.simps [simp del]

definition set_key :: "string \<Rightarrow> byte list option \<Rightarrow> channel \<Rightarrow> channel" where
  "set_key peerId key ch = (case key of Some k \<Rightarrow> ch\<lparr>ch_peerSessionKeys := AList.update peerId k (ch_peerSessionKeys ch)\<rparr> | None \<Rightarrow> ch)"

text \<open>A registration; \<open>None\<close> where it does not return.\<close>

definition registerPeer :: "chan_env \<Rightarrow> channel \<Rightarrow> string \<Rightarrow> ((chan_error option \<times> chan_call list) \<times> channel) option" where
  "registerPeer env ch peerId =
     (if ch_disposed ch then Some ((Some ChannelDisposed, []), ch)
      else if ch_encryptionRequired ch \<and> ch_keyStore ch \<and> ce_getOrCreate env peerId = None then Some ((Some KeyStoreThrew, []), ch)
      else let key = (if ch_encryptionRequired ch \<and> ch_keyStore ch then ce_getOrCreate env peerId else None) in
        if map_of (ch_peerSubscriptions ch) peerId \<noteq> None then Some ((None, []), set_key peerId key ch)
        else (case evict_peers ch of
            None \<Rightarrow> None
          | Some (calls, ch1) \<Rightarrow> (case ce_sid env of
              None \<Rightarrow> Some ((Some SubscribeThrew, calls), ch1)
            | Some sid \<Rightarrow> Some ((None, calls @ [Subscribe (inboundSubject ch peerId) sid]),
                set_key peerId key (ch1\<lparr>ch_peerSubscriptions := AList.update peerId sid (ch_peerSubscriptions ch1)\<rparr>)))))"

definition subscribeRegister :: "chan_env \<Rightarrow> channel \<Rightarrow> (chan_error + nat) \<times> chan_call list \<times> channel" where
  "subscribeRegister env ch =
     (if ch_disposed ch then (Inl ChannelDisposed, [], ch)
      else case ch_registerSid ch of
        Some sid \<Rightarrow> (Inr sid, [], ch)
      | None \<Rightarrow> (case ce_sid env of
          None \<Rightarrow> (Inl SubscribeThrew, [], ch)
        | Some sid \<Rightarrow> (Inr sid, [Subscribe (subject_base ch ''*'' @ ''.register'') sid], ch\<lparr>ch_registerSid := Some sid\<rparr>)))"

text \<open>The disposer of a register subscription, with its own flag.\<close>

definition registerDisposer :: "nat \<Rightarrow> bool \<Rightarrow> channel \<Rightarrow> bool \<times> chan_call list \<times> channel" where
  "registerDisposer sid disposed ch =
     (if disposed then (True, [], ch)
      else if ch_registerSid ch = Some sid then (True, [Unsubscribe sid], ch\<lparr>ch_registerSid := None\<rparr>)
      else (True, [], ch))"

definition channel_dispose :: "channel \<Rightarrow> chan_call list \<times> channel" where
  "channel_dispose ch =
     (if ch_disposed ch then ([], ch)
      else ((case ch_registerSid ch of Some sid \<Rightarrow> [Unsubscribe sid] | None \<Rightarrow> []) @ map (Unsubscribe \<circ> snd) (ch_peerSubscriptions ch),
        ch\<lparr>ch_disposed := True, ch_registerSid := None, ch_peerSubscriptions := [], ch_peerSessionKeys := [], ch_seenMessageIds := [], ch_approvalResolutions := [],
          ch_onMessage := False, ch_onApprovalDecision := False, ch_onLoadHistory := False, ch_onLoadCommands := False, ch_onPeerUnregister := False, ch_onRegisterRequest := False\<rparr>))"

definition wrapConversationKeyForDevice :: "chan_env \<Rightarrow> channel \<Rightarrow> string \<Rightarrow> byte list \<Rightarrow> string \<Rightarrow> key_pair \<Rightarrow> chan_error + wrapped_key option" where
  "wrapConversationKeyForDevice env ch peerId devicePublicKey clientNonce fresh =
     (if \<not> ch_encryptionRequired ch \<or> \<not> ch_keyStore ch then Inr None
      else if length devicePublicKey \<noteq> 32 then Inl DeviceKeyLength
      else case map_of (ch_peerSessionKeys ch) peerId of
        None \<Rightarrow> Inr None
      | Some key \<Rightarrow> (case wrapConversationKey (ce_node env) key devicePublicKey (ch_identityKeyPair ch) (Some peerId) (Some clientNonce) fresh (ce_nonce env 0) of
          Inl e \<Rightarrow> Inl (WrapThrew e) | Inr w \<Rightarrow> Inr (Some w)))"

section \<open>Sending\<close>

definition session_of :: "channel \<Rightarrow> string \<Rightarrow> session_routing" where
  "session_of ch peerId = \<lparr>sr_accountId = ch_accountId ch, sr_tenant = ch_tenant ch, sr_sub = peerId\<rparr>"

text \<open>The frame a payload travels in, with the draws number \<open>i\<close>; \<open>None\<close> where sealing throws or the peer has no key.\<close>

definition wire_frame :: "chan_env \<Rightarrow> nat \<Rightarrow> channel \<Rightarrow> string \<Rightarrow> json \<Rightarrow> string option" where
  "wire_frame env i ch peerId payload =
     (if ch_encryptionRequired ch then
        (case map_of (ch_peerSessionKeys ch) peerId of
           None \<Rightarrow> None
         | Some key \<Rightarrow> sealEnvelope (ce_node env) (session_of ch peerId) key payload ''conversation'' (ce_ident env i) (ce_now env) (ce_nonce env i))
      else Some (stringify payload))"

definition sendToPeer :: "chan_env \<Rightarrow> nat \<Rightarrow> channel \<Rightarrow> string \<Rightarrow> json \<Rightarrow> bool \<times> chan_call list" where
  "sendToPeer env i ch peerId payload =
     (if ch_disposed ch \<or> \<not> ce_connected env then (False, [])
      else case wire_frame env i ch peerId payload of
        None \<Rightarrow> (False, [])
      | Some wire \<Rightarrow> if ce_publish env (outboundSubject ch peerId) wire then (True, [Publish (outboundSubject ch peerId) wire])
          else (False, [PublishThrew (outboundSubject ch peerId) wire]))"

text \<open>A property that is spread in when it is true, and one that is spread in when it is defined.\<close>

definition if_nonempty :: "string \<Rightarrow> string option \<Rightarrow> (string \<times> json) list" where
  "if_nonempty k v = (case v of Some s \<Rightarrow> if s = [] then [] else [(k, JStr s)] | None \<Rightarrow> [])"

definition if_defined :: "string \<Rightarrow> json option \<Rightarrow> (string \<times> json) list" where
  "if_defined k v = (case v of Some j \<Rightarrow> [(k, j)] | None \<Rightarrow> [])"

definition text_payload :: "string \<Rightarrow> string option \<Rightarrow> string option \<Rightarrow> int option \<Rightarrow> json" where
  "text_payload text ident turnId assistantMessageIndex = JObj ([(''type'', JStr ''agent_message''), (''text'', JStr text)] @ if_nonempty ''id'' ident @ if_nonempty ''turnId'' turnId @
     if_defined ''assistantMessageIndex'' (map_option JNum assistantMessageIndex))"

definition sendText :: "chan_env \<Rightarrow> channel \<Rightarrow> string \<Rightarrow> string \<Rightarrow> string option \<Rightarrow> string option \<Rightarrow> int option \<Rightarrow> bool \<times> chan_call list" where
  "sendText env ch peerId text ident turnId assistantMessageIndex = sendToPeer env 0 ch peerId (text_payload text ident turnId assistantMessageIndex)"

definition sendProgress :: "chan_env \<Rightarrow> channel \<Rightarrow> string \<Rightarrow> string \<Rightarrow> string \<Rightarrow> string option \<Rightarrow> bool \<times> chan_call list" where
  "sendProgress env ch peerId ident text turnId =
     sendToPeer env 0 ch peerId (JObj ([(''type'', JStr ''progress''), (''id'', JStr ident), (''text'', JStr text)] @ if_nonempty ''turnId'' turnId))"

definition finalizeDraft :: "chan_env \<Rightarrow> channel \<Rightarrow> string \<Rightarrow> string \<Rightarrow> string \<Rightarrow> string option \<Rightarrow> int option \<Rightarrow> bool \<times> chan_call list" where
  "finalizeDraft env ch peerId ident text turnId assistantMessageIndex = sendText env ch peerId text (Some ident) turnId assistantMessageIndex"

definition sendReasoning :: "chan_env \<Rightarrow> channel \<Rightarrow> string \<Rightarrow> string \<Rightarrow> string \<Rightarrow> string \<Rightarrow> bool \<times> chan_call list" where
  "sendReasoning env ch peerId ident turnId text =
     sendToPeer env 0 ch peerId (JObj [(''type'', JStr ''reasoning''), (''id'', JStr ident), (''turnId'', JStr turnId), (''text'', JStr text)])"

record tool_activity =
  ta_id :: string
  ta_turnId :: string
  ta_name :: "string option"
  ta_phase :: "string option"
  ta_status :: "string option"
  ta_summary :: "string option"
  ta_argKeys :: "string list option"

definition sendToolActivity :: "chan_env \<Rightarrow> channel \<Rightarrow> string \<Rightarrow> tool_activity \<Rightarrow> bool \<times> chan_call list" where
  "sendToolActivity env ch peerId activity =
     sendToPeer env 0 ch peerId (JObj ([(''type'', JStr ''tool_activity''), (''id'', JStr (ta_id activity)), (''turnId'', JStr (ta_turnId activity))] @
       if_defined ''name'' (map_option JStr (ta_name activity)) @ if_defined ''phase'' (map_option JStr (ta_phase activity)) @ if_defined ''status'' (map_option JStr (ta_status activity)) @
       if_defined ''summary'' (map_option JStr (ta_summary activity)) @ if_defined ''argKeys'' (map_option (JArr \<circ> map JStr) (ta_argKeys activity))))"

definition sendTurnSettled :: "chan_env \<Rightarrow> channel \<Rightarrow> string \<Rightarrow> string \<Rightarrow> bool \<Rightarrow> bool \<times> chan_call list" where
  "sendTurnSettled env ch peerId turnId outcomeOk =
     sendToPeer env 0 ch peerId (JObj [(''type'', JStr ''turn_settled''), (''turnId'', JStr turnId), (''outcome'', JStr (if outcomeOk then ''ok'' else ''error''))])"

definition sendTyping :: "chan_env \<Rightarrow> channel \<Rightarrow> string \<Rightarrow> bool \<times> chan_call list" where
  "sendTyping env ch peerId = (if \<not> ch_typingEnabled ch then (False, []) else sendToPeer env 0 ch peerId (JObj [(''type'', JStr ''typing'')]))"

definition sendHistory :: "chan_env \<Rightarrow> channel \<Rightarrow> string \<Rightarrow> json list \<Rightarrow> bool \<times> chan_call list" where
  "sendHistory env ch peerId messages = sendToPeer env 0 ch peerId (JObj [(''type'', JStr ''history''), (''messages'', JArr messages)])"

definition sendCommands :: "chan_env \<Rightarrow> channel \<Rightarrow> string \<Rightarrow> json list \<Rightarrow> bool \<times> chan_call list" where
  "sendCommands env ch peerId commands = sendToPeer env 0 ch peerId (JObj [(''type'', JStr ''commands''), (''commands'', JArr commands)])"

text \<open>The fields of a request, none of which is called \<^verbatim>\<open>type\<close>.\<close>

record approval_request =
  ar_id :: string
  ar_kind :: string
  ar_title :: string
  ar_description :: "string option"
  ar_prompt :: string
  ar_options :: "json list"
  ar_expiresAtMs :: "int option"

definition approval_fields :: "approval_request \<Rightarrow> (string \<times> json) list" where
  "approval_fields r = [(''id'', JStr (ar_id r)), (''kind'', JStr (ar_kind r)), (''title'', JStr (ar_title r))] @ if_defined ''description'' (map_option JStr (ar_description r)) @
     [(''prompt'', JStr (ar_prompt r)), (''options'', JArr (ar_options r))] @ if_defined ''expiresAtMs'' (map_option JNum (ar_expiresAtMs r))"

definition sendApprovalRequest :: "chan_env \<Rightarrow> channel \<Rightarrow> string \<Rightarrow> approval_request \<Rightarrow> bool \<times> chan_call list" where
  "sendApprovalRequest env ch peerId request = sendToPeer env 0 ch peerId (JObj ((''type'', JStr ''approval_request'') # approval_fields request))"

text \<open>The loop of both bounded maps: drop the oldest while there are more than \<open>cap\<close>.\<close>

fun drop_oldest :: "int \<Rightarrow> ('k, 'v) js_map \<Rightarrow> ('k, 'v) js_map" where
  "drop_oldest cap [] = []"
| "drop_oldest cap (e # m) = (if int (length (e # m)) > cap then drop_oldest cap m else e # m)"

definition sendApprovalResolved :: "chan_env \<Rightarrow> channel \<Rightarrow> string \<Rightarrow> string \<Rightarrow> string \<Rightarrow> (bool \<times> chan_call list) \<times> channel" where
  "sendApprovalResolved env ch peerId ident decision =
     (let payload = JObj [(''type'', JStr ''approval_resolved''), (''id'', JStr ident), (''decision'', JStr decision)] in
      case map_of (ch_approvalResolutions ch) ident of
        Some resolver \<Rightarrow> if resolver \<noteq> peerId then ((False, []), ch) else (sendToPeer env 0 ch peerId payload, ch)
      | None \<Rightarrow>
          let ch' = ch\<lparr>ch_approvalResolutions := drop_oldest (ch_maxApprovalResolutions ch) (AList.update ident peerId (ch_approvalResolutions ch))\<rparr>
          in (sendToPeer env 0 ch' peerId payload, ch'))"

definition sendApprovalSnapshot :: "chan_env \<Rightarrow> channel \<Rightarrow> string \<Rightarrow> approval_request list \<Rightarrow> (string \<times> string) list option \<Rightarrow> bool \<times> chan_call list" where
  "sendApprovalSnapshot env ch peerId approvals resolved =
     sendToPeer env 0 ch peerId (JObj ([(''type'', JStr ''approval_snapshot''), (''approvals'', JArr (map (JObj \<circ> approval_fields) approvals))] @
       (case resolved of Some (r # rs) \<Rightarrow> [(''resolved'', JArr (map (\<lambda>(i, d). JObj [(''id'', JStr i), (''decision'', JStr d)]) (r # rs)))] | _ \<Rightarrow> [])))"

section \<open>Result frames\<close>

text \<open>\<open>Some None\<close> where sealing throws.\<close>

definition outboundWireSize :: "chan_env \<Rightarrow> channel \<Rightarrow> string \<Rightarrow> json \<Rightarrow> int option option" where
  "outboundWireSize env ch peerId payload =
     (if \<not> ch_encryptionRequired ch then Some (Some (utf8_length (stringify payload)))
      else case map_of (ch_peerSessionKeys ch) peerId of
        None \<Rightarrow> None
      | Some key \<Rightarrow> Some (map_option utf8_length (sealEnvelope (ce_node env) (session_of ch peerId) key payload ''conversation'' (ce_sizeIdent env) (ce_now env) (ce_sizeNonce env))))"

definition warnResultLimitTooSmall :: "int \<Rightarrow> channel \<Rightarrow> channel" where
  "warnResultLimitTooSmall now ch =
     (if (case ch_lastResultLimitWarningAt ch of Some t \<Rightarrow> now - t < RESULT_LIMIT_WARNING_INTERVAL_MS | None \<Rightarrow> False)
      then ch\<lparr>ch_suppressedResultLimitWarnings := ch_suppressedResultLimitWarnings ch + 1\<rparr>
      else ch\<lparr>ch_lastResultLimitWarningAt := Some now, ch_suppressedResultLimitWarnings := 0\<rparr>)"

text \<open>The calls of the frames a writer has handed over, in order.\<close>

definition frame_calls :: "chan_env \<Rightarrow> channel \<Rightarrow> string \<Rightarrow> result_frame list \<Rightarrow> chan_call list" where
  "frame_calls env ch peerId frames = concat (map (\<lambda>(i, f). snd (sendToPeer env i ch peerId (frame_json f))) (enumerate 0 frames))"

text \<open>
  A size that cannot be computed counts as negative, which the writer refuses with a throw as the seal does.
\<close>

definition measure_wire :: "chan_env \<Rightarrow> channel \<Rightarrow> string \<Rightarrow> result_frame \<Rightarrow> int" where
  "measure_wire env ch peerId frame =
     (case outboundWireSize env ch peerId (frame_json frame) of
        Some (Some n) \<Rightarrow> n | Some None \<Rightarrow> -1 | None \<Rightarrow> utf8_length (stringify (frame_json frame)))"

definition sendIngressResult :: "chan_env \<Rightarrow> channel \<Rightarrow> string \<Rightarrow> frame_type \<Rightarrow> string option list \<Rightarrow> (bool \<times> chan_call list) \<times> channel" where
  "sendIngressResult env ch peerId type candidates =
     (if candidates = [] then ((True, []), ch)
      else case createIngressResultChunkWriter \<lparr>co_type = type,
          co_publish = \<lambda>prev f. fst (sendToPeer env (length prev) ch peerId (frame_json f)), co_measure = Some (measure_wire env ch peerId),
          co_effectiveLimit = safe_nonneg (ce_effectiveOutboundLimit env), co_maxIds = None, co_maxWireBytes = None\<rparr> of
        Inl e \<Rightarrow> ((False, []), ch)
      | Inr w \<Rightarrow>
          let (r, w1) = add_all candidates w;
              (ok, w2) = (case r of Inl e \<Rightarrow> (False, w1) | Inr acc \<Rightarrow> finish w1)
          in ((ok, frame_calls env ch peerId (w_published w2)), (warnResultLimitTooSmall (ce_now env) ^^ w_tooSmall w2) ch))"

definition sendAck :: "chan_env \<Rightarrow> channel \<Rightarrow> string \<Rightarrow> string option list \<Rightarrow> (bool \<times> chan_call list) \<times> channel" where
  "sendAck env ch peerId ids = sendIngressResult env ch peerId AckType ids"

definition sendInboundRejected :: "chan_env \<Rightarrow> channel \<Rightarrow> string \<Rightarrow> string option list \<Rightarrow> (bool \<times> chan_call list) \<times> channel" where
  "sendInboundRejected env ch peerId ids = sendIngressResult env ch peerId RejectedType ids"

section \<open>Receiving\<close>

record nats_message =
  nm_subject :: string
  nm_replyTo :: "string option"
  nm_payload :: string

fun split_dots :: "string \<Rightarrow> string list" where
  "split_dots [] = [[]]"
| "split_dots (c # cs) = (if c = CHR ''.'' then [] # split_dots cs else case split_dots cs of p # ps \<Rightarrow> (c # p) # ps | [] \<Rightarrow> [[c]])"

definition is_prefix :: "string \<Rightarrow> string \<Rightarrow> bool" where
  "is_prefix p s \<longleftrightarrow> take (length p) s = p"

text \<open>The reply callback of a register request.\<close>

definition register_reply :: "chan_env \<Rightarrow> channel \<Rightarrow> string \<Rightarrow> string option \<Rightarrow> string \<Rightarrow> chan_call list" where
  "register_reply env ch peerId replyTo response =
     (let ownReginboxPrefix = subject_base ch peerId @ ''.reginbox.'' in
      case replyTo of
        None \<Rightarrow> []
      | Some r \<Rightarrow>
          if r = [] \<or> \<not> is_prefix ownReginboxPrefix r \<or> \<not> isValidSubjectToken (drop (length ownReginboxPrefix) r) then []
          else if ce_publish env r response then [Publish r response] else [PublishThrew r response])"

definition handleRegister :: "channel \<Rightarrow> nats_message \<Rightarrow> string \<Rightarrow> chan_call list" where
  "handleRegister ch msg peerId = (if ch_onRegisterRequest ch then [HostRegister peerId (nm_payload msg)] else [])"

definition DECISIONS :: "string list" where
  "DECISIONS = [''allow-once'', ''allow-always'', ''deny'']"

text \<open>Reading the type of \<^verbatim>\<open>null\<close> throws, with no call made.\<close>

definition dispatchInbound :: "channel \<Rightarrow> string \<Rightarrow> json \<Rightarrow> chan_call list" where
  "dispatchInbound ch peerId message =
     (if json_field ''type'' message = Some (JStr ''user_message'') then (if ch_onMessage ch then [HostMessage peerId message] else [])
      else if json_field ''type'' message = Some (JStr ''approval_decision'') then
        (case (json_field ''id'' message, json_field ''decision'' message) of
           (Some (JStr i), Some (JStr d)) \<Rightarrow> if d \<in> set DECISIONS \<and> ch_onApprovalDecision ch then [HostApproval peerId i d] else []
         | _ \<Rightarrow> [])
      else if json_field ''type'' message = Some (JStr ''load_history'') then
        (if ch_onLoadHistory ch then [HostHistory peerId (json_field ''before'' message) (json_field ''limit'' message)] else [])
      else if json_field ''type'' message = Some (JStr ''load_commands'') then (if ch_onLoadCommands ch then [HostCommands peerId] else [])
      else [])"

definition acceptFreshInbound :: "int \<Rightarrow> channel \<Rightarrow> string \<Rightarrow> string \<Rightarrow> int \<Rightarrow> bool \<times> channel" where
  "acceptFreshInbound now ch peerId messageId ts =
     (if \<bar>now - ts\<bar> > ch_replayWindowMs ch then (False, ch)
      else let seen = (case map_of (ch_seenMessageIds ch) peerId of Some m \<Rightarrow> m | None \<Rightarrow> []) in
        if map_of seen messageId \<noteq> None then (False, ch\<lparr>ch_seenMessageIds := AList.update peerId seen (ch_seenMessageIds ch)\<rparr>)
        else (True, ch\<lparr>ch_seenMessageIds := AList.update peerId (drop_oldest (ch_maxSeenMessageIdsPerPeer ch) (AList.update messageId ts seen)) (ch_seenMessageIds ch)\<rparr>))"

definition handleEncryptedInbound :: "chan_env \<Rightarrow> channel \<Rightarrow> nats_message \<Rightarrow> string \<Rightarrow> chan_call list \<times> channel" where
  "handleEncryptedInbound env ch msg peerId =
     (case map_of (ch_peerSessionKeys ch) peerId of
        None \<Rightarrow> ([], ch)
      | Some key \<Rightarrow> (case openEnvelope (ce_node env) (nm_payload msg) key of
          Inl e \<Rightarrow> ([], ch)
        | Inr (routing, message) \<Rightarrow> (case acceptFreshInbound (ce_now env) ch peerId (er_messageId routing) (er_ts routing) of
            (False, ch') \<Rightarrow> ([], ch')
          | (True, ch') \<Rightarrow> (dispatchInbound ch' peerId message, ch'))))"

definition handleNatsMessage :: "chan_env \<Rightarrow> channel \<Rightarrow> nats_message \<Rightarrow> chan_call list \<times> channel" where
  "handleNatsMessage env ch msg =
     (let parts = split_dots (nm_subject msg) in
      if length parts < 5 then ([], ch)
      else let peerId = parts ! 3 in
        if last parts = ''register'' then (handleRegister ch msg peerId, ch)
        else if ch_encryptionRequired ch then handleEncryptedInbound env ch msg peerId
        else (case np_parse (ce_node env) (nm_payload msg) of
            None \<Rightarrow> ([], ch)
          | Some message \<Rightarrow> (dispatchInbound ch peerId message, ch)))"

text \<open>The listener on the transport, which \<open>channel_dispose\<close> detaches.\<close>

definition on_message :: "chan_env \<Rightarrow> channel \<Rightarrow> nats_message \<Rightarrow> chan_call list \<times> channel" where
  "on_message env ch msg = (if ch_disposed ch then ([], ch) else handleNatsMessage env ch msg)"

section \<open>Runs\<close>

text \<open>The operations of the channel that change it or make calls, in any order.\<close>

datatype chan_op =
    OpRegisterPeer string
  | OpUnregisterPeer string
  | OpSubscribeRegister
  | OpRegisterDisposer nat bool
  | OpDispose
  | OpSetHandlers channel
  | OpSetTyping bool
  | OpSend string json
  | OpResolved string string string
  | OpResult string frame_type "string option list"
  | OpMessage nats_message
  | OpReply string "string option" string

text \<open>The setters put a handler in place; \<open>OpSetHandlers h\<close> takes over the handlers of \<open>h\<close>.\<close>

definition set_handlers :: "channel \<Rightarrow> channel \<Rightarrow> channel" where
  "set_handlers h ch = ch\<lparr>ch_onMessage := ch_onMessage h, ch_onApprovalDecision := ch_onApprovalDecision h, ch_onLoadHistory := ch_onLoadHistory h,
     ch_onLoadCommands := ch_onLoadCommands h, ch_onPeerUnregister := ch_onPeerUnregister h, ch_onRegisterRequest := ch_onRegisterRequest h\<rparr>"

text \<open>\<open>None\<close> where the operation does not return.\<close>

fun chan_step :: "chan_op \<times> chan_env \<Rightarrow> channel \<Rightarrow> (chan_call list \<times> channel) option" where
  "chan_step (OpRegisterPeer p, env) ch = map_option (\<lambda>((e, calls), ch'). (calls, ch')) (registerPeer env ch p)"
| "chan_step (OpUnregisterPeer p, env) ch = Some (unregisterPeer ch p)"
| "chan_step (OpSubscribeRegister, env) ch = Some (snd (subscribeRegister env ch))"
| "chan_step (OpRegisterDisposer sid d, env) ch = Some (snd (registerDisposer sid d ch))"
| "chan_step (OpDispose, env) ch = Some (channel_dispose ch)"
| "chan_step (OpSetHandlers h, env) ch = Some ([], set_handlers h ch)"
| "chan_step (OpSetTyping b, env) ch = Some ([], ch\<lparr>ch_typingEnabled := b\<rparr>)"
| "chan_step (OpSend p j, env) ch = Some (snd (sendToPeer env 0 ch p j), ch)"
| "chan_step (OpResolved p i d, env) ch = (case sendApprovalResolved env ch p i d of ((r, calls), ch') \<Rightarrow> Some (calls, ch'))"
| "chan_step (OpResult p t cs, env) ch = (case sendIngressResult env ch p t cs of ((r, calls), ch') \<Rightarrow> Some (calls, ch'))"
| "chan_step (OpMessage m, env) ch = Some (on_message env ch m)"
| "chan_step (OpReply p r t, env) ch = Some (register_reply env ch p r t, ch)"

fun chan_run :: "(chan_op \<times> chan_env) list \<Rightarrow> channel \<Rightarrow> (((chan_op \<times> chan_env) \<times> chan_call list) list \<times> channel) option" where
  "chan_run [] ch = Some ([], ch)"
| "chan_run (c # cs) ch = (case chan_step c ch of
     None \<Rightarrow> None
   | Some (calls, ch1) \<Rightarrow> map_option (\<lambda>(tr, ch2). ((c, calls) # tr, ch2)) (chan_run cs ch1))"

section \<open>Invariant\<close>

definition keys_ok :: "channel \<Rightarrow> bool" where
  "keys_ok ch \<longleftrightarrow> (if ch_encryptionRequired ch then ch_keyStore ch \<and> ch_identityKeyPair ch \<noteq> None \<and> set (js_keys (ch_peerSessionKeys ch)) = set (js_keys (ch_peerSubscriptions ch))
     else ch_peerSessionKeys ch = [])"

definition windows_ok :: "channel \<Rightarrow> bool" where
  "windows_ok ch \<longleftrightarrow> distinct (js_keys (ch_seenMessageIds ch)) \<and> set (js_keys (ch_seenMessageIds ch)) \<subseteq> set (js_keys (ch_peerSessionKeys ch)) \<and>
     (\<forall>w \<in> set (map snd (ch_seenMessageIds ch)). distinct (js_keys w) \<and> int (length w) \<le> max 0 (ch_maxSeenMessageIdsPerPeer ch))"

definition peers_ok :: "channel \<Rightarrow> bool" where
  "peers_ok ch \<longleftrightarrow> distinct (js_keys (ch_peerSubscriptions ch)) \<and> distinct (js_keys (ch_peerSessionKeys ch)) \<and> (\<forall>sid \<in> set (map snd (ch_peerSubscriptions ch)). sid \<noteq> 0) \<and>
     int (length (ch_peerSubscriptions ch)) \<le> max 1 (ch_maxPeers ch)"

definition resolutions_ok :: "channel \<Rightarrow> bool" where
  "resolutions_ok ch \<longleftrightarrow> distinct (js_keys (ch_approvalResolutions ch)) \<and> int (length (ch_approvalResolutions ch)) \<le> max 0 (ch_maxApprovalResolutions ch)"

definition chan_ok :: "channel \<Rightarrow> bool" where
  "chan_ok ch \<longleftrightarrow> peers_ok ch \<and> keys_ok ch \<and> windows_ok ch \<and> resolutions_ok ch"

lemmas chan_ok_defs = chan_ok_def peers_ok_def keys_ok_def windows_ok_def resolutions_ok_def

text \<open>What no operation changes.\<close>

definition same_setup :: "channel \<Rightarrow> channel \<Rightarrow> bool" where
  "same_setup ch ch' \<longleftrightarrow> ch_accountId ch' = ch_accountId ch \<and> ch_tenant ch' = ch_tenant ch \<and> ch_maxPeers ch' = ch_maxPeers ch \<and>
     ch_maxApprovalResolutions ch' = ch_maxApprovalResolutions ch \<and> ch_replayWindowMs ch' = ch_replayWindowMs ch \<and> ch_maxSeenMessageIdsPerPeer ch' = ch_maxSeenMessageIdsPerPeer ch \<and>
     ch_encryptionRequired ch' = ch_encryptionRequired ch \<and> ch_keyStore ch' = ch_keyStore ch \<and> ch_identityKeyPair ch' = ch_identityKeyPair ch"

lemma same_setup_trans: "same_setup a b \<Longrightarrow> same_setup b c \<Longrightarrow> same_setup a c"
  by (simp add: same_setup_def)

lemma same_setup_refl [simp]: "same_setup ch ch"
  by (simp add: same_setup_def)

lemma drop_oldest_suffix: "\<exists>d. m = d @ drop_oldest cap m"
  by (induction cap m rule: drop_oldest.induct) (auto, metis append_Cons)

lemma drop_oldest_length: "int (length (drop_oldest cap m)) \<le> max 0 cap"
  by (induction cap m rule: drop_oldest.induct) auto

lemma drop_oldest_distinct: "distinct (js_keys m) \<Longrightarrow> distinct (js_keys (drop_oldest cap m))"
  using drop_oldest_suffix[of m cap] by (metis distinct_append map_append)

lemma keys_update: "set (js_keys (AList.update k v m)) = insert k (set (js_keys m))"
  by (induction m) auto

lemma keys_delete: "set (js_keys (AList.delete k m)) = set (js_keys m) - {k}"
  by (auto simp: AList.delete_eq)

lemma values_update: "set (map snd (AList.update k v m)) \<subseteq> insert v (set (map snd m))"
  by (induction m) auto

lemma values_delete: "set (map snd (AList.delete k m)) \<subseteq> set (map snd m)"
  by (auto simp: AList.delete_eq)

lemma delete_absent: "k \<notin> fst ` set m \<Longrightarrow> AList.delete k m = m"
  by (force simp: AList.delete_eq filter_id_conv)

lemma unregister_ok:
  assumes "chan_ok ch"
  shows "chan_ok (snd (unregisterPeer ch p))" "same_setup ch (snd (unregisterPeer ch p))"
proof -
  let ?subs = "ch_peerSubscriptions ch"
  have len: "length (AList.delete p ?subs) \<le> length ?subs" by (simp add: AList.delete_eq)
  have gone: "p \<notin> set (js_keys (ch_peerSessionKeys ch))" "p \<notin> set (js_keys ?subs)" if "map_of ?subs p = None"
    using that assms by (auto simp: chan_ok_def keys_ok_def map_of_eq_None_iff split: if_splits)
  have nz: "sid \<noteq> 0" if "map_of ?subs p = Some sid" for sid
  proof -
    have "sid \<in> set (map snd ?subs)" using map_of_SomeD[OF that] by (metis image_eqI set_map snd_conv)
    then show ?thesis using assms unfolding chan_ok_def peers_ok_def by blast
  qed
  show "chan_ok (snd (unregisterPeer ch p))"
  proof (cases "map_of ?subs p")
    case None
    then have "AList.delete p (ch_peerSessionKeys ch) = ch_peerSessionKeys ch" "AList.delete p (ch_seenMessageIds ch) = ch_seenMessageIds ch"
      using gone(1)[OF None] assms by (auto simp: chan_ok_def windows_ok_def subset_iff intro!: delete_absent)
    then show ?thesis using assms None by (simp add: unregisterPeer_def)
  next
    case (Some sid)
    then show ?thesis using assms len nz[OF Some] unfolding unregisterPeer_def Let_def chan_ok_defs
      by (auto simp: set_delete_eq split: if_splits)
  qed
  show "same_setup ch (snd (unregisterPeer ch p))" by (simp add: unregisterPeer_def same_setup_def Let_def split: option.split)
qed

lemma unregister_keys: "set (js_keys (ch_peerSubscriptions (snd (unregisterPeer ch p)))) \<subseteq> set (js_keys (ch_peerSubscriptions ch))"
  by (auto simp: unregisterPeer_def Let_def set_delete_eq split: option.splits)

lemma evict_returns:
  "chan_ok ch \<Longrightarrow> \<exists>calls ch'. evict_peers ch = Some (calls, ch') \<and> chan_ok ch' \<and> same_setup ch ch' \<and>
     (int (length (ch_peerSubscriptions ch')) < ch_maxPeers ch \<or> ch_peerSubscriptions ch' = []) \<and>
     set (js_keys (ch_peerSubscriptions ch')) \<subseteq> set (js_keys (ch_peerSubscriptions ch))"
proof (induction ch rule: evict_peers.induct)
  case (1 ch)
  show ?case
  proof (cases "int (length (ch_peerSubscriptions ch)) \<ge> ch_maxPeers ch \<and> ch_peerSubscriptions ch \<noteq> []")
    case False
    then show ?thesis using 1 by (subst evict_peers.simps) auto
  next
    case True
    then obtain oldest sid rest where s: "ch_peerSubscriptions ch = (oldest, sid) # rest" by (cases "ch_peerSubscriptions ch") auto
    then have sid: "sid \<noteq> 0" using "1.prems" by (auto simp: chan_ok_def peers_ok_def)
    let ?u = "snd (unregisterPeer ch oldest)"
    have u: "chan_ok ?u" "same_setup ch ?u" using unregister_ok[OF "1.prems"] by auto
    obtain calls ch' where ih: "evict_peers ?u = Some (calls, ch')" "chan_ok ch'" "same_setup ?u ch'"
      "int (length (ch_peerSubscriptions ch')) < ch_maxPeers ?u \<or> ch_peerSubscriptions ch' = []" "set (js_keys (ch_peerSubscriptions ch')) \<subseteq> set (js_keys (ch_peerSubscriptions ?u))"
      using "1.IH"[OF _ s refl sid u(1)] True by auto
    have "evict_peers ch = Some (fst (unregisterPeer ch oldest) @ calls, ch')" using True s sid ih(1) by (subst evict_peers.simps) simp
    moreover have "same_setup ch ch'" using u(2) ih(3) by (rule same_setup_trans)
    moreover have "ch_maxPeers ?u = ch_maxPeers ch" using u(2) by (simp add: same_setup_def)
    ultimately show ?thesis using ih(2,4,5) unregister_keys[of ch oldest] by auto
  qed
qed

text \<open>Subscription ids are positive, as the transport counts them.\<close>

definition env_ok :: "chan_env \<Rightarrow> bool" where
  "env_ok env \<longleftrightarrow> ce_sid env \<noteq> Some 0"

lemma set_key_ok:
  assumes "distinct (js_keys (ch_peerSubscriptions ch))" "distinct (js_keys (ch_peerSessionKeys ch))" "\<forall>sid \<in> set (map snd (ch_peerSubscriptions ch)). sid \<noteq> 0"
    and "int (length (ch_peerSubscriptions ch)) \<le> max 1 (ch_maxPeers ch)" "windows_ok ch" "resolutions_ok ch"
    and "if ch_encryptionRequired ch then ch_keyStore ch \<and> ch_identityKeyPair ch \<noteq> None \<and> key \<noteq> None \<and>
        insert p (set (js_keys (ch_peerSessionKeys ch))) = set (js_keys (ch_peerSubscriptions ch))
      else key = None \<and> ch_peerSessionKeys ch = []"
  shows "chan_ok (set_key p key ch)" "same_setup ch (set_key p key ch)"
proof -
  have image: "fst ` set (AList.update p k m) = insert p (fst ` set m)" for k and m :: "(string \<times> byte list) list" using keys_update[of p k m] by simp
  have "windows_ok (set_key p key ch)" using assms(5) by (cases key) (auto simp: windows_ok_def set_key_def image subset_insertI2)
  moreover have "keys_ok (set_key p key ch)" using assms(7) by (cases key) (auto simp: keys_ok_def set_key_def image split: if_splits)
  moreover have "peers_ok (set_key p key ch)" "resolutions_ok (set_key p key ch)" using assms(1-4,6) by (cases key; simp add: peers_ok_def resolutions_ok_def set_key_def)+
  ultimately show "chan_ok (set_key p key ch)" by (simp add: chan_ok_def)
  show "same_setup ch (set_key p key ch)" by (simp add: set_key_def same_setup_def split: option.split)
qed

lemma register_ok:
  assumes "chan_ok ch" "env_ok env"
  shows "\<exists>e calls ch'. registerPeer env ch p = Some ((e, calls), ch') \<and> chan_ok ch' \<and> same_setup ch ch'"
proof -
  let ?key = "if ch_encryptionRequired ch \<and> ch_keyStore ch then ce_getOrCreate env p else None"
  consider "ch_disposed ch \<or> ch_encryptionRequired ch \<and> ch_keyStore ch \<and> ce_getOrCreate env p = None"
    | (Known) "\<not> ch_disposed ch" "ch_encryptionRequired ch \<and> ch_keyStore ch \<Longrightarrow> ce_getOrCreate env p \<noteq> None" "map_of (ch_peerSubscriptions ch) p \<noteq> None"
    | (New) "\<not> ch_disposed ch" "ch_encryptionRequired ch \<and> ch_keyStore ch \<Longrightarrow> ce_getOrCreate env p \<noteq> None" "map_of (ch_peerSubscriptions ch) p = None" by blast
  then show ?thesis
  proof cases
    case 1
    then show ?thesis using assms(1) by (auto simp: registerPeer_def)
  next
    case Known
    then have "p \<in> set (js_keys (ch_peerSubscriptions ch))" by (simp add: map_of_eq_None_iff)
    then have "chan_ok (set_key p ?key ch)" "same_setup ch (set_key p ?key ch)"
      using assms(1) Known(2) by (intro set_key_ok; auto simp: chan_ok_def peers_ok_def keys_ok_def split: if_splits)+
    then show ?thesis using Known by (auto simp: registerPeer_def Let_def)
  next
    case New
    obtain calls ch1 where ev: "evict_peers ch = Some (calls, ch1)" "chan_ok ch1" "same_setup ch ch1"
      "int (length (ch_peerSubscriptions ch1)) < ch_maxPeers ch \<or> ch_peerSubscriptions ch1 = []" "set (js_keys (ch_peerSubscriptions ch1)) \<subseteq> set (js_keys (ch_peerSubscriptions ch))"
      using evict_returns[OF assms(1)] by blast
    show ?thesis
    proof (cases "ce_sid env")
      case None
      then show ?thesis using New ev by (auto simp: registerPeer_def Let_def)
    next
      case (Some sid)
      have fresh: "p \<notin> set (js_keys (ch_peerSubscriptions ch1))" using New(3) ev(5) by (auto simp: map_of_eq_None_iff)
      let ?ch2 = "ch1\<lparr>ch_peerSubscriptions := AList.update p sid (ch_peerSubscriptions ch1)\<rparr>"
      have app: "AList.update p sid (ch_peerSubscriptions ch1) = ch_peerSubscriptions ch1 @ [(p, sid)]" by (rule update_fresh_append[OF fresh])
      have sid: "sid \<noteq> 0" using Some assms(2) by (simp add: env_ok_def)
      have st: "ch_encryptionRequired ch1 = ch_encryptionRequired ch" "ch_keyStore ch1 = ch_keyStore ch" "ch_maxPeers ch1 = ch_maxPeers ch" using ev(3) by (auto simp: same_setup_def)
      have "chan_ok (set_key p ?key ?ch2)" "same_setup ?ch2 (set_key p ?key ?ch2)"
        using ev(2,4) fresh sid st New(2) unfolding app
        by (intro set_key_ok; auto simp: chan_ok_def peers_ok_def keys_ok_def windows_ok_def resolutions_ok_def split: if_splits)+
      moreover have "same_setup ch ?ch2" using ev(3) by (simp add: same_setup_def)
      ultimately show ?thesis using New ev(1) Some by (auto simp: registerPeer_def Let_def dest: same_setup_trans)
    qed
  qed
qed

lemma map_of_parts: "map_of m k = Some v \<Longrightarrow> v \<in> snd ` set m \<and> k \<in> fst ` set m"
  using map_of_SomeD[of m k v] by (metis fst_conv image_eqI snd_conv)

text \<open>The invariant reads the maps and the setup only.\<close>

lemma chan_ok_same:
  assumes "chan_ok ch" "same_setup ch ch'" "ch_peerSubscriptions ch' = ch_peerSubscriptions ch" "ch_peerSessionKeys ch' = ch_peerSessionKeys ch"
    and "ch_seenMessageIds ch' = ch_seenMessageIds ch" "ch_approvalResolutions ch' = ch_approvalResolutions ch"
  shows "chan_ok ch'"
proof -
  have "peers_ok ch' = peers_ok ch" "keys_ok ch' = keys_ok ch" "windows_ok ch' = windows_ok ch" "resolutions_ok ch' = resolutions_ok ch"
    using assms(2-6) by (simp_all add: peers_ok_def keys_ok_def windows_ok_def resolutions_ok_def same_setup_def)
  then show ?thesis using assms(1) by (simp add: chan_ok_def)
qed

lemma accept_ok:
  assumes "chan_ok ch" "map_of (ch_peerSessionKeys ch) p \<noteq> None"
  shows "chan_ok (snd (acceptFreshInbound now ch p x ts))" "same_setup ch (snd (acceptFreshInbound now ch p x ts))"
proof -
  let ?seen = "case map_of (ch_seenMessageIds ch) p of Some m \<Rightarrow> m | None \<Rightarrow> []"
  have p: "p \<in> fst ` set (ch_peerSessionKeys ch)" using assms(2) by (simp add: map_of_eq_None_iff)
  have "?seen \<in> snd ` set (ch_seenMessageIds ch) \<or> ?seen = []"
    by (cases "map_of (ch_seenMessageIds ch) p") (auto dest: map_of_parts)
  then have seen: "distinct (js_keys ?seen)" "int (length ?seen) \<le> max 0 (ch_maxSeenMessageIdsPerPeer ch)"
    using assms(1) by (auto simp: chan_ok_def windows_ok_def)
  have upd: "windows_ok (ch\<lparr>ch_seenMessageIds := AList.update p w (ch_seenMessageIds ch)\<rparr>)" if "distinct (js_keys w)" "int (length w) \<le> max 0 (ch_maxSeenMessageIdsPerPeer ch)" for w
  proof -
    have "v = w \<or> v \<in> set (map snd (ch_seenMessageIds ch))" if "v \<in> set (map snd (AList.update p w (ch_seenMessageIds ch)))" for v
      using values_update[of p w "ch_seenMessageIds ch"] that by blast
    moreover have "set (js_keys (AList.update p w (ch_seenMessageIds ch))) \<subseteq> set (js_keys (ch_peerSessionKeys ch))"
      unfolding keys_update using assms(1) p by (simp add: chan_ok_def windows_ok_def)
    moreover have "windows_ok (ch\<lparr>ch_seenMessageIds := S\<rparr>) \<longleftrightarrow> distinct (js_keys S) \<and> set (js_keys S) \<subseteq> set (js_keys (ch_peerSessionKeys ch)) \<and>
        (\<forall>v \<in> set (map snd S). distinct (js_keys v) \<and> int (length v) \<le> max 0 (ch_maxSeenMessageIdsPerPeer ch))" for S by (simp add: windows_ok_def)
    moreover have "distinct (js_keys (AList.update p w (ch_seenMessageIds ch)))" using assms(1) by (simp add: chan_ok_def windows_ok_def)
    ultimately show ?thesis using assms(1) that unfolding chan_ok_def windows_ok_def[of ch] by blast
  qed
  have "distinct (js_keys (drop_oldest (ch_maxSeenMessageIdsPerPeer ch) (AList.update x ts ?seen)))" by (intro drop_oldest_distinct distinct_keys_update seen(1))
  then have "windows_ok (snd (acceptFreshInbound now ch p x ts))"
    using assms(1) upd[OF seen] upd[OF _ drop_oldest_length] by (simp add: acceptFreshInbound_def chan_ok_def Let_def)
  moreover have "peers_ok (ch\<lparr>ch_seenMessageIds := S\<rparr>) = peers_ok ch" "keys_ok (ch\<lparr>ch_seenMessageIds := S\<rparr>) = keys_ok ch"
    "resolutions_ok (ch\<lparr>ch_seenMessageIds := S\<rparr>) = resolutions_ok ch" for S by (simp_all add: peers_ok_def keys_ok_def resolutions_ok_def)
  then have "peers_ok (snd (acceptFreshInbound now ch p x ts))" "keys_ok (snd (acceptFreshInbound now ch p x ts))" "resolutions_ok (snd (acceptFreshInbound now ch p x ts))"
    using assms(1) by (simp_all add: chan_ok_def acceptFreshInbound_def Let_def)
  ultimately show "chan_ok (snd (acceptFreshInbound now ch p x ts))" by (simp add: chan_ok_def)
  show "same_setup ch (snd (acceptFreshInbound now ch p x ts))" by (simp add: acceptFreshInbound_def Let_def same_setup_def)
qed

lemma inbound_state:
  "snd (on_message env ch m) = ch \<or>
   (\<exists>p x ts. map_of (ch_peerSessionKeys ch) p \<noteq> None \<and> snd (on_message env ch m) = snd (acceptFreshInbound (ce_now env) ch p x ts))"
  by (auto simp: on_message_def handleNatsMessage_def Let_def handleEncryptedInbound_def split: option.split sum.split prod.split bool.split)
    (metis snd_conv option.distinct(1))+

lemma resolved_ok:
  assumes "chan_ok ch"
  shows "chan_ok (snd (sendApprovalResolved env ch p i d))" "same_setup ch (snd (sendApprovalResolved env ch p i d))"
proof -
  let ?m = "drop_oldest (ch_maxApprovalResolutions ch) (AList.update i p (ch_approvalResolutions ch))"
  have "distinct (js_keys ?m)" "int (length ?m) \<le> max 0 (ch_maxApprovalResolutions ch)"
    using assms drop_oldest_length by (auto simp: chan_ok_def resolutions_ok_def intro!: drop_oldest_distinct)
  then have "resolutions_ok (ch\<lparr>ch_approvalResolutions := ?m\<rparr>)" by (simp add: resolutions_ok_def)
  moreover have "peers_ok (ch\<lparr>ch_approvalResolutions := ?m\<rparr>) = peers_ok ch" "keys_ok (ch\<lparr>ch_approvalResolutions := ?m\<rparr>) = keys_ok ch" "windows_ok (ch\<lparr>ch_approvalResolutions := ?m\<rparr>) = windows_ok ch"
    by (simp_all add: peers_ok_def keys_ok_def windows_ok_def)
  ultimately have "chan_ok (ch\<lparr>ch_approvalResolutions := ?m\<rparr>)" using assms by (simp add: chan_ok_def)
  then show "chan_ok (snd (sendApprovalResolved env ch p i d))" using assms by (simp add: sendApprovalResolved_def Let_def split: option.split)
  show "same_setup ch (snd (sendApprovalResolved env ch p i d))" by (simp add: sendApprovalResolved_def Let_def same_setup_def split: option.split)
qed

lemma warn_ok: "chan_ok ch \<Longrightarrow> chan_ok ((warnResultLimitTooSmall now ^^ n) ch) \<and> same_setup ch ((warnResultLimitTooSmall now ^^ n) ch)"
proof (induction n)
  case (Suc n)
  let ?c = "(warnResultLimitTooSmall now ^^ n) ch"
  have same: "same_setup ?c (warnResultLimitTooSmall now ?c)" by (simp add: warnResultLimitTooSmall_def same_setup_def)
  moreover have "chan_ok (warnResultLimitTooSmall now ?c)" by (rule chan_ok_same[OF _ same]) (use Suc in blast, simp_all add: warnResultLimitTooSmall_def[of now ?c])
  ultimately show ?case using Suc by (auto dest: same_setup_trans)
qed simp

lemma result_ok: "chan_ok ch \<Longrightarrow> chan_ok (snd (sendIngressResult env ch p t cs)) \<and> same_setup ch (snd (sendIngressResult env ch p t cs))"
  by (simp add: sendIngressResult_def warn_ok split: sum.split prod.split)

lemma chan_step_ok:
  assumes "chan_ok ch" "env_ok env"
  shows "\<exists>calls ch'. chan_step (op, env) ch = Some (calls, ch') \<and> chan_ok ch' \<and> same_setup ch ch'"
proof (cases op)
  case (OpRegisterPeer p)
  then show ?thesis using register_ok[OF assms, of p] by fastforce
next
  case (OpUnregisterPeer p)
  then show ?thesis using unregister_ok[OF assms(1), of p] by (cases "unregisterPeer ch p") auto
next
  case (OpSubscribeRegister)
  have "same_setup ch (snd (snd (subscribeRegister env ch)))" by (simp add: subscribeRegister_def same_setup_def split: option.split)
  moreover have "chan_ok (snd (snd (subscribeRegister env ch)))" by (rule chan_ok_same[OF assms(1) calculation]) (simp_all add: subscribeRegister_def split: option.split)
  ultimately show ?thesis using OpSubscribeRegister by (cases "snd (subscribeRegister env ch)") auto
next
  case (OpRegisterDisposer sid d)
  have "same_setup ch (snd (snd (registerDisposer sid d ch)))" by (simp add: registerDisposer_def same_setup_def)
  moreover have "chan_ok (snd (snd (registerDisposer sid d ch)))" by (rule chan_ok_same[OF assms(1) calculation]) (simp_all add: registerDisposer_def)
  ultimately show ?thesis using OpRegisterDisposer by (cases "snd (registerDisposer sid d ch)") auto
next
  case OpDispose
  have "chan_ok (snd (channel_dispose ch))" using assms(1)
    by (cases "ch_disposed ch"; cases "ch_encryptionRequired ch") (auto simp: channel_dispose_def chan_ok_def peers_ok_def keys_ok_def windows_ok_def resolutions_ok_def)
  moreover have "same_setup ch (snd (channel_dispose ch))" by (simp add: channel_dispose_def same_setup_def)
  ultimately show ?thesis using OpDispose by (cases "channel_dispose ch") auto
next
  case (OpResolved p i d)
  then show ?thesis using resolved_ok[OF assms(1), of env p i d] by (cases "sendApprovalResolved env ch p i d") auto
next
  case (OpResult p t cs)
  then show ?thesis using result_ok[OF assms(1), of env p t cs] by (cases "sendIngressResult env ch p t cs") auto
next
  case (OpMessage m)
  then show ?thesis using inbound_state[of env ch m] accept_ok[OF assms(1)] assms(1) by (cases "on_message env ch m") auto
next
  case (OpSetHandlers h)
  have "same_setup ch (set_handlers h ch)" by (simp add: set_handlers_def same_setup_def)
  moreover have "chan_ok (set_handlers h ch)" by (rule chan_ok_same[OF assms(1) calculation]) (simp_all add: set_handlers_def)
  ultimately show ?thesis using OpSetHandlers by simp
next
  case (OpSetTyping b)
  have "same_setup ch (ch\<lparr>ch_typingEnabled := b\<rparr>)" by (simp add: same_setup_def)
  moreover have "chan_ok (ch\<lparr>ch_typingEnabled := b\<rparr>)" by (rule chan_ok_same[OF assms(1) calculation]) simp_all
  ultimately show ?thesis using OpSetTyping by simp
qed (use assms(1) in auto)

lemma chan_run_ok:
  "chan_ok ch \<Longrightarrow> list_all (env_ok \<circ> snd) cs \<Longrightarrow> \<exists>tr ch'. chan_run cs ch = Some (tr, ch') \<and> chan_ok ch' \<and> same_setup ch ch'"
proof (induction cs arbitrary: ch)
  case (Cons c cs)
  obtain op env where c: "c = (op, env)" by fastforce
  then obtain calls ch1 where st: "chan_step c ch = Some (calls, ch1)" "chan_ok ch1" "same_setup ch ch1" using chan_step_ok[OF Cons.prems(1)] Cons.prems(2) by fastforce
  then obtain tr ch' where "chan_run cs ch1 = Some (tr, ch')" "chan_ok ch'" "same_setup ch1 ch'" using Cons.IH[OF st(2)] Cons.prems(2) by auto
  then show ?case using st by (auto dest: same_setup_trans)
qed simp

lemma new_channel_ok: "newNatsChannel a t crypto limits = Inr ch \<Longrightarrow> chan_ok ch"
  by (auto simp: newNatsChannel_def Let_def chan_ok_defs split: if_splits option.splits)

section \<open>Bounded memory\<close>

text \<open>
  C38: The channel keeps its bounds and always returns.  After any operations in any order, with any answers of the transport, the key store and the clock, a new channel has
  returned from every one of them, holds at most \<^verbatim>\<open>maxPeers\<close> peers (at least one), at most \<^verbatim>\<open>maxSeenMessageIdsPerPeer\<close> message ids for each and at most \<^verbatim>\<open>maxApprovalResolutions\<close>
  resolutions; an encrypted channel has a key for exactly the registered peers and a replay window for peers with a key only.
\<close>

theorem channel_bounded:
  assumes "newNatsChannel account tenant crypto limits = Inr ch" "list_all (env_ok \<circ> snd) cs"
  shows "\<exists>tr ch'. chan_run cs ch = Some (tr, ch') \<and>
    int (length (ch_peerSubscriptions ch')) \<le> max 1 (ch_maxPeers ch) \<and> int (length (ch_approvalResolutions ch')) \<le> max 0 (ch_maxApprovalResolutions ch) \<and>
    (\<forall>p w. map_of (ch_seenMessageIds ch') p = Some w \<longrightarrow> int (length w) \<le> max 0 (ch_maxSeenMessageIdsPerPeer ch) \<and> map_of (ch_peerSessionKeys ch') p \<noteq> None) \<and>
    (\<forall>p. ch_encryptionRequired ch \<longrightarrow> (map_of (ch_peerSessionKeys ch') p = None \<longleftrightarrow> map_of (ch_peerSubscriptions ch') p = None))"
proof -
  obtain tr ch' where run: "chan_run cs ch = Some (tr, ch')" "chan_ok ch'" "same_setup ch ch'" using chan_run_ok[OF new_channel_ok[OF assms(1)] assms(2)] by blast
  have "int (length w) \<le> max 0 (ch_maxSeenMessageIdsPerPeer ch) \<and> map_of (ch_peerSessionKeys ch') p \<noteq> None" if "map_of (ch_seenMessageIds ch') p = Some w" for p w
  proof -
    have "w \<in> set (map snd (ch_seenMessageIds ch'))" "p \<in> set (js_keys (ch_seenMessageIds ch'))" using map_of_parts[OF that] by simp_all
    then show ?thesis using run(2,3) by (auto simp: chan_ok_def windows_ok_def same_setup_def map_of_eq_None_iff subset_iff)
  qed
  moreover have "map_of (ch_peerSessionKeys ch') p = None \<longleftrightarrow> map_of (ch_peerSubscriptions ch') p = None" if "ch_encryptionRequired ch" for p
    using run(2,3) that by (simp add: chan_ok_def keys_ok_def same_setup_def map_of_eq_None_iff)
  ultimately show ?thesis using run by (auto simp: chan_ok_def peers_ok_def resolutions_ok_def same_setup_def)
qed

section \<open>Witnesses\<close>

definition demo_limits :: channel_limits where
  "demo_limits = \<lparr>li_maxPeers = Some 2, li_maxApprovalResolutions = Some 2, li_replayWindowMs = Some 600000, li_maxSeenMessageIdsPerPeer = Some 2\<rparr>"

definition demo_chan :: channel where
  "demo_chan = projr (newNatsChannel ''acc'' ''t1'' (Some (True, Some demo_kp)) demo_limits)"

definition demo_chan_env :: "(string \<Rightarrow> json option) \<Rightarrow> nat \<Rightarrow> chan_env" where
  "demo_chan_env parse i = \<lparr>ce_node = demo_node parse, ce_connected = True, ce_sid = Some (Suc i), ce_publish = \<lambda>_ _. True, ce_getOrCreate = \<lambda>_. Some (replicate 32 1), ce_now = 5,
     ce_ident = \<lambda>_. [1, 2], ce_nonce = \<lambda>_. replicate 12 2, ce_sizeIdent = [1, 2], ce_sizeNonce = replicate 12 2, ce_effectiveOutboundLimit = JsInt 1048576\<rparr>"

definition demo_peers :: "(chan_op \<times> chan_env) list" where
  "demo_peers = [(OpRegisterPeer ''ann'', demo_chan_env (\<lambda>_. None) 0), (OpRegisterPeer ''bob'', demo_chan_env (\<lambda>_. None) 1), (OpRegisterPeer ''cid'', demo_chan_env (\<lambda>_. None) 2)]"

lemma demo_chan_new: "newNatsChannel ''acc'' ''t1'' (Some (True, Some demo_kp)) demo_limits = Inr demo_chan"
  by (simp add: demo_chan_def newNatsChannel_def)

lemma demo_chan_limits: "ch_maxPeers demo_chan = 2" "ch_maxSeenMessageIdsPerPeer demo_chan = 2" "ch_maxApprovalResolutions demo_chan = 2" "ch_encryptionRequired demo_chan"
  by (simp_all add: demo_chan_def newNatsChannel_def demo_limits_def or_else_def)

theorem channel_bounded_witness: "\<exists>tr ch'. chan_run demo_peers demo_chan = Some (tr, ch') \<and> int (length (ch_peerSubscriptions ch')) \<le> 2"
proof -
  have "list_all (env_ok \<circ> snd) demo_peers" by (simp add: demo_peers_def demo_chan_env_def env_ok_def)
  from channel_bounded[OF demo_chan_new this] show ?thesis unfolding demo_chan_limits by auto
qed

end
