(* ===== verification/Credential_Ledger.thy ===== *)
theory Credential_Ledger
  imports Json "HOL-Library.List_Lexorder" "HOL-Library.Char_ord" "HOL-Library.Product_Lexorder"
begin

text \<open>
  The ledger of issued browser credentials
  (\<^verbatim>\<open>src/packages/saas/src/browser-credential-ledger.ts\<close>): input validation, issuance, paging by a
  keyset cursor, revocation marks and the retention sweep of \<^verbatim>\<open>MemoryBrowserCredentialLedger\<close>.

  Every method runs without an await, so each is a function on the ledger.  The clock is an
  argument.  The transport form of a cursor, \<^verbatim>\<open>JSON\<close> in base64url, is a pair of functions: \<open>enc\<close>
  renders a JSON value and \<open>dec\<close> reads one back or fails; what is used of it is that it reads back what it rendered.
  Strings are sequences of bytes ordered byte by byte, which is the order of the source on the base32 keys.
  \<open>scopeKey\<close> and \<open>inScope\<close> throw on a scope that is none of the three; every caller has validated it before, so the values of the
  model there are never read.
\<close>

section \<open>Records and validation\<close>

definition MAX_TIMESTAMP_SEC :: int where "MAX_TIMESTAMP_SEC = 4102444800"

datatype credential_status = CredActive | CredRevoked

record credential =
  cr_tenant :: string
  cr_accountContext :: string
  cr_natsAccountPublicKey :: string
  cr_peerId :: string
  cr_userPubkey :: string
  cr_issuedAtSec :: int
  cr_expiresAtSec :: "int option"
  cr_status :: credential_status
  cr_revokedAtSec :: "int option"

record issuance =
  is_tenant :: string
  is_accountContext :: string
  is_natsAccountPublicKey :: string
  is_peerId :: string
  is_userPubkey :: string
  is_issuedAtSec :: js_number
  is_expiresAtSec :: "js_number option"

text \<open>The last two are what untyped callers may pass: an object of another kind, and no object at all.\<close>

datatype cred_scope = ScopeCredential string | ScopePeer string string | ScopeAccount string | ScopeOther | ScopeNonObject

datatype ledger_error = CredentialCollision string | CursorError string | LedgerInputError string

fun timestamp :: "js_number \<Rightarrow> int option" where
  "timestamp (JsInt n) = (if 0 < n \<and> n < MAX_TIMESTAMP_SEC then Some n else None)"
| "timestamp JsNonInt = None"

definition isIdentifier :: "string \<Rightarrow> bool" where
  "isIdentifier s \<longleftrightarrow> s \<noteq> []"

definition timestampMessage :: "string \<Rightarrow> string" where
  "timestampMessage field = ''browser credential '' @ field @ '' must be a positive integer below '' @ show_nat (nat MAX_TIMESTAMP_SEC) @
     '' unix SECONDS (a millisecond value is the recorded trap on this path)''"

fun first_missing :: "(string \<times> string) list \<Rightarrow> string option" where
  "first_missing [] = None"
| "first_missing ((field, v) # fs) = (if isIdentifier v then first_missing fs else Some field)"

text \<open>The validated time stamps of an issuance.\<close>

definition assertBrowserCredentialIssuance :: "issuance \<Rightarrow> ledger_error + (int \<times> int option)" where
  "assertBrowserCredentialIssuance i =
     (case first_missing [(''tenant'', is_tenant i), (''accountContext'', is_accountContext i), (''natsAccountPublicKey'', is_natsAccountPublicKey i),
         (''peerId'', is_peerId i), (''userPubkey'', is_userPubkey i)] of
        Some field \<Rightarrow> Inl (LedgerInputError (''browser credential '' @ field @ '' must be a non-empty string''))
      | None \<Rightarrow> (case timestamp (is_issuedAtSec i) of
          None \<Rightarrow> Inl (LedgerInputError (timestampMessage ''issuedAtSec''))
        | Some at \<Rightarrow> (case is_expiresAtSec i of
            None \<Rightarrow> Inr (at, None)
          | Some ex \<Rightarrow> (case timestamp ex of
              None \<Rightarrow> Inl (LedgerInputError (timestampMessage ''expiresAtSec'' @ '', or null for a non-expiring credential''))
            | Some t \<Rightarrow> Inr (at, Some t)))))"

definition assertTimestampSec :: "js_number \<Rightarrow> string \<Rightarrow> ledger_error + int" where
  "assertTimestampSec v field = (case timestamp v of None \<Rightarrow> Inl (LedgerInputError (timestampMessage field)) | Some t \<Rightarrow> Inr t)"

definition scope_field_error :: "string \<Rightarrow> (string \<times> string) list \<Rightarrow> ledger_error option" where
  "scope_field_error kind fs = map_option (\<lambda>f. LedgerInputError (''browser credential scope '' @ kind @ ''.'' @ f @ '' must be a non-empty string'')) (first_missing fs)"

fun assertBrowserCredentialScope :: "cred_scope \<Rightarrow> ledger_error option" where
  "assertBrowserCredentialScope (ScopeCredential u) = scope_field_error ''credential'' [(''userPubkey'', u)]"
| "assertBrowserCredentialScope (ScopePeer a p) = scope_field_error ''peer'' [(''natsAccountPublicKey'', a), (''peerId'', p)]"
| "assertBrowserCredentialScope (ScopeAccount a) = scope_field_error ''account'' [(''natsAccountPublicKey'', a)]"
| "assertBrowserCredentialScope ScopeOther = Some (LedgerInputError ''browser credential scope kind must be credential, peer, or account'')"
| "assertBrowserCredentialScope ScopeNonObject = Some (LedgerInputError ''browser credential scope must be an object with kind credential, peer, or account'')"

section \<open>The ledger\<close>

record ledger =
  lg_records :: "(string, credential) js_map"
  lg_retentionSec :: int
  lg_defaultLimit :: js_number

definition DEFAULT_RETENTION_SEC :: int where "DEFAULT_RETENTION_SEC = 30 * 24 * 60 * 60"
definition DEFAULT_LIMIT :: js_number where "DEFAULT_LIMIT = JsInt 200"

definition new_ledger :: "int option \<Rightarrow> js_number option \<Rightarrow> ledger" where
  "new_ledger retentionSec defaultLimit = \<lparr>lg_records = [],
     lg_retentionSec = (case retentionSec of Some n \<Rightarrow> n | None \<Rightarrow> DEFAULT_RETENTION_SEC),
     lg_defaultLimit = (case defaultLimit of Some n \<Rightarrow> n | None \<Rightarrow> DEFAULT_LIMIT)\<rparr>"

fun scopeKey :: "cred_scope \<Rightarrow> string" where
  "scopeKey (ScopeCredential u) = ''c'' @ [CHR 0x00] @ u"
| "scopeKey (ScopePeer a p) = ''p'' @ [CHR 0x00] @ a @ [CHR 0x00] @ p"
| "scopeKey (ScopeAccount a) = ''a'' @ [CHR 0x00] @ a"
| "scopeKey ScopeOther = ''''"
| "scopeKey ScopeNonObject = ''''"

fun inScope :: "credential \<Rightarrow> cred_scope \<Rightarrow> bool" where
  "inScope r (ScopeCredential u) \<longleftrightarrow> cr_userPubkey r = u"
| "inScope r (ScopePeer a p) \<longleftrightarrow> cr_natsAccountPublicKey r = a \<and> cr_peerId r = p"
| "inScope r (ScopeAccount a) \<longleftrightarrow> cr_natsAccountPublicKey r = a"
| "inScope r ScopeOther \<longleftrightarrow> False"
| "inScope r ScopeNonObject \<longleftrightarrow> False"

text \<open>\<^verbatim>\<open>byNewestFirst\<close>: issue time descending, then key ascending.\<close>

definition newest_first :: "credential \<Rightarrow> int \<times> string" where
  "newest_first r = (- cr_issuedAtSec r, cr_userPubkey r)"

text \<open>The clock is the floor of the injected one, or a value that is no finite number.\<close>

definition readClockSec :: "js_number \<Rightarrow> ledger_error + int" where
  "readClockSec clock = assertTimestampSec clock ''nowSec''"

definition recordIssuance :: "issuance \<Rightarrow> ledger \<Rightarrow> ledger_error + (credential \<times> ledger)" where
  "recordIssuance i l =
     (case assertBrowserCredentialIssuance i of
        Inl e \<Rightarrow> Inl e
      | Inr (issuedAt, expiresAt) \<Rightarrow>
          if map_of (lg_records l) (is_userPubkey i) \<noteq> None then Inl (CredentialCollision (is_userPubkey i))
          else let r = \<lparr>cr_tenant = is_tenant i, cr_accountContext = is_accountContext i, cr_natsAccountPublicKey = is_natsAccountPublicKey i,
                 cr_peerId = is_peerId i, cr_userPubkey = is_userPubkey i, cr_issuedAtSec = issuedAt, cr_expiresAtSec = expiresAt,
                 cr_status = CredActive, cr_revokedAtSec = None\<rparr>
               in Inr (r, l\<lparr>lg_records := AList.update (cr_userPubkey r) r (lg_records l)\<rparr>))"

definition get_credential :: "string \<Rightarrow> ledger \<Rightarrow> credential option" where
  "get_credential u l = map_of (lg_records l) u"

fun status_name :: "credential_status option \<Rightarrow> json" where
  "status_name None = JNull"
| "status_name (Some CredActive) = JStr ''active''"
| "status_name (Some CredRevoked) = JStr ''revoked''"

definition cursor_payload :: "cred_scope \<Rightarrow> credential_status option \<Rightarrow> credential \<Rightarrow> json" where
  "cursor_payload sc st r = JObj [(''k'', JStr (scopeKey sc)), (''s'', status_name st), (''i'', JNum (cr_issuedAtSec r)), (''u'', JStr (cr_userPubkey r))]"

definition decodeCursor :: "(string \<Rightarrow> json option) \<Rightarrow> string \<Rightarrow> cred_scope \<Rightarrow> credential_status option \<Rightarrow> ledger_error + (int \<times> string)" where
  "decodeCursor dec cursor sc st =
     (case dec cursor of
        None \<Rightarrow> Inl (CursorError ''webchannel: browser credential cursor is not a cursor this ledger issued'')
      | Some payload \<Rightarrow>
          if json_field ''k'' payload \<noteq> Some (JStr (scopeKey sc)) \<or> (case json_field ''s'' payload of None \<Rightarrow> JNull | Some s \<Rightarrow> s) \<noteq> status_name st
          then Inl (CursorError ''webchannel: browser credential cursor does not belong to this scope/status query'')
          else (case (json_field ''i'' payload, json_field ''u'' payload) of
              (Some (JNum i), Some (JStr u)) \<Rightarrow> Inr (i, u)
            | _ \<Rightarrow> Inl (CursorError ''webchannel: browser credential cursor does not belong to this scope/status query'')))"

definition strictly_after :: "(int \<times> string) option \<Rightarrow> credential \<Rightarrow> bool" where
  "strictly_after pos r = (case pos of
     None \<Rightarrow> True
   | Some (i, u) \<Rightarrow> cr_issuedAtSec r < i \<or> cr_issuedAtSec r = i \<and> cr_userPubkey r > u)"

definition matches :: "cred_scope \<Rightarrow> credential_status option \<Rightarrow> credential \<Rightarrow> bool" where
  "matches sc st r \<longleftrightarrow> inScope r sc \<and> (st = None \<or> st = Some (cr_status r))"

definition matched :: "cred_scope \<Rightarrow> credential_status option \<Rightarrow> (int \<times> string) option \<Rightarrow> ledger \<Rightarrow> credential list" where
  "matched sc st pos l = filter (strictly_after pos) (sort_key newest_first (filter (matches sc st) (map snd (lg_records l))))"

definition list_credentials ::
    "(json \<Rightarrow> string) \<Rightarrow> (string \<Rightarrow> json option) \<Rightarrow> cred_scope \<Rightarrow> credential_status option \<Rightarrow> js_number option \<Rightarrow> string option \<Rightarrow> ledger \<Rightarrow>
     ledger_error + (credential list \<times> string option)" where
  "list_credentials enc dec sc st limit cursor l =
     (case assertBrowserCredentialScope sc of
        Some e \<Rightarrow> Inl e
      | None \<Rightarrow> (case (case limit of Some n \<Rightarrow> n | None \<Rightarrow> lg_defaultLimit l) of
          JsNonInt \<Rightarrow> Inl (LedgerInputError ''browser credential query limit must be a positive integer'')
        | JsInt n \<Rightarrow>
            if n < 1 then Inl (LedgerInputError ''browser credential query limit must be a positive integer'')
            else (case (case cursor of None \<Rightarrow> Inr None | Some c \<Rightarrow> map_sum id Some (decodeCursor dec c sc st)) of
                Inl e \<Rightarrow> Inl e
              | Inr pos \<Rightarrow>
                  let found = matched sc st pos l;
                      records = take (nat n) found
                  in Inr (records, if records \<noteq> [] \<and> length found > length records then Some (enc (cursor_payload sc st (last records))) else None))))"

definition revoke_record :: "int \<Rightarrow> credential \<Rightarrow> credential" where
  "revoke_record t r = r\<lparr>cr_status := CredRevoked, cr_revokedAtSec := Some t\<rparr>"

fun mark_loop :: "cred_scope \<Rightarrow> int \<Rightarrow> (string \<times> credential) list \<Rightarrow> (string, credential) js_map \<Rightarrow> nat \<Rightarrow> nat \<Rightarrow> nat \<times> nat \<times> (string, credential) js_map" where
  "mark_loop sc t [] staged marked already = (marked, already, staged)"
| "mark_loop sc t ((key, r) # rs) staged marked already =
     (if \<not> inScope r sc then mark_loop sc t rs staged marked already
      else if cr_status r = CredRevoked then mark_loop sc t rs staged marked (already + 1)
      else mark_loop sc t rs (AList.update key (revoke_record t r) staged) (marked + 1) already)"

definition markRevoked :: "cred_scope \<Rightarrow> js_number \<Rightarrow> ledger \<Rightarrow> ledger_error + ((nat \<times> nat) \<times> ledger)" where
  "markRevoked sc revokedAtSec l =
     (case assertBrowserCredentialScope sc of
        Some e \<Rightarrow> Inl e
      | None \<Rightarrow> (case assertTimestampSec revokedAtSec ''revokedAtSec'' of
          Inl e \<Rightarrow> Inl e
        | Inr t \<Rightarrow> (case mark_loop sc t (lg_records l) (lg_records l) 0 0 of
            (marked, already, staged) \<Rightarrow> Inr ((marked, already), l\<lparr>lg_records := staged\<rparr>))))"

definition removable :: "int \<Rightarrow> int \<Rightarrow> credential \<Rightarrow> bool" where
  "removable retentionSec now r \<longleftrightarrow>
     (case cr_expiresAtSec r of Some t \<Rightarrow> now > t + retentionSec | None \<Rightarrow> False) \<or>
     cr_status r = CredRevoked \<and> (case cr_revokedAtSec r of Some t \<Rightarrow> now > t + retentionSec | None \<Rightarrow> False)"

definition sweepLedger :: "js_number \<Rightarrow> ledger \<Rightarrow> ledger_error + (nat \<times> ledger)" where
  "sweepLedger clock l =
     (case readClockSec clock of
        Inl e \<Rightarrow> Inl e
      | Inr now \<Rightarrow>
          Inr (length (filter (\<lambda>(k, r). removable (lg_retentionSec l) now r) (lg_records l)),
               l\<lparr>lg_records := filter (\<lambda>(k, r). \<not> removable (lg_retentionSec l) now r) (lg_records l)\<rparr>))"

section \<open>Executions\<close>

datatype ledger_op =
    LRecord issuance
  | LMark cred_scope js_number
  | LSweep js_number

fun ledger_step :: "ledger_op \<Rightarrow> ledger \<Rightarrow> ledger" where
  "ledger_step (LRecord i) l = (case recordIssuance i l of Inl _ \<Rightarrow> l | Inr (_, l') \<Rightarrow> l')"
| "ledger_step (LMark sc t) l = (case markRevoked sc t l of Inl _ \<Rightarrow> l | Inr (_, l') \<Rightarrow> l')"
| "ledger_step (LSweep clock) l = (case sweepLedger clock l of Inl _ \<Rightarrow> l | Inr (_, l') \<Rightarrow> l')"

text \<open>
  Draining a scope: one page from each of the ledger's successive states, the next from the cursor of
  the previous one, until there is no cursor.  \<open>None\<close> when a page fails or the states run out.
\<close>

fun drain_pages :: "(json \<Rightarrow> string) \<Rightarrow> (string \<Rightarrow> json option) \<Rightarrow> cred_scope \<Rightarrow> credential_status option \<Rightarrow> js_number option \<Rightarrow> string option \<Rightarrow> ledger list \<Rightarrow> credential list option" where
  "drain_pages enc dec sc st limit cursor [] = None"
| "drain_pages enc dec sc st limit cursor (l # ls) =
     (case list_credentials enc dec sc st limit cursor l of
        Inl _ \<Rightarrow> None
      | Inr (records, None) \<Rightarrow> Some records
      | Inr (records, Some c) \<Rightarrow> map_option ((@) records) (drain_pages enc dec sc st limit (Some c) ls))"

section \<open>The record invariant\<close>

definition stamp_ok :: "int \<Rightarrow> bool" where
  "stamp_ok t \<longleftrightarrow> 0 < t \<and> t < MAX_TIMESTAMP_SEC"

definition credential_ok :: "credential \<Rightarrow> bool" where
  "credential_ok r \<longleftrightarrow> cr_tenant r \<noteq> [] \<and> cr_accountContext r \<noteq> [] \<and> cr_natsAccountPublicKey r \<noteq> [] \<and> cr_peerId r \<noteq> [] \<and> cr_userPubkey r \<noteq> [] \<and>
     stamp_ok (cr_issuedAtSec r) \<and> (case cr_expiresAtSec r of Some t \<Rightarrow> stamp_ok t | None \<Rightarrow> True) \<and>
     (case cr_revokedAtSec r of Some t \<Rightarrow> cr_status r = CredRevoked \<and> stamp_ok t | None \<Rightarrow> cr_status r = CredActive)"

definition ledger_ok :: "ledger \<Rightarrow> bool" where
  "ledger_ok l \<longleftrightarrow> distinct (js_keys (lg_records l)) \<and> list_all (\<lambda>(k, r). k = cr_userPubkey r \<and> credential_ok r) (lg_records l)"

lemma ledger_entry: "ledger_ok l \<Longrightarrow> map_of (lg_records l) k = Some r \<Longrightarrow> k = cr_userPubkey r \<and> credential_ok r"
  by (auto simp: ledger_ok_def list_all_iff dest!: map_of_SomeD)

lemma ledger_okI:
  assumes "distinct (js_keys (lg_records l))" "\<And>k r. map_of (lg_records l) k = Some r \<Longrightarrow> k = cr_userPubkey r \<and> credential_ok r"
  shows "ledger_ok l"
  using assms by (auto simp: ledger_ok_def list_all_iff)

lemma timestamp_SomeD: "timestamp v = Some t \<Longrightarrow> stamp_ok t"
  by (cases v) (auto simp: stamp_ok_def split: if_splits)

lemma first_missing_None: "first_missing fs = None \<longleftrightarrow> (\<forall>(f, v) \<in> set fs. v \<noteq> [])"
  by (induction fs rule: first_missing.induct) (auto simp: isIdentifier_def)

lemma issuance_valid:
  assumes "assertBrowserCredentialIssuance i = Inr (at, ex)"
  shows "is_tenant i \<noteq> []" "is_accountContext i \<noteq> []" "is_natsAccountPublicKey i \<noteq> []" "is_peerId i \<noteq> []" "is_userPubkey i \<noteq> []"
    "stamp_ok at" "case ex of Some t \<Rightarrow> stamp_ok t | None \<Rightarrow> True"
  using assms unfolding assertBrowserCredentialIssuance_def
  by (auto simp: first_missing_None isIdentifier_def dest!: timestamp_SomeD split: option.splits if_splits)

lemma record_result:
  assumes "recordIssuance i l = Inr (r, l')"
  shows "credential_ok r \<and> cr_status r = CredActive \<and> cr_userPubkey r = is_userPubkey i \<and> map_of (lg_records l) (cr_userPubkey r) = None \<and>
    l' = l\<lparr>lg_records := AList.update (cr_userPubkey r) r (lg_records l)\<rparr>"
proof -
  obtain at ex where v: "assertBrowserCredentialIssuance i = Inr (at, ex)" using assms by (auto simp: recordIssuance_def split: sum.splits)
  show ?thesis using assms issuance_valid[OF v] by (auto simp: recordIssuance_def v credential_ok_def Let_def split: if_splits option.splits)
qed

lemma mark_loop_lookup:
  "distinct (js_keys rs) \<Longrightarrow> mark_loop sc t rs staged m a = (m', a', staged') \<Longrightarrow>
   (\<forall>k. map_of staged' k = (case map_of rs k of
      Some r \<Rightarrow> if inScope r sc \<and> cr_status r = CredActive then Some (revoke_record t r) else map_of staged k
    | None \<Rightarrow> map_of staged k)) \<and>
   m' = m + length (filter (\<lambda>(k, r). inScope r sc \<and> cr_status r = CredActive) rs) \<and>
   a' = a + length (filter (\<lambda>(k, r). inScope r sc \<and> cr_status r = CredRevoked) rs) \<and> (distinct (js_keys staged) \<longrightarrow> distinct (js_keys staged'))"
proof (induction rs arbitrary: staged m a)
  case (Cons x rs)
  obtain key r where x: "x = (key, r)" by fastforce
  have key: "map_of rs key = None" using Cons.prems(1) x map_of_None_keys[of rs key] by simp
  consider (out) "\<not> inScope r sc" | (revoked) "inScope r sc" "cr_status r = CredRevoked" | (active) "inScope r sc" "cr_status r = CredActive"
    by (cases "cr_status r") auto
  then show ?case
  proof cases
    case out
    then show ?thesis using Cons.IH[of staged m a] Cons.prems x key by (auto split: option.splits)
  next
    case revoked
    then show ?thesis using Cons.IH[of staged m "a + 1"] Cons.prems x key by (auto split: option.splits)
  next
    case active
    have IH: "mark_loop sc t rs (AList.update key (revoke_record t r) staged) (m + 1) a = (m', a', staged')" "distinct (js_keys rs)"
      using Cons.prems active x by auto
    show ?thesis using Cons.IH[OF IH(2,1)] active x key by (auto simp: AList.update_conv' split: option.splits)
  qed
qed auto

lemma mark_result:
  assumes "markRevoked sc t l = Inr ((m, a), l')" "distinct (js_keys (lg_records l))"
  shows "\<exists>u. assertTimestampSec t ''revokedAtSec'' = Inr u \<and> lg_retentionSec l' = lg_retentionSec l \<and> distinct (js_keys (lg_records l')) \<and>
    (\<forall>k. map_of (lg_records l') k = map_option (\<lambda>r. if inScope r sc \<and> cr_status r = CredActive then revoke_record u r else r) (map_of (lg_records l) k)) \<and>
    m = length (filter (\<lambda>(k, r). inScope r sc \<and> cr_status r = CredActive) (lg_records l)) \<and>
    a = length (filter (\<lambda>(k, r). inScope r sc \<and> cr_status r = CredRevoked) (lg_records l))"
proof -
  obtain u staged where u: "assertTimestampSec t ''revokedAtSec'' = Inr u" "mark_loop sc u (lg_records l) (lg_records l) 0 0 = (m, a, staged)" "l' = l\<lparr>lg_records := staged\<rparr>"
    using assms(1) by (auto simp: markRevoked_def split: option.splits sum.splits prod.splits)
  then show ?thesis using mark_loop_lookup[OF assms(2) u(2)] assms(2) by (auto split: option.splits)
qed

lemma revoke_ok: "credential_ok r \<Longrightarrow> stamp_ok t \<Longrightarrow> credential_ok (revoke_record t r) \<and> cr_userPubkey (revoke_record t r) = cr_userPubkey r"
  by (simp add: credential_ok_def revoke_record_def)

lemma ledger_step_ok:
  assumes "ledger_ok l"
  shows "ledger_ok (ledger_step op l)"
proof (cases op)
  case (LRecord i)
  show ?thesis
  proof (cases "recordIssuance i l")
    case (Inr rl)
    obtain r l' where "rl = (r, l')" by fastforce
    then show ?thesis using LRecord Inr record_result[of i l r l'] assms ledger_entry[OF assms]
      by (intro ledger_okI) (auto simp: ledger_ok_def AList.update_conv' split: if_splits)
  qed (use LRecord assms in simp)
next
  case (LMark sc t)
  show ?thesis
  proof (cases "markRevoked sc t l")
    case (Inr x)
    obtain m a l' where x: "x = ((m, a), l')" by (metis prod.collapse)
    have d: "distinct (js_keys (lg_records l))" using assms by (simp add: ledger_ok_def)
    obtain u where u: "assertTimestampSec t ''revokedAtSec'' = Inr u" "distinct (js_keys (lg_records l'))"
      "\<And>k. map_of (lg_records l') k = map_option (\<lambda>r. if inScope r sc \<and> cr_status r = CredActive then revoke_record u r else r) (map_of (lg_records l) k)"
      using mark_result[OF Inr[unfolded x] d] by blast
    have "stamp_ok u" using u(1) by (auto simp: assertTimestampSec_def dest!: timestamp_SomeD split: option.splits)
    then have "ledger_ok l'" using u(2,3) ledger_entry[OF assms] revoke_ok
      by (intro ledger_okI) (auto split: if_splits)
    then show ?thesis using LMark Inr x by simp
  qed (use LMark assms in simp)
next
  case (LSweep clock)
  have "distinct (js_keys (filter P m))" if "distinct (js_keys m)" for P and m :: "(string, credential) js_map"
    using that by (rule distinct_map_filter)
  then show ?thesis using LSweep assms by (auto simp: sweepLedger_def ledger_ok_def list_all_iff split: sum.splits)
qed

lemma ledger_run_ok: "ledger_ok l \<Longrightarrow> ledger_ok (fold ledger_step ops l)"
  by (induction ops arbitrary: l) (auto simp: ledger_step_ok)

lemma new_ledger_ok: "ledger_ok (new_ledger ret lim)"
  by (simp add: ledger_ok_def new_ledger_def)

lemma step_retentionSec: "lg_retentionSec (ledger_step op l) = lg_retentionSec l"
  by (cases op) (auto simp: recordIssuance_def markRevoked_def sweepLedger_def Let_def split: sum.splits option.splits prod.splits if_splits)

section \<open>Paging\<close>

definition position :: "credential \<Rightarrow> int \<times> string" where
  "position r = (cr_issuedAtSec r, cr_userPubkey r)"

lemma after_position: "strictly_after (Some (position p)) r \<longleftrightarrow> newest_first p < newest_first r"
  by (auto simp: strictly_after_def position_def newest_first_def less_prod_def)

lemma after_trans: "strictly_after pos p \<Longrightarrow> newest_first p < newest_first r \<Longrightarrow> strictly_after pos r"
  by (auto simp: strictly_after_def newest_first_def less_prod_def split: option.splits prod.splits)

abbreviation strictly_newest :: "credential list \<Rightarrow> bool" where
  "strictly_newest \<equiv> sorted_wrt (\<lambda>a b. newest_first a < newest_first b)"

lemma values_distinct:
  assumes "ledger_ok l"
  shows "distinct (map newest_first (map snd (lg_records l)))"
proof -
  have key: "fst x = cr_userPubkey (snd x)" if "x \<in> set (lg_records l)" for x
    using assms that by (cases x) (auto simp: ledger_ok_def list_all_iff)
  have "inj_on (newest_first \<circ> snd) (set (lg_records l))"
  proof (rule inj_onI)
    fix x y
    assume x: "x \<in> set (lg_records l)" and y: "y \<in> set (lg_records l)" and eq: "(newest_first \<circ> snd) x = (newest_first \<circ> snd) y"
    have "fst x = fst y" using key[OF x] key[OF y] eq by (simp add: newest_first_def)
    moreover have "distinct (js_keys (lg_records l))" using assms by (simp add: ledger_ok_def)
    ultimately show "x = y" using x y by (metis distinct_map inj_onD)
  qed
  moreover have "distinct (lg_records l)" using assms by (simp add: ledger_ok_def distinct_map)
  ultimately show ?thesis by (simp add: distinct_map)
qed

lemma matched_sorted:
  assumes "ledger_ok l"
  shows "strictly_newest (matched sc st pos l)"
proof -
  have "distinct (map newest_first (filter (matches sc st) (map snd (lg_records l))))"
    using values_distinct[OF assms] by (rule distinct_map_filter)
  then have "distinct (map newest_first (sort_key newest_first (filter (matches sc st) (map snd (lg_records l)))))"
    by (simp add: distinct_map)
  then have "sorted_wrt (<) (map newest_first (sort_key newest_first (filter (matches sc st) (map snd (lg_records l)))))"
    by (simp add: strict_sorted_iff)
  then show ?thesis by (simp add: matched_def sorted_wrt_map sorted_wrt_filter)
qed

lemma set_matched: "set (matched sc st pos l) = {r \<in> snd ` set (lg_records l). matches sc st r \<and> strictly_after pos r}"
  by (auto simp: matched_def)

text \<open>A page in terms of the position its cursor stands for.\<close>

definition page :: "nat \<Rightarrow> cred_scope \<Rightarrow> credential_status option \<Rightarrow> (int \<times> string) option \<Rightarrow> ledger \<Rightarrow> credential list" where
  "page n sc st pos l = take n (matched sc st pos l)"

definition cursor_at :: "(string \<Rightarrow> json option) \<Rightarrow> cred_scope \<Rightarrow> credential_status option \<Rightarrow> string option \<Rightarrow> (int \<times> string) option \<Rightarrow> bool" where
  "cursor_at dec sc st cursor pos \<longleftrightarrow> (case cursor of None \<Rightarrow> pos = None | Some c \<Rightarrow> (\<exists>q. decodeCursor dec c sc st = Inr q \<and> pos = Some q))"

definition codec_on :: "(json \<Rightarrow> string) \<Rightarrow> (string \<Rightarrow> json option) \<Rightarrow> cred_scope \<Rightarrow> credential_status option \<Rightarrow> ledger \<Rightarrow> bool" where
  "codec_on enc dec sc st l \<longleftrightarrow> list_all (\<lambda>(k, r). dec (enc (cursor_payload sc st r)) = Some (cursor_payload sc st r)) (lg_records l)"

lemma decode_own:
  assumes "dec (enc (cursor_payload sc st r)) = Some (cursor_payload sc st r)"
  shows "decodeCursor dec (enc (cursor_payload sc st r)) sc st = Inr (position r)"
  using assms by (simp add: decodeCursor_def cursor_payload_def position_def)

lemma list_page:
  assumes "assertBrowserCredentialScope sc = None" "1 \<le> n" "cursor_at dec sc st cursor pos"
  shows "list_credentials enc dec sc st (Some (JsInt n)) cursor l =
    Inr (page (nat n) sc st pos l, if length (matched sc st pos l) > nat n then Some (enc (cursor_payload sc st (last (page (nat n) sc st pos l)))) else None)"
proof -
  have "(case cursor of None \<Rightarrow> Inr None | Some c \<Rightarrow> map_sum id Some (decodeCursor dec c sc st)) = Inr pos"
    using assms(3) by (auto simp: cursor_at_def split: option.splits)
  then show ?thesis using assms(1,2) by (auto simp: list_credentials_def page_def Let_def)
qed

lemma page_next:
  assumes "codec_on enc dec sc st l" "0 < n" "length (matched sc st pos l) > n"
  shows "cursor_at dec sc st (Some (enc (cursor_payload sc st (last (page n sc st pos l))))) (Some (position (last (page n sc st pos l))))"
    and "last (page n sc st pos l) \<in> set (page n sc st pos l)"
proof -
  have "page n sc st pos l \<noteq> []" using assms(2,3) by (auto simp: page_def)
  then show last: "last (page n sc st pos l) \<in> set (page n sc st pos l)" by simp
  then have "last (page n sc st pos l) \<in> snd ` set (lg_records l)" using set_matched[of sc st pos l] by (auto simp: page_def dest: in_set_takeD)
  then show "cursor_at dec sc st (Some (enc (cursor_payload sc st (last (page n sc st pos l))))) (Some (position (last (page n sc st pos l))))"
    using assms(1) decode_own[of dec enc sc st "last (page n sc st pos l)"] by (auto simp: cursor_at_def codec_on_def list_all_iff)
qed

lemma sorted_take_drop:
  assumes "strictly_newest xs" "0 < n" "n < length xs"
  shows "\<forall>r \<in> set (drop n xs). newest_first (last (take n xs)) < newest_first r"
    and "r \<in> set (take n xs) \<Longrightarrow> r = last (take n xs) \<or> newest_first r < newest_first (last (take n xs))"
proof -
  have xs: "strictly_newest (take n xs @ drop n xs)" using assms(1) by simp
  have ne: "take n xs \<noteq> []" using assms by auto
  then show "\<forall>r \<in> set (drop n xs). newest_first (last (take n xs)) < newest_first r" using xs unfolding sorted_wrt_append by auto
  have "strictly_newest (butlast (take n xs) @ [last (take n xs)])" using xs ne by (simp add: sorted_wrt_append)
  then show "r = last (take n xs) \<or> newest_first r < newest_first (last (take n xs))" if "r \<in> set (take n xs)"
    using that ne unfolding sorted_wrt_append by (metis append_butlast_last_id in_set_conv_decomp rotate1.simps(2) set_ConsD set_rotate1 UnE list.set_intros(1) set_append)
qed

lemma page_split:
  assumes "ledger_ok l" "0 < n" "n < length (matched sc st pos l)" "r \<in> set (matched sc st pos l)"
  shows "r \<in> set (page n sc st pos l) \<or> strictly_after (Some (position (last (page n sc st pos l)))) r"
proof -
  have "r \<in> set (take n (matched sc st pos l)) \<or> r \<in> set (drop n (matched sc st pos l))"
    using assms(4) by (metis UnE append_take_drop_id set_append)
  then show ?thesis using sorted_take_drop(1)[OF matched_sorted[OF assms(1)] assms(2,3)] by (auto simp: after_position page_def)
qed

lemma matched_rest:
  assumes "ledger_ok l" "0 < n" "n < length (matched sc st pos l)"
  shows "matched sc st (Some (position (last (page n sc st pos l)))) l = drop n (matched sc st pos l)"
proof -
  let ?m = "matched sc st pos l" and ?p = "last (page n sc st pos l)"
  have s: "strictly_newest ?m" by (rule matched_sorted[OF assms(1)])
  have p: "?p \<in> set ?m" using page_next(2)[of undefined undefined] assms(2,3) by (metis in_set_takeD last_in_set length_greater_0_conv less_trans page_def take_eq_Nil gr_implies_not0)
  have "strictly_after pos ?p" using p set_matched by blast
  then have "filter (strictly_after (Some (position ?p))) (sort_key newest_first (filter (matches sc st) (map snd (lg_records l)))) = filter (strictly_after (Some (position ?p))) ?m"
    unfolding matched_def filter_filter using after_trans by (intro filter_cong) (auto simp: after_position)
  also have "\<dots> = filter (strictly_after (Some (position ?p))) (take n ?m) @ filter (strictly_after (Some (position ?p))) (drop n ?m)"
    by (metis append_take_drop_id filter_append)
  also have "filter (strictly_after (Some (position ?p))) (take n ?m) = []"
    using sorted_take_drop(2)[OF s assms(2,3)] by (fastforce simp: filter_empty_conv after_position page_def)
  also have "filter (strictly_after (Some (position ?p))) (drop n ?m) = drop n ?m"
    using sorted_take_drop(1)[OF s assms(2,3)] by (simp add: after_position page_def filter_id_conv)
  finally show ?thesis by (simp add: matched_def)
qed

lemma drain_sound:
  assumes "\<forall>l \<in> set ls. ledger_ok l \<and> codec_on enc dec sc st l" "assertBrowserCredentialScope sc = None" "1 \<le> n"
  shows "cursor_at dec sc st cursor pos \<Longrightarrow> drain_pages enc dec sc st (Some (JsInt n)) cursor ls = Some rs \<Longrightarrow>
    strictly_newest rs \<and> (\<forall>r \<in> set rs. matches sc st r \<and> strictly_after pos r \<and> (\<exists>l \<in> set ls. r \<in> snd ` set (lg_records l))) \<and>
    (\<forall>r. (\<forall>l \<in> set ls. r \<in> snd ` set (lg_records l)) \<longrightarrow> matches sc st r \<longrightarrow> strictly_after pos r \<longrightarrow> r \<in> set rs)"
  using assms(1)
proof (induction ls arbitrary: cursor pos rs)
  case (Cons l ls)
  note lp = list_page[OF assms(2,3) Cons.prems(1), of enc l]
  have l: "ledger_ok l" "codec_on enc dec sc st l" using Cons.prems(3) by auto
  let ?m = "matched sc st pos l" and ?p = "page (nat n) sc st pos l"
  have sub: "set ?p \<subseteq> set ?m" by (auto simp: page_def dest: in_set_takeD)
  have sp: "strictly_newest ?p" using matched_sorted[OF l(1), of sc st pos] unfolding page_def by (rule sorted_wrt_take)
  show ?case
  proof (cases "length ?m > nat n")
    case False
    then have "rs = ?m" using Cons.prems(2) lp by (simp add: page_def)
    then show ?thesis using matched_sorted[OF l(1), of sc st pos] set_matched[of sc st pos l] by auto
  next
    case True
    let ?c = "enc (cursor_payload sc st (last ?p))" and ?q = "Some (position (last ?p))"
    obtain rest where rest: "drain_pages enc dec sc st (Some (JsInt n)) (Some ?c) ls = Some rest" "rs = ?p @ rest"
      using Cons.prems(2) lp True by auto
    have n: "0 < nat n" using assms(3) by simp
    note nx = page_next[OF l(2) n True]
    have IH: "strictly_newest rest" "\<And>r. r \<in> set rest \<Longrightarrow> matches sc st r \<and> strictly_after ?q r \<and> (\<exists>l \<in> set ls. r \<in> snd ` set (lg_records l))"
      "\<And>r. (\<forall>l \<in> set ls. r \<in> snd ` set (lg_records l)) \<Longrightarrow> matches sc st r \<Longrightarrow> strictly_after ?q r \<Longrightarrow> r \<in> set rest"
      using Cons.IH[OF nx(1) rest(1)] Cons.prems(3) by auto
    have last: "strictly_after pos (last ?p)" using nx(2) sub set_matched by blast
    have before: "newest_first a < newest_first b" if "a \<in> set ?p" "b \<in> set rest" for a b
    proof -
      have "newest_first (last ?p) < newest_first b" using IH(2)[OF that(2)] by (simp add: after_position)
      moreover have "a = last ?p \<or> newest_first a < newest_first (last ?p)"
        using sorted_take_drop(2)[OF matched_sorted[OF l(1)] n True] that(1) by (simp add: page_def)
      ultimately show ?thesis by auto
    qed
    have "strictly_newest rs" unfolding rest(2) sorted_wrt_append using sp IH(1) before by blast
    moreover have "matches sc st r \<and> strictly_after pos r \<and> (\<exists>l \<in> set (l # ls). r \<in> snd ` set (lg_records l))" if "r \<in> set rs" for r
    proof (cases "r \<in> set ?p")
      case True
      then show ?thesis using sub set_matched[of sc st pos l] by auto
    next
      case False
      then have "r \<in> set rest" using that rest(2) by simp
      then show ?thesis using IH(2) after_trans[OF last] after_position by auto
    qed
    moreover have "r \<in> set rs" if "\<forall>l \<in> set (l # ls). r \<in> snd ` set (lg_records l)" "matches sc st r" "strictly_after pos r" for r
    proof -
      have "r \<in> set ?m" using that set_matched[of sc st pos l] by auto
      then have "r \<in> set ?p \<or> strictly_after ?q r" by (rule page_split[OF l(1) n True])
      then show ?thesis using IH(3)[of r] that rest(2) by auto
    qed
    ultimately show ?thesis by blast
  qed
qed simp

lemma drain_constant:
  assumes "ledger_ok l" "codec_on enc dec sc st l" "assertBrowserCredentialScope sc = None" "1 \<le> n"
  shows "cursor_at dec sc st cursor pos \<Longrightarrow> length (matched sc st pos l) < k \<Longrightarrow>
    drain_pages enc dec sc st (Some (JsInt n)) cursor (replicate k l) = Some (matched sc st pos l)"
proof (induction k arbitrary: cursor pos)
  case (Suc k)
  note lp = list_page[OF assms(3,4) Suc.prems(1), of enc l]
  let ?m = "matched sc st pos l" and ?p = "page (nat n) sc st pos l"
  show ?case
  proof (cases "length ?m > nat n")
    case False
    then show ?thesis using lp by (simp add: page_def)
  next
    case True
    have n: "0 < nat n" using assms(4) by simp
    have "matched sc st (Some (position (last ?p))) l = drop (nat n) ?m" by (rule matched_rest[OF assms(1) n True])
    then show ?thesis using Suc.IH[OF page_next(1)[OF assms(2) n True]] Suc.prems(2) lp True n by (simp add: page_def)
  qed
qed simp

section \<open>Properties\<close>

text \<open>
  C37: Paging neither duplicates nor skips, even while the ledger changes.  Draining a scope page by page, each
  page read from a possibly different state of the ledger, gives records in strictly descending issue order
  without repetition, all of them in scope and status; every record that was there
  throughout is among them; and on a ledger that does not change the drain ends within one page per record and returns
  exactly the matching records.
\<close>

theorem drain_exact:
  assumes "\<forall>l \<in> set ls. ledger_ok l \<and> codec_on enc dec sc st l" "assertBrowserCredentialScope sc = None" "1 \<le> n"
    and "drain_pages enc dec sc st (Some (JsInt n)) None ls = Some rs"
    and "ledger_ok l" "codec_on enc dec sc st l"
  shows "strictly_newest rs \<and> (\<forall>r \<in> set rs. inScope r sc \<and> (st = None \<or> st = Some (cr_status r))) \<and>
    (\<forall>r. (\<forall>l \<in> set ls. r \<in> snd ` set (lg_records l)) \<longrightarrow> matches sc st r \<longrightarrow> r \<in> set rs) \<and>
    drain_pages enc dec sc st (Some (JsInt n)) None (replicate (Suc (length (lg_records l))) l) = Some (matched sc st None l)"
proof -
  have c: "cursor_at dec sc st None None" by (simp add: cursor_at_def)
  have "length (matched sc st None l) \<le> length (lg_records l)"
    unfolding matched_def by (rule order_trans[OF length_filter_le]) (simp add: order_trans[OF length_filter_le])
  then have "drain_pages enc dec sc st (Some (JsInt n)) None (replicate (Suc (length (lg_records l))) l) = Some (matched sc st None l)"
    by (intro drain_constant[OF assms(5,6,2,3) c]) simp
  moreover have all: "strictly_after None r" for r by (simp add: strictly_after_def)
  note ds = drain_sound[OF assms(1-3) c assms(4), unfolded all simp_thms]
  have "\<forall>r \<in> set rs. matches sc st r" using ds[THEN conjunct2, THEN conjunct1] by blast
  then have "\<forall>r \<in> set rs. inScope r sc \<and> (st = None \<or> st = Some (cr_status r))" by (simp only: matches_def)
  moreover have "\<forall>r. (\<forall>l \<in> set ls. r \<in> snd ` set (lg_records l)) \<longrightarrow> matches sc st r \<longrightarrow> r \<in> set rs"
    using ds[THEN conjunct2, THEN conjunct2] all by blast
  ultimately show ?thesis using ds[THEN conjunct1] by (intro conjI)
qed

text \<open>
  Every stored record is well typed.  After any calls on a new ledger, each record is stored once, under its own
  key; its identifiers are not empty, all its time stamps are positive and below the
  millisecond tripwire, and it has a revocation stamp exactly when it is revoked.
\<close>

theorem ledger_records_typed:
  assumes "get_credential u (fold ledger_step ops (new_ledger ret lim)) = Some r"
  shows "cr_userPubkey r = u \<and> cr_tenant r \<noteq> [] \<and> cr_accountContext r \<noteq> [] \<and> cr_natsAccountPublicKey r \<noteq> [] \<and> cr_peerId r \<noteq> [] \<and> u \<noteq> [] \<and>
    0 < cr_issuedAtSec r \<and> cr_issuedAtSec r < MAX_TIMESTAMP_SEC \<and>
    (case cr_expiresAtSec r of Some t \<Rightarrow> 0 < t \<and> t < MAX_TIMESTAMP_SEC | None \<Rightarrow> True) \<and>
    (case cr_revokedAtSec r of Some t \<Rightarrow> cr_status r = CredRevoked \<and> 0 < t \<and> t < MAX_TIMESTAMP_SEC | None \<Rightarrow> cr_status r = CredActive) \<and>
    distinct (js_keys (lg_records (fold ledger_step ops (new_ledger ret lim))))"
proof -
  have ok: "ledger_ok (fold ledger_step ops (new_ledger ret lim))" by (rule ledger_run_ok[OF new_ledger_ok])
  then have "u = cr_userPubkey r \<and> credential_ok r" using ledger_entry[OF ok] assms by (simp add: get_credential_def)
  then show ?thesis using ok by (auto simp: ledger_ok_def credential_ok_def stamp_ok_def split: option.splits)
qed

fun marks :: "credential \<Rightarrow> ledger_op \<Rightarrow> bool" where
  "marks r (LMark sc t) \<longleftrightarrow> inScope r sc"
| "marks r _ \<longleftrightarrow> False"

lemma map_of_filter_value: "map_of m k = Some v \<Longrightarrow> distinct (js_keys m) \<Longrightarrow> P v \<Longrightarrow> map_of (filter (\<lambda>(k, v). P v) m) k = Some v"
  by (induction m) (auto dest: map_of_SomeD)

lemma active_step:
  assumes "ledger_ok l" "map_of (lg_records l) u = Some r" "cr_status r = CredActive" "cr_expiresAtSec r = None" "\<not> marks r op"
  shows "map_of (lg_records (ledger_step op l)) u = Some r"
proof (cases op)
  case (LRecord i)
  show ?thesis
  proof (cases "recordIssuance i l")
    case (Inr x)
    obtain r' l' where "x = (r', l')" by fastforce
    then show ?thesis using LRecord Inr record_result[of i l r' l'] assms(2) by (auto simp: AList.update_conv')
  qed (use LRecord assms in simp)
next
  case (LMark sc t)
  show ?thesis
  proof (cases "markRevoked sc t l")
    case (Inr x)
    obtain m a l' where x: "x = ((m, a), l')" by (metis prod.collapse)
    have "distinct (js_keys (lg_records l))" using assms(1) by (simp add: ledger_ok_def)
    from mark_result[OF Inr[unfolded x] this] obtain v where
      "\<And>k. map_of (lg_records l') k = map_option (\<lambda>r. if inScope r sc \<and> cr_status r = CredActive then revoke_record v r else r) (map_of (lg_records l) k)" by blast
    then show ?thesis using LMark Inr x assms by simp
  qed (use LMark assms in simp)
next
  case (LSweep clock)
  have "distinct (js_keys (lg_records l))" using assms(1) by (simp add: ledger_ok_def)
  then show ?thesis using LSweep assms map_of_filter_value[OF assms(2), of "\<lambda>r. \<not> removable (lg_retentionSec l) n r" for n]
    by (auto simp: sweepLedger_def removable_def split: sum.splits)
qed

text \<open>
  What can still be used is never forgotten.  Once a credential without an expiry is recorded, no
  sequence of calls, sweeps with any clock and re-issuances under the same key included, changes or drops its record, as long as no
  revocation covers it.
\<close>

theorem active_never_forgotten:
  assumes "get_credential u (fold ledger_step ops (new_ledger ret lim)) = Some r" "cr_status r = CredActive" "cr_expiresAtSec r = None"
    "\<not> list_ex (marks r) later"
  shows "get_credential u (fold ledger_step (ops @ later) (new_ledger ret lim)) = Some r"
proof -
  have "map_of (lg_records (fold ledger_step later l)) u = Some r" if "ledger_ok l" "map_of (lg_records l) u = Some r" for l
    using that assms(4)
  proof (induction later arbitrary: l)
    case (Cons op ops)
    then show ?case using Cons.IH[OF ledger_step_ok[OF Cons.prems(1)] active_step[OF Cons.prems(1,2) assms(2,3)]] by simp
  qed simp
  from this[OF ledger_run_ok[OF new_ledger_ok]] show ?thesis using assms(1) by (simp add: get_credential_def)
qed

lemma count_entries:
  assumes "distinct (js_keys m)"
  shows "length (filter (\<lambda>(k, r). P r) m) = card {k. \<exists>r. map_of m k = Some r \<and> P r}"
proof -
  have "distinct (js_keys (filter (\<lambda>(k, r). P r) m))" using assms by (rule distinct_map_filter)
  then have "length (filter (\<lambda>(k, r). P r) m) = card (set (js_keys (filter (\<lambda>(k, r). P r) m)))"
    by (metis distinct_card length_map)
  also have "set (js_keys (filter (\<lambda>(k, r). P r) m)) = {k. \<exists>r. map_of m k = Some r \<and> P r}"
    using assms by (force dest: map_of_SomeD intro: map_of_is_SomeI)
  finally show ?thesis .
qed

lemma status_split:
  "length (filter (\<lambda>(k, r). P r \<and> cr_status r = CredActive) xs) + length (filter (\<lambda>(k, r). P r \<and> cr_status r = CredRevoked) xs) =
   length (filter (\<lambda>(k, r). P r) xs)"
proof (induction xs)
  case (Cons x xs)
  then show ?case by (cases x; cases "cr_status (snd x)") auto
qed simp

lemma mark_loop_settled:
  "list_all (\<lambda>(k, r). inScope r sc \<longrightarrow> cr_status r = CredRevoked) xs \<Longrightarrow>
   mark_loop sc t xs staged m a = (m, a + length (filter (\<lambda>(k, r). inScope r sc) xs), staged)"
  by (induction xs arbitrary: a) auto

lemma mark_again:
  assumes "distinct (js_keys (lg_records l))" "\<And>k r. map_of (lg_records l) k = Some r \<Longrightarrow> inScope r sc \<Longrightarrow> cr_status r = CredRevoked"
    and "assertBrowserCredentialScope sc = None"
  shows "markRevoked sc t l = (case assertTimestampSec t ''revokedAtSec'' of Inl e \<Rightarrow> Inl e
    | Inr _ \<Rightarrow> Inr ((0, length (filter (\<lambda>(k, r). inScope r sc) (lg_records l))), l))"
proof -
  have "list_all (\<lambda>(k, r). inScope r sc \<longrightarrow> cr_status r = CredRevoked) (lg_records l)"
    using assms(1,2) by (auto simp: list_all_iff)
  from mark_loop_settled[OF this] show ?thesis using assms(3) by (simp add: markRevoked_def split: sum.splits)
qed

lemma inScope_revoke [simp]: "inScope (revoke_record t r) sc = inScope r sc"
  by (cases sc) (simp_all add: revoke_record_def)

lemma status_revoke [simp]: "cr_status (revoke_record t r) = CredRevoked"
  by (simp add: revoke_record_def)

text \<open>
  A revocation cuts its whole scope, once.  A successful mark leaves every record of the scope revoked, stamps
  only those that were active, changes no record outside the scope, and counts exactly the records of the scope;
  repeating it, with any valid time, marks nothing and leaves the ledger as it is.
\<close>

theorem mark_cuts_scope:
  assumes "ledger_ok l" "markRevoked sc t l = Inr ((m, a), l')"
  shows "(\<forall>u. case get_credential u l of
        None \<Rightarrow> get_credential u l' = None
      | Some r \<Rightarrow> (\<exists>r'. get_credential u l' = Some r' \<and> (if inScope r sc then cr_status r' = CredRevoked else r' = r) \<and>
          (cr_status r = CredRevoked \<longrightarrow> r' = r))) \<and>
    m + a = length (filter (\<lambda>(k, r). inScope r sc) (lg_records l)) \<and>
    markRevoked sc t' l' = (case assertTimestampSec t' ''revokedAtSec'' of Inl e \<Rightarrow> Inl e | Inr _ \<Rightarrow> Inr ((0, m + a), l'))"
proof -
  have d: "distinct (js_keys (lg_records l))" using assms(1) by (simp add: ledger_ok_def)
  obtain v where v: "distinct (js_keys (lg_records l'))"
    "\<And>k. map_of (lg_records l') k = map_option (\<lambda>r. if inScope r sc \<and> cr_status r = CredActive then revoke_record v r else r) (map_of (lg_records l) k)"
    "m = length (filter (\<lambda>(k, r). inScope r sc \<and> cr_status r = CredActive) (lg_records l))"
    "a = length (filter (\<lambda>(k, r). inScope r sc \<and> cr_status r = CredRevoked) (lg_records l))"
    using mark_result[OF assms(2) d] by blast
  have active: "cr_status r = CredActive \<or> cr_status r = CredRevoked" for r by (cases "cr_status r") auto
  have total: "m + a = length (filter (\<lambda>(k, r). inScope r sc) (lg_records l))" unfolding v(3,4) by (rule status_split)
  have "(\<exists>r. map_of (lg_records l') k = Some r \<and> inScope r sc) \<longleftrightarrow> (\<exists>r. map_of (lg_records l) k = Some r \<and> inScope r sc)" for k
    by (cases "map_of (lg_records l) k") (auto simp: v(2))
  then have total': "m + a = length (filter (\<lambda>(k, r). inScope r sc) (lg_records l'))" unfolding total by (simp add: count_entries[OF d] count_entries[OF v(1)])
  have cut: "cr_status r = CredRevoked" if entry: "map_of (lg_records l') k = Some r" "inScope r sc" for k r
  proof -
    obtain b where "r = (if inScope b sc \<and> cr_status b = CredActive then revoke_record v b else b)"
      using entry(1)[unfolded v(2)] by (auto simp: map_option_eq_Some)
    then show ?thesis using entry(2) active[of b] by (simp split: if_splits)
  qed
  have sc: "assertBrowserCredentialScope sc = None" using assms(2) by (auto simp: markRevoked_def split: option.splits)
  have again: "markRevoked sc t' l' = (case assertTimestampSec t' ''revokedAtSec'' of Inl e \<Rightarrow> Inl e | Inr _ \<Rightarrow> Inr ((0, m + a), l'))"
    unfolding total' by (rule mark_again[OF v(1) _ sc]) (rule cut)
  have "case get_credential u l of
        None \<Rightarrow> get_credential u l' = None
      | Some r \<Rightarrow> (\<exists>r'. get_credential u l' = Some r' \<and> (if inScope r sc then cr_status r' = CredRevoked else r' = r) \<and>
          (cr_status r = CredRevoked \<longrightarrow> r' = r))" for u
  proof (cases "get_credential u l")
    case (Some r)
    then show ?thesis using v(2)[of u] active[of r] by (cases "inScope r sc") (auto simp: get_credential_def)
  qed (simp add: v(2) get_credential_def)
  then show ?thesis using total again by blast
qed

section \<open>Witnesses\<close>

definition sample_issuance :: "string \<Rightarrow> int \<Rightarrow> issuance" where
  "sample_issuance u t = \<lparr>is_tenant = ''t1'', is_accountContext = ''ctx'', is_natsAccountPublicKey = ''AKEY'', is_peerId = ''peer'',
     is_userPubkey = u, is_issuedAtSec = JsInt t, is_expiresAtSec = None\<rparr>"

definition sample_ops :: "ledger_op list" where
  "sample_ops = [LRecord (sample_issuance ''U1'' 100), LRecord (sample_issuance ''U2'' 100), LRecord (sample_issuance ''U3'' 200)]"

definition sample_ledger :: ledger where
  "sample_ledger = fold ledger_step sample_ops (new_ledger None None)"

definition sample_dec :: "string \<Rightarrow> json option" where
  "sample_dec s = List.find (\<lambda>j. stringify j = s) (map (\<lambda>(k, r). cursor_payload (ScopeAccount ''AKEY'') None r) (lg_records sample_ledger))"

lemma sample_ledger_ok: "ledger_ok sample_ledger"
  unfolding sample_ledger_def by (rule ledger_run_ok[OF new_ledger_ok])

lemma sample_codec: "codec_on stringify sample_dec (ScopeAccount ''AKEY'') None sample_ledger"
  by code_simp

theorem drain_exact_witness:
  "drain_pages stringify sample_dec (ScopeAccount ''AKEY'') None (Some (JsInt 2)) None [sample_ledger, sample_ledger] = Some (matched (ScopeAccount ''AKEY'') None None sample_ledger) \<and>
   map cr_userPubkey (matched (ScopeAccount ''AKEY'') None None sample_ledger) = [''U3'', ''U1'', ''U2''] \<and>
   strictly_newest (matched (ScopeAccount ''AKEY'') None None sample_ledger)"
proof -
  have d: "drain_pages stringify sample_dec (ScopeAccount ''AKEY'') None (Some (JsInt 2)) None [sample_ledger, sample_ledger] = Some (matched (ScopeAccount ''AKEY'') None None sample_ledger)"
    by code_simp
  have "map cr_userPubkey (matched (ScopeAccount ''AKEY'') None None sample_ledger) = [''U3'', ''U1'', ''U2'']" by code_simp
  then show ?thesis using d drain_exact[of "[sample_ledger, sample_ledger]" stringify sample_dec "ScopeAccount ''AKEY''" None 2 _ sample_ledger, OF _ _ _ d]
    sample_ledger_ok sample_codec by (simp add: scope_field_error_def isIdentifier_def)
qed

theorem ledger_records_typed_witness:
  "\<exists>r. get_credential ''U2'' (fold ledger_step sample_ops (new_ledger None None)) = Some r \<and> cr_userPubkey r = ''U2'' \<and> 0 < cr_issuedAtSec r"
proof -
  have "get_credential ''U2'' (fold ledger_step sample_ops (new_ledger None None)) \<noteq> None" by code_simp
  then obtain r where r: "get_credential ''U2'' (fold ledger_step sample_ops (new_ledger None None)) = Some r" by blast
  from ledger_records_typed[OF r] r show ?thesis by blast
qed

theorem active_never_forgotten_witness:
  "\<exists>r. get_credential ''U2'' (fold ledger_step (sample_ops @ [LMark (ScopeCredential ''U1'') (JsInt 300), LSweep (JsInt 4000000000), LRecord (sample_issuance ''U2'' 500)]) (new_ledger None None)) = Some r \<and>
    cr_issuedAtSec r = 100"
proof -
  have c: "map_option (\<lambda>r. (cr_status r, cr_expiresAtSec r, cr_issuedAtSec r, cr_userPubkey r)) (get_credential ''U2'' (fold ledger_step sample_ops (new_ledger None None)))
    = Some (CredActive, None, 100, ''U2'')" by code_simp
  then obtain r where r: "get_credential ''U2'' (fold ledger_step sample_ops (new_ledger None None)) = Some r"
    "cr_status r = CredActive" "cr_expiresAtSec r = None" "cr_issuedAtSec r = 100" "cr_userPubkey r = ''U2''" by auto
  have "\<not> list_ex (marks r) [LMark (ScopeCredential ''U1'') (JsInt 300), LSweep (JsInt 4000000000), LRecord (sample_issuance ''U2'' 500)]"
    by (simp add: r(5))
  from active_never_forgotten[OF r(1-3) this] r(4) show ?thesis by blast
qed

theorem mark_cuts_scope_witness:
  "\<exists>l'. markRevoked (ScopePeer ''AKEY'' ''peer'') (JsInt 300) sample_ledger = Inr ((3, 0), l') \<and>
    markRevoked (ScopePeer ''AKEY'' ''peer'') (JsInt 400) l' = Inr ((0, 3), l')"
proof -
  have "map_sum id fst (markRevoked (ScopePeer ''AKEY'' ''peer'') (JsInt 300) sample_ledger) = Inr (3, 0)" by code_simp
  then obtain l' where l': "markRevoked (ScopePeer ''AKEY'' ''peer'') (JsInt 300) sample_ledger = Inr ((3, 0), l')"
    by (cases "markRevoked (ScopePeer ''AKEY'' ''peer'') (JsInt 300) sample_ledger") auto
  have "assertTimestampSec (JsInt 400) ''revokedAtSec'' = Inr 400" by code_simp
  then show ?thesis using mark_cuts_scope[OF sample_ledger_ok l', of "JsInt 400"] l' by simp
qed

end
