(* ===== verification/Retention.thy ===== *)
theory Retention
  imports Json
begin

text \<open>
  The process-wide budget of not-yet-running inbound work
  (\<^verbatim>\<open>packages/plugin/src/inbound-retention.ts\<close>) and the rate-limited pressure log
  (\<^verbatim>\<open>inbound-pressure-log.ts\<close>).  A reservation is a JavaScript closure with mutable
  state; here the reservations live in a store inside the budget record, indexed by the
  order of their creation, and a hold closure is named by a number local to its
  reservation.  The invariant states that every counter of the budget is the sum over
  the live reservations, which is what makes the limits hard bounds.
\<close>

section \<open>Data\<close>

datatype owner = DebounceWaiting | DebounceInflight | PendingOwner

datatype limit_reason =
    SessionMessageCount
  | SessionByteCount
  | ProcessMessageCount
  | ProcessByteCount

record 'n busy_turn_limits =
  maxMessagesPerSession :: 'n
  maxBytesPerSession :: 'n
  maxMessagesPerProcess :: 'n
  maxBytesPerProcess :: 'n

definition DEFAULT_BUSY_TURN_LIMITS :: "int busy_turn_limits" where
  "DEFAULT_BUSY_TURN_LIMITS =
     \<lparr>maxMessagesPerSession = 32, maxBytesPerSession = 1048576,
      maxMessagesPerProcess = 1024, maxBytesPerProcess = 33554432\<rparr>"

definition RETAINED_MESSAGE_OVERHEAD_BYTES :: int where
  "RETAINED_MESSAGE_OVERHEAD_BYTES = 256"

record usage =
  messages :: int
  bytes :: int

definition zeroUsage :: usage where
  "zeroUsage = \<lparr>messages = 0, bytes = 0\<rparr>"

type_synonym breakdown = "owner \<Rightarrow> usage"

definition zeroBreakdown :: breakdown where
  "zeroBreakdown = (\<lambda>_. zeroUsage)"

record session_state =
  ss_usage :: usage
  ss_breakdown :: breakdown

type_synonym session_token = nat
type_synonym rid = nat
type_synonym hold_id = nat

record reservation =
  r_session :: session_token
  r_charged :: int
  r_owner :: owner
  r_released :: bool
  r_requested :: bool
  r_holds :: int
  r_active_holds :: "hold_id list"
  r_next_hold :: hold_id

record budget =
  b_limits :: "int busy_turn_limits"
  b_sessions :: "(session_token, session_state) js_map"
  b_usage :: usage
  b_breakdown :: breakdown
  b_reservations :: "reservation list"
  b_next_token :: session_token

datatype scope = SessionScope | ProcessScope | SessionOwnerScope owner | ProcessOwnerScope owner

datatype retention_error =
    NotSafeNonNegative string
  | NotJsonSerializable
  | ReleaseHasNoSession
  | LiveHasNoSession
  | UsageUnderflow scope
  | HoldOfReleased
  | HoldUnderflow
  | AlreadyReleased
  | ReleasedMoreThanOnce
  | NoSuchReservation

section \<open>Operations\<close>

fun assertSafeNonNegative :: "js_number \<Rightarrow> string \<Rightarrow> retention_error + int" where
  "assertSafeNonNegative v name =
     (case safe_nonneg v of Some n \<Rightarrow> Inr n | None \<Rightarrow> Inl (NotSafeNonNegative name))"

definition validateLimits ::
  "js_number busy_turn_limits \<Rightarrow> retention_error + int busy_turn_limits" where
  "validateLimits l =
     bindE (assertSafeNonNegative (maxMessagesPerSession l) ''maxMessagesPerSession'') (\<lambda>ms.
     bindE (assertSafeNonNegative (maxBytesPerSession l) ''maxBytesPerSession'') (\<lambda>bs.
     bindE (assertSafeNonNegative (maxMessagesPerProcess l) ''maxMessagesPerProcess'') (\<lambda>mp.
     bindE (assertSafeNonNegative (maxBytesPerProcess l) ''maxBytesPerProcess'') (\<lambda>bp.
     Inr \<lparr>maxMessagesPerSession = ms, maxBytesPerSession = bs,
          maxMessagesPerProcess = mp, maxBytesPerProcess = bp\<rparr>))))"

text \<open>The argument is \<open>None\<close> where \<^verbatim>\<open>JSON.stringify\<close> returns \<^verbatim>\<open>undefined\<close>.\<close>

fun estimateRetainedMessageBytes :: "json option \<Rightarrow> retention_error + int" where
  "estimateRetainedMessageBytes None = Inl NotJsonSerializable"
| "estimateRetainedMessageBytes (Some j) =
     Inr (utf8_length (stringify j) + RETAINED_MESSAGE_OVERHEAD_BYTES + 2)"

definition fresh_budget :: "int busy_turn_limits \<Rightarrow> budget" where
  "fresh_budget l =
     \<lparr>b_limits = l, b_sessions = [], b_usage = zeroUsage, b_breakdown = zeroBreakdown,
      b_reservations = [], b_next_token = 0\<rparr>"

definition newInboundRetentionBudget ::
  "js_number busy_turn_limits \<Rightarrow> retention_error + budget" where
  "newInboundRetentionBudget l = bindE (validateLimits l) (\<lambda>v. Inr (fresh_budget v))"

definition createSessionToken :: "budget \<Rightarrow> session_token \<times> budget" where
  "createSessionToken b = (b_next_token b, b\<lparr>b_next_token := Suc (b_next_token b)\<rparr>)"

definition bump :: "usage \<Rightarrow> int \<Rightarrow> int \<Rightarrow> usage" where
  "bump u dm db = \<lparr>messages = messages u + dm, bytes = bytes u + db\<rparr>"

definition assertUsage :: "usage \<Rightarrow> scope \<Rightarrow> retention_error + unit" where
  "assertUsage u sc = assertE (\<not> (messages u < 0 \<or> bytes u < 0)) (UsageUnderflow sc)"

text \<open>\<open>st\<close> is the session's state object, stored under \<open>tok\<close>: an update of the
  object is an update of the map entry.\<close>

definition adjustBreakdown ::
  "session_token \<Rightarrow> session_state \<Rightarrow> owner \<Rightarrow> int \<Rightarrow> int \<Rightarrow> budget
   \<Rightarrow> retention_error + session_state \<times> budget" where
  "adjustBreakdown tok st own dm db b =
     (let su = bump (ss_breakdown st own) dm db;
          pu = bump (b_breakdown b own) dm db;
          st' = st\<lparr>ss_breakdown := (ss_breakdown st)(own := su)\<rparr>;
          b' = b\<lparr>b_breakdown := (b_breakdown b)(own := pu),
                 b_sessions := AList.update tok st' (b_sessions b)\<rparr>
      in bindE (assertUsage su (SessionOwnerScope own)) (\<lambda>_.
         bindE (assertUsage pu (ProcessOwnerScope own)) (\<lambda>_. Inr (st', b'))))"

definition adjust ::
  "session_token \<Rightarrow> session_state \<Rightarrow> owner \<Rightarrow> int \<Rightarrow> int \<Rightarrow> budget
   \<Rightarrow> retention_error + session_state \<times> budget" where
  "adjust tok st own dm db b =
     (let su = bump (ss_usage st) dm db;
          pu = bump (b_usage b) dm db
      in bindE (adjustBreakdown tok (st\<lparr>ss_usage := su\<rparr>) own dm db (b\<lparr>b_usage := pu\<rparr>)) (\<lambda>r.
         bindE (assertUsage su SessionScope) (\<lambda>_.
         bindE (assertUsage pu ProcessScope) (\<lambda>_. Inr r))))"

definition usage_of_token :: "budget \<Rightarrow> session_token \<Rightarrow> usage" where
  "usage_of_token b tok =
     (case map_of (b_sessions b) tok of Some st \<Rightarrow> ss_usage st | None \<Rightarrow> zeroUsage)"

datatype reserve_result = Accepted rid | Rejected limit_reason

definition tryReserve ::
  "session_token \<Rightarrow> js_number \<Rightarrow> owner \<Rightarrow> budget \<Rightarrow> retention_error + reserve_result \<times> budget" where
  "tryReserve tok charge own b =
     bindE (assertSafeNonNegative charge ''chargedBytes'') (\<lambda>c.
     let current = usage_of_token b tok; l = b_limits b in
     if messages current + 1 > maxMessagesPerSession l then Inr (Rejected SessionMessageCount, b)
     else if bytes current + c > maxBytesPerSession l then Inr (Rejected SessionByteCount, b)
     else if messages (b_usage b) + 1 > maxMessagesPerProcess l
       then Inr (Rejected ProcessMessageCount, b)
     else if bytes (b_usage b) + c > maxBytesPerProcess l then Inr (Rejected ProcessByteCount, b)
     else
       let session = (case map_of (b_sessions b) tok of
                        Some st \<Rightarrow> st
                      | None \<Rightarrow> \<lparr>ss_usage = zeroUsage, ss_breakdown = zeroBreakdown\<rparr>);
           r = \<lparr>r_session = tok, r_charged = c, r_owner = own, r_released = False,
                r_requested = False, r_holds = 0, r_active_holds = [], r_next_hold = 0\<rparr>
       in bindE (adjust tok session own 1 c b) (\<lambda>(st, b').
          Inr (Accepted (length (b_reservations b)),
               b'\<lparr>b_reservations := b_reservations b' @ [r]\<rparr>)))"

definition reserve ::
  "session_token \<Rightarrow> js_number \<Rightarrow> owner \<Rightarrow> budget \<Rightarrow> retention_error + rid option \<times> budget" where
  "reserve tok charge own b =
     bindE (tryReserve tok charge own b) (\<lambda>(res, b').
     Inr (case res of Accepted i \<Rightarrow> Some i | Rejected _ \<Rightarrow> None, b'))"

definition with_reservation ::
  "rid \<Rightarrow> budget \<Rightarrow> (reservation \<Rightarrow> retention_error + 'a) \<Rightarrow> retention_error + 'a" where
  "with_reservation i b f =
     (if i < length (b_reservations b) then f (b_reservations b ! i) else Inl NoSuchReservation)"

definition put_reservation :: "rid \<Rightarrow> reservation \<Rightarrow> budget \<Rightarrow> budget" where
  "put_reservation i r b = b\<lparr>b_reservations := (b_reservations b)[i := r]\<rparr>"

definition finalizeRelease :: "rid \<Rightarrow> budget \<Rightarrow> retention_error + budget" where
  "finalizeRelease i b =
     with_reservation i b (\<lambda>r.
     case map_of (b_sessions b) (r_session r) of
       None \<Rightarrow> Inl ReleaseHasNoSession
     | Some state \<Rightarrow>
         bindE (adjust (r_session r) state (r_owner r) (- 1) (- r_charged r) b) (\<lambda>(st, b').
         let b'' = put_reservation i (r\<lparr>r_released := True\<rparr>) b' in
         Inr (if messages (ss_usage st) = 0 \<and> bytes (ss_usage st) = 0
              then b''\<lparr>b_sessions := AList.delete (r_session r) (b_sessions b'')\<rparr>
              else b'')))"

definition hold :: "rid \<Rightarrow> budget \<Rightarrow> retention_error + hold_id \<times> budget" where
  "hold i b =
     with_reservation i b (\<lambda>r.
     if r_released r \<or> r_requested r then Inl HoldOfReleased
     else Inr (r_next_hold r,
               put_reservation i (r\<lparr>r_holds := r_holds r + 1,
                                    r_active_holds := r_next_hold r # r_active_holds r,
                                    r_next_hold := Suc (r_next_hold r)\<rparr>) b))"

text \<open>Invoking the closure that \<^verbatim>\<open>hold()\<close> returned.\<close>

definition release_hold :: "rid \<Rightarrow> hold_id \<Rightarrow> budget \<Rightarrow> retention_error + budget" where
  "release_hold i h b =
     with_reservation i b (\<lambda>r.
     if h \<notin> set (r_active_holds r) then Inr b
     else
       let r' = r\<lparr>r_active_holds := remove1 h (r_active_holds r), r_holds := r_holds r - 1\<rparr>;
           b' = put_reservation i r' b
       in if r_holds r' < 0 then Inl HoldUnderflow
          else if r_holds r' = 0 \<and> r_requested r' \<and> \<not> r_released r' then finalizeRelease i b'
          else Inr b')"

definition transfer :: "rid \<Rightarrow> owner \<Rightarrow> budget \<Rightarrow> retention_error + budget" where
  "transfer i next b =
     with_reservation i b (\<lambda>r.
     if r_released r \<or> r_requested r then Inl AlreadyReleased
     else if next = r_owner r then Inr b
     else case map_of (b_sessions b) (r_session r) of
       None \<Rightarrow> Inl LiveHasNoSession
     | Some state \<Rightarrow>
         bindE (adjustBreakdown (r_session r) state (r_owner r) (- 1) (- r_charged r) b) (\<lambda>(st, b').
         bindE (adjustBreakdown (r_session r) st next 1 (r_charged r) b') (\<lambda>(st', b'').
         Inr (put_reservation i (r\<lparr>r_owner := next\<rparr>) b''))))"

definition requestRelease :: "rid \<Rightarrow> budget \<Rightarrow> retention_error + budget" where
  "requestRelease i b =
     with_reservation i b (\<lambda>r.
     if r_requested r then Inr b
     else if r_released r then Inr b
     else
       let b' = put_reservation i (r\<lparr>r_requested := True\<rparr>) b
       in if r_holds r = 0 then finalizeRelease i b' else Inr b')"

definition release :: "rid \<Rightarrow> budget \<Rightarrow> retention_error + budget" where
  "release i b =
     with_reservation i b (\<lambda>r.
     if r_released r \<or> r_requested r then Inl ReleasedMoreThanOnce
     else
       let b' = put_reservation i (r\<lparr>r_requested := True\<rparr>) b
       in if r_holds r = 0 then finalizeRelease i b' else Inr b')"

text \<open>\<^verbatim>\<open>usage(sessionToken?)\<close>, \<^verbatim>\<open>snapshot(sessionToken?)\<close> and \<^verbatim>\<open>sessionCount()\<close>.\<close>

fun usage_query :: "budget \<Rightarrow> session_token option \<Rightarrow> usage" where
  "usage_query b None = b_usage b"
| "usage_query b (Some tok) = usage_of_token b tok"

record retention_snapshot =
  sn_process :: usage
  sn_session :: usage
  sn_breakdown :: breakdown
  sn_limits :: "int busy_turn_limits"

definition snapshot :: "budget \<Rightarrow> session_token option \<Rightarrow> retention_snapshot" where
  "snapshot b tok =
     \<lparr>sn_process = usage_query b None,
      sn_session = (case tok of Some t \<Rightarrow> usage_query b (Some t) | None \<Rightarrow> zeroUsage),
      sn_breakdown = (case Option.bind tok (map_of (b_sessions b)) of
                        Some st \<Rightarrow> ss_breakdown st
                      | None \<Rightarrow> b_breakdown b),
      sn_limits = b_limits b\<rparr>"

definition sessionCount :: "budget \<Rightarrow> nat" where
  "sessionCount b = length (b_sessions b)"

section \<open>The invariant: every counter is a sum over the live reservations\<close>

definition live_weight :: "(reservation \<Rightarrow> int) \<Rightarrow> (reservation \<Rightarrow> bool) \<Rightarrow> reservation \<Rightarrow> int" where
  "live_weight f p r = (if \<not> r_released r \<and> p r then f r else 0)"

definition live_sum :: "(reservation \<Rightarrow> int) \<Rightarrow> (reservation \<Rightarrow> bool) \<Rightarrow> reservation list \<Rightarrow> int" where
  "live_sum f p rs = sum_list (map (live_weight f p) rs)"

definition live_usage :: "(reservation \<Rightarrow> bool) \<Rightarrow> reservation list \<Rightarrow> usage" where
  "live_usage p rs = \<lparr>messages = live_sum (\<lambda>_. 1) p rs, bytes = live_sum r_charged p rs\<rparr>"

text \<open>The session map a store of reservations determines.\<close>

definition session_view :: "reservation list \<Rightarrow> session_token \<Rightarrow> session_state option" where
  "session_view rs t =
     (if live_sum (\<lambda>_. 1) (\<lambda>r. r_session r = t) rs = 0 then None
      else Some \<lparr>ss_usage = live_usage (\<lambda>r. r_session r = t) rs,
                 ss_breakdown = (\<lambda>own. live_usage (\<lambda>r. r_session r = t \<and> r_owner r = own) rs)\<rparr>)"

definition charges_ok :: "budget \<Rightarrow> bool" where
  "charges_ok b \<longleftrightarrow> (\<forall>r \<in> set (b_reservations b). 0 \<le> r_charged r)"

definition counters_ok :: "budget \<Rightarrow> bool" where
  "counters_ok b \<longleftrightarrow>
     charges_ok b \<and>
     b_usage b = live_usage (\<lambda>_. True) (b_reservations b) \<and>
     (\<forall>own. b_breakdown b own = live_usage (\<lambda>r. r_owner r = own) (b_reservations b)) \<and>
     distinct (js_keys (b_sessions b)) \<and>
     map_of (b_sessions b) = session_view (b_reservations b)"

definition res_ok :: "reservation \<Rightarrow> bool" where
  "res_ok r \<longleftrightarrow>
     (r_released r \<longleftrightarrow> r_requested r \<and> r_holds r = 0) \<and>
     r_holds r = int (length (r_active_holds r)) \<and>
     distinct (r_active_holds r) \<and> (\<forall>h \<in> set (r_active_holds r). h < r_next_hold r)"

definition within_limits :: "budget \<Rightarrow> bool" where
  "within_limits b \<longleftrightarrow>
     (\<forall>t. messages (usage_of_token b t) \<le> maxMessagesPerSession (b_limits b) \<and>
          bytes (usage_of_token b t) \<le> maxBytesPerSession (b_limits b)) \<and>
     messages (b_usage b) \<le> maxMessagesPerProcess (b_limits b) \<and>
     bytes (b_usage b) \<le> maxBytesPerProcess (b_limits b)"

definition budget_inv :: "budget \<Rightarrow> bool" where
  "budget_inv b \<longleftrightarrow>
     counters_ok b \<and> (\<forall>r \<in> set (b_reservations b). res_ok r) \<and> within_limits b"

subsection \<open>Sums over the store\<close>

lemma live_sum_append: "live_sum f p (rs @ [r]) = live_sum f p rs + live_weight f p r"
  by (simp add: live_sum_def)

lemma live_sum_update:
  "i < length rs \<Longrightarrow> live_sum f p (rs[i := r]) = live_sum f p rs - live_weight f p (rs ! i) + live_weight f p r"
  unfolding live_sum_def by (rule sum_map_list_update)

lemma live_sum_nonneg: "(\<And>r. r \<in> set rs \<Longrightarrow> 0 \<le> f r) \<Longrightarrow> 0 \<le> live_sum f p rs"
  unfolding live_sum_def by (rule sum_list_map_nonneg) (auto simp: live_weight_def)

lemma live_sum_mono:
  "(\<And>r. r \<in> set rs \<Longrightarrow> 0 \<le> f r) \<Longrightarrow> (\<And>r. p r \<Longrightarrow> q r) \<Longrightarrow> live_sum f p rs \<le> live_sum f q rs"
  unfolding live_sum_def by (rule sum_list_map_mono_int) (auto simp: live_weight_def)

lemma live_sum_ge_elem:
  assumes "\<And>r. r \<in> set rs \<Longrightarrow> 0 \<le> f r" and "i < length rs" and "\<not> r_released (rs ! i)" and "p (rs ! i)"
  shows "f (rs ! i) \<le> live_sum f p rs"
proof -
  have "live_weight f p (rs ! i) \<le> live_sum f p rs"
    unfolding live_sum_def
    by (rule sum_list_map_ge_elem) (use assms in \<open>auto simp: live_weight_def\<close>)
  then show ?thesis using assms by (simp add: live_weight_def)
qed

lemma live_sum_zero_bytes:
  assumes "\<And>r. r \<in> set rs \<Longrightarrow> 0 \<le> r_charged r" and "live_sum (\<lambda>_. 1) p rs = 0"
  shows "live_sum f p rs = 0"
proof -
  have "live_weight f p r = 0" if r: "r \<in> set rs" for r
  proof (rule ccontr)
    assume "live_weight f p r \<noteq> 0"
    then have "\<not> r_released r" "p r" by (auto simp: live_weight_def split: if_splits)
    moreover obtain i where "i < length rs" "rs ! i = r" using r by (auto simp: in_set_conv_nth)
    ultimately have "1 \<le> live_sum (\<lambda>_. 1) p rs"
      using live_sum_ge_elem[of rs "\<lambda>_. 1" i p] by simp
    then show False using assms(2) by simp
  qed
  then show ?thesis unfolding live_sum_def by (induction rs) auto
qed

lemma live_usage_zero:
  assumes "\<And>r. r \<in> set rs \<Longrightarrow> 0 \<le> r_charged r" and "live_sum (\<lambda>_. 1) p rs = 0"
  shows "live_usage p rs = zeroUsage"
  using live_sum_zero_bytes[OF assms, of r_charged] assms(2)
  by (simp add: live_usage_def zeroUsage_def)

lemma live_usage_nonneg:
  assumes "\<And>r. r \<in> set rs \<Longrightarrow> 0 \<le> r_charged r"
  shows "0 \<le> messages (live_usage p rs)" and "0 \<le> bytes (live_usage p rs)"
  using live_sum_nonneg[of rs "\<lambda>_. 1" p] live_sum_nonneg[of rs r_charged p] assms
  by (auto simp: live_usage_def)

lemma usage_of_token_view:
  assumes "counters_ok b"
  shows "usage_of_token b t = live_usage (\<lambda>r. r_session r = t) (b_reservations b)"
proof -
  have c: "\<And>r. r \<in> set (b_reservations b) \<Longrightarrow> 0 \<le> r_charged r"
    using assms by (simp add: counters_ok_def charges_ok_def)
  show ?thesis
    using assms live_usage_zero[OF c, where p = "\<lambda>r. r_session r = t"]
    by (auto simp: usage_of_token_def counters_ok_def session_view_def split: if_splits)
qed

text \<open>The store may change in ways the counters do not see.\<close>

lemma live_weight_cong:
  "r_released r = r_released s \<Longrightarrow> r_session r = r_session s \<Longrightarrow> r_owner r = r_owner s \<Longrightarrow>
   r_charged r = r_charged s \<Longrightarrow> p r = p s \<Longrightarrow> f r = f s \<Longrightarrow>
   live_weight f p r = live_weight f p s"
  by (simp add: live_weight_def)

lemma counters_ok_put:
  assumes "counters_ok b" and i: "i < length (b_reservations b)"
    and same: "r_released r = r_released (b_reservations b ! i)" "r_session r = r_session (b_reservations b ! i)"
      "r_owner r = r_owner (b_reservations b ! i)" "r_charged r = r_charged (b_reservations b ! i)"
  shows "counters_ok (put_reservation i r b)"
proof -
  let ?rs = "b_reservations b"
  have eq: "live_sum f p (?rs[i := r]) = live_sum f p ?rs"
    if "p r = p (?rs ! i)" "f r = f (?rs ! i)" for f p
    using live_sum_update[OF i] live_weight_cong[OF same that] by simp
  have u: "live_usage p (?rs[i := r]) = live_usage p ?rs" if "p r = p (?rs ! i)" for p
    using that same by (simp add: live_usage_def eq)
  have v: "session_view (?rs[i := r]) = session_view ?rs"
    using same by (simp add: session_view_def fun_eq_iff eq u)
  have "charges_ok (put_reservation i r b)"
    using assms i same set_update_subset_insert[of ?rs i r]
    by (auto simp: counters_ok_def charges_ok_def put_reservation_def)
  then show ?thesis
    using assms same by (simp add: counters_ok_def put_reservation_def u v)
qed

subsection \<open>Adjusting the counters\<close>

lemma bump_sel [simp]: "messages (bump u dm db) = messages u + dm" "bytes (bump u dm db) = bytes u + db"
  by (simp_all add: bump_def)

definition adjusted_session :: "session_state \<Rightarrow> owner \<Rightarrow> int \<Rightarrow> int \<Rightarrow> session_state" where
  "adjusted_session st own dm db =
     st\<lparr>ss_usage := bump (ss_usage st) dm db,
        ss_breakdown := (ss_breakdown st)(own := bump (ss_breakdown st own) dm db)\<rparr>"

definition adjusted_budget ::
  "session_token \<Rightarrow> session_state \<Rightarrow> owner \<Rightarrow> int \<Rightarrow> int \<Rightarrow> budget \<Rightarrow> budget" where
  "adjusted_budget tok st own dm db b =
     b\<lparr>b_usage := bump (b_usage b) dm db,
       b_breakdown := (b_breakdown b)(own := bump (b_breakdown b own) dm db),
       b_sessions := AList.update tok (adjusted_session st own dm db) (b_sessions b)\<rparr>"

definition nonneg_usage :: "usage \<Rightarrow> bool" where
  "nonneg_usage u \<longleftrightarrow> 0 \<le> messages u \<and> 0 \<le> bytes u"

lemma adjust_ok:
  assumes "nonneg_usage (bump (ss_usage st) dm db)" "nonneg_usage (bump (b_usage b) dm db)"
    "nonneg_usage (bump (ss_breakdown st own) dm db)" "nonneg_usage (bump (b_breakdown b own) dm db)"
  shows "adjust tok st own dm db b = Inr (adjusted_session st own dm db, adjusted_budget tok st own dm db b)"
  using assms
  by (simp add: adjust_def adjustBreakdown_def assertUsage_def Let_def nonneg_usage_def not_less
      adjusted_session_def adjusted_budget_def)

text \<open>Both a new reservation and a finalised release change every sum by the weight of
  one reservation \<open>r\<close>, with sign \<open>s\<close>; this is what \<^const>\<open>adjusted_budget\<close> does to
  the counters.\<close>

lemma counters_ok_adjust:
  assumes ok: "counters_ok b"
    and sums: "\<And>f p. live_sum f p rs' = live_sum f p (b_reservations b) + (if p r then f r else 0) * s"
    and charges: "\<And>x. x \<in> set rs' \<Longrightarrow> 0 \<le> r_charged x"
    and st: "st = \<lparr>ss_usage = live_usage (\<lambda>x. r_session x = r_session r) (b_reservations b),
        ss_breakdown = (\<lambda>own. live_usage (\<lambda>x. r_session x = r_session r \<and> r_owner x = own) (b_reservations b))\<rparr>"
    and b': "b' = adjusted_budget (r_session r) st (r_owner r) s (r_charged r * s) b"
    and z: "m' = (if live_sum (\<lambda>_. 1) (\<lambda>x. r_session x = r_session r) rs' = 0
                  then AList.delete (r_session r) (b_sessions b') else b_sessions b')"
  shows "adjust (r_session r) st (r_owner r) s (r_charged r * s) b
           = Inr (adjusted_session st (r_owner r) s (r_charged r * s), b')"
    and "counters_ok (b'\<lparr>b_reservations := rs', b_sessions := m'\<rparr>)"
    and "ss_usage (adjusted_session st (r_owner r) s (r_charged r * s))
           = live_usage (\<lambda>x. r_session x = r_session r) rs'"
proof -
  let ?rs = "b_reservations b" and ?t = "r_session r"
  have U: "live_usage p rs' = (if p r then bump (live_usage p ?rs) s (r_charged r * s) else live_usage p ?rs)" for p
    by (auto simp: live_usage_def bump_def sums)
  have nn: "nonneg_usage (live_usage p rs')" for p
    using live_usage_nonneg[of rs' p] charges by (simp add: nonneg_usage_def)
  have proc: "b_usage b = live_usage (\<lambda>_. True) ?rs"
    and brk: "\<And>own. b_breakdown b own = live_usage (\<lambda>x. r_owner x = own) ?rs"
    and view: "map_of (b_sessions b) = session_view ?rs" and dist: "distinct (js_keys (b_sessions b))"
    using ok by (auto simp: counters_ok_def)
  have e1: "bump (ss_usage st) s (r_charged r * s) = live_usage (\<lambda>x. r_session x = ?t) rs'"
    and e2: "bump (b_usage b) s (r_charged r * s) = live_usage (\<lambda>_. True) rs'"
    and e3: "bump (ss_breakdown st (r_owner r)) s (r_charged r * s)
               = live_usage (\<lambda>x. r_session x = ?t \<and> r_owner x = r_owner r) rs'"
    and e4: "bump (b_breakdown b (r_owner r)) s (r_charged r * s) = live_usage (\<lambda>x. r_owner x = r_owner r) rs'"
    by (simp_all add: U st proc brk)
  show "adjust ?t st (r_owner r) s (r_charged r * s) b
      = Inr (adjusted_session st (r_owner r) s (r_charged r * s), b')"
    unfolding b' by (rule adjust_ok) (simp_all add: e1 e2 e3 e4 nn)
  show "ss_usage (adjusted_session st (r_owner r) s (r_charged r * s)) = live_usage (\<lambda>x. r_session x = ?t) rs'"
    by (simp add: adjusted_session_def e1)
  have st': "adjusted_session st (r_owner r) s (r_charged r * s) =
      \<lparr>ss_usage = live_usage (\<lambda>x. r_session x = ?t) rs',
       ss_breakdown = (\<lambda>own. live_usage (\<lambda>x. r_session x = ?t \<and> r_owner x = own) rs')\<rparr>"
    by (auto simp: adjusted_session_def e1 fun_eq_iff U st)
  have other: "session_view rs' t = session_view ?rs t" if "t \<noteq> ?t" for t
  proof -
    have "live_usage (\<lambda>x. r_session x = t) rs' = live_usage (\<lambda>x. r_session x = t) ?rs"
      "live_sum (\<lambda>_. 1) (\<lambda>x. r_session x = t) rs' = live_sum (\<lambda>_. 1) (\<lambda>x. r_session x = t) ?rs"
      "\<And>own. live_usage (\<lambda>x. r_session x = t \<and> r_owner x = own) rs'
             = live_usage (\<lambda>x. r_session x = t \<and> r_owner x = own) ?rs"
      using that by (simp_all add: U sums)
    then show ?thesis by (simp add: session_view_def)
  qed
  have "map_of m' t = session_view rs' t" for t
  proof (cases "t = ?t")
    case True
    then show ?thesis
      by (simp add: z b' adjusted_budget_def alist_simps session_view_def st')
  next
    case False
    then show ?thesis
      by (simp add: z b' adjusted_budget_def alist_simps view other)
  qed
  then have "map_of m' = session_view rs'" by (rule ext)
  moreover have "distinct (js_keys m')" using dist by (simp add: z b' adjusted_budget_def)
  ultimately show "counters_ok (b'\<lparr>b_reservations := rs', b_sessions := m'\<rparr>)"
    using charges by (auto simp: counters_ok_def charges_ok_def b' adjusted_budget_def e2 e4 U brk)
qed

subsection \<open>What each operation does to the store\<close>

lemmas inv_defs = budget_inv_def within_limits_def

lemma counters_charges:
  "counters_ok b \<Longrightarrow> r \<in> set (b_reservations b) \<Longrightarrow> 0 \<le> r_charged r"
  by (simp add: counters_ok_def charges_ok_def)

lemma within_limits_view:
  assumes "counters_ok b"
  shows "within_limits b \<longleftrightarrow>
     (\<forall>t. live_sum (\<lambda>_. 1) (\<lambda>r. r_session r = t) (b_reservations b) \<le> maxMessagesPerSession (b_limits b) \<and>
          live_sum r_charged (\<lambda>r. r_session r = t) (b_reservations b) \<le> maxBytesPerSession (b_limits b)) \<and>
     live_sum (\<lambda>_. 1) (\<lambda>_. True) (b_reservations b) \<le> maxMessagesPerProcess (b_limits b) \<and>
     live_sum r_charged (\<lambda>_. True) (b_reservations b) \<le> maxBytesPerProcess (b_limits b)"
proof -
  have "b_usage b = live_usage (\<lambda>_. True) (b_reservations b)" using assms by (simp add: counters_ok_def)
  then show ?thesis
    by (simp add: within_limits_def usage_of_token_view[OF assms] live_usage_def)
qed

lemma within_limits_shrink:
  assumes "counters_ok b" "counters_ok b'" "within_limits b" "b_limits b' = b_limits b"
    and le: "\<And>p. live_sum (\<lambda>_. 1) p (b_reservations b') \<le> live_sum (\<lambda>_. 1) p (b_reservations b)"
      "\<And>p. live_sum r_charged p (b_reservations b') \<le> live_sum r_charged p (b_reservations b)"
  shows "within_limits b'"
proof -
  note L = assms(3)[unfolded within_limits_view[OF assms(1)]]
  show ?thesis
    unfolding within_limits_view[OF assms(2)] assms(4)
    using L le order_trans by (metis (no_types, lifting))
qed

text \<open>A release drops exactly one live reservation from every sum.\<close>

lemma finalizeRelease_ok:
  assumes ok: "counters_ok b" and i: "i < length (b_reservations b)"
    and live: "\<not> r_released (b_reservations b ! i)"
  shows "\<exists>b'. finalizeRelease i b = Inr b' \<and> counters_ok b' \<and> b_limits b' = b_limits b \<and>
     b_next_token b' = b_next_token b \<and>
     b_reservations b' = (b_reservations b)[i := (b_reservations b ! i)\<lparr>r_released := True\<rparr>]"
proof -
  let ?rs = "b_reservations b" and ?r = "b_reservations b ! i"
  let ?rs' = "?rs[i := ?r\<lparr>r_released := True\<rparr>]"
  let ?st = "\<lparr>ss_usage = live_usage (\<lambda>x. r_session x = r_session ?r) ?rs,
        ss_breakdown = (\<lambda>own. live_usage (\<lambda>x. r_session x = r_session ?r \<and> r_owner x = own) ?rs)\<rparr>"
  let ?b1 = "adjusted_budget (r_session ?r) ?st (r_owner ?r) (- 1) (r_charged ?r * - 1) b"
  let ?m = "if live_sum (\<lambda>_. 1) (\<lambda>x. r_session x = r_session ?r) ?rs' = 0
            then AList.delete (r_session ?r) (b_sessions ?b1) else b_sessions ?b1"
  have mem: "?r \<in> set ?rs" using i by simp
  have ch: "\<And>x. x \<in> set ?rs' \<Longrightarrow> 0 \<le> r_charged x"
    using counters_charges[OF ok] mem set_update_subset_insert[of ?rs i "?r\<lparr>r_released := True\<rparr>"] by auto
  have sums: "\<And>f p. live_sum f p ?rs' = live_sum f p ?rs + (if p ?r then f ?r else 0) * - 1"
    using i live by (simp add: live_sum_update live_weight_def)
  note A = counters_ok_adjust[OF ok sums ch refl refl refl]
  have "1 \<le> live_sum (\<lambda>_. 1) (\<lambda>x. r_session x = r_session ?r) ?rs"
    using live_sum_ge_elem[of ?rs "\<lambda>_. 1" i] i live by simp
  then have look: "map_of (b_sessions b) (r_session ?r) = Some ?st"
    using ok by (simp add: counters_ok_def session_view_def)
  have zero: "(messages (ss_usage s) = 0 \<and> bytes (ss_usage s) = 0) =
      (live_sum (\<lambda>_. 1) (\<lambda>x. r_session x = r_session ?r) ?rs' = 0)"
    if "ss_usage s = live_usage (\<lambda>x. r_session x = r_session ?r) ?rs'" for s :: session_state
    using that live_sum_zero_bytes[OF ch, where p = "\<lambda>x. r_session x = r_session ?r" and f = r_charged]
    by (auto simp: live_usage_def)
  have "finalizeRelease i b = Inr (?b1\<lparr>b_reservations := ?rs', b_sessions := ?m\<rparr>)"
    using i look A(1) zero[OF A(3)]
    by (simp add: finalizeRelease_def with_reservation_def put_reservation_def adjusted_budget_def)
  then show ?thesis using A(2) by (auto simp: adjusted_budget_def)
qed

lemma live_sums_release_le:
  assumes "\<And>r. r \<in> set rs \<Longrightarrow> 0 \<le> f r" and "i < length rs"
    and "r_released r" 
  shows "live_sum f p (rs[i := r]) \<le> live_sum f p rs"
proof -
  have "0 \<le> live_weight f p (rs ! i)" using assms by (simp add: live_weight_def)
  then show ?thesis using assms by (simp add: live_sum_update live_weight_def)
qed

lemma ball_set_update: "i < length xs \<Longrightarrow> (\<forall>x \<in> set xs. P x) \<Longrightarrow> P y \<Longrightarrow> (\<forall>x \<in> set (xs[i := y]). P x)"
  using set_update_subset_insert[of xs i y] by auto

text \<open>Finalising a reservation whose only broken law is that it is not yet released
  restores the invariant.\<close>

lemma finalizeRelease_inv:
  assumes inv: "budget_inv b0" and b: "b = put_reservation i r b0" and i: "i < length (b_reservations b0)"
    and r: "r_session r = r_session (b_reservations b0 ! i)" "r_owner r = r_owner (b_reservations b0 ! i)"
      "r_charged r = r_charged (b_reservations b0 ! i)" "\<not> r_released (b_reservations b0 ! i)" "\<not> r_released r"
    and res: "res_ok (r\<lparr>r_released := True\<rparr>)"
  shows "\<exists>b'. finalizeRelease i b = Inr b' \<and> budget_inv b' \<and> b_limits b' = b_limits b0 \<and>
     b_next_token b' = b_next_token b0 \<and>
     b_reservations b' = (b_reservations b0)[i := r\<lparr>r_released := True\<rparr>]"
proof -
  have c0: "counters_ok b0" using inv by (simp add: budget_inv_def)
  have c: "counters_ok b" unfolding b using counters_ok_put[OF c0 i] r by simp
  have ri: "b_reservations b ! i = r" "i < length (b_reservations b)" "b_limits b = b_limits b0"
    "b_next_token b = b_next_token b0"
    using i by (simp_all add: b put_reservation_def)
  obtain b' where b': "finalizeRelease i b = Inr b'" "counters_ok b'" "b_limits b' = b_limits b0"
      "b_next_token b' = b_next_token b0"
      "b_reservations b' = (b_reservations b0)[i := r\<lparr>r_released := True\<rparr>]"
    using finalizeRelease_ok[OF c ri(2)] ri r i by (auto simp: b put_reservation_def)
  have "within_limits b'"
    by (rule within_limits_shrink[OF c0 b'(2)])
      (use inv b' i counters_charges[OF c0] in \<open>auto simp: budget_inv_def intro!: live_sums_release_le\<close>)
  moreover have "\<forall>x \<in> set (b_reservations b'). res_ok x"
    unfolding b'(5) using inv i res by (intro ball_set_update) (auto simp: budget_inv_def)
  ultimately show ?thesis using b' by (auto simp: budget_inv_def)
qed

lemma put_reservation_inv:
  assumes "budget_inv b" and "i < length (b_reservations b)"
    and "r_released r = r_released (b_reservations b ! i)" "r_session r = r_session (b_reservations b ! i)"
      "r_owner r = r_owner (b_reservations b ! i)" "r_charged r = r_charged (b_reservations b ! i)"
    and "res_ok r"
  shows "budget_inv (put_reservation i r b)"
proof -
  have c: "counters_ok b" using assms by (simp add: budget_inv_def)
  have "counters_ok (put_reservation i r b)" by (rule counters_ok_put[OF c assms(2-6)])
  moreover have "within_limits (put_reservation i r b)"
    using assms(1) by (simp add: budget_inv_def within_limits_def put_reservation_def usage_of_token_def)
  moreover have "\<forall>x \<in> set (b_reservations (put_reservation i r b)). res_ok x"
    using ball_set_update[OF assms(2), of res_ok r] assms(1,7) by (simp add: budget_inv_def put_reservation_def)
  ultimately show ?thesis by (simp add: budget_inv_def)
qed

definition same_frame :: "budget \<Rightarrow> budget \<Rightarrow> bool" where
  "same_frame b b' \<longleftrightarrow>
     b_limits b' = b_limits b \<and> b_next_token b' = b_next_token b \<and>
     length (b_reservations b') = length (b_reservations b)"

lemma inv_res_ok: "budget_inv b \<Longrightarrow> i < length (b_reservations b) \<Longrightarrow> res_ok (b_reservations b ! i)"
  by (simp add: budget_inv_def)

text \<open>The state of a reservation after a release has been asked for.\<close>

definition requested_state :: "reservation \<Rightarrow> reservation" where
  "requested_state r = r\<lparr>r_requested := True, r_released := (r_holds r = 0)\<rparr>"

lemma requested_state_held:
  "r_holds r \<noteq> 0 \<Longrightarrow> \<not> r_released r \<Longrightarrow> requested_state r = r\<lparr>r_requested := True\<rparr>"
  by (cases r) (simp add: requested_state_def)

lemma request_core:
  assumes inv: "budget_inv b" and i: "i < length (b_reservations b)"
    and fresh: "\<not> r_requested (b_reservations b ! i)"
  shows "\<exists>b'. (if r_holds (b_reservations b ! i) = 0
        then finalizeRelease i (put_reservation i ((b_reservations b ! i)\<lparr>r_requested := True\<rparr>) b)
        else Inr (put_reservation i ((b_reservations b ! i)\<lparr>r_requested := True\<rparr>) b)) = Inr b' \<and>
     budget_inv b' \<and> same_frame b b' \<and>
     b_reservations b' = (b_reservations b)[i := requested_state (b_reservations b ! i)]"
proof -
  let ?r = "b_reservations b ! i"
  have ok: "res_ok ?r" using inv i by (rule inv_res_ok)
  have nr: "\<not> r_released ?r" using ok fresh by (simp add: res_ok_def)
  show ?thesis
  proof (cases "r_holds ?r = 0")
    case True
    have "res_ok ((?r\<lparr>r_requested := True\<rparr>)\<lparr>r_released := True\<rparr>)" using ok True by (simp add: res_ok_def)
    then obtain b' where b': "finalizeRelease i (put_reservation i (?r\<lparr>r_requested := True\<rparr>) b) = Inr b'"
        "budget_inv b'" "b_limits b' = b_limits b" "b_next_token b' = b_next_token b"
        "b_reservations b' = (b_reservations b)[i := (?r\<lparr>r_requested := True\<rparr>)\<lparr>r_released := True\<rparr>]"
      using finalizeRelease_inv[OF inv refl i, of "?r\<lparr>r_requested := True\<rparr>"] nr by auto
    then show ?thesis using True by (auto simp: same_frame_def requested_state_def)
  next
    case False
    have "budget_inv (put_reservation i (?r\<lparr>r_requested := True\<rparr>) b)"
      by (rule put_reservation_inv[OF inv i]) (use ok nr False in \<open>auto simp: res_ok_def\<close>)
    then show ?thesis using False requested_state_held[OF False nr]
      by (auto simp: put_reservation_def same_frame_def)
  qed
qed

lemma requestRelease_ok:
  assumes inv: "budget_inv b" and i: "i < length (b_reservations b)"
  shows "\<exists>b'. requestRelease i b = Inr b' \<and> budget_inv b' \<and> same_frame b b' \<and>
     b_reservations b' = (if r_requested (b_reservations b ! i) then b_reservations b
        else (b_reservations b)[i := requested_state (b_reservations b ! i)])"
proof (cases "r_requested (b_reservations b ! i)")
  case True
  then show ?thesis using inv i by (simp add: requestRelease_def with_reservation_def same_frame_def)
next
  case False
  have "\<not> r_released (b_reservations b ! i)" using inv_res_ok[OF inv i] False by (simp add: res_ok_def)
  then show ?thesis
    using request_core[OF inv i False] False i
    by (simp add: requestRelease_def with_reservation_def Let_def)
qed

lemma release_ok:
  assumes inv: "budget_inv b" and i: "i < length (b_reservations b)"
  shows "if r_requested (b_reservations b ! i) then release i b = Inl ReleasedMoreThanOnce
    else \<exists>b'. release i b = Inr b' \<and> budget_inv b' \<and> same_frame b b' \<and>
      b_reservations b' = (b_reservations b)[i := requested_state (b_reservations b ! i)]"
proof (cases "r_requested (b_reservations b ! i)")
  case True
  then show ?thesis using i by (simp add: release_def with_reservation_def)
next
  case False
  have "\<not> r_released (b_reservations b ! i)" using inv_res_ok[OF inv i] False by (simp add: res_ok_def)
  then show ?thesis
    using request_core[OF inv i False] False i
    by (simp add: release_def with_reservation_def Let_def)
qed

lemma hold_ok:
  assumes inv: "budget_inv b" and i: "i < length (b_reservations b)"
  shows "if r_requested (b_reservations b ! i) then hold i b = Inl HoldOfReleased
    else \<exists>h b'. hold i b = Inr (h, b') \<and> budget_inv b' \<and> same_frame b b' \<and>
      h \<notin> set (r_active_holds (b_reservations b ! i)) \<and>
      b_reservations b' = (b_reservations b)[i := (b_reservations b ! i)\<lparr>
        r_holds := r_holds (b_reservations b ! i) + 1,
        r_active_holds := h # r_active_holds (b_reservations b ! i), r_next_hold := Suc h\<rparr>]"
proof (cases "r_requested (b_reservations b ! i)")
  case True
  then show ?thesis using i by (simp add: hold_def with_reservation_def)
next
  case False
  let ?r = "b_reservations b ! i"
  let ?r' = "?r\<lparr>r_holds := r_holds ?r + 1, r_active_holds := r_next_hold ?r # r_active_holds ?r,
    r_next_hold := Suc (r_next_hold ?r)\<rparr>"
  have ok: "res_ok ?r" using inv i by (rule inv_res_ok)
  then have nr: "\<not> r_released ?r" using False by (simp add: res_ok_def)
  have "res_ok ?r'" using ok False by (auto simp: res_ok_def)
  then have "budget_inv (put_reservation i ?r' b)"
    by (intro put_reservation_inv[OF inv i]) auto
  moreover have "r_next_hold ?r \<notin> set (r_active_holds ?r)" using ok by (auto simp: res_ok_def)
  ultimately show ?thesis using False nr i
    by (auto simp: hold_def with_reservation_def put_reservation_def same_frame_def)
qed

text \<open>The state of a reservation after one of its hold closures ran.\<close>

definition unheld_state :: "hold_id \<Rightarrow> reservation \<Rightarrow> reservation" where
  "unheld_state h r =
     (if h \<notin> set (r_active_holds r) then r
      else r\<lparr>r_active_holds := remove1 h (r_active_holds r), r_holds := r_holds r - 1,
             r_released := (r_requested r \<and> r_holds r = 1)\<rparr>)"

lemma unheld_state_held:
  "h \<in> set (r_active_holds r) \<Longrightarrow> \<not> r_released r \<Longrightarrow> \<not> (r_requested r \<and> r_holds r = 1) \<Longrightarrow>
   unheld_state h r = r\<lparr>r_active_holds := remove1 h (r_active_holds r), r_holds := r_holds r - 1\<rparr>"
  by (cases r) (auto simp: unheld_state_def)

lemma release_hold_ok:
  assumes inv: "budget_inv b" and i: "i < length (b_reservations b)"
  shows "\<exists>b'. release_hold i h b = Inr b' \<and> budget_inv b' \<and> same_frame b b' \<and>
     b_reservations b' = (b_reservations b)[i := unheld_state h (b_reservations b ! i)]"
proof (cases "h \<in> set (r_active_holds (b_reservations b ! i))")
  case False
  then show ?thesis using inv i
    by (simp add: release_hold_def with_reservation_def same_frame_def unheld_state_def)
next
  case True
  let ?r = "b_reservations b ! i"
  let ?r' = "?r\<lparr>r_active_holds := remove1 h (r_active_holds ?r), r_holds := r_holds ?r - 1\<rparr>"
  have ok: "res_ok ?r" using inv i by (rule inv_res_ok)
  have len: "r_holds ?r - 1 = int (length (remove1 h (r_active_holds ?r)))"
    using ok True length_pos_if_in_set[OF True]
    by (simp add: res_ok_def length_remove1 of_nat_diff Suc_le_eq)
  have pos: "0 \<le> r_holds ?r - 1" using len by simp
  have nr: "\<not> r_released ?r" using ok pos by (auto simp: res_ok_def)
  have parts: "distinct (remove1 h (r_active_holds ?r))"
    "\<forall>x \<in> set (remove1 h (r_active_holds ?r)). x < r_next_hold ?r"
    using ok by (auto simp: res_ok_def dest: notin_set_remove1)
  show ?thesis
  proof (cases "r_requested ?r \<and> r_holds ?r = 1")
    case last: True
    have "res_ok (?r'\<lparr>r_released := True\<rparr>)" using last len parts by (simp add: res_ok_def)
    then obtain b' where b': "finalizeRelease i (put_reservation i ?r' b) = Inr b'" "budget_inv b'"
        "b_limits b' = b_limits b" "b_next_token b' = b_next_token b"
        "b_reservations b' = (b_reservations b)[i := ?r'\<lparr>r_released := True\<rparr>]"
      using finalizeRelease_inv[OF inv refl i, of ?r'] nr by auto
    then show ?thesis using True i nr last
      by (auto simp: release_hold_def with_reservation_def Let_def same_frame_def unheld_state_def)
  next
    case more: False
    have "res_ok ?r'" using more len parts nr ok by (auto simp: res_ok_def)
    then have "budget_inv (put_reservation i ?r' b)"
      by (intro put_reservation_inv[OF inv i]) auto
    then show ?thesis using True i nr more pos unheld_state_held[OF True nr more]
      by (auto simp: release_hold_def with_reservation_def Let_def same_frame_def put_reservation_def)
  qed
qed

lemma adjustBreakdown_ok:
  assumes "nonneg_usage (bump (ss_breakdown st own) dm db)" "nonneg_usage (bump (b_breakdown b own) dm db)"
  shows "adjustBreakdown tok st own dm db b =
     Inr (st\<lparr>ss_breakdown := (ss_breakdown st)(own := bump (ss_breakdown st own) dm db)\<rparr>,
          b\<lparr>b_breakdown := (b_breakdown b)(own := bump (b_breakdown b own) dm db),
            b_sessions := AList.update tok
              (st\<lparr>ss_breakdown := (ss_breakdown st)(own := bump (ss_breakdown st own) dm db)\<rparr>) (b_sessions b)\<rparr>)"
  using assms by (simp add: adjustBreakdown_def assertUsage_def Let_def nonneg_usage_def not_less)

text \<open>How a change of owner moves one weight between two classes.\<close>

lemma live_usage_transfer:
  fixes next_own :: owner
  assumes i: "i < length rs" and live: "\<not> r_released (rs ! i)" and ne: "next_own \<noteq> r_owner (rs ! i)"
    and q: "\<And>x. q (x\<lparr>r_owner := next_own\<rparr>) = q x"
  defines "rs' \<equiv> rs[i := (rs ! i)\<lparr>r_owner := next_own\<rparr>]"
  shows "live_usage (\<lambda>x. q x \<and> r_owner x = own) rs' =
     (if \<not> q (rs ! i) then live_usage (\<lambda>x. q x \<and> r_owner x = own) rs
      else if own = r_owner (rs ! i)
        then bump (live_usage (\<lambda>x. q x \<and> r_owner x = own) rs) (- 1) (- r_charged (rs ! i))
      else if own = next_own
        then bump (live_usage (\<lambda>x. q x \<and> r_owner x = own) rs) 1 (r_charged (rs ! i))
      else live_usage (\<lambda>x. q x \<and> r_owner x = own) rs)"
    and "live_usage q rs' = live_usage q rs"
    and "live_sum (\<lambda>_. 1) q rs' = live_sum (\<lambda>_. 1) q rs"
  using i live ne q
  by (auto simp: rs'_def live_usage_def live_sum_update live_weight_def bump_def)

lemma live_usage_ge_elem:
  assumes "\<And>r. r \<in> set rs \<Longrightarrow> 0 \<le> r_charged r" "i < length rs" "\<not> r_released (rs ! i)" "p (rs ! i)"
  shows "nonneg_usage (bump (live_usage p rs) (- 1) (- r_charged (rs ! i)))"
  using live_sum_ge_elem[of rs "\<lambda>_. 1" i p] live_sum_ge_elem[of rs r_charged i p] assms
  by (simp add: nonneg_usage_def live_usage_def)

lemma transfer_ok:
  assumes inv: "budget_inv b" and i: "i < length (b_reservations b)"
  shows "if r_requested (b_reservations b ! i) then transfer i own b = Inl AlreadyReleased
    else \<exists>b'. transfer i own b = Inr b' \<and> budget_inv b' \<and> same_frame b b' \<and>
      b_reservations b' = (b_reservations b)[i := (b_reservations b ! i)\<lparr>r_owner := own\<rparr>]"
proof (cases "r_requested (b_reservations b ! i) \<or> own = r_owner (b_reservations b ! i)")
  case True
  have "(b_reservations b ! i)\<lparr>r_owner := r_owner (b_reservations b ! i)\<rparr> = b_reservations b ! i" by simp
  then show ?thesis using True i inv inv_res_ok[OF inv i]
    by (auto simp: transfer_def with_reservation_def same_frame_def res_ok_def)
next
  case False
  let ?rs = "b_reservations b" and ?r = "b_reservations b ! i"
  let ?t = "r_session ?r" and ?o = "r_owner ?r"
  let ?rs' = "?rs[i := ?r\<lparr>r_owner := own\<rparr>]"
  let ?view = "\<lambda>rs. \<lparr>ss_usage = live_usage (\<lambda>x. r_session x = ?t) rs,
        ss_breakdown = (\<lambda>w. live_usage (\<lambda>x. r_session x = ?t \<and> r_owner x = w) rs)\<rparr>"
  have c: "counters_ok b" and ok: "res_ok ?r"
    using inv inv_res_ok[OF inv i] by (simp_all add: budget_inv_def)
  have nr: "\<not> r_released ?r" and ne: "own \<noteq> ?o" using ok False by (auto simp: res_ok_def)
  have ok': "res_ok (?r\<lparr>r_owner := own\<rparr>)" using ok by (simp add: res_ok_def)
  note ch = counters_charges[OF c]
  have "1 \<le> live_sum (\<lambda>_. 1) (\<lambda>x. r_session x = ?t) ?rs"
    using live_sum_ge_elem[of ?rs "\<lambda>_. 1" i] i nr by simp
  then have look: "map_of (b_sessions b) ?t = Some (?view ?rs)"
    and brk: "b_breakdown b = (\<lambda>w. live_usage (\<lambda>x. r_owner x = w) ?rs)"
    and mp: "map_of (b_sessions b) = session_view ?rs"
    using c by (auto simp: counters_ok_def session_view_def)
  note T = live_usage_transfer[OF i nr ne]
  note G = live_usage_ge_elem[OF ch i nr]
  have nnb: "nonneg_usage (bump (live_usage p ?rs) 1 (r_charged ?r))" for p
    using live_usage_nonneg[OF ch] ch[of ?r] i by (simp add: nonneg_usage_def)
  have st2: "(?view ?rs)\<lparr>ss_breakdown := ((ss_breakdown (?view ?rs))
        (?o := bump (ss_breakdown (?view ?rs) ?o) (- 1) (- r_charged ?r)))
        (own := bump (ss_breakdown (?view ?rs) own) 1 (r_charged ?r))\<rparr> = ?view ?rs'"
    using ne T(1)[of "\<lambda>x. r_session x = ?t"] T(2)[of "\<lambda>x. r_session x = ?t"]
    by (simp add: fun_eq_iff)
  have brk2: "((b_breakdown b)(?o := bump (b_breakdown b ?o) (- 1) (- r_charged ?r)))
        (own := bump (b_breakdown b own) 1 (r_charged ?r)) = (\<lambda>w. live_usage (\<lambda>x. r_owner x = w) ?rs')"
    using ne T(1)[of "\<lambda>_. True"] by (simp add: fun_eq_iff brk)
  define b' where "b' = b\<lparr>b_breakdown := (\<lambda>w. live_usage (\<lambda>x. r_owner x = w) ?rs'),
      b_sessions := AList.update ?t (?view ?rs') (b_sessions b), b_reservations := ?rs'\<rparr>"
  have eval: "transfer i own b = Inr b'"
    using False nr i look G[of "\<lambda>x. r_session x = ?t \<and> r_owner x = ?o"] G[of "\<lambda>x. r_owner x = ?o"] ne
      nnb[of "\<lambda>x. r_session x = ?t \<and> r_owner x = own"] nnb[of "\<lambda>x. r_owner x = own"] st2 brk2
    by (simp add: transfer_def with_reservation_def adjustBreakdown_ok brk put_reservation_def b'_def)
  have view: "session_view ?rs' t = (if t = ?t then Some (?view ?rs') else session_view ?rs t)" for t
    using look T[of "\<lambda>x. r_session x = t"] by (auto simp: session_view_def mp)
  have "\<forall>x \<in> set ?rs'. 0 \<le> r_charged x" by (rule ball_set_update[OF i]) (use ch i in auto)
  then have "counters_ok b'"
    using c T(2)[of "\<lambda>_. True"] view
    by (simp add: counters_ok_def charges_ok_def b'_def alist_simps fun_eq_iff)
  moreover have "within_limits b'"
    using inv within_limits_view[OF c] within_limits_view[OF \<open>counters_ok b'\<close>] i
    by (simp add: budget_inv_def b'_def live_sum_update live_weight_def)
  moreover have "\<forall>x \<in> set (b_reservations b'). res_ok x"
    using ball_set_update[OF i, of res_ok "?r\<lparr>r_owner := own\<rparr>"] inv ok'
    by (simp add: budget_inv_def b'_def)
  ultimately show ?thesis using False eval by (auto simp: budget_inv_def same_frame_def b'_def)
qed

definition fits :: "budget \<Rightarrow> session_token \<Rightarrow> int \<Rightarrow> bool" where
  "fits b tok c \<longleftrightarrow>
     messages (usage_of_token b tok) + 1 \<le> maxMessagesPerSession (b_limits b) \<and>
     bytes (usage_of_token b tok) + c \<le> maxBytesPerSession (b_limits b) \<and>
     messages (b_usage b) + 1 \<le> maxMessagesPerProcess (b_limits b) \<and>
     bytes (b_usage b) + c \<le> maxBytesPerProcess (b_limits b)"

definition new_reservation :: "session_token \<Rightarrow> int \<Rightarrow> owner \<Rightarrow> reservation" where
  "new_reservation tok c own =
     \<lparr>r_session = tok, r_charged = c, r_owner = own, r_released = False,
      r_requested = False, r_holds = 0, r_active_holds = [], r_next_hold = 0\<rparr>"

lemma session_lookup_view:
  assumes "counters_ok b"
  shows "(case map_of (b_sessions b) t of Some st \<Rightarrow> st
          | None \<Rightarrow> \<lparr>ss_usage = zeroUsage, ss_breakdown = zeroBreakdown\<rparr>)
     = \<lparr>ss_usage = live_usage (\<lambda>x. r_session x = t) (b_reservations b),
        ss_breakdown = (\<lambda>own. live_usage (\<lambda>x. r_session x = t \<and> r_owner x = own) (b_reservations b))\<rparr>"
proof (cases "live_sum (\<lambda>_. 1) (\<lambda>x. r_session x = t) (b_reservations b) = 0")
  case True
  note ch = counters_charges[OF assms]
  have "live_sum (\<lambda>_. 1) (\<lambda>x. r_session x = t \<and> r_owner x = own) (b_reservations b) = 0" for own
    using True live_sum_mono[of "b_reservations b" "\<lambda>_. 1" "\<lambda>x. r_session x = t \<and> r_owner x = own" "\<lambda>x. r_session x = t"]
      live_sum_nonneg[of "b_reservations b" "\<lambda>_. 1" "\<lambda>x. r_session x = t \<and> r_owner x = own"] by simp
  then show ?thesis
    using True assms live_usage_zero[OF ch]
    by (simp add: counters_ok_def session_view_def zeroBreakdown_def)
next
  case False
  then show ?thesis using assms by (simp add: counters_ok_def session_view_def)
qed

lemma tryReserve_accept:
  assumes inv: "budget_inv b" and c: "safe_nonneg charge = Some c" and fit: "fits b tok c"
  shows "\<exists>b'. tryReserve tok charge own b = Inr (Accepted (length (b_reservations b)), b') \<and>
     budget_inv b' \<and> b_limits b' = b_limits b \<and> b_next_token b' = b_next_token b \<and>
     b_reservations b' = b_reservations b @ [new_reservation tok c own]"
proof -
  let ?rs = "b_reservations b" and ?r = "new_reservation tok c own"
  let ?rs' = "?rs @ [?r]"
  let ?st = "\<lparr>ss_usage = live_usage (\<lambda>x. r_session x = r_session ?r) ?rs,
        ss_breakdown = (\<lambda>w. live_usage (\<lambda>x. r_session x = r_session ?r \<and> r_owner x = w) ?rs)\<rparr>"
  let ?b1 = "adjusted_budget (r_session ?r) ?st (r_owner ?r) 1 (r_charged ?r * 1) b"
  have ok: "counters_ok b" using inv by (simp add: budget_inv_def)
  have sums: "\<And>f p. live_sum f p ?rs' = live_sum f p ?rs + (if p ?r then f ?r else 0) * 1"
    by (simp add: live_sum_append live_weight_def new_reservation_def)
  have ch: "\<And>x. x \<in> set ?rs' \<Longrightarrow> 0 \<le> r_charged x"
    using counters_charges[OF ok] safe_nonneg_SomeD[OF c] by (auto simp: new_reservation_def)
  have pos: "live_sum (\<lambda>_. 1) (\<lambda>x. r_session x = r_session ?r) ?rs' \<noteq> 0"
    using sums[of "\<lambda>_. 1" "\<lambda>x. r_session x = r_session ?r"]
      live_sum_nonneg[of ?rs "\<lambda>_. 1" "\<lambda>x. r_session x = r_session ?r"] by simp
  define b' where "b' = ?b1\<lparr>b_reservations := ?rs'\<rparr>"
  note A = counters_ok_adjust[OF ok sums ch refl refl refl]
  have c': "counters_ok b'" using A(2) pos by (simp add: b'_def)
  have sel: "r_session ?r = tok" "r_charged ?r = c" "r_owner ?r = own" by (simp_all add: new_reservation_def)
  have eval: "tryReserve tok charge own b = Inr (Accepted (length ?rs), b')"
    using fit c A(1) session_lookup_view[OF ok, of tok]
    by (simp add: tryReserve_def fits_def Let_def not_less sel b'_def adjusted_budget_def
        new_reservation_def[symmetric] del: safe_nonneg.simps)
  have lim: "within_limits b'"
    using inv fit c' within_limits_view[OF ok] within_limits_view[OF c'] usage_of_token_view[OF ok, of tok] ok
    by (auto simp: budget_inv_def fits_def b'_def adjusted_budget_def sums sel live_usage_def counters_ok_def)
  have "res_ok ?r" by (simp add: res_ok_def new_reservation_def)
  then have "budget_inv b'" using c' lim inv by (auto simp: budget_inv_def b'_def)
  then show ?thesis using eval by (simp add: b'_def adjusted_budget_def)
qed

lemma tryReserve_reject:
  assumes "safe_nonneg charge = Some c" and "\<not> fits b tok c"
  shows "\<exists>reason. tryReserve tok charge own b = Inr (Rejected reason, b)"
  using assms by (auto simp: tryReserve_def fits_def Let_def not_le del: safe_nonneg.simps)

lemma tryReserve_invalid:
  "safe_nonneg charge = None \<Longrightarrow> tryReserve tok charge own b = Inl (NotSafeNonNegative ''chargedBytes'')"
  by (simp add: tryReserve_def del: safe_nonneg.simps)

section \<open>Sequences of operations\<close>

text \<open>
  The callers of the budget interleave these operations in any order; a call that
  throws leaves the budget as it found it.
\<close>

datatype retention_op =
    NewToken
  | TryReserve session_token js_number owner
  | Hold rid
  | ReleaseHold rid hold_id
  | Transfer rid owner
  | RequestRelease rid
  | Release rid

fun retention_run :: "retention_op \<Rightarrow> budget \<Rightarrow> retention_error + budget" where
  "retention_run NewToken b = Inr (snd (createSessionToken b))"
| "retention_run (TryReserve t c own) b = bindE (tryReserve t c own b) (\<lambda>(_, b'). Inr b')"
| "retention_run (Hold i) b = bindE (hold i b) (\<lambda>(_, b'). Inr b')"
| "retention_run (ReleaseHold i h) b = release_hold i h b"
| "retention_run (Transfer i own) b = transfer i own b"
| "retention_run (RequestRelease i) b = requestRelease i b"
| "retention_run (Release i) b = release i b"

definition caller_error :: "retention_error \<Rightarrow> bool" where
  "caller_error e \<longleftrightarrow> e \<in> {NotSafeNonNegative ''chargedBytes'', HoldOfReleased, AlreadyReleased,
     ReleasedMoreThanOnce, NoSuchReservation}"

inductive reachable_budget :: "budget \<Rightarrow> bool" where
  created: "newInboundRetentionBudget l = Inr b \<Longrightarrow> reachable_budget b"
| performed: "reachable_budget b \<Longrightarrow> retention_run oper b = Inr b' \<Longrightarrow> reachable_budget b'"

lemma validateLimits_nonneg:
  "validateLimits l = Inr v \<Longrightarrow> 0 \<le> maxMessagesPerSession v \<and> 0 \<le> maxBytesPerSession v \<and>
     0 \<le> maxMessagesPerProcess v \<and> 0 \<le> maxBytesPerProcess v"
  by (auto simp: validateLimits_def exc_simps split: option.splits dest!: safe_nonneg_SomeD)

lemma fresh_budget_inv:
  assumes "validateLimits l = Inr v"
  shows "budget_inv (fresh_budget v)"
  using validateLimits_nonneg[OF assms]
  by (auto simp: budget_inv_def within_limits_def counters_ok_def charges_ok_def fresh_budget_def
      live_usage_def live_sum_def session_view_def usage_of_token_def zeroUsage_def zeroBreakdown_def)

lemma budget_inv_new_token: "budget_inv (b\<lparr>b_next_token := n\<rparr>) = budget_inv b"
  by (simp add: budget_inv_def counters_ok_def charges_ok_def within_limits_def usage_of_token_def)

lemma retention_run_step:
  assumes inv: "budget_inv b"
  shows "case retention_run oper b of Inr b' \<Rightarrow> budget_inv b' \<and> b_limits b' = b_limits b | Inl e \<Rightarrow> caller_error e"
proof -
  have bad: "case with_reservation i b f of Inr b' \<Rightarrow> P b' | Inl e \<Rightarrow> caller_error e"
    if "\<not> i < length (b_reservations b)" for i and f :: "reservation \<Rightarrow> retention_error + 'x" and P
    using that by (simp add: with_reservation_def caller_error_def)
  show ?thesis
  proof (cases oper)
    case NewToken
    then show ?thesis using inv by (simp add: createSessionToken_def budget_inv_new_token)
  next
    case (TryReserve t c own)
    show ?thesis
    proof (cases "safe_nonneg c")
      case None
      then show ?thesis using TryReserve by (simp add: tryReserve_invalid caller_error_def)
    next
      case (Some n)
      then show ?thesis
        using TryReserve inv tryReserve_accept[OF inv Some, of t own] tryReserve_reject[OF Some, of b t own]
        by (cases "fits b t n") auto
    qed
  next
    case (Hold i)
    then show ?thesis using hold_ok[OF inv, of i] bad[of i]
      by (cases "i < length (b_reservations b)")
        (auto simp: same_frame_def caller_error_def hold_def with_reservation_def split: if_splits)
  next
    case (ReleaseHold i h)
    then show ?thesis using release_hold_ok[OF inv, of i h] bad[of i]
      by (cases "i < length (b_reservations b)") (auto simp: same_frame_def release_hold_def)
  next
    case (Transfer i own)
    then show ?thesis using transfer_ok[OF inv, of i own] bad[of i]
      by (cases "i < length (b_reservations b)")
        (auto simp: same_frame_def transfer_def caller_error_def split: if_splits)
  next
    case (RequestRelease i)
    then show ?thesis using requestRelease_ok[OF inv, of i] bad[of i]
      by (cases "i < length (b_reservations b)") (auto simp: same_frame_def requestRelease_def)
  next
    case (Release i)
    then show ?thesis using release_ok[OF inv, of i] bad[of i]
      by (cases "i < length (b_reservations b)")
        (auto simp: same_frame_def release_def caller_error_def split: if_splits)
  qed
qed

lemma reachable_budget_inv: "reachable_budget b \<Longrightarrow> budget_inv b"
proof (induction rule: reachable_budget.induct)
  case (created l b)
  then show ?case by (auto simp: newInboundRetentionBudget_def exc_simps fresh_budget_inv)
next
  case (performed b oper b')
  then show ?case using retention_run_step[of b oper] by simp
qed

section \<open>The interface the queue and the debouncer rely on\<close>

definition valid_rid :: "rid \<Rightarrow> budget \<Rightarrow> bool" where
  "valid_rid i b \<longleftrightarrow> i < length (b_reservations b)"

definition rid_requested :: "rid \<Rightarrow> budget \<Rightarrow> bool" where
  "rid_requested i b \<longleftrightarrow> r_requested (b_reservations b ! i)"

definition hold_valid :: "rid \<times> hold_id \<Rightarrow> budget \<Rightarrow> bool" where
  "hold_valid ih b \<longleftrightarrow> valid_rid (fst ih) b"

definition hold_dropped :: "rid \<times> hold_id \<Rightarrow> budget \<Rightarrow> bool" where
  "hold_dropped ih b \<longleftrightarrow> snd ih \<notin> set (r_active_holds (b_reservations b ! fst ih))"

lemma requestRelease_Inr:
  assumes "budget_inv b" "valid_rid i b" "requestRelease i b = Inr b'"
  shows "budget_inv b'" "same_frame b b'"
    and "b_reservations b' = (if r_requested (b_reservations b ! i) then b_reservations b
        else (b_reservations b)[i := requested_state (b_reservations b ! i)])"
  using requestRelease_ok[OF assms(1), of i] assms(2,3) by (auto simp: valid_rid_def)

lemma release_hold_Inr:
  assumes "budget_inv b" "valid_rid i b" "release_hold i h b = Inr b'"
  shows "budget_inv b'" "same_frame b b'"
    and "b_reservations b' = (b_reservations b)[i := unheld_state h (b_reservations b ! i)]"
  using release_hold_ok[OF assms(1), of i h] assms(2,3) by (auto simp: valid_rid_def)

interpretation rel: settling_step requestRelease budget_inv valid_rid rid_requested
proof unfold_locales
  fix b i
  assume "budget_inv b" "valid_rid i b"
  then show "\<exists>b'. requestRelease i b = Inr b' \<and> budget_inv b'"
    using requestRelease_ok[of b i] by (auto simp: valid_rid_def)
next
  fix b i j b'
  assume "budget_inv b" "valid_rid i b" "valid_rid j b" "requestRelease i b = Inr b'"
  then show "valid_rid j b'" using requestRelease_Inr(2)[of b i b'] by (simp add: valid_rid_def same_frame_def)
next
  fix b i b'
  assume a: "budget_inv b" "valid_rid i b" "requestRelease i b = Inr b'"
  then show "rid_requested i b'"
    using requestRelease_Inr(3)[OF a] by (auto simp: rid_requested_def valid_rid_def requested_state_def)
next
  fix b i j b'
  assume a: "budget_inv b" "valid_rid i b" "valid_rid j b" "rid_requested j b" "requestRelease i b = Inr b'"
  then show "rid_requested j b'"
    using requestRelease_Inr(3)[OF a(1,2,5)]
    by (cases "i = j") (auto simp: rid_requested_def valid_rid_def)
next
  fix b i j b'
  assume a: "budget_inv b" "valid_rid i b" "valid_rid j b" "requestRelease i b = Inr b'" "rid_requested j b'"
  then show "j = i \<or> rid_requested j b"
    using requestRelease_Inr(3)[OF a(1,2,4)] by (cases "i = j") (auto simp: rid_requested_def valid_rid_def split: if_splits)
qed

interpretation unhold: settling_step "\<lambda>ih b. release_hold (fst ih) (snd ih) b" budget_inv hold_valid hold_dropped
proof unfold_locales
  fix b and x :: "rid \<times> hold_id"
  assume "budget_inv b" "hold_valid x b"
  then show "\<exists>b'. release_hold (fst x) (snd x) b = Inr b' \<and> budget_inv b'"
    using release_hold_ok[of b "fst x" "snd x"] by (auto simp: hold_valid_def valid_rid_def)
next
  fix b b' and x y :: "rid \<times> hold_id"
  assume "budget_inv b" "hold_valid x b" "hold_valid y b" "release_hold (fst x) (snd x) b = Inr b'"
  then show "hold_valid y b'"
    using release_hold_Inr(2)[of b "fst x" "snd x" b'] by (simp add: hold_valid_def valid_rid_def same_frame_def)
next
  fix b b' and x :: "rid \<times> hold_id"
  assume a: "budget_inv b" "hold_valid x b" "release_hold (fst x) (snd x) b = Inr b'"
  have v: "valid_rid (fst x) b" using a by (simp add: hold_valid_def)
  have d: "distinct (r_active_holds (b_reservations b ! fst x))"
    using inv_res_ok[OF a(1), of "fst x"] v by (simp add: valid_rid_def res_ok_def)
  show "hold_dropped x b'"
    using release_hold_Inr(3)[OF a(1) v a(3)] v d
    by (auto simp: hold_dropped_def valid_rid_def unheld_state_def)
next
  fix b b' and x y :: "rid \<times> hold_id"
  assume a: "budget_inv b" "hold_valid x b" "hold_valid y b" "hold_dropped y b"
    "release_hold (fst x) (snd x) b = Inr b'"
  have v: "valid_rid (fst x) b" using a by (simp add: hold_valid_def)
  show "hold_dropped y b'"
    using release_hold_Inr(3)[OF a(1) v a(5)] v a(4)
    by (cases "fst x = fst y")
      (auto simp: hold_dropped_def valid_rid_def unheld_state_def dest: notin_set_remove1)
next
  fix b b' and x y :: "rid \<times> hold_id"
  assume a: "budget_inv b" "hold_valid x b" "hold_valid y b" "release_hold (fst x) (snd x) b = Inr b'" "hold_dropped y b'"
  have v: "valid_rid (fst x) b" using a by (simp add: hold_valid_def)
  show "y = x \<or> hold_dropped y b"
    using release_hold_Inr(3)[OF a(1) v a(4)] v a(5)
    by (cases "fst x = fst y"; cases "snd x = snd y")
      (auto simp: hold_dropped_def valid_rid_def unheld_state_def prod_eq_iff in_set_remove1 split: if_splits)
qed

section \<open>The pressure log\<close>

record pressure_event =
  pe_accountId :: string
  pe_internalReason :: limit_reason
  pe_rejectedMessages :: int
  pe_rejectedChargedBytes :: int
  pe_snapshot :: retention_snapshot

fun show_reason :: "limit_reason \<Rightarrow> string" where
  "show_reason SessionMessageCount = ''session-message-count''"
| "show_reason SessionByteCount = ''session-byte-count''"
| "show_reason ProcessMessageCount = ''process-message-count''"
| "show_reason ProcessByteCount = ''process-byte-count''"

record pressure_state =
  ps_lastAt :: int
  ps_suppressed :: int

type_synonym pressure_log = "(string, pressure_state) js_map"

definition pressure_key :: "pressure_event \<Rightarrow> string" where
  "pressure_key e = length_prefixed (pe_accountId e) (CHR '':'' # show_reason (pe_internalReason e))"

definition pressure_line :: "pressure_event \<Rightarrow> int \<Rightarrow> string" where
  "pressure_line e suppressed =
     (let p = sn_process (pe_snapshot e); s = sn_session (pe_snapshot e);
          k = sn_breakdown (pe_snapshot e); l = sn_limits (pe_snapshot e)
      in ''webchannel: inbound retained-work pressure '' @
         ''accountId='' @ pe_accountId e @ '' internalReason='' @ show_reason (pe_internalReason e) @ '' '' @
         ''rejectedMessages='' @ show_int (pe_rejectedMessages e) @
         '' rejectedChargedBytes='' @ show_int (pe_rejectedChargedBytes e) @ '' '' @
         ''sessionRetainedMessages='' @ show_int (messages s) @
         '' sessionRetainedBytes='' @ show_int (bytes s) @ '' '' @
         ''processRetainedMessages='' @ show_int (messages p) @
         '' processRetainedBytes='' @ show_int (bytes p) @ '' '' @
         ''debounceWaiting='' @ show_int (messages (k DebounceWaiting)) @ '' '' @
         ''debounceInflight='' @ show_int (messages (k DebounceInflight)) @ '' '' @
         ''dispatcherPending='' @ show_int (messages (k PendingOwner)) @ '' '' @
         ''maxMessagesPerSession='' @ show_int (maxMessagesPerSession l) @
         '' maxBytesPerSession='' @ show_int (maxBytesPerSession l) @ '' '' @
         ''maxMessagesPerProcess='' @ show_int (maxMessagesPerProcess l) @
         '' maxBytesPerProcess='' @ show_int (maxBytesPerProcess l) @ '' '' @
         ''suppressed='' @ show_int suppressed)"

text \<open>\<^verbatim>\<open>record(event)\<close> at time \<open>now\<close>: the warning, if one is emitted (the returned
  boolean is whether it was), and the next state.\<close>

definition pressure_record ::
  "int \<Rightarrow> int \<Rightarrow> pressure_event \<Rightarrow> pressure_log \<Rightarrow> string option \<times> pressure_log" where
  "pressure_record intervalMs now e log =
     (let key = pressure_key e in
      case map_of log key of
        Some st \<Rightarrow>
          if now - ps_lastAt st < intervalMs
          then (None, AList.update key (st\<lparr>ps_suppressed := ps_suppressed st + pe_rejectedMessages e\<rparr>) log)
          else (Some (pressure_line e (ps_suppressed st)),
                AList.update key \<lparr>ps_lastAt = now, ps_suppressed = 0\<rparr> log)
      | None \<Rightarrow> (Some (pressure_line e 0), AList.update key \<lparr>ps_lastAt = now, ps_suppressed = 0\<rparr> log))"

text \<open>The counter a warning for this event would report.\<close>

definition pending_suppressed :: "string \<Rightarrow> pressure_log \<Rightarrow> int" where
  "pending_suppressed key log = (case map_of log key of Some st \<Rightarrow> ps_suppressed st | None \<Rightarrow> 0)"

lemma show_reason_inj: "show_reason a = show_reason b \<longleftrightarrow> a = b"
  by (cases a; cases b) simp_all

section \<open>Properties\<close>

lemma reachable_budget_foldE:
  "reachable_budget b0 \<Longrightarrow> foldE retention_run ops b0 = Inr b \<Longrightarrow> reachable_budget b"
  by (induction ops arbitrary: b0) (auto simp: exc_simps intro: performed)

lemma live_sum_filter: "live_sum f p rs = sum_list (map f (filter (\<lambda>r. \<not> r_released r \<and> p r) rs))"
  by (induction rs) (auto simp: live_sum_def live_weight_def)

lemma live_usage_filter:
  "messages (live_usage p rs) = int (length (filter (\<lambda>r. \<not> r_released r \<and> p r) rs))"
  "bytes (live_usage p rs) = sum_list (map r_charged (filter (\<lambda>r. \<not> r_released r \<and> p r) rs))"
  by (simp_all add: live_usage_def live_sum_filter sum_list_triv)

text \<open>C1: In every state the budget can reach, whatever the order of reservations,
  holds, transfers and releases, the counters of every session and of the whole process are exactly
  the number and the charges of the reservations that are not released, and never exceed the
  validated limits.\<close>

theorem retention_hard_bounds:
  assumes "reachable_budget b"
  shows "messages (usage_query b (Some t)) = int (length (filter (\<lambda>r. \<not> r_released r \<and> r_session r = t) (b_reservations b))) \<and>
     bytes (usage_query b (Some t)) = sum_list (map r_charged (filter (\<lambda>r. \<not> r_released r \<and> r_session r = t) (b_reservations b))) \<and>
     messages (usage_query b None) = int (length (filter (\<lambda>r. \<not> r_released r) (b_reservations b))) \<and>
     bytes (usage_query b None) = sum_list (map r_charged (filter (\<lambda>r. \<not> r_released r) (b_reservations b))) \<and>
     0 \<le> messages (usage_query b (Some t)) \<and>
     messages (usage_query b (Some t)) \<le> maxMessagesPerSession (b_limits b) \<and>
     0 \<le> bytes (usage_query b (Some t)) \<and>
     bytes (usage_query b (Some t)) \<le> maxBytesPerSession (b_limits b) \<and>
     0 \<le> messages (usage_query b None) \<and>
     messages (usage_query b None) \<le> maxMessagesPerProcess (b_limits b) \<and>
     0 \<le> bytes (usage_query b None) \<and>
     bytes (usage_query b None) \<le> maxBytesPerProcess (b_limits b)"
proof -
  have inv: "budget_inv b" using assms by (rule reachable_budget_inv)
  then have c: "counters_ok b" by (simp add: budget_inv_def)
  note ch = counters_charges[OF c]
  have u: "b_usage b = live_usage (\<lambda>_. True) (b_reservations b)" using c by (simp add: counters_ok_def)
  have bounds: "0 \<le> messages (usage_query b (Some t)) \<and>
     messages (usage_query b (Some t)) \<le> maxMessagesPerSession (b_limits b) \<and>
     0 \<le> bytes (usage_query b (Some t)) \<and>
     bytes (usage_query b (Some t)) \<le> maxBytesPerSession (b_limits b) \<and>
     0 \<le> messages (usage_query b None) \<and>
     messages (usage_query b None) \<le> maxMessagesPerProcess (b_limits b) \<and>
     0 \<le> bytes (usage_query b None) \<and>
     bytes (usage_query b None) \<le> maxBytesPerProcess (b_limits b)"
    using inv live_usage_nonneg[OF ch]
    by (simp add: budget_inv_def within_limits_def usage_of_token_view[OF c] u)
  have "usage_query b (Some t) = live_usage (\<lambda>r. r_session r = t) (b_reservations b)" "usage_query b None = live_usage (\<lambda>_. True) (b_reservations b)"
    using usage_of_token_view[OF c] u by simp_all
  then show ?thesis using bounds by (simp add: live_usage_filter)
qed

theorem retention_hard_bounds_witness:
  "\<exists>b. reachable_budget b \<and> messages (usage_query b (Some 0)) = 1 \<and>
     bytes (usage_query b None) \<le> maxBytesPerProcess (b_limits b)"
proof -
  let ?l = "\<lparr>maxMessagesPerSession = JsInt 1, maxBytesPerSession = JsInt 300,
      maxMessagesPerProcess = JsInt 2, maxBytesPerProcess = JsInt 400\<rparr>"
  obtain b0 where b0: "newInboundRetentionBudget ?l = Inr b0"
      "b0 = fresh_budget \<lparr>maxMessagesPerSession = 1, maxBytesPerSession = 300,
        maxMessagesPerProcess = 2, maxBytesPerProcess = 400\<rparr>"
    by (simp add: newInboundRetentionBudget_def validateLimits_def safe_nonneg_int_def max_safe_integer_def)
  obtain b where b: "retention_run (TryReserve 0 (JsInt 270) DebounceWaiting) b0 = Inr b"
      "messages (usage_query b (Some 0)) = 1"
    by (simp add: b0(2) tryReserve_def fresh_budget_def usage_of_token_def zeroUsage_def zeroBreakdown_def
        safe_nonneg_int_def max_safe_integer_def adjust_def adjustBreakdown_def bump_def assertUsage_def Let_def)
  have r: "reachable_budget b" using created[OF b0(1)] b(1) by (rule performed)
  show ?thesis using r b(2) retention_hard_bounds[OF r, of 0] by blast
qed

text \<open>The "retention invariant" errors of the code are unreachable: in a reachable
  budget an operation only fails because its caller passed an invalid charge or used a
  reservation whose release was already asked for (or that does not exist).\<close>

theorem retention_internal_errors_unreachable:
  assumes "reachable_budget b" and "retention_run oper b = Inl e"
  shows "e \<notin> {ReleaseHasNoSession, LiveHasNoSession, HoldUnderflow} \<and> (\<forall>sc. e \<noteq> UsageUnderflow sc)"
  using retention_run_step[OF reachable_budget_inv[OF assms(1)], of oper] assms(2)
  by (auto simp: caller_error_def)

theorem retention_internal_errors_unreachable_witness:
  "\<exists>b. reachable_budget b \<and> retention_run (Release 0) b = Inl NoSuchReservation \<and>
     NoSuchReservation \<noteq> HoldUnderflow"
proof -
  let ?l = "\<lparr>maxMessagesPerSession = JsInt 1, maxBytesPerSession = JsInt 1,
      maxMessagesPerProcess = JsInt 1, maxBytesPerProcess = JsInt 1\<rparr>"
  obtain b where b: "newInboundRetentionBudget ?l = Inr b" "retention_run (Release 0) b = Inl NoSuchReservation"
    by (simp add: newInboundRetentionBudget_def validateLimits_def safe_nonneg_int_def
        max_safe_integer_def release_def with_reservation_def fresh_budget_def)
  have "reachable_budget b" using b(1) by (rule created)
  then show ?thesis using b(2) retention_internal_errors_unreachable[of b "Release 0"] by auto
qed

text \<open>C22: Admission is exact. A valid charge is accepted if and only if the totals of
  the live reservations, with the new message added, stay within all four limits; an
  accepted reservation raises its session's and the process usage by exactly its charge,
  and a rejection changes nothing and names the first limit that would be exceeded: the messages of
  the session, its bytes, the messages of the process, its bytes.\<close>

theorem tryReserve_exact:
  assumes r: "reachable_budget b" and c: "safe_nonneg charge = Some c"
  shows "if fits b tok c
     then \<exists>b'. tryReserve tok charge own b = Inr (Accepted (length (b_reservations b)), b') \<and>
        usage_query b' None = bump (usage_query b None) 1 c \<and>
        usage_query b' (Some t) = (if t = tok then bump (usage_query b (Some t)) 1 c else usage_query b (Some t))
     else \<exists>reason. tryReserve tok charge own b = Inr (Rejected reason, b) \<and>
        (reason = SessionMessageCount \<longleftrightarrow> messages (usage_query b (Some tok)) + 1 > maxMessagesPerSession (b_limits b)) \<and>
        (reason = SessionByteCount \<longleftrightarrow> messages (usage_query b (Some tok)) + 1 \<le> maxMessagesPerSession (b_limits b) \<and>
           bytes (usage_query b (Some tok)) + c > maxBytesPerSession (b_limits b)) \<and>
        (reason = ProcessMessageCount \<longleftrightarrow> messages (usage_query b (Some tok)) + 1 \<le> maxMessagesPerSession (b_limits b) \<and>
           bytes (usage_query b (Some tok)) + c \<le> maxBytesPerSession (b_limits b) \<and>
           messages (usage_query b None) + 1 > maxMessagesPerProcess (b_limits b)) \<and>
        (reason = ProcessByteCount \<longleftrightarrow> messages (usage_query b (Some tok)) + 1 \<le> maxMessagesPerSession (b_limits b) \<and>
           bytes (usage_query b (Some tok)) + c \<le> maxBytesPerSession (b_limits b) \<and>
           messages (usage_query b None) + 1 \<le> maxMessagesPerProcess (b_limits b) \<and>
           bytes (usage_query b None) + c > maxBytesPerProcess (b_limits b))"
proof (cases "fits b tok c")
  case True
  have inv: "budget_inv b" using r by (rule reachable_budget_inv)
  obtain b' where b': "tryReserve tok charge own b = Inr (Accepted (length (b_reservations b)), b')"
      "budget_inv b'" "b_reservations b' = b_reservations b @ [new_reservation tok c own]"
    using tryReserve_accept[OF inv c True, of own] by blast
  have cs: "counters_ok b" "counters_ok b'" using inv b' by (simp_all add: budget_inv_def)
  have "usage_query b' None = bump (usage_query b None) 1 c"
    using cs b'(3)
    by (simp add: counters_ok_def live_usage_def live_sum_append live_weight_def new_reservation_def bump_def)
  moreover have "usage_query b' (Some t) = (if t = tok then bump (usage_query b (Some t)) 1 c else usage_query b (Some t))"
    by (simp add: usage_of_token_view[OF cs(1)] usage_of_token_view[OF cs(2)] b'(3) live_usage_def
        live_sum_append live_weight_def new_reservation_def bump_def)
  ultimately show ?thesis using True b'(1) by simp
next
  case False
  then show ?thesis using c by (auto simp: tryReserve_def fits_def Let_def not_le del: safe_nonneg.simps)
qed

theorem tryReserve_exact_witness:
  "\<exists>b. reachable_budget b \<and> safe_nonneg (JsInt 2) = Some 2 \<and>
     tryReserve 7 (JsInt 2) PendingOwner b = Inr (Rejected SessionByteCount, b)"
proof -
  let ?l = "\<lparr>maxMessagesPerSession = JsInt 1, maxBytesPerSession = JsInt 1,
      maxMessagesPerProcess = JsInt 1, maxBytesPerProcess = JsInt 1\<rparr>"
  obtain b where b: "newInboundRetentionBudget ?l = Inr b" "\<not> fits b 7 2"
      "tryReserve 7 (JsInt 2) PendingOwner b = Inr (Rejected SessionByteCount, b)"
    by (simp add: newInboundRetentionBudget_def validateLimits_def safe_nonneg_int_def max_safe_integer_def
        fits_def fresh_budget_def usage_of_token_def zeroUsage_def tryReserve_def Let_def)
  have r: "reachable_budget b" using b(1) by (rule created)
  have s: "safe_nonneg (JsInt 2) = Some 2" by (simp add: safe_nonneg_int_def max_safe_integer_def)
  show ?thesis using r s b(3) tryReserve_exact[OF r s, of 7 PendingOwner 0] b(2) by auto
qed

text \<open>A hold keeps work charged. While a hold on a reservation is open, asking for
  its release changes no usage at all; dropping that hold afterwards frees exactly the
  reservation's charge when it was the last hold, and nothing otherwise.\<close>

theorem hold_defers_release:
  assumes r: "reachable_budget b" and h: "hold i b = Inr (h, b1)"
    and q: "requestRelease i b1 = Inr b2" and u: "release_hold i h b2 = Inr b3"
  shows "usage_query b2 None = usage_query b None \<and> usage_query b2 (Some t) = usage_query b (Some t) \<and>
     usage_query b3 None =
       (if r_active_holds (b_reservations b ! i) = []
        then bump (usage_query b None) (- 1) (- r_charged (b_reservations b ! i))
        else usage_query b None)"
proof -
  let ?rs = "b_reservations b" and ?r = "b_reservations b ! i"
  have inv: "budget_inv b" using r by (rule reachable_budget_inv)
  have i: "i < length ?rs" using h by (auto simp: hold_def with_reservation_def split: if_splits)
  have nq: "\<not> r_requested ?r" using h i by (auto simp: hold_def with_reservation_def split: if_splits)
  have ok: "res_ok ?r" using inv i by (rule inv_res_ok)
  then have nr: "\<not> r_released ?r" and hs: "r_holds ?r = int (length (r_active_holds ?r))"
    using nq by (auto simp: res_ok_def)
  define r1 where "r1 = ?r\<lparr>r_holds := r_holds ?r + 1, r_active_holds := h # r_active_holds ?r, r_next_hold := Suc h\<rparr>"
  have b1: "budget_inv b1" "b_reservations b1 = ?rs[i := r1]" "h \<notin> set (r_active_holds ?r)"
    using hold_ok[OF inv i] nq h by (auto simp: r1_def)
  have i1: "i < length (b_reservations b1)" using b1 i by simp
  have rs2: "requested_state r1 = r1\<lparr>r_requested := True\<rparr>"
    by (rule requested_state_held) (use nr hs in \<open>auto simp: r1_def\<close>)
  have b2: "budget_inv b2" "b_reservations b2 = ?rs[i := r1\<lparr>r_requested := True\<rparr>]"
    using requestRelease_Inr[OF b1(1) _ q] i1 b1(2) i nq rs2 by (auto simp: valid_rid_def r1_def)
  have b3: "budget_inv b3" "b_reservations b3 = ?rs[i := unheld_state h (r1\<lparr>r_requested := True\<rparr>)]"
    using release_hold_Inr[OF b2(1) _ u] b2(2) i by (auto simp: valid_rid_def)
  note C = inv[unfolded budget_inv_def] b2(1)[unfolded budget_inv_def] b3(1)[unfolded budget_inv_def]
  have cs: "counters_ok b" "counters_ok b2" "counters_ok b3" using C by simp_all
  have "usage_query b2 None = usage_query b None" "usage_query b2 (Some t) = usage_query b (Some t)"
    using cs i nr b2(2)
    by (auto simp: counters_ok_def usage_of_token_view[OF cs(1)] usage_of_token_view[OF cs(2)]
        live_usage_def live_sum_update live_weight_def r1_def)
  moreover have "usage_query b3 None = (if r_active_holds ?r = []
      then bump (usage_query b None) (- 1) (- r_charged ?r) else usage_query b None)"
    using cs i nr hs b3(2)
    by (simp add: counters_ok_def live_usage_def live_sum_update live_weight_def r1_def unheld_state_def bump_def)
  ultimately show ?thesis by blast
qed

theorem hold_defers_release_witness:
  "\<exists>b h b1 b2 b3. reachable_budget b \<and> hold 0 b = Inr (h, b1) \<and> requestRelease 0 b1 = Inr b2 \<and>
     release_hold 0 h b2 = Inr b3 \<and> usage_query b2 None = usage_query b None \<and>
     usage_query b3 None = bump (usage_query b None) (- 1) (- 270)"
proof -
  let ?l = "\<lparr>maxMessagesPerSession = JsInt 1, maxBytesPerSession = JsInt 300,
      maxMessagesPerProcess = JsInt 2, maxBytesPerProcess = JsInt 400\<rparr>"
  have v: "validateLimits ?l = Inr \<lparr>maxMessagesPerSession = 1, maxBytesPerSession = 300,
        maxMessagesPerProcess = 2, maxBytesPerProcess = 400\<rparr>" (is "_ = Inr ?v")
    by (simp add: validateLimits_def safe_nonneg_int_def max_safe_integer_def)
  have r0: "reachable_budget (fresh_budget ?v)"
    by (rule created[of ?l]) (simp add: newInboundRetentionBudget_def v)
  have inv0: "budget_inv (fresh_budget ?v)" using r0 by (rule reachable_budget_inv)
  have s: "safe_nonneg (JsInt 270) = Some 270" by (simp add: safe_nonneg_int_def max_safe_integer_def)
  have "fits (fresh_budget ?v) 0 270"
    by (simp add: fits_def fresh_budget_def usage_of_token_def zeroUsage_def)
  then obtain b where b: "tryReserve 0 (JsInt 270) DebounceWaiting (fresh_budget ?v) = Inr (Accepted 0, b)"
      "budget_inv b" "b_reservations b = [new_reservation 0 270 DebounceWaiting]"
    using tryReserve_accept[OF inv0 s, of 0 DebounceWaiting] by (auto simp: fresh_budget_def)
  have r: "reachable_budget b" using r0 by (rule performed[of _ "TryReserve 0 (JsInt 270) DebounceWaiting"]) (simp add: b(1))
  obtain h b1 where h: "hold 0 b = Inr (h, b1)" "budget_inv b1" "length (b_reservations b1) = 1"
    using hold_ok[OF b(2), of 0] b(3) by (auto simp: new_reservation_def)
  obtain b2 where b2: "requestRelease 0 b1 = Inr b2" "budget_inv b2" "length (b_reservations b2) = 1"
    using requestRelease_ok[OF h(2), of 0] h(3) by (auto simp: same_frame_def)
  obtain b3 where b3: "release_hold 0 h b2 = Inr b3"
    using release_hold_ok[OF b2(2), of 0 h] b2(3) by auto
  show ?thesis
    using r h(1) b2(1) b3 hold_defers_release[OF r h(1) b2(1) b3, of 0] b(3)
    by (auto simp: new_reservation_def)
qed

text \<open>Nothing leaks. Once every reservation's release was asked for and every hold
  was dropped, the process usage is zero and no session is left in the budget.\<close>

theorem retention_drains:
  assumes r: "reachable_budget b"
    and d: "list_all (\<lambda>x. r_requested x \<and> r_active_holds x = []) (b_reservations b)"
  shows "usage_query b None = zeroUsage \<and> sessionCount b = 0"
proof -
  have inv: "budget_inv b" using r by (rule reachable_budget_inv)
  then have c: "counters_ok b" by (simp add: budget_inv_def)
  have "r_released x" if "x \<in> set (b_reservations b)" for x
    using inv d that by (auto simp: budget_inv_def res_ok_def list_all_iff)
  then have z: "live_sum f p (b_reservations b) = 0" for f p
    unfolding live_sum_def by (induction "b_reservations b") (auto simp: live_weight_def sum_list_0 intro!: sum_list_nonneg_eq_0_iff[THEN iffD2])
  have "map_of (b_sessions b) = (\<lambda>_. None)" using c z by (auto simp: counters_ok_def session_view_def)
  then have "b_sessions b = []" by (metis map_of_eq_empty_iff)
  then show ?thesis using c z by (simp add: counters_ok_def live_usage_def zeroUsage_def sessionCount_def)
qed

theorem retention_drains_witness:
  "\<exists>b. reachable_budget b \<and> map r_charged (b_reservations b) = [10, 20] \<and>
     list_all (\<lambda>x. r_requested x \<and> r_active_holds x = []) (b_reservations b) \<and> usage_query b None = zeroUsage \<and> sessionCount b = 0"
proof -
  let ?l = "\<lparr>maxMessagesPerSession = JsInt 2, maxBytesPerSession = JsInt 100,
      maxMessagesPerProcess = JsInt 2, maxBytesPerProcess = JsInt 100\<rparr>"
  let ?ops = "[TryReserve 0 (JsInt 10) DebounceWaiting, TryReserve 1 (JsInt 20) PendingOwner, Hold 0, RequestRelease 0, Release 1, ReleaseHold 0 0]"
  have "case bindE (newInboundRetentionBudget ?l) (foldE retention_run ?ops) of Inl _ \<Rightarrow> False
     | Inr b \<Rightarrow> map r_charged (b_reservations b) = [10, 20] \<and> list_all (\<lambda>x. r_requested x \<and> r_active_holds x = []) (b_reservations b)"
    by code_simp
  then obtain b where b: "bindE (newInboundRetentionBudget ?l) (foldE retention_run ?ops) = Inr b" "map r_charged (b_reservations b) = [10, 20]"
    "list_all (\<lambda>x. r_requested x \<and> r_active_holds x = []) (b_reservations b)" by (auto split: sum.splits)
  obtain b0 where b0: "newInboundRetentionBudget ?l = Inr b0" "foldE retention_run ?ops b0 = Inr b" using b(1) unfolding bindE_Inr_iff by (elim exE conjE)
  have r: "reachable_budget b" by (rule reachable_budget_foldE[OF created[OF b0(1)] b0(2)])
  show ?thesis using r b(2,3) retention_drains[OF r b(3)] by (intro exI[of _ b] conjI) simp_all
qed

text \<open>The pressure log loses no count. An event inside the interval is added to the
  suppressed count of its own (account, reason) key; the next warning of that key reports
  exactly that count and resets it; every other (account, reason) pair is untouched.\<close>

theorem pressure_log_conserves:
  "(case pressure_record intervalMs now e log of
      (None, log') \<Rightarrow>
        pending_suppressed (pressure_key e) log' = pending_suppressed (pressure_key e) log + pe_rejectedMessages e
    | (Some line, log') \<Rightarrow>
        line = pressure_line e (pending_suppressed (pressure_key e) log) \<and>
        pending_suppressed (pressure_key e) log' = 0) \<and>
   (pending_suppressed (pressure_key e2) (snd (pressure_record intervalMs now e log))
      = pending_suppressed (pressure_key e2) log \<or>
    (pe_accountId e2 = pe_accountId e \<and> pe_internalReason e2 = pe_internalReason e))"
proof (cases "pressure_key e2 = pressure_key e")
  case True
  then have "pe_accountId e2 = pe_accountId e \<and> pe_internalReason e2 = pe_internalReason e"
    by (simp add: pressure_key_def length_prefixed_inject show_reason_inj)
  then show ?thesis
    by (auto simp: pressure_record_def pending_suppressed_def Let_def alist_simps split: option.splits)
next
  case False
  then show ?thesis
    by (auto simp: pressure_record_def pending_suppressed_def Let_def alist_simps split: option.splits)
qed

end
