(* ===== verification/Inbound_Queue.thy ===== *)
theory Inbound_Queue
  imports Retention
begin

text \<open>
  The per-session serial dispatcher and the coalescing of user messages
  (\<^verbatim>\<open>packages/plugin/src/inbound-queue.ts\<close>).  The dispatcher is modelled in its
  production (coalescing) mode as a state record and one function per operation; the
  promise of a running turn is a turn record with its own two events, the microtask that
  invokes the handler and the settlement of the handler's promise.  Leases are objects
  the caller keeps, so they live in a store; a lease whose array the code clears is a
  finished lease here.  Every operation threads the retention budget and returns the
  error a reservation would throw.
\<close>

section \<open>User messages and coalescing\<close>

text \<open>A frame is decoded with a cast, so every field may have a foreign shape.\<close>

datatype raw_id = NoId | BadId | StrId string

datatype raw_ids = Absent | NotAnArray | IdArray "string option list"

record user_message =
  um_text :: string
  um_id :: raw_id
  um_coalescedIds :: raw_ids
  um_extra :: "(string \<times> json) list"

definition MAX_COALESCED_MEMBER_ID_LENGTH :: nat where
  "MAX_COALESCED_MEMBER_ID_LENGTH = 128"

definition normalizeInboundUserMessage :: "user_message \<Rightarrow> user_message" where
  "normalizeInboundUserMessage raw =
     \<lparr>um_text = um_text raw,
      um_id = (case um_id raw of StrId s \<Rightarrow> StrId s | _ \<Rightarrow> NoId),
      um_coalescedIds = Absent, um_extra = []\<rparr>"

definition member_id_ok :: "string \<Rightarrow> bool" where
  "member_id_ok s \<longleftrightarrow> length s \<noteq> 0 \<and> \<not> length s > MAX_COALESCED_MEMBER_ID_LENGTH"

fun read_members :: "string option list \<Rightarrow> string list \<Rightarrow> string list" where
  "read_members [] ids = ids"
| "read_members (None # cs) ids = read_members cs ids"
| "read_members (Some c # cs) ids =
     (if \<not> member_id_ok c then read_members cs ids
      else let ids' = ids @ [c] in
        if int (length ids') \<ge> maxMessagesPerSession DEFAULT_BUSY_TURN_LIMITS then ids'
        else read_members cs ids')"

fun readCoalescedMemberIds :: "raw_ids \<Rightarrow> string list" where
  "readCoalescedMemberIds (IdArray cs) = read_members cs []"
| "readCoalescedMemberIds Absent = []"
| "readCoalescedMemberIds NotAnArray = []"

definition addId :: "raw_id \<Rightarrow> string list \<Rightarrow> string list" where
  "addId i ids =
     (case i of
        StrId s \<Rightarrow>
          if \<not> member_id_ok s \<or> s \<in> set ids
             \<or> int (length ids) \<ge> maxMessagesPerSession DEFAULT_BUSY_TURN_LIMITS
          then ids else ids @ [s]
      | _ \<Rightarrow> ids)"

definition add_message_ids :: "user_message \<Rightarrow> string list \<Rightarrow> string list" where
  "add_message_ids m ids =
     addId (um_id m) (fold addId (map StrId (readCoalescedMemberIds (um_coalescedIds m))) ids)"

text \<open>\<open>None\<close> is the \<^verbatim>\<open>undefined\<close> an empty list yields.\<close>

fun coalesceUserMessages :: "user_message list \<Rightarrow> user_message option" where
  "coalesceUserMessages [] = None"
| "coalesceUserMessages [m] = Some m"
| "coalesceUserMessages (m # n # ms) =
     (let all = m # n # ms;
          ids = fold add_message_ids all []
      in Some (m\<lparr>um_id := um_id (last all),
                 um_text := join [CHR 0x0A, CHR 0x0A] (map um_text all),
                 um_coalescedIds := (if ids = [] then Absent else IdArray (map Some ids))\<rparr>))"

section \<open>The dispatcher\<close>

datatype lease_entry_state = Provisional | Committed | RolledBack | Attached

record 'm retained_entry =
  re_message :: 'm
  re_rid :: rid

record 'm lease_entry =
  le_message :: 'm
  le_rid :: rid
  le_state :: lease_entry_state

record 'm lease =
  l_key :: string
  l_entries :: "'m lease_entry list"
  l_finished :: bool
  l_tailRejected :: "limit_reason option"

datatype turn_status = Queued | Invoked

record 'm turn =
  t_id :: nat
  t_message :: 'm
  t_status :: turn_status

record 'm dsession =
  s_running :: "'m turn option"
  s_pending :: "'m retained_entry list"
  s_openLeases :: "nat list"
  s_readyToDrain :: bool

record 'm dispatcher_config =
  dc_coalesce :: "'m list \<Rightarrow> 'm option"
  dc_sessionToken :: "(string \<Rightarrow> session_token) option"
  dc_measure :: "'m \<Rightarrow> js_number option"

datatype 'm handler_event = HandlerInvoked string nat 'm | HandlerSettled string nat

record 'm dispatcher =
  d_budget :: budget
  d_tokens :: "(string, session_token) js_map"
  d_sessions :: "(string, 'm dsession) js_map"
  d_leases :: "'m lease list"
  d_detached :: "(string, 'm turn) js_map"
  d_disposed :: bool
  d_next_turn :: nat
  d_log :: "'m handler_event list"

type_synonym 'm disp_result = "retention_error + 'm dispatcher"

definition new_dispatcher :: "budget \<Rightarrow> 'm dispatcher" where
  "new_dispatcher b =
     \<lparr>d_budget = b, d_tokens = [], d_sessions = [], d_leases = [], d_detached = [], d_disposed = False,
      d_next_turn = 0, d_log = []\<rparr>"

definition put_session :: "string \<Rightarrow> 'm dsession \<Rightarrow> 'm dispatcher \<Rightarrow> 'm dispatcher" where
  "put_session key s d = d\<lparr>d_sessions := AList.update key s (d_sessions d)\<rparr>"

definition put_lease :: "nat \<Rightarrow> 'm lease \<Rightarrow> 'm dispatcher \<Rightarrow> 'm dispatcher" where
  "put_lease lid l d = d\<lparr>d_leases := (d_leases d)[lid := l]\<rparr>"

definition tokenFor :: "'m dispatcher_config \<Rightarrow> string \<Rightarrow> 'm dispatcher \<Rightarrow> session_token \<times> 'm dispatcher" where
  "tokenFor cfg key d =
     (case dc_sessionToken cfg of
        Some f \<Rightarrow> (f key, d)
      | None \<Rightarrow>
          (case map_of (d_tokens d) key of
             Some t \<Rightarrow> (t, d)
           | None \<Rightarrow> let (t, b) = createSessionToken (d_budget d) in
                     (t, d\<lparr>d_budget := b, d_tokens := AList.update key t (d_tokens d)\<rparr>)))"

definition checkedCharge :: "('m \<Rightarrow> js_number option) \<Rightarrow> 'm \<Rightarrow> int option" where
  "checkedCharge meas m = (case meas m of Some v \<Rightarrow> safe_nonneg v | None \<Rightarrow> None)"

text \<open>Releasing one reservation, and a list of them in order.\<close>

definition release_rid :: "rid \<Rightarrow> 'm dispatcher \<Rightarrow> 'm disp_result" where
  "release_rid i d = bindE (requestRelease i (d_budget d)) (\<lambda>b. Inr (d\<lparr>d_budget := b\<rparr>))"

definition release_all :: "rid list \<Rightarrow> 'm dispatcher \<Rightarrow> 'm disp_result" where
  "release_all is d = bindE (foldE requestRelease is (d_budget d)) (\<lambda>b. Inr (d\<lparr>d_budget := b\<rparr>))"

fun release_supplied :: "rid option \<Rightarrow> 'm dispatcher \<Rightarrow> 'm disp_result" where
  "release_supplied None d = Inr d"
| "release_supplied (Some i) d = release_rid i d"

definition maybeForget :: "'m dispatcher_config \<Rightarrow> string \<Rightarrow> 'm dispatcher \<Rightarrow> 'm dispatcher" where
  "maybeForget cfg key d =
     (case map_of (d_sessions d) key of
        None \<Rightarrow> d
      | Some s \<Rightarrow>
          if s_running s = None \<and> s_pending s = [] \<and> s_openLeases s = []
          then d\<lparr>d_sessions := AList.delete key (d_sessions d),
                 d_tokens := (if dc_sessionToken cfg = None then AList.delete key (d_tokens d) else d_tokens d)\<rparr>
          else d)"

definition empty_session :: "'m dsession" where
  "empty_session = \<lparr>s_running = None, s_pending = [], s_openLeases = [], s_readyToDrain = False\<rparr>"

definition sessionFor :: "string \<Rightarrow> 'm dispatcher \<Rightarrow> 'm dsession \<times> 'm dispatcher" where
  "sessionFor key d =
     (case map_of (d_sessions d) key of
        Some s \<Rightarrow> (s, d)
      | None \<Rightarrow> (empty_session, put_session key empty_session d))"

definition startTurn ::
  "'m dispatcher_config \<Rightarrow> string \<Rightarrow> 'm retained_entry list \<Rightarrow> 'm dispatcher \<Rightarrow> 'm disp_result" where
  "startTurn cfg key entries d =
     (if d_disposed d \<or> entries = []
      then bindE (release_all (map re_rid entries) d) (\<lambda>d'. Inr (maybeForget cfg key d'))
      else bindE (release_all (map re_rid entries) d) (\<lambda>d'.
        case dc_coalesce cfg (map re_message entries) of
          None \<Rightarrow> Inr (maybeForget cfg key d')
        | Some m \<Rightarrow>
            (case map_of (d_sessions d') key of
               None \<Rightarrow> Inr d'
             | Some s \<Rightarrow> Inr (put_session key
                 (s\<lparr>s_running := Some \<lparr>t_id = d_next_turn d', t_message = m, t_status = Queued\<rparr>\<rparr>)
                 (d'\<lparr>d_next_turn := Suc (d_next_turn d')\<rparr>)))))"

definition drain :: "'m dispatcher_config \<Rightarrow> string \<Rightarrow> 'm dispatcher \<Rightarrow> 'm disp_result" where
  "drain cfg key d =
     (case map_of (d_sessions d) key of
        None \<Rightarrow> Inr d
      | Some s \<Rightarrow>
          if s_running s \<noteq> None \<or> s_openLeases s \<noteq> [] then Inr d
          else
            let entries = s_pending s;
                d' = put_session key (s\<lparr>s_readyToDrain := False, s_pending := []\<rparr>) d
            in if entries \<noteq> [] then startTurn cfg key entries d' else Inr (maybeForget cfg key d'))"

text \<open>The turn of a key whose promise has not settled.  \<^verbatim>\<open>dispose\<close> drops the sessions, and the
  closures of their turns live on in \<open>d_detached\<close>.\<close>

definition running_turn :: "'m dispatcher \<Rightarrow> string \<Rightarrow> 'm turn option" where
  "running_turn d key =
     (case map_of (d_sessions d) key of Some s \<Rightarrow> s_running s | None \<Rightarrow> map_of (d_detached d) key)"

definition set_running :: "string \<Rightarrow> 'm turn \<Rightarrow> 'm dispatcher \<Rightarrow> 'm dispatcher" where
  "set_running key t d =
     (case map_of (d_sessions d) key of
        Some s \<Rightarrow> put_session key (s\<lparr>s_running := Some t\<rparr>) d
      | None \<Rightarrow> d\<lparr>d_detached := AList.update key t (d_detached d)\<rparr>)"

text \<open>The microtask of \<^verbatim>\<open>startTurn\<close>: the handler is invoked unless the dispatcher was
  disposed meanwhile.\<close>

definition run_handler :: "string \<Rightarrow> 'm dispatcher \<Rightarrow> 'm dispatcher" where
  "run_handler key d =
     (case running_turn d key of
        Some t \<Rightarrow>
          if t_status t = Queued \<and> \<not> d_disposed d
          then (set_running key (t\<lparr>t_status := Invoked\<rparr>) d)
                 \<lparr>d_log := d_log d @ [HandlerInvoked key (t_id t) (t_message t)]\<rparr>
          else d
      | None \<Rightarrow> d)"

text \<open>The settlement of the running turn (\<^verbatim>\<open>settled.then\<close>); a throwing handler settles too.\<close>

definition on_settled :: "'m dispatcher_config \<Rightarrow> string \<Rightarrow> 'm dispatcher \<Rightarrow> 'm disp_result" where
  "on_settled cfg key d =
     (case map_of (d_sessions d) key of
        None \<Rightarrow>
          (case map_of (d_detached d) key of
             Some t \<Rightarrow>
               if t_status t = Invoked
               then Inr (d\<lparr>d_detached := AList.delete key (d_detached d), d_log := d_log d @ [HandlerSettled key (t_id t)]\<rparr>)
               else Inr d
           | None \<Rightarrow> Inr d)
      | Some s \<Rightarrow>
          (case s_running s of
             Some t \<Rightarrow>
               if t_status t = Invoked then
                 let s' = s\<lparr>s_running := None\<rparr>;
                     d' = (put_session key s' d)\<lparr>d_log := d_log d @ [HandlerSettled key (t_id t)]\<rparr>
                 in if d_disposed d'
                    then bindE (release_all (map re_rid (s_pending s)) (put_session key (s'\<lparr>s_pending := []\<rparr>) d'))
                           (\<lambda>d''. Inr (maybeForget cfg key d''))
                    else if s_openLeases s' \<noteq> [] then Inr (put_session key (s'\<lparr>s_readyToDrain := True\<rparr>) d')
                    else drain cfg key d'
               else Inr d
           | None \<Rightarrow> Inr d))"

text \<open>\<open>None\<close> is the inert lease a disposed dispatcher hands out.\<close>

definition beginBatch :: "string \<Rightarrow> 'm dispatcher \<Rightarrow> nat option \<times> 'm dispatcher" where
  "beginBatch key d =
     (if d_disposed d then (None, d)
      else
        let (s, d') = sessionFor key d; lid = length (d_leases d')
        in (Some lid,
            put_session key (s\<lparr>s_openLeases := s_openLeases s @ [lid]\<rparr>)
              (d'\<lparr>d_leases := d_leases d' @
                 [\<lparr>l_key = key, l_entries = [], l_finished = False, l_tailRejected = None\<rparr>]\<rparr>)))"

datatype offer_result = OfferAccepted nat | OfferRejected limit_reason | OfferDisposed

definition reject_tail ::
  "nat \<Rightarrow> 'm lease \<Rightarrow> limit_reason \<Rightarrow> 'm dispatcher \<Rightarrow> retention_error + offer_result \<times> 'm dispatcher" where
  "reject_tail lid l reason d =
     Inr (OfferRejected reason, put_lease lid (l\<lparr>l_tailRejected := Some reason\<rparr>) d)"

definition accept_entry ::
  "nat \<Rightarrow> 'm lease \<Rightarrow> 'm \<Rightarrow> rid \<Rightarrow> 'm dispatcher \<Rightarrow> retention_error + offer_result \<times> 'm dispatcher" where
  "accept_entry lid l m i d =
     Inr (OfferAccepted (length (l_entries l)),
          put_lease lid (l\<lparr>l_entries := l_entries l @ [\<lparr>le_message = m, le_rid = i, le_state = Provisional\<rparr>]\<rparr>) d)"

definition offer ::
  "'m dispatcher_config \<Rightarrow> nat \<Rightarrow> 'm \<Rightarrow> rid option \<Rightarrow> 'm dispatcher
   \<Rightarrow> retention_error + offer_result \<times> 'm dispatcher" where
  "offer cfg lid m supplied d =
     (let l = d_leases d ! lid in
      if d_disposed d \<or> l_finished l
      then bindE (release_supplied supplied d) (\<lambda>d'. Inr (OfferDisposed, d'))
      else case l_tailRejected l of
        Some reason \<Rightarrow> Inr (OfferRejected reason, d)
      | None \<Rightarrow>
          (case supplied of
             Some i \<Rightarrow>
               with_reservation i (d_budget d) (\<lambda>r.
               if r_released r
               then bindE (release_rid i d) (reject_tail lid l SessionMessageCount)
               else
                 let (tok, d1) = tokenFor cfg (l_key l) d in
                 if r_session r \<noteq> tok
                 then bindE (release_rid i d1) (reject_tail lid l SessionMessageCount)
                 else bindE (transfer i PendingOwner (d_budget d1)) (\<lambda>b.
                      accept_entry lid l m i (d1\<lparr>d_budget := b\<rparr>)))
           | None \<Rightarrow>
               (case checkedCharge (dc_measure cfg) m of
                  None \<Rightarrow> reject_tail lid l SessionByteCount d
                | Some c \<Rightarrow>
                    let (tok, d1) = tokenFor cfg (l_key l) d in
                    bindE (tryReserve tok (JsInt c) PendingOwner (d_budget d1)) (\<lambda>(res, b).
                    case res of
                      Rejected reason \<Rightarrow> reject_tail lid l reason (d1\<lparr>d_budget := b\<rparr>)
                    | Accepted i \<Rightarrow> accept_entry lid l m i (d1\<lparr>d_budget := b\<rparr>)))))"

definition set_entry_state :: "nat \<Rightarrow> nat \<Rightarrow> lease_entry_state \<Rightarrow> 'm dispatcher \<Rightarrow> 'm dispatcher" where
  "set_entry_state lid k st d =
     (let l = d_leases d ! lid in
      put_lease lid (l\<lparr>l_entries := (l_entries l)[k := (l_entries l ! k)\<lparr>le_state := st\<rparr>]\<rparr>) d)"

definition commit :: "nat \<Rightarrow> nat \<Rightarrow> 'm dispatcher \<Rightarrow> 'm disp_result" where
  "commit lid k d =
     (let l = d_leases d ! lid; e = l_entries l ! k in
      if le_state e \<noteq> Provisional then Inr d
      else if d_disposed d \<or> l_finished l
      then release_rid (le_rid e) (set_entry_state lid k RolledBack d)
      else Inr (set_entry_state lid k Committed d))"

definition rollback :: "nat \<Rightarrow> nat \<Rightarrow> 'm dispatcher \<Rightarrow> 'm disp_result" where
  "rollback lid k d =
     (let l = d_leases d ! lid; e = l_entries l ! k in
      if le_state e \<noteq> Provisional \<and> le_state e \<noteq> Committed then Inr d
      else release_rid (le_rid e) (set_entry_state lid k RolledBack d))"

text \<open>What \<^verbatim>\<open>finish\<close> does with the entries of the lease: the committed ones are attached
  to the session, the provisional ones are rolled back and released.\<close>

definition settle_entry :: "'m lease_entry \<Rightarrow> 'm lease_entry" where
  "settle_entry e =
     e\<lparr>le_state := (case le_state e of Provisional \<Rightarrow> RolledBack | Committed \<Rightarrow> Attached | st \<Rightarrow> st)\<rparr>"

definition attached_entries :: "'m lease_entry list \<Rightarrow> 'm retained_entry list" where
  "attached_entries es =
     map (\<lambda>e. \<lparr>re_message = le_message e, re_rid = le_rid e\<rparr>) (filter (\<lambda>e. le_state e = Committed) es)"

definition provisional_rids :: "'m lease_entry list \<Rightarrow> rid list" where
  "provisional_rids es = map le_rid (filter (\<lambda>e. le_state e = Provisional) es)"

definition finish_lease :: "'m dispatcher_config \<Rightarrow> nat \<Rightarrow> 'm dispatcher \<Rightarrow> 'm disp_result" where
  "finish_lease cfg lid d =
     (let l = d_leases d ! lid in
      if l_finished l then Inr d
      else case map_of (d_sessions d) (l_key l) of
        None \<Rightarrow> Inr d
      | Some s \<Rightarrow>
          let s' = s\<lparr>s_openLeases := remove1 lid (s_openLeases s),
                     s_pending := s_pending s @ attached_entries (l_entries l)\<rparr>;
              d1 = put_session (l_key l) s'
                     (put_lease lid (l\<lparr>l_finished := True, l_entries := map settle_entry (l_entries l)\<rparr>) d)
          in bindE (release_all (provisional_rids (l_entries l)) d1) (\<lambda>d2.
             if s_running s' = None \<and> s_openLeases s' = [] then drain cfg (l_key l) d2
             else if s_readyToDrain s' \<and> s_openLeases s' = [] then drain cfg (l_key l) d2
             else Inr d2))"

definition dispatch ::
  "'m dispatcher_config \<Rightarrow> string \<Rightarrow> 'm \<Rightarrow> rid option \<Rightarrow> 'm dispatcher
   \<Rightarrow> retention_error + offer_result \<times> 'm dispatcher" where
  "dispatch cfg key m supplied d =
     (case beginBatch key d of
        (None, d0) \<Rightarrow> bindE (release_supplied supplied d0) (\<lambda>d1. Inr (OfferDisposed, d1))
      | (Some lid, d0) \<Rightarrow>
          bindE (offer cfg lid m supplied d0) (\<lambda>(res, d1).
          bindE (case res of OfferAccepted k \<Rightarrow> commit lid k d1 | _ \<Rightarrow> release_supplied supplied d1) (\<lambda>d2.
          bindE (finish_lease cfg lid d2) (\<lambda>d3. Inr (res, d3)))))"

text \<open>\<^verbatim>\<open>clearPending\<close>: the pending entries and every entry of an open lease that is not
  already rolled back are dropped and released.\<close>

definition live_lease_entries :: "'m lease \<Rightarrow> 'm lease_entry list" where
  "live_lease_entries l = filter (\<lambda>e. le_state e \<noteq> RolledBack) (l_entries l)"

definition roll_back_lease :: "'m lease \<Rightarrow> 'm lease" where
  "roll_back_lease l = l\<lparr>l_entries := map (\<lambda>e. e\<lparr>le_state := RolledBack\<rparr>) (l_entries l)\<rparr>"

definition clearPending :: "'m dispatcher_config \<Rightarrow> string \<Rightarrow> 'm dispatcher \<Rightarrow> retention_error + 'm list \<times> 'm dispatcher" where
  "clearPending cfg key d =
     (case map_of (d_sessions d) key of
        None \<Rightarrow> Inr ([], d)
      | Some s \<Rightarrow>
          let ls = map (\<lambda>lid. d_leases d ! lid) (s_openLeases s);
              live = concat (map live_lease_entries ls);
              d1 = put_session key (s\<lparr>s_pending := []\<rparr>)
                     (fold (\<lambda>lid d. put_lease lid (roll_back_lease (d_leases d ! lid)) d) (s_openLeases s) d)
          in bindE (release_all (map re_rid (s_pending s) @ map le_rid live) d1) (\<lambda>d2.
             Inr (map re_message (s_pending s) @ map le_message live, maybeForget cfg key d2)))"

definition close_lease :: "nat \<Rightarrow> 'm dispatcher \<Rightarrow> 'm dispatcher" where
  "close_lease lid d = put_lease lid ((roll_back_lease (d_leases d ! lid))\<lparr>l_finished := True\<rparr>) d"

definition detached_turns :: "(string, 'm dsession) js_map \<Rightarrow> (string, 'm turn) js_map" where
  "detached_turns ss = concat (map (\<lambda>(k, s). case s_running s of Some t \<Rightarrow> [(k, t)] | None \<Rightarrow> []) ss)"

definition dispose :: "'m dispatcher \<Rightarrow> retention_error + (nat \<times> nat) \<times> 'm dispatcher" where
  "dispose d =
     (if d_disposed d then Inr ((0, 0), d)
      else
        let ss = map snd (d_sessions d);
            pend = concat (map s_pending ss);
            lids = concat (map s_openLeases ss);
            prov = concat (map (\<lambda>lid. live_lease_entries (d_leases d ! lid)) lids)
        in bindE (foldE requestRelease
                    (concat (map (\<lambda>s. map re_rid (s_pending s) @
                       concat (map (\<lambda>lid. map le_rid (live_lease_entries (d_leases d ! lid))) (s_openLeases s))) ss))
                    (d_budget d)) (\<lambda>b.
           Inr ((length pend, length prov),
                (fold close_lease lids d)\<lparr>d_budget := b, d_disposed := True, d_sessions := [], d_tokens := [],
                   d_detached := detached_turns (d_sessions d)\<rparr>)))"

definition pendingSessions :: "'m dispatcher \<Rightarrow> nat" where
  "pendingSessions d = length (d_sessions d)"

definition pendingBuffered :: "string \<Rightarrow> 'm dispatcher \<Rightarrow> nat" where
  "pendingBuffered key d = (case map_of (d_sessions d) key of Some s \<Rightarrow> length (s_pending s) | None \<Rightarrow> 0)"

section \<open>Invariant\<close>

text \<open>The handler currently inside a session, and the check that a log of handler events
  is serial for one session: an invocation only while idle, a settlement only of the
  invocation that is open.\<close>

definition active_turn :: "'m dispatcher \<Rightarrow> string \<Rightarrow> nat option" where
  "active_turn d key =
     (case running_turn d key of Some t \<Rightarrow> (if t_status t = Invoked then Some (t_id t) else None) | None \<Rightarrow> None)"

fun serial_step :: "string \<Rightarrow> 'm handler_event \<Rightarrow> nat option \<Rightarrow> nat option option" where
  "serial_step key (HandlerInvoked k t m) st =
     (if k \<noteq> key then Some st else if st = None then Some (Some t) else None)"
| "serial_step key (HandlerSettled k t) st =
     (if k \<noteq> key then Some st else if st = Some t then Some None else None)"

fun serial_run :: "string \<Rightarrow> 'm handler_event list \<Rightarrow> nat option \<Rightarrow> nat option option" where
  "serial_run key [] st = Some st"
| "serial_run key (e # es) st = Option.bind (serial_step key e st) (serial_run key es)"

definition serial_ok :: "'m dispatcher \<Rightarrow> bool" where
  "serial_ok d \<longleftrightarrow>
     (\<forall>key. serial_run key (d_log d) None = Some (active_turn d key))"

definition session_ok :: "'m dispatcher \<Rightarrow> string \<Rightarrow> 'm dsession \<Rightarrow> bool" where
  "session_ok d key s \<longleftrightarrow>
     (\<forall>e \<in> set (s_pending s). valid_rid (re_rid e) (d_budget d)) \<and> distinct (s_openLeases s) \<and>
     (\<forall>lid \<in> set (s_openLeases s).
        lid < length (d_leases d) \<and> l_key (d_leases d ! lid) = key \<and> \<not> l_finished (d_leases d ! lid))"

definition lease_ok :: "'m dispatcher \<Rightarrow> 'm lease \<Rightarrow> bool" where
  "lease_ok d l \<longleftrightarrow> (\<forall>e \<in> set (l_entries l). valid_rid (le_rid e) (d_budget d))"

definition session_live :: "'m dsession \<Rightarrow> bool" where
  "session_live s \<longleftrightarrow> s_running s \<noteq> None \<or> s_openLeases s \<noteq> []"

definition disp_core :: "'m dispatcher \<Rightarrow> bool" where
  "disp_core d \<longleftrightarrow>
     budget_inv (d_budget d) \<and> distinct (js_keys (d_sessions d)) \<and>
     (\<forall>key s. map_of (d_sessions d) key = Some s \<longrightarrow> session_ok d key s) \<and>
     (\<forall>l \<in> set (d_leases d). lease_ok d l) \<and>
     (if d_disposed d then d_sessions d = [] \<and> distinct (js_keys (d_detached d)) else d_detached d = []) \<and> serial_ok d"

definition live_except :: "string set \<Rightarrow> 'm dispatcher \<Rightarrow> bool" where
  "live_except K d \<longleftrightarrow> (\<forall>key s. map_of (d_sessions d) key = Some s \<longrightarrow> key \<notin> K \<longrightarrow> session_live s)"

definition disp_inv :: "'m dispatcher \<Rightarrow> bool" where
  "disp_inv d \<longleftrightarrow> disp_core d \<and> live_except {} d"

subsection \<open>Frames\<close>

lemma running_session [simp]: "map_of (d_sessions d) key = Some s \<Longrightarrow> running_turn d key = s_running s"
  by (simp add: running_turn_def)

lemma running_detached [simp]: "map_of (d_sessions d) key = None \<Longrightarrow> running_turn d key = map_of (d_detached d) key"
  by (simp add: running_turn_def)

lemma active_cong:
  "map_of (d_sessions d') k = map_of (d_sessions d) k \<Longrightarrow> d_detached d' = d_detached d \<Longrightarrow> active_turn d' k = active_turn d k"
  by (cases "map_of (d_sessions d) k") (simp_all add: active_turn_def)

lemma active_frames [simp]:
  "active_turn (d\<lparr>d_budget := b\<rparr>) = active_turn d" "active_turn (d\<lparr>d_next_turn := n\<rparr>) = active_turn d"
  "active_turn (d\<lparr>d_leases := ls\<rparr>) = active_turn d" "active_turn (d\<lparr>d_log := es\<rparr>) = active_turn d"
  "active_turn (d\<lparr>d_tokens := ts\<rparr>) = active_turn d" "active_turn (d\<lparr>d_disposed := b'\<rparr>) = active_turn d"
  by (intro ext active_cong; simp)+

lemma put_session_sel [simp]:
  "map_of (d_sessions (put_session key s d)) = (map_of (d_sessions d))(key \<mapsto> s)"
  "d_detached (put_session key s d) = d_detached d"
  by (simp_all add: put_session_def alist_simps)

lemma serial_run_append:
  "serial_run key (es @ [e]) st = Option.bind (serial_run key es st) (serial_step key e)"
proof (induction es arbitrary: st)
  case Nil
  then show ?case by (simp add: Option.bind_cong)
next
  case (Cons a es)
  then show ?case by (cases "serial_step key a st") simp_all
qed

text \<open>The budget may be replaced by any later one: reservations never disappear.\<close>

lemma disp_core_budget:
  assumes "disp_core d" "budget_inv b" "\<forall>i. valid_rid i (d_budget d) \<longrightarrow> valid_rid i b"
  shows "disp_core (d\<lparr>d_budget := b\<rparr>)"
  using assms by (auto simp: disp_core_def session_ok_def lease_ok_def serial_ok_def active_turn_def)

lemma disp_core_next_turn: "disp_core (d\<lparr>d_next_turn := n\<rparr>) = disp_core d"
  by (simp add: disp_core_def session_ok_def lease_ok_def serial_ok_def active_turn_def)

lemma live_except_budget [simp]: "live_except K (d\<lparr>d_budget := b\<rparr>) = live_except K d"
  by (simp add: live_except_def)

lemma release_all_ok:
  assumes "disp_core d" "\<forall>i \<in> set is. valid_rid i (d_budget d)"
  shows "\<exists>b. release_all is d = Inr (d\<lparr>d_budget := b\<rparr>) \<and> disp_core (d\<lparr>d_budget := b\<rparr>) \<and> budget_inv b \<and>
     (\<forall>i. valid_rid i (d_budget d) \<longrightarrow> valid_rid i b)"
proof -
  have "budget_inv (d_budget d)" using assms by (simp add: disp_core_def)
  then obtain b where b: "foldE requestRelease is (d_budget d) = Inr b" "budget_inv b"
      "\<forall>i. valid_rid i (d_budget d) \<longrightarrow> valid_rid i b"
    using rel.foldE_total[of "d_budget d" "is"] assms(2) by blast
  then show ?thesis using disp_core_budget[OF assms(1)] by (auto simp: release_all_def)
qed

lemma release_rid_all: "release_rid i d = release_all [i] d"
  by (cases "requestRelease i (d_budget d)") (simp_all add: release_rid_def release_all_def)

lemma disp_core_put_session:
  assumes "disp_core d" "session_ok d key s" "\<not> d_disposed d"
    and "active_turn (put_session key s d) key = active_turn d key"
  shows "disp_core (put_session key s d)"
proof -
  have "active_turn (put_session key s d) k = active_turn d k" for k
    using assms(4) active_cong[of "put_session key s d" k d] by (cases "k = key") simp_all
  then show ?thesis using assms
    by (auto simp: disp_core_def put_session_def session_ok_def lease_ok_def serial_ok_def alist_simps split: if_splits)
qed

lemma live_put_session:
  "live_except (insert key K) d \<Longrightarrow> session_live s \<Longrightarrow> live_except K (put_session key s d)"
  by (auto simp: live_except_def put_session_def alist_simps)

lemma live_put_session_except:
  "live_except (insert key K) d \<Longrightarrow> live_except (insert key K) (put_session key s d)"
  by (auto simp: live_except_def put_session_def alist_simps)

lemma live_except_drop:
  "live_except {key} d \<Longrightarrow> (\<And>s. map_of (d_sessions d) key = Some s \<Longrightarrow> session_live s) \<Longrightarrow> live_except {} d"
  unfolding live_except_def by (metis singletonD)

lemma active_put_session:
  assumes "map_of (d_sessions d) key = Some s" "s_running s' = s_running s"
  shows "active_turn (put_session key s' d) key = active_turn d key"
  using assms by (simp add: active_turn_def put_session_def alist_simps)

lemma maybeForget_ok:
  assumes c: "disp_core d" and l: "live_except {key} d"
    and p: "\<forall>s. map_of (d_sessions d) key = Some s \<and> \<not> session_live s \<longrightarrow> s_pending s = []"
  shows "disp_inv (maybeForget cfg key d)"
proof (cases "\<exists>s. map_of (d_sessions d) key = Some s \<and> \<not> session_live s")
  case True
  then obtain s where s: "map_of (d_sessions d) key = Some s" "s_running s = None" "s_openLeases s = []"
      "s_pending s = []"
    using p by (auto simp: session_live_def)
  have nd: "\<not> d_disposed d" using c s(1) by (auto simp: disp_core_def)
  have det: "d_detached d = []" using c nd by (simp add: disp_core_def)
  have keep: "map_of (d_sessions (maybeForget cfg key d)) = (map_of (d_sessions d))(key := None)" "d_detached (maybeForget cfg key d) = []"
    using s det by (simp_all add: maybeForget_def alist_simps)
  have "active_turn (maybeForget cfg key d) k = active_turn d k" for k
    using s keep det active_cong[of "maybeForget cfg key d" k d] by (cases "k = key") (simp_all add: active_turn_def)
  then show ?thesis using c l s nd
    by (auto simp: disp_inv_def disp_core_def maybeForget_def session_ok_def lease_ok_def serial_ok_def
        live_except_def alist_simps split: if_splits)
next
  case False
  then have "maybeForget cfg key d = d" by (auto simp: maybeForget_def session_live_def split: option.splits)
  then show ?thesis using c l False by (auto simp: disp_inv_def live_except_def)
qed

subsection \<open>Every operation keeps the invariant\<close>

lemma startTurn_ok:
  assumes c: "disp_core d" and l: "live_except {key} d"
    and s: "map_of (d_sessions d) key = Some s" "s_running s = None" "s_pending s = []" "s_openLeases s = []"
    and v: "\<forall>e \<in> set entries. valid_rid (re_rid e) (d_budget d)"
  shows "\<exists>d'. startTurn cfg key entries d = Inr d' \<and> disp_inv d'"
proof -
  have nd: "\<not> d_disposed d" using c s(1) by (auto simp: disp_core_def)
  obtain b where b: "release_all (map re_rid entries) d = Inr (d\<lparr>d_budget := b\<rparr>)"
      "disp_core (d\<lparr>d_budget := b\<rparr>)"
    using release_all_ok[OF c, of "map re_rid entries"] v by auto
  have forget: "disp_inv (maybeForget cfg key (d\<lparr>d_budget := b\<rparr>))"
    by (rule maybeForget_ok[OF b(2)]) (use l s in auto)
  show ?thesis
  proof (cases "entries = [] \<or> dc_coalesce cfg (map re_message entries) = None")
    case True
    then show ?thesis using b forget nd by (auto simp: startTurn_def)
  next
    case False
    then obtain m where m: "entries \<noteq> []" "dc_coalesce cfg (map re_message entries) = Some m" by auto
    let ?d = "d\<lparr>d_budget := b, d_next_turn := Suc (d_next_turn d)\<rparr>"
    let ?s = "s\<lparr>s_running := Some \<lparr>t_id = d_next_turn d, t_message = m, t_status = Queued\<rparr>\<rparr>"
    have cd: "disp_core ?d" using b(2) disp_core_next_turn[where d = "d\<lparr>d_budget := b\<rparr>"] by simp
    have "disp_core (put_session key ?s ?d)"
      by (rule disp_core_put_session[OF cd])
        (use cd s nd in \<open>auto simp: disp_core_def session_ok_def active_turn_def put_session_def alist_simps\<close>)
    moreover have "live_except {} (put_session key ?s ?d)"
      by (rule live_put_session) (use l in \<open>auto simp: live_except_def session_live_def\<close>)
    ultimately show ?thesis using m b nd s(1) by (simp add: startTurn_def disp_inv_def)
  qed
qed

lemma drain_ok:
  assumes c: "disp_core d" and l: "live_except {key} d"
  shows "\<exists>d'. drain cfg key d = Inr d' \<and> disp_inv d'"
proof (cases "map_of (d_sessions d) key")
  case None
  then have "live_except {} d" by (intro live_except_drop[OF l]) simp
  then show ?thesis using c None by (simp add: drain_def disp_inv_def)
next
  case (Some s)
  show ?thesis
  proof (cases "session_live s")
    case True
    then have "live_except {} d" using Some by (intro live_except_drop[OF l]) simp
    then show ?thesis using True Some c by (auto simp: drain_def disp_inv_def session_live_def)
  next
    case False
    let ?s = "s\<lparr>s_readyToDrain := False, s_pending := []\<rparr>"
    let ?d = "put_session key ?s d"
    have nd: "\<not> d_disposed d" using c Some by (auto simp: disp_core_def)
    have so: "session_ok d key s" using c Some by (simp add: disp_core_def)
    have cd: "disp_core ?d"
      by (rule disp_core_put_session[OF c _ nd active_put_session[OF Some]])
        (use so in \<open>auto simp: session_ok_def\<close>)
    have ld: "live_except {key} ?d" using live_put_session_except[of key "{}" d ?s] l by simp
    have look: "map_of (d_sessions ?d) key = Some ?s" by (simp add: put_session_def alist_simps)
    show ?thesis
    proof (cases "s_pending s = []")
      case True
      have "disp_inv (maybeForget cfg key ?d)" by (rule maybeForget_ok[OF cd ld]) (simp add: look)
      then show ?thesis using True False Some by (auto simp: drain_def session_live_def)
    next
      case pend: False
      obtain d' where "startTurn cfg key (s_pending s) ?d = Inr d'" "disp_inv d'"
        using startTurn_ok[OF cd ld look, of "s_pending s" cfg] False so
        by (auto simp: session_live_def session_ok_def put_session_def)
      then show ?thesis using pend False Some by (auto simp: drain_def session_live_def)
    qed
  qed
qed

lemma run_handler_ok:
  assumes "disp_inv d"
  shows "disp_inv (run_handler key d)"
proof (cases "\<exists>s t. map_of (d_sessions d) key = Some s \<and> s_running s = Some t \<and> t_status t = Queued \<and> \<not> d_disposed d")
  case False
  have "d_disposed d \<or> d_detached d = []" using assms by (auto simp: disp_inv_def disp_core_def split: if_splits)
  then have "run_handler key d = d" using False by (cases "map_of (d_sessions d) key") (auto simp: run_handler_def split: option.split)
  then show ?thesis using assms by simp
next
  case True
  then obtain s t where s: "map_of (d_sessions d) key = Some s" "s_running s = Some t" "t_status t = Queued"
      and nd: "\<not> d_disposed d" by blast
  let ?d = "run_handler key d"
  have eq: "?d = (put_session key (s\<lparr>s_running := Some (t\<lparr>t_status := Invoked\<rparr>)\<rparr>) d)
      \<lparr>d_log := d_log d @ [HandlerInvoked key (t_id t) (t_message t)]\<rparr>"
    using s nd by (simp add: run_handler_def set_running_def)
  have ser: "serial_run k (d_log d) None = Some (active_turn d k)" for k
    using assms nd by (simp add: disp_inv_def disp_core_def serial_ok_def)
  have "active_turn d key = None" using s by (simp add: active_turn_def)
  moreover have "active_turn ?d key = Some (t_id t)" by (simp add: eq active_turn_def)
  moreover have "k \<noteq> key \<Longrightarrow> active_turn ?d k = active_turn d k" for k by (simp add: eq active_cong[of "put_session key _ d" k d])
  moreover have "d_log ?d = d_log d @ [HandlerInvoked key (t_id t) (t_message t)]" by (simp add: eq)
  ultimately have "serial_run k (d_log ?d) None = Some (active_turn ?d k)" for k
    using ser[of k] by (cases "k = key") (simp_all add: serial_run_append)
  then have "serial_ok ?d" by (simp add: serial_ok_def)
  then show ?thesis using assms s nd
    by (auto simp: disp_inv_def disp_core_def eq put_session_def session_ok_def lease_ok_def live_except_def
        session_live_def alist_simps split: if_splits)
qed

lemma settled_core:
  assumes "disp_inv d" and s: "map_of (d_sessions d) key = Some s" "s_running s = Some t" "t_status t = Invoked"
  shows "disp_core ((put_session key (s\<lparr>s_running := None\<rparr>) d)\<lparr>d_log := d_log d @ [HandlerSettled key (t_id t)]\<rparr>)"
    (is "disp_core ?d1")
proof -
  have nd: "\<not> d_disposed d" using assms s by (auto simp: disp_inv_def disp_core_def)
  have act: "active_turn d key = Some (t_id t)" using s by (simp add: active_turn_def)
  have ser: "serial_run k (d_log d) None = Some (active_turn d k)" for k
    using assms nd by (simp add: disp_inv_def disp_core_def serial_ok_def)
  have "active_turn ?d1 key = None" by (simp add: active_turn_def)
  moreover have "k \<noteq> key \<Longrightarrow> active_turn ?d1 k = active_turn d k" for k by (simp add: active_cong[of "put_session key _ d" k d])
  ultimately have "serial_run k (d_log ?d1) None = Some (active_turn ?d1 k)" for k
    using ser[of k] act by (cases "k = key") (simp_all add: serial_run_append put_session_def)
  then have "serial_ok ?d1" by (simp add: serial_ok_def)
  then show ?thesis using assms s nd
    by (auto simp: disp_inv_def disp_core_def put_session_def session_ok_def lease_ok_def alist_simps split: if_splits)
qed

text \<open>A turn that outlived its session settles.\<close>

lemma detached_settled_inv:
  assumes "disp_inv d" and t: "map_of (d_sessions d) key = None" "map_of (d_detached d) key = Some t" "t_status t = Invoked"
  shows "disp_inv (d\<lparr>d_detached := AList.delete key (d_detached d), d_log := d_log d @ [HandlerSettled key (t_id t)]\<rparr>)"
    (is "disp_inv ?d1")
proof -
  have dis: "d_disposed d" "d_sessions d = []" using assms by (auto simp: disp_inv_def disp_core_def split: if_splits)
  have ser: "serial_run k (d_log d) None = Some (active_turn d k)" for k
    using assms by (simp add: disp_inv_def disp_core_def serial_ok_def)
  have act: "active_turn d key = Some (t_id t)" using t by (simp add: active_turn_def)
  have "active_turn ?d1 key = None" "k \<noteq> key \<Longrightarrow> active_turn ?d1 k = active_turn d k" for k
    using dis by (simp_all add: active_turn_def alist_simps)
  then have "serial_run k (d_log ?d1) None = Some (active_turn ?d1 k)" for k
    using ser[of k] act by (cases "k = key") (simp_all add: serial_run_append)
  then have "serial_ok ?d1" by (simp add: serial_ok_def)
  then show ?thesis using assms dis by (auto simp: disp_inv_def disp_core_def session_ok_def lease_ok_def live_except_def distinct_keys_delete)
qed

lemma on_settled_ok:
  assumes "disp_inv d"
  shows "\<exists>d'. on_settled cfg key d = Inr d' \<and> disp_inv d'"
proof (cases "\<exists>s t. map_of (d_sessions d) key = Some s \<and> s_running s = Some t \<and> t_status t = Invoked")
  case False
  show ?thesis
  proof (cases "\<exists>t. map_of (d_sessions d) key = None \<and> map_of (d_detached d) key = Some t \<and> t_status t = Invoked")
    case True
    then show ?thesis using detached_settled_inv[OF assms] by (auto simp: on_settled_def)
  next
    case nodet: False
    then have "on_settled cfg key d = Inr d" using False by (auto simp: on_settled_def split: option.splits)
    then show ?thesis using assms by simp
  qed
next
  case True
  then obtain s t where s: "map_of (d_sessions d) key = Some s" "s_running s = Some t" "t_status t = Invoked" by blast
  have nd: "\<not> d_disposed d" using assms s by (auto simp: disp_inv_def disp_core_def)
  let ?s = "s\<lparr>s_running := None\<rparr>"
  define d1 where "d1 = (put_session key ?s d)\<lparr>d_log := d_log d @ [HandlerSettled key (t_id t)]\<rparr>"
  have c1: "disp_core d1" unfolding d1_def by (rule settled_core[OF assms s])
  have l1: "live_except {key} d1" using assms
    by (auto simp: disp_inv_def live_except_def d1_def put_session_def alist_simps)
  have look: "map_of (d_sessions d1) key = Some ?s" and nd1: "\<not> d_disposed d1"
    using nd by (simp_all add: d1_def put_session_def alist_simps)
  show ?thesis
  proof (cases "s_openLeases s = []")
    case True
    then have "on_settled cfg key d = drain cfg key d1" using s nd by (simp add: on_settled_def Let_def d1_def put_session_def)
    then show ?thesis using drain_ok[OF c1 l1] by simp
  next
    case False
    have so: "session_ok d1 key ?s" using c1 look by (simp add: disp_core_def)
    have "disp_core (put_session key (?s\<lparr>s_readyToDrain := True\<rparr>) d1)"
      by (rule disp_core_put_session[OF c1 _ nd1 active_put_session[OF look]]) (use so in \<open>auto simp: session_ok_def\<close>)
    moreover have "live_except {} (put_session key (?s\<lparr>s_readyToDrain := True\<rparr>) d1)"
      by (rule live_put_session) (use l1 False in \<open>auto simp: session_live_def\<close>)
    moreover have "on_settled cfg key d = Inr (put_session key (?s\<lparr>s_readyToDrain := True\<rparr>) d1)"
      using s nd False by (simp add: on_settled_def Let_def d1_def put_session_def)
    ultimately show ?thesis by (simp add: disp_inv_def)
  qed
qed

lemma sessionFor_facts:
  assumes c: "disp_core d" and s: "sessionFor key d = (s, d1)" and nd: "\<not> d_disposed d"
  shows "session_ok d key s" "active_turn d1 k = active_turn d k" "d_leases d1 = d_leases d" "d_budget d1 = d_budget d"
    "map_of (d_sessions d1) = (map_of (d_sessions d))(key \<mapsto> s)" "d_disposed d1 = d_disposed d"
    "distinct (js_keys (d_sessions d1))" "d_log d1 = d_log d" "d_detached d1 = d_detached d"
proof -
  show "d_detached d1 = d_detached d" using s by (auto simp: sessionFor_def split: option.splits)
  have "session_ok d key s \<and> active_turn d1 k = active_turn d k \<and> d_leases d1 = d_leases d \<and>
    d_budget d1 = d_budget d \<and> map_of (d_sessions d1) = (map_of (d_sessions d))(key \<mapsto> s) \<and>
    d_disposed d1 = d_disposed d \<and> distinct (js_keys (d_sessions d1)) \<and> d_log d1 = d_log d"
  proof (cases "map_of (d_sessions d) key")
    case None
    then have "s = empty_session" "d1 = put_session key empty_session d" using s by (simp_all add: sessionFor_def)
    moreover have "active_turn (put_session key empty_session d) k = active_turn d k"
      using c nd None active_cong[of "put_session key empty_session d" k d]
      by (cases "k = key") (simp_all add: active_turn_def empty_session_def disp_core_def)
    ultimately show ?thesis using c None
      by (simp add: session_ok_def empty_session_def put_session_def alist_simps disp_core_def)
  next
    case (Some x)
    then have "s = x" "d1 = d" using s by (simp_all add: sessionFor_def)
    then show ?thesis using c Some by (auto simp: disp_core_def fun_eq_iff)
  qed
  then show "session_ok d key s" "active_turn d1 k = active_turn d k" "d_leases d1 = d_leases d" "d_budget d1 = d_budget d"
    "map_of (d_sessions d1) = (map_of (d_sessions d))(key \<mapsto> s)" "d_disposed d1 = d_disposed d"
    "distinct (js_keys (d_sessions d1))" "d_log d1 = d_log d" by blast+
qed

lemma beginBatch_ok:
  assumes "disp_inv d" and "beginBatch key d = (res, d')"
  shows "disp_inv d' \<and> (case res of Some lid \<Rightarrow> lid < length (d_leases d') | None \<Rightarrow> d_disposed d \<and> d' = d) \<and>
    d_budget d' = d_budget d \<and> d_disposed d' = d_disposed d"
proof (cases "d_disposed d")
  case True
  then show ?thesis using assms by (auto simp: beginBatch_def)
next
  case False
  obtain s d1 where s: "sessionFor key d = (s, d1)" by (cases "sessionFor key d")
  have c: "disp_core d" and l: "live_except {} d" using assms by (simp_all add: disp_inv_def)
  note s1 = sessionFor_facts[OF c s False]
  let ?lid = "length (d_leases d)"
  let ?l = "\<lparr>l_key = key, l_entries = [], l_finished = False, l_tailRejected = None\<rparr>"
  have eq: "res = Some ?lid" "d' = put_session key (s\<lparr>s_openLeases := s_openLeases s @ [?lid]\<rparr>)
      (d1\<lparr>d_leases := d_leases d @ [?l]\<rparr>)"
    using assms(2) s False s1(3) by (auto simp: beginBatch_def Let_def)
  have act: "active_turn d' k = active_turn d k" for k
  proof -
    have "active_turn d' k = active_turn d1 k"
    proof (cases "k = key")
      case True
      then show ?thesis using s1(5) by (simp add: eq(2) active_turn_def)
    next
      case k: False
      then show ?thesis by (intro active_cong) (simp_all add: eq(2))
    qed
    then show ?thesis using s1(2)[of k] by simp
  qed
  have fresh: "?lid \<notin> set (s_openLeases s)" using s1(1) by (auto simp: session_ok_def)
  have look: "map_of (d_sessions d') k = (if k = key then Some (s\<lparr>s_openLeases := s_openLeases s @ [?lid]\<rparr>)
      else map_of (d_sessions d) k)" for k
    using s1(5) by (simp add: eq(2) put_session_def alist_simps)
  have parts: "d_leases d' = d_leases d @ [?l]" "d_budget d' = d_budget d" "d_disposed d' = False" "d_log d' = d_log d"
    "distinct (js_keys (d_sessions d'))" "d_detached d' = d_detached d"
    using s1(3-9) False by (simp_all add: eq(2) put_session_def)
  have sess: "session_ok d' k x" if "map_of (d_sessions d') k = Some x" for k x
  proof (cases "k = key")
    case True
    then show ?thesis using that s1(1) fresh
      by (auto simp: look session_ok_def parts nth_append)
  next
    case k: False
    then have "session_ok d k x" using that c by (simp add: look disp_core_def)
    then show ?thesis by (auto simp: session_ok_def parts nth_append)
  qed
  have "disp_core d'" using c sess parts False
    by (auto simp: disp_core_def lease_ok_def serial_ok_def act)
  moreover have "live_except {} d'" using l by (auto simp: live_except_def look session_live_def)
  ultimately show ?thesis using eq parts False by (simp add: disp_inv_def)
qed

lemma disp_core_put_lease:
  assumes c: "disp_core d" and i: "lid < length (d_leases d)" and l: "lease_ok d l"
    and k: "l_key l = l_key (d_leases d ! lid)"
    and f: "l_finished l = l_finished (d_leases d ! lid) \<or>
      (\<forall>key s. map_of (d_sessions d) key = Some s \<longrightarrow> lid \<notin> set (s_openLeases s))"
  shows "disp_core (put_lease lid l d)"
proof -
  have "session_ok (put_lease lid l d) key s" if s: "map_of (d_sessions d) key = Some s" for key s
  proof -
    have so: "session_ok d key s" using c s by (simp add: disp_core_def)
    have "l_key ((d_leases d)[lid := l] ! x) = key \<and> \<not> l_finished ((d_leases d)[lid := l] ! x)"
      if "x \<in> set (s_openLeases s)" for x
      using so that f s k i by (cases "x = lid") (auto simp: session_ok_def)
    then show ?thesis using so by (simp add: session_ok_def put_lease_def)
  qed
  moreover have "\<forall>x \<in> set ((d_leases d)[lid := l]). lease_ok d x"
    by (rule ball_set_update[OF i]) (use c l in \<open>auto simp: disp_core_def\<close>)
  ultimately show ?thesis using c
    by (simp add: disp_core_def put_lease_def lease_ok_def serial_ok_def active_turn_def)
qed

lemma put_lease_session: "put_lease lid l (put_session key s d) = put_session key s (put_lease lid l d)"
  by (cases d) (simp add: put_lease_def put_session_def)

lemma live_put_lease [simp]: "live_except K (put_lease lid l d) = live_except K d"
  by (simp add: live_except_def put_lease_def)

lemma put_lease_sel [simp]:
  "d_budget (put_lease lid l d) = d_budget d" "d_sessions (put_lease lid l d) = d_sessions d"
  "d_disposed (put_lease lid l d) = d_disposed d" "length (d_leases (put_lease lid l d)) = length (d_leases d)"
  "d_log (put_lease lid l d) = d_log d"
  by (simp_all add: put_lease_def)

lemma inv_lease_ok: "disp_core d \<Longrightarrow> lid < length (d_leases d) \<Longrightarrow> lease_ok d (d_leases d ! lid)"
  by (simp add: disp_core_def)

lemma tokenFor_ok:
  assumes c: "disp_core d" and t: "tokenFor cfg key d = (tok, d1)"
  shows "disp_core d1" "live_except K d1 = live_except K d" "d_leases d1 = d_leases d" "d_disposed d1 = d_disposed d"
    "b_reservations (d_budget d1) = b_reservations (d_budget d)" "d_sessions d1 = d_sessions d"
proof -
  have "disp_core d1 \<and> (live_except K d1 = live_except K d) \<and> d_leases d1 = d_leases d \<and> d_disposed d1 = d_disposed d \<and>
    b_reservations (d_budget d1) = b_reservations (d_budget d) \<and> d_sessions d1 = d_sessions d"
    using c t
    by (auto simp: tokenFor_def createSessionToken_def Let_def disp_core_def session_ok_def lease_ok_def
        serial_ok_def live_except_def valid_rid_def budget_inv_new_token split: option.splits)
  then show "disp_core d1" "live_except K d1 = live_except K d" "d_leases d1 = d_leases d" "d_disposed d1 = d_disposed d"
    "b_reservations (d_budget d1) = b_reservations (d_budget d)" "d_sessions d1 = d_sessions d" by blast+
qed

definition lease_grows :: "'m dispatcher \<Rightarrow> 'm dispatcher \<Rightarrow> bool" where
  "lease_grows d d' \<longleftrightarrow> length (d_leases d') = length (d_leases d) \<and> d_disposed d' = d_disposed d \<and>
     (\<forall>i. valid_rid i (d_budget d) \<longrightarrow> valid_rid i (d_budget d'))"

text \<open>A budget step of the dispatcher that succeeds keeps everything.\<close>

lemma disp_inv_budget:
  "disp_inv d \<Longrightarrow> budget_inv b \<Longrightarrow> \<forall>i. valid_rid i (d_budget d) \<longrightarrow> valid_rid i b \<Longrightarrow> disp_inv (d\<lparr>d_budget := b\<rparr>)"
  using disp_core_budget[of d b] by (simp add: disp_inv_def)

lemma release_rid_ok:
  assumes "disp_inv d" "valid_rid i (d_budget d)"
  shows "\<exists>d'. release_rid i d = Inr d' \<and> disp_inv d' \<and> lease_grows d d' \<and> d_leases d' = d_leases d"
  using release_all_ok[of d "[i]"] assms
  by (auto simp: release_rid_all disp_inv_def lease_grows_def)

lemma reject_tail_ok:
  assumes "disp_inv d" "lid < length (d_leases d)" "l = d_leases d ! lid"
  shows "\<exists>d'. reject_tail lid l r d = Inr (OfferRejected r, d') \<and> disp_inv d' \<and> lease_grows d d'"
proof -
  have "disp_core (put_lease lid (l\<lparr>l_tailRejected := Some r\<rparr>) d)"
    by (rule disp_core_put_lease)
      (use assms inv_lease_ok[of d lid] in \<open>auto simp: disp_inv_def lease_ok_def\<close>)
  then show ?thesis using assms by (auto simp: reject_tail_def disp_inv_def lease_grows_def)
qed

lemma accept_entry_ok:
  assumes "disp_inv d" "lid < length (d_leases d)" "l = d_leases d ! lid" "valid_rid i (d_budget d)"
  shows "\<exists>d'. accept_entry lid l m i d = Inr (OfferAccepted (length (l_entries l)), d') \<and> disp_inv d' \<and>
    lease_grows d d' \<and> length (l_entries l) < length (l_entries (d_leases d' ! lid))"
proof -
  let ?l = "l\<lparr>l_entries := l_entries l @ [\<lparr>le_message = m, le_rid = i, le_state = Provisional\<rparr>]\<rparr>"
  have "disp_core (put_lease lid ?l d)"
    by (rule disp_core_put_lease)
      (use assms inv_lease_ok[of d lid] in \<open>auto simp: disp_inv_def lease_ok_def\<close>)
  moreover have "d_leases (put_lease lid ?l d) ! lid = ?l" using assms by (simp add: put_lease_def)
  ultimately show ?thesis using assms by (auto simp: accept_entry_def disp_inv_def lease_grows_def)
qed

lemma lease_grows_trans: "lease_grows a b \<Longrightarrow> lease_grows b c \<Longrightarrow> lease_grows a c"
  by (simp add: lease_grows_def)

definition offer_post :: "nat \<Rightarrow> 'm dispatcher \<Rightarrow> offer_result \<times> 'm dispatcher \<Rightarrow> bool" where
  "offer_post lid d = (\<lambda>(res, d'). disp_inv d' \<and> lease_grows d d' \<and>
     (case res of OfferAccepted k \<Rightarrow> k < length (l_entries (d_leases d' ! lid)) | _ \<Rightarrow> True))"

lemma offer_supplied_ok:
  assumes inv: "disp_inv d" and lid: "lid < length (d_leases d)" and v: "valid_rid i (d_budget d)"
    and open1: "\<not> d_disposed d" "\<not> l_finished (d_leases d ! lid)" "l_tailRejected (d_leases d ! lid) = None"
  shows "case offer cfg lid m (Some i) d of
     Inr r \<Rightarrow> offer_post lid d r | Inl e \<Rightarrow> e = AlreadyReleased \<and> rid_requested i (d_budget d)"
proof -
  let ?l = "d_leases d ! lid" and ?r = "b_reservations (d_budget d) ! i"
  obtain tok d1 where t: "tokenFor cfg (l_key ?l) d = (tok, d1)" by (cases "tokenFor cfg (l_key ?l) d")
  have c: "disp_core d" using inv by (simp add: disp_inv_def)
  note T = tokenFor_ok[OF c t]
  have inv1: "disp_inv d1" using inv T(1) T(2)[of "{}"] by (simp add: disp_inv_def)
  have g1: "lease_grows d d1" and v1: "valid_rid i (d_budget d1)" and lid1: "lid < length (d_leases d1)" "?l = d_leases d1 ! lid"
    using T v lid by (auto simp: lease_grows_def valid_rid_def)
  have i: "i < length (b_reservations (d_budget d))" using v by (simp add: valid_rid_def)
  have rej: "\<exists>d'. bindE (release_rid i x) (reject_tail lid ?l SessionMessageCount) = Inr (OfferRejected SessionMessageCount, d') \<and>
      disp_inv d' \<and> lease_grows x d'" if x: "disp_inv x" "valid_rid i (d_budget x)" "lid < length (d_leases x)" "?l = d_leases x ! lid" for x
  proof -
    obtain y where y: "release_rid i x = Inr y" "disp_inv y" "lease_grows x y" "d_leases y = d_leases x"
      using release_rid_ok[OF x(1,2)] by blast
    then show ?thesis using reject_tail_ok[of y lid ?l SessionMessageCount] x lease_grows_trans[OF y(3)] by auto
  qed
  show ?thesis
  proof (cases "r_released ?r \<or> r_session ?r \<noteq> tok")
    case True
    then show ?thesis
      using open1 i t rej[OF inv v lid refl] rej[OF inv1 v1 lid1] lease_grows_trans[OF g1]
      by (auto simp: offer_def Let_def with_reservation_def offer_post_def)
  next
    case False
    have b1: "budget_inv (d_budget d1)" using inv1 by (simp add: disp_inv_def disp_core_def)
    have eval: "offer cfg lid m (Some i) d =
        bindE (transfer i PendingOwner (d_budget d1)) (\<lambda>b. accept_entry lid ?l m i (d1\<lparr>d_budget := b\<rparr>))"
      using open1 i t False by (simp add: offer_def Let_def with_reservation_def)
    show ?thesis
    proof (cases "r_requested ?r")
      case True
      then have "transfer i PendingOwner (d_budget d1) = Inl AlreadyReleased"
        using transfer_ok[OF b1, of i] v1 T(5) by (simp add: valid_rid_def)
      then show ?thesis using True eval by (simp add: rid_requested_def)
    next
      case nq: False
      then obtain b where b: "transfer i PendingOwner (d_budget d1) = Inr b" "budget_inv b" "same_frame (d_budget d1) b"
        using transfer_ok[OF b1, of i PendingOwner] v1 T(5) by (auto simp: valid_rid_def)
      have inv2: "disp_inv (d1\<lparr>d_budget := b\<rparr>)"
        by (rule disp_inv_budget[OF inv1 b(2)]) (use b(3) in \<open>auto simp: same_frame_def valid_rid_def\<close>)
      have g2: "lease_grows d (d1\<lparr>d_budget := b\<rparr>)" using g1 b(3) by (auto simp: lease_grows_def same_frame_def valid_rid_def)
      have v2: "valid_rid i b" using v1 b(3) by (simp add: same_frame_def valid_rid_def)
      obtain d' where "accept_entry lid ?l m i (d1\<lparr>d_budget := b\<rparr>) = Inr (OfferAccepted (length (l_entries ?l)), d')"
          "disp_inv d'" "lease_grows (d1\<lparr>d_budget := b\<rparr>) d'" "length (l_entries ?l) < length (l_entries (d_leases d' ! lid))"
        using accept_entry_ok[OF inv2, of lid ?l i m] lid1 v2 by auto
      then show ?thesis using eval b(1) lease_grows_trans[OF g2] by (auto simp: offer_post_def)
    qed
  qed
qed

lemma offer_fresh_ok:
  assumes inv: "disp_inv d" and lid: "lid < length (d_leases d)"
    and open1: "\<not> d_disposed d" "\<not> l_finished (d_leases d ! lid)" "l_tailRejected (d_leases d ! lid) = None"
  shows "case offer cfg lid m None d of Inr r \<Rightarrow> offer_post lid d r | Inl e \<Rightarrow> False"
proof (cases "checkedCharge (dc_measure cfg) m")
  case None
  obtain d' where "reject_tail lid (d_leases d ! lid) SessionByteCount d = Inr (OfferRejected SessionByteCount, d')"
      "disp_inv d'" "lease_grows d d'" using reject_tail_ok[OF inv lid refl] by blast
  then show ?thesis using None open1 by (simp add: offer_def offer_post_def)
next
  case (Some c)
  let ?l = "d_leases d ! lid"
  obtain tok d1 where t: "tokenFor cfg (l_key ?l) d = (tok, d1)" by (cases "tokenFor cfg (l_key ?l) d")
  have co: "disp_core d" using inv by (simp add: disp_inv_def)
  note T = tokenFor_ok[OF co t]
  have inv1: "disp_inv d1" using inv T(1) T(2)[of "{}"] by (simp add: disp_inv_def)
  have b1: "budget_inv (d_budget d1)" using inv1 by (simp add: disp_inv_def disp_core_def)
  have s: "safe_nonneg (JsInt c) = Some c"
    using Some safe_nonneg_SomeD by (fastforce simp: checkedCharge_def safe_nonneg_int_def split: option.splits)
  have eval: "offer cfg lid m None d = bindE (tryReserve tok (JsInt c) PendingOwner (d_budget d1)) (\<lambda>(res, b).
        case res of Rejected reason \<Rightarrow> reject_tail lid ?l reason (d1\<lparr>d_budget := b\<rparr>)
        | Accepted i \<Rightarrow> accept_entry lid ?l m i (d1\<lparr>d_budget := b\<rparr>))"
    using open1 Some t by (simp add: offer_def Let_def)
  show ?thesis
  proof (cases "fits (d_budget d1) tok c")
    case True
    obtain b where b: "tryReserve tok (JsInt c) PendingOwner (d_budget d1) =
          Inr (Accepted (length (b_reservations (d_budget d1))), b)" "budget_inv b"
        "b_reservations b = b_reservations (d_budget d1) @ [new_reservation tok c PendingOwner]"
      using tryReserve_accept[OF b1 s True, of PendingOwner] by auto
    have inv2: "disp_inv (d1\<lparr>d_budget := b\<rparr>)"
      by (rule disp_inv_budget[OF inv1 b(2)]) (auto simp: b(3) valid_rid_def)
    have g: "lease_grows d (d1\<lparr>d_budget := b\<rparr>)" using T b(3) by (auto simp: lease_grows_def valid_rid_def)
    obtain d' where "accept_entry lid ?l m (length (b_reservations (d_budget d1))) (d1\<lparr>d_budget := b\<rparr>)
          = Inr (OfferAccepted (length (l_entries ?l)), d')" "disp_inv d'" "lease_grows (d1\<lparr>d_budget := b\<rparr>) d'"
          "length (l_entries ?l) < length (l_entries (d_leases d' ! lid))"
      using accept_entry_ok[OF inv2, of lid ?l _ m] lid T(3) b(3) by (auto simp: valid_rid_def)
    then show ?thesis using eval b(1) lease_grows_trans[OF g] by (auto simp: offer_post_def)
  next
    case False
    obtain reason where r: "tryReserve tok (JsInt c) PendingOwner (d_budget d1) = Inr (Rejected reason, d_budget d1)"
      using tryReserve_reject[OF s False] by blast
    have g: "lease_grows d d1" using T by (auto simp: lease_grows_def valid_rid_def)
    obtain d' where "reject_tail lid ?l reason d1 = Inr (OfferRejected reason, d')" "disp_inv d'" "lease_grows d1 d'"
      using reject_tail_ok[OF inv1, of lid ?l reason] lid T(3) by auto
    then show ?thesis using eval r lease_grows_trans[OF g] by (auto simp: offer_post_def)
  qed
qed

lemma offer_ok:
  assumes inv: "disp_inv d" and lid: "lid < length (d_leases d)" and v: "\<forall>i \<in> set_option supplied. valid_rid i (d_budget d)"
  shows "case offer cfg lid m supplied d of
     Inr r \<Rightarrow> offer_post lid d r
   | Inl e \<Rightarrow> e = AlreadyReleased \<and> (\<exists>i. supplied = Some i \<and> rid_requested i (d_budget d))"
proof (cases "d_disposed d \<or> l_finished (d_leases d ! lid) \<or> l_tailRejected (d_leases d ! lid) \<noteq> None")
  case True
  have "\<exists>d'. release_supplied supplied d = Inr d' \<and> disp_inv d' \<and> lease_grows d d'"
    using release_rid_ok[OF inv] v inv by (cases supplied) (auto simp: lease_grows_def)
  then show ?thesis using True inv
    by (auto simp: offer_def Let_def offer_post_def lease_grows_def split: option.splits)
next
  case False
  then have o: "\<not> d_disposed d" "\<not> l_finished (d_leases d ! lid)" "l_tailRejected (d_leases d ! lid) = None" by auto
  show ?thesis
  proof (cases supplied)
    case None
    then show ?thesis using offer_fresh_ok[OF inv lid o, of cfg m] by (auto split: sum.splits)
  next
    case (Some i)
    then have "valid_rid i (d_budget d)" using v by simp
    then show ?thesis using Some offer_supplied_ok[OF inv lid _ o, of i cfg m] by (auto split: sum.splits)
  qed
qed

lemma set_entry_state_ok:
  assumes "disp_inv d" "lid < length (d_leases d)" "k < length (l_entries (d_leases d ! lid))"
  shows "disp_inv (set_entry_state lid k st d)" "lease_grows d (set_entry_state lid k st d)"
proof -
  let ?l = "d_leases d ! lid"
  have ok: "\<forall>e \<in> set (l_entries ?l). valid_rid (le_rid e) (d_budget d)"
    using inv_lease_ok[of d lid] assms by (simp add: disp_inv_def lease_ok_def)
  have "\<forall>e \<in> set ((l_entries ?l)[k := (l_entries ?l ! k)\<lparr>le_state := st\<rparr>]). valid_rid (le_rid e) (d_budget d)"
    by (rule ball_set_update[OF assms(3)]) (use ok assms(3) in auto)
  then have "disp_core (set_entry_state lid k st d)" unfolding set_entry_state_def Let_def
    by (intro disp_core_put_lease) (use assms in \<open>auto simp: disp_inv_def lease_ok_def\<close>)
  then show "disp_inv (set_entry_state lid k st d)" "lease_grows d (set_entry_state lid k st d)"
    using assms by (simp_all add: disp_inv_def set_entry_state_def Let_def lease_grows_def)
qed

lemma set_entry_state_budget [simp]: "d_budget (set_entry_state lid k st d) = d_budget d"
  by (simp add: set_entry_state_def Let_def)

lemma release_entry_ok:
  assumes "disp_inv d" "lid < length (d_leases d)" "k < length (l_entries (d_leases d ! lid))"
  shows "\<exists>d'. release_rid (le_rid (l_entries (d_leases d ! lid) ! k)) (set_entry_state lid k RolledBack d) = Inr d' \<and>
    disp_inv d' \<and> lease_grows d d'"
proof -
  have "valid_rid (le_rid (l_entries (d_leases d ! lid) ! k)) (d_budget d)"
    using inv_lease_ok[of d lid] assms by (simp add: disp_inv_def lease_ok_def)
  then show ?thesis
    using release_rid_ok[OF set_entry_state_ok(1)[OF assms]] lease_grows_trans[OF set_entry_state_ok(2)[OF assms]]
    by (metis set_entry_state_budget)
qed

lemma commit_ok:
  assumes "disp_inv d" "lid < length (d_leases d)" "k < length (l_entries (d_leases d ! lid))"
  shows "\<exists>d'. commit lid k d = Inr d' \<and> disp_inv d' \<and> lease_grows d d'"
  using release_entry_ok[OF assms] set_entry_state_ok[OF assms, of Committed] assms(1)
  by (auto simp: commit_def Let_def lease_grows_def)

lemma rollback_ok:
  assumes "disp_inv d" "lid < length (d_leases d)" "k < length (l_entries (d_leases d ! lid))"
  shows "\<exists>d'. rollback lid k d = Inr d' \<and> disp_inv d' \<and> lease_grows d d'"
  using release_entry_ok[OF assms] assms(1)
  by (auto simp: rollback_def Let_def lease_grows_def)

lemma lease_ok_settled:
  "lease_ok d l \<Longrightarrow> lease_ok d (l\<lparr>l_finished := True, l_entries := map settle_entry (l_entries l)\<rparr>)"
  by (auto simp: lease_ok_def settle_entry_def)

text \<open>Closing one lease of a session: it leaves the open set and its entries change hands.\<close>

lemma close_one_ok:
  assumes c: "disp_core d" and lid: "lid < length (d_leases d)" and key: "l_key (d_leases d ! lid) = key"
    and s: "map_of (d_sessions d) key = Some s"
    and l': "lease_ok d l'" "l_key l' = key"
    and p: "\<forall>e \<in> set pend. valid_rid (re_rid e) (d_budget d)"
  shows "disp_core (put_session key (s\<lparr>s_openLeases := remove1 lid (s_openLeases s), s_pending := pend\<rparr>) (put_lease lid l' d))"
    (is "disp_core (put_session key ?s _)")
proof -
  have nd: "\<not> d_disposed d" using c s by (auto simp: disp_core_def)
  have so: "session_ok d key s" using c s by (simp add: disp_core_def)
  have c1: "disp_core (put_session key ?s d)"
    by (rule disp_core_put_session[OF c _ nd active_put_session[OF s]])
      (use so p in \<open>auto simp: session_ok_def dest: notin_set_remove1\<close>)
  have notin: "lid \<notin> set (s_openLeases x)" if "map_of (d_sessions (put_session key ?s d)) k = Some x" for k x
  proof (cases "k = key")
    case True
    then show ?thesis using that so by (auto simp: put_session_def alist_simps session_ok_def)
  next
    case False
    then have "session_ok d k x" using that c by (simp add: put_session_def alist_simps disp_core_def)
    then show ?thesis using False key by (auto simp: session_ok_def)
  qed
  have "disp_core (put_lease lid l' (put_session key ?s d))"
    by (rule disp_core_put_lease[OF c1])
      (use lid l' key notin in \<open>auto simp: put_session_def lease_ok_def\<close>)
  then show ?thesis by (simp add: put_lease_session)
qed

lemma finish_lease_ok:
  assumes inv: "disp_inv d" and lid: "lid < length (d_leases d)"
  shows "\<exists>d'. finish_lease cfg lid d = Inr d' \<and> disp_inv d'"
proof (cases "\<exists>s. \<not> l_finished (d_leases d ! lid) \<and> map_of (d_sessions d) (l_key (d_leases d ! lid)) = Some s")
  case False
  then show ?thesis using inv by (auto simp: finish_lease_def Let_def split: option.splits)
next
  case True
  let ?l = "d_leases d ! lid"
  let ?k = "l_key ?l"
  obtain s where s: "map_of (d_sessions d) ?k = Some s" and nf: "\<not> l_finished ?l" using True by blast
  define s' where "s' = s\<lparr>s_openLeases := remove1 lid (s_openLeases s),
                     s_pending := s_pending s @ attached_entries (l_entries ?l)\<rparr>"
  define d1 where "d1 = put_session ?k s' (put_lease lid (?l\<lparr>l_finished := True, l_entries := map settle_entry (l_entries ?l)\<rparr>) d)"
  have c: "disp_core d" and lv: "live_except {} d" using inv by (simp_all add: disp_inv_def)
  have lo: "lease_ok d ?l" using inv_lease_ok[OF c lid] .
  have so: "session_ok d ?k s" using c s by (simp add: disp_core_def)
  have c1: "disp_core d1" unfolding d1_def s'_def
    by (rule close_one_ok[OF c lid refl s lease_ok_settled[OF lo]])
      (use so lo in \<open>auto simp: session_ok_def attached_entries_def lease_ok_def\<close>)
  have l1: "live_except {?k} d1" using lv by (auto simp: d1_def live_except_def put_session_def put_lease_def alist_simps)
  obtain b where b: "release_all (provisional_rids (l_entries ?l)) d1 = Inr (d1\<lparr>d_budget := b\<rparr>)" "disp_core (d1\<lparr>d_budget := b\<rparr>)"
    using release_all_ok[OF c1, of "provisional_rids (l_entries ?l)"] lo
    by (auto simp: provisional_rids_def lease_ok_def d1_def put_session_def)
  have l2: "live_except {?k} (d1\<lparr>d_budget := b\<rparr>)" using l1 by simp
  have look: "map_of (d_sessions (d1\<lparr>d_budget := b\<rparr>)) ?k = Some s'" by (simp add: d1_def put_session_def alist_simps)
  have eval: "finish_lease cfg lid d =
      (if (s_running s' = None \<or> s_readyToDrain s') \<and> s_openLeases s' = [] then drain cfg ?k (d1\<lparr>d_budget := b\<rparr>)
       else Inr (d1\<lparr>d_budget := b\<rparr>))"
    using nf s b(1) by (auto simp: finish_lease_def Let_def d1_def s'_def)
  show ?thesis
  proof (cases "(s_running s' = None \<or> s_readyToDrain s') \<and> s_openLeases s' = []")
    case True
    then show ?thesis using eval drain_ok[OF b(2) l2] by simp
  next
    case False
    then have "session_live s'" by (auto simp: session_live_def)
    then have "live_except {} (d1\<lparr>d_budget := b\<rparr>)" using look by (intro live_except_drop[OF l2]) simp
    then show ?thesis using eval False b(2) by (simp add: disp_inv_def)
  qed
qed

lemma rid_requested_budget_eq: "b_reservations b = b_reservations b' \<Longrightarrow> rid_requested i b = rid_requested i b'"
  by (simp add: rid_requested_def)

lemma dispatch_ok:
  assumes inv: "disp_inv d" and v: "\<forall>i \<in> set_option supplied. valid_rid i (d_budget d)"
  shows "case dispatch cfg key m supplied d of
     Inr (res, d') \<Rightarrow> disp_inv d'
   | Inl e \<Rightarrow> e = AlreadyReleased \<and> (\<exists>i. supplied = Some i \<and> rid_requested i (d_budget d))"
proof -
  obtain res0 d0 where b: "beginBatch key d = (res0, d0)" by (cases "beginBatch key d")
  note B = beginBatch_ok[OF inv b]
  have rel: "\<exists>y. release_supplied supplied x = Inr y \<and> disp_inv y \<and> d_leases y = d_leases x"
    if "disp_inv x" "\<forall>i \<in> set_option supplied. valid_rid i (d_budget x)" for x
    using release_rid_ok[OF that(1)] that by (cases supplied) auto
  show ?thesis
  proof (cases res0)
    case None
    then show ?thesis using b B rel[OF inv v] by (auto simp: dispatch_def)
  next
    case (Some lid)
    have inv0: "disp_inv d0" and lid: "lid < length (d_leases d0)" and v0: "\<forall>i \<in> set_option supplied. valid_rid i (d_budget d0)"
      using B Some v by auto
    note O = offer_ok[OF inv0 lid v0, of cfg m]
    show ?thesis
    proof (cases "offer cfg lid m supplied d0")
      case (Inl e)
      then show ?thesis using O b Some B by (simp add: dispatch_def)
    next
      case (Inr p)
      obtain res d1 where p: "p = (res, d1)" by (cases p)
      have d1: "disp_inv d1" "lease_grows d0 d1" "case res of OfferAccepted k \<Rightarrow> k < length (l_entries (d_leases d1 ! lid)) | _ \<Rightarrow> True"
        using O Inr p by (auto simp: offer_post_def)
      have lid1: "lid < length (d_leases d1)" and v1: "\<forall>i \<in> set_option supplied. valid_rid i (d_budget d1)"
        using d1 lid v0 by (auto simp: lease_grows_def)
      have "\<exists>d2. (case res of OfferAccepted k \<Rightarrow> commit lid k d1 | _ \<Rightarrow> release_supplied supplied d1) = Inr d2 \<and>
          disp_inv d2 \<and> lid < length (d_leases d2)"
        using rel[OF d1(1) v1] commit_ok[OF d1(1) lid1] d1(3) lid1
        by (cases res) (simp_all add: lease_grows_def, metis, metis, metis)
      then obtain d2 where "(case res of OfferAccepted k \<Rightarrow> commit lid k d1 | _ \<Rightarrow> release_supplied supplied d1) = Inr d2"
          "disp_inv d2" "lid < length (d_leases d2)" by blast
      then show ?thesis using finish_lease_ok[of d2 lid cfg] b Some Inr p by (auto simp: dispatch_def)
    qed
  qed
qed

subsection \<open>Clearing and disposing\<close>

lemma roll_back_leases_ok:
  assumes "disp_core d" "\<forall>lid \<in> set ls. lid < length (d_leases d)"
  defines "d' \<equiv> fold (\<lambda>lid d. put_lease lid (roll_back_lease (d_leases d ! lid)) d) ls d"
  shows "disp_core d' \<and> d_sessions d' = d_sessions d \<and> d_budget d' = d_budget d \<and> d_disposed d' = d_disposed d \<and>
    length (d_leases d') = length (d_leases d)"
  using assms(1,2) unfolding d'_def
proof (induction ls arbitrary: d)
  case Nil
  then show ?case by simp
next
  case (Cons lid ls)
  let ?d = "put_lease lid (roll_back_lease (d_leases d ! lid)) d"
  have "lease_ok d (d_leases d ! lid)" using inv_lease_ok[of d lid] Cons.prems by simp
  then have "disp_core ?d"
    by (intro disp_core_put_lease) (use Cons.prems in \<open>auto simp: roll_back_lease_def lease_ok_def\<close>)
  then show ?case using Cons.IH[of ?d] Cons.prems by simp
qed

lemma roll_back_leases_at:
  "\<forall>x \<in> set ls. x < length (d_leases d) \<Longrightarrow>
   d_leases (fold (\<lambda>lid d. put_lease lid (roll_back_lease (d_leases d ! lid)) d) ls d) ! lid =
     (if lid \<in> set ls then roll_back_lease (d_leases d ! lid) else d_leases d ! lid)"
proof (induction ls arbitrary: d)
  case (Cons x ls)
  have twice: "roll_back_lease (roll_back_lease l) = roll_back_lease l" for l :: "'a lease" by (simp add: roll_back_lease_def)
  let ?d = "put_lease x (roll_back_lease (d_leases d ! x)) d"
  have "d_leases ?d ! lid = (if lid = x then roll_back_lease (d_leases d ! x) else d_leases d ! lid)"
    using Cons.prems by (simp add: put_lease_def)
  moreover have "\<forall>y \<in> set ls. y < length (d_leases ?d)" using Cons.prems by simp
  ultimately show ?case using Cons.IH[of ?d] by (cases "lid = x") (simp_all add: twice)
qed simp

text \<open>The reservations \<^verbatim>\<open>clearPending\<close> drops, in the order it drops them.\<close>

definition session_rids :: "'m dispatcher \<Rightarrow> 'm dsession \<Rightarrow> rid list" where
  "session_rids d s = map re_rid (s_pending s) @
     map le_rid (concat (map (\<lambda>lid. live_lease_entries (d_leases d ! lid)) (s_openLeases s)))"

lemma session_rids_valid:
  assumes "disp_core d" "map_of (d_sessions d) key = Some s"
  shows "\<forall>i \<in> set (session_rids d s). valid_rid i (d_budget d)"
proof -
  have so: "session_ok d key s" using assms by (simp add: disp_core_def)
  moreover have "lease_ok d (d_leases d ! lid)" if "lid \<in> set (s_openLeases s)" for lid
    using inv_lease_ok[OF assms(1)] so that by (simp add: session_ok_def)
  ultimately show ?thesis by (auto simp: session_rids_def session_ok_def lease_ok_def live_lease_entries_def)
qed

lemma clearPending_ok:
  assumes inv: "disp_inv d"
  shows "\<exists>ms d'. clearPending cfg key d = Inr (ms, d') \<and> disp_inv d' \<and> pendingBuffered key d' = 0 \<and>
    (\<forall>s. map_of (d_sessions d) key = Some s \<longrightarrow> foldE requestRelease (session_rids d s) (d_budget d) = Inr (d_budget d'))"
proof (cases "map_of (d_sessions d) key")
  case None
  then show ?thesis using inv by (simp add: clearPending_def pendingBuffered_def)
next
  case (Some s)
  have c: "disp_core d" and lv: "live_except {} d" using inv by (simp_all add: disp_inv_def)
  have so: "session_ok d key s" using c Some by (simp add: disp_core_def)
  define dl where "dl = fold (\<lambda>lid d. put_lease lid (roll_back_lease (d_leases d ! lid)) d) (s_openLeases s) d"
  define d1 where "d1 = put_session key (s\<lparr>s_pending := []\<rparr>) dl"
  have L: "disp_core dl" "d_sessions dl = d_sessions d" "d_budget dl = d_budget d" "d_disposed dl = d_disposed d"
    using roll_back_leases_ok[OF c, of "s_openLeases s"] so by (auto simp: dl_def session_ok_def)
  have sl: "map_of (d_sessions dl) key = Some s" using Some L by simp
  have nd: "\<not> d_disposed dl" using L c Some by (auto simp: disp_core_def)
  have so1: "session_ok dl key s" using L(1) sl by (simp add: disp_core_def)
  have c1: "disp_core d1" unfolding d1_def
    by (rule disp_core_put_session[OF L(1) _ nd active_put_session[OF sl]]) (use so1 in \<open>auto simp: session_ok_def\<close>)
  have bd: "d_budget d1 = d_budget d" by (simp add: d1_def put_session_def L)
  obtain b where b: "release_all (session_rids d s) d1 = Inr (d1\<lparr>d_budget := b\<rparr>)" "disp_core (d1\<lparr>d_budget := b\<rparr>)"
    using release_all_ok[OF c1, of "session_rids d s"] session_rids_valid[OF c Some] bd by auto
  have look: "map_of (d_sessions d1) key = Some (s\<lparr>s_pending := []\<rparr>)" by (simp add: d1_def put_session_def alist_simps)
  have "live_except {key} (d1\<lparr>d_budget := b\<rparr>)"
    using lv by (auto simp: d1_def live_except_def put_session_def L alist_simps)
  then have "disp_inv (maybeForget cfg key (d1\<lparr>d_budget := b\<rparr>))" by (rule maybeForget_ok[OF b(2)]) (simp add: look)
  moreover have "pendingBuffered key (maybeForget cfg key (d1\<lparr>d_budget := b\<rparr>)) = 0"
    using look by (simp add: pendingBuffered_def maybeForget_def alist_simps)
  moreover have "foldE requestRelease (session_rids d s) (d_budget d) = Inr b"
    using b(1) bd by (cases "foldE requestRelease (session_rids d s) (d_budget d)") (auto simp: release_all_def dest: arg_cong[where f = d_budget])
  moreover have "d_budget (maybeForget cfg key (d1\<lparr>d_budget := b\<rparr>)) = b"
    by (simp add: maybeForget_def split: option.splits)
  moreover have "clearPending cfg key d = Inr (map re_message (s_pending s) @
      map le_message (concat (map (\<lambda>lid. live_lease_entries (d_leases d ! lid)) (s_openLeases s))),
      maybeForget cfg key (d1\<lparr>d_budget := b\<rparr>))"
    using Some b(1) by (simp add: clearPending_def Let_def session_rids_def d1_def dl_def comp_def)
  ultimately show ?thesis using Some by auto
qed

lemma lease_ok_budget: "d_budget d = d_budget d' \<Longrightarrow> lease_ok d = lease_ok d'"
  by (simp add: lease_ok_def fun_eq_iff)

lemma close_lease_facts:
  assumes "lid < length (d_leases d)" "\<forall>l \<in> set (d_leases d). lease_ok d l"
  shows "\<forall>l \<in> set (d_leases (close_lease lid d)). lease_ok d l" "d_budget (close_lease lid d) = d_budget d"
    "d_log (close_lease lid d) = d_log d" "length (d_leases (close_lease lid d)) = length (d_leases d)"
proof -
  have "lease_ok d (d_leases d ! lid)" using assms by simp
  then have "lease_ok d ((roll_back_lease (d_leases d ! lid))\<lparr>l_finished := True\<rparr>)"
    by (auto simp: roll_back_lease_def lease_ok_def)
  then have "\<forall>l \<in> set ((d_leases d)[lid := (roll_back_lease (d_leases d ! lid))\<lparr>l_finished := True\<rparr>]). lease_ok d l"
    by (intro ball_set_update[OF assms(1)]) (use assms(2) in auto)
  then show "\<forall>l \<in> set (d_leases (close_lease lid d)). lease_ok d l" by (simp add: close_lease_def put_lease_def)
qed (simp_all add: close_lease_def)

lemma close_leases_facts:
  "\<forall>lid \<in> set lids. lid < length (d_leases d) \<Longrightarrow> \<forall>l \<in> set (d_leases d). lease_ok d l \<Longrightarrow>
   (\<forall>l \<in> set (d_leases (fold close_lease lids d)). lease_ok d l) \<and> d_log (fold close_lease lids d) = d_log d"
proof (induction lids arbitrary: d)
  case Nil
  then show ?case by simp
next
  case (Cons lid lids)
  have lid: "lid < length (d_leases d)" using Cons.prems(1) by simp
  note F = close_lease_facts[OF lid Cons.prems(2)]
  have eq: "lease_ok (close_lease lid d) = lease_ok d" by (rule lease_ok_budget[OF F(2)])
  show ?case using Cons.IH[of "close_lease lid d"] Cons.prems(1) F by (simp add: eq)
qed

lemma detached_turns_all:
  "distinct (js_keys ss) \<Longrightarrow> (\<forall>k. map_of (detached_turns ss) k = Option.bind (map_of ss k) s_running) \<and>
     distinct (js_keys (detached_turns ss)) \<and> set (js_keys (detached_turns ss)) \<subseteq> set (js_keys ss)"
proof (induction ss)
  case (Cons e ss)
  obtain k' s where e: "e = (k', s)" by fastforce
  have split: "detached_turns (e # ss) = (case s_running s of Some t \<Rightarrow> [(k', t)] | None \<Rightarrow> []) @ detached_turns ss"
    by (simp add: detached_turns_def e)
  have ih: "map_of (detached_turns ss) k = Option.bind (map_of ss k) s_running" "distinct (js_keys (detached_turns ss))"
    "set (js_keys (detached_turns ss)) \<subseteq> set (js_keys ss)" for k using Cons by simp_all
  have new: "map_of ss k' = None" "k' \<notin> set (js_keys (detached_turns ss))" using Cons.prems ih(3) by (auto simp: e map_of_eq_None_iff)
  have "map_of (detached_turns (e # ss)) k = Option.bind (map_of (e # ss) k) s_running" for k
    using ih(1) new(1) by (cases "k = k'"; cases "s_running s") (simp_all add: split[unfolded e] e)
  moreover have "distinct (js_keys (detached_turns (e # ss)))" "set (js_keys (detached_turns (e # ss))) \<subseteq> set (js_keys (e # ss))"
    using ih(2,3) new(2) by (cases "s_running s"; auto simp: split[unfolded e] e)+
  ultimately show ?case by blast
qed (simp add: detached_turns_def)

lemma detached_turns_facts:
  assumes "distinct (js_keys ss)"
  shows "map_of (detached_turns ss) k = Option.bind (map_of ss k) s_running" "distinct (js_keys (detached_turns ss))"
  using detached_turns_all[OF assms] by blast+

lemma dispose_ok:
  assumes inv: "disp_inv d"
  shows "\<exists>n d'. dispose d = Inr (n, d') \<and> disp_inv d' \<and> d_disposed d' \<and> d_sessions d' = [] \<and>
    (\<not> d_disposed d \<longrightarrow> d_log d' = d_log d \<and> d_detached d' = detached_turns (d_sessions d) \<and>
      foldE requestRelease (concat (map (session_rids d \<circ> snd) (d_sessions d))) (d_budget d) = Inr (d_budget d') \<and>
      fst n + snd n = length (concat (map (session_rids d \<circ> snd) (d_sessions d))))"
proof (cases "d_disposed d")
  case True
  then show ?thesis using inv by (auto simp: dispose_def disp_inv_def disp_core_def)
next
  case False
  have c: "disp_core d" using inv by (simp add: disp_inv_def)
  have look: "map_of (d_sessions d) k = Some s" if "(k, s) \<in> set (d_sessions d)" for k s
    using that c by (simp add: disp_core_def)
  let ?rids = "concat (map (session_rids d \<circ> snd) (d_sessions d))"
  have v: "\<forall>i \<in> set ?rids. valid_rid i (d_budget d)" using session_rids_valid[OF c look] by fastforce
  have bi: "budget_inv (d_budget d)" using c by (simp add: disp_core_def)
  obtain b where b: "foldE requestRelease ?rids (d_budget d) = Inr b" "budget_inv b"
      "\<forall>i. valid_rid i (d_budget d) \<longrightarrow> valid_rid i b" using rel.foldE_total[OF bi v] by blast
  let ?lids = "concat (map s_openLeases (map snd (d_sessions d)))"
  have lids: "\<forall>lid \<in> set ?lids. lid < length (d_leases d)"
    using c look by (fastforce simp: disp_core_def session_ok_def)
  have los: "\<forall>l \<in> set (d_leases d). lease_ok d l" using c by (simp add: disp_core_def)
  note F = close_leases_facts[OF lids los]
  let ?d' = "(fold close_lease ?lids d)\<lparr>d_budget := b, d_disposed := True, d_sessions := [], d_tokens := [], d_detached := detached_turns (d_sessions d)\<rparr>"
  have dist: "distinct (js_keys (d_sessions d))" "d_detached d = []" using c False by (simp_all add: disp_core_def)
  have "active_turn ?d' k = active_turn d k" for k
    using detached_turns_facts(1)[OF dist(1), of k] dist(2) by (cases "map_of (d_sessions d) k") (simp_all add: active_turn_def)
  moreover have "serial_run k (d_log d) None = Some (active_turn d k)" for k using c by (simp add: disp_core_def serial_ok_def)
  ultimately have "serial_ok ?d'" using F by (simp add: serial_ok_def)
  then have "disp_inv ?d'" using F b detached_turns_facts(2)[OF dist(1)]
    by (auto simp: disp_inv_def disp_core_def live_except_def lease_ok_def)
  moreover have flat: "concat (map (\<lambda>s. map re_rid (s_pending s) @
      concat (map (\<lambda>lid. map le_rid (live_lease_entries (d_leases d ! lid))) (s_openLeases s))) (map snd (d_sessions d))) = ?rids"
    by (simp add: session_rids_def comp_def map_concat)
  moreover have count: "length (concat (map s_pending (map snd ss))) +
      length (concat (map (\<lambda>lid. live_lease_entries (d_leases d ! lid)) (concat (map s_openLeases (map snd ss))))) =
      length (concat (map (session_rids d \<circ> snd) ss))" for ss :: "(string, 'a dsession) js_map"
    by (induction ss) (simp_all add: session_rids_def)
  moreover have "dispose d = Inr ((length (concat (map s_pending (map snd (d_sessions d)))),
      length (concat (map (\<lambda>lid. live_lease_entries (d_leases d ! lid)) ?lids))), ?d')"
    using b(1) False unfolding dispose_def Let_def by (simp only: flat) simp
  moreover have "d_log ?d' = d_log d" "d_detached ?d' = detached_turns (d_sessions d)" using F by simp_all
  ultimately show ?thesis using b(1) by auto
qed

section \<open>Runs of the dispatcher\<close>

text \<open>
  What can happen to a dispatcher: calls on it and on the leases and offers it handed
  out, the two events of a running turn, and (\<open>EnvBudget\<close>) any progress the other
  holders of the shared budget make in between.
\<close>

datatype 'm disp_op =
    OpBegin string
  | OpOffer nat 'm "rid option"
  | OpCommit nat nat
  | OpRollback nat nat
  | OpFinish nat
  | OpDispatch string 'm "rid option"
  | OpClear string
  | OpRun string
  | OpSettle string
  | OpDispose
  | EnvBudget budget

fun op_supplied :: "'m disp_op \<Rightarrow> rid option" where
  "op_supplied (OpOffer _ _ rsv) = rsv"
| "op_supplied (OpDispatch _ _ rsv) = rsv"
| "op_supplied _ = None"

text \<open>Handles are only ones the dispatcher gave out, reservations ones the budget made.\<close>

fun handle_valid :: "'m dispatcher \<Rightarrow> 'm disp_op \<Rightarrow> bool" where
  "handle_valid d (OpOffer lid _ rsv) \<longleftrightarrow> lid < length (d_leases d) \<and> (\<forall>i \<in> set_option rsv. valid_rid i (d_budget d))"
| "handle_valid d (OpCommit lid k) \<longleftrightarrow> lid < length (d_leases d) \<and> k < length (l_entries (d_leases d ! lid))"
| "handle_valid d (OpRollback lid k) \<longleftrightarrow> lid < length (d_leases d) \<and> k < length (l_entries (d_leases d ! lid))"
| "handle_valid d (OpFinish lid) \<longleftrightarrow> lid < length (d_leases d)"
| "handle_valid d (OpDispatch _ _ rsv) \<longleftrightarrow> (\<forall>i \<in> set_option rsv. valid_rid i (d_budget d))"
| "handle_valid d (EnvBudget b) \<longleftrightarrow> False"
| "handle_valid d _ \<longleftrightarrow> True"

definition op_valid :: "'m dispatcher \<Rightarrow> 'm disp_op \<Rightarrow> bool" where
  "op_valid d op \<longleftrightarrow>
     (case op of
        EnvBudget b \<Rightarrow> budget_inv b \<and> length (b_reservations (d_budget d)) \<le> length (b_reservations b)
      | _ \<Rightarrow> handle_valid d op)"

lemma handle_op_valid: "handle_valid d op \<Longrightarrow> op_valid d op"
  by (cases op) (simp_all add: op_valid_def)

definition stateE :: "'e + 'a \<times> 's \<Rightarrow> 'e + 's" where
  "stateE r = bindE r (\<lambda>(_, s). Inr s)"

fun disp_step :: "'m dispatcher_config \<Rightarrow> 'm disp_op \<Rightarrow> 'm dispatcher \<Rightarrow> 'm disp_result" where
  "disp_step cfg (OpBegin key) d = Inr (snd (beginBatch key d))"
| "disp_step cfg (OpOffer lid m rsv) d = stateE (offer cfg lid m rsv d)"
| "disp_step cfg (OpCommit lid k) d = commit lid k d"
| "disp_step cfg (OpRollback lid k) d = rollback lid k d"
| "disp_step cfg (OpFinish lid) d = finish_lease cfg lid d"
| "disp_step cfg (OpDispatch key m rsv) d = stateE (dispatch cfg key m rsv d)"
| "disp_step cfg (OpClear key) d = stateE (clearPending cfg key d)"
| "disp_step cfg (OpRun key) d = Inr (run_handler key d)"
| "disp_step cfg (OpSettle key) d = on_settled cfg key d"
| "disp_step cfg OpDispose d = stateE (dispose d)"
| "disp_step cfg (EnvBudget b) d = Inr (d\<lparr>d_budget := b\<rparr>)"

text \<open>
  What an operation leaves behind, also when it throws: an offer throws in the transfer, after the
  token of the session is there, and a dispatch then keeps the lease it has opened.
\<close>

definition offer_thrown :: "'m dispatcher_config \<Rightarrow> nat \<Rightarrow> 'm dispatcher \<Rightarrow> 'm dispatcher" where
  "offer_thrown cfg lid d = snd (tokenFor cfg (l_key (d_leases d ! lid)) d)"

definition dispatch_thrown :: "'m dispatcher_config \<Rightarrow> string \<Rightarrow> 'm dispatcher \<Rightarrow> 'm dispatcher" where
  "dispatch_thrown cfg key d =
     (case beginBatch key d of (None, d0) \<Rightarrow> d0 | (Some lid, d0) \<Rightarrow> offer_thrown cfg lid d0)"

fun thrown_state :: "'m dispatcher_config \<Rightarrow> 'm disp_op \<Rightarrow> 'm dispatcher \<Rightarrow> 'm dispatcher" where
  "thrown_state cfg (OpOffer lid m rsv) d = offer_thrown cfg lid d"
| "thrown_state cfg (OpDispatch key m rsv) d = dispatch_thrown cfg key d"
| "thrown_state cfg op d = d"

definition disp_after :: "'m dispatcher_config \<Rightarrow> 'm disp_op \<Rightarrow> 'm dispatcher \<Rightarrow> 'm dispatcher" where
  "disp_after cfg op d = (case disp_step cfg op d of Inr d' \<Rightarrow> d' | Inl e \<Rightarrow> thrown_state cfg op d)"

inductive disp_reachable :: "'m dispatcher_config \<Rightarrow> 'm dispatcher \<Rightarrow> bool" for cfg where
  disp_init: "budget_inv b \<Longrightarrow> disp_reachable cfg (new_dispatcher b)"
| disp_next: "disp_reachable cfg d \<Longrightarrow> op_valid d op \<Longrightarrow> disp_reachable cfg (disp_after cfg op d)"

text \<open>The states a dispatcher in state \<open>d\<close> can still reach.\<close>

inductive disp_later :: "'m dispatcher_config \<Rightarrow> 'm dispatcher \<Rightarrow> 'm dispatcher \<Rightarrow> bool" for cfg d where
  later_now: "disp_later cfg d d"
| later_next: "disp_later cfg d d1 \<Longrightarrow> op_valid d1 op \<Longrightarrow> disp_later cfg d (disp_after cfg op d1)"

lemma stateE_simps [simp]: "stateE (Inr (a, s)) = Inr s" "stateE (Inl e) = Inl e"
  by (simp_all add: stateE_def)

lemma new_dispatcher_inv: "budget_inv b \<Longrightarrow> disp_inv (new_dispatcher b)"
  by (simp add: disp_inv_def disp_core_def new_dispatcher_def serial_ok_def live_except_def active_turn_def)

lemma disp_step_ok:
  assumes inv: "disp_inv d" and v: "op_valid d op"
  shows "case disp_step cfg op d of
     Inr d' \<Rightarrow> disp_inv d'
   | Inl e \<Rightarrow> e = AlreadyReleased \<and> (\<exists>i. op_supplied op = Some i \<and> rid_requested i (d_budget d))"
proof (cases op)
  case (OpBegin key)
  then show ?thesis using beginBatch_ok[OF inv, of key] by (cases "beginBatch key d") auto
next
  case (OpOffer lid m rsv)
  then show ?thesis using offer_ok[OF inv, of lid rsv cfg m] v
    by (cases "offer cfg lid m rsv d") (auto simp: offer_post_def op_valid_def)
next
  case (OpCommit lid k)
  then show ?thesis using commit_ok[OF inv, of lid k] v by (auto simp: op_valid_def)
next
  case (OpRollback lid k)
  then show ?thesis using rollback_ok[OF inv, of lid k] v by (auto simp: op_valid_def)
next
  case (OpFinish lid)
  then show ?thesis using finish_lease_ok[OF inv, of lid cfg] v by (auto simp: op_valid_def)
next
  case (OpDispatch key m rsv)
  then show ?thesis using dispatch_ok[OF inv, of rsv cfg key m] v
    by (cases "dispatch cfg key m rsv d") (auto simp: op_valid_def)
next
  case (OpClear key)
  then show ?thesis using clearPending_ok[OF inv, of cfg key] by auto
next
  case (OpRun key)
  then show ?thesis using run_handler_ok[OF inv] by simp
next
  case (OpSettle key)
  then show ?thesis using on_settled_ok[OF inv, of cfg key] by auto
next
  case OpDispose
  then show ?thesis using dispose_ok[OF inv] by auto
next
  case (EnvBudget b)
  then show ?thesis using disp_inv_budget[OF inv] v by (simp add: op_valid_def valid_rid_def)
qed

lemma offer_thrown_inv: "disp_inv d \<Longrightarrow> disp_inv (offer_thrown cfg lid d)"
proof -
  assume inv: "disp_inv d"
  obtain tok d1 where t: "tokenFor cfg (l_key (d_leases d ! lid)) d = (tok, d1)" by fastforce
  have c: "disp_core d" using inv by (simp add: disp_inv_def)
  have "disp_core d1" "live_except {} d1 = live_except {} d" using tokenFor_ok(1,2)[OF c t] by blast+
  then show ?thesis using inv t by (simp add: disp_inv_def offer_thrown_def)
qed

lemma disp_after_inv:
  assumes "disp_inv d" "op_valid d op"
  shows "disp_inv (disp_after cfg op d)"
proof (cases "disp_step cfg op d")
  case (Inr d')
  then show ?thesis using disp_step_ok[OF assms, of cfg] by (simp add: disp_after_def)
next
  case (Inl e)
  have "disp_inv (dispatch_thrown cfg key d)" for key
  proof -
    obtain res d0 where b: "beginBatch key d = (res, d0)" by fastforce
    have "disp_inv d0" using beginBatch_ok[OF assms(1) b] by blast
    then show ?thesis using b offer_thrown_inv by (cases res) (simp_all add: dispatch_thrown_def)
  qed
  then show ?thesis using Inl assms(1) offer_thrown_inv by (cases op) (simp_all add: disp_after_def)
qed

lemma disp_reachable_inv: "disp_reachable cfg d \<Longrightarrow> disp_inv d"
proof (induction rule: disp_reachable.induct)
  case (disp_init b)
  then show ?case by (rule new_dispatcher_inv)
next
  case (disp_next d op)
  then show ?case by (intro disp_after_inv)
qed

text \<open>An executable run over the dispatcher's own operations.\<close>

fun disp_run :: "'m dispatcher_config \<Rightarrow> 'm disp_op list \<Rightarrow> 'm dispatcher \<Rightarrow> 'm dispatcher option" where
  "disp_run cfg [] d = Some d"
| "disp_run cfg (op # ops) d =
     (if handle_valid d op then disp_run cfg ops (disp_after cfg op d) else None)"

lemma disp_run_reachable: "disp_reachable cfg d \<Longrightarrow> disp_run cfg ops d = Some d' \<Longrightarrow> disp_reachable cfg d'"
proof (induction ops arbitrary: d)
  case Nil
  then show ?case by simp
next
  case (Cons op ops)
  then have v: "handle_valid d op" and run: "disp_run cfg ops (disp_after cfg op d) = Some d'" by (simp_all split: if_splits)
  from disp_next[OF Cons.prems(1) handle_op_valid[OF v]] run show ?case by (rule Cons.IH)
qed

section \<open>Properties\<close>

subsection \<open>Handlers of one session never overlap\<close>

lemma serial_run_append2:
  "serial_run key (es @ fs) st = Option.bind (serial_run key es st) (serial_run key fs)"
proof (induction es arbitrary: st)
  case Nil
  then show ?case by simp
next
  case (Cons a es)
  then show ?case by (cases "serial_step key a st") simp_all
qed

lemma serial_run_idle_again:
  "serial_run key es (Some t) = Some None \<Longrightarrow> HandlerSettled key t \<in> set es"
proof (induction es)
  case Nil
  then show ?case by simp
next
  case (Cons e es)
  then show ?case by (cases e) (auto split: if_splits)
qed

lemma serial_between:
  assumes "serial_run key (pre @ HandlerInvoked key t m # mid @ HandlerInvoked key t' m' # post) None \<noteq> None"
  shows "HandlerSettled key t \<in> set mid"
proof -
  have "serial_run key mid (Some t) = Some None"
    using assms by (auto simp: serial_run_append2 Option.bind_eq_Some_conv split: if_splits)
  then show ?thesis by (rule serial_run_idle_again)
qed

lemma reachable_serial: "disp_reachable cfg d \<Longrightarrow> serial_run key (d_log d) None \<noteq> None"
  using disp_reachable_inv[of cfg d] by (auto simp: disp_inv_def disp_core_def serial_ok_def)

text \<open>The small dispatcher the witnesses run: the real coalescer, a budget of two messages.\<close>

definition witness_cfg :: "user_message dispatcher_config" where
  "witness_cfg = \<lparr>dc_coalesce = coalesceUserMessages, dc_sessionToken = None, dc_measure = (\<lambda>_. Some (JsInt 10))\<rparr>"

definition witness_start :: "user_message dispatcher" where
  "witness_start = new_dispatcher (fresh_budget \<lparr>maxMessagesPerSession = 2, maxBytesPerSession = 100,
     maxMessagesPerProcess = 2, maxBytesPerProcess = 100\<rparr>)"

definition witness_msg :: "string \<Rightarrow> user_message" where
  "witness_msg t = \<lparr>um_text = t, um_id = StrId t, um_coalescedIds = Absent, um_extra = []\<rparr>"

lemma witness_start_reachable: "disp_reachable witness_cfg witness_start"
  unfolding witness_start_def
  by (intro disp_init fresh_budget_inv[of "\<lparr>maxMessagesPerSession = JsInt 2, maxBytesPerSession = JsInt 100,
     maxMessagesPerProcess = JsInt 2, maxBytesPerProcess = JsInt 100\<rparr>"])
    (simp add: validateLimits_def safe_nonneg_int_def max_safe_integer_def)

definition witness_runs :: "user_message disp_op list \<Rightarrow> (user_message dispatcher \<Rightarrow> bool) \<Rightarrow> bool" where
  "witness_runs ops Q = (case disp_run witness_cfg ops witness_start of Some d \<Rightarrow> Q d | None \<Rightarrow> False)"

lemma witness_runsD: "witness_runs ops Q \<Longrightarrow> \<exists>d. disp_reachable witness_cfg d \<and> Q d"
  using disp_run_reachable[OF witness_start_reachable, of ops] by (auto simp: witness_runs_def split: option.splits)

text \<open>C2: Handlers of one session never overlap. In every reachable state, between two
  invocations of the turn handler for the same session key the first one has settled,
  whatever batches were opened, committed, finished, cleared or dispatched in between.\<close>

theorem handlers_serial:
  assumes "disp_reachable cfg d"
    and "d_log d = pre @ HandlerInvoked key t m # mid @ HandlerInvoked key t' m' # post"
  shows "HandlerSettled key t \<in> set mid"
  using serial_between[of key pre t m mid t' m' post] reachable_serial[OF assms(1), of key] assms(2) by simp

theorem handlers_serial_witness:
  "\<exists>d mid. disp_reachable witness_cfg d \<and>
     d_log d = [] @ HandlerInvoked ''s'' 0 (witness_msg ''a'') # mid @ HandlerInvoked ''s'' 1 (witness_msg ''b'') # [] \<and>
     HandlerSettled ''s'' 0 \<in> set mid"
proof -
  have "witness_runs [OpDispatch ''s'' (witness_msg ''a'') None, OpRun ''s'',
      OpDispatch ''s'' (witness_msg ''b'') None, OpSettle ''s'', OpRun ''s'']
    (\<lambda>d. d_log d = [] @ HandlerInvoked ''s'' 0 (witness_msg ''a'') # [HandlerSettled ''s'' 0] @
       HandlerInvoked ''s'' 1 (witness_msg ''b'') # [])"
    by code_simp
  from witness_runsD[OF this] obtain d where d: "disp_reachable witness_cfg d"
      "d_log d = [] @ HandlerInvoked ''s'' 0 (witness_msg ''a'') # [HandlerSettled ''s'' 0] @
       HandlerInvoked ''s'' 1 (witness_msg ''b'') # []" by blast
  then show ?thesis using handlers_serial[OF d] by blast
qed

subsection \<open>No work is stranded\<close>

text \<open>C19: No session is left behind with work and nobody to run it: in every reachable
  state each session the dispatcher remembers has a turn in flight or a lease that its
  owner still has to finish, and after disposal no session is remembered at all.\<close>

theorem no_stranded_session:
  assumes "disp_reachable cfg d" and "map_of (d_sessions d) key = Some s"
  shows "(s_running s \<noteq> None \<or> s_openLeases s \<noteq> []) \<and> \<not> d_disposed d"
  using disp_reachable_inv[OF assms(1)] assms(2)
  by (auto simp: disp_inv_def disp_core_def live_except_def session_live_def)

theorem no_stranded_session_witness:
  "\<exists>d s. disp_reachable witness_cfg d \<and> map_of (d_sessions d) ''s'' = Some s \<and> s_pending s \<noteq> [] \<and>
     (s_running s \<noteq> None \<or> s_openLeases s \<noteq> [])"
proof -
  have "witness_runs [OpDispatch ''s'' (witness_msg ''a'') None, OpDispatch ''s'' (witness_msg ''b'') None]
    (\<lambda>d. case map_of (d_sessions d) ''s'' of Some s \<Rightarrow> s_pending s \<noteq> [] | None \<Rightarrow> False)"
    by code_simp
  then obtain d s where "disp_reachable witness_cfg d" "map_of (d_sessions d) ''s'' = Some s" "s_pending s \<noteq> []"
    using witness_runsD by (fastforce split: option.splits)
  then show ?thesis using no_stranded_session by blast
qed

text \<open>C20: No operation of the dispatcher throws an accounting error. From every reachable
  state a call with valid handles returns; the only exception it can raise is
  \<^verbatim>\<open>AlreadyReleased\<close>, and only when the caller supplied a reservation whose release was
  already requested.\<close>

theorem dispatcher_errors:
  assumes "disp_reachable cfg d" and "op_valid d op" and "disp_step cfg op d = Inl e"
  shows "e = AlreadyReleased \<and> (\<exists>i. op_supplied op = Some i \<and> rid_requested i (d_budget d))"
  using disp_step_ok[OF disp_reachable_inv[OF assms(1)] assms(2), of cfg] assms(3) by simp

text \<open>A budget whose only reservation is held while its release is already requested.\<close>

definition held_requested_budget :: "retention_error + budget" where
  "held_requested_budget =
     bindE (newInboundRetentionBudget \<lparr>maxMessagesPerSession = JsInt 2, maxBytesPerSession = JsInt 100,
       maxMessagesPerProcess = JsInt 2, maxBytesPerProcess = JsInt 100\<rparr>) (\<lambda>b0.
     foldE retention_run [TryReserve 0 (JsInt 10) DebounceWaiting, Hold 0, RequestRelease 0] b0)"

lemma held_requested_budget_ok:
  "\<exists>b. held_requested_budget = Inr b \<and> budget_inv b \<and> length (b_reservations b) = 1 \<and> rid_requested 0 b \<and>
     dispatch (witness_cfg\<lparr>dc_sessionToken := Some (\<lambda>_. 0)\<rparr>) ''s'' (witness_msg ''a'') (Some 0) (new_dispatcher b) = Inl AlreadyReleased"
proof -
  have "case held_requested_budget of Inl _ \<Rightarrow> False | Inr b \<Rightarrow> length (b_reservations b) = 1 \<and> rid_requested 0 b \<and>
     (case dispatch (witness_cfg\<lparr>dc_sessionToken := Some (\<lambda>_. 0)\<rparr>) ''s'' (witness_msg ''a'') (Some 0) (new_dispatcher b) of
        Inl e \<Rightarrow> e = AlreadyReleased | Inr _ \<Rightarrow> False)"
    by code_simp
  then obtain b where b: "held_requested_budget = Inr b" "length (b_reservations b) = 1" "rid_requested 0 b"
     "dispatch (witness_cfg\<lparr>dc_sessionToken := Some (\<lambda>_. 0)\<rparr>) ''s'' (witness_msg ''a'') (Some 0) (new_dispatcher b) = Inl AlreadyReleased"
    by (auto split: sum.splits)
  have "reachable_budget b"
    using b(1) created reachable_budget_foldE unfolding held_requested_budget_def bindE_Inr_iff by blast
  then show ?thesis using b reachable_budget_inv by blast
qed

theorem dispatcher_errors_witness:
  "\<exists>cfg d. disp_reachable cfg d \<and> op_valid d (OpDispatch ''s'' (witness_msg ''a'') (Some 0)) \<and>
     disp_step cfg (OpDispatch ''s'' (witness_msg ''a'') (Some 0)) d = Inl AlreadyReleased \<and> rid_requested 0 (d_budget d)"
proof -
  let ?cfg = "witness_cfg\<lparr>dc_sessionToken := Some (\<lambda>_. 0)\<rparr>" and ?op = "OpDispatch ''s'' (witness_msg ''a'') (Some 0)"
  obtain b where b: "budget_inv b" "length (b_reservations b) = 1"
      "dispatch ?cfg ''s'' (witness_msg ''a'') (Some 0) (new_dispatcher b) = Inl AlreadyReleased"
    using held_requested_budget_ok by blast
  have r: "disp_reachable ?cfg (new_dispatcher b)" by (rule disp_init[OF b(1)])
  have v: "op_valid (new_dispatcher b) ?op" using b(2) by (simp add: op_valid_def valid_rid_def new_dispatcher_def)
  have "disp_step ?cfg ?op (new_dispatcher b) = Inl AlreadyReleased" using b(3) by simp
  then show ?thesis using r v dispatcher_errors[OF r v] by (intro exI[of _ ?cfg] exI[of _ "new_dispatcher b"]) auto
qed

subsection \<open>A turn that ends starts the next one\<close>

lemma release_all_requested:
  assumes "disp_core d" "\<forall>i \<in> set is. valid_rid i (d_budget d)" "release_all is d = Inr (d\<lparr>d_budget := b\<rparr>)"
  shows "\<forall>i \<in> set is. rid_requested i b"
    and "\<forall>i. valid_rid i (d_budget d) \<longrightarrow> rid_requested i (d_budget d) \<longrightarrow> rid_requested i b"
proof -
  have bi: "budget_inv (d_budget d)" using assms(1) by (simp add: disp_core_def)
  have f: "foldE requestRelease is (d_budget d) = Inr b"
    using assms(3) by (cases "foldE requestRelease is (d_budget d)") (auto simp: release_all_def dest: arg_cong[where f = d_budget])
  show "\<forall>i \<in> set is. rid_requested i b" using rel.foldE_settles[OF bi assms(2) f] .
  show "\<forall>i. valid_rid i (d_budget d) \<longrightarrow> rid_requested i (d_budget d) \<longrightarrow> rid_requested i b"
    using rel.foldE_settled_mono[OF bi assms(2) _ _ f] by blast
qed

definition next_turn_started ::
  "'m dispatcher_config \<Rightarrow> string \<Rightarrow> 'm retained_entry list \<Rightarrow> 'm dispatcher \<Rightarrow> 'm dispatcher \<Rightarrow> bool" where
  "next_turn_started cfg key es d d' \<longleftrightarrow>
     (\<exists>m s. dc_coalesce cfg (map re_message es) = Some m \<and> map_of (d_sessions d') key = Some s \<and>
        s_running s = Some \<lparr>t_id = d_next_turn d, t_message = m, t_status = Queued\<rparr> \<and>
        s_pending s = [] \<and> (\<forall>e \<in> set es. rid_requested (re_rid e) (d_budget d')))"

lemma drain_starts:
  assumes c: "disp_core d" and s: "map_of (d_sessions d) key = Some s" "s_running s = None" "s_openLeases s = []"
    and p: "s_pending s \<noteq> []" "dc_coalesce cfg (map re_message (s_pending s)) = Some m"
  shows "\<exists>d'. drain cfg key d = Inr d' \<and> next_turn_started cfg key (s_pending s) d d' \<and>
    (\<forall>i. valid_rid i (d_budget d) \<longrightarrow> rid_requested i (d_budget d) \<longrightarrow> rid_requested i (d_budget d'))"
proof -
  let ?d = "put_session key (s\<lparr>s_readyToDrain := False, s_pending := []\<rparr>) d"
  have nd: "\<not> d_disposed d" using c s(1) by (auto simp: disp_core_def)
  have so: "session_ok d key s" using c s(1) by (simp add: disp_core_def)
  have cd: "disp_core ?d"
    by (rule disp_core_put_session[OF c _ nd active_put_session[OF s(1)]]) (use so in \<open>auto simp: session_ok_def\<close>)
  have v: "\<forall>i \<in> set (map re_rid (s_pending s)). valid_rid i (d_budget ?d)"
    using so by (simp add: session_ok_def put_session_def)
  obtain b where b: "release_all (map re_rid (s_pending s)) ?d = Inr (?d\<lparr>d_budget := b\<rparr>)"
    using release_all_ok[OF cd v] by blast
  note R = release_all_requested[OF cd v b]
  have "drain cfg key d = startTurn cfg key (s_pending s) ?d" using s p(1) by (simp add: drain_def Let_def)
  moreover have "startTurn cfg key (s_pending s) ?d = Inr (put_session key
      (s\<lparr>s_readyToDrain := False, s_pending := [],
         s_running := Some \<lparr>t_id = d_next_turn d, t_message = m, t_status = Queued\<rparr>\<rparr>)
      (?d\<lparr>d_budget := b, d_next_turn := Suc (d_next_turn d)\<rparr>))"
    using b p nd by (simp add: startTurn_def put_session_def alist_simps)
  ultimately show ?thesis using p(2) R by (auto simp: next_turn_started_def put_session_def alist_simps)
qed

text \<open>When the running turn of a session settles and no lease is open, everything that
  queued up meanwhile becomes exactly one next turn: its message is the coalescing of the
  pending messages in order, nothing stays pending, and every one of their reservations is
  given back to the budget before the handler runs.\<close>

theorem settle_starts_next:
  assumes "disp_reachable cfg d" and "map_of (d_sessions d) key = Some s"
    and "s_running s = Some t" and "t_status t = Invoked" and "s_openLeases s = []"
    and "s_pending s \<noteq> []" and "dc_coalesce cfg (map re_message (s_pending s)) = Some m"
  shows "\<exists>d'. on_settled cfg key d = Inr d' \<and> next_turn_started cfg key (s_pending s) d d'"
proof -
  have inv: "disp_inv d" using assms(1) by (rule disp_reachable_inv)
  have nd: "\<not> d_disposed d" using inv assms(2) by (auto simp: disp_inv_def disp_core_def)
  let ?d = "(put_session key (s\<lparr>s_running := None\<rparr>) d)\<lparr>d_log := d_log d @ [HandlerSettled key (t_id t)]\<rparr>"
  have c1: "disp_core ?d" by (rule settled_core[OF inv assms(2-4)])
  have look: "map_of (d_sessions ?d) key = Some (s\<lparr>s_running := None\<rparr>)" by (simp add: put_session_def alist_simps)
  have "on_settled cfg key d = drain cfg key ?d" using assms nd by (simp add: on_settled_def Let_def put_session_def)
  moreover have "next_turn_started cfg key es ?d = next_turn_started cfg key es d" for es
    by (simp add: next_turn_started_def put_session_def fun_eq_iff)
  ultimately show ?thesis using drain_starts[OF c1 look, of cfg m] assms(5-7) by auto
qed

theorem settle_starts_next_witness:
  "\<exists>d s t. disp_reachable witness_cfg d \<and> map_of (d_sessions d) ''s'' = Some s \<and> s_running s = Some t \<and>
     t_status t = Invoked \<and> length (s_pending s) = 2 \<and>
     (\<exists>d'. on_settled witness_cfg ''s'' d = Inr d' \<and> next_turn_started witness_cfg ''s'' (s_pending s) d d')"
proof -
  have "witness_runs [OpDispatch ''s'' (witness_msg ''a'') None, OpRun ''s'',
      OpDispatch ''s'' (witness_msg ''b'') None, OpDispatch ''s'' (witness_msg ''c'') None]
    (\<lambda>d. case map_of (d_sessions d) ''s'' of Some s \<Rightarrow> (case s_running s of Some t \<Rightarrow> t_status t = Invoked | None \<Rightarrow> False) \<and>
      length (s_pending s) = 2 \<and> s_openLeases s = [] \<and> dc_coalesce witness_cfg (map re_message (s_pending s)) \<noteq> None | None \<Rightarrow> False)"
    by code_simp
  from witness_runsD[OF this] obtain d s t m where d: "disp_reachable witness_cfg d" "map_of (d_sessions d) ''s'' = Some s"
      "s_running s = Some t" "t_status t = Invoked" "s_openLeases s = []" "length (s_pending s) = 2"
      "dc_coalesce witness_cfg (map re_message (s_pending s)) = Some m"
    by (fastforce split: option.splits)
  have "s_pending s \<noteq> []" using d(6) by auto
  then show ?thesis using d settle_starts_next[OF d(1-5) _ d(7)] by blast
qed

text \<open>C18: Finishing a lease admits exactly its committed entries, in the order they were
  offered, behind what is already pending; entries never committed are released. If the
  session is idle and this was its last lease, all of it starts as one turn at once;
  otherwise it waits as pending work of the unchanged running turn.\<close>

theorem finish_admits_committed:
  assumes "disp_reachable cfg d" and "lid < length (d_leases d)" and "\<not> l_finished (d_leases d ! lid)"
    and "map_of (d_sessions d) (l_key (d_leases d ! lid)) = Some s"
    and "s_pending s @ attached_entries (l_entries (d_leases d ! lid)) \<noteq> []"
    and "dc_coalesce cfg (map re_message (s_pending s @ attached_entries (l_entries (d_leases d ! lid)))) = Some m"
  shows "\<exists>d'. finish_lease cfg lid d = Inr d' \<and>
     (\<forall>i \<in> set (provisional_rids (l_entries (d_leases d ! lid))). rid_requested i (d_budget d')) \<and>
     (if s_running s = None \<and> remove1 lid (s_openLeases s) = []
      then next_turn_started cfg (l_key (d_leases d ! lid)) (s_pending s @ attached_entries (l_entries (d_leases d ! lid))) d d'
      else \<exists>s'. map_of (d_sessions d') (l_key (d_leases d ! lid)) = Some s' \<and> s_running s' = s_running s \<and>
             s_pending s' = s_pending s @ attached_entries (l_entries (d_leases d ! lid)))"
proof -
  let ?l = "d_leases d ! lid"
  let ?k = "l_key ?l" and ?es = "s_pending s @ attached_entries (l_entries ?l)" and ?pr = "provisional_rids (l_entries ?l)"
  define s' where "s' = s\<lparr>s_openLeases := remove1 lid (s_openLeases s), s_pending := ?es\<rparr>"
  define d1 where "d1 = put_session ?k s' (put_lease lid (?l\<lparr>l_finished := True, l_entries := map settle_entry (l_entries ?l)\<rparr>) d)"
  have c: "disp_core d" using disp_reachable_inv[OF assms(1)] by (simp add: disp_inv_def)
  have lo: "lease_ok d ?l" using inv_lease_ok[OF c assms(2)] .
  have so: "session_ok d ?k s" using c assms(4) by (simp add: disp_core_def)
  have c1: "disp_core d1" unfolding d1_def s'_def
    by (rule close_one_ok[OF c assms(2) refl assms(4) lease_ok_settled[OF lo]])
      (use so lo in \<open>auto simp: session_ok_def attached_entries_def lease_ok_def\<close>)
  have d1: "d_budget d1 = d_budget d" "d_next_turn d1 = d_next_turn d" "map_of (d_sessions d1) ?k = Some s'"
    by (simp_all add: d1_def put_session_def put_lease_def alist_simps)
  have v: "\<forall>i \<in> set ?pr. valid_rid i (d_budget d1)" using lo by (auto simp: d1 provisional_rids_def lease_ok_def)
  obtain b where b: "release_all ?pr d1 = Inr (d1\<lparr>d_budget := b\<rparr>)" "disp_core (d1\<lparr>d_budget := b\<rparr>)"
      "\<forall>i. valid_rid i (d_budget d1) \<longrightarrow> valid_rid i b"
    using release_all_ok[OF c1 v] by blast
  note R = release_all_requested(1)[OF c1 v b(1)]
  have look: "map_of (d_sessions (d1\<lparr>d_budget := b\<rparr>)) ?k = Some s'" by (simp add: d1)
  have eval: "finish_lease cfg lid d =
      (if (s_running s' = None \<or> s_readyToDrain s') \<and> s_openLeases s' = [] then drain cfg ?k (d1\<lparr>d_budget := b\<rparr>)
       else Inr (d1\<lparr>d_budget := b\<rparr>))"
    using assms(3,4) b(1) by (auto simp: finish_lease_def Let_def d1_def s'_def)
  show ?thesis
  proof (cases "s_running s = None \<and> remove1 lid (s_openLeases s) = []")
    case True
    then have e: "finish_lease cfg lid d = drain cfg ?k (d1\<lparr>d_budget := b\<rparr>)"
      unfolding eval by (simp add: s'_def)
    obtain d' where "drain cfg ?k (d1\<lparr>d_budget := b\<rparr>) = Inr d'"
        "next_turn_started cfg ?k ?es (d1\<lparr>d_budget := b\<rparr>) d'"
        "\<forall>i. valid_rid i b \<longrightarrow> rid_requested i b \<longrightarrow> rid_requested i (d_budget d')"
      using drain_starts[OF b(2) look, of cfg m] True assms(5,6) by (auto simp: s'_def)
    then show ?thesis using e True R b(3) v by (auto simp: next_turn_started_def d1)
  next
    case False
    have "drain cfg ?k (d1\<lparr>d_budget := b\<rparr>) = Inr (d1\<lparr>d_budget := b\<rparr>)"
      using False d1(3) by (auto simp: drain_def s'_def)
    then have e: "finish_lease cfg lid d = Inr (d1\<lparr>d_budget := b\<rparr>)"
      unfolding eval by simp
    moreover have "s_running s' = s_running s" "s_pending s' = ?es" by (simp_all add: s'_def)
    ultimately show ?thesis using False R look by (auto intro: exI[of _ s'])
  qed
qed

theorem finish_admits_committed_witness:
  "\<exists>d d'. disp_reachable witness_cfg d \<and> attached_entries (l_entries (d_leases d ! 0)) \<noteq> [] \<and>
     provisional_rids (l_entries (d_leases d ! 0)) = [1] \<and>
     finish_lease witness_cfg 0 d = Inr d' \<and> rid_requested 1 (d_budget d') \<and>
     next_turn_started witness_cfg ''s'' (attached_entries (l_entries (d_leases d ! 0))) d d'"
proof -
  have "witness_runs [OpBegin ''s'', OpOffer 0 (witness_msg ''a'') None, OpOffer 0 (witness_msg ''b'') None, OpCommit 0 0]
    (\<lambda>d. 0 < length (d_leases d) \<and> \<not> l_finished (d_leases d ! 0) \<and> l_key (d_leases d ! 0) = ''s'' \<and>
      provisional_rids (l_entries (d_leases d ! 0)) = [1] \<and>
      (case map_of (d_sessions d) ''s'' of Some s \<Rightarrow> s_running s = None \<and> s_openLeases s = [0] \<and> s_pending s = [] | None \<Rightarrow> False) \<and>
      attached_entries (l_entries (d_leases d ! 0)) \<noteq> [] \<and>
      dc_coalesce witness_cfg (map re_message (attached_entries (l_entries (d_leases d ! 0)))) \<noteq> None)"
    by code_simp
  from witness_runsD[OF this] obtain d s m where d: "disp_reachable witness_cfg d" "0 < length (d_leases d)"
      "\<not> l_finished (d_leases d ! 0)" "l_key (d_leases d ! 0) = ''s''" "provisional_rids (l_entries (d_leases d ! 0)) = [1]"
      "map_of (d_sessions d) (l_key (d_leases d ! 0)) = Some s" "s_running s = None" "s_openLeases s = [0]" "s_pending s = []"
      "attached_entries (l_entries (d_leases d ! 0)) \<noteq> []"
      "dc_coalesce witness_cfg (map re_message (attached_entries (l_entries (d_leases d ! 0)))) = Some m"
    by (fastforce split: option.splits)
  show ?thesis using finish_admits_committed[OF d(1,2,3,6), of m] d by auto
qed

lemma clearPending_leases:
  assumes "disp_core d" "map_of (d_sessions d) key = Some s" "clearPending cfg key d = Inr (ms, d')"
  shows "d_leases d' ! lid = (if lid \<in> set (s_openLeases s) then roll_back_lease (d_leases d ! lid) else d_leases d ! lid)"
proof -
  have "\<forall>x \<in> set (s_openLeases s). x < length (d_leases d)" using assms(1,2) by (auto simp: disp_core_def session_ok_def)
  moreover have "d_leases (maybeForget cfg key x) = d_leases x" for x :: "'a dispatcher" by (simp add: maybeForget_def split: option.split)
  moreover have "release_all is x = Inr y \<Longrightarrow> d_leases y = d_leases x" for "is" x and y :: "'a dispatcher"
    by (auto simp: release_all_def exc_simps)
  ultimately show ?thesis using assms(2,3) roll_back_leases_at[of "s_openLeases s" d lid]
    by (auto simp: clearPending_def Let_def exc_simps put_session_def)
qed

text \<open>C3: \<^verbatim>\<open>clearPending\<close> drops a session's queued work completely and nothing else: it reports
  exactly the pending messages and the messages still alive in open leases, in order, leaves nothing
  buffered, asks for the release of exactly the reservations behind them, and rolls back every
  entry of the open leases, so that no later commit or finish admits a message it reported; other
  leases keep their entries.\<close>

theorem clearPending_drops_all:
  assumes "disp_reachable cfg d" and "map_of (d_sessions d) key = Some s"
  shows "\<exists>d'. clearPending cfg key d =
       Inr (map re_message (s_pending s) @
            map le_message (concat (map (\<lambda>lid. live_lease_entries (d_leases d ! lid)) (s_openLeases s))), d') \<and>
     pendingBuffered key d' = 0 \<and>
     (\<forall>i. valid_rid i (d_budget d) \<longrightarrow>
        (rid_requested i (d_budget d') \<longleftrightarrow> i \<in> set (session_rids d s) \<or> rid_requested i (d_budget d))) \<and>
     (\<forall>lid \<in> set (s_openLeases s).
        l_entries (d_leases d' ! lid) = map (\<lambda>e. e\<lparr>le_state := RolledBack\<rparr>) (l_entries (d_leases d ! lid)) \<and>
        attached_entries (l_entries (d_leases d' ! lid)) = [] \<and>
        (\<forall>k < length (l_entries (d_leases d' ! lid)). commit lid k d' = Inr d')) \<and>
     (\<forall>lid. lid \<notin> set (s_openLeases s) \<longrightarrow> d_leases d' ! lid = d_leases d ! lid)"
proof -
  have inv: "disp_inv d" using assms(1) by (rule disp_reachable_inv)
  then have c: "disp_core d" and bi: "budget_inv (d_budget d)" by (simp_all add: disp_inv_def disp_core_def)
  obtain ms d' where d': "clearPending cfg key d = Inr (ms, d')" "pendingBuffered key d' = 0"
      "foldE requestRelease (session_rids d s) (d_budget d) = Inr (d_budget d')"
    using clearPending_ok[OF inv, of cfg key] assms(2) by auto
  note L = clearPending_leases[OF c assms(2) d'(1)]
  have "\<forall>i. valid_rid i (d_budget d) \<longrightarrow> (rid_requested i (d_budget d') \<longleftrightarrow> i \<in> set (session_rids d s) \<or> rid_requested i (d_budget d))"
    using rel.foldE_settled_iff[OF bi session_rids_valid[OF c assms(2)] _ d'(3)] by blast
  moreover have "ms = map re_message (s_pending s) @
      map le_message (concat (map (\<lambda>lid. live_lease_entries (d_leases d ! lid)) (s_openLeases s)))"
    using d'(1) assms(2) by (auto simp: clearPending_def Let_def exc_simps comp_def)
  moreover have "l_entries (d_leases d' ! lid) = map (\<lambda>e. e\<lparr>le_state := RolledBack\<rparr>) (l_entries (d_leases d ! lid))"
    if "lid \<in> set (s_openLeases s)" for lid using that by (simp add: L roll_back_lease_def)
  moreover from this have "attached_entries (l_entries (d_leases d' ! lid)) = []"
    "\<forall>k < length (l_entries (d_leases d' ! lid)). commit lid k d' = Inr d'" if "lid \<in> set (s_openLeases s)" for lid
    using that by (auto simp: attached_entries_def commit_def Let_def filter_empty_conv)
  ultimately show ?thesis using d' L by (intro exI[of _ d']) simp
qed

theorem clearPending_drops_all_witness:
  "\<exists>d s d'. disp_reachable witness_cfg d \<and> map_of (d_sessions d) ''s'' = Some s \<and> session_rids d s = [1, 2] \<and>
     clearPending witness_cfg ''s'' d = Inr ([witness_msg ''b'', witness_msg ''c''], d') \<and>
     rid_requested 1 (d_budget d') \<and> rid_requested 2 (d_budget d') \<and> map le_state (l_entries (d_leases d' ! 2)) = [RolledBack] \<and>
     commit 2 0 d' = Inr d'"
proof -
  have "witness_runs [OpDispatch ''s'' (witness_msg ''a'') None, OpDispatch ''s'' (witness_msg ''b'') None,
      OpBegin ''s'', OpOffer 2 (witness_msg ''c'') None]
    (\<lambda>d. case map_of (d_sessions d) ''s'' of Some s \<Rightarrow> session_rids d s = [1, 2] \<and> map re_message (s_pending s) @
            map le_message (concat (map (\<lambda>lid. live_lease_entries (d_leases d ! lid)) (s_openLeases s))) =
            [witness_msg ''b'', witness_msg ''c''] \<and> valid_rid 1 (d_budget d) \<and> valid_rid 2 (d_budget d) \<and>
            s_openLeases s = [2] \<and> length (l_entries (d_leases d ! 2)) = 1 | None \<Rightarrow> False)"
    by code_simp
  from witness_runsD[OF this] obtain d s where d: "disp_reachable witness_cfg d" "map_of (d_sessions d) ''s'' = Some s"
      "session_rids d s = [1, 2]" "map re_message (s_pending s) @
            map le_message (concat (map (\<lambda>lid. live_lease_entries (d_leases d ! lid)) (s_openLeases s))) =
            [witness_msg ''b'', witness_msg ''c'']" "valid_rid 1 (d_budget d)" "valid_rid 2 (d_budget d)"
      "s_openLeases s = [2]" "length (l_entries (d_leases d ! 2)) = 1"
    by (fastforce split: option.splits)
  from clearPending_drops_all[OF d(1,2), unfolded d(4)] obtain d' where d': "clearPending witness_cfg ''s'' d = Inr ([witness_msg ''b'', witness_msg ''c''], d')"
      "\<forall>i. valid_rid i (d_budget d) \<longrightarrow> (rid_requested i (d_budget d') \<longleftrightarrow> i \<in> set (session_rids d s) \<or> rid_requested i (d_budget d))"
      "\<forall>lid \<in> set (s_openLeases s).
        l_entries (d_leases d' ! lid) = map (\<lambda>e. e\<lparr>le_state := RolledBack\<rparr>) (l_entries (d_leases d ! lid)) \<and>
        attached_entries (l_entries (d_leases d' ! lid)) = [] \<and>
        (\<forall>k < length (l_entries (d_leases d' ! lid)). commit lid k d' = Inr d')"
    by (elim exE conjE) blast
  obtain e where "l_entries (d_leases d ! 2) = [e]" using d(8) by (cases "l_entries (d_leases d ! 2)") auto
  then have "map le_state (l_entries (d_leases d' ! 2)) = [RolledBack]" "commit 2 0 d' = Inr d'" using d'(3) d(7) by simp_all
  moreover have "rid_requested 1 (d_budget d')" "rid_requested 2 (d_budget d')" using d'(2) d(3,5,6) by simp_all
  ultimately show ?thesis using d(1-3) d'(1) by (intro exI[of _ d] exI[of _ s] exI[of _ d'] conjI) assumption+
qed

text \<open>A disposed dispatcher only settles what runs already.\<close>

lemma release_rid_frames: "release_rid i d = Inr d' \<Longrightarrow> d_log d' = d_log d \<and> d_disposed d' = d_disposed d"
  by (cases "requestRelease i (d_budget d)") (auto simp: release_rid_def)

lemma supplied_frames: "release_supplied rsv d = Inr d' \<Longrightarrow> d_log d' = d_log d \<and> d_disposed d' = d_disposed d"
  using release_rid_frames by (cases rsv) auto

lemma entry_frames [simp]: "d_log (set_entry_state lid k st d) = d_log d" "d_disposed (set_entry_state lid k st d) = d_disposed d"
  by (simp_all add: set_entry_state_def Let_def)

lemma disposed_step:
  assumes "d_disposed d" "d_sessions d = []"
  shows "d_disposed (disp_after cfg op d) \<and> (\<exists>es. d_log (disp_after cfg op d) = d_log d @ es \<and> (\<forall>key t m. HandlerInvoked key t m \<notin> set es))"
proof -
  let ?d = "disp_after cfg op d"
  have quiet: ?thesis if "d_disposed ?d" "d_log ?d = d_log d" using that by (intro conjI exI[of _ "[]"]) simp_all
  have tok: "d_log (offer_thrown cfg lid d) = d_log d \<and> d_disposed (offer_thrown cfg lid d) = d_disposed d" for lid
    by (simp add: offer_thrown_def tokenFor_def createSessionToken_def Let_def split: option.split)
  show ?thesis
  proof (cases op)
    case (OpOffer lid m rsv)
    have "offer cfg lid m rsv d = bindE (release_supplied rsv d) (\<lambda>d'. Inr (OfferDisposed, d'))" using assms by (simp add: offer_def)
    then show ?thesis using OpOffer tok assms(1) quiet supplied_frames[of rsv d]
      by (cases "release_supplied rsv d") (simp_all add: disp_after_def stateE_def)
  next
    case (OpDispatch key m rsv)
    have "dispatch cfg key m rsv d = bindE (release_supplied rsv d) (\<lambda>d1. Inr (OfferDisposed, d1))" "dispatch_thrown cfg key d = d"
      using assms by (simp_all add: dispatch_def beginBatch_def dispatch_thrown_def)
    then show ?thesis using OpDispatch assms(1) quiet supplied_frames[of rsv d]
      by (cases "release_supplied rsv d") (simp_all add: disp_after_def stateE_def)
  next
    case (OpCommit lid k)
    have fr: "commit lid k d = Inr d' \<Longrightarrow> d_log d' = d_log d \<and> d_disposed d'" for d'
      using assms(1) by (auto simp: commit_def Let_def dest!: release_rid_frames split: if_splits)
    have "d_log ?d = d_log d \<and> d_disposed ?d"
    proof (cases "commit lid k d")
      case (Inr d')
      then show ?thesis using fr[OF Inr] OpCommit by (simp add: disp_after_def)
    qed (use OpCommit assms(1) in \<open>simp add: disp_after_def\<close>)
    then show ?thesis using quiet by blast
  next
    case (OpRollback lid k)
    have fr: "rollback lid k d = Inr d' \<Longrightarrow> d_log d' = d_log d \<and> d_disposed d'" for d'
      using assms(1) by (auto simp: rollback_def Let_def dest!: release_rid_frames split: if_splits)
    have "d_log ?d = d_log d \<and> d_disposed ?d"
    proof (cases "rollback lid k d")
      case (Inr d')
      then show ?thesis using fr[OF Inr] OpRollback by (simp add: disp_after_def)
    qed (use OpRollback assms(1) in \<open>simp add: disp_after_def\<close>)
    then show ?thesis using quiet by blast
  next
    case (OpRun key)
    then have "?d = d" using assms by (simp add: disp_after_def run_handler_def split: option.split)
    then show ?thesis using quiet assms(1) by simp
  next
    case (OpSettle key)
    then have "?d = d \<or> (\<exists>t. d_log ?d = d_log d @ [HandlerSettled key t] \<and> d_disposed ?d)"
      using assms by (auto simp: disp_after_def on_settled_def split: option.split)
    then show ?thesis
    proof
      assume "?d = d"
      then show ?thesis using quiet assms(1) by simp
    next
      assume "\<exists>t. d_log ?d = d_log d @ [HandlerSettled key t] \<and> d_disposed ?d"
      then show ?thesis by auto
    qed
  qed (use assms quiet in \<open>simp_all add: disp_after_def beginBatch_def finish_lease_def Let_def clearPending_def dispose_def stateE_def\<close>)
qed

lemma disposed_later:
  assumes "disp_inv d" "d_disposed d" "disp_later cfg d d2"
  shows "disp_inv d2 \<and> d_disposed d2 \<and> (\<exists>es. d_log d2 = d_log d @ es \<and> (\<forall>key t m. HandlerInvoked key t m \<notin> set es))"
  using assms(3)
proof (induction rule: disp_later.induct)
  case later_now
  then show ?case using assms(1,2) by (intro conjI exI[of _ "[]"]) simp_all
next
  case (later_next d1 op)
  then obtain es where es: "d_log d1 = d_log d @ es" "\<forall>key t m. HandlerInvoked key t m \<notin> set es" by blast
  have "d_sessions d1 = []" using later_next.IH by (auto simp: disp_inv_def disp_core_def)
  from disposed_step[OF _ this, of cfg op] later_next.IH obtain es' where es': "d_disposed (disp_after cfg op d1)"
    "d_log (disp_after cfg op d1) = d_log d1 @ es'" "\<forall>key t m. HandlerInvoked key t m \<notin> set es'" by blast
  show ?case using es es' disp_after_inv[OF _ later_next.hyps(2)] later_next.IH by (intro conjI exI[of _ "es @ es'"]) auto
qed

text \<open>C4: Disposal is complete and counted: it cannot throw, no session survives it, every
  reservation that pending work or an open lease held is asked back, and the two returned
  counts add up to exactly their number.  Whatever is called afterwards, and although the promise
  of a turn that was queued outlives its session, no handler is ever invoked again.\<close>

theorem dispose_complete:
  assumes "disp_reachable cfg d" and "\<not> d_disposed d"
  shows "\<exists>p q d'. dispose d = Inr ((p, q), d') \<and> d_disposed d' \<and> d_sessions d' = [] \<and>
     (\<forall>i \<in> set (concat (map (session_rids d \<circ> snd) (d_sessions d))). rid_requested i (d_budget d')) \<and>
     p + q = length (concat (map (session_rids d \<circ> snd) (d_sessions d))) \<and>
     (\<forall>key. running_turn d' key = running_turn d key) \<and>
     (\<forall>d2. disp_later cfg d' d2 \<longrightarrow> d_sessions d2 = [] \<and>
        (\<exists>es. d_log d2 = d_log d @ es \<and> (\<forall>key t m. HandlerInvoked key t m \<notin> set es)))"
proof -
  have inv: "disp_inv d" using assms(1) by (rule disp_reachable_inv)
  then have c: "disp_core d" and bi: "budget_inv (d_budget d)" by (simp_all add: disp_inv_def disp_core_def)
  let ?rids = "concat (map (session_rids d \<circ> snd) (d_sessions d))"
  have v: "\<forall>i \<in> set ?rids. valid_rid i (d_budget d)"
    using session_rids_valid[OF c] c by (fastforce simp: disp_core_def)
  obtain n d' where d': "dispose d = Inr (n, d')" "disp_inv d'" "d_disposed d'" "d_sessions d' = []" "d_log d' = d_log d"
      "d_detached d' = detached_turns (d_sessions d)"
      "foldE requestRelease ?rids (d_budget d) = Inr (d_budget d')" "fst n + snd n = length ?rids"
    using dispose_ok[OF inv] assms(2) by blast
  have "running_turn d' key = running_turn d key" for key
    using d'(4,6) c assms(2) detached_turns_facts(1)[of "d_sessions d" key]
    by (cases "map_of (d_sessions d) key") (simp_all add: disp_core_def)
  moreover have "d_sessions d2 = [] \<and> (\<exists>es. d_log d2 = d_log d @ es \<and> (\<forall>key t m. HandlerInvoked key t m \<notin> set es))"
    if "disp_later cfg d' d2" for d2
    using disposed_later[OF d'(2,3) that] d'(5) by (auto simp: disp_inv_def disp_core_def)
  moreover have "\<forall>i \<in> set ?rids. rid_requested i (d_budget d')" using rel.foldE_settles[OF bi v d'(7)] .
  ultimately show ?thesis using d' by (cases n) auto
qed

theorem dispose_complete_witness:
  "\<exists>d d' t. disp_reachable witness_cfg d \<and> \<not> d_disposed d \<and> (\<exists>p q. dispose d = Inr ((p, q), d') \<and> p + q = 1) \<and>
     rid_requested 1 (d_budget d') \<and> running_turn d' ''s'' = Some t \<and> t_status t = Queued \<and>
     (\<forall>key t m. HandlerInvoked key t m \<notin> set (d_log (run_handler ''s'' d')))"
proof -
  have "witness_runs [OpDispatch ''s'' (witness_msg ''a'') None, OpDispatch ''s'' (witness_msg ''b'') None]
    (\<lambda>d. \<not> d_disposed d \<and> concat (map (session_rids d \<circ> snd) (d_sessions d)) = [1] \<and> d_log d = [] \<and>
      (case running_turn d ''s'' of Some t \<Rightarrow> t_status t = Queued | None \<Rightarrow> False))"
    by code_simp
  from witness_runsD[OF this] obtain d t where d: "disp_reachable witness_cfg d" "\<not> d_disposed d"
      "concat (map (session_rids d \<circ> snd) (d_sessions d)) = [1]" "d_log d = []" "running_turn d ''s'' = Some t" "t_status t = Queued"
    by (auto split: option.splits)
  obtain p q d' where d': "dispose d = Inr ((p, q), d')" "p + q = 1" "rid_requested 1 (d_budget d')" "running_turn d' ''s'' = Some t"
    "\<forall>d2. disp_later witness_cfg d' d2 \<longrightarrow> d_sessions d2 = [] \<and>
        (\<exists>es. d_log d2 = d_log d @ es \<and> (\<forall>key t m. HandlerInvoked key t m \<notin> set es))"
    using dispose_complete[OF d(1,2)] d(5) unfolding d(3) by auto
  have "op_valid d' (OpRun ''s'')" by (simp add: op_valid_def)
  from later_next[OF later_now this] have "disp_later witness_cfg d' (run_handler ''s'' d')" by (simp add: disp_after_def)
  then show ?thesis using d d' by fastforce
qed

subsection \<open>Coalescing keeps every receipt\<close>

lemma member_cap: "maxMessagesPerSession DEFAULT_BUSY_TURN_LIMITS = 32"
  by (simp add: DEFAULT_BUSY_TURN_LIMITS_def)

definition members_ok :: "string list \<Rightarrow> bool" where
  "members_ok ids \<longleftrightarrow> distinct ids \<and> length ids \<le> 32 \<and> (\<forall>x \<in> set ids. member_id_ok x)"

lemma addId_ok: "members_ok ids \<Longrightarrow> members_ok (addId i ids)"
  by (cases i) (auto simp: addId_def members_ok_def member_cap)

lemma fold_addId_ok: "members_ok ids \<Longrightarrow> members_ok (fold addId is ids)"
  by (induction "is" arbitrary: ids) (simp_all add: addId_ok)

lemma add_message_ids_ok: "members_ok ids \<Longrightarrow> members_ok (add_message_ids m ids)"
  by (simp add: add_message_ids_def addId_ok fold_addId_ok)

lemma fold_messages_ok: "members_ok ids \<Longrightarrow> members_ok (fold add_message_ids ms ids)"
  by (induction ms arbitrary: ids) (simp_all add: add_message_ids_ok)

lemma read_members_all:
  "\<forall>x \<in> set ids. member_id_ok x \<Longrightarrow> length acc + length ids \<le> 32 \<Longrightarrow> read_members (map Some ids) acc = acc @ ids"
proof (induction ids arbitrary: acc)
  case Nil
  then show ?case by simp
next
  case (Cons x ids)
  show ?case
  proof (cases "31 \<le> length acc")
    case True
    then have "ids = []" using Cons.prems(2) by (cases ids) auto
    then show ?thesis using Cons.prems(1) by (simp add: Let_def)
  next
    case False
    then show ?thesis using Cons.IH[of "acc @ [x]"] Cons.prems by (auto simp: Let_def member_cap)
  qed
qed

text \<open>What the coalescer writes, the reader reads back unchanged.\<close>

lemma read_written:
  "members_ok ids \<Longrightarrow> readCoalescedMemberIds (if ids = [] then Absent else IdArray (map Some ids)) = ids"
  using read_members_all[of ids "[]"] by (auto simp: members_ok_def)

lemma add_message_ids_plain: "um_coalescedIds m = Absent \<Longrightarrow> add_message_ids m = addId (um_id m)"
  by (simp add: add_message_ids_def fun_eq_iff)

lemma fold_plain:
  "\<forall>m \<in> set ms. um_coalescedIds m = Absent \<Longrightarrow> fold add_message_ids ms ids = fold addId (map um_id ms) ids"
  by (induction ms arbitrary: ids) (simp_all add: add_message_ids_plain)

lemma length_addId: "length (addId i ids) \<le> Suc (length ids)"
  by (cases i) (simp_all add: addId_def)

lemma addId_set:
  "length ids < 32 \<Longrightarrow> set (addId i ids) = set ids \<union> {s. StrId s = i \<and> member_id_ok s}"
  by (cases i) (auto simp: addId_def member_cap)

lemma fold_addId_set:
  "length ids + length is \<le> 32 \<Longrightarrow> set (fold addId is ids) = set ids \<union> {s. StrId s \<in> set is \<and> member_id_ok s}"
proof (induction "is" arbitrary: ids)
  case Nil
  then show ?case by simp
next
  case (Cons i "is")
  then have "length (addId i ids) + length is \<le> 32" using length_addId[of i ids] by simp
  then show ?case using Cons addId_set[of ids i] by auto
qed

lemma fold_addId_subset: "set (fold addId is ids) \<subseteq> set ids \<union> {s. StrId s \<in> set is}"
proof (induction "is" arbitrary: ids)
  case Nil
  then show ?case by simp
next
  case (Cons i "is")
  have "set (addId i ids) \<subseteq> set ids \<union> {s. StrId s = i}" by (cases i) (auto simp: addId_def)
  then show ?case using Cons.IH[of "addId i ids"] by auto
qed

lemma fold_addId_exact:
  "distinct (ids @ xs) \<Longrightarrow> \<forall>x \<in> set xs. member_id_ok x \<Longrightarrow> length ids + length xs \<le> 32 \<Longrightarrow>
   fold addId (map StrId xs) ids = ids @ xs"
proof (induction xs arbitrary: ids)
  case Nil
  then show ?case by simp
next
  case (Cons x xs)
  then have "addId (StrId x) ids = ids @ [x]" by (auto simp: addId_def member_cap)
  then show ?case using Cons by simp
qed

lemma coalesce_many:
  "2 \<le> length ms \<Longrightarrow> coalesceUserMessages ms = Some ((hd ms)\<lparr>um_id := um_id (last ms),
     um_text := join [CHR 0x0A, CHR 0x0A] (map um_text ms),
     um_coalescedIds := (if fold add_message_ids ms [] = [] then Absent else IdArray (map Some (fold add_message_ids ms [])))\<rparr>)"
  by (induction ms rule: coalesceUserMessages.induct) (simp_all add: Let_def)

text \<open>C21: A merged turn keeps a receipt for every message folded into it. For a group of
  at least two messages that carry no member list of their own and at most the per-session
  cap, the member list a reader recovers from the merged message holds exactly the usable
  wire ids of the group, without repetition; when the ids are distinct it is the list of
  ids in arrival order. The merged message is anchored at the last id and its text is the
  texts in order separated by a blank line.\<close>

theorem coalesce_keeps_members:
  assumes "2 \<le> length ms" and "length ms \<le> 32" and "\<forall>m \<in> set ms. um_coalescedIds m = Absent"
  shows "\<exists>r. coalesceUserMessages ms = Some r \<and> um_id r = um_id (last ms) \<and>
     um_text r = join [CHR 0x0A, CHR 0x0A] (map um_text ms) \<and>
     distinct (readCoalescedMemberIds (um_coalescedIds r)) \<and>
     set (readCoalescedMemberIds (um_coalescedIds r)) = {s. StrId s \<in> um_id ` set ms \<and> member_id_ok s} \<and>
     (\<forall>xs. map um_id ms = map StrId xs \<and> distinct xs \<and> (\<forall>x \<in> set xs. member_id_ok x) \<longrightarrow>
        readCoalescedMemberIds (um_coalescedIds r) = xs)"
proof -
  let ?ids = "fold add_message_ids ms []"
  have ok: "members_ok ?ids" by (rule fold_messages_ok) (simp add: members_ok_def)
  have eq: "?ids = fold addId (map um_id ms) []" using assms(3) by (rule fold_plain)
  have st: "set ?ids = {s. StrId s \<in> um_id ` set ms \<and> member_id_ok s}"
    unfolding eq using fold_addId_set[of "[]" "map um_id ms"] assms(2) by simp
  have ex: "?ids = xs" if "map um_id ms = map StrId xs" "distinct xs" "\<forall>x \<in> set xs. member_id_ok x" for xs
    using fold_addId_exact[of "[]" xs] that assms(2) map_eq_imp_length_eq[OF that(1)] unfolding eq that(1) by simp
  obtain r where r: "coalesceUserMessages ms = Some r" "um_id r = um_id (last ms)"
      "um_text r = join [CHR 0x0A, CHR 0x0A] (map um_text ms)"
      "um_coalescedIds r = (if ?ids = [] then Absent else IdArray (map Some ?ids))"
    using coalesce_many[OF assms(1)] by simp
  have rd: "readCoalescedMemberIds (um_coalescedIds r) = ?ids" using read_written[OF ok] r(4) by simp
  show ?thesis using r(1-3) ok st ex unfolding rd[symmetric] members_ok_def by blast
qed

theorem coalesce_keeps_members_witness:
  "\<exists>r. coalesceUserMessages [witness_msg ''a'', witness_msg ''b''] = Some r \<and>
     readCoalescedMemberIds (um_coalescedIds r) = [''a'', ''b'']"
  using coalesce_keeps_members[of "[witness_msg ''a'', witness_msg ''b'']"]
  by (force simp: witness_msg_def member_id_ok_def MAX_COALESCED_MEMBER_ID_LENGTH_def)

text \<open>No peer can supply the member list. Whatever fields the incoming frames carry,
  once normalized, every member id of the turn they are folded into is the wire id of one
  of those frames, and a turn made of a single frame has none.\<close>

theorem peer_members_stripped:
  assumes "coalesceUserMessages (map normalizeInboundUserMessage raws) = Some r"
  shows "set (readCoalescedMemberIds (um_coalescedIds r)) \<subseteq> {s. StrId s \<in> um_id ` set raws} \<and>
    (length raws = 1 \<longrightarrow> readCoalescedMemberIds (um_coalescedIds r) = [])"
proof -
  let ?ms = "map normalizeInboundUserMessage raws"
  have pl: "\<forall>m \<in> set ?ms. um_coalescedIds m = Absent" by (simp add: normalizeInboundUserMessage_def)
  have idn: "StrId s = um_id (normalizeInboundUserMessage m) \<longleftrightarrow> StrId s = um_id m" for s m
    by (auto simp: normalizeInboundUserMessage_def split: raw_id.splits)
  consider "raws = []" | m where "raws = [m]" | "2 \<le> length raws"
    by (cases raws; cases "tl raws") auto
  then show ?thesis
  proof cases
    case 3
    have ok: "members_ok (fold add_message_ids ?ms [])" by (rule fold_messages_ok) (simp add: members_ok_def)
    have "um_coalescedIds r = (if fold add_message_ids ?ms [] = [] then Absent else IdArray (map Some (fold add_message_ids ?ms [])))"
      using coalesce_many[of ?ms] 3 assms by auto
    then have "readCoalescedMemberIds (um_coalescedIds r) = fold addId (map um_id ?ms) []"
      using read_written[OF ok] fold_plain[OF pl, of "[]"] by simp
    then show ?thesis using fold_addId_subset[of "map um_id ?ms" "[]"] 3 by (auto simp: idn image_iff)
  qed (use assms in \<open>auto simp: normalizeInboundUserMessage_def\<close>)
qed

theorem peer_members_stripped_witness:
  "\<exists>r. coalesceUserMessages (map normalizeInboundUserMessage
       [(witness_msg ''a'')\<lparr>um_coalescedIds := IdArray [Some ''forged'']\<rparr>]) = Some r \<and>
     readCoalescedMemberIds (um_coalescedIds r) = []"
  using peer_members_stripped[of "[(witness_msg ''a'')\<lparr>um_coalescedIds := IdArray [Some ''forged'']\<rparr>]"] by simp

end
