(* ===== verification/Outcome_Store.thy ===== *)
theory Outcome_Store
  imports Json
begin

text \<open>
  The durable ingress outcome store (\<^verbatim>\<open>packages/plugin/src/ingress-outcome.ts\<close>): the
  bounded hot cache over two persistent dedupe stores, the per-key operation gate whose
  turn a write receipt keeps until it is committed or rolled back, and the quarantine of
  markers whose rollback failed.

  The persistent dedupe stores belong to the host SDK and are a parameter: an arbitrary
  state \<open>'p\<close> with three calls, each of which may throw, and may report a disk error
  through its hook while still answering.  An operation runs atomically with respect to
  its own key (the gate serializes it); operations on different keys interleave between
  operations, and freely while a receipt is open.
\<close>

section \<open>Data\<close>

datatype ingress_outcome = OAccepted | OOverloaded

fun opposite :: "ingress_outcome \<Rightarrow> ingress_outcome" where
  "opposite OAccepted = OOverloaded"
| "opposite OOverloaded = OAccepted"

datatype failure_category =
    LookupFailed ingress_outcome
  | RecordFailed ingress_outcome
  | ReplaceWith ingress_outcome
  | RollbackFailed ingress_outcome
  | RollbackRecovery ingress_outcome
  | RollbackRecoveryPoisoned
  | AdapterLookup
  | AdapterRecord ingress_outcome

datatype durability = Durable | MemoryOnly

datatype outcome_lookup = LFound ingress_outcome | LNotFound | LUnknown

datatype record_result = RRecorded durability nat | RUnknown

definition MAX_INGRESS_OUTCOME_HOT_ENTRIES :: int where "MAX_INGRESS_OUTCOME_HOT_ENTRIES = 2048"
definition MAX_INGRESS_OUTCOME_HOT_BYTES :: int where "MAX_INGRESS_OUTCOME_HOT_BYTES = 2097152"
definition MAX_INGRESS_OUTCOME_ROLLBACK_RECOVERY_ENTRIES :: int where
  "MAX_INGRESS_OUTCOME_ROLLBACK_RECOVERY_ENTRIES = 2048"
definition MAX_INGRESS_OUTCOME_ROLLBACK_RECOVERY_BYTES :: int where
  "MAX_INGRESS_OUTCOME_ROLLBACK_RECOVERY_BYTES = 2097152"
definition HOT_ENTRY_OVERHEAD :: int where "HOT_ENTRY_OVERHEAD = 64"

text \<open>A call on a persistent dedupe store: it throws, or answers, with the flag saying
  whether its disk error hook fired.\<close>

datatype 'a reply = Threw | Answer 'a bool

record 'p dedupe =
  dd_hasRecent :: "string \<Rightarrow> string \<Rightarrow> 'p \<Rightarrow> bool reply \<times> 'p"
  dd_checkAndRecord :: "string \<Rightarrow> string \<Rightarrow> 'p \<Rightarrow> bool reply \<times> 'p"
  dd_forget :: "string \<Rightarrow> string \<Rightarrow> 'p \<Rightarrow> bool reply \<times> 'p"

type_synonym 'p dedupes = "ingress_outcome \<Rightarrow> 'p dedupe"

record 'n outcome_limits =
  ol_maxHotEntries :: 'n
  ol_maxHotBytes :: 'n
  ol_maxRecoveryEntries :: 'n
  ol_maxRecoveryBytes :: 'n

record hot_entry =
  he_accountId :: string
  he_key :: string
  he_outcome :: ingress_outcome
  he_durability :: durability
  he_bytes :: int

record write_receipt =
  w_accountId :: string
  w_key :: string
  w_outcome :: ingress_outcome
  w_created :: bool
  w_durability :: durability
  w_settled :: bool

record 'p outcome_store =
  os_limits :: "int outcome_limits"
  os_hot :: "(string, hot_entry) js_map"
  os_hotBytes :: int
  os_recovery :: "(string, hot_entry) js_map"
  os_recoveryBytes :: int
  os_poisoned :: bool
  os_gates :: "string list"
  os_receipts :: "write_receipt list"
  os_world :: 'p
  os_failures :: "(string \<times> failure_category) list"
  os_invariantWarnings :: nat

datatype store_error = MaxHotEntriesInvalid | MaxHotBytesInvalid | MaxRecoveryEntriesInvalid | MaxRecoveryBytesInvalid

section \<open>Operations\<close>

definition hotKey :: "string \<Rightarrow> string \<Rightarrow> string" where
  "hotKey accountId key = length_prefixed accountId key"

definition hotBytes :: "string \<Rightarrow> string \<Rightarrow> int" where
  "hotBytes accountId key = utf8_length accountId + utf8_length key + HOT_ENTRY_OVERHEAD"

definition check_limit :: "js_number \<Rightarrow> store_error \<Rightarrow> store_error + int" where
  "check_limit v e = (case safe_nonneg v of Some n \<Rightarrow> Inr n | None \<Rightarrow> Inl e)"

text \<open>An option that is not given takes its default.\<close>

definition or_default :: "js_number option \<Rightarrow> int \<Rightarrow> js_number" where
  "or_default v d = (case v of Some n \<Rightarrow> n | None \<Rightarrow> JsInt d)"

definition createIngressOutcomeStore :: "js_number option outcome_limits \<Rightarrow> 'p \<Rightarrow> store_error + 'p outcome_store" where
  "createIngressOutcomeStore l w =
     bindE (check_limit (or_default (ol_maxHotEntries l) MAX_INGRESS_OUTCOME_HOT_ENTRIES) MaxHotEntriesInvalid) (\<lambda>he.
     bindE (check_limit (or_default (ol_maxHotBytes l) MAX_INGRESS_OUTCOME_HOT_BYTES) MaxHotBytesInvalid) (\<lambda>hb.
     bindE (check_limit (or_default (ol_maxRecoveryEntries l) MAX_INGRESS_OUTCOME_ROLLBACK_RECOVERY_ENTRIES) MaxRecoveryEntriesInvalid) (\<lambda>re.
     bindE (check_limit (or_default (ol_maxRecoveryBytes l) MAX_INGRESS_OUTCOME_ROLLBACK_RECOVERY_BYTES) MaxRecoveryBytesInvalid) (\<lambda>rb.
     Inr \<lparr>os_limits = \<lparr>ol_maxHotEntries = he, ol_maxHotBytes = hb,
            ol_maxRecoveryEntries = re, ol_maxRecoveryBytes = rb\<rparr>,
          os_hot = [], os_hotBytes = 0, os_recovery = [], os_recoveryBytes = 0, os_poisoned = False,
          os_gates = [], os_receipts = [], os_world = w, os_failures = [], os_invariantWarnings = 0\<rparr>))))"

definition warnFailure :: "string \<Rightarrow> failure_category \<Rightarrow> 'p outcome_store \<Rightarrow> 'p outcome_store" where
  "warnFailure accountId c s = s\<lparr>os_failures := os_failures s @ [(accountId, c)]\<rparr>"

definition drop_hot :: "string \<Rightarrow> hot_entry \<Rightarrow> 'p outcome_store \<Rightarrow> 'p outcome_store" where
  "drop_hot mapKey e s = s\<lparr>os_hotBytes := os_hotBytes s - he_bytes e, os_hot := AList.delete mapKey (os_hot s)\<rparr>"

definition putHot :: "string \<Rightarrow> string \<Rightarrow> ingress_outcome \<Rightarrow> durability \<Rightarrow> 'p outcome_store \<Rightarrow> 'p outcome_store" where
  "putHot accountId key oc dur s =
     (let mapKey = hotKey accountId key; b = hotBytes accountId key; l = os_limits s;
          s1 = (case map_of (os_hot s) mapKey of Some prior \<Rightarrow> drop_hot mapKey prior s | None \<Rightarrow> s)
      in if ol_maxHotEntries l = 0 \<or> b > ol_maxHotBytes l then s1
         else
           let (m, t) = evict_oldest (ol_maxHotEntries l) (ol_maxHotBytes l) he_bytes b (os_hot s1) (os_hotBytes s1)
           in s1\<lparr>os_hot := AList.update mapKey \<lparr>he_accountId = accountId, he_key = key, he_outcome = oc,
                  he_durability = dur, he_bytes = b\<rparr> m,
                 os_hotBytes := t + b\<rparr>)"

text \<open>The optional outcome restricts the deletion to an entry of that outcome.\<close>

definition deleteHot :: "string \<Rightarrow> string \<Rightarrow> ingress_outcome option \<Rightarrow> 'p outcome_store \<Rightarrow> 'p outcome_store" where
  "deleteHot accountId key oc s =
     (case map_of (os_hot s) (hotKey accountId key) of
        None \<Rightarrow> s
      | Some e \<Rightarrow>
          if (case oc of Some x \<Rightarrow> he_outcome e \<noteq> x | None \<Rightarrow> False) then s
          else drop_hot (hotKey accountId key) e s)"

definition rememberFailedRollback ::
  "string \<Rightarrow> string \<Rightarrow> ingress_outcome \<Rightarrow> durability \<Rightarrow> 'p outcome_store \<Rightarrow> 'p outcome_store" where
  "rememberFailedRollback accountId key oc dur s =
     (let mapKey = hotKey accountId key; s1 = deleteHot accountId key (Some oc) s;
          b = hotBytes accountId key; l = os_limits s
      in if os_poisoned s1 \<or> map_of (os_recovery s1) mapKey \<noteq> None then s1
         else if ol_maxRecoveryEntries l = 0 \<or> b > ol_maxRecoveryBytes l
              \<or> int (length (os_recovery s1)) \<ge> ol_maxRecoveryEntries l
              \<or> os_recoveryBytes s1 + b > ol_maxRecoveryBytes l
         then warnFailure accountId RollbackRecoveryPoisoned (s1\<lparr>os_poisoned := True\<rparr>)
         else warnFailure accountId (RollbackFailed oc)
                (s1\<lparr>os_recovery := AList.update mapKey \<lparr>he_accountId = accountId, he_key = key, he_outcome = oc,
                      he_durability = dur, he_bytes = b\<rparr> (os_recovery s1),
                    os_recoveryBytes := os_recoveryBytes s1 + b\<rparr>))"

text \<open>One call on a dedupe store.\<close>

definition ask ::
  "(string \<Rightarrow> string \<Rightarrow> 'p \<Rightarrow> bool reply \<times> 'p) \<Rightarrow> string \<Rightarrow> string \<Rightarrow> 'p outcome_store \<Rightarrow> bool reply \<times> 'p outcome_store" where
  "ask f accountId key s = (let (r, w) = f accountId key (os_world s) in (r, s\<lparr>os_world := w\<rparr>))"

text \<open>The operation gate. \<open>None\<close>: another operation owns the key's turn, the call waits.\<close>

definition acquireOperation :: "string \<Rightarrow> string \<Rightarrow> 'p outcome_store \<Rightarrow> 'p outcome_store option" where
  "acquireOperation accountId key s =
     (if hotKey accountId key \<in> set (os_gates s) then None
      else Some (s\<lparr>os_gates := hotKey accountId key # os_gates s\<rparr>))"

definition releaseOperation :: "string \<Rightarrow> string \<Rightarrow> 'p outcome_store \<Rightarrow> 'p outcome_store" where
  "releaseOperation accountId key s = s\<lparr>os_gates := remove1 (hotKey accountId key) (os_gates s)\<rparr>"

definition lookupUnlocked :: "'p dedupes \<Rightarrow> string \<Rightarrow> string \<Rightarrow> 'p outcome_store \<Rightarrow> outcome_lookup \<times> 'p outcome_store" where
  "lookupUnlocked dd accountId key s =
     (case ask (dd_hasRecent (dd OOverloaded)) accountId key s of
        (Threw, s1) \<Rightarrow> (LUnknown, warnFailure accountId (LookupFailed OOverloaded) s1)
      | (Answer found diskError, s1) \<Rightarrow>
          if found then
            let s3 = (case ask (dd_hasRecent (dd OAccepted)) accountId key s1 of
                        (Answer True _, s2) \<Rightarrow>
                          snd (ask (dd_forget (dd OAccepted)) accountId key
                            (s2\<lparr>os_invariantWarnings := Suc (os_invariantWarnings s2)\<rparr>))
                      | (_, s2) \<Rightarrow> s2)
            in (LFound OOverloaded, putHot accountId key OOverloaded Durable s3)
          else if diskError then (LUnknown, warnFailure accountId (LookupFailed OOverloaded) s1)
          else
            (case ask (dd_hasRecent (dd OAccepted)) accountId key s1 of
               (Threw, s2) \<Rightarrow> (LUnknown, warnFailure accountId (LookupFailed OAccepted) s2)
             | (Answer found2 diskError2, s2) \<Rightarrow>
                 if found2 then
                   (LFound OAccepted, putHot accountId key OAccepted
                      (case map_of (os_hot s2) (hotKey accountId key) of
                         Some e \<Rightarrow> if he_outcome e = OAccepted then he_durability e else Durable
                       | None \<Rightarrow> Durable) s2)
                 else if diskError2 then (LUnknown, warnFailure accountId (LookupFailed OAccepted) s2)
                 else (LNotFound, s2)))"

text \<open>The boolean is \<^verbatim>\<open>status: "ok"\<close>.\<close>

definition recoverFailedRollbackUnlocked :: "'p dedupes \<Rightarrow> string \<Rightarrow> string \<Rightarrow> 'p outcome_store \<Rightarrow> bool \<times> 'p outcome_store" where
  "recoverFailedRollbackUnlocked dd accountId key s =
     (if os_poisoned s then (False, warnFailure accountId RollbackRecoveryPoisoned s)
      else case map_of (os_recovery s) (hotKey accountId key) of
        None \<Rightarrow> (True, s)
      | Some recovery \<Rightarrow>
          (case ask (dd_forget (dd (he_outcome recovery))) accountId key s of
             (Answer _ False, s1) \<Rightarrow>
               (True, deleteHot accountId key (Some (he_outcome recovery))
                  (s1\<lparr>os_recovery := AList.delete (hotKey accountId key) (os_recovery s1),
                      os_recoveryBytes := os_recoveryBytes s1 - he_bytes recovery\<rparr>))
           | (_, s1) \<Rightarrow> (False, warnFailure accountId (RollbackRecovery (he_outcome recovery)) s1)))"

definition peek :: "string \<Rightarrow> string \<Rightarrow> 'p outcome_store \<Rightarrow> ingress_outcome option" where
  "peek accountId key s =
     (if os_poisoned s \<or> map_of (os_recovery s) (hotKey accountId key) \<noteq> None then None
      else map_option he_outcome (map_of (os_hot s) (hotKey accountId key)))"

definition lookup :: "'p dedupes \<Rightarrow> string \<Rightarrow> string \<Rightarrow> 'p outcome_store \<Rightarrow> (outcome_lookup \<times> 'p outcome_store) option" where
  "lookup dd accountId key s =
     map_option (\<lambda>s0.
       case recoverFailedRollbackUnlocked dd accountId key s0 of
         (False, s1) \<Rightarrow> (LUnknown, releaseOperation accountId key s1)
       | (True, s1) \<Rightarrow>
           let (r, s2) = lookupUnlocked dd accountId key s1 in (r, releaseOperation accountId key s2))
       (acquireOperation accountId key s)"

text \<open>The part of \<^verbatim>\<open>record\<close> after the recovery and the optional replacement succeeded.\<close>

definition record_marker ::
  "'p dedupes \<Rightarrow> string \<Rightarrow> string \<Rightarrow> ingress_outcome \<Rightarrow> 'p outcome_store \<Rightarrow> record_result \<times> 'p outcome_store" where
  "record_marker dd accountId key oc s =
     (case ask (dd_checkAndRecord (dd oc)) accountId key s of
        (Threw, s1) \<Rightarrow> (RUnknown, releaseOperation accountId key (warnFailure accountId (RecordFailed oc) s1))
      | (Answer fresh diskError, s1) \<Rightarrow>
          let s2 = (if diskError then warnFailure accountId (RecordFailed oc) s1 else s1) in
          if diskError \<and> oc = OOverloaded
          then let s3 = snd (ask (dd_forget (dd oc)) accountId key s2)
               in (RUnknown, releaseOperation accountId key (deleteHot accountId key (Some oc) s3))
          else
            let dur = (if diskError then MemoryOnly
                       else case map_of (os_hot s2) (hotKey accountId key) of
                              Some prior \<Rightarrow> if \<not> fresh \<and> he_outcome prior = oc then he_durability prior else Durable
                            | None \<Rightarrow> Durable)
            in (RRecorded dur (length (os_receipts s2)),
                s2\<lparr>os_receipts := os_receipts s2 @ [\<lparr>w_accountId = accountId, w_key = key, w_outcome = oc,
                     w_created = fresh, w_durability = dur, w_settled = False\<rparr>]\<rparr>))"

definition record_outcome ::
  "'p dedupes \<Rightarrow> string \<Rightarrow> string \<Rightarrow> ingress_outcome \<Rightarrow> bool \<Rightarrow> 'p outcome_store
   \<Rightarrow> (record_result \<times> 'p outcome_store) option" where
  "record_outcome dd accountId key oc replaceOpposite s =
     map_option (\<lambda>s0.
       case recoverFailedRollbackUnlocked dd accountId key s0 of
         (False, s1) \<Rightarrow> (RUnknown, releaseOperation accountId key s1)
       | (True, s1) \<Rightarrow>
           if replaceOpposite then
             (case ask (dd_forget (dd (opposite oc))) accountId key s1 of
                (Answer _ False, s2) \<Rightarrow> record_marker dd accountId key oc (deleteHot accountId key None s2)
              | (_, s2) \<Rightarrow> (RUnknown, releaseOperation accountId key (warnFailure accountId (ReplaceWith oc) s2)))
           else record_marker dd accountId key oc s1)
       (acquireOperation accountId key s)"

definition settle_receipt :: "nat \<Rightarrow> 'p outcome_store \<Rightarrow> 'p outcome_store" where
  "settle_receipt i s = s\<lparr>os_receipts := (os_receipts s)[i := (os_receipts s ! i)\<lparr>w_settled := True\<rparr>]\<rparr>"

definition commit_write :: "nat \<Rightarrow> 'p outcome_store \<Rightarrow> 'p outcome_store" where
  "commit_write i s =
     (let w = os_receipts s ! i in
      if w_settled w then s
      else releaseOperation (w_accountId w) (w_key w)
             (putHot (w_accountId w) (w_key w) (w_outcome w) (w_durability w) (settle_receipt i s)))"

definition rollback_write :: "'p dedupes \<Rightarrow> nat \<Rightarrow> 'p outcome_store \<Rightarrow> bool \<times> 'p outcome_store" where
  "rollback_write dd i s =
     (let w = os_receipts s ! i; a = w_accountId w; k = w_key w; oc = w_outcome w in
      if w_settled w then (False, s)
      else
        let (removed, s1) =
              (if w_created w
               then (case ask (dd_forget (dd oc)) a k (settle_receipt i s) of
                       (Answer r False, s') \<Rightarrow> (r, s')
                     | (_, s') \<Rightarrow> (False, rememberFailedRollback a k oc (w_durability w) s'))
               else (False, settle_receipt i s));
            s2 = (if w_created w \<and> map_of (os_recovery s1) (hotKey a k) = None
                  then deleteHot a k (Some oc) s1 else s1)
        in (removed, releaseOperation a k s2))"

definition forget :: "'p dedupes \<Rightarrow> string \<Rightarrow> string \<Rightarrow> ingress_outcome \<Rightarrow> 'p outcome_store \<Rightarrow> (bool \<times> 'p outcome_store) option" where
  "forget dd accountId key oc s =
     map_option (\<lambda>s0.
       case recoverFailedRollbackUnlocked dd accountId key s0 of
         (False, s1) \<Rightarrow> (False, releaseOperation accountId key s1)
       | (True, s1) \<Rightarrow>
           (case ask (dd_forget (dd oc)) accountId key (deleteHot accountId key (Some oc) s1) of
              (Answer removed diskError, s2) \<Rightarrow> (\<not> diskError \<and> removed, releaseOperation accountId key s2)
            | (Threw, s2) \<Rightarrow> (False, releaseOperation accountId key s2)))
       (acquireOperation accountId key s)"

definition hotSize :: "'p outcome_store \<Rightarrow> nat \<times> int" where
  "hotSize s = (length (os_hot s), os_hotBytes s)"

definition rollbackRecoverySize :: "'p outcome_store \<Rightarrow> nat \<times> int \<times> bool" where
  "rollbackRecoverySize s = (length (os_recovery s), os_recoveryBytes s, os_poisoned s)"

section \<open>Rate-limited warnings\<close>

text \<open>\<open>None\<close> is the initial \<^verbatim>\<open>Number.NEGATIVE_INFINITY\<close>: the first event always warns.\<close>

record limiter =
  lm_lastAt :: "int option"
  lm_suppressed :: int

definition fresh_limiter :: limiter where
  "fresh_limiter = \<lparr>lm_lastAt = None, lm_suppressed = 0\<rparr>"

definition within_interval :: "int \<Rightarrow> int \<Rightarrow> limiter \<Rightarrow> bool" where
  "within_interval intervalMs at st = (case lm_lastAt st of Some t \<Rightarrow> at - t < intervalMs | None \<Rightarrow> False)"

definition invariant_warning :: "int \<Rightarrow> int \<Rightarrow> limiter \<Rightarrow> string option \<times> limiter" where
  "invariant_warning intervalMs at st =
     (if within_interval intervalMs at st then (None, st\<lparr>lm_suppressed := lm_suppressed st + 1\<rparr>)
      else (Some (''webchannel: ingress outcome invariant violation (dual marker); overloaded wins '' @
                  ''(suppressed='' @ show_int (lm_suppressed st) @ '')''),
            \<lparr>lm_lastAt = Some at, lm_suppressed = 0\<rparr>))"

fun show_outcome :: "ingress_outcome \<Rightarrow> string" where
  "show_outcome OAccepted = ''accepted''"
| "show_outcome OOverloaded = ''overloaded''"

fun show_category :: "failure_category \<Rightarrow> string" where
  "show_category (LookupFailed oc) = ''lookup-'' @ show_outcome oc"
| "show_category (RecordFailed oc) = ''record-'' @ show_outcome oc"
| "show_category (ReplaceWith oc) = ''replace-with-'' @ show_outcome oc"
| "show_category (RollbackFailed oc) = ''rollback-'' @ show_outcome oc"
| "show_category (RollbackRecovery oc) = ''rollback-recovery-'' @ show_outcome oc"
| "show_category RollbackRecoveryPoisoned = ''rollback-recovery-poisoned''"
| "show_category AdapterLookup = ''adapter-lookup''"
| "show_category (AdapterRecord oc) = ''adapter-record-'' @ show_outcome oc"

definition OUTCOME_FAILURE_CATEGORIES :: "failure_category list" where
  "OUTCOME_FAILURE_CATEGORIES =
     [LookupFailed OOverloaded, LookupFailed OAccepted, RecordFailed OAccepted, RecordFailed OOverloaded,
      ReplaceWith OAccepted, ReplaceWith OOverloaded, RollbackFailed OAccepted, RollbackFailed OOverloaded,
      RollbackRecovery OAccepted, RollbackRecovery OOverloaded, RollbackRecoveryPoisoned,
      AdapterLookup, AdapterRecord OAccepted, AdapterRecord OOverloaded]"

type_synonym failure_limiter = "(failure_category, limiter) js_map"

definition fresh_failure_limiter :: failure_limiter where
  "fresh_failure_limiter = map (\<lambda>c. (c, fresh_limiter)) OUTCOME_FAILURE_CATEGORIES"

text \<open>\<^verbatim>\<open>/^[A-Za-z0-9._-]{1,64}$/\<close>\<close>

definition safe_account_char :: "char \<Rightarrow> bool" where
  "safe_account_char c \<longleftrightarrow>
     (let n = of_char c :: nat in (65 \<le> n \<and> n \<le> 90) \<or> (97 \<le> n \<and> n \<le> 122) \<or> (48 \<le> n \<and> n \<le> 57)) \<or>
     c \<in> {CHR ''.'', CHR ''_'', CHR ''-''}"

definition safe_account :: "string \<Rightarrow> bool" where
  "safe_account a \<longleftrightarrow> 1 \<le> length a \<and> length a \<le> 64 \<and> (\<forall>c \<in> set a. safe_account_char c)"

definition failure_warning ::
  "int \<Rightarrow> int \<Rightarrow> string \<Rightarrow> failure_category \<Rightarrow> failure_limiter \<Rightarrow> string option \<times> failure_limiter" where
  "failure_warning intervalMs at accountId category state =
     (case map_of state category of
        None \<Rightarrow> (None, state)
      | Some entry \<Rightarrow>
          if within_interval intervalMs at entry
          then (None, AList.update category (entry\<lparr>lm_suppressed := min (lm_suppressed entry + 1) max_safe_integer\<rparr>) state)
          else (Some (''webchannel: ingress outcome storage unavailable account='' @
                      (if safe_account accountId then accountId else ''<redacted>'') @ '' '' @
                      ''category='' @ show_category category @ '' action=retry-fail-closed suppressed='' @
                      show_int (lm_suppressed entry)),
                AList.update category \<lparr>lm_lastAt = Some at, lm_suppressed = 0\<rparr> state))"

section \<open>Invariant\<close>

definition entry_ok :: "string \<times> hot_entry \<Rightarrow> bool" where
  "entry_ok p \<longleftrightarrow>
     fst p = hotKey (he_accountId (snd p)) (he_key (snd p)) \<and>
     he_bytes (snd p) = hotBytes (he_accountId (snd p)) (he_key (snd p)) \<and>
     (he_outcome (snd p) = OOverloaded \<longrightarrow> he_durability (snd p) = Durable)"

definition receipt_ok :: "write_receipt \<Rightarrow> bool" where
  "receipt_ok w \<longleftrightarrow> (w_outcome w = OOverloaded \<longrightarrow> w_durability w = Durable)"

definition store_core :: "'p outcome_store \<Rightarrow> bool" where
  "store_core s \<longleftrightarrow>
     cache_ok (ol_maxHotEntries (os_limits s)) (ol_maxHotBytes (os_limits s)) he_bytes (os_hot s) (os_hotBytes s) \<and>
     cache_ok (ol_maxRecoveryEntries (os_limits s)) (ol_maxRecoveryBytes (os_limits s)) he_bytes
       (os_recovery s) (os_recoveryBytes s) \<and>
     (\<forall>p \<in> set (os_hot s). entry_ok p) \<and> (\<forall>p \<in> set (os_recovery s). entry_ok p) \<and>
     (\<forall>w \<in> set (os_receipts s). receipt_ok w)"

definition receipt_key :: "write_receipt \<Rightarrow> string" where
  "receipt_key w = hotKey (w_accountId w) (w_key w)"

text \<open>The gates held between operations are exactly those of the open receipts, one each.\<close>

definition gates_ok :: "'p outcome_store \<Rightarrow> bool" where
  "gates_ok s \<longleftrightarrow>
     distinct (os_gates s) \<and>
     (\<forall>i < length (os_receipts s). \<not> w_settled (os_receipts s ! i) \<longrightarrow> receipt_key (os_receipts s ! i) \<in> set (os_gates s)) \<and>
     (\<forall>i < length (os_receipts s). \<forall>j < length (os_receipts s).
        \<not> w_settled (os_receipts s ! i) \<and> \<not> w_settled (os_receipts s ! j) \<and>
        receipt_key (os_receipts s ! i) = receipt_key (os_receipts s ! j) \<longrightarrow> i = j) \<and>
     (\<forall>g \<in> set (os_gates s). \<exists>i < length (os_receipts s).
        \<not> w_settled (os_receipts s ! i) \<and> receipt_key (os_receipts s ! i) = g)"

definition store_inv :: "'p outcome_store \<Rightarrow> bool" where
  "store_inv s \<longleftrightarrow> store_core s \<and> gates_ok s"

lemma hotBytes_nonneg: "0 \<le> hotBytes a k"
  by (simp add: hotBytes_def HOT_ENTRY_OVERHEAD_def add_nonneg_nonneg)

lemma hotKey_inject: "hotKey a k = hotKey b l \<longleftrightarrow> a = b \<and> k = l"
  by (simp add: hotKey_def length_prefixed_inject)

subsection \<open>Frames of the helpers\<close>

named_theorems store_frames \<open>what the helpers leave alone\<close>

lemma warnFailure_frames [store_frames, simp]:
  "os_limits (warnFailure a c s) = os_limits s" "os_hot (warnFailure a c s) = os_hot s"
  "os_hotBytes (warnFailure a c s) = os_hotBytes s" "os_recovery (warnFailure a c s) = os_recovery s"
  "os_recoveryBytes (warnFailure a c s) = os_recoveryBytes s" "os_poisoned (warnFailure a c s) = os_poisoned s"
  "os_gates (warnFailure a c s) = os_gates s" "os_receipts (warnFailure a c s) = os_receipts s"
  "os_world (warnFailure a c s) = os_world s"
  by (simp_all add: warnFailure_def)

lemma drop_hot_frames [store_frames, simp]:
  "os_limits (drop_hot mk e s) = os_limits s" "os_recovery (drop_hot mk e s) = os_recovery s"
  "os_recoveryBytes (drop_hot mk e s) = os_recoveryBytes s" "os_poisoned (drop_hot mk e s) = os_poisoned s"
  "os_gates (drop_hot mk e s) = os_gates s" "os_receipts (drop_hot mk e s) = os_receipts s"
  "os_world (drop_hot mk e s) = os_world s" "os_failures (drop_hot mk e s) = os_failures s"
  by (simp_all add: drop_hot_def)

lemma deleteHot_frames [store_frames, simp]:
  "os_limits (deleteHot a k oc s) = os_limits s" "os_recovery (deleteHot a k oc s) = os_recovery s"
  "os_recoveryBytes (deleteHot a k oc s) = os_recoveryBytes s" "os_poisoned (deleteHot a k oc s) = os_poisoned s"
  "os_gates (deleteHot a k oc s) = os_gates s" "os_receipts (deleteHot a k oc s) = os_receipts s"
  "os_world (deleteHot a k oc s) = os_world s" "os_failures (deleteHot a k oc s) = os_failures s"
  by (simp_all add: deleteHot_def split: option.splits)

lemma putHot_frames [store_frames, simp]:
  "os_limits (putHot a k oc d s) = os_limits s" "os_recovery (putHot a k oc d s) = os_recovery s"
  "os_recoveryBytes (putHot a k oc d s) = os_recoveryBytes s" "os_poisoned (putHot a k oc d s) = os_poisoned s"
  "os_gates (putHot a k oc d s) = os_gates s" "os_receipts (putHot a k oc d s) = os_receipts s"
  "os_world (putHot a k oc d s) = os_world s"
  by (simp_all add: putHot_def Let_def split: option.splits prod.splits)

lemma remember_frames [store_frames, simp]:
  "os_limits (rememberFailedRollback a k oc d s) = os_limits s"
  "os_gates (rememberFailedRollback a k oc d s) = os_gates s" "os_receipts (rememberFailedRollback a k oc d s) = os_receipts s"
  "os_world (rememberFailedRollback a k oc d s) = os_world s"
  by (simp_all add: rememberFailedRollback_def Let_def)

lemma ask_frames:
  assumes "ask f a k s = (r, s')"
  shows "os_limits s' = os_limits s" "os_hot s' = os_hot s" "os_hotBytes s' = os_hotBytes s"
    "os_recovery s' = os_recovery s" "os_recoveryBytes s' = os_recoveryBytes s" "os_poisoned s' = os_poisoned s"
    "os_gates s' = os_gates s" "os_receipts s' = os_receipts s" "os_failures s' = os_failures s"
    "f a k (os_world s) = (r, os_world s')"
  using assms by (auto simp: ask_def split: prod.splits)

lemma release_frames [store_frames, simp]:
  "os_receipts (releaseOperation a k s) = os_receipts s" "os_poisoned (releaseOperation a k s) = os_poisoned s"
  "os_world (releaseOperation a k s) = os_world s" "os_recovery (releaseOperation a k s) = os_recovery s"
  "os_hot (releaseOperation a k s) = os_hot s" "os_limits (releaseOperation a k s) = os_limits s"
  "os_gates (releaseOperation a k s) = remove1 (hotKey a k) (os_gates s)"
  by (simp_all add: releaseOperation_def)

lemma store_core_gates [simp]: "store_core (s\<lparr>os_gates := g\<rparr>) = store_core s"
  by (simp add: store_core_def)

lemma store_core_release [simp]: "store_core (releaseOperation a k s) = store_core s"
  by (simp add: releaseOperation_def)

lemma store_core_warn [simp]: "store_core (warnFailure a c s) = store_core s"
  by (simp add: store_core_def warnFailure_def)

lemma store_core_ask: "ask f a k s = (r, s') \<Longrightarrow> store_core s' = store_core s"
  by (simp add: store_core_def ask_frames)

subsection \<open>The helpers keep the caches exact\<close>

lemma drop_hot_core:
  "store_core s \<Longrightarrow> map_of (os_hot s) mk = Some e \<Longrightarrow> store_core (drop_hot mk e s)"
  using cache_ok_delete[of _ _ he_bytes "os_hot s"]
  by (auto simp: store_core_def drop_hot_def set_delete_eq)

lemma deleteHot_core: "store_core s \<Longrightarrow> store_core (deleteHot a k oc s)"
  using drop_hot_core by (auto simp: deleteHot_def split: option.splits)

lemma putHot_core:
  assumes c: "store_core s" and d: "oc = OOverloaded \<longrightarrow> dur = Durable"
  shows "store_core (putHot a k oc dur s)"
proof -
  let ?mk = "hotKey a k" and ?b = "hotBytes a k"
  let ?e = "\<lparr>he_accountId = a, he_key = k, he_outcome = oc, he_durability = dur, he_bytes = ?b\<rparr>"
  define s1 where "s1 = (case map_of (os_hot s) ?mk of Some prior \<Rightarrow> drop_hot ?mk prior s | None \<Rightarrow> s)"
  have c1: "store_core s1" using c drop_hot_core by (auto simp: s1_def split: option.splits)
  have fresh: "?mk \<notin> set (js_keys (os_hot s1))"
    by (auto simp: s1_def drop_hot_def set_delete_eq map_of_eq_None_iff split: option.splits)
  have l1: "os_limits s1 = os_limits s" by (simp add: s1_def split: option.splits)
  show ?thesis
  proof (cases "ol_maxHotEntries (os_limits s) = 0 \<or> ?b > ol_maxHotBytes (os_limits s)")
    case True
    then have "putHot a k oc dur s = s1" by (auto simp: putHot_def Let_def s1_def)
    then show ?thesis using c1 by simp
  next
    case False
    obtain m t where ev: "evict_oldest (ol_maxHotEntries (os_limits s)) (ol_maxHotBytes (os_limits s)) he_bytes ?b (os_hot s1) (os_hotBytes s1) = (m, t)"
      by fastforce
    have eq: "putHot a k oc dur s = s1\<lparr>os_hot := AList.update ?mk ?e m, os_hotBytes := t + ?b\<rparr>"
      using False ev by (auto simp: putHot_def Let_def s1_def)
    obtain d' where sub: "os_hot s1 = d' @ m" using evict_oldest_suffix[OF ev] by blast
    have ok: "cache_ok (ol_maxHotEntries (os_limits s)) (ol_maxHotBytes (os_limits s)) he_bytes (os_hot s1) (os_hotBytes s1)"
      using c1 l1 by (simp add: store_core_def)
    have pos: "0 < ol_maxHotEntries (os_limits s)" using False ok by (auto simp: cache_ok_def)
    have "cache_ok (ol_maxHotEntries (os_limits s)) (ol_maxHotBytes (os_limits s)) he_bytes (AList.update ?mk ?e m) (t + he_bytes ?e)"
      by (rule cache_ok_insert[OF ok fresh]) (use False pos ev hotBytes_nonneg in auto)
    moreover have "AList.update ?mk ?e m = m @ [(?mk, ?e)]" using fresh sub by (intro update_fresh_append) auto
    ultimately show ?thesis using c1 l1 d sub by (auto simp: eq store_core_def entry_ok_def)
  qed
qed

lemma remember_core:
  assumes c: "store_core s" and d: "oc = OOverloaded \<longrightarrow> dur = Durable"
  shows "store_core (rememberFailedRollback a k oc dur s)"
proof -
  let ?s1 = "deleteHot a k (Some oc) s" and ?mk = "hotKey a k" and ?b = "hotBytes a k"
  let ?e = "\<lparr>he_accountId = a, he_key = k, he_outcome = oc, he_durability = dur, he_bytes = ?b\<rparr>"
  have c1: "store_core ?s1" using deleteHot_core[OF c] .
  show ?thesis
  proof (cases "os_poisoned s \<or> map_of (os_recovery s) ?mk \<noteq> None \<or> ol_maxRecoveryEntries (os_limits s) = 0 \<or>
      ?b > ol_maxRecoveryBytes (os_limits s) \<or> int (length (os_recovery s)) \<ge> ol_maxRecoveryEntries (os_limits s) \<or>
      os_recoveryBytes s + ?b > ol_maxRecoveryBytes (os_limits s)")
    case True
    then show ?thesis using c1 by (auto simp: rememberFailedRollback_def Let_def store_core_def)
  next
    case False
    have fresh: "?mk \<notin> set (js_keys (os_recovery s))" using False by (auto simp: map_of_eq_None_iff)
    have "cache_ok (ol_maxRecoveryEntries (os_limits s)) (ol_maxRecoveryBytes (os_limits s)) he_bytes
        (AList.update ?mk ?e (os_recovery s)) (os_recoveryBytes s + he_bytes ?e)"
      by (rule cache_ok_append[OF _ fresh])
        (use False c hotBytes_nonneg in \<open>auto simp: store_core_def cache_ok_def\<close>)
    moreover have "rememberFailedRollback a k oc dur s = warnFailure a (RollbackFailed oc)
        (?s1\<lparr>os_recovery := AList.update ?mk ?e (os_recovery s), os_recoveryBytes := os_recoveryBytes s + ?b\<rparr>)"
      using False by (auto simp: rememberFailedRollback_def Let_def)
    ultimately show ?thesis using c1 d by (auto simp: store_core_def update_fresh_append[OF fresh] entry_ok_def)
  qed
qed

subsection \<open>Every operation keeps the invariant\<close>

text \<open>What an operation may not touch while it owns a key's turn.\<close>

definition op_frame :: "'p outcome_store \<Rightarrow> 'p outcome_store \<Rightarrow> bool" where
  "op_frame s s' \<longleftrightarrow>
     os_gates s' = os_gates s \<and> os_receipts s' = os_receipts s \<and> os_poisoned s' = os_poisoned s \<and> os_limits s' = os_limits s"

lemma op_frame_refl [simp]: "op_frame s s"
  by (simp add: op_frame_def)

lemma op_frame_trans: "op_frame s t \<Longrightarrow> op_frame t u \<Longrightarrow> op_frame s u"
  by (simp add: op_frame_def)

lemma op_frame_helpers [simp]:
  "op_frame s (warnFailure a c t) = op_frame s t" "op_frame s (deleteHot a k oc t) = op_frame s t"
  "op_frame s (putHot a k o2 d t) = op_frame s t"
  by (simp_all add: op_frame_def)

lemma op_frame_ask: "ask f a k t = (r, t') \<Longrightarrow> op_frame s t' = op_frame s t"
  by (simp add: op_frame_def ask_frames)

lemma lookupUnlocked_ok:
  assumes c: "store_core s" and l: "lookupUnlocked dd a k s = (r, s')"
  shows "store_core s' \<and> op_frame s s'"
proof -
  obtain r1 s1 where a1: "ask (dd_hasRecent (dd OOverloaded)) a k s = (r1, s1)" by fastforce
  obtain r2 s2 where a2: "ask (dd_hasRecent (dd OAccepted)) a k s1 = (r2, s2)" by fastforce
  obtain r3 s3 where a3: "ask (dd_forget (dd OAccepted)) a k (s2\<lparr>os_invariantWarnings := Suc (os_invariantWarnings s2)\<rparr>) = (r3, s3)"
    by fastforce
  have c1: "store_core s1" "op_frame s s1" using store_core_ask[OF a1] op_frame_ask[OF a1] c by auto
  have c2: "store_core s2" "op_frame s s2" using store_core_ask[OF a2] op_frame_ask[OF a2] c1 by auto
  have c3: "store_core s3" "op_frame s s3" using store_core_ask[OF a3] op_frame_ask[OF a3] c2
    by (auto simp: store_core_def op_frame_def)
  have dur: "store_core (putHot a k OAccepted d s2)" for d by (rule putHot_core[OF c2(1)]) simp
  have over: "store_core (putHot a k OOverloaded Durable t)" if "store_core t" for t by (rule putHot_core[OF that]) simp
  show ?thesis
    using l a1 a2 a3 c1 c2 c3 dur over
    by (auto simp: lookupUnlocked_def Let_def split: reply.splits if_splits bool.splits)
qed

lemma recover_ok:
  assumes c: "store_core s" and l: "recoverFailedRollbackUnlocked dd a k s = (ok, s')"
  shows "store_core s' \<and> op_frame s s' \<and> (ok \<longrightarrow> \<not> os_poisoned s \<and> map_of (os_recovery s') (hotKey a k) = None) \<and>
    (\<not> ok \<longrightarrow> os_recovery s' = os_recovery s)"
proof (cases "os_poisoned s \<or> map_of (os_recovery s) (hotKey a k) = None")
  case True
  then show ?thesis using c l by (auto simp: recoverFailedRollbackUnlocked_def split: if_splits)
next
  case False
  then obtain e where e: "map_of (os_recovery s) (hotKey a k) = Some e" and np: "\<not> os_poisoned s" by auto
  obtain r1 s1 where a1: "ask (dd_forget (dd (he_outcome e))) a k s = (r1, s1)" by fastforce
  note F = ask_frames[OF a1]
  have c1: "store_core s1" "op_frame s s1" using store_core_ask[OF a1] op_frame_ask[OF a1] c by auto
  let ?s2 = "s1\<lparr>os_recovery := AList.delete (hotKey a k) (os_recovery s1), os_recoveryBytes := os_recoveryBytes s1 - he_bytes e\<rparr>"
  have "store_core ?s2" using c1(1) e F(4) cache_ok_delete[of _ _ he_bytes "os_recovery s1"]
    by (auto simp: store_core_def set_delete_eq)
  then have c2: "store_core (deleteHot a k (Some (he_outcome e)) ?s2)" by (rule deleteHot_core)
  have f2: "op_frame s ?s2" using c1(2) by (simp add: op_frame_def)
  show ?thesis using l a1 e np c1 c2 f2 F(4)
    by (auto simp: recoverFailedRollbackUnlocked_def alist_simps split: reply.splits bool.splits)
qed

text \<open>The gate: taken for the duration of an operation, or kept by a new receipt.\<close>

lemma gates_ok_frame: "gates_ok s \<Longrightarrow> op_frame s s' \<Longrightarrow> gates_ok s'"
  by (simp add: gates_ok_def op_frame_def)

lemma acquire_release_ok:
  assumes "gates_ok s" "acquireOperation a k s = Some s0" "op_frame s0 s'"
  shows "gates_ok (releaseOperation a k s')"
  using assms by (auto simp: acquireOperation_def gates_ok_def op_frame_def split: if_splits)

lemma acquire_core: "acquireOperation a k s = Some s0 \<Longrightarrow> store_core s0 = store_core s"
  by (auto simp: acquireOperation_def split: if_splits)

lemma lookup_ok:
  assumes inv: "store_inv s" and l: "lookup dd a k s = Some (r, s')"
  shows "store_inv s'"
proof -
  obtain s0 where s0: "acquireOperation a k s = Some s0" using l by (auto simp: lookup_def)
  obtain ok s1 where r: "recoverFailedRollbackUnlocked dd a k s0 = (ok, s1)" by fastforce
  have c0: "store_core s0" using acquire_core[OF s0] inv by (simp add: store_inv_def)
  note R = recover_ok[OF c0 r]
  obtain r2 s2 where l2: "lookupUnlocked dd a k s1 = (r2, s2)" by fastforce
  have L: "store_core s2" "op_frame s0 s2"
    using lookupUnlocked_ok[OF _ l2] R by (auto intro: op_frame_trans)
  have "s' = (if ok then releaseOperation a k s2 else releaseOperation a k s1)"
    using l s0 r l2 by (cases ok) (auto simp: lookup_def)
  then show ?thesis using acquire_release_ok[of s a k s0] s0 L R inv by (auto simp: store_inv_def)
qed

lemma forget_ok:
  assumes inv: "store_inv s" and l: "forget dd a k oc s = Some (r, s')"
  shows "store_inv s'"
proof -
  obtain s0 where s0: "acquireOperation a k s = Some s0" using l by (auto simp: forget_def)
  obtain ok s1 where r: "recoverFailedRollbackUnlocked dd a k s0 = (ok, s1)" by fastforce
  have c0: "store_core s0" using acquire_core[OF s0] inv by (simp add: store_inv_def)
  note R = recover_ok[OF c0 r]
  obtain r2 s2 where l2: "ask (dd_forget (dd oc)) a k (deleteHot a k (Some oc) s1) = (r2, s2)" by fastforce
  have L: "store_core s2" "op_frame s0 s2"
    using store_core_ask[OF l2] op_frame_ask[OF l2] R deleteHot_core[of s1 a k "Some oc"] by auto
  have "s' = (if ok then releaseOperation a k s2 else releaseOperation a k s1)"
    using l s0 r l2 by (cases ok) (auto simp: forget_def split: reply.splits)
  then show ?thesis using acquire_release_ok[of s a k s0] s0 L R inv by (auto simp: store_inv_def)
qed

lemma new_receipt_ok:
  assumes g: "gates_ok s" and a: "acquireOperation a k s = Some s0" and f: "op_frame s0 s1"
    and w: "receipt_key w = hotKey a k" "\<not> w_settled w"
  shows "gates_ok (s1\<lparr>os_receipts := os_receipts s1 @ [w]\<rparr>)"
proof -
  have e: "hotKey a k \<notin> set (os_gates s)" "os_gates s1 = hotKey a k # os_gates s" "os_receipts s1 = os_receipts s"
    using a f by (auto simp: acquireOperation_def op_frame_def split: if_splits)
  have old: "receipt_key (os_receipts s ! i) \<noteq> hotKey a k" if "i < length (os_receipts s)" "\<not> w_settled (os_receipts s ! i)" for i
    using g e(1) that by (auto simp: gates_ok_def)
  have old': "hotKey a k \<noteq> receipt_key (os_receipts s ! i)" if "i < length (os_receipts s)" "\<not> w_settled (os_receipts s ! i)" for i
    using old[OF that] by simp
  show ?thesis unfolding gates_ok_def
  proof (intro conjI allI impI ballI)
    show "distinct (os_gates (s1\<lparr>os_receipts := os_receipts s1 @ [w]\<rparr>))" using g e by (simp add: gates_ok_def)
  next
    fix i assume "i < length (os_receipts (s1\<lparr>os_receipts := os_receipts s1 @ [w]\<rparr>))"
      "\<not> w_settled (os_receipts (s1\<lparr>os_receipts := os_receipts s1 @ [w]\<rparr>) ! i)"
    then show "receipt_key (os_receipts (s1\<lparr>os_receipts := os_receipts s1 @ [w]\<rparr>) ! i) \<in> set (os_gates (s1\<lparr>os_receipts := os_receipts s1 @ [w]\<rparr>))"
      using g e w by (auto simp: gates_ok_def nth_append less_Suc_eq)
  next
    fix i j assume "i < length (os_receipts (s1\<lparr>os_receipts := os_receipts s1 @ [w]\<rparr>))"
      "j < length (os_receipts (s1\<lparr>os_receipts := os_receipts s1 @ [w]\<rparr>))"
      "\<not> w_settled (os_receipts (s1\<lparr>os_receipts := os_receipts s1 @ [w]\<rparr>) ! i) \<and>
       \<not> w_settled (os_receipts (s1\<lparr>os_receipts := os_receipts s1 @ [w]\<rparr>) ! j) \<and>
       receipt_key (os_receipts (s1\<lparr>os_receipts := os_receipts s1 @ [w]\<rparr>) ! i) =
       receipt_key (os_receipts (s1\<lparr>os_receipts := os_receipts s1 @ [w]\<rparr>) ! j)"
    then show "i = j" using g e w old old' by (auto simp: gates_ok_def nth_append less_Suc_eq)
  next
    fix x assume "x \<in> set (os_gates (s1\<lparr>os_receipts := os_receipts s1 @ [w]\<rparr>))"
    then have "x = hotKey a k \<or> x \<in> set (os_gates s)" using e by auto
    then show "\<exists>i < length (os_receipts (s1\<lparr>os_receipts := os_receipts s1 @ [w]\<rparr>)).
       \<not> w_settled (os_receipts (s1\<lparr>os_receipts := os_receipts s1 @ [w]\<rparr>) ! i) \<and>
       receipt_key (os_receipts (s1\<lparr>os_receipts := os_receipts s1 @ [w]\<rparr>) ! i) = x"
    proof
      assume "x = hotKey a k"
      then show ?thesis using w by (intro exI[of _ "length (os_receipts s1)"]) simp
    next
      assume "x \<in> set (os_gates s)"
      then obtain i where "i < length (os_receipts s)" "\<not> w_settled (os_receipts s ! i)" "receipt_key (os_receipts s ! i) = x"
        using g by (auto simp: gates_ok_def)
      then show ?thesis using e by (intro exI[of _ i]) (simp add: nth_append)
    qed
  qed
qed

lemma record_marker_ok:
  assumes g: "gates_ok s" and a: "acquireOperation a k s = Some s0" and f: "op_frame s0 s1" and c: "store_core s1"
    and r: "record_marker dd a k oc s1 = (r, s')"
  shows "store_inv s'"
proof -
  obtain rp s2 where ask: "ask (dd_checkAndRecord (dd oc)) a k s1 = (rp, s2)" by fastforce
  have c2: "store_core s2" "op_frame s0 s2" using store_core_ask[OF ask] op_frame_ask[OF ask] c f by auto
  obtain rp3 s3 where ask3: "ask (dd_forget (dd oc)) a k (warnFailure a (RecordFailed oc) s2) = (rp3, s3)" by fastforce
  have c3: "store_core s3" "op_frame s0 s3" using store_core_ask[OF ask3] op_frame_ask[OF ask3] c2 by auto
  have rel: "store_inv (releaseOperation a k t)" if "store_core t" "op_frame s0 t" for t
    using acquire_release_ok[OF g a] that by (simp add: store_inv_def)
  have del: "store_core (deleteHot a k (Some oc) s3)" using deleteHot_core[OF c3(1)] .
  have new: "store_inv (t\<lparr>os_receipts := os_receipts t @ [\<lparr>w_accountId = a, w_key = k, w_outcome = oc,
       w_created = fresh, w_durability = dur, w_settled = False\<rparr>]\<rparr>)"
    if "store_core t" "op_frame s0 t" "oc = OOverloaded \<longrightarrow> dur = Durable" for t fresh dur
    using new_receipt_ok[OF g a that(2), of "\<lparr>w_accountId = a, w_key = k, w_outcome = oc,
       w_created = fresh, w_durability = dur, w_settled = False\<rparr>"] that(1,3)
    by (auto simp: store_inv_def receipt_key_def store_core_def receipt_ok_def)
  have prior: "he_outcome e = OOverloaded \<longrightarrow> he_durability e = Durable" if "map_of (os_hot s2) mk = Some e" for mk e
    using map_of_SomeD[OF that] c2(1) by (auto simp: store_core_def entry_ok_def)
  show ?thesis
  proof (cases rp)
    case Threw
    then show ?thesis using r ask rel[of "warnFailure a (RecordFailed oc) s2"] c2 by (auto simp: record_marker_def)
  next
    case (Answer fresh diskError)
    show ?thesis
    proof (cases "diskError \<and> oc = OOverloaded")
      case True
      then have "s' = releaseOperation a k (deleteHot a k (Some oc) s3)"
        using r ask ask3 Answer by (auto simp: record_marker_def)
      then show ?thesis using rel[OF del] c3 by simp
    next
      case False
      define t where "t = (if diskError then warnFailure a (RecordFailed oc) s2 else s2)"
      define dur where "dur = (if diskError then MemoryOnly else case map_of (os_hot t) (hotKey a k) of
          Some prior \<Rightarrow> if \<not> fresh \<and> he_outcome prior = oc then he_durability prior else Durable | None \<Rightarrow> Durable)"
      have "store_core t" "op_frame s0 t" using c2 by (simp_all add: t_def)
      moreover have "oc = OOverloaded \<longrightarrow> dur = Durable"
        using False prior by (auto simp: dur_def t_def split: option.splits)
      moreover have "s' = t\<lparr>os_receipts := os_receipts t @ [\<lparr>w_accountId = a, w_key = k, w_outcome = oc,
         w_created = fresh, w_durability = dur, w_settled = False\<rparr>]\<rparr>"
        using r ask Answer False by (auto simp: record_marker_def Let_def t_def dur_def)
      ultimately show ?thesis using new by simp
    qed
  qed
qed

lemma record_ok:
  assumes inv: "store_inv s" and l: "record_outcome dd a k oc repl s = Some (r, s')"
  shows "store_inv s'"
proof -
  obtain s0 where s0: "acquireOperation a k s = Some s0" using l by (auto simp: record_outcome_def)
  obtain ok s1 where rc: "recoverFailedRollbackUnlocked dd a k s0 = (ok, s1)" by fastforce
  have g: "gates_ok s" and c0: "store_core s0" using acquire_core[OF s0] inv by (simp_all add: store_inv_def)
  note R = recover_ok[OF c0 rc]
  obtain rp s2 where ask: "ask (dd_forget (dd (opposite oc))) a k s1 = (rp, s2)" by fastforce
  have c2: "store_core s2" "op_frame s0 s2" using store_core_ask[OF ask] op_frame_ask[OF ask] R by auto
  have rel: "store_inv (releaseOperation a k t)" if "store_core t" "op_frame s0 t" for t
    using acquire_release_ok[OF g s0] that by (simp add: store_inv_def)
  have mk: "store_inv s'" if "op_frame s0 t" "store_core t" "record_marker dd a k oc t = (r, s')" for t
    using record_marker_ok[OF g s0 that] .
  have del: "store_core (deleteHot a k None s2)" using deleteHot_core[OF c2(1)] .
  show ?thesis
    using l s0 rc R ask c2 del mk[of s1] mk[of "deleteHot a k None s2"] rel[of s1] rel[of "warnFailure a (ReplaceWith oc) s2"]
    by (auto simp: record_outcome_def split: bool.splits if_splits reply.splits)
qed

lemma settle_gates_ok:
  assumes g: "gates_ok s" and i: "i < length (os_receipts s)" and u: "\<not> w_settled (os_receipts s ! i)"
    and t: "os_gates t = os_gates s" "os_receipts t = os_receipts (settle_receipt i s)"
  shows "gates_ok (releaseOperation (w_accountId (os_receipts s ! i)) (w_key (os_receipts s ! i)) t)"
proof -
  let ?k = "receipt_key (os_receipts s ! i)"
  have other: "receipt_key (os_receipts s ! j) \<noteq> ?k" if "j < length (os_receipts s)" "\<not> w_settled (os_receipts s ! j)" "j \<noteq> i" for j
    using g i u that unfolding gates_ok_def by blast
  have owner: "\<exists>j < length (os_receipts s). j \<noteq> i \<and> \<not> w_settled (os_receipts s ! j) \<and> receipt_key (os_receipts s ! j) = x"
    if "x \<in> set (os_gates s)" "x \<noteq> ?k" for x
    using g that unfolding gates_ok_def by blast
  have d: "distinct (os_gates s)" using g by (simp add: gates_ok_def)
  let ?R = "(os_receipts s)[i := (os_receipts s ! i)\<lparr>w_settled := True\<rparr>]"
  have un: "j < length (os_receipts s) \<and> j \<noteq> i \<and> \<not> w_settled (os_receipts s ! j) \<and> ?R ! j = os_receipts s ! j"
    if "j < length ?R" "\<not> w_settled (?R ! j)" for j
    using that by (cases "j = i") auto
  have gs: "os_gates (releaseOperation (w_accountId (os_receipts s ! i)) (w_key (os_receipts s ! i)) t) = remove1 ?k (os_gates s)"
    by (simp add: t receipt_key_def)
  have rs: "os_receipts (releaseOperation (w_accountId (os_receipts s ! i)) (w_key (os_receipts s ! i)) t) = ?R"
    by (simp add: t settle_receipt_def)
  show ?thesis unfolding gates_ok_def gs rs
  proof (intro conjI allI impI ballI)
    show "distinct (remove1 ?k (os_gates s))" using d by simp
  next
    fix j assume "j < length ?R" "\<not> w_settled (?R ! j)"
    then show "receipt_key (?R ! j) \<in> set (remove1 ?k (os_gates s))"
      using un[of j] other[of j] g by (auto simp: gates_ok_def set_remove1_eq[OF d])
  next
    fix j l assume "j < length ?R" "l < length ?R"
      "\<not> w_settled (?R ! j) \<and> \<not> w_settled (?R ! l) \<and> receipt_key (?R ! j) = receipt_key (?R ! l)"
    then show "j = l" using un[of j] un[of l] g unfolding gates_ok_def by metis
  next
    fix x assume "x \<in> set (remove1 ?k (os_gates s))"
    then obtain j where j: "j < length (os_receipts s)" "j \<noteq> i" "\<not> w_settled (os_receipts s ! j)" "receipt_key (os_receipts s ! j) = x"
      using owner[of x] by (auto simp: set_remove1_eq[OF d])
    then show "\<exists>j < length ?R. \<not> w_settled (?R ! j) \<and> receipt_key (?R ! j) = x" by (intro exI[of _ j]) simp
  qed
qed

lemma settle_core: "store_core s \<Longrightarrow> i < length (os_receipts s) \<Longrightarrow> store_core (settle_receipt i s)"
  using set_update_subset_insert[of "os_receipts s" i "(os_receipts s ! i)\<lparr>w_settled := True\<rparr>"]
  by (auto simp: store_core_def settle_receipt_def receipt_ok_def dest!: subsetD)

lemma settle_frames [simp]:
  "os_gates (settle_receipt i s) = os_gates s" "os_limits (settle_receipt i s) = os_limits s"
  "os_hot (settle_receipt i s) = os_hot s" "os_recovery (settle_receipt i s) = os_recovery s"
  "os_poisoned (settle_receipt i s) = os_poisoned s" "os_world (settle_receipt i s) = os_world s"
  by (simp_all add: settle_receipt_def)

lemma inv_receipt_ok: "store_core s \<Longrightarrow> i < length (os_receipts s) \<Longrightarrow>
  w_outcome (os_receipts s ! i) = OOverloaded \<longrightarrow> w_durability (os_receipts s ! i) = Durable"
  using nth_mem[of i "os_receipts s"] by (auto simp: store_core_def receipt_ok_def)

lemma commit_write_ok:
  assumes inv: "store_inv s" and i: "i < length (os_receipts s)"
  shows "store_inv (commit_write i s)"
proof (cases "w_settled (os_receipts s ! i)")
  case True
  then show ?thesis using inv by (simp add: commit_write_def)
next
  case False
  let ?w = "os_receipts s ! i"
  let ?t = "putHot (w_accountId ?w) (w_key ?w) (w_outcome ?w) (w_durability ?w) (settle_receipt i s)"
  have c: "store_core s" and g: "gates_ok s" using inv by (simp_all add: store_inv_def)
  have "store_core ?t" by (rule putHot_core[OF settle_core[OF c i] inv_receipt_ok[OF c i]])
  then show ?thesis using settle_gates_ok[OF g i False, of ?t] False
    by (simp add: commit_write_def Let_def store_inv_def)
qed

lemma rollback_write_ok:
  assumes inv: "store_inv s" and i: "i < length (os_receipts s)" and r: "rollback_write dd i s = (r, s')"
  shows "store_inv s'"
proof (cases "w_settled (os_receipts s ! i)")
  case True
  then show ?thesis using inv r by (simp add: rollback_write_def)
next
  case False
  let ?w = "os_receipts s ! i"
  let ?a = "w_accountId ?w" and ?k = "w_key ?w" and ?oc = "w_outcome ?w" and ?dur = "w_durability ?w"
  have c: "store_core s" and g: "gates_ok s" using inv by (simp_all add: store_inv_def)
  have cs: "store_core (settle_receipt i s)" by (rule settle_core[OF c i])
  obtain rp s1 where ask: "ask (dd_forget (dd ?oc)) ?a ?k (settle_receipt i s) = (rp, s1)" by fastforce
  note F = ask_frames[OF ask]
  have c1: "store_core s1" using store_core_ask[OF ask] cs by simp
  have cr: "store_core (rememberFailedRollback ?a ?k ?oc ?dur s1)" by (rule remember_core[OF c1 inv_receipt_ok[OF c i]])
  have fin: "store_inv (releaseOperation ?a ?k t)"
    if "store_core t" "os_gates t = os_gates s" "os_receipts t = os_receipts (settle_receipt i s)" for t
    using settle_gates_ok[OF g i False that(2,3)] that(1) by (simp add: store_inv_def)
  define u where "u = (if w_created ?w then (case rp of Answer b False \<Rightarrow> s1 | _ \<Rightarrow> rememberFailedRollback ?a ?k ?oc ?dur s1)
      else settle_receipt i s)"
  have u: "store_core u" "os_gates u = os_gates s" "os_receipts u = os_receipts (settle_receipt i s)"
    using c1 cr cs F by (auto simp: u_def split: reply.splits bool.splits)
  have "s' = releaseOperation ?a ?k u \<or> s' = releaseOperation ?a ?k (deleteHot ?a ?k (Some ?oc) u)"
    using r False ask by (auto simp: rollback_write_def Let_def u_def split: reply.splits bool.splits if_splits)
  then show ?thesis using fin[OF u] fin[of "deleteHot ?a ?k (Some ?oc) u"] u deleteHot_core[OF u(1)] by auto
qed

section \<open>Runs of the store\<close>

datatype store_op =
    SLookup string string
  | SRecord string string ingress_outcome bool
  | SForget string string ingress_outcome
  | SCommit nat
  | SRollback nat

text \<open>\<open>None\<close>: the operation waits for the key's gate, or the receipt does not exist.\<close>

fun store_step :: "'p dedupes \<Rightarrow> store_op \<Rightarrow> 'p outcome_store \<Rightarrow> 'p outcome_store option" where
  "store_step dd (SLookup a k) s = map_option snd (lookup dd a k s)"
| "store_step dd (SRecord a k oc repl) s = map_option snd (record_outcome dd a k oc repl s)"
| "store_step dd (SForget a k oc) s = map_option snd (forget dd a k oc s)"
| "store_step dd (SCommit i) s = (if i < length (os_receipts s) then Some (commit_write i s) else None)"
| "store_step dd (SRollback i) s = (if i < length (os_receipts s) then Some (snd (rollback_write dd i s)) else None)"

text \<open>The dedupe stores are shared with other writers: their state may change between
  operations in any way.\<close>

inductive reachable_store :: "'p dedupes \<Rightarrow> 'p outcome_store \<Rightarrow> bool" for dd where
  store_created: "createIngressOutcomeStore l w = Inr s \<Longrightarrow> reachable_store dd s"
| store_stepped: "reachable_store dd s \<Longrightarrow> store_step dd op s = Some s' \<Longrightarrow> reachable_store dd s'"
| store_world: "reachable_store dd s \<Longrightarrow> reachable_store dd (s\<lparr>os_world := w\<rparr>)"

lemma created_store_inv: "createIngressOutcomeStore l w = Inr s \<Longrightarrow> store_inv s"
  by (auto simp: createIngressOutcomeStore_def exc_simps check_limit_def store_inv_def store_core_def gates_ok_def
      split: option.splits dest!: safe_nonneg_SomeD)

lemma store_step_ok:
  assumes "store_inv s" "store_step dd op s = Some s'"
  shows "store_inv s'"
proof (cases op)
  case (SLookup a k)
  then show ?thesis using assms lookup_ok[of s dd a k] by auto
next
  case (SRecord a k oc repl)
  then show ?thesis using assms record_ok[of s dd a k oc repl] by auto
next
  case (SForget a k oc)
  then show ?thesis using assms forget_ok[of s dd a k oc] by auto
next
  case (SCommit i)
  then show ?thesis using assms commit_write_ok by (auto split: if_splits)
next
  case (SRollback i)
  then show ?thesis using assms rollback_write_ok[of s i dd] by (cases "rollback_write dd i s") (auto split: if_splits)
qed

lemma store_inv_world [simp]: "store_inv (s\<lparr>os_world := w\<rparr>) = store_inv s"
  by (simp add: store_inv_def store_core_def gates_ok_def)

lemma reachable_store_inv: "reachable_store dd s \<Longrightarrow> store_inv s"
  by (induction rule: reachable_store.induct) (auto simp: created_store_inv store_step_ok)

fun store_run :: "'p dedupes \<Rightarrow> store_op list \<Rightarrow> 'p outcome_store \<Rightarrow> 'p outcome_store option" where
  "store_run dd [] s = Some s"
| "store_run dd (op # ops) s = Option.bind (store_step dd op s) (store_run dd ops)"

lemma store_run_reachable: "reachable_store dd s \<Longrightarrow> store_run dd ops s = Some s' \<Longrightarrow> reachable_store dd s'"
  by (induction ops arbitrary: s) (auto simp: Option.bind_eq_Some_conv intro: store_stepped)

text \<open>
  What the code relies on of the dedupe stores, in terms of the markers their state holds: an
  error-free answer tells the truth and has done what it says, and no call makes a marker appear but
  a record its own.  A call may lose any other marker: the stores expire and evict on their own.
\<close>

definition no_new_marker :: "(ingress_outcome \<Rightarrow> string \<Rightarrow> string \<Rightarrow> 'p \<Rightarrow> bool) \<Rightarrow> 'p \<Rightarrow> 'p \<Rightarrow> bool" where
  "no_new_marker marked w w' \<longleftrightarrow> (\<forall>oc a k. marked oc a k w' \<longrightarrow> marked oc a k w)"

definition no_other_marker ::
  "(ingress_outcome \<Rightarrow> string \<Rightarrow> string \<Rightarrow> 'p \<Rightarrow> bool) \<Rightarrow> ingress_outcome \<Rightarrow> string \<Rightarrow> string \<Rightarrow> 'p \<Rightarrow> 'p \<Rightarrow> bool" where
  "no_other_marker marked oc a k w w' \<longleftrightarrow>
     (\<forall>oc' a' k'. (oc', a', k') \<noteq> (oc, a, k) \<longrightarrow> marked oc' a' k' w' \<longrightarrow> marked oc' a' k' w)"

definition dedupe_laws :: "'p dedupes \<Rightarrow> (ingress_outcome \<Rightarrow> string \<Rightarrow> string \<Rightarrow> 'p \<Rightarrow> bool) \<Rightarrow> bool" where
  "dedupe_laws dd marked \<longleftrightarrow>
     (\<forall>oc a k w rp w'. dd_forget (dd oc) a k w = (rp, w') \<longrightarrow> no_new_marker marked w w' \<and>
        (\<forall>r. rp = Answer r False \<longrightarrow> \<not> marked oc a k w' \<and> r = marked oc a k w)) \<and>
     (\<forall>oc a k w rp w'. dd_checkAndRecord (dd oc) a k w = (rp, w') \<longrightarrow> no_other_marker marked oc a k w w' \<and>
        (\<forall>r. rp = Answer r False \<longrightarrow> marked oc a k w' \<and> r = (\<not> marked oc a k w))) \<and>
     (\<forall>oc a k w rp w'. dd_hasRecent (dd oc) a k w = (rp, w') \<longrightarrow> no_new_marker marked w w' \<and>
        (\<forall>r. rp = Answer r False \<longrightarrow> r = marked oc a k w))"

lemma dedupe_lawsD:
  assumes "dedupe_laws dd marked"
  shows "dd_forget (dd oc) a k w = (rp, w') \<Longrightarrow> no_new_marker marked w w'"
    and "dd_forget (dd oc) a k w = (Answer r False, w') \<Longrightarrow> \<not> marked oc a k w' \<and> r = marked oc a k w"
    and "dd_checkAndRecord (dd oc) a k w = (rp, w') \<Longrightarrow> no_other_marker marked oc a k w w'"
    and "dd_checkAndRecord (dd oc) a k w = (Answer r False, w') \<Longrightarrow> marked oc a k w' \<and> r = (\<not> marked oc a k w)"
  using assms unfolding dedupe_laws_def by blast+

lemma no_new_refl [simp]: "no_new_marker marked w w"
  by (simp add: no_new_marker_def)

lemma undone_marker:
  assumes "no_other_marker marked oc a k w w1" "no_new_marker marked w1 w2" "\<not> marked oc a k w2"
  shows "no_new_marker marked w w2"
  unfolding no_new_marker_def
proof (intro allI impI)
  fix oc' a' k' assume m: "marked oc' a' k' w2"
  then have "(oc', a', k') \<noteq> (oc, a, k)" "marked oc' a' k' w1" using assms(2,3) by (auto simp: no_new_marker_def)
  then show "marked oc' a' k' w" using assms(1) by (simp add: no_other_marker_def)
qed

lemma no_new_trans: "no_new_marker marked w w' \<Longrightarrow> no_new_marker marked w' w'' \<Longrightarrow> no_new_marker marked w w''"
  by (simp add: no_new_marker_def)

text \<open>A dedupe store with these laws, for the witnesses: the markers, and whether its disk
  currently fails.\<close>

type_synonym demo_world = "bool \<times> (ingress_outcome \<times> string \<times> string) list"

definition demo_dedupe :: "demo_world dedupes" where
  "demo_dedupe oc =
     \<lparr>dd_hasRecent = (\<lambda>a k w. (Answer ((oc, a, k) \<in> set (snd w)) (fst w), w)),
      dd_checkAndRecord = (\<lambda>a k w. if (oc, a, k) \<in> set (snd w) then (Answer False (fst w), w)
         else (Answer True (fst w), (fst w, (oc, a, k) # snd w))),
      dd_forget = (\<lambda>a k w. if fst w then (Answer False True, w)
         else (Answer ((oc, a, k) \<in> set (snd w)) False, (False, removeAll (oc, a, k) (snd w))))\<rparr>"

definition demo_marked :: "ingress_outcome \<Rightarrow> string \<Rightarrow> string \<Rightarrow> demo_world \<Rightarrow> bool" where
  "demo_marked oc a k w \<longleftrightarrow> (oc, a, k) \<in> set (snd w)"

lemma demo_laws: "dedupe_laws demo_dedupe demo_marked"
  by (auto simp: dedupe_laws_def demo_dedupe_def demo_marked_def no_new_marker_def no_other_marker_def split: if_splits)

definition demo_store :: "demo_world \<Rightarrow> demo_world outcome_store" where
  "demo_store w = projr (createIngressOutcomeStore
     \<lparr>ol_maxHotEntries = Some (JsInt 2), ol_maxHotBytes = Some (JsInt 200), ol_maxRecoveryEntries = Some (JsInt 1), ol_maxRecoveryBytes = Some (JsInt 200)\<rparr> w)"

lemma demo_store_reachable: "reachable_store demo_dedupe (demo_store w)"
proof -
  have "createIngressOutcomeStore \<lparr>ol_maxHotEntries = Some (JsInt 2), ol_maxHotBytes = Some (JsInt 200), ol_maxRecoveryEntries = Some (JsInt 1),
      ol_maxRecoveryBytes = Some (JsInt 200)\<rparr> w = Inr (demo_store w)"
    by (simp add: demo_store_def createIngressOutcomeStore_def or_default_def check_limit_def safe_nonneg_int_def max_safe_integer_def)
  then show ?thesis by (rule store_created)
qed

definition demo_runs :: "demo_world \<Rightarrow> store_op list \<Rightarrow> (demo_world outcome_store \<Rightarrow> bool) \<Rightarrow> bool" where
  "demo_runs w ops Q = (case store_run demo_dedupe ops (demo_store w) of Some s \<Rightarrow> Q s | None \<Rightarrow> False)"

lemma demo_runsD: "demo_runs w ops Q \<Longrightarrow> \<exists>s. reachable_store demo_dedupe s \<and> Q s"
  using store_run_reachable[OF demo_store_reachable[of w], of ops] by (auto simp: demo_runs_def split: option.splits)

section \<open>Properties\<close>

lemma record_recorded:
  assumes "record_outcome dd a k oc repl s = Some (RRecorded dur i, s')"
  shows "\<exists>s0 s1 t. acquireOperation a k s = Some s0 \<and> recoverFailedRollbackUnlocked dd a k s0 = (True, s1) \<and>
     record_marker dd a k oc t = (RRecorded dur i, s') \<and>
     (if repl then \<exists>r s2. ask (dd_forget (dd (opposite oc))) a k s1 = (Answer r False, s2) \<and> t = deleteHot a k None s2
      else t = s1)"
proof -
  obtain s0 where s0: "acquireOperation a k s = Some s0" using assms by (auto simp: record_outcome_def)
  obtain ok s1 where r: "recoverFailedRollbackUnlocked dd a k s0 = (ok, s1)" by fastforce
  obtain rp s2 where f: "ask (dd_forget (dd (opposite oc))) a k s1 = (rp, s2)" by fastforce
  have ok: ok using assms s0 r by (cases ok) (auto simp: record_outcome_def)
  show ?thesis
  proof (cases repl)
    case True
    obtain x where x: "rp = Answer x False"
      using assms s0 r f ok True by (cases rp) (auto simp: record_outcome_def split: bool.splits)
    then show ?thesis using assms s0 r f ok True
      by (intro exI[of _ s0] exI[of _ s1] exI[of _ "deleteHot a k None s2"]) (auto simp: record_outcome_def)
  next
    case False
    then show ?thesis using assms s0 r ok
      by (intro exI[of _ s0] exI[of _ s1] exI[of _ s1]) (auto simp: record_outcome_def)
  qed
qed

text \<open>What a successful write leaves behind: its answer and its open receipt.\<close>

lemma record_marker_recorded:
  assumes "record_marker dd a k oc t = (RRecorded dur i, s')"
  shows "\<exists>fresh de s2. ask (dd_checkAndRecord (dd oc)) a k t = (Answer fresh de, s2) \<and> (dur = Durable \<longrightarrow> \<not> de) \<and>
     os_world s' = os_world s2 \<and> i = length (os_receipts t) \<and> os_recovery s' = os_recovery t \<and>
     os_receipts s' = os_receipts t @ [\<lparr>w_accountId = a, w_key = k, w_outcome = oc,
       w_created = fresh, w_durability = dur, w_settled = False\<rparr>]"
proof -
  obtain rp s2 where c: "ask (dd_checkAndRecord (dd oc)) a k t = (rp, s2)" by fastforce
  note F = ask_frames[OF c]
  obtain fresh de where rp: "rp = Answer fresh de" using assms c by (cases rp) (auto simp: record_marker_def)
  have "\<not> (de \<and> oc = OOverloaded)" using assms c rp by (auto simp: record_marker_def Let_def)
  then show ?thesis using assms c rp F
    by (intro exI[of _ fresh] exI[of _ de] exI[of _ s2]) (auto simp: record_marker_def Let_def)
qed

lemma record_result_receipt:
  assumes "record_outcome dd a k oc repl s = Some (RRecorded dur i, s')"
  shows "i < length (os_receipts s') \<and> w_accountId (os_receipts s' ! i) = a \<and> w_key (os_receipts s' ! i) = k \<and>
    w_outcome (os_receipts s' ! i) = oc \<and> w_durability (os_receipts s' ! i) = dur \<and> \<not> w_settled (os_receipts s' ! i)"
  using record_recorded[OF assms] record_marker_recorded[of dd a k oc _ dur i s'] by fastforce

text \<open>C7: The in-process metadata of the outcome store is bounded and its accounting exact.
  In every reachable state, whatever the dedupe stores answer, the hot cache and the
  rollback quarantine hold at most their configured numbers of entries and bytes, and the
  running byte totals equal the sums over the entries held.\<close>

theorem outcome_store_bounded:
  assumes "reachable_store dd s"
  shows "int (length (os_hot s)) \<le> ol_maxHotEntries (os_limits s) \<and> os_hotBytes s \<le> ol_maxHotBytes (os_limits s) \<and>
     os_hotBytes s = (\<Sum>p \<leftarrow> os_hot s. he_bytes (snd p)) \<and>
     int (length (os_recovery s)) \<le> ol_maxRecoveryEntries (os_limits s) \<and>
     os_recoveryBytes s \<le> ol_maxRecoveryBytes (os_limits s) \<and>
     os_recoveryBytes s = (\<Sum>p \<leftarrow> os_recovery s. he_bytes (snd p))"
  using reachable_store_inv[OF assms] by (simp add: store_inv_def store_core_def cache_ok_def cache_total_def comp_def)

theorem outcome_store_bounded_witness:
  "\<exists>s. reachable_store demo_dedupe s \<and> int (length (os_hot s)) \<le> 2 \<and> os_hotBytes s = (\<Sum>p \<leftarrow> os_hot s. he_bytes (snd p)) \<and>
     length (os_hot s) = 2 \<and> length (os_receipts s) = 3"
proof -
  have "demo_runs (False, []) [SRecord ''a'' ''1'' OAccepted False, SCommit 0, SRecord ''a'' ''2'' OOverloaded False, SCommit 1,
      SRecord ''b'' ''1'' OAccepted False, SCommit 2]
    (\<lambda>s. length (os_hot s) = 2 \<and> length (os_receipts s) = 3 \<and> ol_maxHotEntries (os_limits s) = 2)"
    by code_simp
  from demo_runsD[OF this] obtain s where s: "reachable_store demo_dedupe s"
      "length (os_hot s) = 2" "length (os_receipts s) = 3" "ol_maxHotEntries (os_limits s) = 2" by blast
  show ?thesis using s outcome_store_bounded[OF s(1)] by auto
qed

text \<open>C26: A rejection is only ever authorized by a durable marker: whenever recording an
  overloaded outcome succeeds, its durability is durable, whatever was cached before and
  whatever disk errors the stores reported.\<close>

theorem overload_is_durable:
  assumes "reachable_store dd s" and "record_outcome dd a k OOverloaded repl s = Some (RRecorded dur i, s')"
  shows "dur = Durable"
proof -
  have core: "store_core s'" using record_ok[OF reachable_store_inv[OF assms(1)] assms(2)] by (simp add: store_inv_def)
  have "\<exists>w \<in> set (os_receipts s'). w_outcome w = OOverloaded \<and> w_durability w = dur"
    using record_result_receipt[OF assms(2)] by (metis nth_mem)
  then show ?thesis using core by (auto simp: store_core_def receipt_ok_def)
qed

theorem overload_is_durable_witness:
  "\<exists>s s'. reachable_store demo_dedupe s \<and> record_outcome demo_dedupe ''a'' ''1'' OOverloaded False s = Some (RRecorded Durable 0, s')"
proof -
  have "case record_outcome demo_dedupe ''a'' ''1'' OOverloaded False (demo_store (False, [])) of
      Some (RRecorded dur i, s') \<Rightarrow> i = 0 | _ \<Rightarrow> False"
    by code_simp
  then obtain dur s' where "record_outcome demo_dedupe ''a'' ''1'' OOverloaded False (demo_store (False, [])) = Some (RRecorded dur 0, s')"
    by (auto split: option.splits record_result.splits)
  then show ?thesis using overload_is_durable[OF demo_store_reachable] demo_store_reachable by blast
qed

lemma acquire_blocked:
  "hotKey a k \<in> set (os_gates s) \<Longrightarrow> lookup dd a k s = None \<and> record_outcome dd a k oc repl s = None \<and> forget dd a k oc s = None"
  by (simp add: lookup_def record_outcome_def forget_def acquireOperation_def)

lemma commit_gates:
  "\<not> w_settled (os_receipts s ! i) \<Longrightarrow> os_gates (commit_write i s) = remove1 (receipt_key (os_receipts s ! i)) (os_gates s)"
  by (simp add: commit_write_def Let_def receipt_key_def)

lemma rollback_gates:
  assumes "\<not> w_settled (os_receipts s ! i)"
  shows "os_gates (snd (rollback_write dd i s)) = remove1 (receipt_key (os_receipts s ! i)) (os_gates s)"
proof -
  let ?w = "os_receipts s ! i"
  obtain rp s1 where a: "ask (dd_forget (dd (w_outcome ?w))) (w_accountId ?w) (w_key ?w) (settle_receipt i s) = (rp, s1)" by fastforce
  show ?thesis using assms ask_frames[OF a] a
    by (auto simp: rollback_write_def Let_def receipt_key_def split: reply.splits bool.splits)
qed

text \<open>C27: A write receipt owns its key exclusively. While it is open, every lookup, record
  and forget of that account and key waits; committing it or rolling it back hands the
  turn on, and no other key is ever blocked by it.\<close>

theorem receipt_owns_key:
  assumes "reachable_store dd s" and "i < length (os_receipts s)" and "\<not> w_settled (os_receipts s ! i)"
    and "w_accountId (os_receipts s ! i) = a" and "w_key (os_receipts s ! i) = k"
  shows "lookup dd a k s = None \<and> record_outcome dd a k oc repl s = None \<and> forget dd a k oc s = None \<and>
     acquireOperation a k (commit_write i s) \<noteq> None \<and> acquireOperation a k (snd (rollback_write dd i s)) \<noteq> None \<and>
     ((\<forall>j < length (os_receipts s). w_accountId (os_receipts s ! j) = b \<and> w_key (os_receipts s ! j) = l \<longrightarrow>
        w_settled (os_receipts s ! j)) \<longrightarrow> lookup dd b l s \<noteq> None)"
proof -
  have g: "gates_ok s" using reachable_store_inv[OF assms(1)] by (simp add: store_inv_def)
  have key: "receipt_key (os_receipts s ! i) = hotKey a k" using assms(4,5) by (simp add: receipt_key_def)
  have held: "hotKey a k \<in> set (os_gates s)" using g assms(2,3) key by (auto simp: gates_ok_def)
  have d: "distinct (os_gates s)" using g by (simp add: gates_ok_def)
  have free: "hotKey b l \<notin> set (os_gates s)"
    if "\<forall>j < length (os_receipts s). w_accountId (os_receipts s ! j) = b \<and> w_key (os_receipts s ! j) = l \<longrightarrow> w_settled (os_receipts s ! j)"
    using g that by (fastforce simp: gates_ok_def receipt_key_def hotKey_inject)
  show ?thesis
    using acquire_blocked[OF held] free commit_gates[OF assms(3)] rollback_gates[OF assms(3), of dd] key d
    by (auto simp: acquireOperation_def lookup_def)
qed

theorem receipt_owns_key_witness:
  "\<exists>s. reachable_store demo_dedupe s \<and> lookup demo_dedupe ''a'' ''1'' s = None \<and>
     acquireOperation ''a'' ''1'' (commit_write 0 s) \<noteq> None \<and> lookup demo_dedupe ''b'' ''1'' s \<noteq> None"
proof -
  have "demo_runs (False, []) [SRecord ''a'' ''1'' OAccepted False]
    (\<lambda>s. length (os_receipts s) = 1 \<and> \<not> w_settled (os_receipts s ! 0) \<and> w_accountId (os_receipts s ! 0) = ''a'' \<and> w_key (os_receipts s ! 0) = ''1'')"
    by code_simp
  from demo_runsD[OF this] obtain s where s: "reachable_store demo_dedupe s" "length (os_receipts s) = 1"
      "\<not> w_settled (os_receipts s ! 0)" "w_accountId (os_receipts s ! 0) = ''a''" "w_key (os_receipts s ! 0) = ''1''" by blast
  have "0 < length (os_receipts s)" using s(2) by simp
  then show ?thesis using s(1,2,4) receipt_owns_key[OF s(1) _ s(3,4,5), of OAccepted False "''b''" "''1''"] by auto
qed

lemma poisoned_ops:
  assumes "os_poisoned s"
  shows "lookup dd a' k' s = Some (r, s') \<Longrightarrow> r = LUnknown \<and> os_world s' = os_world s \<and> os_poisoned s'"
    and "record_outcome dd a' k' oc' repl' s = Some (r2, s') \<Longrightarrow> r2 = RUnknown \<and> os_world s' = os_world s \<and> os_poisoned s'"
    and "forget dd a' k' oc' s = Some (r3, s') \<Longrightarrow> r3 = False \<and> os_world s' = os_world s \<and> os_poisoned s'"
    and "store_step dd op s = Some s' \<Longrightarrow> os_poisoned s'"
proof -
  have rec: "recoverFailedRollbackUnlocked dd a' k' t = (False, warnFailure a' RollbackRecoveryPoisoned t)" if "os_poisoned t" for a' k' t
    using that by (simp add: recoverFailedRollbackUnlocked_def)
  have ops: "lookup dd a' k' s = Some (r, s') \<Longrightarrow> r = LUnknown \<and> os_world s' = os_world s \<and> os_poisoned s'"
    "record_outcome dd a' k' oc' repl' s = Some (r2, s') \<Longrightarrow> r2 = RUnknown \<and> os_world s' = os_world s \<and> os_poisoned s'"
    "forget dd a' k' oc' s = Some (r3, s') \<Longrightarrow> r3 = False \<and> os_world s' = os_world s \<and> os_poisoned s'" for a' k' oc' repl' r r2 r3 s'
    using assms by (auto simp: lookup_def record_outcome_def forget_def acquireOperation_def rec split: if_splits)
  have com: "os_poisoned (commit_write i s)" for i using assms by (simp add: commit_write_def Let_def)
  have rol: "os_poisoned (snd (rollback_write dd i s))" for i
  proof -
    let ?w = "os_receipts s ! i"
    obtain rp s1 where a: "ask (dd_forget (dd (w_outcome ?w))) (w_accountId ?w) (w_key ?w) (settle_receipt i s) = (rp, s1)" by fastforce
    have "os_poisoned s1" using ask_frames(6)[OF a] assms by simp
    then show ?thesis using assms a
      by (auto simp: rollback_write_def Let_def rememberFailedRollback_def split: reply.splits bool.splits)
  qed
  show "lookup dd a' k' s = Some (r, s') \<Longrightarrow> r = LUnknown \<and> os_world s' = os_world s \<and> os_poisoned s'"
    "record_outcome dd a' k' oc' repl' s = Some (r2, s') \<Longrightarrow> r2 = RUnknown \<and> os_world s' = os_world s \<and> os_poisoned s'"
    "forget dd a' k' oc' s = Some (r3, s') \<Longrightarrow> r3 = False \<and> os_world s' = os_world s \<and> os_poisoned s'" by (fact ops)+
  show "store_step dd op s = Some s' \<Longrightarrow> os_poisoned s'" using ops com rol by (cases op) (auto split: if_splits)
qed

text \<open>Exhausting the quarantine fails closed for good. Once the store is poisoned no
  operation reads an outcome or writes a marker any more: peeks see nothing, lookups and
  records are unknown, forgets report failure, the dedupe stores are not touched, and
  every further step leaves the store poisoned.\<close>

theorem poisoned_fails_closed:
  assumes "os_poisoned s"
  shows "peek a k s = None \<and>
     (\<forall>r s'. lookup dd a k s = Some (r, s') \<longrightarrow> r = LUnknown \<and> os_world s' = os_world s) \<and>
     (\<forall>r s'. record_outcome dd a k oc repl s = Some (r, s') \<longrightarrow> r = RUnknown \<and> os_world s' = os_world s) \<and>
     (\<forall>r s'. forget dd a k oc s = Some (r, s') \<longrightarrow> r = False \<and> os_world s' = os_world s) \<and>
     (\<forall>op s'. store_step dd op s = Some s' \<longrightarrow> os_poisoned s')"
proof -
  have pk: "peek a k s = None" using assms by (simp add: peek_def)
  show ?thesis using pk by (auto dest: poisoned_ops[OF assms])
qed

theorem poisoned_fails_closed_witness:
  "\<exists>s. os_poisoned s \<and> reachable_store demo_dedupe s \<and> peek ''a'' ''1'' s = None \<and>
     (\<exists>s'. lookup demo_dedupe ''c'' ''3'' s = Some (LUnknown, s'))"
proof -
  have "demo_runs (True, []) [SRecord ''a'' ''1'' OAccepted False, SRollback 0, SRecord ''b'' ''2'' OAccepted False, SRollback 1]
    (\<lambda>s. os_poisoned s \<and> lookup demo_dedupe ''c'' ''3'' s \<noteq> None)"
    by code_simp
  from demo_runsD[OF this] obtain s r s' where s: "reachable_store demo_dedupe s" "os_poisoned s"
      "lookup demo_dedupe ''c'' ''3'' s = Some (r, s')" by (metis option.exhaust surj_pair)
  have "r = LUnknown" using poisoned_fails_closed[OF s(2), of "''c''" "''3''" demo_dedupe] s(3) by blast
  then show ?thesis using s poisoned_fails_closed[OF s(2), of "''a''" "''1''" demo_dedupe] by blast
qed

text \<open>Only the operation that owns a key's turn touches the key's quarantine, so an open
  receipt's key is never quarantined.\<close>

definition receipts_clean :: "'p outcome_store \<Rightarrow> bool" where
  "receipts_clean s \<longleftrightarrow>
     (\<forall>w \<in> set (os_receipts s). \<not> w_settled w \<longrightarrow> map_of (os_recovery s) (receipt_key w) = None)"

definition recovery_frame :: "string \<Rightarrow> 'p outcome_store \<Rightarrow> 'p outcome_store \<Rightarrow> bool" where
  "recovery_frame mk s s' \<longleftrightarrow> (\<forall>m. m \<noteq> mk \<longrightarrow> map_of (os_recovery s') m = map_of (os_recovery s) m)"

lemma lookupUnlocked_recovery:
  assumes l: "lookupUnlocked dd a k s = (r, s')"
  shows "os_recovery s' = os_recovery s"
proof -
  obtain r1 s1 where a1: "ask (dd_hasRecent (dd OOverloaded)) a k s = (r1, s1)" by fastforce
  obtain r2 s2 where a2: "ask (dd_hasRecent (dd OAccepted)) a k s1 = (r2, s2)" by fastforce
  obtain r3 s3 where a3: "ask (dd_forget (dd OAccepted)) a k (s2\<lparr>os_invariantWarnings := Suc (os_invariantWarnings s2)\<rparr>) = (r3, s3)"
    by fastforce
  show ?thesis using l a1 a2 a3 ask_frames(4)[OF a1] ask_frames(4)[OF a2] ask_frames(4)[OF a3]
    by (auto simp: lookupUnlocked_def Let_def split: reply.splits if_splits bool.splits)
qed

lemma recover_recovery:
  assumes "recoverFailedRollbackUnlocked dd a k s = (ok, s')"
  shows "recovery_frame (hotKey a k) s s' \<and> (ok \<longrightarrow> map_of (os_recovery s') (hotKey a k) = None)"
proof (cases "os_poisoned s \<or> map_of (os_recovery s) (hotKey a k) = None")
  case True
  then show ?thesis using assms by (auto simp: recoverFailedRollbackUnlocked_def recovery_frame_def split: if_splits)
next
  case False
  then obtain e where e: "map_of (os_recovery s) (hotKey a k) = Some e" "\<not> os_poisoned s" by auto
  obtain r1 s1 where a1: "ask (dd_forget (dd (he_outcome e))) a k s = (r1, s1)" by fastforce
  show ?thesis using assms e a1 ask_frames(4)[OF a1]
    by (auto simp: recoverFailedRollbackUnlocked_def recovery_frame_def alist_simps split: reply.splits bool.splits)
qed

lemma record_marker_recovery:
  assumes "record_marker dd a k oc t = (r, s')"
  shows "os_recovery s' = os_recovery t \<and> (os_receipts s' = os_receipts t \<or>
    (\<exists>w. os_receipts s' = os_receipts t @ [w] \<and> receipt_key w = hotKey a k))"
proof -
  obtain rp s2 where c: "ask (dd_checkAndRecord (dd oc)) a k t = (rp, s2)" by fastforce
  obtain rp3 s3 where c3: "ask (dd_forget (dd oc)) a k (warnFailure a (RecordFailed oc) s2) = (rp3, s3)" by fastforce
  show ?thesis using assms c c3 ask_frames(4,8)[OF c] ask_frames(4,8)[OF c3]
    by (auto simp: record_marker_def Let_def receipt_key_def split: reply.splits if_splits)
qed

text \<open>How an operation on \<open>a\<close>, \<open>k\<close> can change receipts and quarantine.\<close>

definition keyed_change :: "string \<Rightarrow> 'p outcome_store \<Rightarrow> 'p outcome_store \<Rightarrow> bool" where
  "keyed_change mk s s' \<longleftrightarrow> recovery_frame mk s s' \<and>
     (os_receipts s' = os_receipts s \<or>
      (\<exists>w. os_receipts s' = os_receipts s @ [w] \<and> receipt_key w = mk \<and> map_of (os_recovery s') mk = None))"

lemma keyed_change_clean:
  assumes "receipts_clean s" "gates_ok s" "mk \<notin> set (os_gates s)" "keyed_change mk s s'"
  shows "receipts_clean s'"
proof -
  have "receipt_key w \<noteq> mk" if "w \<in> set (os_receipts s)" "\<not> w_settled w" for w
    using assms(2,3) that by (metis gates_ok_def in_set_conv_nth)
  then show ?thesis using assms(1,4) by (auto simp: receipts_clean_def keyed_change_def recovery_frame_def)
qed

lemma op_receipts: "op_frame s t \<Longrightarrow> os_receipts t = os_receipts s"
  by (simp add: op_frame_def)

lemma ops_keyed:
  assumes inv: "store_inv s"
  shows "lookup dd a k s = Some (r, s') \<Longrightarrow> keyed_change (hotKey a k) s s' \<and> hotKey a k \<notin> set (os_gates s)"
    and "forget dd a k oc s = Some (r2, s') \<Longrightarrow> keyed_change (hotKey a k) s s' \<and> hotKey a k \<notin> set (os_gates s)"
    and "record_outcome dd a k oc repl s = Some (r3, s') \<Longrightarrow> keyed_change (hotKey a k) s s' \<and> hotKey a k \<notin> set (os_gates s)"
proof -
  let ?s0 = "s\<lparr>os_gates := hotKey a k # os_gates s\<rparr>"
  obtain ok s1 where rc: "recoverFailedRollbackUnlocked dd a k ?s0 = (ok, s1)" by fastforce
  have c0: "store_core ?s0" using inv by (simp add: store_inv_def)
  have R: "os_receipts s1 = os_receipts s" "recovery_frame (hotKey a k) s s1" "ok \<Longrightarrow> map_of (os_recovery s1) (hotKey a k) = None"
    using recover_ok[OF c0 rc] recover_recovery[OF rc] by (auto simp: op_frame_def recovery_frame_def)
  have c1: "store_core s1" using recover_ok[OF c0 rc] by simp
  have kc: "keyed_change (hotKey a k) s t" if "os_receipts t = os_receipts s1" "os_recovery t = os_recovery s1" for t
    using that R by (auto simp: keyed_change_def recovery_frame_def)
  have acq: "acquireOperation a k s = Some y \<Longrightarrow> y = ?s0 \<and> hotKey a k \<notin> set (os_gates s)" for y
    by (auto simp: acquireOperation_def split: if_splits)
  show "keyed_change (hotKey a k) s s' \<and> hotKey a k \<notin> set (os_gates s)" if l: "lookup dd a k s = Some (r, s')"
  proof -
    obtain r2 s2 where l2: "lookupUnlocked dd a k s1 = (r2, s2)" by fastforce
    have "os_receipts s2 = os_receipts s1" "os_recovery s2 = os_recovery s1"
      using lookupUnlocked_ok[OF c1 l2] lookupUnlocked_recovery[OF l2] by (auto simp: op_frame_def)
    then show ?thesis using l rc l2 kc[of s'] acq by (cases ok) (auto simp: lookup_def)
  qed
  show "keyed_change (hotKey a k) s s' \<and> hotKey a k \<notin> set (os_gates s)" if l: "forget dd a k oc s = Some (r2, s')"
  proof -
    obtain rp s2 where l2: "ask (dd_forget (dd oc)) a k (deleteHot a k (Some oc) s1) = (rp, s2)" by fastforce
    have "os_receipts s2 = os_receipts s1" "os_recovery s2 = os_recovery s1" using ask_frames(4,8)[OF l2] by auto
    then show ?thesis using l rc l2 kc[of s'] acq by (cases ok) (auto simp: forget_def split: reply.splits)
  qed
  show "keyed_change (hotKey a k) s s' \<and> hotKey a k \<notin> set (os_gates s)" if l: "record_outcome dd a k oc repl s = Some (r3, s')"
  proof -
    obtain rp s2 where l2: "ask (dd_forget (dd (opposite oc))) a k s1 = (rp, s2)" by fastforce
    note F = ask_frames(4,8)[OF l2]
    have mk: "keyed_change (hotKey a k) s s'" if "record_marker dd a k oc t = (r3, s')" "os_receipts t = os_receipts s1" "os_recovery t = os_recovery s1" ok for t
      using record_marker_recovery[OF that(1)] that(2-4) R by (auto simp: keyed_change_def recovery_frame_def)
    show ?thesis using l rc l2 kc[of s'] acq mk[of s1] mk[of "deleteHot a k None s2"] F
      by (cases ok) (auto simp: record_outcome_def split: if_splits reply.splits bool.splits)
  qed
qed

lemma settled_receipts_clean:
  assumes cl: "receipts_clean s" and g: "gates_ok s" and i: "i < length (os_receipts s)" and u: "\<not> w_settled (os_receipts s ! i)"
    and t: "os_receipts t = os_receipts (settle_receipt i s)" "recovery_frame (receipt_key (os_receipts s ! i)) s t"
  shows "receipts_clean t"
proof -
  have "receipt_key w \<noteq> receipt_key (os_receipts s ! i) \<and> map_of (os_recovery s) (receipt_key w) = None"
    if w: "w \<in> set (os_receipts t)" "\<not> w_settled w" for w
  proof -
    obtain j where j0: "j < length (os_receipts s)" "w = os_receipts (settle_receipt i s) ! j"
      using w(1) t(1) by (auto simp: in_set_conv_nth settle_receipt_def)
    then have j: "j < length (os_receipts s)" "w = os_receipts s ! j" "j \<noteq> i"
      using w(2) i by (cases "j = i"; simp add: settle_receipt_def)+
    moreover have "os_receipts s ! j \<in> set (os_receipts s)" using j(1) by simp
    ultimately show ?thesis using g u i w(2) cl unfolding gates_ok_def receipts_clean_def by metis
  qed
  then show ?thesis using t(2) by (simp add: receipts_clean_def recovery_frame_def)
qed

lemma rollback_recovery_frame:
  assumes "\<not> w_settled (os_receipts s ! i)"
  shows "os_receipts (snd (rollback_write dd i s)) = os_receipts (settle_receipt i s) \<and>
    recovery_frame (receipt_key (os_receipts s ! i)) s (snd (rollback_write dd i s))"
proof -
  let ?w = "os_receipts s ! i"
  obtain rp s1 where a: "ask (dd_forget (dd (w_outcome ?w))) (w_accountId ?w) (w_key ?w) (settle_receipt i s) = (rp, s1)" by fastforce
  have rem: "recovery_frame (receipt_key ?w) s1 (rememberFailedRollback (w_accountId ?w) (w_key ?w) (w_outcome ?w) d s1)" for d
    by (simp add: recovery_frame_def rememberFailedRollback_def Let_def receipt_key_def alist_simps)
  show ?thesis using assms a ask_frames(4,8)[OF a] rem
    by (auto simp: rollback_write_def Let_def recovery_frame_def split: reply.splits bool.splits)
qed

lemma reachable_receipts_clean: "reachable_store dd s \<Longrightarrow> receipts_clean s"
proof (induction rule: reachable_store.induct)
  case (store_created l w s)
  then show ?case by (auto simp: createIngressOutcomeStore_def exc_simps receipts_clean_def)
next
  case (store_stepped s op s')
  have inv: "store_inv s" using store_stepped.hyps(1) by (rule reachable_store_inv)
  then have g: "gates_ok s" by (simp add: store_inv_def)
  note cl = store_stepped.IH
  show ?case
  proof (cases op)
    case (SLookup a k)
    then show ?thesis using store_stepped ops_keyed(1)[OF inv, of dd a k] keyed_change_clean[OF cl g] by auto
  next
    case (SRecord a k oc repl)
    then show ?thesis using store_stepped ops_keyed(3)[OF inv, of dd a k oc repl] keyed_change_clean[OF cl g] by auto
  next
    case (SForget a k oc)
    then show ?thesis using store_stepped ops_keyed(2)[OF inv, of dd a k oc] keyed_change_clean[OF cl g] by auto
  next
    case (SCommit i)
    show ?thesis
    proof (cases "w_settled (os_receipts s ! i)")
      case True
      then show ?thesis using SCommit store_stepped by (auto simp: commit_write_def split: if_splits)
    next
      case False
      then show ?thesis using SCommit store_stepped settled_receipts_clean[OF cl g _ False]
        by (auto simp: commit_write_def Let_def recovery_frame_def split: if_splits)
    qed
  next
    case (SRollback i)
    show ?thesis
    proof (cases "w_settled (os_receipts s ! i)")
      case True
      then show ?thesis using SRollback store_stepped by (auto simp: rollback_write_def split: if_splits)
    next
      case False
      then show ?thesis using SRollback store_stepped settled_receipts_clean[OF cl g _ False] rollback_recovery_frame[OF False, of dd]
        by (auto split: if_splits)
    qed
  qed
next
  case (store_world s w)
  then show ?case by (simp add: receipts_clean_def)
qed

lemma recover_needs_forget:
  assumes "os_poisoned s \<or> (\<exists>e. map_of (os_recovery s) (hotKey a k) = Some e \<and> he_outcome e = oc)" "ok"
    and "recoverFailedRollbackUnlocked dd a k s = (ok, s')"
  shows "\<exists>b w2. dd_forget (dd oc) a k (os_world s) = (Answer b False, w2)"
proof -
  have np: "\<not> os_poisoned s" using assms(2,3) by (auto simp: recoverFailedRollbackUnlocked_def split: if_splits)
  then obtain e where e: "map_of (os_recovery s) (hotKey a k) = Some e" "he_outcome e = oc" using assms(1) by auto
  obtain rp s1 where f: "ask (dd_forget (dd oc)) a k s = (rp, s1)" by fastforce
  have "\<exists>b. rp = Answer b False"
    using assms(2,3) e np f by (cases rp) (auto simp: recoverFailedRollbackUnlocked_def split: bool.splits)
  then show ?thesis using ask_frames(10)[OF f] by blast
qed

text \<open>Quarantine lasts: no operation lifts it but one on its own key that deletes the marker.\<close>

definition quarantined :: "'p outcome_store \<Rightarrow> string \<Rightarrow> string \<Rightarrow> ingress_outcome \<Rightarrow> bool" where
  "quarantined s a k oc \<longleftrightarrow> os_poisoned s \<or> (\<exists>e. map_of (os_recovery s) (hotKey a k) = Some e \<and> he_outcome e = oc)"

fun op_on :: "string \<Rightarrow> string \<Rightarrow> store_op \<Rightarrow> bool" where
  "op_on a k (SLookup a' k') \<longleftrightarrow> a' = a \<and> k' = k"
| "op_on a k (SRecord a' k' oc repl) \<longleftrightarrow> a' = a \<and> k' = k"
| "op_on a k (SForget a' k' oc) \<longleftrightarrow> a' = a \<and> k' = k"
| "op_on a k _ \<longleftrightarrow> False"

definition deletes :: "'p dedupes \<Rightarrow> string \<Rightarrow> string \<Rightarrow> ingress_outcome \<Rightarrow> 'p \<Rightarrow> bool" where
  "deletes dd a k oc w \<longleftrightarrow> (\<exists>b w'. dd_forget (dd oc) a k w = (Answer b False, w'))"

text \<open>What can happen while no operation on the key succeeds in deleting the marker; the dedupe
  stores may change in any way.\<close>

inductive stuck_run :: "'p dedupes \<Rightarrow> string \<Rightarrow> string \<Rightarrow> ingress_outcome \<Rightarrow> 'p outcome_store \<Rightarrow> 'p outcome_store \<Rightarrow> bool"
  for dd a k oc s where
  stuck_now: "stuck_run dd a k oc s s"
| stuck_step: "stuck_run dd a k oc s t \<Longrightarrow> store_step dd op t = Some t' \<Longrightarrow> op_on a k op \<longrightarrow> \<not> deletes dd a k oc (os_world t) \<Longrightarrow>
    stuck_run dd a k oc s t'"
| stuck_world: "stuck_run dd a k oc s t \<Longrightarrow> stuck_run dd a k oc s (t\<lparr>os_world := w\<rparr>)"

lemma recover_stuck:
  assumes "quarantined s a k oc" "\<not> deletes dd a k oc (os_world s)" "recoverFailedRollbackUnlocked dd a k s = (ok, s')"
  shows "\<not> ok \<and> os_recovery s' = os_recovery s \<and> os_poisoned s' = os_poisoned s"
proof (cases "os_poisoned s")
  case True
  then show ?thesis using assms(3) by (auto simp: recoverFailedRollbackUnlocked_def)
next
  case False
  then obtain e where e: "map_of (os_recovery s) (hotKey a k) = Some e" "he_outcome e = oc" using assms(1) by (auto simp: quarantined_def)
  obtain rp s1 where f: "ask (dd_forget (dd oc)) a k s = (rp, s1)" by fastforce
  have "rp = Threw \<or> (\<exists>b. rp = Answer b True)" using assms(2) ask_frames(10)[OF f] by (cases rp) (auto simp: deletes_def)
  then show ?thesis using assms(3) False e f ask_frames(4,6)[OF f] by (auto simp: recoverFailedRollbackUnlocked_def)
qed

text \<open>The operations on a quarantined key stop at the recovery.\<close>

lemma stuck_ops:
  assumes q: "quarantined s a k oc" and d: "\<not> deletes dd a k oc (os_world s)"
  shows "lookup dd a k s = Some (r, s') \<Longrightarrow> r = LUnknown \<and> os_recovery s' = os_recovery s \<and> os_poisoned s' = os_poisoned s"
    and "record_outcome dd a k oc2 repl s = Some (r2, s') \<Longrightarrow> r2 = RUnknown \<and> os_recovery s' = os_recovery s \<and> os_poisoned s' = os_poisoned s"
    and "forget dd a k oc2 s = Some (r3, s') \<Longrightarrow> os_recovery s' = os_recovery s \<and> os_poisoned s' = os_poisoned s"
proof -
  let ?s0 = "s\<lparr>os_gates := hotKey a k # os_gates s\<rparr>"
  obtain ok s1 where rc: "recoverFailedRollbackUnlocked dd a k ?s0 = (ok, s1)" by fastforce
  have "quarantined ?s0 a k oc" "\<not> deletes dd a k oc (os_world ?s0)" using q d by (simp_all add: quarantined_def)
  from recover_stuck[OF this rc] have s1: "\<not> ok" "os_recovery s1 = os_recovery s" "os_poisoned s1 = os_poisoned s" by simp_all
  show "lookup dd a k s = Some (r, s') \<Longrightarrow> r = LUnknown \<and> os_recovery s' = os_recovery s \<and> os_poisoned s' = os_poisoned s"
    using rc s1 by (auto simp: lookup_def acquireOperation_def split: if_splits)
  show "record_outcome dd a k oc2 repl s = Some (r2, s') \<Longrightarrow> r2 = RUnknown \<and> os_recovery s' = os_recovery s \<and> os_poisoned s' = os_poisoned s"
    using rc s1 by (auto simp: record_outcome_def acquireOperation_def split: if_splits)
  show "forget dd a k oc2 s = Some (r3, s') \<Longrightarrow> os_recovery s' = os_recovery s \<and> os_poisoned s' = os_poisoned s"
    using rc s1 by (auto simp: forget_def acquireOperation_def split: if_splits)
qed

lemma quarantined_step:
  assumes r: "reachable_store dd s" and q: "quarantined s a k oc" and st: "store_step dd op s = Some s'"
    and d: "op_on a k op \<longrightarrow> \<not> deletes dd a k oc (os_world s)"
  shows "quarantined s' a k oc"
proof (cases "os_poisoned s")
  case True
  then show ?thesis using poisoned_ops(4)[OF True st] by (simp add: quarantined_def)
next
  case False
  then obtain e where e: "map_of (os_recovery s) (hotKey a k) = Some e" "he_outcome e = oc" using q by (auto simp: quarantined_def)
  have inv: "store_inv s" and cl: "receipts_clean s" using r by (simp_all add: reachable_store_inv reachable_receipts_clean)
  have keep: ?thesis if "os_recovery s' = os_recovery s" using that e by (simp add: quarantined_def)
  have frame: ?thesis if "recovery_frame mk s s'" "mk \<noteq> hotKey a k" for mk using that e by (auto simp: quarantined_def recovery_frame_def)
  have other: ?thesis if "keyed_change (hotKey a' k') s s'" "\<not> (a' = a \<and> k' = k)" for a' k'
    using frame[of "hotKey a' k'"] that by (auto simp: keyed_change_def hotKey_inject)
  have receipt: "receipt_key (os_receipts s ! i) \<noteq> hotKey a k" if "i < length (os_receipts s)" "\<not> w_settled (os_receipts s ! i)" for i
    using cl that e(1) nth_mem[OF that(1)] by (force simp: receipts_clean_def)
  show ?thesis
  proof (cases op)
    case (SLookup a' k')
    then obtain x where l: "lookup dd a' k' s = Some (x, s')" using st by auto
    then show ?thesis using SLookup other[of a' k'] ops_keyed(1)[OF inv l] stuck_ops(1)[OF q, of dd x s'] d keep by (cases "a' = a \<and> k' = k") auto
  next
    case (SRecord a' k' oc' repl)
    then obtain x where l: "record_outcome dd a' k' oc' repl s = Some (x, s')" using st by auto
    then show ?thesis using SRecord other[of a' k'] ops_keyed(3)[OF inv l] stuck_ops(2)[OF q, of dd oc' repl x s'] d keep by (cases "a' = a \<and> k' = k") auto
  next
    case (SForget a' k' oc')
    then obtain x where l: "forget dd a' k' oc' s = Some (x, s')" using st by auto
    then show ?thesis using SForget other[of a' k'] ops_keyed(2)[OF inv l] stuck_ops(3)[OF q, of dd oc' x s'] d keep by (cases "a' = a \<and> k' = k") auto
  next
    case (SCommit i)
    then have "os_recovery s' = os_recovery s" using st by (auto simp: commit_write_def Let_def split: if_splits)
    then show ?thesis by (rule keep)
  next
    case (SRollback i)
    then have s': "i < length (os_receipts s)" "s' = snd (rollback_write dd i s)" using st by (auto split: if_splits)
    show ?thesis
    proof (cases "w_settled (os_receipts s ! i)")
      case True
      then show ?thesis using s' q by (simp add: rollback_write_def)
    next
      case unsettled: False
      then show ?thesis using rollback_recovery_frame[OF unsettled, of dd] receipt[OF s'(1) unsettled] frame s'(2) by blast
    qed
  qed
qed

lemma stuck_quarantined:
  assumes "stuck_run dd a k oc s t" "reachable_store dd s" "quarantined s a k oc"
  shows "reachable_store dd t \<and> quarantined t a k oc"
  using assms(1)
proof (induction rule: stuck_run.induct)
  case stuck_now
  then show ?case using assms(2,3) by simp
next
  case (stuck_step t op t')
  then show ?case using quarantined_step[of dd t a k oc op t'] store_stepped by blast
next
  case (stuck_world t w)
  then show ?case using store_world by (auto simp: quarantined_def)
qed

text \<open>A failed rollback quarantines its marker.\<close>

lemma failed_rollback_starts:
  assumes "reachable_store dd s" and "i < length (os_receipts s)" and "\<not> w_settled (os_receipts s ! i)"
    and "os_receipts s ! i = w" and "w_created w"
    and "dd_forget (dd (w_outcome w)) (w_accountId w) (w_key w) (os_world s) = (rp, w1)"
    and "rp = Threw \<or> (\<exists>b. rp = Answer b True)"
    and "rollback_write dd i s = (ok, s')"
  shows "\<not> ok \<and> quarantined s' (w_accountId w) (w_key w) (w_outcome w)"
proof -
  let ?a = "w_accountId w" and ?k = "w_key w" and ?oc = "w_outcome w"
  obtain s1 where a: "ask (dd_forget (dd ?oc)) ?a ?k (settle_receipt i s) = (rp, s1)"
    using assms(6) by (simp add: ask_def)
  define u where "u = rememberFailedRollback ?a ?k ?oc (w_durability w) s1"
  have "w \<in> set (os_receipts s)" using assms(2,4) by auto
  then have clean: "map_of (os_recovery s1) (hotKey ?a ?k) = None"
    using reachable_receipts_clean[OF assms(1)] assms(3,4) ask_frames(4)[OF a]
    by (auto simp: receipts_clean_def receipt_key_def)
  have q: "os_poisoned u \<or> (\<exists>e. map_of (os_recovery u) (hotKey ?a ?k) = Some e \<and> he_outcome e = ?oc)"
    using clean by (auto simp: u_def rememberFailedRollback_def Let_def alist_simps)
  have "\<not> ok" "os_poisoned s' = os_poisoned u" "os_recovery s' = os_recovery u"
    using assms(3,4,5,7,8) a by (auto simp: rollback_write_def Let_def u_def split: reply.splits bool.splits if_splits)
  then show ?thesis using q by (simp add: quarantined_def)
qed

text \<open>C8: A marker whose rollback failed is never served again until it is removed.  When the
  deletion of a freshly created marker throws or reports a disk error, the rollback reports failure,
  and over every later run in which no operation on the key deletes that marker without a
  disk error: the key is invisible to peeks, a lookup or a record of it is unknown unless that
  very call first deletes the marker, and nothing but such a call ends the quarantine.\<close>

theorem failed_rollback_quarantined:
  assumes "reachable_store dd s" and "i < length (os_receipts s)" and "\<not> w_settled (os_receipts s ! i)"
    and "os_receipts s ! i = w" and "w_created w"
    and "dd_forget (dd (w_outcome w)) (w_accountId w) (w_key w) (os_world s) = (rp, w1)"
    and "rp = Threw \<or> (\<exists>b. rp = Answer b True)"
    and "rollback_write dd i s = (ok, s')"
    and "stuck_run dd (w_accountId w) (w_key w) (w_outcome w) s' t"
  shows "\<not> ok \<and> quarantined t (w_accountId w) (w_key w) (w_outcome w) \<and> peek (w_accountId w) (w_key w) t = None \<and>
     (\<forall>r u. lookup dd (w_accountId w) (w_key w) t = Some (r, u) \<and> r \<noteq> LUnknown \<longrightarrow>
        deletes dd (w_accountId w) (w_key w) (w_outcome w) (os_world t)) \<and>
     (\<forall>oc repl r u. record_outcome dd (w_accountId w) (w_key w) oc repl t = Some (r, u) \<and> r \<noteq> RUnknown \<longrightarrow>
        deletes dd (w_accountId w) (w_key w) (w_outcome w) (os_world t))"
proof -
  let ?a = "w_accountId w" and ?k = "w_key w" and ?oc = "w_outcome w"
  have s': "\<not> ok" "quarantined s' ?a ?k ?oc" using failed_rollback_starts[OF assms(1-8)] by simp_all
  have "store_step dd (SRollback i) s = Some s'" using assms(2,8) by simp
  then have "reachable_store dd s'" using assms(1) store_stepped by blast
  then have q: "quarantined t ?a ?k ?oc" using stuck_quarantined[OF assms(9)] s'(2) by blast
  have pk: "peek ?a ?k t = None" using q by (auto simp: peek_def quarantined_def)
  show ?thesis using s'(1) q pk stuck_ops(1,2)[OF q] by fastforce
qed

text \<open>The witness: the disk still fails at a second lookup, which stays unknown, and the key
  stays quarantined after it.\<close>

theorem failed_rollback_quarantined_witness:
  "\<exists>s (w :: write_receipt) ok s' t. reachable_store demo_dedupe s \<and> w_created w \<and> rollback_write demo_dedupe 0 s = (ok, s') \<and> \<not> ok \<and>
     lookup demo_dedupe (w_accountId w) (w_key w) s' = Some (LUnknown, t) \<and>
     demo_marked (w_outcome w) (w_accountId w) (w_key w) (os_world t) \<and> peek (w_accountId w) (w_key w) t = None \<and>
     (\<forall>r u. lookup demo_dedupe (w_accountId w) (w_key w) t = Some (r, u) \<longrightarrow> r = LUnknown)"
proof -
  let ?Q = "\<lambda>s. 0 < length (os_receipts s) \<and> \<not> w_settled (os_receipts s ! 0) \<and> w_created (os_receipts s ! 0) \<and>
       (case rollback_write demo_dedupe 0 s of (ok, s') \<Rightarrow>
          case lookup demo_dedupe (w_accountId (os_receipts s ! 0)) (w_key (os_receipts s ! 0)) s' of
            Some (r, t) \<Rightarrow> r = LUnknown \<and> fst (os_world s) \<and> fst (os_world s') \<and> fst (os_world t) \<and>
               demo_marked (w_outcome (os_receipts s ! 0)) (w_accountId (os_receipts s ! 0)) (w_key (os_receipts s ! 0)) (os_world t)
          | None \<Rightarrow> False)"
  have "demo_runs (True, []) [SRecord ''a'' ''1'' OAccepted False] ?Q" by code_simp
  then obtain s where sQ: "reachable_store demo_dedupe s \<and> ?Q s" by (rule demo_runsD[THEN exE])
  note s0 = sQ[THEN conjunct1] sQ[THEN conjunct2, THEN conjunct1] sQ[THEN conjunct2, THEN conjunct2, THEN conjunct1]
    sQ[THEN conjunct2, THEN conjunct2, THEN conjunct2, THEN conjunct1]
  note run0 = sQ[THEN conjunct2, THEN conjunct2, THEN conjunct2, THEN conjunct2]
  define w where "w = os_receipts s ! 0"
  note s = s0(1-3) w_def[symmetric] s0(4)[folded w_def]
  note run = run0[folded w_def]
  obtain ok s' where rb: "rollback_write demo_dedupe 0 s = (ok, s')" by fastforce
  obtain t where l: "lookup demo_dedupe (w_accountId w) (w_key w) s' = Some (LUnknown, t)"
    and d: "fst (os_world s)" "fst (os_world s')" "fst (os_world t)" "demo_marked (w_outcome w) (w_accountId w) (w_key w) (os_world t)"
    using run rb by (auto split: option.splits)
  have f: "dd_forget (demo_dedupe oc) a k v = (Answer False True, v)" if "fst v" for oc a k v
    using that by (simp add: demo_dedupe_def)
  have nd: "\<not> deletes demo_dedupe a k oc v" if "fst v" for oc a k v using f[OF that] by (simp add: deletes_def)
  have st: "store_step demo_dedupe (SLookup (w_accountId w) (w_key w)) s' = Some t" using l by simp
  have run: "stuck_run demo_dedupe (w_accountId w) (w_key w) (w_outcome w) s' t"
    by (rule stuck_step[OF stuck_now st]) (simp add: nd d(2))
  note c = failed_rollback_quarantined[OF s(1-5) f[OF d(1)] _ rb run]
  have "\<not> ok" "peek (w_accountId w) (w_key w) t = None"
    "\<forall>r u. lookup demo_dedupe (w_accountId w) (w_key w) t = Some (r, u) \<longrightarrow> r = LUnknown"
    using c nd[OF d(3)] by blast+
  then show ?thesis using s(1,5) rb l d(4) by blast
qed

lemma rollback_world:
  assumes "\<not> w_settled (os_receipts s ! i)" "os_receipts s ! i = w"
  shows "os_world (snd (rollback_write dd i s)) =
    (if w_created w then snd (dd_forget (dd (w_outcome w)) (w_accountId w) (w_key w) (os_world s)) else os_world s)"
proof -
  obtain rp s1 where a: "ask (dd_forget (dd (w_outcome w))) (w_accountId w) (w_key w) (settle_receipt i s) = (rp, s1)" by fastforce
  show ?thesis using assms a ask_frames(10)[OF a]
    by (auto simp: rollback_write_def Let_def split: reply.splits bool.splits)
qed

text \<open>Rolling a durable write back undoes that write and no other.  A receipt that found the
  marker already present has no authority to delete it: its rollback reports false and
  leaves the dedupe stores, the hot cache and the quarantine untouched.  A receipt that
  created its marker asks the stores for one thing, to forget exactly that marker, and when its
  rollback reports true the key is unmarked as it was before the record, and no marker is there that
  was not there before, given the documented behaviour of the dedupe stores.\<close>

theorem rollback_undoes_record:
  assumes "dedupe_laws dd marked"
    and "record_outcome dd a k oc False s = Some (RRecorded Durable i, s1)"
    and "map_of (os_recovery s) (hotKey a k) = None"
    and "rollback_write dd i s1 = (ok, s2)"
  shows "(\<not> w_created (os_receipts s1 ! i) \<longrightarrow> \<not> ok \<and> os_world s2 = os_world s1 \<and> os_hot s2 = os_hot s1 \<and> os_recovery s2 = os_recovery s1) \<and>
     (w_created (os_receipts s1 ! i) \<longrightarrow> os_world s2 = snd (dd_forget (dd oc) a k (os_world s1))) \<and>
     (ok \<longrightarrow> \<not> marked oc a k (os_world s2) \<and> \<not> marked oc a k (os_world s) \<and> no_new_marker marked (os_world s) (os_world s2))"
proof -
  obtain s0 t where s0: "acquireOperation a k s = Some s0" and rc: "recoverFailedRollbackUnlocked dd a k s0 = (True, t)"
    and mk: "record_marker dd a k oc t = (RRecorded Durable i, s1)"
    using record_recorded[OF assms(2)] by auto
  have t: "os_world t = os_world s"
    using rc s0 assms(3) by (auto simp: recoverFailedRollbackUnlocked_def acquireOperation_def split: if_splits)
  obtain fresh x where c: "ask (dd_checkAndRecord (dd oc)) a k t = (Answer fresh False, x)" "os_world s1 = os_world x"
    and rs: "os_receipts s1 ! i = \<lparr>w_accountId = a, w_key = k, w_outcome = oc, w_created = fresh, w_durability = Durable, w_settled = False\<rparr>"
    using record_marker_recorded[OF mk] by auto
  have cr: "dd_checkAndRecord (dd oc) a k (os_world s) = (Answer fresh False, os_world s1)"
    using ask_frames(10)[OF c(1)] c(2) t by simp
  obtain rp y where f: "ask (dd_forget (dd oc)) a k (settle_receipt i s1) = (rp, y)" by fastforce
  have fw: "dd_forget (dd oc) a k (os_world s1) = (rp, os_world y)" using ask_frames(10)[OF f] by simp
  show ?thesis
  proof (cases fresh)
    case False
    then show ?thesis using assms(4) rs by (auto simp: rollback_write_def Let_def settle_receipt_def releaseOperation_def)
  next
    case True
    have w2: "os_world s2 = os_world y" using rollback_world[of s1 i _ dd] assms(4) rs True fw by simp
    have "\<not> marked oc a k (os_world s2) \<and> \<not> marked oc a k (os_world s) \<and> no_new_marker marked (os_world s) (os_world s2)" if ok
    proof -
      have "rp = Answer True False"
        using assms(4) rs True f \<open>ok\<close> by (cases rp) (auto simp: rollback_write_def Let_def split: bool.splits if_splits)
      then have fw2: "dd_forget (dd oc) a k (os_world s1) = (Answer True False, os_world s2)" using fw w2 by simp
      note gone = dedupe_lawsD(1)[OF assms(1) fw2] dedupe_lawsD(2)[OF assms(1) fw2, THEN conjunct1]
      have "no_other_marker marked oc a k (os_world s) (os_world s1)" by (rule dedupe_lawsD(3)[OF assms(1) cr])
      moreover have nm: "\<not> marked oc a k (os_world s)" using dedupe_lawsD(4)[OF assms(1) cr] True by blast
      ultimately have "no_new_marker marked (os_world s) (os_world s2)" using undone_marker[OF _ gone] by simp
      then show ?thesis using nm gone(2) by simp
    qed
    then show ?thesis using rs True w2 fw by simp
  qed
qed

theorem rollback_undoes_record_witness:
  "\<exists>s s1 s2. dedupe_laws demo_dedupe demo_marked \<and>
     record_outcome demo_dedupe ''a'' ''1'' OAccepted False s = Some (RRecorded Durable 0, s1) \<and>
     rollback_write demo_dedupe 0 s1 = (True, s2) \<and> demo_marked OAccepted ''a'' ''1'' (os_world s1) \<and>
     \<not> demo_marked OAccepted ''a'' ''1'' (os_world s2)"
proof -
  let ?s = "demo_store (False, [])"
  have "case record_outcome demo_dedupe ''a'' ''1'' OAccepted False ?s of
      Some (r, s1) \<Rightarrow> r = RRecorded Durable 0 \<and> fst (rollback_write demo_dedupe 0 s1) \<and> demo_marked OAccepted ''a'' ''1'' (os_world s1)
    | None \<Rightarrow> False"
    by code_simp
  then obtain s1 s2 where r: "record_outcome demo_dedupe ''a'' ''1'' OAccepted False ?s = Some (RRecorded Durable 0, s1)"
      "rollback_write demo_dedupe 0 s1 = (True, s2)" "demo_marked OAccepted ''a'' ''1'' (os_world s1)"
    by (cases "record_outcome demo_dedupe ''a'' ''1'' OAccepted False ?s") (auto simp: prod_eq_iff)
  have "map_of (os_recovery ?s) (hotKey ''a'' ''1'') = None" by code_simp
  then have "\<not> demo_marked OAccepted ''a'' ''1'' (os_world s2)"
    using rollback_undoes_record[OF demo_laws r(1) _ r(2)] by blast
  then show ?thesis using demo_laws r by blast
qed

lemma record_marker_world:
  assumes "dedupe_laws dd marked" "record_marker dd a k oc t = (r, s')"
  shows "no_other_marker marked oc a k (os_world t) (os_world s')"
proof -
  obtain rp s1 where c: "ask (dd_checkAndRecord (dd oc)) a k t = (rp, s1)" by fastforce
  obtain rp2 s2 where f: "ask (dd_forget (dd oc)) a k (warnFailure a (RecordFailed oc) s1) = (rp2, s2)" by fastforce
  have 1: "no_other_marker marked oc a k (os_world t) (os_world s1)" using dedupe_lawsD(3)[OF assms(1) ask_frames(10)[OF c]] .
  have 2: "no_new_marker marked (os_world s1) (os_world s2)" using dedupe_lawsD(1)[OF assms(1) ask_frames(10)[OF f]] by simp
  then have 3: "no_other_marker marked oc a k (os_world t) (os_world s2)" using 1 unfolding no_other_marker_def no_new_marker_def by blast
  have "os_world s' = os_world s1 \<or> os_world s' = os_world s2"
    using assms(2) c f by (auto simp: record_marker_def Let_def split: reply.splits if_splits)
  then show ?thesis using 1 3 by metis
qed

lemma recover_world:
  assumes "dedupe_laws dd marked" "recoverFailedRollbackUnlocked dd a k s = (ok, s')"
  shows "no_new_marker marked (os_world s) (os_world s')"
proof (cases "os_poisoned s \<or> map_of (os_recovery s) (hotKey a k) = None")
  case True
  then show ?thesis using assms(2) by (auto simp: recoverFailedRollbackUnlocked_def split: if_splits)
next
  case False
  then obtain e where e: "map_of (os_recovery s) (hotKey a k) = Some e" "\<not> os_poisoned s" by auto
  obtain rp s1 where f: "ask (dd_forget (dd (he_outcome e))) a k s = (rp, s1)" by fastforce
  have "os_world s' = os_world s1" using assms(2) e f by (auto simp: recoverFailedRollbackUnlocked_def split: reply.splits bool.splits)
  then show ?thesis using dedupe_lawsD(1)[OF assms(1) ask_frames(10)[OF f]] by simp
qed

text \<open>Replacing the opposite outcome never leaves two terminal outcomes behind.  When a
  record that replaces the opposite outcome reports a write, the dedupe stores hold no marker of the
  opposite outcome for that key, and hold its own if the write is durable.  However the replacement ends,
  both markers are there afterwards only if both were there before.\<close>

theorem replace_leaves_one_marker:
  assumes "dedupe_laws dd marked"
    and "record_outcome dd a k oc True s = Some (r, s')"
  shows "(\<forall>dur i. r = RRecorded dur i \<longrightarrow> \<not> marked (opposite oc) a k (os_world s')) \<and>
     (\<forall>i. r = RRecorded Durable i \<longrightarrow> marked oc a k (os_world s')) \<and>
     (marked oc a k (os_world s') \<and> marked (opposite oc) a k (os_world s') \<longrightarrow>
        marked oc a k (os_world s) \<and> marked (opposite oc) a k (os_world s))"
proof -
  have neq: "(opposite oc, a, k) \<noteq> (oc, a, k)" by (cases oc) simp_all
  obtain s0 where s0: "acquireOperation a k s = Some s0" "os_world s0 = os_world s"
    using assms(2) by (auto simp: record_outcome_def acquireOperation_def split: if_splits)
  obtain ok s1 where rc: "recoverFailedRollbackUnlocked dd a k s0 = (ok, s1)" by fastforce
  have w1: "no_new_marker marked (os_world s) (os_world s1)" using recover_world[OF assms(1) rc] s0 by simp
  obtain rp s2 where f: "ask (dd_forget (dd (opposite oc))) a k s1 = (rp, s2)" by fastforce
  have w2: "no_new_marker marked (os_world s1) (os_world s2)" using dedupe_lawsD(1)[OF assms(1) ask_frames(10)[OF f]] .
  show ?thesis
  proof (cases "ok \<and> (\<exists>x. rp = Answer x False)")
    case False
    then have "r = RUnknown" "os_world s' = os_world s1 \<or> os_world s' = os_world s2"
      using assms(2) s0 rc f by (auto simp: record_outcome_def split: reply.splits bool.splits)
    moreover have "no_new_marker marked (os_world s) (os_world s')" using calculation(2) w1 no_new_trans[OF w1 w2] by metis
    ultimately show ?thesis by (simp add: no_new_marker_def)
  next
    case True
    then obtain x where x: "rp = Answer x False" ok by blast
    have mk: "record_marker dd a k oc (deleteHot a k None s2) = (r, s')" using assms(2) s0 rc f x by (simp add: record_outcome_def)
    have "\<not> marked (opposite oc) a k (os_world s2)" using dedupe_lawsD(2)[OF assms(1)] ask_frames(10)[OF f] x(1) by auto
    then have gone: "\<not> marked (opposite oc) a k (os_world s')"
      using record_marker_world[OF assms(1) mk] neq unfolding no_other_marker_def by auto
    have "marked oc a k (os_world s')" if r: "r = RRecorded Durable i" for i
    proof -
      obtain fresh y where c: "ask (dd_checkAndRecord (dd oc)) a k (deleteHot a k None s2) = (Answer fresh False, y)" "os_world s' = os_world y"
        using record_marker_recorded[OF mk[unfolded r]] by auto
      then show ?thesis using dedupe_lawsD(4)[OF assms(1) ask_frames(10)[OF c(1)]] by simp
    qed
    then show ?thesis using gone by simp
  qed
qed

theorem replace_leaves_one_marker_witness:
  "\<exists>s s'. reachable_store demo_dedupe s \<and> demo_marked OOverloaded ''a'' ''1'' (os_world s) \<and>
     record_outcome demo_dedupe ''a'' ''1'' OAccepted True s = Some (RRecorded Durable 0, s') \<and>
     demo_marked OAccepted ''a'' ''1'' (os_world s') \<and> \<not> demo_marked OOverloaded ''a'' ''1'' (os_world s')"
proof -
  let ?s = "demo_store (False, [(OOverloaded, ''a'', ''1'')])"
  have "case record_outcome demo_dedupe ''a'' ''1'' OAccepted True ?s of
      Some (r, s') \<Rightarrow> r = RRecorded Durable 0 | None \<Rightarrow> False" and m: "demo_marked OOverloaded ''a'' ''1'' (os_world ?s)"
    by code_simp+
  then obtain s' where r: "record_outcome demo_dedupe ''a'' ''1'' OAccepted True ?s = Some (RRecorded Durable 0, s')"
    by (auto split: option.splits)
  show ?thesis using replace_leaves_one_marker[OF demo_laws r] r m demo_store_reachable by auto
qed

end
