(* ===== verification/Overflow_Resolver.thy ===== *)
theory Overflow_Resolver
  imports Retention Outcome_Store
begin

text \<open>
  The bounded resolver for ids whose raw frame could not be retained
  (\<^verbatim>\<open>packages/plugin/src/inbound-overflow-resolver.ts\<close>).  Tasks are objects the maps
  share, so they live in a store and the maps hold their indices.  The asynchronous
  \<^verbatim>\<open>resolve\<close> is a coroutine: each task remembers which call it awaits, and resuming it
  with that call's result returns the calls it issues next.
\<close>

section \<open>Data\<close>

definition MAX_OVERFLOW_RESOLVERS_PER_PROCESS :: int where "MAX_OVERFLOW_RESOLVERS_PER_PROCESS = 64"
definition MAX_OVERFLOW_RESOLVER_METADATA_BYTES :: int where "MAX_OVERFLOW_RESOLVER_METADATA_BYTES = 1048576"
definition OVERFLOW_RESOLVER_METADATA_OVERHEAD :: int where "OVERFLOW_RESOLVER_METADATA_OVERHEAD = 192"

text \<open>A request off the wire: \<open>None\<close> is a field that is not a string, and the optional
  mode bit may be absent, a boolean or anything else.\<close>

datatype raw_bool = BoolAbsent | BoolValue bool | BoolBad

record raw_request =
  rr_accountId :: "string option"
  rr_peerId :: "string option"
  rr_key :: "string option"
  rr_id :: "string option"
  rr_sessionToken :: session_token
  rr_recoverCancelled :: raw_bool

record overflow_request =
  rq_accountId :: string
  rq_peerId :: string
  rq_key :: string
  rq_id :: string
  rq_sessionToken :: session_token
  rq_recoverCancelled :: bool

datatype resolver_start = Started | BusySession | BusyKey | ProcessCount | ProcessBytes | InvalidRequest | ResolverDisposed

text \<open>The call a task is waiting for.\<close>

datatype await = AwaitRecover | AwaitRecoverAck | AwaitLookup | AwaitRecord | AwaitSend | AwaitRollback | Settled

record active_task =
  at_request :: overflow_request
  at_bytes :: int
  at_cancelled :: bool
  at_released :: bool
  at_await :: await

datatype resolver_call =
    CallRecord string string ingress_outcome bool
  | CallLookup string string
  | CommitWrite nat
  | RollbackWrite nat
  | SendAck overflow_request
  | SendRejected overflow_request
  | CancelledRecovered overflow_request

datatype resolver_event = GotRecord record_result | GotLookup outcome_lookup | GotSend bool | GotRollback bool | CallThrew

record resolver =
  or_maxTasks :: int
  or_maxMetadataBytes :: int
  or_tasks :: "active_task list"
  or_bySession :: "(session_token, nat) js_map"
  or_claims :: "(string, (string, nat) js_map) js_map"
  or_bytes :: int
  or_disposed :: bool

datatype resolver_error = MaxTasksInvalid | MaxMetadataBytesInvalid | MetadataUnderflow

section \<open>Operations\<close>

definition newBoundedOverflowResolver :: "js_number \<Rightarrow> js_number \<Rightarrow> resolver_error + resolver" where
  "newBoundedOverflowResolver maxTasks maxMetadataBytes =
     (case safe_nonneg maxTasks of
        None \<Rightarrow> Inl MaxTasksInvalid
      | Some t \<Rightarrow>
          (case safe_nonneg maxMetadataBytes of
             None \<Rightarrow> Inl MaxMetadataBytesInvalid
           | Some b \<Rightarrow> Inr \<lparr>or_maxTasks = t, or_maxMetadataBytes = b, or_tasks = [], or_bySession = [],
                            or_claims = [], or_bytes = 0, or_disposed = False\<rparr>))"

definition overflowResolverMetadataBytes :: "overflow_request \<Rightarrow> int" where
  "overflowResolverMetadataBytes r =
     utf8_length (rq_accountId r) + utf8_length (rq_peerId r) + utf8_length (rq_key r) + utf8_length (rq_id r)
     + 1 + OVERFLOW_RESOLVER_METADATA_OVERHEAD"

definition claim :: "resolver \<Rightarrow> string \<Rightarrow> string \<Rightarrow> nat option" where
  "claim s accountId key = Option.bind (map_of (or_claims s) accountId) (\<lambda>m. map_of m key)"

definition hasActiveClaim :: "string \<Rightarrow> string \<Rightarrow> resolver \<Rightarrow> bool" where
  "hasActiveClaim accountId key s \<longleftrightarrow> claim s accountId key \<noteq> None"

text \<open>The type checks of \<^verbatim>\<open>tryStart\<close> and the bounded copy it retains.\<close>

definition checked_request :: "raw_request \<Rightarrow> overflow_request option" where
  "checked_request r =
     (case (rr_accountId r, rr_peerId r, rr_key r, rr_id r, rr_recoverCancelled r) of
        (Some a, Some p, Some k, Some i, rec) \<Rightarrow>
          if length i = 0 \<or> length i > 128 \<or> rec = BoolBad then None
          else Some \<lparr>rq_accountId = a, rq_peerId = p, rq_key = k, rq_id = i,
                     rq_sessionToken = rr_sessionToken r, rq_recoverCancelled = (rec = BoolValue True)\<rparr>
      | _ \<Rightarrow> None)"

text \<open>The synchronous start of \<^verbatim>\<open>resolve\<close>: the first call and what is then awaited.\<close>

definition resolve_start :: "overflow_request \<Rightarrow> resolver_call \<times> await" where
  "resolve_start r =
     (if rq_recoverCancelled r then (CallRecord (rq_accountId r) (rq_key r) OAccepted True, AwaitRecover)
      else (CallLookup (rq_accountId r) (rq_key r), AwaitLookup))"

definition tryStart :: "raw_request \<Rightarrow> resolver \<Rightarrow> (resolver_start \<times> resolver_call list) \<times> resolver" where
  "tryStart raw s =
     (if or_disposed s then ((ResolverDisposed, []), s)
      else case checked_request raw of
        None \<Rightarrow> ((InvalidRequest, []), s)
      | Some r \<Rightarrow>
          if map_of (or_bySession s) (rq_sessionToken r) \<noteq> None then ((BusySession, []), s)
          else if hasActiveClaim (rq_accountId r) (rq_key r) s then ((BusyKey, []), s)
          else if int (length (or_bySession s)) \<ge> or_maxTasks s then ((ProcessCount, []), s)
          else
            let b = overflowResolverMetadataBytes r in
            if b > or_maxMetadataBytes s - or_bytes s then ((ProcessBytes, []), s)
            else
              let tid = length (or_tasks s);
                  m = (case map_of (or_claims s) (rq_accountId r) of Some m \<Rightarrow> m | None \<Rightarrow> []);
                  (call, aw) = resolve_start r
              in ((Started, [call]),
                  s\<lparr>or_tasks := or_tasks s @ [\<lparr>at_request = r, at_bytes = b, at_cancelled = False,
                       at_released = False, at_await = aw\<rparr>],
                    or_bySession := AList.update (rq_sessionToken r) tid (or_bySession s),
                    or_claims := AList.update (rq_accountId r) (AList.update (rq_key r) tid m) (or_claims s),
                    or_bytes := or_bytes s + b\<rparr>))"

definition cancel_task :: "nat \<Rightarrow> resolver \<Rightarrow> resolver" where
  "cancel_task tid s = s\<lparr>or_tasks := (or_tasks s)[tid := (or_tasks s ! tid)\<lparr>at_cancelled := True\<rparr>]\<rparr>"

definition invalidateSession :: "session_token \<Rightarrow> resolver \<Rightarrow> bool \<times> resolver" where
  "invalidateSession tok s =
     (case map_of (or_bySession s) tok of
        None \<Rightarrow> (False, s)
      | Some tid \<Rightarrow> if at_cancelled (or_tasks s ! tid) then (False, s) else (True, cancel_task tid s))"

fun invalidate_loop :: "string \<Rightarrow> nat list \<Rightarrow> nat \<times> resolver \<Rightarrow> nat \<times> resolver" where
  "invalidate_loop accountId [] st = st"
| "invalidate_loop accountId (tid # tids) (n, s) =
     (let t = or_tasks s ! tid in
      if rq_accountId (at_request t) \<noteq> accountId then invalidate_loop accountId tids (n, s)
      else if at_cancelled t then invalidate_loop accountId tids (n, s)
      else invalidate_loop accountId tids (Suc n, cancel_task tid s))"

definition invalidateAccount :: "string \<Rightarrow> resolver \<Rightarrow> nat \<times> resolver" where
  "invalidateAccount accountId s = invalidate_loop accountId (map snd (or_bySession s)) (0, s)"

definition dispose_resolver :: "resolver \<Rightarrow> nat \<times> resolver" where
  "dispose_resolver s =
     (if or_disposed s then (0, s)
      else (length (or_bySession s), fold cancel_task (map snd (or_bySession s)) (s\<lparr>or_disposed := True\<rparr>)))"

definition resolver_usage :: "resolver \<Rightarrow> nat \<times> int" where
  "resolver_usage s = (length (or_bySession s), or_bytes s)"

definition release_task :: "nat \<Rightarrow> resolver \<Rightarrow> resolver_error + resolver" where
  "release_task tid s =
     (let t = or_tasks s ! tid; r = at_request t in
      if at_released t then Inr s
      else
        let s1 = s\<lparr>or_tasks := (or_tasks s)[tid := t\<lparr>at_released := True, at_await := Settled\<rparr>],
                   or_bySession := (if map_of (or_bySession s) (rq_sessionToken r) = Some tid
                                    then AList.delete (rq_sessionToken r) (or_bySession s) else or_bySession s)\<rparr>;
            s2 = (case map_of (or_claims s1) (rq_accountId r) of
                    None \<Rightarrow> s1
                  | Some m \<Rightarrow>
                      let m' = (if map_of m (rq_key r) = Some tid then AList.delete (rq_key r) m else m)
                      in s1\<lparr>or_claims := (if m' = [] then AList.delete (rq_accountId r) (or_claims s1)
                                         else AList.update (rq_accountId r) m' (or_claims s1))\<rparr>);
            s3 = s2\<lparr>or_bytes := or_bytes s2 - at_bytes t\<rparr>
        in if or_bytes s3 < 0 then Inl MetadataUnderflow else Inr s3)"

definition set_await :: "nat \<Rightarrow> await \<Rightarrow> resolver \<Rightarrow> resolver" where
  "set_await tid aw s = s\<lparr>or_tasks := (or_tasks s)[tid := (or_tasks s ! tid)\<lparr>at_await := aw\<rparr>]\<rparr>"

text \<open>What \<^verbatim>\<open>resolve\<close> does when the awaited call returns: the calls it makes and, unless it is
  finished (\<open>None\<close>), what it awaits next.\<close>

definition resolve_next ::
  "overflow_request \<Rightarrow> bool \<Rightarrow> await \<Rightarrow> resolver_event \<Rightarrow> resolver_call list \<times> await option" where
  "resolve_next r stopped aw ev =
     (case (aw, ev) of
        (AwaitRecover, GotRecord res) \<Rightarrow>
          (case res of
             RUnknown \<Rightarrow> ([], None)
           | RRecorded dur i \<Rightarrow>
               if stopped then ([RollbackWrite i], Some AwaitRollback)
               else ([CommitWrite i, SendAck r], Some AwaitRecoverAck))
      | (AwaitRecoverAck, GotSend acked) \<Rightarrow> (if \<not> stopped \<and> acked then [CancelledRecovered r] else [], None)
      | (AwaitLookup, GotLookup known) \<Rightarrow>
          if stopped then ([], None)
          else (case known of
                  LFound OAccepted \<Rightarrow> ([SendAck r], Some AwaitSend)
                | LFound OOverloaded \<Rightarrow> ([SendRejected r], Some AwaitSend)
                | LUnknown \<Rightarrow> ([], None)
                | LNotFound \<Rightarrow> ([CallRecord (rq_accountId r) (rq_key r) OOverloaded False], Some AwaitRecord))
      | (AwaitRecord, GotRecord res) \<Rightarrow>
          (case res of
             RUnknown \<Rightarrow> ([], None)
           | RRecorded dur i \<Rightarrow>
               if stopped \<or> dur \<noteq> Durable then ([RollbackWrite i], Some AwaitRollback)
               else ([CommitWrite i, SendRejected r], Some AwaitSend))
      | _ \<Rightarrow> ([], None))"

fun expected :: "await \<Rightarrow> resolver_event \<Rightarrow> bool" where
  "expected Settled ev \<longleftrightarrow> False"
| "expected aw CallThrew \<longleftrightarrow> True"
| "expected AwaitRecover (GotRecord _) \<longleftrightarrow> True"
| "expected AwaitRecoverAck (GotSend _) \<longleftrightarrow> True"
| "expected AwaitLookup (GotLookup _) \<longleftrightarrow> True"
| "expected AwaitRecord (GotRecord _) \<longleftrightarrow> True"
| "expected AwaitSend (GotSend _) \<longleftrightarrow> True"
| "expected AwaitRollback (GotRollback _) \<longleftrightarrow> True"
| "expected _ _ \<longleftrightarrow> False"

definition resolve :: "nat \<Rightarrow> resolver_event \<Rightarrow> resolver \<Rightarrow> resolver_error + resolver_call list \<times> resolver" where
  "resolve tid ev s =
     (let t = or_tasks s ! tid;
          (calls, nxt) = resolve_next (at_request t) (at_cancelled t \<or> or_disposed s) (at_await t) ev
      in case nxt of
           Some aw \<Rightarrow> Inr (calls, set_await tid aw s)
         | None \<Rightarrow> bindE (release_task tid s) (\<lambda>s'. Inr (calls, s')))"

section \<open>Invariant\<close>

definition task_live :: "resolver \<Rightarrow> nat \<Rightarrow> bool" where
  "task_live s tid \<longleftrightarrow> tid < length (or_tasks s) \<and> \<not> at_released (or_tasks s ! tid)"

abbreviation req :: "resolver \<Rightarrow> nat \<Rightarrow> overflow_request" where
  "req s tid \<equiv> at_request (or_tasks s ! tid)"

definition live_bytes :: "active_task \<Rightarrow> int" where
  "live_bytes t = (if at_released t then 0 else at_bytes t)"

fun await_ok :: "bool \<Rightarrow> await \<Rightarrow> bool" where
  "await_ok rec AwaitRecover = rec"
| "await_ok rec AwaitRecoverAck = rec"
| "await_ok rec AwaitLookup = (\<not> rec)"
| "await_ok rec AwaitRecord = (\<not> rec)"
| "await_ok rec AwaitSend = (\<not> rec)"
| "await_ok rec _ = True"

definition task_ok :: "active_task \<Rightarrow> bool" where
  "task_ok t \<longleftrightarrow>
     at_bytes t = overflowResolverMetadataBytes (at_request t) \<and> (at_released t \<longleftrightarrow> at_await t = Settled) \<and>
     await_ok (rq_recoverCancelled (at_request t)) (at_await t)"

definition index_ok :: "resolver \<Rightarrow> bool" where
  "index_ok s \<longleftrightarrow>
     distinct (js_keys (or_bySession s)) \<and>
     (\<forall>tok tid. map_of (or_bySession s) tok = Some tid \<longrightarrow> task_live s tid \<and> rq_sessionToken (req s tid) = tok) \<and>
     (\<forall>tid. task_live s tid \<longrightarrow> map_of (or_bySession s) (rq_sessionToken (req s tid)) = Some tid \<and>
        claim s (rq_accountId (req s tid)) (rq_key (req s tid)) = Some tid) \<and>
     (\<forall>a k tid. claim s a k = Some tid \<longrightarrow> task_live s tid \<and> rq_accountId (req s tid) = a \<and> rq_key (req s tid) = k) \<and>
     (\<forall>a m. map_of (or_claims s) a = Some m \<longrightarrow> m \<noteq> [])"

definition resolver_inv :: "resolver \<Rightarrow> bool" where
  "resolver_inv s \<longleftrightarrow>
     index_ok s \<and> (\<forall>t \<in> set (or_tasks s). task_ok t) \<and>
     or_bytes s = sum_list (map live_bytes (or_tasks s)) \<and>
     int (length (or_bySession s)) \<le> or_maxTasks s \<and> or_bytes s \<le> or_maxMetadataBytes s"

lemma metadata_nonneg: "0 \<le> overflowResolverMetadataBytes r"
  by (simp add: overflowResolverMetadataBytes_def OVERFLOW_RESOLVER_METADATA_OVERHEAD_def add_nonneg_nonneg)

lemma live_bytes_nonneg: "task_ok t \<Longrightarrow> 0 \<le> live_bytes t"
  by (simp add: live_bytes_def task_ok_def metadata_nonneg)

text \<open>Changes of a task that keep its request and its liveness do not disturb the indices.\<close>

lemma index_ok_task_update:
  assumes "index_ok s" "at_request t = req s tid" "at_released t = at_released (or_tasks s ! tid)"
  shows "index_ok (s\<lparr>or_tasks := (or_tasks s)[tid := t]\<rparr>)"
proof -
  have "task_live (s\<lparr>or_tasks := (or_tasks s)[tid := t]\<rparr>) x = task_live s x" for x
    using assms(3) by (cases "x = tid") (auto simp: task_live_def nth_list_update)
  moreover have "x < length (or_tasks s) \<Longrightarrow> req (s\<lparr>or_tasks := (or_tasks s)[tid := t]\<rparr>) x = req s x" for x
    using assms(2) by (cases "x = tid") (auto simp: nth_list_update)
  ultimately show ?thesis using assms(1) by (fastforce simp: index_ok_def claim_def task_live_def)
qed

lemma task_update_inv:
  assumes inv: "resolver_inv s" and tid: "tid < length (or_tasks s)" and ok: "task_ok t"
    and eq: "at_request t = req s tid" "at_released t = at_released (or_tasks s ! tid)"
  shows "resolver_inv (s\<lparr>or_tasks := (or_tasks s)[tid := t]\<rparr>)"
proof -
  have "task_ok (or_tasks s ! tid)" using inv tid by (simp add: resolver_inv_def)
  then have "live_bytes t = live_bytes (or_tasks s ! tid)" using ok eq by (simp add: live_bytes_def task_ok_def)
  then have "sum_list (map live_bytes ((or_tasks s)[tid := t])) = sum_list (map live_bytes (or_tasks s))"
    using tid by (simp add: sum_map_list_update)
  moreover have "\<forall>x \<in> set ((or_tasks s)[tid := t]). task_ok x"
    by (rule ball_set_update[OF tid]) (use inv ok in \<open>auto simp: resolver_inv_def\<close>)
  moreover have "index_ok (s\<lparr>or_tasks := (or_tasks s)[tid := t]\<rparr>)"
    using index_ok_task_update[of s t tid] inv eq by (simp add: resolver_inv_def)
  ultimately show ?thesis using inv by (simp add: resolver_inv_def)
qed

lemma cancel_task_inv: "resolver_inv s \<Longrightarrow> tid < length (or_tasks s) \<Longrightarrow> resolver_inv (cancel_task tid s)"
  unfolding cancel_task_def by (rule task_update_inv) (auto simp: resolver_inv_def task_ok_def)

lemma cancel_task_frames [simp]:
  "or_bySession (cancel_task tid s) = or_bySession s" "length (or_tasks (cancel_task tid s)) = length (or_tasks s)"
  "or_bytes (cancel_task tid s) = or_bytes s" "or_claims (cancel_task tid s) = or_claims s"
  "or_disposed (cancel_task tid s) = or_disposed s" "or_maxTasks (cancel_task tid s) = or_maxTasks s"
  "or_maxMetadataBytes (cancel_task tid s) = or_maxMetadataBytes s"
  by (simp_all add: cancel_task_def)

lemma session_tids_valid:
  assumes "resolver_inv s" "(tok, tid) \<in> set (or_bySession s)"
  shows "tid < length (or_tasks s)"
proof -
  have "map_of (or_bySession s) tok = Some tid" using assms by (simp add: resolver_inv_def index_ok_def)
  then show ?thesis using assms(1) by (auto simp: resolver_inv_def index_ok_def task_live_def)
qed

lemma invalidate_loop_inv:
  "resolver_inv s \<Longrightarrow> \<forall>x \<in> set tids. x < length (or_tasks s) \<Longrightarrow> resolver_inv (snd (invalidate_loop a tids (n, s)))"
  by (induction a tids "(n, s)" arbitrary: n s rule: invalidate_loop.induct) (simp_all add: Let_def cancel_task_inv)

lemma cancel_all_inv:
  "resolver_inv s \<Longrightarrow> \<forall>x \<in> set tids. x < length (or_tasks s) \<Longrightarrow> resolver_inv (fold cancel_task tids s)"
  by (induction tids arbitrary: s) (simp_all add: cancel_task_inv)

lemma invalidateSession_inv: "resolver_inv s \<Longrightarrow> resolver_inv (snd (invalidateSession tok s))"
  by (auto simp: invalidateSession_def split: option.splits dest!: map_of_SomeD intro!: cancel_task_inv session_tids_valid)

lemma invalidateAccount_inv: "resolver_inv s \<Longrightarrow> resolver_inv (snd (invalidateAccount a s))"
  unfolding invalidateAccount_def by (rule invalidate_loop_inv) (auto intro: session_tids_valid)

lemma resolver_inv_disposed [simp]: "resolver_inv (s\<lparr>or_disposed := x\<rparr>) = resolver_inv s"
  by (simp add: resolver_inv_def index_ok_def claim_def task_live_def)

lemma dispose_inv:
  assumes "resolver_inv s"
  shows "resolver_inv (snd (dispose_resolver s))"
proof -
  have "\<forall>x \<in> set (map snd (or_bySession s)). x < length (or_tasks s)" using session_tids_valid[OF assms] by auto
  then show ?thesis using cancel_all_inv[of "s\<lparr>or_disposed := True\<rparr>" "map snd (or_bySession s)"] assms
    by (simp add: dispose_resolver_def)
qed
text \<open>The claim index as a function of account and key.\<close>

lemma claim_update:
  "claim (s\<lparr>or_claims := AList.update a m (or_claims s)\<rparr>) b k = (if b = a then map_of m k else claim s b k)"
  by (simp add: claim_def alist_simps)

lemma claim_delete:
  "claim (s\<lparr>or_claims := AList.delete a (or_claims s)\<rparr>) b k = (if b = a then None else claim s b k)"
  by (simp add: claim_def alist_simps)

definition drop_claim :: "string \<Rightarrow> string \<Rightarrow> nat \<Rightarrow> resolver \<Rightarrow> resolver" where
  "drop_claim a k tid s =
     (case map_of (or_claims s) a of
        None \<Rightarrow> s
      | Some m \<Rightarrow>
          let m' = (if map_of m k = Some tid then AList.delete k m else m)
          in s\<lparr>or_claims := (if m' = [] then AList.delete a (or_claims s) else AList.update a m' (or_claims s))\<rparr>)"

lemma drop_claim_claim:
  "claim (drop_claim a k tid s) b l = (if b = a \<and> l = k \<and> claim s a k = Some tid then None else claim s b l)"
proof (cases "map_of (or_claims s) a")
  case None
  then show ?thesis by (auto simp: drop_claim_def claim_def)
next
  case (Some m)
  let ?m = "if map_of m k = Some tid then AList.delete k m else m"
  have eq: "map_of ?m l = (if l = k \<and> map_of m k = Some tid then None else map_of m l)"
    by (auto simp: alist_simps)
  have "claim (drop_claim a k tid s) b l = (if b = a then map_of ?m l else claim s b l)"
  proof (cases "?m = []")
    case True
    then have "map_of ?m l = None" by simp
    then show ?thesis using Some True by (simp add: drop_claim_def Let_def claim_delete)
  next
    case False
    then show ?thesis using Some by (simp add: drop_claim_def Let_def claim_update)
  qed
  then show ?thesis unfolding eq using Some by (auto simp: claim_def)
qed

lemma drop_claim_frames [simp]:
  "or_tasks (drop_claim a k tid s) = or_tasks s" "or_bySession (drop_claim a k tid s) = or_bySession s"
  "or_bytes (drop_claim a k tid s) = or_bytes s" "or_maxTasks (drop_claim a k tid s) = or_maxTasks s"
  "or_maxMetadataBytes (drop_claim a k tid s) = or_maxMetadataBytes s" "or_disposed (drop_claim a k tid s) = or_disposed s"
  by (simp_all add: drop_claim_def Let_def split: option.splits)

lemma drop_claim_nonempty:
  "\<forall>a m. map_of (or_claims s) a = Some m \<longrightarrow> m \<noteq> [] \<Longrightarrow> \<forall>b m. map_of (or_claims (drop_claim a k tid s)) b = Some m \<longrightarrow> m \<noteq> []"
  by (auto simp: drop_claim_def Let_def alist_simps split: option.splits if_splits)

lemma release_task_live:
  assumes inv: "resolver_inv s" and tid: "tid < length (or_tasks s)" and lv: "\<not> at_released (or_tasks s ! tid)"
  shows "\<exists>s'. release_task tid s = Inr s' \<and> resolver_inv s' \<and> \<not> task_live s' tid \<and>
    length (or_tasks s') = length (or_tasks s) \<and> or_disposed s' = or_disposed s \<and> (\<forall>x. x \<noteq> tid \<longrightarrow> or_tasks s' ! x = or_tasks s ! x)"
proof -
  let ?t = "or_tasks s ! tid"
  let ?r = "at_request ?t"
  let ?t' = "?t\<lparr>at_released := True, at_await := Settled\<rparr>"
  let ?s1 = "s\<lparr>or_tasks := (or_tasks s)[tid := ?t'], or_bySession := AList.delete (rq_sessionToken ?r) (or_bySession s)\<rparr>"
  let ?s2 = "drop_claim (rq_accountId ?r) (rq_key ?r) tid ?s1"
  let ?s3 = "?s2\<lparr>or_bytes := or_bytes s - at_bytes ?t\<rparr>"
  have ix: "index_ok s" and tk: "task_ok ?t" using inv tid by (simp_all add: resolver_inv_def)
  have live: "task_live s tid" using tid lv by (simp add: task_live_def)
  have bs: "map_of (or_bySession s) (rq_sessionToken ?r) = Some tid" and cl: "claim s (rq_accountId ?r) (rq_key ?r) = Some tid"
    using ix live by (simp_all add: index_ok_def)
  have ge: "at_bytes ?t \<le> or_bytes s"
    using sum_list_map_ge_elem[of "or_tasks s" live_bytes tid] live_bytes_nonneg inv tid lv
    by (auto simp: resolver_inv_def live_bytes_def)
  have eval: "release_task tid s = Inr ?s3"
    using lv bs ge by (simp add: release_task_def Let_def drop_claim_def split: option.splits)
  have live3: "task_live ?s3 x \<longleftrightarrow> task_live s x \<and> x \<noteq> tid" for x
    using tid by (cases "x = tid") (simp_all add: task_live_def)
  have req3: "req ?s3 x = req s x" for x by (cases "x = tid") (simp_all add: nth_list_update tid)
  have cl3: "claim ?s3 a k = (if a = rq_accountId ?r \<and> k = rq_key ?r then None else claim s a k)" for a k
    using drop_claim_claim[of "rq_accountId ?r" "rq_key ?r" tid ?s1 a k] cl by (simp add: claim_def)
  have by3: "map_of (or_bySession ?s3) tok = (if tok = rq_sessionToken ?r then None else map_of (or_bySession s) tok)" for tok
    by (simp add: alist_simps)
  have own: "map_of (or_bySession s) (rq_sessionToken (req s x)) = Some x"
    "claim s (rq_accountId (req s x)) (rq_key (req s x)) = Some x" if "task_live s x" for x
    using ix that by (simp_all add: index_ok_def)
  have uniq: "rq_sessionToken (req s x) \<noteq> rq_sessionToken ?r \<and>
      \<not> (rq_accountId (req s x) = rq_accountId ?r \<and> rq_key (req s x) = rq_key ?r)" if "task_live s x" "x \<noteq> tid" for x
    using own[OF that(1)] that(2) bs cl by auto
  have bsD: "task_live s x \<and> rq_sessionToken (req s x) = tok" if "map_of (or_bySession s) tok = Some x" for tok x
    using ix that by (simp add: index_ok_def)
  have clD: "task_live s x \<and> rq_accountId (req s x) = a \<and> rq_key (req s x) = k" if "claim s a k = Some x" for a k x
    using ix that by (simp add: index_ok_def)
  have ne: "\<forall>b m. map_of (or_claims ?s3) b = Some m \<longrightarrow> m \<noteq> []"
    using drop_claim_nonempty[of ?s1 "rq_accountId ?r" "rq_key ?r" tid] ix by (simp add: index_ok_def)
  have di: "distinct (js_keys (or_bySession ?s3))" using ix by (simp add: index_ok_def)
  have ix3: "index_ok ?s3"
    unfolding index_ok_def live3 req3 cl3 by3
  proof (intro conjI allI impI, goal_cases)
    case 1
    show ?case by (rule di)
  next
    case (2 tok x)
    then show ?case using bsD[of tok x] bs by (auto split: if_splits)
  next
    case (3 tok x)
    then show ?case using bsD[of tok x] bs by (auto split: if_splits)
  next
    case (4 tok x)
    then show ?case using bsD[of tok x] by (auto split: if_splits)
  next
    case (5 x)
    then show ?case using own(1)[of x] uniq[of x] by auto
  next
    case (6 x)
    then show ?case using own(2)[of x] uniq[of x] by auto
  next
    case (7 a k x)
    then show ?case using clD[of a k x] by (auto split: if_splits)
  next
    case (8 a k x)
    then show ?case using clD[of a k x] cl by (auto split: if_splits)
  next
    case (9 a k x)
    then show ?case using clD[of a k x] by (auto split: if_splits)
  next
    case (10 a k x)
    then show ?case using clD[of a k x] by (auto split: if_splits)
  next
    case (11 a m)
    then show ?case using ne by blast
  qed
  have tasks3: "\<forall>t \<in> set ((or_tasks s)[tid := ?t']). task_ok t"
    by (rule ball_set_update[OF tid]) (use inv tk in \<open>auto simp: resolver_inv_def task_ok_def\<close>)
  have sum3: "sum_list (map live_bytes ((or_tasks s)[tid := ?t'])) = or_bytes s - at_bytes ?t"
    using tid lv inv by (simp add: sum_map_list_update live_bytes_def resolver_inv_def)
  have "length (AList.delete (rq_sessionToken ?r) (or_bySession s)) \<le> length (or_bySession s)" by (rule AList.length_delete_le)
  moreover have "0 \<le> at_bytes ?t" using tk by (simp add: task_ok_def metadata_nonneg)
  ultimately have "resolver_inv ?s3" using ix3 tasks3 sum3 inv by (simp add: resolver_inv_def)
  then show ?thesis using eval live3[of tid] by (auto simp: nth_list_update)
qed

lemma resolve_start_ok: "resolve_start r = (c, aw) \<Longrightarrow> await_ok (rq_recoverCancelled r) aw \<and> aw \<noteq> Settled"
  by (auto simp: resolve_start_def split: if_splits)

text \<open>Registering a task under a token and a claim that are free.\<close>

lemma start_inv:
  assumes inv: "resolver_inv s" and free: "map_of (or_bySession s) (rq_sessionToken r) = None"
    and nocl: "claim s (rq_accountId r) (rq_key r) = None" and room: "int (length (or_bySession s)) < or_maxTasks s"
    and fit: "overflowResolverMetadataBytes r \<le> or_maxMetadataBytes s - or_bytes s"
    and m: "m = (case map_of (or_claims s) (rq_accountId r) of Some m \<Rightarrow> m | None \<Rightarrow> [])"
    and aw: "await_ok (rq_recoverCancelled r) aw" "aw \<noteq> Settled"
  shows "resolver_inv (s\<lparr>or_tasks := or_tasks s @ [\<lparr>at_request = r, at_bytes = overflowResolverMetadataBytes r,
       at_cancelled = False, at_released = False, at_await = aw\<rparr>],
     or_bySession := AList.update (rq_sessionToken r) (length (or_tasks s)) (or_bySession s),
     or_claims := AList.update (rq_accountId r) (AList.update (rq_key r) (length (or_tasks s)) m) (or_claims s),
     or_bytes := or_bytes s + overflowResolverMetadataBytes r\<rparr>)" (is "resolver_inv ?s'")
proof -
  let ?n = "length (or_tasks s)"
  have ix: "index_ok s" using inv by (simp add: resolver_inv_def)
  have live: "task_live ?s' x \<longleftrightarrow> task_live s x \<or> x = ?n" for x by (auto simp: task_live_def nth_append less_Suc_eq)
  have lt: "x < ?n" if "task_live s x" for x using that by (simp add: task_live_def)
  have req: "req ?s' x = (if x = ?n then r else req s x)" if "task_live ?s' x" for x
    using that by (auto simp: task_live_def nth_append)
  have cl: "claim ?s' a k = (if a = rq_accountId r \<and> k = rq_key r then Some ?n else claim s a k)" for a k
    by (auto simp: claim_def m alist_simps split: option.splits)
  have bs: "map_of (or_bySession ?s') tok = (if tok = rq_sessionToken r then Some ?n else map_of (or_bySession s) tok)" for tok
    by (simp add: alist_simps)
  have own: "map_of (or_bySession s) (rq_sessionToken (req s x)) = Some x"
    "claim s (rq_accountId (req s x)) (rq_key (req s x)) = Some x" if "task_live s x" for x
    using ix that by (simp_all add: index_ok_def)
  have bsD: "task_live s x \<and> rq_sessionToken (req s x) = tok" if "map_of (or_bySession s) tok = Some x" for tok x
    using ix that by (simp add: index_ok_def)
  have clD: "task_live s x \<and> rq_accountId (req s x) = a \<and> rq_key (req s x) = k" if "claim s a k = Some x" for a k x
    using ix that by (simp add: index_ok_def)
  have "index_ok ?s'" unfolding index_ok_def
  proof (intro conjI allI impI)
    show "distinct (js_keys (or_bySession ?s'))" using ix by (simp add: index_ok_def)
  next
    fix tok x assume a: "map_of (or_bySession ?s') tok = Some x"
    then have x: "x = ?n \<and> tok = rq_sessionToken r \<or> task_live s x \<and> rq_sessionToken (req s x) = tok"
      using bsD unfolding bs by (auto split: if_splits)
    then show l: "task_live ?s' x" using live by auto
    show "rq_sessionToken (req ?s' x) = tok" using x req[OF l] lt by (auto split: if_splits)
  next
    fix x assume l: "task_live ?s' x"
    show "map_of (or_bySession ?s') (rq_sessionToken (req ?s' x)) = Some x"
      unfolding bs req[OF l] using l live own(1)[of x] free lt by (auto split: if_splits)
    show "claim ?s' (rq_accountId (req ?s' x)) (rq_key (req ?s' x)) = Some x"
      unfolding cl req[OF l] using l live own(2)[of x] nocl lt by (auto split: if_splits)
  next
    fix a k x assume "claim ?s' a k = Some x"
    then have x: "x = ?n \<and> a = rq_accountId r \<and> k = rq_key r \<or> task_live s x \<and> rq_accountId (req s x) = a \<and> rq_key (req s x) = k"
      using clD unfolding cl by (auto split: if_splits)
    then show l: "task_live ?s' x" using live by auto
    show "rq_accountId (req ?s' x) = a" "rq_key (req ?s' x) = k" using x req[OF l] lt by (auto split: if_splits)
  next
    fix a m' assume "map_of (or_claims ?s') a = Some m'"
    moreover have "AList.update (rq_key r) ?n m \<noteq> []" by (cases m) auto
    ultimately show "m' \<noteq> []" using ix by (auto simp: alist_simps index_ok_def split: if_splits)
  qed
  moreover have "length (AList.update (rq_sessionToken r) ?n (or_bySession s)) = Suc (length (or_bySession s))"
    using free by (simp add: update_fresh_append map_of_eq_None_iff)
  ultimately show ?thesis using inv room fit aw
    by (auto simp: resolver_inv_def live_bytes_def task_ok_def)
qed

lemma tryStart_inv:
  assumes inv: "resolver_inv s"
  shows "resolver_inv (snd (tryStart raw s))"
proof (cases "fst (fst (tryStart raw s)) = Started")
  case False
  then have "snd (tryStart raw s) = s"
    by (auto simp: tryStart_def Let_def split: option.splits prod.splits if_splits)
  then show ?thesis using inv by simp
next
  case True
  obtain r where r1: "checked_request raw = Some r"
    using True by (cases "checked_request raw") (auto simp: tryStart_def split: if_splits)
  obtain c aw where r: "checked_request raw = Some r" "resolve_start r = (c, aw)" using r1 by fastforce
  show ?thesis using True r start_inv[OF inv, of r _ aw] resolve_start_ok[OF r(2)]
    by (auto simp: tryStart_def Let_def hasActiveClaim_def split: if_splits)
qed

lemma resolve_next_await:
  "resolve_next r st aw ev = (cs, Some aw') \<Longrightarrow> await_ok (rq_recoverCancelled r) aw \<Longrightarrow>
   await_ok (rq_recoverCancelled r) aw' \<and> aw' \<noteq> Settled \<and> aw \<noteq> Settled"
  by (auto simp: resolve_next_def split: await.splits resolver_event.splits record_result.splits
      outcome_lookup.splits ingress_outcome.splits if_splits)

lemma resolve_ok:
  assumes inv: "resolver_inv s" and tid: "tid < length (or_tasks s)" and ev: "expected (at_await (or_tasks s ! tid)) ev"
  shows "\<exists>cs s'. resolve tid ev s = Inr (cs, s') \<and> resolver_inv s' \<and>
    fst (resolve_next (req s tid) (at_cancelled (or_tasks s ! tid) \<or> or_disposed s) (at_await (or_tasks s ! tid)) ev) = cs"
proof -
  let ?t = "or_tasks s ! tid"
  obtain cs nxt where n: "resolve_next (req s tid) (at_cancelled ?t \<or> or_disposed s) (at_await ?t) ev = (cs, nxt)" by fastforce
  have tk: "task_ok ?t" using inv tid by (simp add: resolver_inv_def)
  have "at_await ?t \<noteq> Settled" using ev by auto
  then have lv: "\<not> at_released ?t" using tk by (simp add: task_ok_def)
  show ?thesis
  proof (cases nxt)
    case None
    then show ?thesis using release_task_live[OF inv tid lv] n by (auto simp: resolve_def)
  next
    case (Some aw)
    have "resolver_inv (set_await tid aw s)" unfolding set_await_def
      by (rule task_update_inv[OF inv tid])
        (use tk lv resolve_next_await[OF n[unfolded Some]] in \<open>auto simp: task_ok_def\<close>)
    then show ?thesis using n Some by (auto simp: resolve_def)
  qed
qed

section \<open>Runs\<close>

datatype resolver_op =
    OpStart raw_request
  | OpInvalidateSession session_token
  | OpInvalidateAccount string
  | OpDisposeResolver
  | OpResume nat resolver_event

fun resolver_enabled :: "resolver_op \<Rightarrow> resolver \<Rightarrow> bool" where
  "resolver_enabled (OpResume tid ev) s \<longleftrightarrow> tid < length (or_tasks s) \<and> expected (at_await (or_tasks s ! tid)) ev"
| "resolver_enabled _ s \<longleftrightarrow> True"

fun resolver_step :: "resolver_op \<Rightarrow> resolver \<Rightarrow> resolver_error + resolver_call list \<times> resolver" where
  "resolver_step (OpStart raw) s = (case tryStart raw s of ((_, cs), s') \<Rightarrow> Inr (cs, s'))"
| "resolver_step (OpInvalidateSession tok) s = Inr ([], snd (invalidateSession tok s))"
| "resolver_step (OpInvalidateAccount a) s = Inr ([], snd (invalidateAccount a s))"
| "resolver_step OpDisposeResolver s = Inr ([], snd (dispose_resolver s))"
| "resolver_step (OpResume tid ev) s = resolve tid ev s"

inductive reachable_resolver :: "resolver \<Rightarrow> bool" where
  resolver_created: "newBoundedOverflowResolver t b = Inr s \<Longrightarrow> reachable_resolver s"
| resolver_stepped: "reachable_resolver s \<Longrightarrow> resolver_enabled op s \<Longrightarrow> resolver_step op s = Inr (cs, s') \<Longrightarrow> reachable_resolver s'"

lemma new_resolver_inv: "newBoundedOverflowResolver t b = Inr s \<Longrightarrow> resolver_inv s"
  by (auto simp: newBoundedOverflowResolver_def resolver_inv_def index_ok_def claim_def task_live_def
      split: option.splits dest!: safe_nonneg_SomeD)

lemma resolver_step_ok:
  assumes "resolver_inv s" "resolver_enabled op s"
  shows "\<exists>cs s'. resolver_step op s = Inr (cs, s') \<and> resolver_inv s'"
proof (cases op)
  case (OpStart raw)
  then show ?thesis using tryStart_inv[OF assms(1), of raw] by (auto split: prod.splits)
next
  case (OpResume tid ev)
  then show ?thesis using resolve_ok[OF assms(1), of tid ev] assms(2) by auto
qed (use assms invalidateSession_inv invalidateAccount_inv dispose_inv in auto)

lemma reachable_resolver_inv: "reachable_resolver s \<Longrightarrow> resolver_inv s"
proof (induction rule: reachable_resolver.induct)
  case (resolver_created t b s)
  then show ?case by (rule new_resolver_inv)
next
  case (resolver_stepped s op cs s')
  then show ?case using resolver_step_ok[of s op] by auto
qed

section \<open>The calls of a run\<close>

text \<open>A run with the log of the calls every task has made.  The last of a task's calls is the one
  that a resumption of it answers.\<close>

fun op_task :: "resolver_op \<Rightarrow> resolver \<Rightarrow> nat" where
  "op_task (OpResume tid ev) s = tid"
| "op_task _ s = length (or_tasks s)"

inductive resolver_run :: "(nat \<times> resolver_call) list \<Rightarrow> resolver \<Rightarrow> bool" where
  run_created: "newBoundedOverflowResolver t b = Inr s \<Longrightarrow> resolver_run [] s"
| run_stepped: "resolver_run log s \<Longrightarrow> resolver_enabled op s \<Longrightarrow> resolver_step op s = Inr (cs, s') \<Longrightarrow>
    resolver_run (log @ map (Pair (op_task op s)) cs) s'"

definition awaited :: "nat \<Rightarrow> (nat \<times> resolver_call) list \<Rightarrow> resolver_call option" where
  "awaited tid log = map_of (rev log) tid"

lemma resolver_run_reachable: "resolver_run log s \<Longrightarrow> reachable_resolver s"
  by (induction rule: resolver_run.induct) (auto intro: resolver_created resolver_stepped)

lemma reachable_resolver_run: "reachable_resolver s \<Longrightarrow> \<exists>log. resolver_run log s"
  by (induction rule: reachable_resolver.induct) (auto intro: run_created run_stepped)

lemma awaited_append:
  "awaited x (log @ map (Pair tid) cs) = (if x = tid \<and> cs \<noteq> [] then Some (List.last cs) else awaited x log)"
proof (cases cs rule: rev_cases)
  case (snoc ys c)
  have "map_of (rev (map (Pair tid) ys)) x = None" if "x \<noteq> tid" using that by (simp add: map_of_eq_None_iff image_iff)
  then show ?thesis using snoc by (simp add: awaited_def map_add_def)
qed (simp add: awaited_def)

lemma awaited_single [simp]: "awaited x (log @ [(tid, c)]) = (if x = tid then Some c else awaited x log)"
  using awaited_append[of x log tid "[c]"] by simp

text \<open>The call that a task waiting for the store has made.\<close>

fun awaits_call :: "overflow_request \<Rightarrow> await \<Rightarrow> resolver_call option" where
  "awaits_call r AwaitLookup = Some (CallLookup (rq_accountId r) (rq_key r))"
| "awaits_call r AwaitRecord = Some (CallRecord (rq_accountId r) (rq_key r) OOverloaded False)"
| "awaits_call r AwaitRecover = Some (CallRecord (rq_accountId r) (rq_key r) OAccepted True)"
| "awaits_call r _ = None"

definition calls_ok :: "(nat \<times> resolver_call) list \<Rightarrow> (overflow_request \<times> await) list \<Rightarrow> bool" where
  "calls_ok log v \<longleftrightarrow> (\<forall>tid < length v. \<forall>c. awaits_call (fst (v ! tid)) (snd (v ! tid)) = Some c \<longrightarrow> awaited tid log = Some c)"

abbreviation task_view :: "resolver \<Rightarrow> (overflow_request \<times> await) list" where
  "task_view s \<equiv> map (\<lambda>t. (at_request t, at_await t)) (or_tasks s)"

lemma cancel_task_view [simp]: "task_view (cancel_task tid s) = task_view s"
proof (rule nth_equalityI)
  fix i assume "i < length (task_view (cancel_task tid s))"
  then show "task_view (cancel_task tid s) ! i = task_view s ! i" by (cases "i = tid") (simp_all add: cancel_task_def)
qed simp

lemma invalidate_loop_view: "task_view (snd (invalidate_loop a tids (n, s))) = task_view s"
  by (induction a tids "(n, s)" arbitrary: n s rule: invalidate_loop.induct) (simp_all add: Let_def)

lemma cancel_all_view: "task_view (fold cancel_task tids s) = task_view s"
  by (induction tids arbitrary: s) simp_all

lemma cancelling_view:
  "task_view (snd (invalidateSession tok s)) = task_view s" "task_view (snd (invalidateAccount a s)) = task_view s"
  "task_view (snd (dispose_resolver s)) = task_view s"
  using invalidate_loop_view[of a] cancel_all_view[of "map snd (or_bySession s)" "s\<lparr>or_disposed := True\<rparr>"]
  by (simp_all add: invalidateSession_def invalidateAccount_def dispose_resolver_def split: option.splits)

lemma tryStart_calls:
  assumes "calls_ok log (task_view s)" "tryStart raw s = ((st, cs), s')"
  shows "calls_ok (log @ map (Pair (length (or_tasks s))) cs) (task_view s')"
proof (cases "st = Started")
  case False
  then have "s' = s" "cs = []" using assms(2) by (auto simp: tryStart_def Let_def split: option.splits prod.splits if_splits)
  then show ?thesis using assms(1) by simp
next
  case True
  obtain r where r: "checked_request raw = Some r"
    using assms(2) True by (cases "checked_request raw") (auto simp: tryStart_def split: if_splits)
  obtain c aw where st: "resolve_start r = (c, aw)" by fastforce
  have v: "task_view s' = task_view s @ [(r, aw)]" "cs = [c]"
    using assms(2) True r st by (auto simp: tryStart_def Let_def split: if_splits)
  have "awaits_call r aw = Some c" using st by (auto simp: resolve_start_def split: if_splits)
  then show ?thesis using assms(1) unfolding v calls_ok_def by (auto simp: awaited_append nth_append less_Suc_eq)
qed

lemma resolve_next_calls: "resolve_next r st aw ev = (cs, Some aw') \<Longrightarrow> awaits_call r aw' = Some c \<Longrightarrow> cs = [c]"
  by (auto simp: resolve_next_def split: await.splits resolver_event.splits record_result.splits
      outcome_lookup.splits ingress_outcome.splits if_splits)

lemma resolve_calls:
  assumes inv: "resolver_inv s" and c: "calls_ok log (task_view s)" and tid: "tid < length (or_tasks s)"
    and ev: "expected (at_await (or_tasks s ! tid)) ev" and r: "resolve tid ev s = Inr (cs, s')"
  shows "calls_ok (log @ map (Pair tid) cs) (task_view s')"
proof -
  let ?t = "or_tasks s ! tid"
  obtain cs' nxt where n: "resolve_next (req s tid) (at_cancelled ?t \<or> or_disposed s) (at_await ?t) ev = (cs', nxt)" by fastforce
  have "task_ok ?t" "at_await ?t \<noteq> Settled" using inv tid ev by (auto simp: resolver_inv_def)
  then have lv: "\<not> at_released ?t" by (simp add: task_ok_def)
  have old: "awaits_call (req s x) (at_await (or_tasks s ! x)) = Some d \<longrightarrow> awaited x log = Some d" if "x < length (or_tasks s)" for x d
    using c that by (auto simp: calls_ok_def)
  have new: "calls_ok (log @ map (Pair tid) cs) (task_view s')"
    if "length (or_tasks s') = length (or_tasks s)" "\<forall>x. x \<noteq> tid \<longrightarrow> or_tasks s' ! x = or_tasks s ! x"
      "\<forall>d. awaits_call (req s' tid) (at_await (or_tasks s' ! tid)) = Some d \<longrightarrow> cs = [d]"
    unfolding calls_ok_def
  proof (intro allI impI)
    fix x d assume "x < length (task_view s')" and a: "awaits_call (fst (task_view s' ! x)) (snd (task_view s' ! x)) = Some d"
    then have x: "x < length (or_tasks s)" "x < length (or_tasks s')" using that(1) by simp_all
    then have a': "awaits_call (req s' x) (at_await (or_tasks s' ! x)) = Some d" using a by simp
    show "awaited x (log @ map (Pair tid) cs) = Some d"
    proof (cases "x = tid")
      case True
      then show ?thesis using that(3) a' by (simp add: awaited_append)
    next
      case False
      then show ?thesis using that(2) a' old[OF x(1)] by (simp add: awaited_append)
    qed
  qed
  show ?thesis
  proof (cases nxt)
    case None
    obtain s2 where s2: "release_task tid s = Inr s2" "resolver_inv s2" "\<not> task_live s2 tid"
      "length (or_tasks s2) = length (or_tasks s)" "\<forall>x. x \<noteq> tid \<longrightarrow> or_tasks s2 ! x = or_tasks s ! x"
      using release_task_live[OF inv tid lv] by blast
    have "s' = s2" using r n None s2(1) by (simp add: resolve_def)
    moreover have "at_await (or_tasks s2 ! tid) = Settled"
      using s2(2-4) tid by (auto simp: resolver_inv_def task_ok_def task_live_def)
    ultimately show ?thesis using s2(4,5) by (intro new) simp_all
  next
    case (Some aw)
    have s': "s' = set_await tid aw s" "cs = cs'" using r n Some by (simp_all add: resolve_def)
    show ?thesis using resolve_next_calls[OF n[unfolded Some]] tid by (intro new) (simp_all add: s' set_await_def)
  qed
qed

lemma resolver_run_calls: "resolver_run log s \<Longrightarrow> calls_ok log (task_view s)"
proof (induction rule: resolver_run.induct)
  case (run_created t b s)
  then show ?case by (auto simp: newBoundedOverflowResolver_def calls_ok_def split: option.splits)
next
  case (run_stepped log s op cs s')
  note inv = reachable_resolver_inv[OF resolver_run_reachable[OF run_stepped.hyps(1)]]
  show ?case
  proof (cases op)
    case (OpStart raw)
    then obtain st where "tryStart raw s = ((st, cs), s')" using run_stepped.hyps(3) by (auto split: prod.splits)
    then show ?thesis using tryStart_calls[OF run_stepped.IH] OpStart by simp
  next
    case (OpResume tid ev)
    then have "tid < length (or_tasks s)" "expected (at_await (or_tasks s ! tid)) ev" "resolve tid ev s = Inr (cs, s')"
      using run_stepped.hyps(2,3) by simp_all
    then show ?thesis using resolve_calls[OF inv run_stepped.IH] OpResume by simp
  qed (use run_stepped cancelling_view in auto)
qed

section \<open>Properties\<close>

text \<open>The overflow resolver never exceeds its bounds and never fails its own
  accounting. In every reachable state the number of active tasks and their metadata bytes
  are within the configured limits, the byte counter is the sum over the unreleased tasks,
  and any further call or resumption succeeds: the underflow error is unreachable.\<close>

theorem resolver_bounded:
  assumes "reachable_resolver s"
  shows "int (fst (resolver_usage s)) \<le> or_maxTasks s \<and> snd (resolver_usage s) \<le> or_maxMetadataBytes s \<and>
     snd (resolver_usage s) = (\<Sum>t \<leftarrow> or_tasks s. if at_released t then 0 else overflowResolverMetadataBytes (at_request t)) \<and>
     (\<forall>op. resolver_enabled op s \<longrightarrow> (\<exists>cs s'. resolver_step op s = Inr (cs, s')))"
proof -
  have inv: "resolver_inv s" using assms by (rule reachable_resolver_inv)
  have "map live_bytes (or_tasks s) = map (\<lambda>t. if at_released t then 0 else overflowResolverMetadataBytes (at_request t)) (or_tasks s)"
    using inv by (auto simp: resolver_inv_def live_bytes_def task_ok_def)
  then have "sum_list (map live_bytes (or_tasks s)) =
      (\<Sum>t \<leftarrow> or_tasks s. if at_released t then 0 else overflowResolverMetadataBytes (at_request t))"
    by (rule arg_cong[where f = sum_list])
  moreover have "or_bytes s = sum_list (map live_bytes (or_tasks s))" "int (length (or_bySession s)) \<le> or_maxTasks s"
    "or_bytes s \<le> or_maxMetadataBytes s" using inv by (simp_all add: resolver_inv_def)
  moreover have "\<forall>op. resolver_enabled op s \<longrightarrow> (\<exists>cs s'. resolver_step op s = Inr (cs, s'))"
    using resolver_step_ok[OF inv] by blast
  ultimately show ?thesis by (simp add: resolver_usage_def)
qed

definition demo_request :: raw_request where
  "demo_request = \<lparr>rr_accountId = Some ''a'', rr_peerId = Some ''p'', rr_key = Some ''p:1'', rr_id = Some ''1'',
     rr_sessionToken = 7, rr_recoverCancelled = BoolAbsent\<rparr>"

lemma reachable_resolver_start: "reachable_resolver s \<Longrightarrow> reachable_resolver (snd (tryStart raw s))"
  using resolver_stepped[of s "OpStart raw" "snd (fst (tryStart raw s))"] by (auto split: prod.splits)

lemma demo_started:
  "\<exists>s. reachable_resolver s \<and> length (or_tasks s) = 1 \<and> at_await (or_tasks s ! 0) = AwaitLookup \<and>
     \<not> at_cancelled (or_tasks s ! 0) \<and> \<not> or_disposed s \<and> resolver_usage s = (1, 199) \<and> rq_recoverCancelled (req s 0) = False"
proof -
  obtain s0 where s0: "newBoundedOverflowResolver (JsInt 2) (JsInt 500) = Inr s0"
    "s0 = \<lparr>or_maxTasks = 2, or_maxMetadataBytes = 500, or_tasks = [], or_bySession = [], or_claims = [], or_bytes = 0, or_disposed = False\<rparr>"
    by (simp add: newBoundedOverflowResolver_def safe_nonneg_int_def max_safe_integer_def)
  have "reachable_resolver (snd (tryStart demo_request s0))"
    using resolver_created[OF s0(1)] by (rule reachable_resolver_start)
  moreover have "let s = snd (tryStart demo_request s0) in length (or_tasks s) = 1 \<and> at_await (or_tasks s ! 0) = AwaitLookup \<and>
     \<not> at_cancelled (or_tasks s ! 0) \<and> \<not> or_disposed s \<and> resolver_usage s = (1, 199) \<and> rq_recoverCancelled (req s 0) = False"
    unfolding s0(2) by code_simp
  ultimately show ?thesis by (auto simp: Let_def)
qed

theorem resolver_bounded_witness:
  "\<exists>s. reachable_resolver s \<and> resolver_usage s = (1, 199) \<and> int (fst (resolver_usage s)) \<le> or_maxTasks s"
  using demo_started resolver_bounded by blast

lemma demo_recording:
  "\<exists>s. reachable_resolver s \<and> length (or_tasks s) = 1 \<and> at_await (or_tasks s ! 0) = AwaitRecord \<and>
     \<not> at_cancelled (or_tasks s ! 0) \<and> \<not> or_disposed s \<and> \<not> rq_recoverCancelled (req s 0)"
proof -
  obtain s where s: "reachable_resolver s" "length (or_tasks s) = 1" "at_await (or_tasks s ! 0) = AwaitLookup"
      "\<not> at_cancelled (or_tasks s ! 0)" "\<not> or_disposed s" "\<not> rq_recoverCancelled (req s 0)" using demo_started by blast
  have r: "resolver_step (OpResume 0 (GotLookup LNotFound)) s =
      Inr ([CallRecord (rq_accountId (req s 0)) (rq_key (req s 0)) OOverloaded False], set_await 0 AwaitRecord s)"
    using s by (simp add: resolve_def resolve_next_def Let_def)
  have "reachable_resolver (set_await 0 AwaitRecord s)"
    by (rule resolver_stepped[OF s(1) _ r]) (use s in simp)
  then show ?thesis using s by (intro exI[of _ "set_await 0 AwaitRecord s"]) (auto simp: set_await_def)
qed

text \<open>C9: The resolver publishes only what the outcome store has settled, with the matching outcome.
  Whenever a resumed task sends a rejection, it is neither cancelled nor disposed, is not the
  recovery of a stopped message, and the call it was waiting for was either a lookup of its account
  and key that found the overloaded outcome, or the request to record the overloaded outcome for them, of
  which this very step commits the durable write.  Whenever it sends an acknowledgement, that call was
  either a lookup of its account and key that found the accepted outcome, or, for a recovery, the
  request to record the accepted outcome in place of a rejection, of which this step commits the write.\<close>

theorem resolver_publishes_with_authority:
  assumes "resolver_run log s" and "tid < length (or_tasks s)" and "expected (at_await (or_tasks s ! tid)) ev"
    and "resolve tid ev s = Inr (cs, s')"
  shows "(SendRejected r \<in> set cs \<longrightarrow>
        r = req s tid \<and> \<not> at_cancelled (or_tasks s ! tid) \<and> \<not> or_disposed s \<and> \<not> rq_recoverCancelled r \<and>
        (awaited tid log = Some (CallLookup (rq_accountId r) (rq_key r)) \<and> ev = GotLookup (LFound OOverloaded) \<or>
         awaited tid log = Some (CallRecord (rq_accountId r) (rq_key r) OOverloaded False) \<and>
           (\<exists>i. ev = GotRecord (RRecorded Durable i) \<and> CommitWrite i \<in> set cs))) \<and>
     (SendAck r \<in> set cs \<longrightarrow>
        r = req s tid \<and> \<not> at_cancelled (or_tasks s ! tid) \<and> \<not> or_disposed s \<and>
        (\<not> rq_recoverCancelled r \<and> awaited tid log = Some (CallLookup (rq_accountId r) (rq_key r)) \<and> ev = GotLookup (LFound OAccepted) \<or>
         rq_recoverCancelled r \<and> awaited tid log = Some (CallRecord (rq_accountId r) (rq_key r) OAccepted True) \<and>
           (\<exists>d i. ev = GotRecord (RRecorded d i) \<and> CommitWrite i \<in> set cs)))"
proof -
  let ?t = "or_tasks s ! tid"
  have inv: "resolver_inv s" using assms(1) resolver_run_reachable reachable_resolver_inv by blast
  have aw: "await_ok (rq_recoverCancelled (req s tid)) (at_await ?t)"
    using inv assms(2) by (auto simp: resolver_inv_def task_ok_def)
  have cs: "fst (resolve_next (req s tid) (at_cancelled ?t \<or> or_disposed s) (at_await ?t) ev) = cs"
    using resolve_ok[OF inv assms(2,3)] assms(4) by auto
  have call: "awaits_call (req s tid) (at_await ?t) = Some c \<Longrightarrow> awaited tid log = Some c" for c
    using resolver_run_calls[OF assms(1)] assms(2) by (simp add: calls_ok_def)
  show ?thesis using cs[symmetric] aw call
    by (auto simp: resolve_next_def split: await.splits resolver_event.splits record_result.splits
        outcome_lookup.splits ingress_outcome.splits if_splits)
qed

text \<open>The witness: the store answers the record of the overloaded outcome with a durable write.\<close>

theorem resolver_publishes_with_authority_witness:
  "\<exists>log s cs s' r. resolver_run log s \<and> resolve 0 (GotRecord (RRecorded Durable 5)) s = Inr (cs, s') \<and> SendRejected r \<in> set cs \<and>
     awaited 0 log = Some (CallRecord (rq_accountId r) (rq_key r) OOverloaded False) \<and> CommitWrite 5 \<in> set cs"
proof -
  obtain s where s: "reachable_resolver s" "length (or_tasks s) = 1" "at_await (or_tasks s ! 0) = AwaitRecord"
      "\<not> at_cancelled (or_tasks s ! 0)" "\<not> or_disposed s" using demo_recording by blast
  obtain log where log: "resolver_run log s" using reachable_resolver_run[OF s(1)] by blast
  have r: "resolve 0 (GotRecord (RRecorded Durable 5)) s = Inr ([CommitWrite 5, SendRejected (req s 0)], set_await 0 AwaitSend s)"
    using s by (simp add: resolve_def resolve_next_def)
  have e: "0 < length (or_tasks s)" "expected (at_await (or_tasks s ! 0)) (GotRecord (RRecorded Durable 5))" using s by simp_all
  have "awaited 0 log = Some (CallRecord (rq_accountId (req s 0)) (rq_key (req s 0)) OOverloaded False)"
    using resolver_publishes_with_authority[OF log e r, of "req s 0"] by auto
  then show ?thesis using log r by (intro exI[of _ log] exI[of _ s] exI[of _ "[CommitWrite 5, SendRejected (req s 0)]"]
      exI[of _ "set_await 0 AwaitSend s"] exI[of _ "req s 0"]) simp
qed

text \<open>C28: No write is left open. Whenever the store answers a task's record with a receipt,
  the task settles exactly that receipt in the same step, once: it commits it when the task
  may still publish (and the write is durable, for a rejection), and rolls it back in every
  other case, so the key's turn is always handed on.\<close>

theorem resolver_settles_receipts:
  assumes "reachable_resolver s" and "tid < length (or_tasks s)" and "expected (at_await (or_tasks s ! tid)) (GotRecord (RRecorded dur i))"
    and "resolve tid (GotRecord (RRecorded dur i)) s = Inr (cs, s')"
  shows "filter (\<lambda>c. (\<exists>j. c = CommitWrite j) \<or> (\<exists>j. c = RollbackWrite j)) cs =
     [if at_cancelled (or_tasks s ! tid) \<or> or_disposed s \<or> (\<not> rq_recoverCancelled (req s tid) \<and> dur \<noteq> Durable)
      then RollbackWrite i else CommitWrite i]"
proof -
  let ?t = "or_tasks s ! tid"
  have inv: "resolver_inv s" using assms(1) by (rule reachable_resolver_inv)
  have aw: "await_ok (rq_recoverCancelled (req s tid)) (at_await ?t)"
    using inv assms(2) by (auto simp: resolver_inv_def task_ok_def)
  have cs: "fst (resolve_next (req s tid) (at_cancelled ?t \<or> or_disposed s) (at_await ?t) (GotRecord (RRecorded dur i))) = cs"
    using resolve_ok[OF inv assms(2,3)] assms(4) by auto
  show ?thesis using cs[symmetric] aw assms(3) by (cases "at_await ?t") (auto simp: resolve_next_def)
qed

lemma sum_list_all_zero: "\<forall>x \<in> set xs. x = (0::int) \<Longrightarrow> sum_list xs = 0"
  by (induction xs) auto

theorem resolver_settles_receipts_witness:
  "\<exists>s cs s'. reachable_resolver s \<and> resolve 0 (GotRecord (RRecorded MemoryOnly 5)) s = Inr (cs, s') \<and>
     filter (\<lambda>c. (\<exists>j. c = CommitWrite j) \<or> (\<exists>j. c = RollbackWrite j)) cs = [RollbackWrite 5]"
proof -
  obtain s where s: "reachable_resolver s" "length (or_tasks s) = 1" "at_await (or_tasks s ! 0) = AwaitRecord"
      "\<not> rq_recoverCancelled (req s 0)" using demo_recording by blast
  have e: "0 < length (or_tasks s)" "expected (at_await (or_tasks s ! 0)) (GotRecord (RRecorded MemoryOnly 5))" using s by simp_all
  obtain cs s' where r: "resolve 0 (GotRecord (RRecorded MemoryOnly 5)) s = Inr (cs, s')"
    using resolve_ok[OF reachable_resolver_inv[OF s(1)] e] by blast
  show ?thesis using resolver_settles_receipts[OF s(1) e r] s r by auto
qed

text \<open>The resolver admits at most one task per session and per account and key, and a
  task frees both the moment it ends: a claim or a busy session always belongs to an
  unfinished task, so when every task has ended the resolver is empty again.\<close>

theorem resolver_claims_are_live:
  assumes "reachable_resolver s"
  shows "(hasActiveClaim a k s \<longleftrightarrow> (\<exists>tid. task_live s tid \<and> rq_accountId (req s tid) = a \<and> rq_key (req s tid) = k)) \<and>
     (\<forall>x y. task_live s x \<and> task_live s y \<and> (rq_sessionToken (req s x) = rq_sessionToken (req s y) \<or>
        rq_accountId (req s x) = rq_accountId (req s y) \<and> rq_key (req s x) = rq_key (req s y)) \<longrightarrow> x = y) \<and>
     ((\<forall>tid. \<not> task_live s tid) \<longrightarrow> resolver_usage s = (0, 0) \<and> or_claims s = [])"
proof -
  have inv: "resolver_inv s" using assms by (rule reachable_resolver_inv)
  then have ix: "index_ok s" by (simp add: resolver_inv_def)
  have c: "hasActiveClaim a k s \<longleftrightarrow> (\<exists>tid. task_live s tid \<and> rq_accountId (req s tid) = a \<and> rq_key (req s tid) = k)"
    using ix unfolding hasActiveClaim_def index_ok_def by (metis not_None_eq)
  have u: "x = y" if "task_live s x" "task_live s y" "rq_sessionToken (req s x) = rq_sessionToken (req s y) \<or>
        rq_accountId (req s x) = rq_accountId (req s y) \<and> rq_key (req s x) = rq_key (req s y)" for x y
  proof -
    have live: "\<forall>z. task_live s z \<longrightarrow> map_of (or_bySession s) (rq_sessionToken (req s z)) = Some z \<and> claim s (rq_accountId (req s z)) (rq_key (req s z)) = Some z"
      using ix unfolding index_ok_def by (elim conjE)
    have "Some x = Some y" using that(3)
    proof
      assume "rq_sessionToken (req s x) = rq_sessionToken (req s y)"
      then show ?thesis using live[rule_format, OF that(1)] live[rule_format, OF that(2)] by (simp only:)
    next
      assume "rq_accountId (req s x) = rq_accountId (req s y) \<and> rq_key (req s x) = rq_key (req s y)"
      then show ?thesis using live[rule_format, OF that(1)] live[rule_format, OF that(2)] by (simp only:)
    qed
    then show ?thesis by (rule option.inject[THEN iffD1])
  qed
  have e: "resolver_usage s = (0, 0) \<and> or_claims s = []" if dead: "\<forall>tid. \<not> task_live s tid"
  proof -
    have "or_bySession s = []"
    proof (rule ccontr)
      assume "or_bySession s \<noteq> []"
      then obtain tok x where "map_of (or_bySession s) tok = Some x" by (cases "or_bySession s") (auto, metis)
      then show False using ix dead by (auto simp: index_ok_def)
    qed
    moreover have "or_bytes s = 0"
    proof -
      have "\<forall>x \<in> set (map live_bytes (or_tasks s)). x = 0"
        using dead by (auto simp: task_live_def live_bytes_def set_conv_nth)
      then have "sum_list (map live_bytes (or_tasks s)) = 0" using sum_list_all_zero by blast
      then show ?thesis using inv by (simp add: resolver_inv_def)
    qed
    moreover have "or_claims s = []"
    proof (rule ccontr)
      assume "or_claims s \<noteq> []"
      then obtain b m where m: "map_of (or_claims s) b = Some m" by (cases "or_claims s") (auto, metis)
      then have "m \<noteq> []" using ix by (simp add: index_ok_def)
      then obtain l x where "map_of m l = Some x" by (cases m) (auto, metis)
      then have "claim s b l = Some x" using m by (simp add: claim_def)
      then show False using ix dead by (auto simp: index_ok_def)
    qed
    ultimately show ?thesis by (simp add: resolver_usage_def)
  qed
  show ?thesis using c u e by blast
qed

theorem resolver_claims_are_live_witness:
  "\<exists>s. reachable_resolver s \<and> task_live s 0 \<and> hasActiveClaim (rq_accountId (req s 0)) (rq_key (req s 0)) s"
proof -
  obtain s where s: "reachable_resolver s" "length (or_tasks s) = 1" "at_await (or_tasks s ! 0) = AwaitRecord"
    using demo_recording by blast
  have "task_ok (or_tasks s ! 0)" using reachable_resolver_inv[OF s(1)] s(2) by (simp add: resolver_inv_def)
  then have "task_live s 0" using s by (simp add: task_live_def task_ok_def)
  then show ?thesis using s(1) resolver_claims_are_live[OF s(1)] by blast
qed

end
