(* ===== verification/Ingress_Flush.thy ===== *)
theory Ingress_Flush
  imports Inbound_Queue Outcome_Store Result_Chunks
begin

text \<open>
  Ingress idempotency (\<^verbatim>\<open>packages/plugin/src/ingress-dedupe.ts\<close>): dedupe keys, the bounded
  fallback tombstones of stopped messages, and the flush handler that arbitrates every
  item of a debounced batch between the outcome store, the dispatcher lease and the two
  result writers.

  The handler awaits other components, and the lifecycle predicates it polls can change
  at every await.  Those answers are inputs of the model, one record per item; its output
  is the exact sequence of calls it makes, with the frames the result writers publish in
  between.  The result writers and the tombstones are the modelled components themselves.
\<close>

section \<open>Keys and tombstones\<close>

definition MAX_INGRESS_DEDUPE_ID_LENGTH :: nat where "MAX_INGRESS_DEDUPE_ID_LENGTH = 128"
definition MAX_CANCELLED_INBOUND_FALLBACK_TOMBSTONES :: int where "MAX_CANCELLED_INBOUND_FALLBACK_TOMBSTONES = 256"
definition MAX_CANCELLED_INBOUND_FALLBACK_BYTES :: int where "MAX_CANCELLED_INBOUND_FALLBACK_BYTES = 262144"

record 'm ingress_item =
  it_peerId :: string
  it_id :: raw_id
  it_message :: 'm

definition ingressDedupeKey :: "'m ingress_item \<Rightarrow> string option" where
  "ingressDedupeKey it =
     (case it_id it of
        StrId s \<Rightarrow> if length s > 0 \<and> length s \<le> MAX_INGRESS_DEDUPE_ID_LENGTH
                   then Some (it_peerId it @ CHR '':'' # s) else None
      | _ \<Rightarrow> None)"

record tombstones =
  tb_keys :: "(string, int) js_map"
  tb_bytes :: int
  tb_cap :: int
  tb_byteCap :: int
  tb_warnings :: nat

definition new_tombstones :: "int \<Rightarrow> int \<Rightarrow> tombstones" where
  "new_tombstones cap byteCap = \<lparr>tb_keys = [], tb_bytes = 0, tb_cap = cap, tb_byteCap = byteCap, tb_warnings = 0\<rparr>"

definition scoped :: "string \<Rightarrow> string option \<Rightarrow> string" where
  "scoped key accountId = length_prefixed (case accountId of Some a \<Rightarrow> a | None \<Rightarrow> ''global'') key"

definition tomb_has :: "string \<Rightarrow> string option \<Rightarrow> tombstones \<Rightarrow> bool" where
  "tomb_has key accountId tb \<longleftrightarrow>
     map_of (tb_keys tb) (scoped key accountId) \<noteq> None
     \<or> (accountId \<noteq> None \<and> map_of (tb_keys tb) (scoped key None) \<noteq> None)"

definition tomb_drop :: "string \<Rightarrow> tombstones \<Rightarrow> bool \<times> tombstones" where
  "tomb_drop sk tb =
     (case map_of (tb_keys tb) sk of
        None \<Rightarrow> (False, tb)
      | Some b \<Rightarrow> (True, tb\<lparr>tb_keys := AList.delete sk (tb_keys tb), tb_bytes := tb_bytes tb - b\<rparr>))"

definition tomb_delete :: "string \<Rightarrow> string option \<Rightarrow> tombstones \<Rightarrow> bool \<times> tombstones" where
  "tomb_delete key accountId tb =
     (if map_of (tb_keys tb) (scoped key accountId) = None \<and> accountId \<noteq> None
      then tomb_drop (scoped key None) tb
      else tomb_drop (scoped key accountId) tb)"

definition tomb_add :: "string \<Rightarrow> string option \<Rightarrow> tombstones \<Rightarrow> tombstones" where
  "tomb_add key accountId tb =
     (let sk = scoped key accountId; b = utf8_length sk + 48 in
      if map_of (tb_keys tb) sk \<noteq> None then tb
      else if b > tb_byteCap tb then tb
      else
        let (m, t) = evict_oldest (tb_cap tb) (tb_byteCap tb) (\<lambda>n. n) b (tb_keys tb) (tb_bytes tb);
            evicted = length m < length (tb_keys tb)
        in tb\<lparr>tb_keys := AList.update sk b m, tb_bytes := t + b,
              tb_warnings := (if evicted then Suc (tb_warnings tb) else tb_warnings tb)\<rparr>)"

section \<open>The legacy filter and the recording of stopped items\<close>

text \<open>The answers around one \<^verbatim>\<open>checkAndRecord\<close>: the lifecycle flag before, the outcome
  (\<open>None\<close>: it threw) and the flag after.\<close>

record fresh_answer =
  fa_before :: bool
  fa_check :: "bool option"
  fa_after :: bool

fun fresh_loop :: "('m ingress_item \<times> fresh_answer) list \<Rightarrow> 'm ingress_item list \<Rightarrow> 'm ingress_item list" where
  "fresh_loop [] survivors = survivors"
| "fresh_loop ((it, a) # rest) survivors =
     (if \<not> fa_before a then []
      else case ingressDedupeKey it of
        None \<Rightarrow> fresh_loop rest (survivors @ [it])
      | Some _ \<Rightarrow>
          if \<not> fa_after a then []
          else case fa_check a of
            None \<Rightarrow> fresh_loop rest (survivors @ [it])
          | Some fresh \<Rightarrow> fresh_loop rest (if fresh then survivors @ [it] else survivors))"

definition filterFreshInboundItems :: "('m ingress_item \<times> fresh_answer) list \<Rightarrow> 'm ingress_item list" where
  "filterFreshInboundItems xs = fresh_loop xs []"

text \<open>\<^verbatim>\<open>recordCancelledInboundItems\<close>: the first loop fills the tombstones and groups the
  ids by peer; \<open>None\<close> is its early return.  The tombstone store is optional.\<close>

fun cancel_loop ::
  "string \<Rightarrow> ('m ingress_item \<times> fresh_answer) list \<Rightarrow> tombstones option \<Rightarrow> (string, string list) js_map
   \<Rightarrow> (string, string list) js_map option \<times> tombstones option" where
  "cancel_loop accountId [] tb m = (Some m, tb)"
| "cancel_loop accountId ((it, a) # rest) tb m =
     (if \<not> fa_before a then (None, tb)
      else case ingressDedupeKey it of
        None \<Rightarrow> cancel_loop accountId rest tb m
      | Some key \<Rightarrow>
          if \<not> fa_after a then (None, tb)
          else
            let tb1 = (if fa_check a = None then map_option (tomb_add key (Some accountId)) tb else tb);
                tb2 = (if fa_check a = None then map_option (tomb_add key (Some accountId)) tb1 else tb1);
                ids = (case map_of m (it_peerId it) of Some ids \<Rightarrow> ids | None \<Rightarrow> [])
            in cancel_loop accountId rest tb2
                 (AList.update (it_peerId it) (ids @ [case it_id it of StrId s \<Rightarrow> s | _ \<Rightarrow> []]) m))"

text \<open>The second loop sends one ACK per peer while it may publish.\<close>

fun ack_loop :: "(string, string list) js_map \<Rightarrow> bool list \<Rightarrow> (string \<times> string list) list" where
  "ack_loop [] flags = []"
| "ack_loop (p # ps) flags =
     (case flags of
        True # fs \<Rightarrow> p # ack_loop ps fs
      | _ \<Rightarrow> [])"

definition recordCancelledInboundItems ::
  "string \<Rightarrow> ('m ingress_item \<times> fresh_answer) list \<Rightarrow> bool list \<Rightarrow> tombstones option
   \<Rightarrow> (string \<times> string list) list \<times> tombstones option" where
  "recordCancelledInboundItems accountId xs flags tb =
     (case cancel_loop accountId xs tb [] of
        (None, tb') \<Rightarrow> ([], tb')
      | (Some m, tb') \<Rightarrow> (ack_loop m flags, tb'))"

section \<open>The flush handler\<close>

datatype offer_answer = AnsAccepted | AnsRejected | AnsDisposed | AnsThrew

text \<open>
  What the handler observes for one item: the lifecycle flags at its start, after the
  lookup and after the record; the answers of lookup and record (\<open>None\<close>: the adapter
  threw) and of the offer; and whether the fallback ACK was sent.
\<close>

record flush_answer =
  an_active :: bool
  an_lookup :: "outcome_lookup option"
  an_activeLookup :: bool
  an_offer :: offer_answer
  an_record :: "record_result option"
  an_activeRecord :: bool
  an_sendAck :: bool

datatype flush_event =
    EBeginBatch
  | ELookup nat string outcome_lookup
  | EOffer nat offer_answer
  | ERecord nat string ingress_outcome bool "record_result option"
  | ECommitWrite nat
  | ERollbackWrite nat
  | ECommitOffer nat
  | ERollbackOffer nat
  | ERelease nat
  | ESendAck string
  | EPublish result_frame
  | EWaitCancellation
  | EFinishLease

record flush_state =
  fs_trace :: "flush_event list"
  fs_pendingWrites :: "nat list"
  fs_commitOffers :: "nat list"
  fs_rollbackOffers :: "nat list"
  fs_rolledBack :: "nat list"
  fs_deferredReleases :: "nat list"
  fs_ack :: chunk_writer
  fs_rejected :: chunk_writer
  fs_fifoBlocked :: bool
  fs_tombs :: tombstones

definition emit :: "flush_event list \<Rightarrow> flush_state \<Rightarrow> flush_state" where
  "emit es st = st\<lparr>fs_trace := fs_trace st @ es\<rparr>"

definition release_item :: "nat \<Rightarrow> flush_state \<Rightarrow> flush_state" where
  "release_item i st = emit [ERelease i] st"

definition block_fifo :: "flush_state \<Rightarrow> flush_state" where
  "block_fifo st = st\<lparr>fs_fifoBlocked := True\<rparr>"

definition new_frames :: "chunk_writer \<Rightarrow> chunk_writer \<Rightarrow> flush_event list" where
  "new_frames w w' = map EPublish (drop (length (w_published w)) (w_published w'))"

text \<open>Adding an id to a result writer; the boolean is whether it threw.\<close>

definition ack_add :: "string \<Rightarrow> flush_state \<Rightarrow> bool \<times> flush_state" where
  "ack_add s st =
     (let (r, w) = add (Some s) (fs_ack st)
      in (case r of Inl _ \<Rightarrow> True | Inr _ \<Rightarrow> False, emit (new_frames (fs_ack st) w) (st\<lparr>fs_ack := w\<rparr>)))"

definition rejected_add :: "string \<Rightarrow> flush_state \<Rightarrow> bool \<times> flush_state" where
  "rejected_add s st =
     (let (r, w) = add (Some s) (fs_rejected st)
      in (case r of Inl _ \<Rightarrow> True | Inr _ \<Rightarrow> False, emit (new_frames (fs_rejected st) w) (st\<lparr>fs_rejected := w\<rparr>)))"

definition rollback_if_recorded :: "record_result option \<Rightarrow> flush_state \<Rightarrow> flush_state" where
  "rollback_if_recorded r st = (case r of Some (RRecorded _ w) \<Rightarrow> emit [ERollbackWrite w] st | _ \<Rightarrow> st)"

definition rollbackOnce :: "nat \<Rightarrow> flush_state \<Rightarrow> flush_state" where
  "rollbackOnce i st =
     (if i \<in> set (fs_rolledBack st) then st
      else emit [ERollbackOffer i] (st\<lparr>fs_rolledBack := fs_rolledBack st @ [i]\<rparr>))"

text \<open>An item whose key a tombstone suppresses: retry the accepted replacement, ACK after it.\<close>

definition flush_tombstoned ::
  "string \<Rightarrow> string \<Rightarrow> string \<Rightarrow> nat \<Rightarrow> flush_answer \<Rightarrow> flush_state \<Rightarrow> bool \<times> flush_state" where
  "flush_tombstoned accountId key s i an st =
     (let st1 = emit [ERecord i key OAccepted True (an_record an)] st in
      if \<not> an_activeRecord an
      then (False, block_fifo (release_item i (rollback_if_recorded (an_record an) st1)))
      else case an_record an of
        Some (RRecorded _ w) \<Rightarrow>
          let st2 = emit [ECommitWrite w, ESendAck s] st1;
              st3 = (if an_sendAck an then st2\<lparr>fs_tombs := snd (tomb_delete key (Some accountId) (fs_tombs st2))\<rparr> else st2)
          in (False, release_item i st3)
      | _ \<Rightarrow> (False, block_fifo (release_item i st1)))"

text \<open>An item the lease accepted.\<close>

definition flush_accepted :: "string \<Rightarrow> string \<Rightarrow> nat \<Rightarrow> flush_answer \<Rightarrow> flush_state \<Rightarrow> bool \<times> flush_state" where
  "flush_accepted key s i an st =
     (let st1 = emit [ERecord i key OAccepted False (an_record an)] (st\<lparr>fs_rollbackOffers := fs_rollbackOffers st @ [i]\<rparr>) in
      if \<not> an_activeRecord an then (False, block_fifo (rollback_if_recorded (an_record an) st1))
      else case an_record an of
        Some (RRecorded _ w) \<Rightarrow>
          ack_add s (st1\<lparr>fs_pendingWrites := fs_pendingWrites st1 @ [w], fs_commitOffers := fs_commitOffers st1 @ [i]\<rparr>)
      | _ \<Rightarrow> (False, block_fifo (rollbackOnce i st1)))"

text \<open>An item the lease rejected.\<close>

definition flush_rejected :: "string \<Rightarrow> string \<Rightarrow> nat \<Rightarrow> flush_answer \<Rightarrow> flush_state \<Rightarrow> bool \<times> flush_state" where
  "flush_rejected key s i an st =
     (let st1 = emit [ERecord i key OOverloaded False (an_record an)] st in
      if \<not> an_activeRecord an
      then (False, block_fifo (release_item i (rollback_if_recorded (an_record an) st1)))
      else case an_record an of
        Some (RRecorded Durable w) \<Rightarrow>
          rejected_add s (st1\<lparr>fs_pendingWrites := fs_pendingWrites st1 @ [w],
                              fs_deferredReleases := fs_deferredReleases st1 @ [i]\<rparr>)
      | r \<Rightarrow> (False, block_fifo (release_item i (rollback_if_recorded r st1))))"

text \<open>One item of the loop; the boolean is whether it threw.\<close>

definition flush_item ::
  "string \<Rightarrow> nat \<Rightarrow> 'm ingress_item \<Rightarrow> flush_answer \<Rightarrow> flush_state \<Rightarrow> bool \<times> flush_state" where
  "flush_item accountId i it an st =
     (if fs_fifoBlocked st then (False, release_item i st)
      else if \<not> an_active an then (False, block_fifo (release_item i st))
      else case ingressDedupeKey it of
        None \<Rightarrow>
          let st1 = emit [EOffer i (an_offer an)] st in
          (case an_offer an of
             AnsAccepted \<Rightarrow> (False, emit [ECommitOffer i] st1)
           | AnsThrew \<Rightarrow> (True, st1)
           | _ \<Rightarrow> (False, release_item i st1))
      | Some key \<Rightarrow>
          let s = (case it_id it of StrId s \<Rightarrow> s | _ \<Rightarrow> []) in
          if tomb_has key (Some accountId) (fs_tombs st) then flush_tombstoned accountId key s i an st
          else
            let existing = (case an_lookup an of Some r \<Rightarrow> r | None \<Rightarrow> LUnknown);
                st1 = emit [ELookup i key existing] st
            in if \<not> an_activeLookup an \<or> existing = LUnknown then (False, block_fifo (release_item i st1))
               else case existing of
                 LFound OAccepted \<Rightarrow> ack_add s (release_item i st1)
               | LFound OOverloaded \<Rightarrow> rejected_add s (release_item i st1)
               | _ \<Rightarrow>
                   let st2 = emit [EOffer i (an_offer an)] st1 in
                   (case an_offer an of
                      AnsThrew \<Rightarrow> (True, st2)
                    | AnsDisposed \<Rightarrow> (False, release_item i st2)
                    | AnsRejected \<Rightarrow> flush_rejected key s i an st2
                    | AnsAccepted \<Rightarrow> flush_accepted key s i an st2))"

fun flush_loop ::
  "string \<Rightarrow> nat \<Rightarrow> ('m ingress_item \<times> flush_answer) list \<Rightarrow> flush_state \<Rightarrow> bool \<times> flush_state" where
  "flush_loop accountId i [] st = (False, st)"
| "flush_loop accountId i ((it, an) # rest) st =
     (case flush_item accountId i it an st of
        (True, st') \<Rightarrow> (True, st')
      | (False, st') \<Rightarrow> flush_loop accountId (Suc i) rest st')"

definition rollbackWrites :: "flush_state \<Rightarrow> flush_state" where
  "rollbackWrites st = emit (map ERollbackWrite (fs_pendingWrites st)) st"

definition rollback_offers_and_release :: "flush_state \<Rightarrow> flush_state" where
  "rollback_offers_and_release st =
     emit (map ERelease (fs_deferredReleases st)) (fold rollbackOnce (fs_rollbackOffers st) st)"

text \<open>The three ways a batch ends: invalidated, published, or thrown out of the loop.\<close>

definition flush_footer :: "bool \<Rightarrow> flush_state \<Rightarrow> flush_state" where
  "flush_footer invalidated st =
     (if invalidated then rollback_offers_and_release (emit [EWaitCancellation] (rollbackWrites st))
      else
        let st1 = emit (map ECommitWrite (fs_pendingWrites st) @ map ECommitOffer (fs_commitOffers st)) st;
            ack = snd (finish (fs_ack st1));
            st2 = emit (new_frames (fs_ack st1) ack) (st1\<lparr>fs_ack := ack\<rparr>);
            rej = snd (finish (fs_rejected st2));
            st3 = emit (new_frames (fs_rejected st2) rej) (st2\<lparr>fs_rejected := rej\<rparr>)
        in emit (map ERelease (fs_deferredReleases st3)) st3)"

definition flush_start :: "chunk_writer \<Rightarrow> chunk_writer \<Rightarrow> tombstones \<Rightarrow> flush_state" where
  "flush_start ack rej tb =
     \<lparr>fs_trace = [], fs_pendingWrites = [], fs_commitOffers = [], fs_rollbackOffers = [], fs_rolledBack = [],
      fs_deferredReleases = [], fs_ack = ack, fs_rejected = rej, fs_fifoBlocked = False, fs_tombs = tb\<rparr>"

text \<open>\<open>active\<close> is the lifecycle flag at entry; an inactive or empty batch opens no lease.\<close>

definition ingressOnFlush ::
  "string \<Rightarrow> bool \<Rightarrow> chunk_writer \<Rightarrow> chunk_writer \<Rightarrow> ('m ingress_item \<times> flush_answer) list \<Rightarrow> bool \<Rightarrow> tombstones \<Rightarrow> flush_state" where
  "ingressOnFlush accountId active ack rej items invalidated tb =
     (if \<not> active \<or> items = [] then flush_start ack rej tb
      else case flush_loop accountId 0 items (emit [EBeginBatch] (flush_start ack rej tb)) of
        (False, st) \<Rightarrow> emit [EFinishLease] (flush_footer invalidated st)
      | (True, st) \<Rightarrow> emit [EFinishLease] (rollback_offers_and_release (rollbackWrites st)))"

section \<open>The legacy flush\<close>

record legacy_answer =
  la_active :: bool
  la_recorded :: bool
  la_activeRecord :: bool
  la_activeAck :: bool
  la_acked :: bool

datatype 'm legacy_event = LRecordFallback string | LSendAck string "string list" | LDispatch string 'm

text \<open>The items no tombstone suppresses; \<open>None\<close> is an early return.\<close>

fun legacy_split ::
  "string \<Rightarrow> ('m ingress_item \<times> legacy_answer) list \<Rightarrow> tombstones \<Rightarrow> 'm ingress_item list \<Rightarrow> 'm legacy_event list
   \<Rightarrow> 'm ingress_item list option \<times> tombstones \<times> 'm legacy_event list" where
  "legacy_split accountId [] tb ordinary es = (Some ordinary, tb, es)"
| "legacy_split accountId ((it, a) # rest) tb ordinary es =
     (if \<not> la_active a then (None, tb, es)
      else case ingressDedupeKey it of
        None \<Rightarrow> legacy_split accountId rest tb (ordinary @ [it]) es
      | Some key \<Rightarrow>
          if \<not> tomb_has key (Some accountId) tb then legacy_split accountId rest tb (ordinary @ [it]) es
          else
            let es1 = es @ [LRecordFallback key] in
            if \<not> la_activeRecord a \<or> \<not> la_activeAck a then (None, tb, es1)
            else
              let s = (case it_id it of StrId s \<Rightarrow> s | _ \<Rightarrow> []);
                  tb1 = (if la_recorded a \<and> la_acked a then snd (tomb_delete key (Some accountId) tb) else tb)
              in legacy_split accountId rest tb1 ordinary (es1 @ [LSendAck (it_peerId it) [s]]))"

definition legacy_ack_ids :: "'m ingress_item list \<Rightarrow> string list" where
  "legacy_ack_ids its =
     rev (remdups (rev (concat (map (\<lambda>it. case it_id it of StrId s \<Rightarrow> if s = [] then [] else [s] | _ \<Rightarrow> []) its))))"

text \<open>The lifecycle flags are those polled before the ACK, and after the filter.\<close>

definition legacyOnFlush ::
  "string \<Rightarrow> ('m list \<Rightarrow> 'm option) \<Rightarrow> ('m ingress_item \<times> legacy_answer) list \<Rightarrow> (nat \<Rightarrow> fresh_answer)
   \<Rightarrow> bool \<Rightarrow> bool \<Rightarrow> tombstones \<Rightarrow> 'm legacy_event list \<times> tombstones" where
  "legacyOnFlush accountId coalesce items ans activeAck activeDispatch tb =
     (case legacy_split accountId items tb [] [] of
        (None, tb1, es) \<Rightarrow> (es, tb1)
      | (Some ordinary, tb1, es) \<Rightarrow>
          if \<not> activeAck then (es, tb1)
          else
            let es1 = es @ (case ordinary of
                              [] \<Rightarrow> []
                            | anchor # _ \<Rightarrow> if legacy_ack_ids ordinary = [] then []
                                             else [LSendAck (it_peerId anchor) (legacy_ack_ids ordinary)]);
                fresh = filterFreshInboundItems (map (\<lambda>(j, it). (it, ans j)) (enumerate 0 ordinary))
            in if \<not> activeDispatch then (es1, tb1)
               else case fresh of
                 [] \<Rightarrow> (es1, tb1)
               | first # _ \<Rightarrow>
                   (case coalesce (map it_message fresh) of
                      None \<Rightarrow> (es1, tb1)
                    | Some m \<Rightarrow> (es1 @ [LDispatch (it_peerId first) m], tb1)))"

section \<open>Facts about the loop\<close>

lemmas flush_parts = flush_item_def flush_tombstoned_def flush_accepted_def flush_rejected_def

lemma emit_sel [simp]:
  "fs_trace (emit es st) = fs_trace st @ es" "fs_pendingWrites (emit es st) = fs_pendingWrites st"
  "fs_commitOffers (emit es st) = fs_commitOffers st" "fs_rollbackOffers (emit es st) = fs_rollbackOffers st"
  "fs_rolledBack (emit es st) = fs_rolledBack st" "fs_deferredReleases (emit es st) = fs_deferredReleases st"
  "fs_ack (emit es st) = fs_ack st" "fs_rejected (emit es st) = fs_rejected st"
  "fs_fifoBlocked (emit es st) = fs_fifoBlocked st" "fs_tombs (emit es st) = fs_tombs st"
  by (simp_all add: emit_def)

lemma release_sel [simp]:
  "fs_trace (release_item i st) = fs_trace st @ [ERelease i]" "fs_pendingWrites (release_item i st) = fs_pendingWrites st"
  "fs_ack (release_item i st) = fs_ack st" "fs_rejected (release_item i st) = fs_rejected st"
  "fs_tombs (release_item i st) = fs_tombs st" "fs_fifoBlocked (release_item i st) = fs_fifoBlocked st"
  by (simp_all add: release_item_def)

lemma block_sel [simp]:
  "fs_trace (block_fifo st) = fs_trace st" "fs_pendingWrites (block_fifo st) = fs_pendingWrites st"
  "fs_ack (block_fifo st) = fs_ack st" "fs_rejected (block_fifo st) = fs_rejected st"
  "fs_tombs (block_fifo st) = fs_tombs st" "fs_fifoBlocked (block_fifo st) = True"
  by (simp_all add: block_fifo_def)

lemma rollback_if_sel [simp]:
  "fs_trace (rollback_if_recorded r st) = fs_trace st @ (case r of Some (RRecorded _ w) \<Rightarrow> [ERollbackWrite w] | _ \<Rightarrow> [])"
  "fs_pendingWrites (rollback_if_recorded r st) = fs_pendingWrites st" "fs_ack (rollback_if_recorded r st) = fs_ack st"
  "fs_rejected (rollback_if_recorded r st) = fs_rejected st" "fs_tombs (rollback_if_recorded r st) = fs_tombs st"
  by (simp_all add: rollback_if_recorded_def split: option.splits record_result.splits)

lemma rollbackOnce_sel [simp]:
  "fs_trace (rollbackOnce i st) = fs_trace st @ (if i \<in> set (fs_rolledBack st) then [] else [ERollbackOffer i])"
  "fs_pendingWrites (rollbackOnce i st) = fs_pendingWrites st" "fs_ack (rollbackOnce i st) = fs_ack st"
  "fs_rejected (rollbackOnce i st) = fs_rejected st" "fs_tombs (rollbackOnce i st) = fs_tombs st"
  "fs_deferredReleases (rollbackOnce i st) = fs_deferredReleases st"
  by (simp_all add: rollbackOnce_def)

text \<open>Adding to a writer only publishes frames and changes that writer.\<close>

lemma ack_add_sel:
  assumes "ack_add s st = (t, st')"
  shows "\<exists>r. add (Some s) (fs_ack st) = (r, fs_ack st') \<and> fs_trace st' = fs_trace st @ new_frames (fs_ack st) (fs_ack st') \<and>
    fs_pendingWrites st' = fs_pendingWrites st \<and> fs_rejected st' = fs_rejected st \<and> fs_tombs st' = fs_tombs st"
  using assms by (auto simp: ack_add_def Let_def split: prod.splits)

lemma rejected_add_sel:
  assumes "rejected_add s st = (t, st')"
  shows "\<exists>r. add (Some s) (fs_rejected st) = (r, fs_rejected st') \<and>
    fs_trace st' = fs_trace st @ new_frames (fs_rejected st) (fs_rejected st') \<and>
    fs_pendingWrites st' = fs_pendingWrites st \<and> fs_ack st' = fs_ack st \<and> fs_tombs st' = fs_tombs st"
  using assms by (auto simp: rejected_add_def Let_def split: prod.splits)

subsection \<open>Balance of writes\<close>

fun is_recorded :: "nat \<Rightarrow> flush_event \<Rightarrow> bool" where
  "is_recorded w (ERecord _ _ _ _ (Some (RRecorded _ v))) \<longleftrightarrow> v = w"
| "is_recorded w _ \<longleftrightarrow> False"

fun is_settlement :: "nat \<Rightarrow> flush_event \<Rightarrow> bool" where
  "is_settlement w (ECommitWrite v) \<longleftrightarrow> v = w"
| "is_settlement w (ERollbackWrite v) \<longleftrightarrow> v = w"
| "is_settlement w _ \<longleftrightarrow> False"

definition tally :: "(flush_event \<Rightarrow> bool) \<Rightarrow> flush_event list \<Rightarrow> int" where
  "tally p tr = int (length (filter p tr))"

lemma tally_simps [simp]:
  "tally p [] = 0" "tally p (e # tr) = (if p e then 1 else 0) + tally p tr" "tally p (tr @ es) = tally p tr + tally p es"
  by (simp_all add: tally_def)

lemma tally_frames [simp]: "tally (is_recorded w) (new_frames a b) = 0" "tally (is_settlement w) (new_frames a b) = 0"
  by (simp_all add: tally_def new_frames_def filter_empty_conv)

definition open_writes :: "nat \<Rightarrow> flush_state \<Rightarrow> int" where
  "open_writes w st =
     tally (is_recorded w) (fs_trace st) - tally (is_settlement w) (fs_trace st) - int (count_list (fs_pendingWrites st) w)"

lemma open_ack_add: "ack_add s st = (t, st') \<Longrightarrow> open_writes w st' = open_writes w st"
  using ack_add_sel[of s st t st'] by (auto simp: open_writes_def)

lemma open_rejected_add: "rejected_add s st = (t, st') \<Longrightarrow> open_writes w st' = open_writes w st"
  using rejected_add_sel[of s st t st'] by (auto simp: open_writes_def)

lemma open_flush_accepted: "flush_accepted key s i an st = (t, st') \<Longrightarrow> open_writes w st' = open_writes w st"
  by (auto simp: flush_accepted_def Let_def open_writes_def dest!: open_ack_add[where w = w]
      split: option.splits record_result.splits if_splits)

lemma open_flush_rejected: "flush_rejected key s i an st = (t, st') \<Longrightarrow> open_writes w st' = open_writes w st"
  by (auto simp: flush_rejected_def Let_def open_writes_def dest!: open_rejected_add[where w = w]
      split: option.splits record_result.splits durability.splits if_splits)

lemma open_flush_tombstoned: "flush_tombstoned a key s i an st = (t, st') \<Longrightarrow> open_writes w st' = open_writes w st"
  by (auto simp: flush_tombstoned_def Let_def open_writes_def split: option.splits record_result.splits if_splits)

lemma open_emit_plain: "tally (is_recorded w) es = 0 \<Longrightarrow> tally (is_settlement w) es = 0 \<Longrightarrow> open_writes w (emit es st) = open_writes w st"
  by (simp add: open_writes_def)

lemma open_release [simp]: "open_writes w (release_item i st) = open_writes w st" "open_writes w (block_fifo st) = open_writes w st"
  by (simp_all add: open_writes_def)

lemma open_flush_item: "flush_item a i it an st = (t, st') \<Longrightarrow> open_writes w st' = open_writes w st"
  by (auto simp: flush_item_def Let_def open_emit_plain
      dest!: open_flush_tombstoned[where w = w] open_flush_accepted[where w = w] open_flush_rejected[where w = w]
        open_ack_add[where w = w] open_rejected_add[where w = w]
      split: if_splits option.splits offer_answer.splits outcome_lookup.splits ingress_outcome.splits)

lemma open_flush_loop: "flush_loop a i items st = (t, st') \<Longrightarrow> open_writes w st' = open_writes w st"
proof (induction a i items st rule: flush_loop.induct)
  case (1 a i st)
  then show ?case by simp
next
  case (2 a i it an rest st)
  obtain t1 st1 where f: "flush_item a i it an st = (t1, st1)" by fastforce
  show ?case using 2 f open_flush_item[OF f, of w] by (cases t1) auto
qed

lemma rollback_fold_sel:
  "\<exists>es. fs_trace (fold rollbackOnce is st) = fs_trace st @ es \<and> set es \<subseteq> ERollbackOffer ` set is"
  "fs_pendingWrites (fold rollbackOnce is st) = fs_pendingWrites st"
  "fs_deferredReleases (fold rollbackOnce is st) = fs_deferredReleases st"
proof -
  show "\<exists>es. fs_trace (fold rollbackOnce is st) = fs_trace st @ es \<and> set es \<subseteq> ERollbackOffer ` set is"
  proof (induction "is" arbitrary: st)
    case Nil
    then show ?case by simp
  next
    case (Cons i "is")
    obtain es where es: "fs_trace (fold rollbackOnce is (rollbackOnce i st)) = fs_trace (rollbackOnce i st) @ es"
        "set es \<subseteq> ERollbackOffer ` set is" using Cons by blast
    then show ?case
      by (intro exI[of _ "(if i \<in> set (fs_rolledBack st) then [] else [ERollbackOffer i]) @ es"]) auto
  qed
  show "fs_pendingWrites (fold rollbackOnce is st) = fs_pendingWrites st"
    "fs_deferredReleases (fold rollbackOnce is st) = fs_deferredReleases st"
    by (induction "is" arbitrary: st) simp_all
qed

lemma tally_none: "(\<And>e. e \<in> set es \<Longrightarrow> \<not> p e) \<Longrightarrow> tally p es = 0"
  by (simp add: tally_def filter_empty_conv)

lemma tally_settle_all:
  "tally (is_settlement w) (map ERollbackWrite ws) = int (count_list ws w)"
  "tally (is_settlement w) (map ECommitWrite ws) = int (count_list ws w)"
  by (induction ws) auto

lemma tally_plain [simp]:
  "tally (is_recorded w) (map ERelease is) = 0" "tally (is_settlement w) (map ERelease is) = 0"
  "tally (is_recorded w) (map ECommitOffer is) = 0" "tally (is_settlement w) (map ECommitOffer is) = 0"
  "tally (is_recorded w) (map ERollbackWrite is) = 0" "tally (is_recorded w) (map ECommitWrite is) = 0"
  by (simp_all add: tally_def filter_empty_conv)

lemma rollback_rest_tally:
  "tally (is_recorded w) (fs_trace (rollback_offers_and_release st)) = tally (is_recorded w) (fs_trace st) \<and>
   tally (is_settlement w) (fs_trace (rollback_offers_and_release st)) = tally (is_settlement w) (fs_trace st)"
proof -
  obtain es where es: "fs_trace (fold rollbackOnce (fs_rollbackOffers st) st) = fs_trace st @ es"
      "set es \<subseteq> ERollbackOffer ` set (fs_rollbackOffers st)" using rollback_fold_sel(1) by blast
  have "tally (is_recorded w) es = 0" "tally (is_settlement w) es = 0" using es(2) by (auto intro!: tally_none)
  then show ?thesis using es(1) by (simp add: rollback_offers_and_release_def)
qed

section \<open>Properties\<close>

text \<open>C23: A flush settles every write it obtained exactly once. However the items are
  answered, whether the batch is published, invalidated or thrown out of the loop, each
  receipt the outcome store handed out is committed or rolled back as many times as it was
  handed out, so no key's turn stays blocked behind a flush.\<close>

theorem flush_settles_writes:
  "tally (is_recorded w) (fs_trace (ingressOnFlush a active ack rej items invalidated tb)) =
   tally (is_settlement w) (fs_trace (ingressOnFlush a active ack rej items invalidated tb))"
proof -
  let ?s0 = "emit [EBeginBatch] (flush_start ack rej tb)"
  obtain t st where l: "flush_loop a 0 items ?s0 = (t, st)" by fastforce
  have "open_writes w ?s0 = 0" by (simp add: open_writes_def flush_start_def)
  then have o: "open_writes w st = 0" using open_flush_loop[OF l, of w] by simp
  have rb: "tally (is_recorded w) (fs_trace (rollbackWrites st)) = tally (is_settlement w) (fs_trace (rollbackWrites st))"
    using o by (simp add: rollbackWrites_def open_writes_def tally_settle_all)
  have "tally (is_recorded w) (fs_trace (flush_footer invalidated st)) = tally (is_settlement w) (fs_trace (flush_footer invalidated st))"
    using o rb rollback_rest_tally[of w "emit [EWaitCancellation] (rollbackWrites st)"]
    by (simp add: flush_footer_def Let_def open_writes_def tally_settle_all)
  then show ?thesis using l rb rollback_rest_tally[of w "rollbackWrites st"]
    by (cases t) (simp_all add: ingressOnFlush_def flush_start_def)
qed

subsection \<open>The FIFO barrier\<close>

lemma flush_loop_blocked:
  "fs_fifoBlocked st \<Longrightarrow> flush_loop a i items st = (False, emit (map ERelease [i..<i + length items]) st)"
proof (induction items arbitrary: i st)
  case Nil
  then show ?case by (simp add: emit_def)
next
  case (Cons x items)
  obtain it an where x: "x = (it, an)" by (cases x)
  have "flush_item a i it an st = (False, release_item i st)" using Cons.prems by (simp add: flush_item_def)
  moreover have u: "[i..<i + length (x # items)] = i # [Suc i..<Suc i + length items]"
    by (subst upt_conv_Cons) auto
  moreover have "flush_loop a (Suc i) items (release_item i st) =
      (False, emit (map ERelease [Suc i..<Suc i + length items]) (release_item i st))"
    using Cons.prems by (intro Cons.IH) simp
  ultimately have "flush_loop a i (x # items) st = (False, emit (map ERelease [Suc i..<Suc i + length items]) (release_item i st))"
    unfolding x by (subst flush_loop.simps) simp
  then show ?case unfolding u by (simp add: release_item_def emit_def)
qed

lemma flush_loop_append:
  "flush_loop a i (xs @ ys) st = (case flush_loop a i xs st of (True, st') \<Rightarrow> (True, st') | (False, st') \<Rightarrow> flush_loop a (i + length xs) ys st')"
proof (induction a i xs st rule: flush_loop.induct)
  case (1 a i st)
  then show ?case by simp
next
  case (2 a i it an rest st)
  obtain t1 st1 where f: "flush_item a i it an st = (t1, st1)" by fastforce
  have "Suc i + length rest = i + length ((it, an) # rest)" by simp
  then show ?case using 2[OF f[symmetric]] f by (cases t1) (simp_all split: prod.splits bool.splits)
qed

text \<open>An item whose classification stayed open when it was reached: the lifecycle ended, or
  its lookup or record is unknown.\<close>

definition unresolved :: "string \<Rightarrow> 'm ingress_item \<Rightarrow> flush_answer \<Rightarrow> tombstones \<Rightarrow> bool" where
  "unresolved a it an tb \<longleftrightarrow>
     \<not> an_active an \<or>
     (\<exists>key. ingressDedupeKey it = Some key \<and>
        (if tomb_has key (Some a) tb then \<not> an_activeRecord an \<or> an_record an \<in> {None, Some RUnknown}
         else \<not> an_activeLookup an \<or> an_lookup an \<in> {None, Some LUnknown} \<or>
              (an_lookup an = Some LNotFound \<and> an_offer an \<in> {AnsAccepted, AnsRejected} \<and>
               (\<not> an_activeRecord an \<or> an_record an \<in> {None, Some RUnknown}))))"

lemma unresolved_blocks:
  assumes "unresolved a it an (fs_tombs st)" "flush_item a i it an st = (t, st')"
  shows "\<not> t \<and> fs_fifoBlocked st'"
proof (cases "fs_fifoBlocked st")
  case True
  then show ?thesis using assms(2) by (auto simp: flush_item_def)
next
  case False
  show ?thesis using assms False
    by (auto simp: unresolved_def flush_parts Let_def split: if_splits option.splits outcome_lookup.splits ingress_outcome.splits)
qed

text \<open>C24: The first unresolved item is a barrier for the whole rest of its batch. Once an
  item's lifecycle ends or its outcome cannot be determined, every later item of the flush
  is only released: no lookup, no offer, no record, no result and no dispatch happens for
  it, so a retry keeps the peer's order.\<close>

theorem flush_fifo_barrier:
  assumes "flush_loop a i pre st = (False, st1)" and "unresolved a it an (fs_tombs st1)"
  shows "\<exists>st2. flush_item a (i + length pre) it an st1 = (False, st2) \<and>
     flush_loop a i (pre @ (it, an) # post) st =
       (False, emit (map ERelease [i + length pre + 1..<i + length pre + 1 + length post]) st2)"
proof -
  obtain t st2 where f: "flush_item a (i + length pre) it an st1 = (t, st2)" by fastforce
  have b: "\<not> t" "fs_fifoBlocked st2" using unresolved_blocks[OF assms(2) f] by simp_all
  show ?thesis using f b flush_loop_blocked[OF b(2), of a "Suc (i + length pre)" post] assms(1)
    by (simp add: flush_loop_append)
qed


definition demo_answer :: flush_answer where
  "demo_answer = \<lparr>an_active = True, an_lookup = Some LNotFound, an_activeLookup = True, an_offer = AnsAccepted,
     an_record = Some (RRecorded Durable 7), an_activeRecord = True, an_sendAck = True\<rparr>"

definition demo_item :: "string \<Rightarrow> unit ingress_item" where
  "demo_item s = \<lparr>it_peerId = ''p'', it_id = StrId s, it_message = ()\<rparr>"

definition demo_start :: flush_state where
  "demo_start = flush_start demo_writer (demo_writer\<lparr>w_type := RejectedType\<rparr>) (new_tombstones 4 4096)"

theorem flush_fifo_barrier_witness:
  "\<exists>st2. flush_item ''a'' 0 (demo_item ''x'') (demo_answer\<lparr>an_lookup := None\<rparr>) demo_start = (False, st2) \<and>
     flush_loop ''a'' 0 [(demo_item ''x'', demo_answer\<lparr>an_lookup := None\<rparr>), (demo_item ''y'', demo_answer)] demo_start =
       (False, emit [ERelease 1] st2)"
proof -
  have 1: "flush_loop ''a'' 0 ([] :: (unit ingress_item \<times> flush_answer) list) demo_start = (False, demo_start)" by simp
  have "ingressDedupeKey (demo_item ''x'') = Some ''p:x''"
    by (simp add: ingressDedupeKey_def demo_item_def MAX_INGRESS_DEDUPE_ID_LENGTH_def)
  then have 2: "unresolved ''a'' (demo_item ''x'') (demo_answer\<lparr>an_lookup := None\<rparr>) (fs_tombs demo_start)"
    by (simp add: unresolved_def demo_start_def flush_start_def tomb_has_def new_tombstones_def)
  show ?thesis using flush_fifo_barrier[OF 1 2, of "[(demo_item ''y'', demo_answer)]"] by simp
qed

subsection \<open>Offers\<close>

definition offer_accepted :: "nat \<Rightarrow> flush_event \<Rightarrow> bool" where
  "offer_accepted i e \<longleftrightarrow> e = EOffer i AnsAccepted"

definition offer_settled :: "nat \<Rightarrow> flush_event \<Rightarrow> bool" where
  "offer_settled i e \<longleftrightarrow> e = ECommitOffer i \<or> e = ERollbackOffer i"

lemma offer_sel [simp]:
  "offer_accepted i (EOffer j b) \<longleftrightarrow> j = i \<and> b = AnsAccepted" "offer_settled i (ECommitOffer j) \<longleftrightarrow> j = i"
  "offer_settled i (ERollbackOffer j) \<longleftrightarrow> j = i"
  "\<not> offer_accepted i (ECommitOffer j)" "\<not> offer_accepted i (ERollbackOffer j)" "\<not> offer_settled i (EOffer j b)"
  "\<not> offer_accepted i (ERecord j k oc r x)" "\<not> offer_settled i (ERecord j k oc r x)"
  "\<not> offer_accepted i (ELookup j k l)" "\<not> offer_settled i (ELookup j k l)"
  "\<not> offer_accepted i (ERelease j)" "\<not> offer_settled i (ERelease j)"
  "\<not> offer_accepted i (ERollbackWrite w)" "\<not> offer_settled i (ERollbackWrite w)"
  "\<not> offer_accepted i (ECommitWrite w)" "\<not> offer_settled i (ECommitWrite w)"
  "\<not> offer_accepted i (ESendAck s)" "\<not> offer_settled i (ESendAck s)"
  "\<not> offer_accepted i EBeginBatch" "\<not> offer_settled i EBeginBatch" "\<not> offer_accepted i EFinishLease" "\<not> offer_settled i EFinishLease"
  "\<not> offer_accepted i EWaitCancellation" "\<not> offer_settled i EWaitCancellation"
  by (auto simp: offer_accepted_def offer_settled_def)

lemma offer_frames [simp]:
  "tally (offer_accepted i) (new_frames a b) = 0" "tally (offer_settled i) (new_frames a b) = 0"
  by (simp_all add: tally_def new_frames_def filter_empty_conv offer_accepted_def offer_settled_def)

lemma offer_maps [simp]:
  "tally (offer_accepted i) (map ERelease js) = 0" "tally (offer_settled i) (map ERelease js) = 0"
  "tally (offer_accepted i) (map ERollbackWrite js) = 0" "tally (offer_settled i) (map ERollbackWrite js) = 0"
  "tally (offer_accepted i) (map ECommitWrite js) = 0" "tally (offer_settled i) (map ECommitWrite js) = 0"
  "tally (offer_accepted i) (map ECommitOffer js) = 0" "tally (offer_settled i) (map ECommitOffer js) = int (count_list js i)"
  by (induction js) (simp_all)

text \<open>
  Between two items of the loop: an accepted offer of an earlier item is either settled
  already or on the rollback list exactly once; one that will be committed is on both
  lists.
\<close>

definition offers_inv :: "nat \<Rightarrow> flush_state \<Rightarrow> bool" where
  "offers_inv n st \<longleftrightarrow>
     distinct (fs_rollbackOffers st) \<and> distinct (fs_commitOffers st) \<and> distinct (fs_rolledBack st) \<and>
     set (fs_commitOffers st) \<subseteq> set (fs_rollbackOffers st) - set (fs_rolledBack st) \<and>
     set (fs_rolledBack st) \<subseteq> set (fs_rollbackOffers st) \<and> set (fs_rollbackOffers st) \<subseteq> {..<n} \<and>
     (\<forall>i. tally (offer_accepted i) (fs_trace st) \<le> 1 \<and>
          (tally (offer_accepted i) (fs_trace st) = 1 \<longrightarrow> i < n) \<and>
          tally (offer_settled i) (fs_trace st) =
            tally (offer_accepted i) (fs_trace st) - (if i \<in> set (fs_rollbackOffers st) - set (fs_rolledBack st) then 1 else 0))"


text \<open>The part of a state the offers are about.\<close>

definition same_offers :: "flush_state \<Rightarrow> flush_state \<Rightarrow> bool" where
  "same_offers st st' \<longleftrightarrow>
     fs_rollbackOffers st' = fs_rollbackOffers st \<and> fs_commitOffers st' = fs_commitOffers st \<and>
     fs_rolledBack st' = fs_rolledBack st \<and>
     (\<forall>i. tally (offer_accepted i) (fs_trace st') = tally (offer_accepted i) (fs_trace st) \<and>
          tally (offer_settled i) (fs_trace st') = tally (offer_settled i) (fs_trace st))"

definition commits_all :: "flush_state \<Rightarrow> bool" where
  "commits_all st \<longleftrightarrow> set (fs_commitOffers st) = set (fs_rollbackOffers st) - set (fs_rolledBack st)"

lemma same_offers_inv: "same_offers st st' \<Longrightarrow> offers_inv n st' = offers_inv n st \<and> commits_all st' = commits_all st"
  by (simp add: same_offers_def offers_inv_def commits_all_def)

lemma same_offers_refl [simp]: "same_offers st st"
  by (simp add: same_offers_def)

lemma same_offers_trans: "same_offers st st' \<Longrightarrow> same_offers st' st'' \<Longrightarrow> same_offers st st''"
  by (simp add: same_offers_def)

lemma same_offers_emit:
  "(\<And>i. tally (offer_accepted i) es = 0 \<and> tally (offer_settled i) es = 0) \<Longrightarrow> same_offers st st' \<Longrightarrow> same_offers st (emit es st')"
  by (simp add: same_offers_def)

lemma same_offers_steps [simp]:
  "same_offers st (release_item i st') = same_offers st st'" "same_offers st (block_fifo st') = same_offers st st'"
  "same_offers st (rollback_if_recorded r st') = same_offers st st'"
  by (auto simp: same_offers_def release_item_def block_fifo_def rollback_if_recorded_def split: option.splits record_result.splits)

lemma same_offers_ack_add: "ack_add s st = (t, st') \<Longrightarrow> same_offers st st'"
  by (auto simp: ack_add_def Let_def same_offers_def split: prod.splits)

lemma same_offers_rejected_add: "rejected_add s st = (t, st') \<Longrightarrow> same_offers st st'"
  by (auto simp: rejected_add_def Let_def same_offers_def split: prod.splits)

lemma same_offers_tombstoned: "flush_tombstoned a key s i an st = (t, st') \<Longrightarrow> same_offers st st'"
  by (auto simp: flush_tombstoned_def Let_def intro!: same_offers_emit split: option.splits record_result.splits if_splits)
     (simp_all add: same_offers_def release_item_def emit_def)

lemma same_offers_rejected: "flush_rejected key s i an st = (t, st') \<Longrightarrow> same_offers st st'"
  by (auto simp: flush_rejected_def Let_def intro!: same_offers_emit dest!: same_offers_rejected_add
      split: option.splits record_result.splits durability.splits if_splits)
     (simp_all add: same_offers_def)

lemma offers_inv_mono: "offers_inv n st \<Longrightarrow> offers_inv (Suc n) st"
  by (auto simp: offers_inv_def less_Suc_eq)

text \<open>The three ways an offered item changes the lists.\<close>

lemma offers_accept_settle:
  assumes "offers_inv n st"
  shows "offers_inv (Suc n) (emit [EOffer n AnsAccepted, ECommitOffer n] st)"
    and "commits_all (emit [EOffer n AnsAccepted, ECommitOffer n] st) = commits_all st"
proof -
  have "tally (offer_accepted n) (fs_trace st) \<noteq> 1" "n \<notin> set (fs_rollbackOffers st)"
    using assms by (auto simp: offers_inv_def)
  moreover have "tally (offer_accepted n) (fs_trace st) \<ge> 0" by (simp add: tally_def)
  moreover have "tally (offer_accepted n) (fs_trace st) \<le> 1" using assms by (simp add: offers_inv_def)
  ultimately have "tally (offer_accepted n) (fs_trace st) = 0" "n \<notin> set (fs_rollbackOffers st)" by linarith+
  then show "offers_inv (Suc n) (emit [EOffer n AnsAccepted, ECommitOffer n] st)"
    using assms by (auto simp: offers_inv_def less_Suc_eq)
  show "commits_all (emit [EOffer n AnsAccepted, ECommitOffer n] st) = commits_all st"
    by (simp add: commits_all_def)
qed

lemma offers_accept_push:
  assumes "offers_inv n st"
  shows "offers_inv (Suc n) (emit [EOffer n AnsAccepted] st\<lparr>fs_rollbackOffers := fs_rollbackOffers st @ [n]\<rparr>)"
    and "offers_inv (Suc n) (emit [EOffer n AnsAccepted] st
      \<lparr>fs_rollbackOffers := fs_rollbackOffers st @ [n], fs_commitOffers := fs_commitOffers st @ [n]\<rparr>)"
    and "offers_inv (Suc n) (rollbackOnce n (emit [EOffer n AnsAccepted] st\<lparr>fs_rollbackOffers := fs_rollbackOffers st @ [n]\<rparr>))"
proof -
  have b: "tally (offer_accepted n) (fs_trace st) \<noteq> 1" "n \<notin> set (fs_rollbackOffers st)"
    "n \<notin> set (fs_commitOffers st)" "n \<notin> set (fs_rolledBack st)"
    "tally (offer_accepted n) (fs_trace st) \<ge> 0" "tally (offer_accepted n) (fs_trace st) \<le> 1"
    using assms by (auto simp: offers_inv_def tally_def)
  then have z: "tally (offer_accepted n) (fs_trace st) = 0" by linarith
  show "offers_inv (Suc n) (emit [EOffer n AnsAccepted] st\<lparr>fs_rollbackOffers := fs_rollbackOffers st @ [n]\<rparr>)"
    using assms b z by (auto simp: offers_inv_def less_Suc_eq emit_def)
  show "offers_inv (Suc n) (emit [EOffer n AnsAccepted] st
      \<lparr>fs_rollbackOffers := fs_rollbackOffers st @ [n], fs_commitOffers := fs_commitOffers st @ [n]\<rparr>)"
    using assms b z by (auto simp: offers_inv_def less_Suc_eq emit_def)
  show "offers_inv (Suc n) (rollbackOnce n (emit [EOffer n AnsAccepted] st\<lparr>fs_rollbackOffers := fs_rollbackOffers st @ [n]\<rparr>))"
    using assms b z by (auto simp: offers_inv_def less_Suc_eq emit_def rollbackOnce_def)
qed


lemma offers_accepted_step:
  assumes inv: "offers_inv i st" and fa: "flush_accepted key s i an (emit [EOffer i AnsAccepted] st) = (t, st')"
  shows "offers_inv (Suc i) st' \<and> (commits_all st \<longrightarrow> an_activeRecord an \<longrightarrow> commits_all st')"
proof -
  let ?p = "emit [EOffer i AnsAccepted] st\<lparr>fs_rollbackOffers := fs_rollbackOffers st @ [i]\<rparr>"
  let ?q = "?p\<lparr>fs_commitOffers := fs_commitOffers st @ [i]\<rparr>"
  have fresh: "i \<notin> set (fs_rollbackOffers st)" "i \<notin> set (fs_rolledBack st)" using inv by (auto simp: offers_inv_def)
  consider (ended) "\<not> an_activeRecord an" | (ok) d w where "an_activeRecord an" "an_record an = Some (RRecorded d w)"
    | (unknown) "an_activeRecord an" "an_record an = None \<or> an_record an = Some RUnknown"
    using record_result.exhaust by (metis option.exhaust)
  then show ?thesis
  proof cases
    case ended
    then have "same_offers ?p st'" using fa
      by (auto simp: flush_accepted_def Let_def same_offers_def block_fifo_def)
         (simp_all add: emit_def rollback_if_recorded_def split: option.splits record_result.splits)
    then show ?thesis using same_offers_inv offers_accept_push(1)[OF inv] ended by blast
  next
    case ok
    let ?r = "emit [ERecord i key OAccepted False (an_record an)] ?p
      \<lparr>fs_pendingWrites := fs_pendingWrites st @ [w], fs_commitOffers := fs_commitOffers st @ [i]\<rparr>"
    have "ack_add s ?r = (t, st')" using fa ok by (simp add: flush_accepted_def Let_def)
    moreover have "same_offers ?q ?r" by (simp add: same_offers_def)
    ultimately have so: "same_offers ?q st'" using same_offers_ack_add same_offers_trans by blast
    have "commits_all st \<longrightarrow> commits_all ?q" using fresh by (auto simp: commits_all_def)
    then show ?thesis using same_offers_inv[OF so] offers_accept_push(2)[OF inv] by simp
  next
    case unknown
    then have so: "same_offers (rollbackOnce i ?p) st'" using fa fresh
      by (auto simp: flush_accepted_def Let_def same_offers_def block_fifo_def rollbackOnce_def)
    have "commits_all st \<longrightarrow> commits_all (rollbackOnce i ?p)" using fresh by (auto simp: commits_all_def rollbackOnce_def emit_def)
    then show ?thesis using same_offers_inv[OF so] offers_accept_push(3)[OF inv] by simp
  qed
qed

lemma same_offers_left [simp]:
  "same_offers (release_item i st) st' = same_offers st st'"
  "same_offers (emit [ELookup i k l] st) st' = same_offers st st'"
  "same_offers st (emit [ELookup i k l] st') = same_offers st st'"
  "b \<noteq> AnsAccepted \<Longrightarrow> same_offers (emit [EOffer i b] st) st' = same_offers st st'"
  "b \<noteq> AnsAccepted \<Longrightarrow> same_offers st (emit [EOffer i b] st') = same_offers st st'"
  by (auto simp: same_offers_def release_item_def)

lemma offers_item_keyed:
  assumes f: "flush_item a i it an st = (t, st')" and k: "ingressDedupeKey it = Some key"
    and live: "\<not> fs_fifoBlocked st" "an_active an" and nt: "\<not> tomb_has key (Some a) (fs_tombs st)"
  shows "same_offers st st' \<or>
    (\<exists>key s st1. same_offers st st1 \<and> flush_accepted key s i an (emit [EOffer i AnsAccepted] st1) = (t, st'))"
proof -
  define ex where "ex = (case an_lookup an of Some r \<Rightarrow> r | None \<Rightarrow> LUnknown)"
  define s where "s = (case it_id it of StrId s \<Rightarrow> s | _ \<Rightarrow> [])"
  let ?st1 = "emit [ELookup i key ex] st"
  note e = f[unfolded flush_item_def Let_def, simplified k live nt ex_def[symmetric] s_def[symmetric] option.case if_True if_False not_True_eq_False]
  consider "\<not> an_activeLookup an \<or> ex = LUnknown" | x where "an_activeLookup an" "ex = LFound x"
    | "an_activeLookup an" "ex = LNotFound" by (cases ex) auto
  then show ?thesis
  proof cases
    case 1
    then show ?thesis using e by auto
  next
    case (2 x)
    then show ?thesis using e
      by (cases x) (auto dest!: same_offers_ack_add same_offers_rejected_add)
  next
    case 3
    show ?thesis
    proof (cases "an_offer an")
      case AnsAccepted
      then show ?thesis using e 3 by (intro disjI2 exI[of _ key] exI[of _ s] exI[of _ ?st1]) simp
    next
      case AnsRejected
      then show ?thesis using e 3 by (auto dest!: same_offers_rejected)
    qed (use e 3 in auto)
  qed
qed

lemma emit_emit: "emit es' (emit es st) = emit (es @ es') st"
  by (simp add: emit_def)

lemma offers_item_step:
  assumes inv: "offers_inv i st" and f: "flush_item a i it an st = (t, st')"
  shows "offers_inv (Suc i) st' \<and> (commits_all st \<longrightarrow> an_activeRecord an \<longrightarrow> commits_all st')"
proof -
  have plain: ?thesis if "same_offers st st'" using same_offers_inv[OF that] offers_inv_mono[OF inv] by blast
  consider (skip) "fs_fifoBlocked st \<or> \<not> an_active an"
    | (idless) "\<not> fs_fifoBlocked st" "an_active an" "ingressDedupeKey it = None"
    | (tomb) key where "\<not> fs_fifoBlocked st" "an_active an" "ingressDedupeKey it = Some key" "tomb_has key (Some a) (fs_tombs st)"
    | (keyed) key where "\<not> fs_fifoBlocked st" "an_active an" "ingressDedupeKey it = Some key" "\<not> tomb_has key (Some a) (fs_tombs st)"
    by (cases "ingressDedupeKey it") auto
  then show ?thesis
  proof cases
    case skip
    then show ?thesis using f by (intro plain) (auto simp: flush_item_def split: if_splits)
  next
    case idless
    have "same_offers st st' \<or> st' = emit [EOffer i AnsAccepted, ECommitOffer i] st"
      using f idless by (cases "an_offer an") (auto simp: flush_item_def Let_def emit_emit)
    then show ?thesis using plain offers_accept_settle[OF inv] by auto
  next
    case (tomb key)
    then show ?thesis using f by (intro plain) (auto simp: flush_item_def Let_def dest!: same_offers_tombstoned)
  next
    case (keyed key)
    then consider "same_offers st st'" | key s st1 where "same_offers st st1" "flush_accepted key s i an (emit [EOffer i AnsAccepted] st1) = (t, st')"
      using offers_item_keyed[OF f] by blast
    then show ?thesis
    proof cases
      case 2
      then show ?thesis using same_offers_inv[OF 2(1)] inv offers_accepted_step[OF _ 2(2)] by blast
    qed (rule plain)
  qed
qed

lemma offers_loop:
  "flush_loop a i items st = (t, st') \<Longrightarrow> offers_inv i st \<Longrightarrow>
   (\<exists>n. offers_inv n st') \<and> (commits_all st \<longrightarrow> (\<forall>x\<in>set items. an_activeRecord (snd x)) \<longrightarrow> commits_all st')"
proof (induction a i items st rule: flush_loop.induct)
  case (1 a i st)
  then show ?case by auto
next
  case (2 a i it an rest st)
  obtain t1 st1 where f: "flush_item a i it an st = (t1, st1)" by fastforce
  note s = offers_item_step[OF "2.prems"(2) f]
  show ?case
  proof (cases t1)
    case True
    then show ?thesis using 2 f s by auto
  next
    case False
    then show ?thesis using 2 f s by auto
  qed
qed

lemma rollback_fold_offers:
  "tally (offer_settled i) (fs_trace (fold rollbackOnce js st)) =
     tally (offer_settled i) (fs_trace st) + (if i \<in> set js - set (fs_rolledBack st) then 1 else 0) \<and>
   tally (offer_accepted i) (fs_trace (fold rollbackOnce js st)) = tally (offer_accepted i) (fs_trace st)"
proof (induction js arbitrary: st)
  case Nil
  then show ?case by simp
next
  case (Cons j js)
  have "set (fs_rolledBack (rollbackOnce j st)) = insert j (set (fs_rolledBack st))" by (auto simp: rollbackOnce_def)
  then show ?case using Cons[of "rollbackOnce j st"] by auto
qed

lemma rollback_settles:
  assumes "offers_inv n st"
  shows "tally (offer_settled i) (fs_trace (rollback_offers_and_release st)) =
    tally (offer_accepted i) (fs_trace (rollback_offers_and_release st))"
  using assms rollback_fold_offers[of i "fs_rollbackOffers st" st]
  by (simp add: rollback_offers_and_release_def offers_inv_def)

text \<open>C5: Every offer the dispatcher lease accepted is settled exactly once. Whatever the
  storage answers and whether the batch publishes, is invalidated or throws, each accepted
  offer ends in exactly one commit or one rollback, so admission capacity is neither leaked
  nor given back twice. (A lifecycle that ended during a record is still ended when the
  batch is checked for invalidation.)\<close>

theorem flush_settles_offers:
  assumes "\<forall>x\<in>set items. \<not> an_activeRecord (snd x) \<longrightarrow> invalidated"
  shows "tally (offer_settled i) (fs_trace (ingressOnFlush a active ack rej items invalidated tb)) =
    tally (offer_accepted i) (fs_trace (ingressOnFlush a active ack rej items invalidated tb))"
proof -
  let ?s0 = "emit [EBeginBatch] (flush_start ack rej tb)"
  obtain t st where l: "flush_loop a 0 items ?s0 = (t, st)" by fastforce
  have "offers_inv 0 ?s0" "commits_all ?s0" by (simp_all add: offers_inv_def flush_start_def commits_all_def)
  then obtain n where n: "offers_inv n st" and c: "(\<forall>x\<in>set items. an_activeRecord (snd x)) \<longrightarrow> commits_all st"
    using offers_loop[OF l] by blast
  have rw: "same_offers st (rollbackWrites st)" "same_offers st (emit [EWaitCancellation] (rollbackWrites st))"
    by (simp_all add: rollbackWrites_def same_offers_def)
  note settled = rollback_settles[of n "rollbackWrites st" i] rollback_settles[of n "emit [EWaitCancellation] (rollbackWrites st)" i]
  have pub: "tally (offer_settled i) (fs_trace st) + int (count_list (fs_commitOffers st) i) = tally (offer_accepted i) (fs_trace st)"
    if "\<not> invalidated"
  proof -
    have "commits_all st" using c that assms by blast
    then show ?thesis using n by (auto simp: offers_inv_def commits_all_def distinct_count_list count_list_0_iff)
  qed
  have foot: "tally (offer_settled i) (fs_trace (flush_footer invalidated st)) = tally (offer_accepted i) (fs_trace (flush_footer invalidated st))"
    using pub settled n same_offers_inv[OF rw(2)] by (simp add: flush_footer_def Let_def)
  then show ?thesis using l n settled same_offers_inv[OF rw(1)]
    by (cases t) (simp_all add: ingressOnFlush_def flush_start_def)
qed

theorem flush_settles_offers_witness:
  "tally (offer_settled 0) (fs_trace (ingressOnFlush ''a'' True demo_writer demo_writer
      [(demo_item ''x'', demo_answer), (demo_item ''y'', demo_answer\<lparr>an_activeRecord := False\<rparr>)] True (new_tombstones 4 4096))) =
    tally (offer_accepted 0) (fs_trace (ingressOnFlush ''a'' True demo_writer demo_writer
      [(demo_item ''x'', demo_answer), (demo_item ''y'', demo_answer\<lparr>an_activeRecord := False\<rparr>)] True (new_tombstones 4 4096)))"
  by (rule flush_settles_offers) simp


subsection \<open>Authority of published results\<close>

fun grants :: "(nat \<Rightarrow> string option) \<Rightarrow> ingress_outcome \<Rightarrow> string \<Rightarrow> flush_event \<Rightarrow> bool" where
  "grants idOf oc s (ELookup i key l) \<longleftrightarrow> idOf i = Some s \<and> l = LFound oc"
| "grants idOf oc s (ERecord i key oc' repl (Some (RRecorded d w))) \<longleftrightarrow>
     idOf i = Some s \<and> oc' = oc \<and> \<not> repl \<and> (oc = OOverloaded \<longrightarrow> d = Durable)"
| "grants idOf oc s _ \<longleftrightarrow> False"

fun frame_outcome :: "result_frame \<Rightarrow> ingress_outcome" where
  "frame_outcome (Ack _) = OAccepted"
| "frame_outcome (InboundRejected _) = OOverloaded"

text \<open>Every published frame carries only ids an earlier event of the trace grants.\<close>

fun publishes_backed :: "(nat \<Rightarrow> string option) \<Rightarrow> flush_event list \<Rightarrow> flush_event list \<Rightarrow> bool" where
  "publishes_backed idOf pre [] \<longleftrightarrow> True"
| "publishes_backed idOf pre (e # es) \<longleftrightarrow>
     (case e of
        EPublish f \<Rightarrow> list_all (\<lambda>s. list_ex (grants idOf (frame_outcome f) s) pre) (frame_ids f)
      | _ \<Rightarrow> True) \<and> publishes_backed idOf (pre @ [e]) es"

lemma publishes_backed_append:
  "publishes_backed idOf pre (es @ fs) \<longleftrightarrow> publishes_backed idOf pre es \<and> publishes_backed idOf (pre @ es) fs"
  by (induction es arbitrary: pre) auto

fun publishes :: "flush_event \<Rightarrow> bool" where
  "publishes (EPublish f) \<longleftrightarrow> True"
| "publishes _ \<longleftrightarrow> False"

lemma publishes_backed_plain: "\<not> list_ex publishes es \<Longrightarrow> publishes_backed idOf pre es"
  by (induction es arbitrary: pre) (auto split: flush_event.splits)

lemma publishes_backed_frames:
  "(\<And>f s. f \<in> set fs \<Longrightarrow> s \<in> set (frame_ids f) \<Longrightarrow> list_ex (grants idOf (frame_outcome f) s) pre) \<Longrightarrow>
   publishes_backed idOf pre (map EPublish fs)"
proof (induction fs arbitrary: pre)
  case Nil
  then show ?case by simp
next
  case (Cons f fs)
  have "publishes_backed idOf (pre @ [EPublish f]) (map EPublish fs)" using Cons.prems by (intro Cons.IH) auto
  then show ?case using Cons.prems by (auto simp: list_all_iff)
qed

definition writer_backed :: "(nat \<Rightarrow> string option) \<Rightarrow> frame_type \<Rightarrow> ingress_outcome \<Rightarrow> flush_event list \<Rightarrow> chunk_writer \<Rightarrow> bool" where
  "writer_backed idOf ty oc tr w \<longleftrightarrow>
     writer_inv w \<and> w_type w = ty \<and> (\<forall>s\<in>set (streamed w). list_ex (grants idOf oc s) tr)"

definition backed :: "(nat \<Rightarrow> string option) \<Rightarrow> flush_state \<Rightarrow> bool" where
  "backed idOf st \<longleftrightarrow>
     writer_backed idOf AckType OAccepted (fs_trace st) (fs_ack st) \<and>
     writer_backed idOf RejectedType OOverloaded (fs_trace st) (fs_rejected st) \<and>
     publishes_backed idOf [] (fs_trace st)"

lemma writer_backed_mono: "writer_backed idOf ty oc tr w \<Longrightarrow> writer_backed idOf ty oc (tr @ es) w"
  by (auto simp: writer_backed_def)

lemma frame_outcome_of:
  "frame_ok w f \<Longrightarrow> frame_outcome f = (case w_type w of AckType \<Rightarrow> OAccepted | RejectedType \<Rightarrow> OOverloaded)"
  by (cases f) (auto simp: frame_ok_def frameFor_def split: frame_type.splits)

text \<open>The frames of a backed writer are backed.\<close>

lemma writer_frames_backed:
  assumes "writer_backed idOf ty oc tr w'" "oc = (case ty of AckType \<Rightarrow> OAccepted | RejectedType \<Rightarrow> OOverloaded)"
  shows "publishes_backed idOf tr (new_frames w w')"
  unfolding new_frames_def
proof (rule publishes_backed_frames)
  fix f s
  assume f: "f \<in> set (drop (length (w_published w)) (w_published w'))" and s: "s \<in> set (frame_ids f)"
  have f': "f \<in> set (w_published w')" using f by (rule in_set_dropD)
  then have "frame_ok w' f" using assms(1) by (simp add: writer_backed_def writer_inv_def list_all_iff)
  then have "frame_outcome f = oc" using assms frame_outcome_of by (simp add: writer_backed_def)
  moreover have "s \<in> set (streamed w')" using f' s by (auto simp: streamed_def)
  ultimately show "list_ex (grants idOf (frame_outcome f) s) tr" using assms(1) by (auto simp: writer_backed_def)
qed

lemma writer_backed_add:
  assumes w: "writer_backed idOf ty oc tr w" and g: "list_ex (grants idOf oc s) tr" and a: "add (Some s) w = (r, w')"
  shows "writer_backed idOf ty oc tr w'"
proof -
  have "writer_inv w" using w by (simp add: writer_backed_def)
  note f = add_facts[OF this a]
  have "set (streamed w') \<subseteq> insert s (set (streamed w))" using f by (auto split: if_splits)
  then show ?thesis using f w g by (auto simp: writer_backed_def same_config_def)
qed

lemma writer_backed_finish:
  assumes "writer_backed idOf ty oc tr w"
  shows "writer_backed idOf ty oc tr (snd (finish w))"
proof -
  have "writer_inv w" using assms by (simp add: writer_backed_def)
  note f = flush_facts[OF this]
  show ?thesis using f assms by (auto simp: writer_backed_def same_config_def finish_def Let_def)
qed


lemma backed_emit: "backed idOf st \<Longrightarrow> \<not> list_ex publishes es \<Longrightarrow> backed idOf (emit es st)"
  by (simp add: backed_def writer_backed_mono publishes_backed_append publishes_backed_plain)

lemma backed_cong:
  "fs_ack st' = fs_ack st \<Longrightarrow> fs_rejected st' = fs_rejected st \<Longrightarrow> fs_trace st' = fs_trace st @ es \<Longrightarrow>
   \<not> list_ex publishes es \<Longrightarrow> backed idOf st \<Longrightarrow> backed idOf st'"
  using backed_emit[of idOf st es] by (simp add: backed_def)

lemma backed_ack_add:
  assumes "backed idOf st" "list_ex (grants idOf OAccepted s) (fs_trace st)" "ack_add s st = (t, st')"
  shows "backed idOf st'"
proof -
  obtain r where r: "add (Some s) (fs_ack st) = (r, fs_ack st')" "fs_trace st' = fs_trace st @ new_frames (fs_ack st) (fs_ack st')"
      "fs_rejected st' = fs_rejected st" using ack_add_sel[OF assms(3)] by blast
  have w: "writer_backed idOf AckType OAccepted (fs_trace st) (fs_ack st')"
    using writer_backed_add[OF _ assms(2) r(1)] assms(1) by (simp add: backed_def)
  show ?thesis using assms(1) r w writer_frames_backed[OF w, of "fs_ack st"]
    by (simp add: backed_def publishes_backed_append writer_backed_mono)
qed

lemma backed_rejected_add:
  assumes "backed idOf st" "list_ex (grants idOf OOverloaded s) (fs_trace st)" "rejected_add s st = (t, st')"
  shows "backed idOf st'"
proof -
  obtain r where r: "add (Some s) (fs_rejected st) = (r, fs_rejected st')"
      "fs_trace st' = fs_trace st @ new_frames (fs_rejected st) (fs_rejected st')"
      "fs_ack st' = fs_ack st" using rejected_add_sel[OF assms(3)] by blast
  have w: "writer_backed idOf RejectedType OOverloaded (fs_trace st) (fs_rejected st')"
    using writer_backed_add[OF _ assms(2) r(1)] assms(1) by (simp add: backed_def)
  show ?thesis using assms(1) r w writer_frames_backed[OF w, of "fs_rejected st"]
    by (simp add: backed_def publishes_backed_append writer_backed_mono)
qed

lemma backed_steps [simp]:
  "backed idOf st \<Longrightarrow> backed idOf (release_item i st)" "backed idOf st \<Longrightarrow> backed idOf (block_fifo st)"
  "backed idOf st \<Longrightarrow> backed idOf (rollback_if_recorded r st)" "backed idOf st \<Longrightarrow> backed idOf (rollbackOnce i st)"
  by (simp add: backed_emit release_item_def,
      simp add: backed_def,
      simp add: backed_emit rollback_if_recorded_def split: option.split record_result.split,
      rule backed_cong[where es = "if i \<in> set (fs_rolledBack st) then [] else [ERollbackOffer i]"],
      auto simp: rollbackOnce_def)

lemma backed_upd [simp]:
  "backed idOf (st\<lparr>fs_pendingWrites := x, fs_commitOffers := y\<rparr>) = backed idOf st"
  "backed idOf (st\<lparr>fs_pendingWrites := x, fs_deferredReleases := z\<rparr>) = backed idOf st"
  "backed idOf (st\<lparr>fs_rollbackOffers := x\<rparr>) = backed idOf st" "backed idOf (st\<lparr>fs_tombs := v\<rparr>) = backed idOf st"
  by (simp_all add: backed_def)

lemma backed_accepted:
  assumes b: "backed idOf st" and id: "idOf i = Some s" and f: "flush_accepted key s i an st = (t, st')"
  shows "backed idOf st'"
proof (cases "an_activeRecord an")
  case True
  then show ?thesis using b id f
    by (auto simp: flush_accepted_def Let_def backed_emit
        split: option.splits record_result.splits intro: backed_ack_add[rotated -1])
next
  case False
  then show ?thesis using b f by (auto simp: flush_accepted_def Let_def backed_emit)
qed

lemma backed_rejected:
  assumes b: "backed idOf st" and id: "idOf i = Some s" and f: "flush_rejected key s i an st = (t, st')"
  shows "backed idOf st'"
proof (cases "an_activeRecord an")
  case True
  then show ?thesis using b id f
    by (auto simp: flush_rejected_def Let_def backed_emit
        split: option.splits record_result.splits durability.splits intro: backed_rejected_add[rotated -1])
next
  case False
  then show ?thesis using b f by (auto simp: flush_rejected_def Let_def backed_emit)
qed

lemma backed_tombstoned: "backed idOf st \<Longrightarrow> flush_tombstoned a key s i an st = (t, st') \<Longrightarrow> backed idOf st'"
  by (auto simp: flush_tombstoned_def Let_def backed_emit split: if_splits option.splits record_result.splits)

lemma backed_item:
  assumes b: "backed idOf st" and id: "\<And>s. it_id it = StrId s \<Longrightarrow> idOf i = Some s" and f: "flush_item a i it an st = (t, st')"
  shows "backed idOf st'"
proof (cases "fs_fifoBlocked st \<or> \<not> an_active an")
  case True
  then show ?thesis using b f by (auto simp: flush_item_def split: if_splits)
next
  case live: False
  show ?thesis
  proof (cases "ingressDedupeKey it")
    case None
    then show ?thesis using b f live by (cases "an_offer an") (auto simp: flush_item_def Let_def backed_emit)
  next
    case (Some key)
    then obtain s where s: "it_id it = StrId s" by (auto simp: ingressDedupeKey_def split: raw_id.splits)
    define ex where "ex = (case an_lookup an of Some r \<Rightarrow> r | None \<Rightarrow> LUnknown)"
    let ?st1 = "emit [ELookup i key ex] st"
    have b1: "backed idOf ?st1" using b by (simp add: backed_emit)
    show ?thesis
    proof (cases "tomb_has key (Some a) (fs_tombs st)")
      case True
      then show ?thesis using f live Some s b backed_tombstoned by (auto simp: flush_item_def Let_def)
    next
      case nt: False
      note e = f[unfolded flush_item_def Let_def, simplified Some s live nt ex_def[symmetric] option.case raw_id.case if_True if_False]
      consider "\<not> an_activeLookup an \<or> ex = LUnknown" | x where "an_activeLookup an" "ex = LFound x"
        | "an_activeLookup an" "ex = LNotFound" by (cases ex) auto
      then show ?thesis
      proof cases
        case 1
        then show ?thesis using e b1 live by auto
      next
        case (2 x)
        then show ?thesis using e b1 id[OF s] live
          by (cases x) (auto intro: backed_ack_add[rotated -1] backed_rejected_add[rotated -1])
      next
        case 3
        have b2: "backed idOf (emit [EOffer i (an_offer an)] ?st1)" using b1 by (simp add: backed_emit)
        then show ?thesis using e 3 live backed_accepted[OF b2 id[OF s]] backed_rejected[OF b2 id[OF s]]
          by (cases "an_offer an") auto
      qed
    qed
  qed
qed

lemma backed_loop:
  "flush_loop a i items st = (t, st') \<Longrightarrow> backed idOf st \<Longrightarrow>
   (\<And>j s. j < length items \<Longrightarrow> it_id (fst (items ! j)) = StrId s \<Longrightarrow> idOf (i + j) = Some s) \<Longrightarrow> backed idOf st'"
proof (induction a i items st rule: flush_loop.induct)
  case (1 a i st)
  then show ?case by simp
next
  case (2 a i it an rest st)
  obtain t1 st1 where f: "flush_item a i it an st = (t1, st1)" by fastforce
  have id: "it_id it = StrId s \<Longrightarrow> idOf i = Some s" for s using "2.prems"(3)[of 0 s] by simp
  have b: "backed idOf st1" using "2.prems"(2) id f by (rule backed_item)
  show ?case
  proof (cases t1)
    case True
    then show ?thesis using "2.prems"(1) f b by simp
  next
    case False
    have "idOf (Suc i + j) = Some s" if "j < length rest" "it_id (fst (rest ! j)) = StrId s" for j s
      using "2.prems"(3)[of "Suc j" s] that by simp
    then show ?thesis using "2.IH"[OF f[symmetric]] "2.prems"(1) f b False by simp
  qed
qed

definition id_at :: "('m ingress_item \<times> 'b) list \<Rightarrow> nat \<Rightarrow> string option" where
  "id_at items i = (if i < length items then (case it_id (fst (items ! i)) of StrId s \<Rightarrow> Some s | _ \<Rightarrow> None) else None)"

lemma backed_fold: "backed idOf st \<Longrightarrow> backed idOf (fold rollbackOnce js st)"
  by (induction js arbitrary: st) simp_all

lemma not_publishing [simp]:
  "\<not> list_ex publishes (map ERelease js)" "\<not> list_ex publishes (map ERollbackWrite js)"
  "\<not> list_ex publishes (map ECommitWrite js)" "\<not> list_ex publishes (map ECommitOffer js)"
  by (simp_all add: list_ex_iff)

lemma backed_rollback: "backed idOf st \<Longrightarrow> backed idOf (rollback_offers_and_release st)" "backed idOf st \<Longrightarrow> backed idOf (rollbackWrites st)"
  by (simp_all add: rollback_offers_and_release_def rollbackWrites_def backed_emit backed_fold)

lemma backed_finish_ack:
  assumes "backed idOf st"
  shows "backed idOf (emit (new_frames (fs_ack st) (snd (finish (fs_ack st)))) (st\<lparr>fs_ack := snd (finish (fs_ack st))\<rparr>))"
proof -
  have w: "writer_backed idOf AckType OAccepted (fs_trace st) (snd (finish (fs_ack st)))"
    using assms by (auto simp: backed_def intro: writer_backed_finish)
  show ?thesis using assms w writer_frames_backed[OF w, of "fs_ack st"]
    by (simp add: backed_def publishes_backed_append writer_backed_mono)
qed

lemma backed_finish_rejected:
  assumes "backed idOf st"
  shows "backed idOf (emit (new_frames (fs_rejected st) (snd (finish (fs_rejected st)))) (st\<lparr>fs_rejected := snd (finish (fs_rejected st))\<rparr>))"
proof -
  have w: "writer_backed idOf RejectedType OOverloaded (fs_trace st) (snd (finish (fs_rejected st)))"
    using assms by (auto simp: backed_def intro: writer_backed_finish)
  show ?thesis using assms w writer_frames_backed[OF w, of "fs_rejected st"]
    by (simp add: backed_def publishes_backed_append writer_backed_mono)
qed

lemma backed_footer:
  assumes "backed idOf st"
  shows "backed idOf (flush_footer invalidated st)"
proof (cases invalidated)
  case True
  then show ?thesis using assms by (simp add: flush_footer_def backed_rollback backed_emit)
next
  case False
  let ?s1 = "emit (map ECommitWrite (fs_pendingWrites st) @ map ECommitOffer (fs_commitOffers st)) st"
  have "backed idOf ?s1" using assms by (intro backed_emit) simp_all
  from backed_finish_rejected[OF backed_finish_ack[OF this]] show ?thesis
    using False by (simp add: flush_footer_def Let_def backed_emit)
qed

text \<open>C6: A result is published only on authority. Every id in an ACK frame of a flush was
  found accepted or recorded accepted for an item of that batch earlier in the flush, and
  every id in an \<^verbatim>\<open>inbound_rejected\<close> frame was found overloaded or durably recorded overloaded;
  a memory-only overload marker, an unknown outcome and an unrecorded item publish nothing.\<close>

theorem flush_publish_authority:
  assumes "writer_inv ack" "w_type ack = AckType" "streamed ack = []"
    and "writer_inv rej" "w_type rej = RejectedType" "streamed rej = []"
  shows "publishes_backed (id_at items) [] (fs_trace (ingressOnFlush a active ack rej items invalidated tb))"
proof -
  let ?s0 = "emit [EBeginBatch] (flush_start ack rej tb)"
  obtain t st where l: "flush_loop a 0 items ?s0 = (t, st)" by fastforce
  have b0: "backed (id_at items) ?s0" using assms by (simp add: backed_def writer_backed_def flush_start_def)
  have b: "backed (id_at items) st" using l b0 by (rule backed_loop) (simp add: id_at_def)
  have "backed (id_at items) (emit [EFinishLease] (flush_footer invalidated st))"
    "backed (id_at items) (emit [EFinishLease] (rollback_offers_and_release (rollbackWrites st)))"
    using b by (simp_all add: backed_emit backed_footer backed_rollback)
  then show ?thesis using l by (cases t) (simp_all add: ingressOnFlush_def backed_def flush_start_def)
qed


definition demo_rejecter :: chunk_writer where
  "demo_rejecter = demo_writer\<lparr>w_type := RejectedType\<rparr>"

lemma demo_writers:
  "writer_inv demo_writer" "w_type demo_writer = AckType" "streamed demo_writer = []"
  "writer_inv demo_rejecter" "w_type demo_rejecter = RejectedType" "streamed demo_rejecter = []"
  by (simp_all add: writer_inv_def chunk_ok_def streamed_def demo_writer_def demo_rejecter_def)

definition demo_batch :: "(unit ingress_item \<times> flush_answer) list" where
  "demo_batch = [(demo_item ''x'', demo_answer), (demo_item ''y'', demo_answer\<lparr>an_record := Some (RRecorded Durable 8)\<rparr>)]"

lemmas demo_flush_defs = ingressOnFlush_def flush_start_def flush_item_def flush_accepted_def ingressDedupeKey_def
  demo_batch_def demo_item_def demo_answer_def demo_writer_def demo_rejecter_def ack_add_def add_def flush_def finish_def frameFor_def
  new_frames_def emit_def flush_footer_def tomb_has_def new_tombstones_def MAX_INGRESS_DEDUPE_ID_LENGTH_def
  MAX_INGRESS_RESULT_ID_LENGTH_def safe_nonneg_int_def max_safe_integer_def rollback_offers_and_release_def rollbackWrites_def
  rollbackOnce_def Let_def

theorem flush_publish_authority_witness:
  "publishes_backed (id_at demo_batch) [] (fs_trace (ingressOnFlush ''a'' True demo_writer demo_rejecter demo_batch False (new_tombstones 4 4096))) \<and>
   EPublish (Ack [''x'', ''y'']) \<in> set (fs_trace (ingressOnFlush ''a'' True demo_writer demo_rejecter demo_batch False (new_tombstones 4 4096)))"
proof
  show "EPublish (Ack [''x'', ''y'']) \<in> set (fs_trace (ingressOnFlush ''a'' True demo_writer demo_rejecter demo_batch False (new_tombstones 4 4096)))"
    by (simp add: demo_flush_defs)
qed (rule flush_publish_authority[OF demo_writers])

section \<open>Stopped messages\<close>

definition tomb_inv :: "tombstones \<Rightarrow> bool" where
  "tomb_inv tb \<longleftrightarrow> cache_ok (tb_cap tb) (tb_byteCap tb) (\<lambda>n. n) (tb_keys tb) (tb_bytes tb)"

definition tomb_cost :: "string \<Rightarrow> string option \<Rightarrow> int" where
  "tomb_cost key accountId = utf8_length (scoped key accountId) + 48"

lemma tomb_add_inv:
  assumes "tomb_inv tb" "1 \<le> tb_cap tb"
  shows "tomb_inv (tomb_add key acc tb)"
proof (cases "map_of (tb_keys tb) (scoped key acc) \<noteq> None \<or> tomb_cost key acc > tb_byteCap tb")
  case True
  then show ?thesis using assms by (auto simp: tomb_add_def Let_def tomb_cost_def)
next
  case False
  obtain m t where e: "evict_oldest (tb_cap tb) (tb_byteCap tb) (\<lambda>n. n) (tomb_cost key acc) (tb_keys tb) (tb_bytes tb) = (m, t)"
    by fastforce
  have "0 \<le> tomb_cost key acc" by (simp add: tomb_cost_def utf8_length_nonneg)
  moreover have "scoped key acc \<notin> set (js_keys (tb_keys tb))" using False by (simp add: map_of_eq_None_iff)
  ultimately have "cache_ok (tb_cap tb) (tb_byteCap tb) (\<lambda>n. n) (AList.update (scoped key acc) (tomb_cost key acc) m) (t + tomb_cost key acc)"
    using assms False e by (intro cache_ok_insert) (auto simp: tomb_inv_def)
  then show ?thesis using False e by (simp add: tomb_add_def Let_def tomb_inv_def tomb_cost_def)
qed

lemma tomb_drop_inv: "tomb_inv tb \<Longrightarrow> tomb_inv (snd (tomb_drop sk tb))"
  using cache_ok_delete[of "tb_cap tb" "tb_byteCap tb" "\<lambda>n. n" "tb_keys tb" "tb_bytes tb" sk]
  by (auto simp: tomb_drop_def tomb_inv_def split: option.splits)

lemma tomb_delete_inv: "tomb_inv tb \<Longrightarrow> tomb_inv (snd (tomb_delete key acc tb))"
  by (simp add: tomb_delete_def tomb_drop_inv)


lemma tomb_add_roomy:
  assumes "int (length (tb_keys tb)) < tb_cap tb" "tb_bytes tb + tomb_cost key acc \<le> tb_byteCap tb" "0 \<le> tb_bytes tb"
  shows "tomb_has key acc (tomb_add key acc tb)"
    and "tomb_has k b tb \<Longrightarrow> tomb_has k b (tomb_add key acc tb)"
    and "length (tb_keys (tomb_add key acc tb)) \<le> Suc (length (tb_keys tb))"
    and "tb_bytes (tomb_add key acc tb) \<le> tb_bytes tb + tomb_cost key acc" and "0 \<le> tb_bytes (tomb_add key acc tb)"
    and "tb_cap (tomb_add key acc tb) = tb_cap tb" and "tb_byteCap (tomb_add key acc tb) = tb_byteCap tb"
    and "tomb_add key acc (tomb_add key acc tb) = tomb_add key acc tb"
proof -
  have c: "0 \<le> tomb_cost key acc" by (simp add: tomb_cost_def)
  have e: "tomb_add key acc tb = (if map_of (tb_keys tb) (scoped key acc) \<noteq> None then tb
      else tb\<lparr>tb_keys := AList.update (scoped key acc) (tomb_cost key acc) (tb_keys tb), tb_bytes := tb_bytes tb + tomb_cost key acc\<rparr>)"
    using assms evict_oldest_noop[OF assms(1,2), of "\<lambda>n. n"] by (auto simp: tomb_add_def Let_def tomb_cost_def)
  show "tomb_has key acc (tomb_add key acc tb)" by (simp add: e tomb_has_def update_conv')
  show "tomb_has k b tb \<Longrightarrow> tomb_has k b (tomb_add key acc tb)" by (auto simp: e tomb_has_def update_conv')
  show "length (tb_keys (tomb_add key acc tb)) \<le> Suc (length (tb_keys tb))"
    by (auto simp: e update_fresh_append map_of_eq_None_iff)
  show "tb_bytes (tomb_add key acc tb) \<le> tb_bytes tb + tomb_cost key acc" "0 \<le> tb_bytes (tomb_add key acc tb)"
    "tb_cap (tomb_add key acc tb) = tb_cap tb" "tb_byteCap (tomb_add key acc tb) = tb_byteCap tb"
    using c assms(3) by (simp_all add: e)
  show "tomb_add key acc (tomb_add key acc tb) = tomb_add key acc tb"
    by (subst tomb_add_def) (simp add: e Let_def update_conv')
qed

definition item_cost :: "string \<Rightarrow> 'm ingress_item \<Rightarrow> int" where
  "item_cost a it = (case ingressDedupeKey it of None \<Rightarrow> 0 | Some key \<Rightarrow> tomb_cost key (Some a))"

text \<open>An id that may be acknowledged: it belongs to a stopped item whose suppression was
  recorded, or is held by a tombstone.\<close>

definition suppressed :: "string \<Rightarrow> ('m ingress_item \<times> fresh_answer) list \<Rightarrow> tombstones \<Rightarrow> string \<Rightarrow> string \<Rightarrow> bool" where
  "suppressed a xs tb p s \<longleftrightarrow>
     (\<exists>x\<in>set xs. it_peerId (fst x) = p \<and> it_id (fst x) = StrId s \<and>
        (fa_check (snd x) \<noteq> None \<or> (\<exists>key. ingressDedupeKey (fst x) = Some key \<and> tomb_has key (Some a) tb)))"

definition room_for :: "string \<Rightarrow> ('m ingress_item \<times> fresh_answer) list \<Rightarrow> tombstones \<Rightarrow> bool" where
  "room_for a xs tb \<longleftrightarrow>
     0 \<le> tb_bytes tb \<and> int (length (tb_keys tb) + length xs) \<le> tb_cap tb \<and>
     tb_bytes tb + sum_list (map (item_cost a \<circ> fst) xs) \<le> tb_byteCap tb"

lemma item_cost_nonneg: "0 \<le> sum_list (map (item_cost a \<circ> fst) xs)"
  by (rule sum_list_nonneg) (auto simp: item_cost_def tomb_cost_def split: option.splits)

lemma cancel_loop_suppressed:
  "cancel_loop a rest (Some tb) m = (Some m', Some tb') \<Longrightarrow> room_for a rest tb \<Longrightarrow> set rest \<subseteq> set xs \<Longrightarrow>
   (\<forall>p ids s. map_of m p = Some ids \<longrightarrow> s \<in> set ids \<longrightarrow> suppressed a xs tb p s) \<Longrightarrow>
   (\<forall>p ids s. map_of m' p = Some ids \<longrightarrow> s \<in> set ids \<longrightarrow> suppressed a xs tb' p s)"
proof (induction rest arbitrary: tb m)
  case Nil
  then show ?case by simp
next
  case (Cons x rest)
  obtain it an where x: "x = (it, an)" by (cases x)
  note prem = Cons.prems[unfolded x]
  have live: "fa_before an" using prem(1) by (simp split: if_splits)
  show ?case
  proof (cases "ingressDedupeKey it")
    case None
    have "room_for a rest tb" using prem(2) None by (simp add: room_for_def item_cost_def)
    moreover have "cancel_loop a rest (Some tb) m = (Some m', Some tb')" using prem(1) live None by simp
    ultimately show ?thesis using prem(3,4) by (intro Cons.IH) simp_all
  next
    case (Some key)
    then obtain s0 where s0: "it_id it = StrId s0" by (auto simp: ingressDedupeKey_def split: raw_id.splits)
    define tb2 where "tb2 = (if fa_check an = None then tomb_add key (Some a) tb else tb)"
    define m2 where "m2 = AList.update (it_peerId it) ((case map_of m (it_peerId it) of Some ids \<Rightarrow> ids | None \<Rightarrow> []) @ [s0]) m"
    have fits: "int (length (tb_keys tb)) < tb_cap tb" "tb_bytes tb + tomb_cost key (Some a) \<le> tb_byteCap tb" "0 \<le> tb_bytes tb"
      using prem(2) Some item_cost_nonneg[of a rest] by (simp_all add: room_for_def item_cost_def)
    note r = tomb_add_roomy[OF fits]
    have live2: "fa_after an" using prem(1) live Some by (simp split: if_splits)
    then have loop: "cancel_loop a rest (Some tb2) m2 = (Some m', Some tb')"
      using prem(1) live Some s0 r(8) by (auto simp: Let_def tb2_def m2_def split: if_splits)
    have c: "0 \<le> tomb_cost key (Some a)" by (simp add: tomb_cost_def)
    have room2: "room_for a rest tb2" using prem(2) Some r(3,4,5,6,7) item_cost_nonneg[of a rest] c
      by (auto simp: room_for_def tb2_def item_cost_def)
    have mono: "suppressed a xs tb2 p s" if "suppressed a xs tb p s" for p s
      using that r(2) by (auto simp: suppressed_def tb2_def)
    have new: "suppressed a xs tb2 (it_peerId it) s0"
      unfolding suppressed_def using prem(3) s0 Some r(1) by (intro bexI[of _ "(it, an)"]) (auto simp: tb2_def)
    have "\<forall>p ids s. map_of m2 p = Some ids \<longrightarrow> s \<in> set ids \<longrightarrow> suppressed a xs tb2 p s"
      using prem(4) mono new by (auto simp: m2_def update_conv' split: if_splits option.splits dest: sym[of "Some _"])
    then show ?thesis using loop room2 prem(3) by (intro Cons.IH) simp_all
  qed
qed

lemma cancel_loop_nodup: "cancel_loop a rest tb m = (Some m', tb') \<Longrightarrow> distinct (js_keys m) \<Longrightarrow> distinct (js_keys m')"
proof (induction rest arbitrary: tb m)
  case Nil
  then show ?case by simp
next
  case (Cons x rest)
  then show ?case by (cases x) (auto simp: Let_def distinct_update split: if_splits option.splits)
qed

lemma ack_loop_subset: "set (ack_loop ps flags) \<subseteq> set ps"
  by (induction ps flags rule: ack_loop.induct) (auto split: list.splits bool.splits)

text \<open>With a fallback that has room, a stopped message is acknowledged only once its replay is
  suppressed.  The handler acknowledges whatever the record answers; if a fallback tombstone store is
  wired and has room for the batch, every id it acknowledges belongs to a cancelled item of that peer,
  and either its durable suppression was recorded or a fallback tombstone for it is held when the
  handler ends.  Without that room the code acknowledges all the same.\<close>

theorem cancelled_ack_suppressed:
  assumes "recordCancelledInboundItems a xs flags (Some tb) = (acks, Some tb')" and "room_for a xs tb"
    and "(p, ids) \<in> set acks" and "s \<in> set ids"
  shows "suppressed a xs tb' p s"
proof -
  obtain m where m: "cancel_loop a xs (Some tb) [] = (Some m, Some tb')" "acks = ack_loop m flags"
    using assms(1,3) by (auto simp: recordCancelledInboundItems_def split: prod.splits option.splits)
  have "(p, ids) \<in> set m" using assms(3) m(2) ack_loop_subset by blast
  then have "map_of m p = Some ids" using cancel_loop_nodup[OF m(1)] by simp
  then show ?thesis using cancel_loop_suppressed[OF m(1) assms(2), of xs] assms(4) by simp
qed

definition demo_fresh :: fresh_answer where
  "demo_fresh = \<lparr>fa_before = True, fa_check = None, fa_after = True\<rparr>"

theorem cancelled_ack_suppressed_witness:
  "\<exists>tb'. recordCancelledInboundItems ''a'' [(demo_item ''x'', demo_fresh)] [True] (Some (new_tombstones 4 4096)) = ([(''p'', [''x''])], Some tb') \<and>
     suppressed ''a'' [(demo_item ''x'', demo_fresh)] tb' ''p'' ''x''"
proof -
  let ?xs = "[(demo_item ''x'', demo_fresh)]"
  have r: "room_for ''a'' ?xs (new_tombstones 4 4096)" by code_simp
  obtain tb' where t: "recordCancelledInboundItems ''a'' ?xs [True] (Some (new_tombstones 4 4096)) = ([(''p'', [''x''])], Some tb')"
    by (simp add: recordCancelledInboundItems_def demo_item_def demo_fresh_def ingressDedupeKey_def MAX_INGRESS_DEDUPE_ID_LENGTH_def Let_def)
  show ?thesis using t cancelled_ack_suppressed[OF t r] by (intro exI[of _ tb']) simp
qed

subsection \<open>A tombstone outranks admission\<close>

text \<open>The events the flush may emit for a tombstoned item.\<close>

fun suppressing :: "nat \<Rightarrow> string \<Rightarrow> flush_event \<Rightarrow> bool" where
  "suppressing i key (ERecord j k oc repl r) \<longleftrightarrow> j = i \<and> k = key \<and> oc = OAccepted \<and> repl"
| "suppressing i key (ECommitWrite w) \<longleftrightarrow> True"
| "suppressing i key (ERollbackWrite w) \<longleftrightarrow> True"
| "suppressing i key (ESendAck s) \<longleftrightarrow> True"
| "suppressing i key (ERelease j) \<longleftrightarrow> j = i"
| "suppressing i key _ \<longleftrightarrow> False"

text \<open>C25: A fallback tombstone outranks ordinary admission. An item whose key is tombstoned is
  never looked up, offered or dispatched: the flush only retries the accepted replacement
  record; it sends the ACK exactly when that write is committed, releases the item once, and
  forgets the tombstone only after the record committed and the ACK was delivered.\<close>

theorem tombstone_authoritative:
  assumes "\<not> fs_fifoBlocked st" "an_active an" "ingressDedupeKey it = Some key" "tomb_has key (Some a) (fs_tombs st)"
    and "flush_item a i it an st = (t, st')"
  shows "\<not> t \<and> (\<exists>es. fs_trace st' = fs_trace st @ es \<and> list_all (suppressing i key) es \<and>
      count_list es (ERelease i) = 1 \<and>
      ((\<exists>s. ESendAck s \<in> set es) \<longleftrightarrow> (\<exists>w. ECommitWrite w \<in> set es)) \<and>
      (fs_tombs st' \<noteq> fs_tombs st \<longrightarrow> an_sendAck an \<and> (\<exists>w. ECommitWrite w \<in> set es)))"
  using assms
  by (auto simp: flush_item_def flush_tombstoned_def Let_def
      split: if_splits option.splits record_result.splits)

definition demo_stopped :: flush_state where
  "demo_stopped = demo_start\<lparr>fs_tombs := tomb_add ''p:x'' (Some ''a'') (new_tombstones 4 4096)\<rparr>"

theorem tombstone_authoritative_witness:
  "\<exists>t st' es. flush_item ''a'' 0 (demo_item ''x'') demo_answer demo_stopped = (t, st') \<and> \<not> t \<and>
     fs_trace st' = fs_trace demo_stopped @ es \<and> list_all (suppressing 0 ''p:x'') es \<and> count_list es (ERelease 0) = 1"
proof -
  obtain t st' where f: "flush_item ''a'' 0 (demo_item ''x'') demo_answer demo_stopped = (t, st')" by fastforce
  have 1: "\<not> fs_fifoBlocked demo_stopped" "an_active demo_answer"
    by (simp_all add: demo_stopped_def demo_start_def flush_start_def demo_answer_def)
  have 2: "ingressDedupeKey (demo_item ''x'') = Some ''p:x''"
    by (simp add: ingressDedupeKey_def demo_item_def MAX_INGRESS_DEDUPE_ID_LENGTH_def)
  have "tomb_has ''p:x'' (Some ''a'') (tomb_add ''p:x'' (Some ''a'') (new_tombstones 4 4096))" by code_simp
  then have 3: "tomb_has ''p:x'' (Some ''a'') (fs_tombs demo_stopped)" by (simp add: demo_stopped_def)
  show ?thesis using f tombstone_authoritative[OF 1 2 3 f] by blast
qed

text \<open>The tombstone store never exceeds its caps. Along any sequence of insertions and
  deletions from an empty store, at most \<^verbatim>\<open>cap\<close> keys and \<^verbatim>\<open>byteCap\<close> bytes are held, and the byte
  counter is the exact sum of the held entries; a key just added for an account is found
  there as long as it fits at all.\<close>

theorem tombstones_bounded:
  assumes "1 \<le> cap" "0 \<le> byteCap"
  shows "let tb = fold (\<lambda>(del, key, acc). if del then snd \<circ> tomb_delete key acc else tomb_add key acc) ops (new_tombstones cap byteCap)
     in int (length (tb_keys tb)) \<le> cap \<and> tb_bytes tb \<le> byteCap \<and> tb_bytes tb = sum_list (map snd (tb_keys tb)) \<and>
        (tomb_cost k ac \<le> byteCap \<longrightarrow> tomb_has k ac (tomb_add k ac tb))"
proof -
  let ?step = "\<lambda>(del, key, acc). if del then snd \<circ> tomb_delete key acc else tomb_add key acc"
  let ?ok = "\<lambda>tb. tomb_inv tb \<and> tb_cap tb = cap \<and> tb_byteCap tb = byteCap"
  have caps: "tb_cap (tomb_add key acc tb) = tb_cap tb" "tb_byteCap (tomb_add key acc tb) = tb_byteCap tb"
    "tb_cap (snd (tomb_delete key acc tb)) = tb_cap tb" "tb_byteCap (snd (tomb_delete key acc tb)) = tb_byteCap tb" for key acc tb
    by (auto simp: tomb_add_def Let_def tomb_delete_def tomb_drop_def split: prod.splits option.splits)
  have step: "?ok tb \<Longrightarrow> ?ok (?step opn tb)" for opn tb
    using assms tomb_add_inv tomb_delete_inv by (auto simp: caps split: prod.splits)
  have "?ok (fold ?step ops tb)" if "?ok tb" for tb using that
  proof (induction ops arbitrary: tb)
    case (Cons opn ops)
    show ?case unfolding fold_simps by (rule Cons.IH, rule step, rule Cons.prems)
  qed simp
  moreover have "?ok (new_tombstones cap byteCap)" using assms by (simp add: tomb_inv_def new_tombstones_def)
  ultimately have ok: "?ok (fold ?step ops (new_tombstones cap byteCap))" by blast
  have held: "tomb_has k ac (tomb_add k ac tb)" if "?ok tb" "tomb_cost k ac \<le> byteCap" for tb
    using that by (auto simp: tomb_add_def tomb_has_def Let_def tomb_cost_def update_conv' split: prod.splits)
  show ?thesis using ok held[OF ok] by (simp add: Let_def tomb_inv_def cache_ok_def cache_total_def comp_def)
qed

theorem tombstones_bounded_witness:
  "let tb = fold (\<lambda>(del, key, acc). if del then snd \<circ> tomb_delete key acc else tomb_add key acc)
       [(False, ''x'', None), (False, ''y'', Some ''a''), (True, ''x'', Some ''a'')] (new_tombstones 2 200)
   in int (length (tb_keys tb)) \<le> 2 \<and> tb_bytes tb \<le> 200"
proof -
  have "1 \<le> (2 :: int)" "0 \<le> (200 :: int)" by simp_all
  from tombstones_bounded[OF this, of "[(False, ''x'', None), (False, ''y'', Some ''a''), (True, ''x'', Some ''a'')]" "[]" None]
  show ?thesis unfolding Let_def by (elim conjE) (intro conjI)
qed

end
