(* ===== verification/Debouncer.thy ===== *)
theory Debouncer
  imports Retention
begin

text \<open>
  The bounded inbound debouncer (\<^verbatim>\<open>packages/plugin/src/bounded-inbound-debouncer.ts\<close>): the
  buckets that wait for a timer, the per-key workers that flush detached batches one after
  the other, the cancellation callbacks of \<^verbatim>\<open>/stop\<close>, and the indexes that decide which
  retained work is charged, fenced and released.

  Entries, cancellation batches and reservations are objects with identity: the model keeps
  them in stores and refers to them by number.  Every asynchronous continuation (the timer,
  a turn of a worker, the end of an awaited callback) is one operation, so any interleaving
  of the program is a sequence of operations.  A throw keeps the effects that precede it.
\<close>

section \<open>Data\<close>

text \<open>\<^verbatim>\<open>cancellationSettled\<close>: no promise, a pending one, a resolved one.\<close>

datatype cancellation = NoCancellation | CancellationPending | CancellationResolved

record 'm dentry =
  de_item :: 'm
  de_key :: string
  de_rid :: rid
  de_id :: "string option"
  de_generation :: nat
  de_requested :: bool
  de_pending :: bool
  de_callbackRunning :: bool
  de_retired :: bool
  de_settled :: cancellation
  de_hold :: "hold_id option"

datatype push_result =
    PAccepted
  | PDuplicateInflight
  | POverflowInflight
  | PKnownOutcome bool
  | POverflow limit_reason "int option"
  | PDisposed

text \<open>The two callbacks \<^verbatim>\<open>push\<close> can invoke; a known outcome is \<^verbatim>\<open>accepted\<close> when true.\<close>

datatype push_call =
    OnKnownOutcome string string bool
  | OnOverflow string "string option" limit_reason "int option" bool

record 'm debounce_config =
  dbc_debounceMs :: js_number
  dbc_buildKey :: "'m \<Rightarrow> string"
  dbc_getId :: "'m \<Rightarrow> string option"
  dbc_token :: "string \<Rightarrow> 'm \<Rightarrow> session_token"
  dbc_size :: "'m \<Rightarrow> js_number option"
  dbc_onCancel :: bool

text \<open>What the synchronous lookups of one \<^verbatim>\<open>push\<close> answer.\<close>

record push_answers =
  pa_overflowClaimed :: bool
  pa_cancelledFallback :: bool
  pa_peekOutcome :: "bool option"

record bucket =
  bk_id :: nat
  bk_entries :: "nat list"

record batch =
  ba_entries :: "nat list"
  ba_generation :: nat

text \<open>
  A worker is scheduled or between two batches, awaits \<^verbatim>\<open>onFlush\<close>, or has left its loop and
  waits for its \<^verbatim>\<open>finally\<close>.
\<close>

datatype worker = NoWorker | WorkerLoop | WorkerAwait | WorkerDone

record chain =
  ch_queued :: "batch list"
  ch_running :: "batch option"
  ch_worker :: worker
  ch_holds :: "(rid \<times> hold_id) list"
  ch_tracked :: "nat list"

record cancel_batch =
  cb_key :: string
  cb_entries :: "nat list"
  cb_started :: bool
  cb_callback :: "nat list option"

datatype settle_owner = ByFlush | ByCancel | ByRetire

datatype debounce_error =
    BudgetThrew retention_error
  | CallbackNotTracked
  | CallbackUnderflow
  | DebounceMsInvalid

record 'm debouncer =
  db_entries :: "'m dentry list"
  db_waiting :: "(string, bucket) js_map"
  db_nextBucket :: nat
  db_chains :: "(string, chain) js_map"
  db_inflightIds :: "string list"
  db_inflightEntries :: "nat list"
  db_inflightByKey :: "(string, nat list) js_map"
  db_runningCallbacks :: "(nat, string \<times> int) js_map"
  db_cancelBatches :: "cancel_batch list"
  db_cancellationBatches :: "(string, nat list) js_map"
  db_keyGeneration :: "(string, nat) js_map"
  db_disposed :: bool
  db_budget :: budget

text \<open>A statement: it may throw, and the state it leaves is kept either way.\<close>

type_synonym 'm act = "'m debouncer \<Rightarrow> debounce_error option \<times> 'm debouncer"

definition skip_act :: "'m act" where
  "skip_act s = (None, s)"

definition then_act :: "'m act \<Rightarrow> 'm act \<Rightarrow> 'm act" where
  "then_act f g s = (case f s of (Some e, s') \<Rightarrow> (Some e, s') | (None, s') \<Rightarrow> g s')"

definition finally_act :: "'m act \<Rightarrow> 'm act \<Rightarrow> 'm act" where
  "finally_act f g s =
     (case f s of (r, s') \<Rightarrow> (case g s' of (Some e, s'') \<Rightarrow> (Some e, s'') | (None, s'') \<Rightarrow> (r, s'')))"

fun for_each :: "('a \<Rightarrow> 'm act) \<Rightarrow> 'a list \<Rightarrow> 'm act" where
  "for_each f [] s = (None, s)"
| "for_each f (x # xs) s = then_act (f x) (for_each f xs) s"

definition on_budget :: "(budget \<Rightarrow> retention_error + budget) \<Rightarrow> 'm act" where
  "on_budget f s =
     (case f (db_budget s) of Inl e \<Rightarrow> (Some (BudgetThrew e), s) | Inr b \<Rightarrow> (None, s\<lparr>db_budget := b\<rparr>))"

text \<open>Insertion-ordered sets.\<close>

definition set_add :: "'a \<Rightarrow> 'a list \<Rightarrow> 'a list" where
  "set_add x xs = (if x \<in> set xs then xs else xs @ [x])"

definition set_union :: "'a list \<Rightarrow> 'a list \<Rightarrow> 'a list" where
  "set_union xs ys = fold set_add ys (fold set_add xs [])"

section \<open>Helpers\<close>

definition validId :: "string option \<Rightarrow> bool" where
  "validId v = (case v of Some s \<Rightarrow> 0 < length s \<and> length s \<le> 128 | None \<Rightarrow> False)"

definition debounce_charge :: "('m \<Rightarrow> js_number option) \<Rightarrow> 'm \<Rightarrow> int option" where
  "debounce_charge sz m = (case sz m of Some v \<Rightarrow> safe_nonneg v | None \<Rightarrow> None)"

definition createBoundedInboundDebouncer :: "'m debounce_config \<Rightarrow> budget \<Rightarrow> debounce_error + 'm debouncer" where
  "createBoundedInboundDebouncer cfg b =
     (case safe_nonneg (dbc_debounceMs cfg) of
        None \<Rightarrow> Inl DebounceMsInvalid
      | Some _ \<Rightarrow> Inr \<lparr>db_entries = [], db_waiting = [], db_nextBucket = 0, db_chains = [], db_inflightIds = [],
          db_inflightEntries = [], db_inflightByKey = [], db_runningCallbacks = [], db_cancelBatches = [],
          db_cancellationBatches = [], db_keyGeneration = [], db_disposed = False, db_budget = b\<rparr>)"

definition idIndexKey :: "string \<Rightarrow> string \<Rightarrow> string" where
  "idIndexKey key i = length_prefixed key i"

definition generation :: "string \<Rightarrow> 'm debouncer \<Rightarrow> nat" where
  "generation key s = (case map_of (db_keyGeneration s) key of Some g \<Rightarrow> g | None \<Rightarrow> 0)"

definition bumpGeneration :: "string \<Rightarrow> 'm debouncer \<Rightarrow> 'm debouncer" where
  "bumpGeneration key s = s\<lparr>db_keyGeneration := AList.update key (generation key s + 1) (db_keyGeneration s)\<rparr>"

definition entry :: "'m debouncer \<Rightarrow> nat \<Rightarrow> 'm dentry" where
  "entry s e = db_entries s ! e"

definition upd_entry :: "nat \<Rightarrow> ('m dentry \<Rightarrow> 'm dentry) \<Rightarrow> 'm debouncer \<Rightarrow> 'm debouncer" where
  "upd_entry e f s = s\<lparr>db_entries := (db_entries s)[e := f (db_entries s ! e)]\<rparr>"

text \<open>The predicates every retained entry carries.\<close>

definition isActive :: "'m debouncer \<Rightarrow> nat \<Rightarrow> bool" where
  "isActive s e \<longleftrightarrow>
     \<not> db_disposed s \<and> \<not> de_requested (entry s e) \<and> generation (de_key (entry s e)) s = de_generation (entry s e)"

definition isCancellationRequested :: "'m debouncer \<Rightarrow> nat \<Rightarrow> bool" where
  "isCancellationRequested s e \<longleftrightarrow> de_requested (entry s e)"

definition isRetired :: "'m debouncer \<Rightarrow> nat \<Rightarrow> bool" where
  "isRetired s e \<longleftrightarrow> de_retired (entry s e)"

definition cancellation_done :: "'m debouncer \<Rightarrow> nat \<Rightarrow> bool" where
  "cancellation_done s e \<longleftrightarrow> de_settled (entry s e) \<noteq> CancellationPending"

text \<open>Forget the generation of a key nothing refers to any more.\<close>

definition forget_idle :: "string \<Rightarrow> 'm debouncer \<Rightarrow> 'm debouncer" where
  "forget_idle key s =
     (if map_of (db_chains s) key = None \<and> map_of (db_waiting s) key = None \<and> map_of (db_inflightByKey s) key = None
      then s\<lparr>db_keyGeneration := AList.delete key (db_keyGeneration s)\<rparr> else s)"

definition drop_inflight :: "string \<Rightarrow> nat \<Rightarrow> 'm debouncer \<Rightarrow> 'm debouncer" where
  "drop_inflight key e s =
     (let s1 = s\<lparr>db_inflightEntries := removeAll e (db_inflightEntries s)\<rparr> in
      case map_of (db_inflightByKey s) key of
        None \<Rightarrow> s1
      | Some keyed \<Rightarrow>
          (case removeAll e keyed of
             [] \<Rightarrow> s1\<lparr>db_inflightByKey := AList.delete key (db_inflightByKey s)\<rparr>
           | keyed' \<Rightarrow> s1\<lparr>db_inflightByKey := AList.update key keyed' (db_inflightByKey s)\<rparr>))"

definition releaseEntry :: "string \<Rightarrow> nat \<Rightarrow> bool \<Rightarrow> 'm act" where
  "releaseEntry key e req s =
     then_act (if req then on_budget (requestRelease (de_rid (entry s e))) else skip_act)
       (\<lambda>s. (None, drop_inflight key e s)) s"

definition reservation_of :: "'m debouncer \<Rightarrow> nat \<Rightarrow> reservation" where
  "reservation_of s e = b_reservations (db_budget s) ! de_rid (entry s e)"

definition index_inflight :: "string \<Rightarrow> nat \<Rightarrow> 'm debouncer \<Rightarrow> 'm debouncer" where
  "index_inflight key e s =
     s\<lparr>db_inflightEntries := set_add e (db_inflightEntries s),
       db_inflightByKey := AList.update key (set_add e (case map_of (db_inflightByKey s) key of Some k \<Rightarrow> k | None \<Rightarrow> [])) (db_inflightByKey s)\<rparr>"

definition track_one :: "string \<Rightarrow> nat \<Rightarrow> 'm act" where
  "track_one key e s =
     (let s1 = index_inflight key e s in
      if r_released (reservation_of s1 e) then (None, s1)
      else on_budget (transfer (de_rid (entry s1 e)) DebounceInflight) s1)"

definition trackInflight :: "string \<Rightarrow> nat list \<Rightarrow> 'm act" where
  "trackInflight key es s =
     (let s1 = (if map_of (db_inflightByKey s) key = None
                then s\<lparr>db_inflightByKey := AList.update key [] (db_inflightByKey s)\<rparr> else s)
      in for_each (track_one key) es s1)"

text \<open>One entry of \<^verbatim>\<open>settleEntries\<close>.\<close>

definition mark_settled :: "settle_owner \<Rightarrow> 'm dentry \<Rightarrow> 'm dentry" where
  "mark_settled own d =
     (case own of
        ByFlush \<Rightarrow> d
      | ByCancel \<Rightarrow> d\<lparr>de_pending := False\<rparr>
      | ByRetire \<Rightarrow> d\<lparr>de_retired := True, de_pending := False\<rparr>)"

definition release_cancel_hold :: "settle_owner \<Rightarrow> nat \<Rightarrow> 'm act" where
  "release_cancel_hold own e s =
     (if own = ByCancel \<or> (own = ByRetire \<and> \<not> de_callbackRunning (entry s e))
      then (case de_hold (entry s e) of
              None \<Rightarrow> (None, s)
            | Some h \<Rightarrow> then_act (on_budget (release_hold (de_rid (entry s e)) h))
                          (\<lambda>s. (None, upd_entry e (\<lambda>d. d\<lparr>de_hold := None\<rparr>) s)) s)
      else (None, s))"

definition drop_id :: "string \<Rightarrow> nat \<Rightarrow> 'm debouncer \<Rightarrow> 'm debouncer" where
  "drop_id key e s =
     (case de_id (entry s e) of
        Some i \<Rightarrow> if validId (Some i) then s\<lparr>db_inflightIds := removeAll (idIndexKey key i) (db_inflightIds s)\<rparr> else s
      | None \<Rightarrow> s)"

definition resolve_cancellation :: "settle_owner \<Rightarrow> nat \<Rightarrow> 'm debouncer \<Rightarrow> 'm debouncer" where
  "resolve_cancellation own e s =
     (if own \<noteq> ByFlush \<and> de_settled (entry s e) = CancellationPending
      then upd_entry e (\<lambda>d. d\<lparr>de_settled := CancellationResolved\<rparr>) s else s)"

definition settle_one :: "string \<Rightarrow> settle_owner \<Rightarrow> nat \<Rightarrow> 'm act" where
  "settle_one key own e s =
     (if own = ByFlush \<and> de_pending (entry s e) then (None, s)
      else
        let s1 = upd_entry e (mark_settled own) s;
            req = (own \<noteq> ByFlush \<or> r_owner (reservation_of s1 e) \<noteq> PendingOwner)
        in then_act (releaseEntry key e req)
             (then_act (release_cancel_hold own e)
                (\<lambda>s. (None, resolve_cancellation own e (drop_id key e s)))) s1)"

definition settleEntries :: "string \<Rightarrow> nat list \<Rightarrow> settle_owner \<Rightarrow> 'm act" where
  "settleEntries key es own = then_act (for_each (settle_one key own) es) (\<lambda>s. (None, forget_idle key s))"

section \<open>Running callbacks\<close>

definition count_up :: "string \<Rightarrow> nat \<Rightarrow> 'm debouncer \<Rightarrow> 'm debouncer" where
  "count_up key e s =
     s\<lparr>db_runningCallbacks :=
        (case map_of (db_runningCallbacks s) e of
           Some (k, n) \<Rightarrow> AList.update e (k, n + 1) (db_runningCallbacks s)
         | None \<Rightarrow> AList.update e (key, 1) (db_runningCallbacks s))\<rparr>"

definition count_down :: "nat \<Rightarrow> 'm act" where
  "count_down e s =
     (case map_of (db_runningCallbacks s) e of
        None \<Rightarrow> (Some CallbackNotTracked, s)
      | Some (k, n) \<Rightarrow>
          let s1 = s\<lparr>db_runningCallbacks := AList.update e (k, n - 1) (db_runningCallbacks s)\<rparr> in
          if n - 1 < 0 then (Some CallbackUnderflow, s1)
          else if n - 1 = 0 then (None, s1\<lparr>db_runningCallbacks := AList.delete e (db_runningCallbacks s1)\<rparr>)
          else (None, s1))"

definition trackRunningCallback :: "string \<Rightarrow> nat list \<Rightarrow> 'm debouncer \<Rightarrow> 'm debouncer" where
  "trackRunningCallback key es s = fold (count_up key) es s"

definition stopTracking :: "nat list \<Rightarrow> 'm act" where
  "stopTracking = for_each count_down"

definition drop_holds :: "(rid \<times> hold_id) list \<Rightarrow> 'm act" where
  "drop_holds = for_each (\<lambda>(i, h). on_budget (release_hold i h))"

text \<open>The holds are taken in order; when one throws, those already taken are dropped again.\<close>

fun take_holds :: "nat list \<Rightarrow> (rid \<times> hold_id) list \<Rightarrow> 'm debouncer
    \<Rightarrow> (debounce_error + (rid \<times> hold_id) list) \<times> 'm debouncer" where
  "take_holds [] hs s = (Inr hs, s)"
| "take_holds (e # es) hs s =
     (case hold (de_rid (entry s e)) (db_budget s) of
        Inl err \<Rightarrow>
          (case drop_holds (rev hs) s of (Some e', s') \<Rightarrow> (Inl e', s') | (None, s') \<Rightarrow> (Inl (BudgetThrew err), s'))
      | Inr (h, b) \<Rightarrow> take_holds es (hs @ [(de_rid (entry s e), h)]) (s\<lparr>db_budget := b\<rparr>))"

definition retainRunningFlush :: "string \<Rightarrow> nat list \<Rightarrow> 'm debouncer
    \<Rightarrow> (debounce_error + (rid \<times> hold_id) list) \<times> 'm debouncer" where
  "retainRunningFlush key es s =
     (case take_holds es [] s of
        (Inl err, s') \<Rightarrow> (Inl err, s')
      | (Inr hs, s') \<Rightarrow> (Inr hs, trackRunningCallback key es s'))"

definition releaseRunning :: "(rid \<times> hold_id) list \<Rightarrow> nat list \<Rightarrow> 'm act" where
  "releaseRunning hs tracked = finally_act (drop_holds hs) (stopTracking tracked)"

section \<open>Workers\<close>

definition upd_chain :: "string \<Rightarrow> (chain \<Rightarrow> chain) \<Rightarrow> 'm debouncer \<Rightarrow> 'm debouncer" where
  "upd_chain key f s =
     (case map_of (db_chains s) key of
        Some c \<Rightarrow> s\<lparr>db_chains := AList.update key (f c) (db_chains s)\<rparr>
      | None \<Rightarrow> s)"

definition pump :: "chain \<Rightarrow> chain" where
  "pump c = (if ch_worker c \<noteq> NoWorker then c else c\<lparr>ch_worker := WorkerLoop\<rparr>)"

definition end_flush :: "string \<Rightarrow> 'm debouncer \<Rightarrow> 'm debouncer" where
  "end_flush key = upd_chain key (\<lambda>c. c\<lparr>ch_running := None, ch_worker := WorkerLoop, ch_holds := [], ch_tracked := []\<rparr>)"

text \<open>
  The start of \<^verbatim>\<open>runFlush\<close>, up to its await.  The first component is the batch handed to
  \<^verbatim>\<open>onFlush\<close>; without one, the entries are settled at once.  Throws end in the empty catch
  of the worker.
\<close>

definition runFlush :: "string \<Rightarrow> batch \<Rightarrow> 'm debouncer \<Rightarrow> nat list option \<times> 'm debouncer" where
  "runFlush key b s =
     (if \<not> db_disposed s \<and> generation key s = ba_generation b
      then (case retainRunningFlush key (ba_entries b) s of
              (Inr hs, s1) \<Rightarrow>
                (Some (ba_entries b),
                 upd_chain key (\<lambda>c. c\<lparr>ch_worker := WorkerAwait, ch_holds := hs, ch_tracked := ba_entries b\<rparr>) s1)
            | (Inl _, s1) \<Rightarrow> (None, end_flush key (snd (settleEntries key (ba_entries b) ByFlush s1))))
      else (None, end_flush key (snd (settleEntries key (ba_entries b) ByFlush s))))"

text \<open>One turn of the worker loop.\<close>

definition worker_turn :: "string \<Rightarrow> 'm debouncer \<Rightarrow> nat list option \<times> 'm debouncer" where
  "worker_turn key s =
     (case map_of (db_chains s) key of
        None \<Rightarrow> (None, s)
      | Some c \<Rightarrow>
          if ch_worker c \<noteq> WorkerLoop then (None, s)
          else case ch_queued c of
            [] \<Rightarrow> (None, upd_chain key (\<lambda>c. c\<lparr>ch_worker := WorkerDone\<rparr>) s)
          | b # rest \<Rightarrow> runFlush key b (upd_chain key (\<lambda>c. c\<lparr>ch_queued := rest, ch_running := Some b\<rparr>) s))"

text \<open>\<^verbatim>\<open>onFlush\<close> has settled, by returning or by throwing.\<close>

definition flush_settled :: "string \<Rightarrow> 'm debouncer \<Rightarrow> 'm debouncer" where
  "flush_settled key s =
     (case map_of (db_chains s) key of
        Some c \<Rightarrow>
          (case (ch_worker c, ch_running c) of
             (WorkerAwait, Some b) \<Rightarrow>
               end_flush key (snd (finally_act (settleEntries key (ba_entries b) ByFlush)
                                     (releaseRunning (ch_holds c) (ch_tracked c)) s))
           | _ \<Rightarrow> s)
      | None \<Rightarrow> s)"

text \<open>The \<^verbatim>\<open>finally\<close> of a finished worker.\<close>

definition worker_finally :: "string \<Rightarrow> 'm debouncer \<Rightarrow> 'm debouncer" where
  "worker_finally key s =
     (case map_of (db_chains s) key of
        None \<Rightarrow> s
      | Some c \<Rightarrow>
          if ch_worker c \<noteq> WorkerDone then s
          else if ch_queued c \<noteq> [] then upd_chain key (\<lambda>c. c\<lparr>ch_worker := WorkerLoop\<rparr>) s
          else forget_idle key (s\<lparr>db_chains := AList.delete key (db_chains s)\<rparr>))"

definition clearCapturedBatches :: "string \<Rightarrow> 'm debouncer \<Rightarrow> 'm debouncer" where
  "clearCapturedBatches key =
     upd_chain key (\<lambda>c. c\<lparr>ch_running := map_option (\<lambda>b. b\<lparr>ba_entries := []\<rparr>) (ch_running c), ch_queued := []\<rparr>)"

definition clear_unstarted :: "nat \<Rightarrow> 'm debouncer \<Rightarrow> 'm debouncer" where
  "clear_unstarted n s =
     (if cb_started (db_cancelBatches s ! n) then s
      else s\<lparr>db_cancelBatches := (db_cancelBatches s)[n := (db_cancelBatches s ! n)\<lparr>cb_entries := []\<rparr>]\<rparr>)"

definition clearQueuedCancellationBatches :: "string \<Rightarrow> 'm debouncer \<Rightarrow> 'm debouncer" where
  "clearQueuedCancellationBatches key s =
     (case map_of (db_cancellationBatches s) key of
        None \<Rightarrow> s
      | Some ns \<Rightarrow>
          let s1 = fold clear_unstarted ns s
          in s1\<lparr>db_cancellationBatches := AList.delete key (db_cancellationBatches s1)\<rparr>)"

text \<open>The timer (or microtask) of bucket \<open>bid\<close> fires.\<close>

definition detachAndQueue :: "string \<Rightarrow> nat \<Rightarrow> 'm act" where
  "detachAndQueue key bid s =
     (case map_of (db_waiting s) key of
        None \<Rightarrow> (None, s)
      | Some bk \<Rightarrow>
          if bk_id bk \<noteq> bid then (None, s)
          else
            let s1 = s\<lparr>db_waiting := AList.delete key (db_waiting s)\<rparr>;
                b = \<lparr>ba_entries = bk_entries bk, ba_generation = generation key s\<rparr>
            in then_act (trackInflight key (bk_entries bk))
                 (\<lambda>s. let c = (case map_of (db_chains s) key of
                                Some c \<Rightarrow> c
                              | None \<Rightarrow> \<lparr>ch_queued = [], ch_running = None, ch_worker = NoWorker, ch_holds = [], ch_tracked = []\<rparr>)
                      in (None, s\<lparr>db_chains := AList.update key (pump (c\<lparr>ch_queued := ch_queued c @ [b]\<rparr>)) (db_chains s)\<rparr>)) s1)"

section \<open>The operations\<close>

definition new_entry :: "string \<Rightarrow> string option \<Rightarrow> rid \<Rightarrow> 'm \<Rightarrow> nat \<Rightarrow> 'm dentry" where
  "new_entry key i r m g =
     \<lparr>de_item = m, de_key = key, de_rid = r, de_id = (if validId i then i else None), de_generation = g,
      de_requested = False, de_pending = False, de_callbackRunning = False, de_retired = False,
      de_settled = NoCancellation, de_hold = None\<rparr>"

text \<open>The reservation succeeded: retain the entry in its bucket.\<close>

definition retain_entry :: "string \<Rightarrow> string option \<Rightarrow> rid \<Rightarrow> 'm \<Rightarrow> 'm debouncer \<Rightarrow> 'm debouncer" where
  "retain_entry key i r m s =
     (let e = length (db_entries s);
          s1 = s\<lparr>db_entries := db_entries s @ [new_entry key i r m (generation key s)],
                 db_inflightIds := (if validId i then set_add (idIndexKey key (the i)) (db_inflightIds s) else db_inflightIds s)\<rparr>
      in case map_of (db_waiting s) key of
           Some bk \<Rightarrow> s1\<lparr>db_waiting := AList.update key (bk\<lparr>bk_entries := bk_entries bk @ [e]\<rparr>) (db_waiting s)\<rparr>
         | None \<Rightarrow> s1\<lparr>db_waiting := AList.update key \<lparr>bk_id = db_nextBucket s, bk_entries = [e]\<rparr> (db_waiting s),
                      db_nextBucket := Suc (db_nextBucket s)\<rparr>)"

definition push :: "'m debounce_config \<Rightarrow> 'm \<Rightarrow> push_answers \<Rightarrow> 'm debouncer
    \<Rightarrow> debounce_error + (push_result \<times> push_call option) \<times> 'm debouncer" where
  "push cfg m pa s =
     (let key = dbc_buildKey cfg m; i = dbc_getId cfg m; v = validId i; recover = (v \<and> pa_cancelledFallback pa) in
      if db_disposed s then Inr ((PDisposed, None), s)
      else if v \<and> pa_overflowClaimed pa then Inr ((POverflowInflight, None), s)
      else case (if v \<and> \<not> recover then pa_peekOutcome pa else None) of
        Some known \<Rightarrow> Inr ((PKnownOutcome known, Some (OnKnownOutcome key (the i) known)), s)
      | None \<Rightarrow>
          if v \<and> idIndexKey key (the i) \<in> set (db_inflightIds s) then Inr ((PDuplicateInflight, None), s)
          else case debounce_charge (dbc_size cfg) m of
            None \<Rightarrow> Inr ((POverflow SessionByteCount None, Some (OnOverflow key i SessionByteCount None recover)), s)
          | Some c \<Rightarrow>
              (case tryReserve (dbc_token cfg key m) (JsInt c) DebounceWaiting (db_budget s) of
                 Inl e \<Rightarrow> Inl (BudgetThrew e)
               | Inr (Rejected reason, b) \<Rightarrow>
                   Inr ((POverflow reason (Some c), Some (OnOverflow key i reason (Some c) recover)), s\<lparr>db_budget := b\<rparr>)
               | Inr (Accepted r, b) \<Rightarrow> Inr ((PAccepted, None), retain_entry key i r m (s\<lparr>db_budget := b\<rparr>))))"

text \<open>Pin one entry for its cancellation callback.\<close>

definition request_cancellation :: "nat \<Rightarrow> 'm act" where
  "request_cancellation e s =
     (let s1 = upd_entry e (\<lambda>d. d\<lparr>de_requested := True, de_pending := True\<rparr>) s;
          promise = (\<lambda>s. (None, if de_settled (entry s e) = NoCancellation
                                  then upd_entry e (\<lambda>d. d\<lparr>de_settled := CancellationPending\<rparr>) s else s))
      in if de_hold (entry s1 e) \<noteq> None then promise s1
         else case hold (de_rid (entry s1 e)) (db_budget s1) of
           Inl err \<Rightarrow> (Some (BudgetThrew err), s1)
         | Inr (h, b) \<Rightarrow> promise (upd_entry e (\<lambda>d. d\<lparr>de_hold := Some h\<rparr>) (s1\<lparr>db_budget := b\<rparr>)))"

definition schedule_cancellation :: "string \<Rightarrow> nat list \<Rightarrow> 'm debouncer \<Rightarrow> 'm debouncer" where
  "schedule_cancellation key es s =
     (let n = length (db_cancelBatches s) in
      s\<lparr>db_cancelBatches := db_cancelBatches s @ [\<lparr>cb_key = key, cb_entries = es, cb_started = False, cb_callback = None\<rparr>],
        db_cancellationBatches :=
          AList.update key ((case map_of (db_cancellationBatches s) key of Some ns \<Rightarrow> ns | None \<Rightarrow> []) @ [n]) (db_cancellationBatches s)\<rparr>)"

definition newly_cancelled :: "string \<Rightarrow> bool option \<Rightarrow> 'm debouncer \<Rightarrow> nat list" where
  "newly_cancelled key notify s =
     (let waitingEntries = (case map_of (db_waiting s) key of Some bk \<Rightarrow> bk_entries bk | None \<Rightarrow> []);
          activeEntries = (case map_of (db_inflightByKey s) key of Some es \<Rightarrow> es | None \<Rightarrow> []);
          exactUnion = set_union activeEntries waitingEntries
      in if notify = Some True then filter (\<lambda>e. \<not> de_requested (entry s e)) exactUnion else exactUnion)"

text \<open>\<open>notify\<close> is the optional field of the options; the result is what was returned or thrown.\<close>

definition cancelKey :: "'m debounce_config \<Rightarrow> string \<Rightarrow> bool option \<Rightarrow> 'm debouncer
    \<Rightarrow> (debounce_error + bool) \<times> 'm debouncer" where
  "cancelKey cfg key notify s =
     (let waitingEntries = (case map_of (db_waiting s) key of Some bk \<Rightarrow> bk_entries bk | None \<Rightarrow> []);
          newly = newly_cancelled key notify s;
          s1 = bumpGeneration key (s\<lparr>db_waiting := AList.delete key (db_waiting s)\<rparr>);
          body = (if notify = Some True \<and> dbc_onCancel cfg
                  then then_act (for_each request_cancellation newly)
                         (then_act (trackInflight key waitingEntries) (\<lambda>s. (None, schedule_cancellation key newly s)))
                  else if notify = Some False
                  then then_act (settleEntries key newly ByRetire)
                         (\<lambda>s. (None, clearQueuedCancellationBatches key (clearCapturedBatches key s)))
                  else settleEntries key newly ByCancel)
      in if newly = [] then (Inr False, s)
         else case body s1 of
           (Some err, s2) \<Rightarrow> (Inl err, s2)
         | (None, s2) \<Rightarrow> (Inr True, forget_idle key s2))"

text \<open>The scheduled cancellation callback starts; the result is what \<^verbatim>\<open>onCancel\<close> is given.\<close>

definition cancel_start :: "nat \<Rightarrow> 'm debouncer \<Rightarrow> nat list option \<times> 'm debouncer" where
  "cancel_start n s =
     (if \<not> n < length (db_cancelBatches s) \<or> cb_started (db_cancelBatches s ! n) then (None, s)
      else
        let cb = db_cancelBatches s ! n; key = cb_key cb; es = cb_entries cb;
            m = (case map_of (db_cancellationBatches s) key of
                   None \<Rightarrow> db_cancellationBatches s
                 | Some ns \<Rightarrow> (case removeAll n ns of
                                [] \<Rightarrow> AList.delete key (db_cancellationBatches s)
                              | ns' \<Rightarrow> AList.update key ns' (db_cancellationBatches s)));
            s1 = s\<lparr>db_cancellationBatches := m,
                   db_cancelBatches := (db_cancelBatches s)[n := cb\<lparr>cb_started := True, cb_entries := [],
                     cb_callback := (if es = [] then None else Some es)\<rparr>]\<rparr>
        in if es = [] then (None, s1)
           else (Some es, trackRunningCallback key es (fold (\<lambda>e. upd_entry e (\<lambda>d. d\<lparr>de_callbackRunning := True\<rparr>)) es s1)))"

text \<open>\<^verbatim>\<open>onCancel\<close> has settled.\<close>

definition cancel_settled :: "nat \<Rightarrow> 'm debouncer \<Rightarrow> 'm debouncer" where
  "cancel_settled n s =
     (if \<not> n < length (db_cancelBatches s) then s
      else let cb = db_cancelBatches s ! n in
        case cb_callback cb of
          None \<Rightarrow> s
        | Some es \<Rightarrow>
            let s1 = s\<lparr>db_cancelBatches := (db_cancelBatches s)[n := cb\<lparr>cb_callback := None\<rparr>]\<rparr>;
                s2 = fold (\<lambda>e. upd_entry e (\<lambda>d. d\<lparr>de_callbackRunning := False\<rparr>)) es s1
            in snd (finally_act (stopTracking es) (settleEntries (cb_key cb) es ByCancel) s2))"

definition retire_bucket :: "string \<times> bucket \<Rightarrow> 'm act" where
  "retire_bucket kb s = settleEntries (fst kb) (bk_entries (snd kb)) ByRetire (bumpGeneration (fst kb) s)"

definition inflight_pairs :: "'m debouncer \<Rightarrow> (string \<times> nat) list" where
  "inflight_pairs s = concat (map (\<lambda>(key, es). map (\<lambda>e. (key, e)) es) (db_inflightByKey s))"

definition dispose_debouncer :: "'m debouncer \<Rightarrow> (debounce_error + nat \<times> nat) \<times> 'm debouncer" where
  "dispose_debouncer s =
     (if db_disposed s then (Inr (0, length (db_runningCallbacks s)), s)
      else
        let waitingCount = sum_list (map (length \<circ> bk_entries \<circ> snd) (db_waiting s)) in
        case for_each retire_bucket (db_waiting s) (s\<lparr>db_disposed := True\<rparr>) of
          (Some err, s1) \<Rightarrow> (Inl err, s1)
        | (None, s1) \<Rightarrow>
            let s2 = s1\<lparr>db_waiting := []\<rparr>; active = inflight_pairs s2 in
            case for_each (\<lambda>(key, e). settleEntries key [e] ByRetire) active s2 of
              (Some err, s3) \<Rightarrow> (Inl err, s3)
            | (None, s3) \<Rightarrow>
                let s4 = fold clearCapturedBatches (js_keys (db_chains s3)) s3;
                    s5 = fold clearQueuedCancellationBatches (js_keys (db_cancellationBatches s4)) s4
                in (Inr (waitingCount, length (set_union (map snd active) (js_keys (db_runningCallbacks s5)))),
                    s5\<lparr>db_inflightIds := []\<rparr>))"

definition debouncer_usage :: "'m debouncer \<Rightarrow> nat \<times> nat \<times> nat" where
  "debouncer_usage s =
     (sum_list (map (length \<circ> bk_entries \<circ> snd) (db_waiting s)),
      card (set (db_inflightEntries s) \<union> set (js_keys (db_runningCallbacks s))),
      card (set (js_keys (db_waiting s)) \<union> set (js_keys (db_chains s)) \<union> set (js_keys (db_cancellationBatches s)) \<union>
            set (map (fst \<circ> snd) (db_runningCallbacks s))))"

definition scheduled_entries :: "'m debouncer \<Rightarrow> nat list" where
  "scheduled_entries s = concat (map (\<lambda>(key, ns). concat (map (\<lambda>n. cb_entries (db_cancelBatches s ! n)) ns)) (db_cancellationBatches s))"

definition diagnostics :: "'m debouncer \<Rightarrow> nat \<times> nat \<times> nat" where
  "diagnostics s =
     (card (set (js_keys (db_runningCallbacks s)) \<union>
            set (concat (map (\<lambda>(key, c). concat (map ba_entries (ch_queued c))) (db_chains s))) \<union> set (scheduled_entries s)),
      sum_list (map (length \<circ> ch_queued \<circ> snd) (db_chains s)) + sum_list (map (length \<circ> snd) (db_cancellationBatches s)),
      length (filter (\<lambda>(key, c). ch_worker c \<noteq> NoWorker) (db_chains s)))"


section \<open>Runs\<close>

text \<open>
  The operations of the debouncer and, in \<open>OpBudget\<close>, what other owners of the shared
  budget do meanwhile.  A throw leaves the state the operation left.
\<close>

datatype 'm db_op =
    OpPush 'm push_answers
  | OpDetach string nat
  | OpTurn string
  | OpFlushSettled string
  | OpFinally string
  | OpCancel string "bool option"
  | OpCancelStart nat
  | OpCancelSettled nat
  | OpDispose
  | OpBudget retention_op

fun db_run :: "'m debounce_config \<Rightarrow> 'm db_op \<Rightarrow> 'm debouncer \<Rightarrow> 'm debouncer" where
  "db_run cfg (OpPush m pa) s = (case push cfg m pa s of Inl _ \<Rightarrow> s | Inr (_, s') \<Rightarrow> s')"
| "db_run cfg (OpDetach key bid) s = snd (detachAndQueue key bid s)"
| "db_run cfg (OpTurn key) s = snd (worker_turn key s)"
| "db_run cfg (OpFlushSettled key) s = flush_settled key s"
| "db_run cfg (OpFinally key) s = worker_finally key s"
| "db_run cfg (OpCancel key notify) s = snd (cancelKey cfg key notify s)"
| "db_run cfg (OpCancelStart n) s = snd (cancel_start n s)"
| "db_run cfg (OpCancelSettled n) s = cancel_settled n s"
| "db_run cfg OpDispose s = snd (dispose_debouncer s)"
| "db_run cfg (OpBudget rop) s = (case retention_run rop (db_budget s) of Inl _ \<Rightarrow> s | Inr b \<Rightarrow> s\<lparr>db_budget := b\<rparr>)"

definition db_exec :: "'m debounce_config \<Rightarrow> 'm db_op list \<Rightarrow> 'm debouncer \<Rightarrow> 'm debouncer" where
  "db_exec cfg ops s = fold (db_run cfg) ops s"

section \<open>Frames\<close>

text \<open>A reflexive, transitive relation every statement respects is respected by loops and blocks.\<close>

locale act_frame =
  fixes R :: "'m debouncer \<Rightarrow> 'm debouncer \<Rightarrow> bool"
  assumes refl: "R s s" and trans: "R s s' \<Longrightarrow> R s' s'' \<Longrightarrow> R s s''"
begin

lemma then_act: "(\<And>s. R s (snd (f s))) \<Longrightarrow> (\<And>s. R s (snd (g s))) \<Longrightarrow> R s (snd (then_act f g s))"
  by (auto simp: then_act_def split: prod.split option.split intro: trans) (metis snd_conv trans)+

lemma finally_act: "(\<And>s. R s (snd (f s))) \<Longrightarrow> (\<And>s. R s (snd (g s))) \<Longrightarrow> R s (snd (finally_act f g s))"
  by (auto simp: finally_act_def split: prod.split option.split) (metis snd_conv trans)+

lemma for_each: "(\<And>x s. R s (snd (f x s))) \<Longrightarrow> R s (snd (for_each f xs s))"
proof (induction xs arbitrary: s)
  case Nil
  then show ?case by (simp add: refl)
next
  case (Cons x xs)
  then show ?case by (simp add: then_act)
qed

lemma fold: "(\<And>x s. R s (f x s)) \<Longrightarrow> R s (fold f xs s)"
proof (induction xs arbitrary: s)
  case Nil
  then show ?case by (simp add: refl)
next
  case (Cons x xs)
  show ?case using Cons.prems Cons.IH[OF Cons.prems, of "f x s"] trans by simp blast
qed

end

text \<open>The shared budget stays consistent and keeps its limits.\<close>

definition budget_step :: "budget \<Rightarrow> budget \<Rightarrow> bool" where
  "budget_step b b' \<longleftrightarrow> (budget_inv b \<longrightarrow> budget_inv b' \<and> b_limits b' = b_limits b)"

lemma budget_step_refl [simp]: "budget_step b b"
  by (simp add: budget_step_def)

lemma budget_step_run: "retention_run rop b = Inr b' \<Longrightarrow> budget_step b b'"
  using retention_run_step[of b rop] by (auto simp: budget_step_def)

lemma budget_step_ops:
  "requestRelease i b = Inr b' \<Longrightarrow> budget_step b b'" "release_hold i h b = Inr b' \<Longrightarrow> budget_step b b'"
  "transfer i own b = Inr b' \<Longrightarrow> budget_step b b'" "hold i b = Inr (h', b') \<Longrightarrow> budget_step b b'"
  "tryReserve t n own b = Inr (res, b') \<Longrightarrow> budget_step b b'"
  using budget_step_run[of "RequestRelease i" b b'] budget_step_run[of "ReleaseHold i h" b b']
    budget_step_run[of "Transfer i own" b b'] budget_step_run[of "Hold i" b b'] budget_step_run[of "TryReserve t n own" b b'] by simp_all

definition entries_evolve :: "'m debouncer \<Rightarrow> 'm debouncer \<Rightarrow> bool" where
  "entries_evolve s s' \<longleftrightarrow>
     length (db_entries s) \<le> length (db_entries s') \<and>
     (\<forall>e < length (db_entries s).
        de_key (entry s' e) = de_key (entry s e) \<and> de_generation (entry s' e) = de_generation (entry s e) \<and>
        de_rid (entry s' e) = de_rid (entry s e) \<and> (de_requested (entry s e) \<longrightarrow> de_requested (entry s' e))) \<and>
     budget_step (db_budget s) (db_budget s')"

text \<open>Statements that leave buckets, workers and generations alone, and those that may
  also advance a generation or forget that of an idle key.\<close>

definition quiet :: "'m debouncer \<Rightarrow> 'm debouncer \<Rightarrow> bool" where
  "quiet s s' \<longleftrightarrow>
     db_waiting s' = db_waiting s \<and> db_chains s' = db_chains s \<and> db_keyGeneration s' = db_keyGeneration s \<and>
     db_disposed s' = db_disposed s \<and> entries_evolve s s'"

definition settling :: "'m debouncer \<Rightarrow> 'm debouncer \<Rightarrow> bool" where
  "settling s s' \<longleftrightarrow>
     db_waiting s' = db_waiting s \<and> db_chains s' = db_chains s \<and>
     (\<forall>k. generation k s \<le> generation k s' \<or> (map_of (db_chains s) k = None \<and> map_of (db_waiting s) k = None)) \<and>
     (db_disposed s \<longrightarrow> db_disposed s') \<and> entries_evolve s s'"

lemma entries_evolve_refl [simp]: "entries_evolve s s"
  by (simp add: entries_evolve_def)

lemma entries_evolve_trans: "entries_evolve s s' \<Longrightarrow> entries_evolve s' s'' \<Longrightarrow> entries_evolve s s''"
  by (auto simp: entries_evolve_def budget_step_def)

lemma entries_evolve_same: "db_entries s' = db_entries s \<Longrightarrow> budget_step (db_budget s) (db_budget s') \<Longrightarrow> entries_evolve s s'"
  by (simp add: entries_evolve_def entry_def)

interpretation quiet: act_frame quiet
  by unfold_locales (auto simp: quiet_def intro: entries_evolve_trans)

interpretation settling: act_frame settling
proof
  show "settling s s" for s :: "'m debouncer" by (simp add: settling_def)
  show "settling s s''" if "settling s s'" "settling s' s''" for s s' s'' :: "'m debouncer"
    using that unfolding settling_def by (metis entries_evolve_trans order_trans)
qed

lemma quiet_settling: "quiet s s' \<Longrightarrow> settling s s'"
  by (simp add: quiet_def settling_def generation_def)

lemma entries_evolve_upd:
  "(\<And>d. de_key (f d) = de_key d \<and> de_generation (f d) = de_generation d \<and> de_rid (f d) = de_rid d \<and>
        (de_requested d \<longrightarrow> de_requested (f d))) \<Longrightarrow> entries_evolve s (upd_entry e f s)"
  by (cases "e < length (db_entries s)")
     (simp_all add: entries_evolve_def upd_entry_def entry_def nth_list_update)

lemma quiet_upd_entry:
  "(\<And>d. de_key (f d) = de_key d \<and> de_generation (f d) = de_generation d \<and> de_rid (f d) = de_rid d \<and>
        (de_requested d \<longrightarrow> de_requested (f d))) \<Longrightarrow> quiet s (upd_entry e f s)"
  using entries_evolve_upd[of f s e] by (simp add: quiet_def) (simp add: upd_entry_def)

lemma quiet_fields: "db_waiting s' = db_waiting s \<Longrightarrow> db_chains s' = db_chains s \<Longrightarrow> db_keyGeneration s' = db_keyGeneration s \<Longrightarrow>
   db_disposed s' = db_disposed s \<Longrightarrow> db_entries s' = db_entries s \<Longrightarrow>
   budget_step (db_budget s) (db_budget s') \<Longrightarrow> quiet s s'"
  by (simp add: quiet_def entries_evolve_same)

lemma quiet_on_budget: "(\<And>b b'. f b = Inr b' \<Longrightarrow> budget_step b b') \<Longrightarrow> quiet s (snd (on_budget f s))"
  by (auto simp: on_budget_def split: sum.split intro!: quiet_fields)

lemma quiet_requestRelease: "quiet s (snd (on_budget (requestRelease i) s))"
  by (rule quiet_on_budget) (rule budget_step_ops(1))

lemma quiet_releaseEntry: "quiet s (snd (releaseEntry key e req s))"
proof -
  have "quiet s (drop_inflight key e s)" for s :: "'a debouncer"
    by (rule quiet_fields) (simp_all add: drop_inflight_def Let_def split: option.split list.split)
  then show ?thesis unfolding releaseEntry_def
    by (intro quiet.then_act) (auto simp: skip_act_def quiet.refl quiet_requestRelease)
qed

lemma quiet_track_one: "quiet s (snd (track_one key e s))"
proof -
  have "quiet s (index_inflight key e s)" by (rule quiet_fields) (simp_all add: index_inflight_def)
  then show ?thesis by (auto simp: track_one_def Let_def intro: quiet.trans[OF _ quiet_on_budget] budget_step_ops)
qed

lemma quiet_trackInflight: "quiet s (snd (trackInflight key es s))"
proof -
  let ?s1 = "if map_of (db_inflightByKey s) key = None then s\<lparr>db_inflightByKey := AList.update key [] (db_inflightByKey s)\<rparr> else s"
  have "quiet s ?s1" by (rule quiet_fields) simp_all
  then show ?thesis unfolding trackInflight_def Let_def
    by (rule quiet.trans) (rule quiet.for_each, rule quiet_track_one)
qed

lemma quiet_release_cancel_hold: "quiet s (snd (release_cancel_hold own e s))"
  unfolding release_cancel_hold_def
  by (auto simp: quiet.refl split: option.split intro!: quiet.then_act quiet_on_budget quiet_upd_entry budget_step_ops(2))

lemma quiet_settle_one: "quiet s (snd (settle_one key own e s))"
proof -
  have 1: "quiet s (upd_entry e (mark_settled own) s)" for s :: "'a debouncer"
    by (rule quiet_upd_entry) (simp add: mark_settled_def split: settle_owner.split)
  have 2: "quiet s (drop_id key e s)" for s :: "'a debouncer"
    by (rule quiet_fields) (simp_all add: drop_id_def split: option.split)
  have 3: "quiet s (resolve_cancellation own e s)" for s :: "'a debouncer"
    by (auto simp: resolve_cancellation_def quiet.refl intro!: quiet_upd_entry)
  have 4: "quiet s (snd (then_act (releaseEntry key e req) (then_act (release_cancel_hold own e)
      (\<lambda>s. (None, resolve_cancellation own e (drop_id key e s)))) s))" for s :: "'a debouncer" and req
    using 2 3 quiet.trans by (intro quiet.then_act quiet_releaseEntry quiet_release_cancel_hold) (simp, blast)
  show ?thesis unfolding settle_one_def Let_def using quiet.trans[OF 1 4] by (simp add: quiet.refl)
qed

lemma settling_forget_idle: "settling s (forget_idle key s)"
  by (auto simp: settling_def forget_idle_def generation_def delete_conv' entries_evolve_same)

lemma settling_settleEntries: "settling s (snd (settleEntries key es own s))"
  unfolding settleEntries_def
  by (rule settling.then_act) (auto simp: settling_forget_idle intro!: quiet_settling quiet.for_each quiet_settle_one)

lemma settling_bump: "settling s (bumpGeneration key s)"
  by (auto simp: settling_def bumpGeneration_def generation_def update_conv' entries_evolve_same)

section \<open>The generation fence\<close>

text \<open>The entries a key's bucket or worker still refers to.\<close>

definition chain_entries :: "chain \<Rightarrow> nat set" where
  "chain_entries c =
     set (concat (map ba_entries (ch_queued c))) \<union> (case ch_running c of Some b \<Rightarrow> set (ba_entries b) | None \<Rightarrow> {}) \<union> set (ch_tracked c)"

definition held :: "'m debouncer \<Rightarrow> string \<Rightarrow> nat set" where
  "held s k =
     (case map_of (db_waiting s) k of Some bk \<Rightarrow> set (bk_entries bk) | None \<Rightarrow> {}) \<union>
     (case map_of (db_chains s) k of Some c \<Rightarrow> chain_entries c | None \<Rightarrow> {})"

definition busy :: "'m debouncer \<Rightarrow> string \<Rightarrow> bool" where
  "busy s k \<longleftrightarrow> map_of (db_chains s) k \<noteq> None \<or> map_of (db_waiting s) k \<noteq> None"

definition of_key :: "'m debouncer \<Rightarrow> string \<Rightarrow> nat \<Rightarrow> bool" where
  "of_key s k e \<longleftrightarrow> e < length (db_entries s) \<and> de_key (entry s e) = k \<and> de_generation (entry s e) \<le> generation k s"

definition fenced :: "'m debouncer \<Rightarrow> bool" where
  "fenced s \<longleftrightarrow> (\<forall>k. \<forall>e\<in>held s k. of_key s k e)"

definition fence_step :: "'m debouncer \<Rightarrow> 'm debouncer \<Rightarrow> bool" where
  "fence_step s s' \<longleftrightarrow>
     entries_evolve s s' \<and> (db_disposed s \<longrightarrow> db_disposed s') \<and>
     (\<forall>k. busy s' k \<longrightarrow> generation k s \<le> generation k s') \<and>
     (\<forall>k. \<forall>e\<in>held s' k. e \<in> held s k \<or> (length (db_entries s) \<le> e \<and> of_key s' k e))"

lemma held_busy: "e \<in> held s k \<Longrightarrow> busy s k"
  by (auto simp: held_def busy_def split: option.splits)

lemma of_key_evolve: "of_key s k e \<Longrightarrow> entries_evolve s s' \<Longrightarrow> generation k s \<le> generation k s' \<Longrightarrow> of_key s' k e"
  by (auto simp: of_key_def entries_evolve_def)

lemma fence_stepD:
  assumes "fence_step s s'"
  shows "entries_evolve s s'" "db_disposed s \<Longrightarrow> db_disposed s'" "busy s' k \<Longrightarrow> generation k s \<le> generation k s'"
    "e \<in> held s' k \<Longrightarrow> e \<in> held s k \<or> (length (db_entries s) \<le> e \<and> of_key s' k e)"
    "length (db_entries s) \<le> length (db_entries s')"
  using assms by (auto simp: fence_step_def entries_evolve_def)

lemma fenced_step:
  assumes "fenced s" "fence_step s s'"
  shows "fenced s'"
  unfolding fenced_def
proof (intro allI ballI)
  fix k e
  assume e: "e \<in> held s' k"
  note d = fence_stepD[OF assms(2)]
  show "of_key s' k e"
    using d(4)[OF e] assms(1) of_key_evolve[OF _ d(1) d(3)[OF held_busy[OF e]]] by (auto simp: fenced_def)
qed

lemma fence_step_refl [simp]: "fence_step s s"
  by (simp add: fence_step_def)

lemma settling_held: "settling s s' \<Longrightarrow> held s' = held s \<and> busy s' = busy s"
  by (simp add: settling_def held_def busy_def fun_eq_iff)

lemma fence_step_settling: "settling s s' \<Longrightarrow> fence_step s s'"
  using settling_held[of s s'] by (auto simp: fence_step_def settling_def busy_def)

text \<open>A step composes with one after which no further key is busy.\<close>

lemma fence_step_comp:
  assumes a: "fence_step s s1" and b: "fence_step s1 s2" and busy: "\<And>k. busy s2 k \<Longrightarrow> busy s1 k"
  shows "fence_step s s2"
proof -
  have ev: "entries_evolve s s2" using fence_stepD(1)[OF a] fence_stepD(1)[OF b] by (rule entries_evolve_trans)
  have gen: "generation k s \<le> generation k s2" if "busy s2 k" for k
    using fence_stepD(3)[OF a busy[OF that]] fence_stepD(3)[OF b that] by (rule order_trans)
  have "e \<in> held s k \<or> (length (db_entries s) \<le> e \<and> of_key s2 k e)" if e: "e \<in> held s2 k" for k e
  proof (cases "e \<in> held s1 k")
    case True
    have "generation k s1 \<le> generation k s2" "entries_evolve s1 s2" using b held_busy[OF e] by (auto simp: fence_step_def)
    then show ?thesis using fence_stepD(4)[OF a True] of_key_evolve[of s1 k e s2] by blast
  next
    case False
    then show ?thesis using fence_stepD(4)[OF b e] fence_stepD(5)[OF a] by auto
  qed
  then show ?thesis using a b ev gen by (auto simp: fence_step_def)
qed

lemma fence_step_then_settling: "fence_step s s1 \<Longrightarrow> settling s1 s2 \<Longrightarrow> fence_step s s2"
  using fence_step_comp fence_step_settling settling_held by metis

text \<open>Dropping or shuffling what a key refers to.\<close>

lemma fence_step_shrink:
  assumes "db_entries s' = db_entries s" "db_keyGeneration s' = db_keyGeneration s" "db_disposed s' = db_disposed s"
    and "db_budget s' = db_budget s" and "\<And>k. held s' k \<subseteq> held s k"
  shows "fence_step s s'"
  using assms by (auto simp: fence_step_def generation_def entries_evolve_same)


subsection \<open>Every operation respects the fence\<close>

lemma upd_chain_frame [simp]:
  "db_entries (upd_chain key f s) = db_entries s" "db_keyGeneration (upd_chain key f s) = db_keyGeneration s"
  "db_disposed (upd_chain key f s) = db_disposed s" "db_waiting (upd_chain key f s) = db_waiting s"
  "db_budget (upd_chain key f s) = db_budget s" "generation k (upd_chain key f s) = generation k s"
  by (simp_all add: upd_chain_def generation_def split: option.split)

lemma upd_chain_of:
  "map_of (db_chains (upd_chain key f s)) k = (if k = key then map_option f (map_of (db_chains s) k) else map_of (db_chains s) k)"
  by (auto simp: upd_chain_def update_conv' split: option.split)

lemma busy_upd_chain [simp]: "busy (upd_chain key f s) k = busy s k"
  by (simp add: busy_def upd_chain_of)

lemma fence_upd_chain:
  "(\<And>c. map_of (db_chains s) key = Some c \<Longrightarrow> chain_entries (f c) \<subseteq> chain_entries c) \<Longrightarrow> fence_step s (upd_chain key f s)"
  by (rule fence_step_shrink) (auto simp: held_def upd_chain_of split: option.splits if_splits)

lemma fence_then_chain:
  "fence_step s s1 \<Longrightarrow> (\<And>c. map_of (db_chains s1) key = Some c \<Longrightarrow> chain_entries (f c) \<subseteq> chain_entries c) \<Longrightarrow>
   fence_step s (upd_chain key f s1)"
  by (rule fence_step_comp) (auto intro: fence_upd_chain)

lemma fence_end_flush: "fence_step s s1 \<Longrightarrow> fence_step s (end_flush key s1)"
  unfolding end_flush_def by (rule fence_then_chain) (auto simp: chain_entries_def split: option.splits)

lemma quiet_drop_holds: "quiet s (snd (drop_holds hs s))"
  unfolding drop_holds_def by (rule quiet.for_each) (auto intro!: quiet_on_budget budget_step_ops(2) split: prod.split)

lemma quiet_take_holds: "quiet s (snd (take_holds es hs s))"
proof (induction es hs s rule: take_holds.induct)
  case (1 hs s)
  then show ?case by (simp add: quiet.refl)
next
  case (2 e es hs s)
  show ?case
  proof (cases "hold (de_rid (entry s e)) (db_budget s)")
    case (Inl err)
    then show ?thesis using quiet_drop_holds[of s "rev hs"] by (auto split: prod.split option.split)
  next
    case (Inr hb)
    have "budget_step (db_budget s) (snd hb)" using Inr budget_step_ops(4)[of "de_rid (entry s e)" "db_budget s" "fst hb" "snd hb"] by simp
    then have "quiet s (s\<lparr>db_budget := snd hb\<rparr>)" by (intro quiet_fields) simp_all
    then show ?thesis using 2[OF Inr] Inr quiet.trans by (cases hb) (auto simp del: take_holds.simps simp: take_holds.simps(2))
  qed
qed

lemma quiet_trackRunningCallback: "quiet s (trackRunningCallback key es s)"
  unfolding trackRunningCallback_def
  by (rule quiet.fold) (auto simp: count_up_def intro!: quiet_fields)

lemma quiet_retainRunningFlush: "quiet s (snd (retainRunningFlush key es s))"
  using quiet_take_holds[of s es "[]"]
  by (auto simp: retainRunningFlush_def split: prod.split sum.split intro: quiet.trans[OF _ quiet_trackRunningCallback])

lemma quiet_stopTracking: "quiet s (snd (stopTracking es s))"
  unfolding stopTracking_def
  by (rule quiet.for_each) (auto simp: count_down_def Let_def split: option.split intro!: quiet_fields quiet.refl)

lemma quiet_releaseRunning: "quiet s (snd (releaseRunning hs es s))"
  unfolding releaseRunning_def by (rule quiet.finally_act[OF quiet_drop_holds quiet_stopTracking])

lemma fence_runFlush:
  assumes "\<And>c. map_of (db_chains s) key = Some c \<Longrightarrow> set (ba_entries b) \<subseteq> chain_entries c"
  shows "fence_step s (snd (runFlush key b s))"
proof -
  obtain r s1 where r: "retainRunningFlush key (ba_entries b) s = (r, s1)" by fastforce
  then have q: "quiet s s1" using quiet_retainRunningFlush[of s key "ba_entries b"] by simp
  have 1: "fence_step s (upd_chain key (\<lambda>c. c\<lparr>ch_worker := WorkerAwait, ch_holds := hs, ch_tracked := ba_entries b\<rparr>) s1)" for hs
  proof (rule fence_then_chain[OF fence_step_settling[OF quiet_settling[OF q]]])
    fix c
    assume "map_of (db_chains s1) key = Some c"
    then have "set (ba_entries b) \<subseteq> chain_entries c" using q assms by (simp add: quiet_def)
    then show "chain_entries (c\<lparr>ch_worker := WorkerAwait, ch_holds := hs, ch_tracked := ba_entries b\<rparr>) \<subseteq> chain_entries c"
      by (auto simp: chain_entries_def)
  qed
  have 2: "fence_step s' (end_flush key (snd (settleEntries key es ByFlush s')))" for s' :: "'a debouncer" and es
    by (rule fence_end_flush) (rule fence_step_settling[OF settling_settleEntries])
  have 3: "fence_step s (end_flush key (snd (settleEntries key es ByFlush s1)))" for es
    using quiet_settling[OF q] settling_settleEntries settling.trans by (intro fence_end_flush fence_step_settling) blast
  show ?thesis using r 1 2 3 by (auto simp: runFlush_def split: sum.split)
qed

lemma busy_end_flush [simp]: "busy (end_flush key s) = busy s"
  by (simp add: end_flush_def fun_eq_iff)

lemma busy_settling: "settling s s' \<Longrightarrow> busy s' = busy s"
  by (simp add: settling_held)

lemma busy_runFlush: "busy (snd (runFlush key b s)) = busy s"
proof -
  obtain r s1 where r: "retainRunningFlush key (ba_entries b) s = (r, s1)" by fastforce
  have 1: "busy s1 = busy s" using busy_settling[OF quiet_settling[OF quiet_retainRunningFlush[of s key "ba_entries b"]]] r by simp
  have 2: "busy (snd (settleEntries key es ByFlush s')) = busy s'" for s' :: "'a debouncer" and es
    by (rule busy_settling[OF settling_settleEntries])
  show ?thesis using r 1 2 by (auto simp: runFlush_def fun_eq_iff split: sum.split)
qed

lemma fence_worker_turn: "fence_step s (snd (worker_turn key s))"
proof (cases "\<exists>c b rest. map_of (db_chains s) key = Some c \<and> ch_worker c = WorkerLoop \<and> ch_queued c = b # rest")
  case True
  then obtain c b rest where c: "map_of (db_chains s) key = Some c" "ch_worker c = WorkerLoop" "ch_queued c = b # rest" by blast
  let ?s1 = "upd_chain key (\<lambda>c. c\<lparr>ch_queued := rest, ch_running := Some b\<rparr>) s"
  have 1: "fence_step s ?s1" using c by (intro fence_upd_chain) (auto simp: chain_entries_def)
  have 2: "fence_step ?s1 (snd (runFlush key b ?s1))"
    by (rule fence_runFlush) (auto simp: upd_chain_of chain_entries_def c)
  have "busy (snd (runFlush key b ?s1)) k \<Longrightarrow> busy ?s1 k" for k by (simp add: busy_runFlush)
  then show ?thesis using fence_step_comp[OF 1 2] c by (simp add: worker_turn_def)
next
  case False
  then show ?thesis by (auto simp: worker_turn_def split: option.split list.split intro!: fence_upd_chain) (auto simp: chain_entries_def)
qed

lemma fence_flush_settled: "fence_step s (flush_settled key s)"
proof -
  have "settling s (snd (finally_act (settleEntries key es ByFlush) (releaseRunning hs tr) s))" for es hs tr
    by (rule settling.finally_act) (auto intro: settling_settleEntries quiet_settling quiet_releaseRunning)
  then have "fence_step s (end_flush key (snd (finally_act (settleEntries key es ByFlush) (releaseRunning hs tr) s)))" for es hs tr
    by (rule fence_end_flush[OF fence_step_settling])
  then show ?thesis by (auto simp: flush_settled_def split: option.split worker.split)
qed

lemma fence_worker_finally: "fence_step s (worker_finally key s)"
proof -
  have 1: "fence_step s (s\<lparr>db_chains := AList.delete key (db_chains s)\<rparr>)"
    by (rule fence_step_shrink) (auto simp: held_def delete_conv' split: option.splits if_splits)
  show ?thesis
    using fence_step_then_settling[OF 1 settling_forget_idle]
    by (auto simp: worker_finally_def split: option.split intro!: fence_upd_chain) (auto simp: chain_entries_def)
qed

lemma fence_push: "push cfg m pa s = Inr (r, s') \<Longrightarrow> fence_step s s'"
proof -
  assume p: "push cfg m pa s = Inr (r, s')"
  have 0: "fence_step s (s\<lparr>db_budget := b\<rparr>)" if "budget_step (db_budget s) b" for b
    using that by (intro fence_step_settling quiet_settling quiet_fields) simp_all
  have 1: "fence_step s (retain_entry key i rid m (s\<lparr>db_budget := b\<rparr>))" if "budget_step (db_budget s) b" for key i rid b
    using that by (auto simp: fence_step_def retain_entry_def Let_def entries_evolve_def entry_def nth_append held_def of_key_def
        new_entry_def generation_def update_conv' busy_def split: option.splits if_splits)
  show ?thesis using p 0 1
    by (auto simp: push_def Let_def split: if_splits option.splits sum.splits prod.splits reserve_result.splits
        dest!: budget_step_ops(5))
qed

lemma fence_detach: "fence_step s (snd (detachAndQueue key bid s))"
proof (cases "\<exists>bk. map_of (db_waiting s) key = Some bk \<and> bk_id bk = bid")
  case False
  then show ?thesis by (auto simp: detachAndQueue_def split: option.split)
next
  case True
  then obtain bk where bk: "map_of (db_waiting s) key = Some bk" "bk_id bk = bid" by blast
  let ?s1 = "s\<lparr>db_waiting := AList.delete key (db_waiting s)\<rparr>"
  obtain r s2 where t: "trackInflight key (bk_entries bk) ?s1 = (r, s2)" by fastforce
  have q: "quiet ?s1 s2" using quiet_trackInflight[of ?s1 key "bk_entries bk"] t by simp
  have ev: "entries_evolve s s2" using q by (simp add: quiet_def entries_evolve_def entry_def)
  have gen: "generation k s2 = generation k s" for k using q by (simp add: quiet_def generation_def)
  have w: "db_waiting s2 = AList.delete key (db_waiting s)" "db_chains s2 = db_chains s" "db_disposed s2 = db_disposed s"
    using q by (simp_all add: quiet_def)
  have fs: "fence_step s s2"
    using ev gen w by (auto simp: fence_step_def held_def delete_conv' split: option.splits if_splits)
  show ?thesis
  proof (cases r)
    case (Some err)
    then show ?thesis using bk t fs by (simp add: detachAndQueue_def Let_def then_act_def)
  next
    case None
    define c where "c = (case map_of (db_chains s2) key of Some c \<Rightarrow> c
        | None \<Rightarrow> \<lparr>ch_queued = [], ch_running = None, ch_worker = NoWorker, ch_holds = [], ch_tracked = []\<rparr>)"
    define c' where "c' = pump (c\<lparr>ch_queued := ch_queued c @ [\<lparr>ba_entries = bk_entries bk, ba_generation = generation key s\<rparr>]\<rparr>)"
    let ?s3 = "s2\<lparr>db_chains := AList.update key c' (db_chains s2)\<rparr>"
    have "chain_entries c' = chain_entries c \<union> set (bk_entries bk)"
      by (auto simp: c'_def pump_def chain_entries_def)
    moreover have "chain_entries c = (case map_of (db_chains s) key of Some c \<Rightarrow> chain_entries c | None \<Rightarrow> {})"
      using w by (auto simp: c_def chain_entries_def split: option.split)
    ultimately have "held ?s3 k \<subseteq> held s k" for k
      using bk w by (auto simp: held_def update_conv' delete_conv' split: option.splits if_splits)
    moreover have "generation k ?s3 = generation k s" "entries_evolve s ?s3" for k
      using gen ev by (simp_all add: generation_def entries_evolve_def entry_def)
    ultimately have "fence_step s ?s3" using w by (auto simp: fence_step_def)
    moreover have "snd (detachAndQueue key bid s) = ?s3"
      using bk t None by (simp add: detachAndQueue_def Let_def then_act_def c'_def c_def)
    ultimately show ?thesis by simp
  qed
qed

text \<open>Steps after which no further key is busy compose freely.\<close>

definition fence_down :: "'m debouncer \<Rightarrow> 'm debouncer \<Rightarrow> bool" where
  "fence_down s s' \<longleftrightarrow> fence_step s s' \<and> (\<forall>k. busy s' k \<longrightarrow> busy s k)"

interpretation fence: act_frame fence_down
  by unfold_locales (auto simp: fence_down_def intro: fence_step_comp)

lemma fence_down_settling: "settling s s' \<Longrightarrow> fence_down s s'"
  by (simp add: fence_down_def fence_step_settling busy_settling)

lemmas fence_down_quiet = fence_down_settling[OF quiet_settling]

lemma fence_down_clear: "fence_down s (clearCapturedBatches key s)"
  by (auto simp: fence_down_def clearCapturedBatches_def chain_entries_def intro!: fence_upd_chain split: option.splits)

lemma quiet_clear_queued: "quiet s (clearQueuedCancellationBatches key s)"
proof -
  have 1: "quiet s (fold clear_unstarted ns s)" for ns
    by (rule quiet.fold) (auto simp: clear_unstarted_def intro!: quiet_fields)
  have "quiet s (s1\<lparr>db_cancellationBatches := x\<rparr>)" if "quiet s s1" for s1 :: "'a debouncer" and x
    using that by (rule quiet.trans) (rule quiet_fields, simp_all)
  then show ?thesis using 1 by (auto simp: clearQueuedCancellationBatches_def Let_def quiet.refl split: option.split)
qed

lemma quiet_request_cancellation: "quiet s (snd (request_cancellation e s))"
proof -
  have 1: "quiet s (upd_entry e (\<lambda>d. d\<lparr>de_requested := True, de_pending := True\<rparr>) s)" for s :: "'a debouncer"
    by (rule quiet_upd_entry) simp
  have 2: "quiet s (if de_settled (entry s e) = NoCancellation then upd_entry e (\<lambda>d. d\<lparr>de_settled := CancellationPending\<rparr>) s else s)"
    for s :: "'a debouncer" by (auto simp: quiet.refl intro!: quiet_upd_entry)
  have 3: "quiet s (upd_entry e (\<lambda>d. d\<lparr>de_hold := Some h\<rparr>) (s\<lparr>db_budget := b\<rparr>))"
    if "budget_step (db_budget s) b" for s :: "'a debouncer" and h b
    using that by (intro quiet.trans[OF _ quiet_upd_entry] quiet_fields) simp_all
  let ?s1 = "upd_entry e (\<lambda>d. d\<lparr>de_requested := True, de_pending := True\<rparr>) s"
  show ?thesis
  proof (cases "hold (de_rid (entry ?s1 e)) (db_budget ?s1)")
    case (Inl err)
    then show ?thesis using quiet.trans[OF 1 2, of s] 1[of s] by (auto simp: request_cancellation_def Let_def)
  next
    case (Inr hb)
    then have "budget_step (db_budget ?s1) (snd hb)" using budget_step_ops(4)[of _ _ "fst hb" "snd hb"] by simp
    then show ?thesis using quiet.trans[OF 1 2, of s] quiet.trans[OF quiet.trans[OF 1 3] 2, of s "snd hb" "fst hb"] Inr
      by (cases hb) (auto simp: request_cancellation_def Let_def)
  qed
qed

lemma quiet_schedule: "quiet s (schedule_cancellation key es s)"
  by (rule quiet_fields) (simp_all add: schedule_cancellation_def Let_def)

lemma fence_down_unwait: "fence_down s (s\<lparr>db_waiting := AList.delete key (db_waiting s)\<rparr>)" "fence_down s (s\<lparr>db_waiting := []\<rparr>)"
  by (auto simp: fence_down_def busy_def held_def delete_conv' intro!: fence_step_shrink split: option.splits if_splits)

lemma fence_cancelKey: "fence_down s (snd (cancelKey cfg key notify s))"
proof -
  let ?s1 = "bumpGeneration key (s\<lparr>db_waiting := AList.delete key (db_waiting s)\<rparr>)"
  have 1: "fence_down s ?s1" by (rule fence.trans[OF fence_down_unwait(1) fence_down_settling[OF settling_bump]])
  have 2: "fence_down t (snd (then_act (for_each request_cancellation es) (then_act (trackInflight key ws)
      (\<lambda>s. (None, schedule_cancellation key es s))) t))" for t :: "'a debouncer" and es ws
    by (intro fence.then_act fence.for_each fence_down_quiet) (simp_all add: quiet_request_cancellation quiet_trackInflight quiet_schedule)
  have 3: "fence_down t (snd (then_act (settleEntries key es ByRetire)
      (\<lambda>s. (None, clearQueuedCancellationBatches key (clearCapturedBatches key s))) t))" for t :: "'a debouncer" and es
    using fence.trans[OF fence_down_clear fence_down_quiet[OF quiet_clear_queued]]
    by (intro fence.then_act) (simp_all add: fence_down_settling settling_settleEntries)
  have 4: "fence_down t (snd (settleEntries key es ByCancel t))" for t :: "'a debouncer" and es
    by (rule fence_down_settling[OF settling_settleEntries])
  have fin: "fence_down s (snd (case r of (Some err, s2) \<Rightarrow> (Inl err, s2) | (None, s2) \<Rightarrow> (Inr True, forget_idle key s2)))"
    if "fence_down ?s1 (snd r)" for r :: "debounce_error option \<times> 'a debouncer"
    using fence.trans[OF 1 that] fence.trans[OF fence.trans[OF 1 that] fence_down_settling[OF settling_forget_idle]]
    by (auto split: prod.split option.split)
  show ?thesis unfolding cancelKey_def Let_def using fin[OF 2] fin[OF 3] fin[OF 4] by (auto simp: fence.refl)
qed

lemma quiet_flag_all: "quiet s (fold (\<lambda>e. upd_entry e (\<lambda>d. d\<lparr>de_callbackRunning := b\<rparr>)) es s)"
  by (rule quiet.fold) (rule quiet_upd_entry, simp)

lemma fence_cancel_start: "fence_down s (snd (cancel_start n s))"
proof -
  have 1: "quiet s (s\<lparr>db_cancellationBatches := m, db_cancelBatches := cs\<rparr>)" for m cs by (rule quiet_fields) simp_all
  show ?thesis using quiet.trans[OF quiet.trans[OF 1 quiet_flag_all] quiet_trackRunningCallback] 1
    by (auto simp: cancel_start_def Let_def quiet.refl intro!: fence_down_quiet)
qed

lemma fence_cancel_settled: "fence_down s (cancel_settled n s)"
proof -
  have 1: "quiet s (s\<lparr>db_cancelBatches := cs\<rparr>)" for cs by (rule quiet_fields) simp_all
  have 2: "fence_down t (snd (finally_act (stopTracking es) (settleEntries key es ByCancel) t))" for t :: "'a debouncer" and es key
    by (intro fence.finally_act) (simp_all add: fence_down_quiet quiet_stopTracking fence_down_settling settling_settleEntries)
  show ?thesis using fence.trans[OF fence_down_quiet[OF quiet.trans[OF 1 quiet_flag_all]] 2]
    by (auto simp: cancel_settled_def Let_def fence.refl split: option.split)
qed


lemma fence_dispose: "fence_down s (snd (dispose_debouncer s))"
proof -
  have 1: "fence_down s (s\<lparr>db_disposed := True\<rparr>)"
    by (rule fence_down_settling) (simp add: settling_def generation_def entries_evolve_same)
  have 2: "fence_down t (snd (for_each retire_bucket kbs t))" for t :: "'a debouncer" and kbs
    by (rule fence.for_each) (simp add: retire_bucket_def fence_down_settling settling.trans[OF settling_bump settling_settleEntries])
  have 3: "fence_down t (snd (for_each (\<lambda>(key, e). settleEntries key [e] ByRetire) kes t))" for t :: "'a debouncer" and kes
    by (rule fence.for_each) (auto simp: fence_down_settling settling_settleEntries split: prod.split)
  have 4: "fence_down t (fold clearCapturedBatches ks t)" for t :: "'a debouncer" and ks
    by (rule fence.fold) (rule fence_down_clear)
  have 5: "fence_down t (fold clearQueuedCancellationBatches ks t\<lparr>db_inflightIds := []\<rparr>)" for t :: "'a debouncer" and ks
  proof -
    have "quiet t (fold clearQueuedCancellationBatches ks t)" by (rule quiet.fold) (rule quiet_clear_queued)
    then show ?thesis by (intro fence_down_quiet) (rule quiet.trans, assumption, rule quiet_fields, simp_all)
  qed
  obtain r1 t1 where r1: "for_each retire_bucket (db_waiting s) (s\<lparr>db_disposed := True\<rparr>) = (r1, t1)" by fastforce
  obtain r2 t2 where r2: "for_each (\<lambda>(key, e). settleEntries key [e] ByRetire) (inflight_pairs (t1\<lparr>db_waiting := []\<rparr>)) (t1\<lparr>db_waiting := []\<rparr>) = (r2, t2)"
    by fastforce
  have a: "fence_down s t1" using fence.trans[OF 1 2[of _ "db_waiting s"]] r1 by (metis snd_conv)
  have b: "fence_down s t2" using fence.trans[OF fence.trans[OF a fence_down_unwait(2)] 3[of _ "inflight_pairs (t1\<lparr>db_waiting := []\<rparr>)"]] r2
    by (metis snd_conv)
  show ?thesis using a b r1 r2 fence.trans[OF fence.trans[OF b 4] 5]
    by (auto simp: dispose_debouncer_def Let_def fence.refl split: option.split)
qed

lemma fence_downD: "fence_down s s' \<Longrightarrow> fence_step s s'"
  by (simp add: fence_down_def)

lemma fence_run: "fence_step s (db_run cfg opn s)"
proof (cases opn)
  case (OpBudget rop)
  have "quiet s (s\<lparr>db_budget := b\<rparr>)" if "retention_run rop (db_budget s) = Inr b" for b
    using budget_step_run[OF that] by (intro quiet_fields) simp_all
  then show ?thesis using OpBudget by (auto split: sum.split intro: fence_step_settling quiet_settling)
next
  case (OpPush m pa)
  then show ?thesis using fence_push[of cfg m pa s] by (auto split: sum.split)
qed (auto intro: fence_downD fence_detach fence_worker_turn fence_flush_settled fence_worker_finally fence_cancelKey
    fence_cancel_start fence_cancel_settled fence_dispose)

text \<open>A debouncer is reached from a fresh one by any sequence of operations.\<close>

inductive reachable_db :: "'m debounce_config \<Rightarrow> 'm debouncer \<Rightarrow> bool" for cfg where
  fresh: "createBoundedInboundDebouncer cfg b = Inr s \<Longrightarrow> budget_inv b \<Longrightarrow> reachable_db cfg s"
| step: "reachable_db cfg s \<Longrightarrow> reachable_db cfg (db_run cfg opn s)"

lemma reachable_fenced: "reachable_db cfg s \<Longrightarrow> fenced s"
proof (induction rule: reachable_db.induct)
  case (fresh b s)
  then show ?case by (auto simp: createBoundedInboundDebouncer_def fenced_def held_def split: option.splits)
next
  case (step s opn)
  then show ?case using fenced_step fence_run by blast
qed

lemma reachable_budget_ok: "reachable_db cfg s \<Longrightarrow> budget_inv (db_budget s)"
proof (induction rule: reachable_db.induct)
  case (fresh b s)
  then show ?case by (auto simp: createBoundedInboundDebouncer_def split: option.splits)
next
  case (step s opn)
  then show ?case using fence_stepD(1)[OF fence_run[of s cfg opn]] by (simp add: entries_evolve_def budget_step_def)
qed

text \<open>The batch of a running flush, as its callback was given it.\<close>

definition flushing :: "'m debouncer \<Rightarrow> string \<Rightarrow> nat list" where
  "flushing s key =
     (case map_of (db_chains s) key of
        Some c \<Rightarrow> (if ch_worker c = WorkerAwait then ch_tracked c else [])
      | None \<Rightarrow> [])"

lemma flushing_held: "e \<in> set (flushing s key) \<Longrightarrow> e \<in> held s key"
  by (cases "map_of (db_chains s) key") (auto simp: flushing_def held_def chain_entries_def split: if_splits)

lemma fence_one:
  assumes "reachable_db cfg s" and "e \<in> set (flushing s key)" and "\<not> isActive s e"
    and "e \<in> set (flushing (db_run cfg opn s) key)"
  shows "\<not> isActive (db_run cfg opn s) e"
proof -
  let ?s' = "db_run cfg opn s"
  have k: "of_key s key e" using reachable_fenced[OF assms(1)] flushing_held[OF assms(2)] by (simp add: fenced_def)
  note d = fence_stepD[OF fence_run[of s cfg opn]]
  have g: "generation key s \<le> generation key ?s'" by (rule d(3)[OF held_busy[OF flushing_held[OF assms(4)]]])
  have ev: "de_key (entry ?s' e) = key" "de_generation (entry ?s' e) = de_generation (entry s e)"
      "de_requested (entry s e) \<Longrightarrow> de_requested (entry ?s' e)"
    using d(1) k by (auto simp: entries_evolve_def of_key_def)
  have "db_disposed s \<or> de_requested (entry s e) \<or> de_generation (entry s e) < generation key s"
    using assms(3) k by (auto simp: isActive_def of_key_def)
  then show ?thesis using d(2) ev g by (auto simp: isActive_def)
qed

section \<open>Properties\<close>

text \<open>C35: The generation fence never reopens under a running flush. Once an entry that a
  flush callback was given is no longer active, because \<^verbatim>\<open>/stop\<close> cancelled it, its peer was
  retired or the account was disposed, every later observation inside the same flush finds it
  inactive too, whatever happens in between: forgetting idle generations never makes an old
  entry look current again.\<close>

theorem fence_never_reopens:
  assumes "reachable_db cfg s" and "\<not> isActive s e"
    and "\<forall>n \<le> length ops. e \<in> set (flushing (db_exec cfg (take n ops) s) key)"
  shows "\<not> isActive (db_exec cfg ops s) e"
  using assms
proof (induction ops arbitrary: s)
  case Nil
  then show ?case by (simp add: db_exec_def)
next
  case (Cons opn ops)
  have f: "e \<in> set (flushing s key)" using Cons.prems(3)[rule_format, of 0] by (simp add: db_exec_def)
  have f1: "e \<in> set (flushing (db_run cfg opn s) key)" using Cons.prems(3)[rule_format, of 1] by (simp add: db_exec_def)
  have "\<not> isActive (db_run cfg opn s) e" by (rule fence_one[OF Cons.prems(1) f Cons.prems(2) f1])
  moreover have "\<forall>n \<le> length ops. e \<in> set (flushing (db_exec cfg (take n ops) (db_run cfg opn s)) key)"
    using Cons.prems(3) by (metis Suc_le_mono db_exec_def fold_simps(2) length_Cons take_Suc_Cons)
  ultimately have "\<not> isActive (db_exec cfg ops (db_run cfg opn s)) e"
    using Cons.IH[OF reachable_db.step[OF Cons.prems(1)]] by blast
  then show ?case by (simp add: db_exec_def)
qed

text \<open>A concrete debouncer: items are a key, an id and a size.\<close>

definition demo_cfg :: "(string \<times> string \<times> int) debounce_config" where
  "demo_cfg = \<lparr>dbc_debounceMs = JsInt 10, dbc_buildKey = fst, dbc_getId = (\<lambda>m. Some (fst (snd m))),
     dbc_token = (\<lambda>k m. 0), dbc_size = (\<lambda>m. Some (JsInt (snd (snd m)))), dbc_onCancel = True\<rparr>"

definition demo_budget :: budget where
  "demo_budget = fresh_budget DEFAULT_BUSY_TURN_LIMITS"

definition demo_db :: "(string \<times> string \<times> int) debouncer" where
  "demo_db = \<lparr>db_entries = [], db_waiting = [], db_nextBucket = 0, db_chains = [], db_inflightIds = [],
     db_inflightEntries = [], db_inflightByKey = [], db_runningCallbacks = [], db_cancelBatches = [],
     db_cancellationBatches = [], db_keyGeneration = [], db_disposed = False, db_budget = demo_budget\<rparr>"

definition unknown_id :: push_answers where
  "unknown_id = \<lparr>pa_overflowClaimed = False, pa_cancelledFallback = False, pa_peekOutcome = None\<rparr>"

definition flush_x :: "(string \<times> string \<times> int) db_op list" where
  "flush_x = [OpPush (''k'', ''x'', 5) unknown_id, OpDetach ''k'' 0, OpTurn ''k'']"

lemma demo_reachable: "reachable_db demo_cfg (db_exec demo_cfg ops demo_db)"
proof -
  have c: "createBoundedInboundDebouncer demo_cfg demo_budget = Inr demo_db"
    by (simp add: createBoundedInboundDebouncer_def demo_cfg_def demo_db_def safe_nonneg_int_def max_safe_integer_def)
  have "budget_inv demo_budget" unfolding demo_budget_def
    by (rule fresh_budget_inv[of "\<lparr>maxMessagesPerSession = JsInt 32, maxBytesPerSession = JsInt 1048576,
        maxMessagesPerProcess = JsInt 1024, maxBytesPerProcess = JsInt 33554432\<rparr>"])
      (simp add: validateLimits_def DEFAULT_BUSY_TURN_LIMITS_def safe_nonneg_int_def max_safe_integer_def)
  then have "reachable_db demo_cfg demo_db" using c by (rule reachable_db.fresh[rotated])
  then show ?thesis by (induction ops rule: rev_induct) (simp_all add: db_exec_def reachable_db.step)
qed

theorem fence_never_reopens_witness:
  "\<not> isActive (db_exec demo_cfg [OpPush (''k'', ''y'', 5) unknown_id, OpCancelStart 0]
     (db_exec demo_cfg (flush_x @ [OpCancel ''k'' (Some True)]) demo_db)) 0"
proof (rule fence_never_reopens[where key = "''k''"])
  show "reachable_db demo_cfg (db_exec demo_cfg (flush_x @ [OpCancel ''k'' (Some True)]) demo_db)" by (rule demo_reachable)
  show "\<not> isActive (db_exec demo_cfg (flush_x @ [OpCancel ''k'' (Some True)]) demo_db) 0" by code_simp
  have "list_all (\<lambda>n. 0 \<in> set (flushing (db_exec demo_cfg (take n [OpPush (''k'', ''y'', 5) unknown_id, OpCancelStart 0])
      (db_exec demo_cfg (flush_x @ [OpCancel ''k'' (Some True)]) demo_db)) ''k'')) [0, 1, 2]" by code_simp
  then show "\<forall>n \<le> length [OpPush (''k'', ''y'', 5) unknown_id, OpCancelStart 0].
      0 \<in> set (flushing (db_exec demo_cfg (take n [OpPush (''k'', ''y'', 5) unknown_id, OpCancelStart 0])
      (db_exec demo_cfg (flush_x @ [OpCancel ''k'' (Some True)]) demo_db)) ''k'')"
    by (auto simp: le_Suc_eq)
qed


lemma tryReserve_cases:
  assumes "budget_inv b" "safe_nonneg_int c"
  shows "(\<exists>reason. tryReserve t (JsInt c) own b = Inr (Rejected reason, b)) \<or>
     (\<exists>b'. tryReserve t (JsInt c) own b = Inr (Accepted (length (b_reservations b)), b') \<and>
        b_reservations b' = b_reservations b @ [new_reservation t c own])"
  using tryReserve_accept[OF assms(1), of "JsInt c" c t own] tryReserve_reject[of "JsInt c" c b t own] assms(2) by auto

text \<open>A push never throws, and one that is not accepted retains nothing. Whatever the
  reason (disposed, claimed by the overflow resolver, a known outcome, a duplicate, an
  unmeasurable or an over-budget item), the debouncer and the budget are exactly as before;
  an accepted push adds one entry at the end of its key's bucket, charged with its measured
  size to a fresh reservation.\<close>

theorem push_retains_only_accepted:
  assumes "reachable_db cfg s"
  shows "\<exists>r c s'. push cfg m pa s = Inr ((r, c), s') \<and> (r \<noteq> PAccepted \<longrightarrow> s' = s) \<and>
    (r = PAccepted \<longrightarrow>
       (\<exists>n. debounce_charge (dbc_size cfg) m = Some n \<and>
          db_entries s' = db_entries s @ [new_entry (dbc_buildKey cfg m) (dbc_getId cfg m) (length (b_reservations (db_budget s))) m
             (generation (dbc_buildKey cfg m) s)] \<and>
          b_reservations (db_budget s') =
            b_reservations (db_budget s) @ [new_reservation (dbc_token cfg (dbc_buildKey cfg m) m) n DebounceWaiting] \<and>
          (\<exists>bk. map_of (db_waiting s') (dbc_buildKey cfg m) = Some bk \<and>
             bk_entries bk = (case map_of (db_waiting s) (dbc_buildKey cfg m) of Some b \<Rightarrow> bk_entries b | None \<Rightarrow> [])
                @ [length (db_entries s)])))"
proof (cases "debounce_charge (dbc_size cfg) m")
  case None
  then show ?thesis by (auto simp: push_def Let_def split: option.split)
next
  case (Some n)
  let ?key = "dbc_buildKey cfg m"
  have "safe_nonneg_int n" using Some
    by (auto simp: debounce_charge_def safe_nonneg_int_def split: option.splits dest!: safe_nonneg_SomeD)
  from tryReserve_cases[OF reachable_budget_ok[OF assms] this, of "dbc_token cfg ?key m" DebounceWaiting]
  consider (rejected) reason where "tryReserve (dbc_token cfg ?key m) (JsInt n) DebounceWaiting (db_budget s) = Inr (Rejected reason, db_budget s)"
    | (accepted) b' where "tryReserve (dbc_token cfg ?key m) (JsInt n) DebounceWaiting (db_budget s) = Inr (Accepted (length (b_reservations (db_budget s))), b')"
        "b_reservations b' = b_reservations (db_budget s) @ [new_reservation (dbc_token cfg ?key m) n DebounceWaiting]" by blast
  then show ?thesis
  proof cases
    case rejected
    then show ?thesis using Some by (auto simp: push_def Let_def split: option.split)
  next
    case accepted
    let ?r = "length (b_reservations (db_budget s))"
    let ?t = "retain_entry ?key (dbc_getId cfg m) ?r m (s\<lparr>db_budget := b'\<rparr>)"
    have t: "\<exists>bk. map_of (db_waiting ?t) ?key = Some bk \<and>
        bk_entries bk = (case map_of (db_waiting s) ?key of Some b \<Rightarrow> bk_entries b | None \<Rightarrow> []) @ [length (db_entries s)]"
      "db_entries ?t = db_entries s @ [new_entry ?key (dbc_getId cfg m) ?r m (generation ?key s)]" "db_budget ?t = b'"
      by (auto simp: retain_entry_def Let_def update_conv' generation_def split: option.split)
    have "(\<exists>r c. push cfg m pa s = Inr ((r, c), s) \<and> r \<noteq> PAccepted) \<or> push cfg m pa s = Inr ((PAccepted, None), ?t)"
      using Some accepted by (auto simp: push_def Let_def split: option.split)
    then show ?thesis
    proof (elim disjE exE conjE)
      assume p: "push cfg m pa s = Inr ((PAccepted, None), ?t)"
      show ?thesis using Some accepted(2) t unfolding p by (intro exI[of _ PAccepted] exI[of _ None] exI[of _ ?t]) simp
    qed blast
  qed
qed

theorem push_retains_only_accepted_witness:
  "\<exists>r c s'. push demo_cfg (''k'', ''x'', 5) unknown_id (db_exec demo_cfg [] demo_db) = Inr ((r, c), s') \<and> (r \<noteq> PAccepted \<longrightarrow> s' = db_exec demo_cfg [] demo_db)"
  using push_retains_only_accepted[OF demo_reachable[of "[]"], of "(''k'', ''x'', 5)" unknown_id] by blast

subsection \<open>What the code does that it should not\<close>

text \<open>
  A flush of \<open>x\<close> and \<open>y\<close> in which \<open>x\<close> turned out to be a known duplicate: the handler has
  requested the release of its reservation and awaits \<open>y\<close>; \<open>z\<close> waits in the next bucket.
\<close>

definition stop_ops :: "(string \<times> string \<times> int) db_op list" where
  "stop_ops = [OpPush (''k'', ''x'', 5) unknown_id, OpPush (''k'', ''y'', 5) unknown_id, OpDetach ''k'' 0, OpTurn ''k'',
     OpBudget (RequestRelease 0), OpPush (''k'', ''z'', 5) unknown_id]"

text \<open>A \<^verbatim>\<open>/stop\<close> can throw and leak. When the flush in progress has already released one
  of its items, \<^verbatim>\<open>cancelKey\<close> with notification throws out of \<^verbatim>\<open>reservation.hold()\<close> after it has
  removed the waiting bucket. Once everything in progress has settled, nothing refers to the
  waiting message any more, but its reservation is still charged to the budget and the ids of
  the duplicate and of the lost message stay in the in-flight index for good.\<close>

theorem stop_throws_and_leaks:
  "let s = db_exec demo_cfg stop_ops demo_db;
       s' = db_exec demo_cfg [OpFlushSettled ''k'', OpTurn ''k'', OpFinally ''k''] (snd (cancelKey demo_cfg ''k'' (Some True) s))
   in fst (cancelKey demo_cfg ''k'' (Some True) s) = Inl (BudgetThrew HoldOfReleased) \<and>
      db_waiting s' = [] \<and> db_chains s' = [] \<and> db_cancelBatches s' = [] \<and> db_runningCallbacks s' = [] \<and>
      messages (b_usage (db_budget s')) = 1 \<and>
      db_inflightIds s' = [idIndexKey ''k'' ''x'', idIndexKey ''k'' ''z'']"
  by code_simp

text \<open>A stale cancellation callback drops the id of a live entry. A peer is stopped, then
  retired while the stop callback still runs, and reconnects with the same message: when the
  old callback settles it removes the id that the new entry has registered, and a further
  copy of the message is accepted next to the one that is already waiting.\<close>

theorem stale_cancel_admits_duplicate:
  "let s = db_exec demo_cfg [OpPush (''k'', ''x'', 5) unknown_id, OpCancel ''k'' (Some True), OpCancelStart 0, OpCancel ''k'' (Some False),
              OpPush (''k'', ''x'', 5) unknown_id, OpCancelSettled 0] demo_db
   in map_of (db_waiting s) ''k'' = Some \<lparr>bk_id = 1, bk_entries = [1]\<rparr> \<and> de_id (entry s 1) = Some ''x'' \<and>
      (case push demo_cfg (''k'', ''x'', 5) unknown_id s of Inr ((r, _), s') \<Rightarrow>
         r = PAccepted \<and> map_of (db_waiting s') ''k'' = Some \<lparr>bk_id = 1, bk_entries = [1, 2]\<rparr> \<and> de_id (entry s' 2) = Some ''x''
       | Inl _ \<Rightarrow> False)"
  by code_simp

text \<open>Cancelled batches stay queued without being charged. While one flush of a peer is
  stalled, a second batch is stopped and its cancellation completes: its reservation is given
  back, but the batch still sits in the worker's queue behind the stalled flush, so the memory
  it retains is no longer covered by the budget.\<close>

theorem cancelled_batch_uncharged:
  "let s = db_exec demo_cfg (flush_x @ [OpPush (''k'', ''y'', 5) unknown_id, OpDetach ''k'' 1, OpCancel ''k'' (Some True),
              OpCancelStart 0, OpCancelSettled 0]) demo_db
   in flushing s ''k'' = [0] \<and>
      (case map_of (db_chains s) ''k'' of Some c \<Rightarrow> map ba_entries (ch_queued c) = [[1]] | None \<Rightarrow> False) \<and>
      r_released (reservation_of s 1) \<and> messages (b_usage (db_budget s)) = 1"
  by code_simp

end
