(* ===== verification/Lease_Invariant.thy ===== *)
theory Lease_Invariant
  imports Lease_Coordinator
begin

text \<open>
  The invariant of the account leases and its preservation by every operation of
  \<^verbatim>\<open>Lease_Coordinator\<close>.  A slot with an owner has exactly one invocation that holds it and no
  quarantine; its waiters are exactly the awaiting invocations of the slot, none of them
  aborted; a live invocation's slot is the one the map holds for its account; and a free slot
  keeps no waiter that could be granted.

  The proofs are local: an operation works on one slot, so \<open>same_elsewhere\<close> carries the
  invariant of the other slots and \<open>core_local\<close> asks only for the slot it changed.  While an
  operation runs, the invocation it moves is detached from its slot (the set \<open>E\<close>).
\<close>

section \<open>Projections of the state updates\<close>

lemma slot_at_upd [simp]:
  "slot_at (upd_slot sid f st) t = (if t = sid \<and> sid < length (co_store st) then f (slot_at st sid) else slot_at st t)"
  by (auto simp: slot_at_def upd_slot_def list_update_beyond)

lemma upd_slot_sel [simp]:
  "length (co_store (upd_slot sid f st)) = length (co_store st)" "co_invs (upd_slot sid f st) = co_invs st"
  "co_slots (upd_slot sid f st) = co_slots st" "co_aborted (upd_slot sid f st) = co_aborted st"
  "co_fresh (upd_slot sid f st) = co_fresh st" "co_install (upd_slot sid f st) = co_install st"
  "co_nextGeneration (upd_slot sid f st) = co_nextGeneration st" "co_probes (upd_slot sid f st) = co_probes st"
  by (simp_all add: upd_slot_def)

lemma set_phase_sel [simp]:
  "length (co_invs (set_phase i ph st)) = length (co_invs st)" "co_store (set_phase i ph st) = co_store st"
  "co_slots (set_phase i ph st) = co_slots st" "co_aborted (set_phase i ph st) = co_aborted st"
  "co_fresh (set_phase i ph st) = co_fresh st" "co_install (set_phase i ph st) = co_install st"
  "co_nextGeneration (set_phase i ph st) = co_nextGeneration st" "co_probes (set_phase i ph st) = co_probes st"
  by (simp_all add: set_phase_def)

lemma set_phase_inv [simp]:
  "iv_slot (co_invs (set_phase i ph st) ! j) = iv_slot (co_invs st ! j)"
  "iv_account (co_invs (set_phase i ph st) ! j) = iv_account (co_invs st ! j)"
  "iv_signal (co_invs (set_phase i ph st) ! j) = iv_signal (co_invs st ! j)"
proof -
  have "co_invs (set_phase i ph st) ! j = (if j = i \<and> i < length (co_invs st) then (co_invs st ! j)\<lparr>iv_phase := ph\<rparr> else co_invs st ! j)"
    by (auto simp: set_phase_def list_update_beyond)
  then show "iv_slot (co_invs (set_phase i ph st) ! j) = iv_slot (co_invs st ! j)"
    "iv_account (co_invs (set_phase i ph st) ! j) = iv_account (co_invs st ! j)"
    "iv_signal (co_invs (set_phase i ph st) ! j) = iv_signal (co_invs st ! j)" by simp_all
qed

lemma phase_of_set [simp]:
  "phase_of (set_phase i ph st) j = (if j = i \<and> i < length (co_invs st) then ph else phase_of st j)"
  by (auto simp: phase_of_def set_phase_def list_update_beyond)

lemma phase_of_upd [simp]: "phase_of (upd_slot sid f st) = phase_of st"
  by (simp add: phase_of_def fun_eq_iff)

lemma slot_at_phase [simp]: "slot_at (set_phase i ph st) = slot_at st"
  by (simp add: slot_at_def fun_eq_iff)

lemma aborted_upd [simp]: "aborted (upd_slot sid f st) = aborted st" "aborted (set_phase i ph st) = aborted st"
  by (simp_all add: aborted_def fun_eq_iff)

lemma field_updates [simp]:
  "slot_at (st\<lparr>co_fresh := n\<rparr>) = slot_at st" "phase_of (st\<lparr>co_fresh := n\<rparr>) = phase_of st" "aborted (st\<lparr>co_fresh := n\<rparr>) = aborted st"
  "slot_at (st\<lparr>co_released := rs\<rparr>) = slot_at st" "phase_of (st\<lparr>co_released := rs\<rparr>) = phase_of st" "aborted (st\<lparr>co_released := rs\<rparr>) = aborted st"
  "slot_at (st\<lparr>co_probes := ps\<rparr>) = slot_at st" "phase_of (st\<lparr>co_probes := ps\<rparr>) = phase_of st" "aborted (st\<lparr>co_probes := ps\<rparr>) = aborted st"
  "slot_at (st\<lparr>co_slots := m\<rparr>) = slot_at st" "phase_of (st\<lparr>co_slots := m\<rparr>) = phase_of st" "aborted (st\<lparr>co_slots := m\<rparr>) = aborted st"
  "slot_at (st\<lparr>co_log := l\<rparr>) = slot_at st" "phase_of (st\<lparr>co_log := l\<rparr>) = phase_of st" "aborted (st\<lparr>co_log := l\<rparr>) = aborted st"
  by (simp_all add: slot_at_def phase_of_def aborted_def fun_eq_iff)

section \<open>The invariant\<close>

text \<open>The owner an invocation holds: granted or running.\<close>

fun holds :: "phase \<Rightarrow> lease_owner option" where
  "holds (PhGranted ow) = ow"
| "holds (PhRunning ow) = Some ow"
| "holds _ = None"

definition active :: "phase \<Rightarrow> bool" where
  "active ph \<longleftrightarrow> ph = PhAwaiting \<or> holds ph \<noteq> None"

text \<open>
  The invariant of one slot.  \<open>E\<close> collects the invocations that an operation has detached from
  their slot and will give a new phase before it ends; \<open>members\<close> are the other invocations that
  refer to the slot.
\<close>

definition members :: "coordinator \<Rightarrow> nat set \<Rightarrow> nat \<Rightarrow> nat set" where
  "members st E sid = {i. i < length (co_invs st) \<and> i \<notin> E \<and> iv_slot (co_invs st ! i) = sid}"

definition waiter_ok :: "coordinator \<Rightarrow> nat set \<Rightarrow> nat \<Rightarrow> waiter \<Rightarrow> bool" where
  "waiter_ok st E sid w \<longleftrightarrow> wt_inv w \<in> members st E sid \<and> phase_of st (wt_inv w) = PhAwaiting \<and>
     wt_signal w = iv_signal (co_invs st ! wt_inv w) \<and> \<not> aborted st (iv_signal (co_invs st ! wt_inv w))"

definition member_ok :: "coordinator \<Rightarrow> nat \<Rightarrow> nat \<Rightarrow> bool" where
  "member_ok st sid i \<longleftrightarrow>
     (phase_of st i = PhAwaiting \<longrightarrow> i \<in> wt_inv ` set (sl_waiters (slot_at st sid))) \<and>
     (\<forall>ow. holds (phase_of st i) = Some ow \<longrightarrow> sl_owner (slot_at st sid) = Some ow) \<and>
     (active (phase_of st i) \<longrightarrow> map_of (co_slots st) (iv_account (co_invs st ! i)) = Some sid)"

definition slot_inv :: "coordinator \<Rightarrow> nat set \<Rightarrow> nat \<Rightarrow> bool" where
  "slot_inv st E sid \<longleftrightarrow>
     (sl_owner (slot_at st sid) \<noteq> None \<longrightarrow> sl_quarantine (slot_at st sid) = None \<and>
        (\<exists>i \<in> members st E sid. holds (phase_of st i) = sl_owner (slot_at st sid))) \<and>
     distinct (map wt_inv (sl_waiters (slot_at st sid))) \<and>
     (\<forall>w \<in> set (sl_waiters (slot_at st sid)). waiter_ok st E sid w) \<and>
     (\<forall>i \<in> members st E sid. member_ok st sid i) \<and>
     (\<forall>i \<in> members st E sid. \<forall>j \<in> members st E sid. holds (phase_of st i) \<noteq> None \<longrightarrow> holds (phase_of st j) \<noteq> None \<longrightarrow> i = j)"

definition slots_ok :: "coordinator \<Rightarrow> bool" where
  "slots_ok st \<longleftrightarrow> (\<forall>a sid. map_of (co_slots st) a = Some sid \<longrightarrow> sid < length (co_store st)) \<and>
     (\<forall>a b sid. map_of (co_slots st) a = Some sid \<longrightarrow> map_of (co_slots st) b = Some sid \<longrightarrow> a = b) \<and>
     (\<forall>iv \<in> set (co_invs st). iv_slot iv < length (co_store st))"

text \<open>No wakeup is lost: a free slot keeps only waiters of superseded generations.\<close>

definition idle :: "coordinator \<Rightarrow> nat \<Rightarrow> bool" where
  "idle st sid \<longleftrightarrow> sl_owner (slot_at st sid) = None \<and> sl_quarantine (slot_at st sid) = None"

definition wakeup :: "coordinator \<Rightarrow> nat \<Rightarrow> bool" where
  "wakeup st sid \<longleftrightarrow> (idle st sid \<longrightarrow>
     (\<forall>w \<in> set (sl_waiters (slot_at st sid)). in_generation (wt_install w) < highestGeneration (slot_at st sid)))"

definition core :: "coordinator \<Rightarrow> nat set \<Rightarrow> nat set \<Rightarrow> bool" where
  "core st E S \<longleftrightarrow> slots_ok st \<and> (\<forall>sid < length (co_store st). slot_inv st E sid) \<and>
     (\<forall>sid < length (co_store st). sid \<notin> S \<longrightarrow> wakeup st sid)"

section \<open>Preservation\<close>

lemma wakeup_busy: "\<not> idle st sid \<Longrightarrow> wakeup st sid"
  by (simp add: wakeup_def)

lemma coreD:
  assumes "core st E S"
  shows "slots_ok st" "sid < length (co_store st) \<Longrightarrow> slot_inv st E sid"
    "sid < length (co_store st) \<Longrightarrow> sid \<notin> S \<Longrightarrow> wakeup st sid"
  using assms by (simp_all add: core_def)

lemma slot_invD:
  assumes "slot_inv st E sid"
  shows "sl_owner (slot_at st sid) \<noteq> None \<Longrightarrow> sl_quarantine (slot_at st sid) = None"
    "sl_owner (slot_at st sid) \<noteq> None \<Longrightarrow> \<exists>i \<in> members st E sid. holds (phase_of st i) = sl_owner (slot_at st sid)"
    "distinct (map wt_inv (sl_waiters (slot_at st sid)))"
    "w \<in> set (sl_waiters (slot_at st sid)) \<Longrightarrow> waiter_ok st E sid w"
    "i \<in> members st E sid \<Longrightarrow> member_ok st sid i"
    "i \<in> members st E sid \<Longrightarrow> j \<in> members st E sid \<Longrightarrow> holds (phase_of st i) \<noteq> None \<Longrightarrow> holds (phase_of st j) \<noteq> None \<Longrightarrow> i = j"
  using assms by (simp_all add: slot_inv_def)

lemma slot_invI:
  assumes "sl_owner (slot_at st sid) \<noteq> None \<Longrightarrow> sl_quarantine (slot_at st sid) = None"
    "sl_owner (slot_at st sid) \<noteq> None \<Longrightarrow> \<exists>i \<in> members st E sid. holds (phase_of st i) = sl_owner (slot_at st sid)"
    "distinct (map wt_inv (sl_waiters (slot_at st sid)))"
    "\<And>w. w \<in> set (sl_waiters (slot_at st sid)) \<Longrightarrow> waiter_ok st E sid w"
    "\<And>i. i \<in> members st E sid \<Longrightarrow> member_ok st sid i"
    "\<And>i j. i \<in> members st E sid \<Longrightarrow> j \<in> members st E sid \<Longrightarrow> holds (phase_of st i) \<noteq> None \<Longrightarrow> holds (phase_of st j) \<noteq> None \<Longrightarrow> i = j"
  shows "slot_inv st E sid"
  using assms unfolding slot_inv_def by blast

text \<open>An operation on one slot leaves the others alone.\<close>

definition same_elsewhere :: "nat \<Rightarrow> coordinator \<Rightarrow> coordinator \<Rightarrow> bool" where
  "same_elsewhere sid st st' \<longleftrightarrow> length (co_invs st') = length (co_invs st) \<and> length (co_store st') = length (co_store st) \<and>
     (\<forall>t. t \<noteq> sid \<longrightarrow> slot_at st' t = slot_at st t) \<and> aborted st' = aborted st \<and>
     (\<forall>i < length (co_invs st). iv_slot (co_invs st' ! i) = iv_slot (co_invs st ! i) \<and>
        iv_account (co_invs st' ! i) = iv_account (co_invs st ! i) \<and> iv_signal (co_invs st' ! i) = iv_signal (co_invs st ! i) \<and>
        (iv_slot (co_invs st ! i) \<noteq> sid \<longrightarrow> phase_of st' i = phase_of st i)) \<and>
     (\<forall>a t. t \<noteq> sid \<longrightarrow> map_of (co_slots st) a = Some t \<longrightarrow> map_of (co_slots st') a = Some t)"

lemma slot_inv_elsewhere:
  assumes "same_elsewhere sid st st'" "t \<noteq> sid" "slot_inv st E t" "E' \<inter> members st {} t = E \<inter> members st {} t"
  shows "slot_inv st' E' t"
proof -
  have m: "members st' E' t = members st E t" using assms by (auto simp: members_def same_elsewhere_def)
  have ph: "phase_of st' i = phase_of st i" if "i \<in> members st E t" for i
    using that assms by (auto simp: members_def same_elsewhere_def)
  have sl: "slot_at st' t = slot_at st t" using assms by (simp add: same_elsewhere_def)
  have iv: "iv_account (co_invs st' ! i) = iv_account (co_invs st ! i)" "iv_signal (co_invs st' ! i) = iv_signal (co_invs st ! i)"
    if "i \<in> members st E t" for i using that assms by (auto simp: members_def same_elsewhere_def)
  have w: "waiter_ok st' E' t w" if "waiter_ok st E t w" for w
    using that assms(1) m ph iv by (auto simp: waiter_ok_def same_elsewhere_def)
  have mo: "member_ok st' t i" if "i \<in> members st E t" "member_ok st t i" for i
    using that assms(1,2) ph iv sl by (auto simp: member_ok_def same_elsewhere_def)
  show ?thesis using assms(3) w mo m ph unfolding slot_inv_def by (simp add: sl)
qed

lemma core_local:
  assumes c: "core st E S" and l: "same_elsewhere sid st st'" and "slots_ok st'"
    and "sid < length (co_store st) \<Longrightarrow> slot_inv st' E' sid" and "\<And>t. t \<noteq> sid \<Longrightarrow> E' \<inter> members st {} t = E \<inter> members st {} t"
    and "S \<subseteq> insert sid S'" "sid < length (co_store st) \<Longrightarrow> sid \<notin> S' \<Longrightarrow> wakeup st' sid"
  shows "core st' E' S'"
proof -
  have len: "length (co_store st') = length (co_store st)" using l by (simp add: same_elsewhere_def)
  have "slot_inv st' E' t" if "t < length (co_store st')" for t
    using that len assms coreD(2)[OF c, of t] slot_inv_elsewhere[OF l, of t E E'] by (cases "t = sid") auto
  moreover have "wakeup st' t" if t: "t < length (co_store st')" "t \<notin> S'" for t
  proof (cases "t = sid")
    case False
    then have "wakeup st t" using t len assms(6) coreD(3)[OF c, of t] by auto
    then show ?thesis using False l by (simp add: wakeup_def idle_def same_elsewhere_def)
  qed (use t len assms(7) in simp)
  ultimately show ?thesis using assms(3) by (simp add: core_def)
qed


lemma slots_ok_local:
  assumes "slots_ok st" "same_elsewhere sid st st'" "\<And>a t. map_of (co_slots st') a = Some t \<Longrightarrow> map_of (co_slots st) a = Some t"
  shows "slots_ok st'"
proof -
  have "iv_slot iv < length (co_store st')" if iv: "iv \<in> set (co_invs st')" for iv
  proof -
    have "length (co_invs st') = length (co_invs st)" using assms(2) by (simp add: same_elsewhere_def)
    moreover obtain i where "i < length (co_invs st')" "co_invs st' ! i = iv" using iv by (auto simp: in_set_conv_nth)
    ultimately have i: "i < length (co_invs st)" "iv = co_invs st' ! i" by simp_all
    have "iv_slot (co_invs st ! i) < length (co_store st)" using assms(1) i by (simp add: slots_ok_def)
    then show ?thesis using assms(2) i by (simp add: same_elsewhere_def)
  qed
  moreover have "t < length (co_store st')" if "map_of (co_slots st') a = Some t" for a t
    using assms(3)[OF that] assms(1,2) by (auto simp: slots_ok_def same_elsewhere_def)
  moreover have "a = b" if "map_of (co_slots st') a = Some t" "map_of (co_slots st') b = Some t" for a b t
    using assms(3)[OF that(1)] assms(3)[OF that(2)] assms(1) unfolding slots_ok_def by blast
  ultimately show ?thesis by (simp add: slots_ok_def)
qed

lemma se_refl [simp]: "same_elsewhere sid st st"
  by (simp add: same_elsewhere_def)

lemma se_trans: "same_elsewhere sid st1 st2 \<Longrightarrow> same_elsewhere sid st2 st3 \<Longrightarrow> same_elsewhere sid st1 st3"
  by (auto simp: same_elsewhere_def)

lemma se_upd [simp]: "same_elsewhere sid st (upd_slot sid f st)"
  by (simp add: same_elsewhere_def)

lemma se_phase: "iv_slot (co_invs st ! i) = sid \<Longrightarrow> same_elsewhere sid st (set_phase i ph st)"
  by (simp add: same_elsewhere_def)

lemma se_fields [simp]:
  "same_elsewhere sid st (st\<lparr>co_fresh := n\<rparr>)" "same_elsewhere sid st (st\<lparr>co_released := rs\<rparr>)"
  "same_elsewhere sid st (st\<lparr>co_probes := ps\<rparr>)" "same_elsewhere sid st (st\<lparr>co_log := l\<rparr>)"
  by (simp_all add: same_elsewhere_def)

lemma se_cleanup [simp]: "same_elsewhere sid st (cleanupSlot a sid st)"
  by (auto simp: same_elsewhere_def cleanupSlot_def Let_def AList.delete_conv')

lemma cleanup_sub: "map_of (co_slots (cleanupSlot a sid st)) b = Some t \<Longrightarrow> map_of (co_slots st) b = Some t"
  by (auto simp: cleanupSlot_def Let_def AList.delete_conv' split: if_splits)

lemma cleanup_sel [simp]:
  "slot_at (cleanupSlot a sid st) = slot_at st" "phase_of (cleanupSlot a sid st) = phase_of st"
  "co_invs (cleanupSlot a sid st) = co_invs st" "co_store (cleanupSlot a sid st) = co_store st"
  "aborted (cleanupSlot a sid st) = aborted st" "co_fresh (cleanupSlot a sid st) = co_fresh st"
  "co_install (cleanupSlot a sid st) = co_install st" "co_aborted (cleanupSlot a sid st) = co_aborted st"
  by (simp_all add: cleanupSlot_def Let_def)

lemma slot_inv_cleanup:
  assumes "slot_inv st E sid"
  shows "slot_inv (cleanupSlot a sid st) E sid"
proof (cases "sl_owner (slot_at st sid) = None \<and> sl_waiters (slot_at st sid) = []")
  case True
  then have "\<not> active (phase_of st i)" if "i \<in> members st E sid" for i
    using assms that by (fastforce simp: slot_inv_def member_ok_def active_def)
  then have "member_ok (cleanupSlot a sid st) sid i" if "i \<in> members st E sid" for i
    using that True assms by (auto simp: slot_inv_def member_ok_def active_def)
  then show ?thesis using assms True by (simp add: slot_inv_def members_def)
next
  case False
  then have "cleanupSlot a sid st = st" by (auto simp: cleanupSlot_def Let_def)
  then show ?thesis using assms by simp
qed

lemma core_cleanup:
  assumes "core st E S" "sid < length (co_store st)"
  shows "core (cleanupSlot a sid st) E S"
proof (rule core_local[OF assms(1) se_cleanup])
  show "slots_ok (cleanupSlot a sid st)" by (rule slots_ok_local[OF coreD(1)[OF assms(1)] se_cleanup cleanup_sub])
  show "slot_inv (cleanupSlot a sid st) E sid" by (rule slot_inv_cleanup[OF coreD(2)[OF assms]])
  show "wakeup (cleanupSlot a sid st) sid" if "sid \<notin> S"
    using coreD(3)[OF assms(1,2) that] by (simp add: wakeup_def idle_def)
qed auto

text \<open>What \<^verbatim>\<open>promote\<close> does to a free slot whose waiters are all live: nothing, or a grant.\<close>

definition granted_to :: "nat \<Rightarrow> waiter \<Rightarrow> coordinator \<Rightarrow> coordinator" where
  "granted_to sid w st =
     (let ow = \<lparr>lo_id = co_fresh st, lo_install = wt_install w, lo_arrival = wt_arrival w, lo_signal = wt_signal w\<rparr> in
      set_phase (wt_inv w) (PhGranted (Some ow))
        (upd_slot sid (\<lambda>s. s\<lparr>sl_waiters := filter (\<lambda>v. wt_inv v \<noteq> wt_inv w) (sl_waiters s), sl_owner := Some ow\<rparr>)
          (st\<lparr>co_fresh := co_fresh st + 1\<rparr>)))"

lemma promote_cases:
  assumes "slot_inv st E sid"
  obtains (none) "promote sid st = st" "\<forall>w \<in> set (sl_waiters (slot_at st sid)). in_generation (wt_install w) < highestGeneration (slot_at st sid)"
  | (grant) w where "w \<in> set (sl_waiters (slot_at st sid))" "promote sid st = granted_to sid w st"
      "highestGeneration (slot_at st sid) \<le> in_generation (wt_install w)"
      "\<forall>v \<in> set (sl_waiters (slot_at st sid)). highestGeneration (slot_at st sid) \<le> in_generation (wt_install v) \<longrightarrow> waiter_rank w \<le> waiter_rank v"
proof -
  let ?ws = "sl_waiters (slot_at st sid)" and ?high = "\<lambda>w. highestGeneration (slot_at st sid) \<le> in_generation (wt_install w)"
  have ok: "waiter_ok st E sid w" if "w \<in> set ?ws" for w using assms that by (simp add: slot_inv_def)
  have live: "filter (\<lambda>w. \<not> aborted st (wt_signal w)) ?ws = ?ws" using ok by (fastforce simp: filter_id_conv waiter_ok_def)
  have el: "filter (\<lambda>w. \<not> aborted st (wt_signal w) \<and> ?high w) ?ws = filter ?high ?ws" using ok by (fastforce simp: waiter_ok_def intro: filter_cong)
  show thesis
  proof (cases "sort_key waiter_rank (filter ?high ?ws)")
    case Nil
    then have "filter ?high ?ws = []" by (metis length_0_conv length_sort)
    moreover have "upd_slot sid (\<lambda>s. s\<lparr>sl_waiters := ?ws\<rparr>) st = st" by (simp add: upd_slot_def slot_at_def)
    ultimately show thesis using none Nil by (simp add: promote_def live el filter_empty_conv not_le)
  next
    case (Cons w rest)
    then have sel: "w \<in> set (filter ?high ?ws)" by (metis list.set_intros(1) set_sort)
    have "sorted (map waiter_rank (w # rest))" using Cons sorted_sort_key[of waiter_rank "filter ?high ?ws"] by simp
    then have "waiter_rank w \<le> waiter_rank v" if "v \<in> set (filter ?high ?ws)" for v
      using that Cons by (metis (no_types) image_eqI list.set_map list.simps(9) set_ConsD set_sort sorted_simps(2) order_refl)
    moreover have "promote sid st = granted_to sid w st"
    proof -
      have "phase_of st (wt_inv w) = PhAwaiting" using ok sel by (auto simp: waiter_ok_def)
      moreover have "upd_slot sid (\<lambda>s. s\<lparr>sl_waiters := filter P ?ws, sl_owner := x\<rparr>) (st\<lparr>co_fresh := n\<rparr>) =
          upd_slot sid (\<lambda>s. s\<lparr>sl_waiters := filter P (sl_waiters s), sl_owner := x\<rparr>) (st\<lparr>co_fresh := n\<rparr>)" for P x n
        by (simp add: upd_slot_def)
      ultimately show ?thesis by (simp add: promote_def live el Cons Let_def resolve_grant_def granted_to_def)
    qed
    ultimately show thesis using sel by (intro grant) auto
  qed
qed

lemma slot_inv_grant:
  assumes "slot_inv st E sid" "idle st sid" "w \<in> set (sl_waiters (slot_at st sid))" "sid < length (co_store st)"
  shows "slot_inv (granted_to sid w st) E sid"
proof -
  let ?st = "granted_to sid w st" and ?i = "wt_inv w"
  have w: "waiter_ok st E sid w" using assms by (simp add: slot_inv_def)
  then have i: "?i \<in> members st E sid" "?i < length (co_invs st)" by (auto simp: waiter_ok_def members_def)
  have m: "members ?st E sid = members st E sid" by (simp add: members_def granted_to_def Let_def)
  have nohold: "holds (phase_of st j) = None" if "j \<in> members st E sid" for j
    using assms(1,2) that by (cases "holds (phase_of st j)") (auto simp: slot_inv_def member_ok_def idle_def)
  have ph: "phase_of ?st j = (if j = ?i then PhGranted (sl_owner (slot_at ?st sid)) else phase_of st j)" for j
    using i assms(4) by (simp add: granted_to_def Let_def)
  have sl: "sl_waiters (slot_at ?st sid) = filter (\<lambda>v. wt_inv v \<noteq> ?i) (sl_waiters (slot_at st sid))"
    "sl_quarantine (slot_at ?st sid) = None" "sl_owner (slot_at ?st sid) \<noteq> None"
    using assms(2,4) by (simp_all add: granted_to_def Let_def idle_def)
  have iv: "iv_account (co_invs ?st ! j) = iv_account (co_invs st ! j)" "iv_signal (co_invs ?st ! j) = iv_signal (co_invs st ! j)"
    "co_slots ?st = co_slots st" "aborted ?st = aborted st" for j by (simp_all add: granted_to_def Let_def)
  have "waiter_ok ?st E sid v" if "v \<in> set (sl_waiters (slot_at ?st sid))" for v
    using that assms(1) by (auto simp: sl waiter_ok_def m ph iv slot_inv_def)
  moreover have "member_ok ?st sid j" if "j \<in> members st E sid" for j
  proof (cases "j = ?i")
    case True
    have "member_ok st sid ?i" using assms(1) i by (simp add: slot_inv_def)
    then show ?thesis using True w by (auto simp: member_ok_def ph iv active_def waiter_ok_def)
  next
    case False
    have "member_ok st sid j" using assms(1) that by (simp add: slot_inv_def)
    then show ?thesis using False nohold[OF that] by (auto simp: member_ok_def ph iv active_def sl)
  qed
  moreover have "distinct (map wt_inv (sl_waiters (slot_at ?st sid)))" using assms(1) by (simp add: sl slot_inv_def distinct_map_filter)
  moreover have "\<exists>j \<in> members st E sid. holds (phase_of ?st j) = sl_owner (slot_at ?st sid)" using i by (intro bexI[of _ ?i]) (simp_all add: ph)
  ultimately show ?thesis unfolding slot_inv_def m using sl nohold by (auto simp: ph)
qed

lemma se_grant: "waiter_ok st E sid w \<Longrightarrow> same_elsewhere sid st (granted_to sid w st)"
  unfolding granted_to_def Let_def by (intro se_trans[OF se_trans[OF se_fields(1) se_upd] se_phase]) (simp add: waiter_ok_def members_def)

lemma core_promote:
  assumes "core st E S" "sid < length (co_store st)" "idle st sid"
  shows "core (promote sid st) E (S - {sid})"
  using coreD(2)[OF assms(1,2)]
proof (cases rule: promote_cases)
  case none
  then show ?thesis using assms(1) by (auto simp: core_def wakeup_def)
next
  case (grant w)
  have w: "waiter_ok st E sid w" using grant(1) coreD(2)[OF assms(1,2)] by (simp add: slot_inv_def)
  show ?thesis unfolding grant(2)
  proof (rule core_local[OF assms(1) se_grant[OF w]])
    show "slots_ok (granted_to sid w st)"
      by (rule slots_ok_local[OF coreD(1)[OF assms(1)] se_grant[OF w]]) (simp add: granted_to_def Let_def)
    show "slot_inv (granted_to sid w st) E sid" by (rule slot_inv_grant[OF coreD(2)[OF assms(1,2)] assms(3) grant(1) assms(2)])
    show "wakeup (granted_to sid w st) sid" using assms(2) by (simp add: wakeup_def idle_def granted_to_def Let_def)
  qed auto
qed


text \<open>An invocation leaves its slot: its owner is dropped, and it joins \<open>E\<close> until it gets a new phase.\<close>

lemma drop_owner_sel [simp]:
  "co_invs (drop_owner sid ow st) = co_invs st" "co_slots (drop_owner sid ow st) = co_slots st"
  "length (co_store (drop_owner sid ow st)) = length (co_store st)" "phase_of (drop_owner sid ow st) = phase_of st"
  "aborted (drop_owner sid ow st) = aborted st"
  by (simp_all add: drop_owner_def Let_def)

lemma se_drop [simp]: "same_elsewhere sid st (drop_owner sid ow st)"
  using se_trans[OF se_upd se_fields(2)] by (simp add: drop_owner_def Let_def)

lemma slot_at_drop:
  "sl_owner (slot_at st sid) = Some ow \<Longrightarrow> sid < length (co_store st) \<Longrightarrow>
     slot_at (drop_owner sid ow st) t = (if t = sid then (slot_at st sid)\<lparr>sl_owner := None\<rparr> else slot_at st t)"
  by (simp add: drop_owner_def owns_def Let_def)

lemma slot_inv_leave:
  assumes inv: "slot_inv st {} sid" and i: "i \<in> members st {} sid" "holds (phase_of st i) \<noteq> None"
    and w: "sl_waiters (slot_at st' sid) = sl_waiters (slot_at st sid)" and ow: "sl_owner (slot_at st' sid) = None"
    and sel: "co_invs st' = co_invs st" "co_slots st' = co_slots st" "aborted st' = aborted st"
  shows "slot_inv st' {i} sid"
proof -
  have ph: "phase_of st' = phase_of st" using sel(1) by (simp add: phase_of_def fun_eq_iff)
  have m: "members st' {i} sid = members st {} sid - {i}" using sel(1) by (auto simp: members_def)
  have none: "holds (phase_of st j) = None" if "j \<in> members st' {i} sid" for j
    using slot_invD(6)[OF inv i(1), of j] i(2) that unfolding m by blast
  have "waiter_ok st' {i} sid v" if "v \<in> set (sl_waiters (slot_at st sid))" for v
  proof -
    have v: "waiter_ok st {} sid v" by (rule slot_invD(4)[OF inv that])
    then have "wt_inv v \<noteq> i" using i(2) by (auto simp: waiter_ok_def)
    then show ?thesis using v sel by (simp add: waiter_ok_def m ph)
  qed
  moreover have "member_ok st' sid j" if "j \<in> members st' {i} sid" for j
    using slot_invD(5)[OF inv, of j] none[OF that] that w sel unfolding m by (simp add: member_ok_def ph)
  ultimately show ?thesis using ow slot_invD(3)[OF inv] none by (intro slot_invI) (simp_all add: w ph)
qed

text \<open>An invocation that has left its slot gets a final phase.\<close>

lemma core_finish:
  assumes c: "core st {i} S" and i: "i < length (co_invs st)" and ph: "\<not> active ph"
  shows "core (set_phase i ph st) {} S"
proof (rule core_local[OF c se_phase[OF refl]])
  let ?sid = "iv_slot (co_invs st ! i)" and ?st = "set_phase i ph st"
  show "slots_ok ?st" by (rule slots_ok_local[OF coreD(1)[OF c] se_phase[OF refl]]) simp
  show "wakeup ?st ?sid" if "?sid < length (co_store st)" "?sid \<notin> S"
    using coreD(3)[OF c that] by (simp add: wakeup_def idle_def)
  assume sid: "?sid < length (co_store st)"
  note inv = coreD(2)[OF c sid]
  have pi: "phase_of ?st i = ph" "holds ph = None" "ph \<noteq> PhAwaiting" using i ph by (auto simp: active_def)
  have pj: "phase_of ?st j = phase_of st j" if "j \<noteq> i" for j using that by simp
  have m: "members ?st {} ?sid = insert i (members st {i} ?sid)" "i \<notin> members st {i} ?sid" using i by (auto simp: members_def)
  show "slot_inv ?st {} ?sid"
  proof (rule slot_invI)
    show "sl_quarantine (slot_at ?st ?sid) = None" if "sl_owner (slot_at ?st ?sid) \<noteq> None"
      using slot_invD(1)[OF inv] that by simp
    show "\<exists>j \<in> members ?st {} ?sid. holds (phase_of ?st j) = sl_owner (slot_at ?st ?sid)" if some: "sl_owner (slot_at ?st ?sid) \<noteq> None"
    proof -
      obtain j where "j \<in> members st {i} ?sid" "holds (phase_of st j) = sl_owner (slot_at st ?sid)"
        using slot_invD(2)[OF inv] some by auto
      then show ?thesis using m pj by (intro bexI[of _ j]) auto
    qed
    show "distinct (map wt_inv (sl_waiters (slot_at ?st ?sid)))" using slot_invD(3)[OF inv] by simp
    show "waiter_ok ?st {} ?sid w" if "w \<in> set (sl_waiters (slot_at ?st ?sid))" for w
    proof -
      have w: "waiter_ok st {i} ?sid w" using slot_invD(4)[OF inv] that by simp
      then have "wt_inv w \<noteq> i" by (auto simp: waiter_ok_def members_def)
      then show ?thesis using w by (simp add: waiter_ok_def m)
    qed
    show "member_ok ?st ?sid j" if "j \<in> members ?st {} ?sid" for j
      using that slot_invD(5)[OF inv, of j] pi ph by (cases "j = i") (simp_all add: m member_ok_def)
    show "j = k" if "j \<in> members ?st {} ?sid" "k \<in> members ?st {} ?sid" "holds (phase_of ?st j) \<noteq> None" "holds (phase_of ?st k) \<noteq> None" for j k
      using that slot_invD(6)[OF inv, of j k] pi pj unfolding m(1) by (metis insert_iff)
  qed
qed (auto simp: members_def)


lemma core_weaken:
  assumes c: "core st {} S" and ph: "\<not> active (phase_of st i)"
  shows "core st {i} S"
proof -
  have "slot_inv st {i} sid" if "slot_inv st {} sid" for sid
  proof (rule slot_invI)
    have m: "members st {i} sid = members st {} sid - {i}" by (auto simp: members_def)
    have h: "holds (phase_of st i) = None" "phase_of st i \<noteq> PhAwaiting" using ph by (auto simp: active_def)
    note D = slot_invD[OF that]
    show "sl_quarantine (slot_at st sid) = None" if "sl_owner (slot_at st sid) \<noteq> None" by (rule D(1)[OF that])
    show "\<exists>j \<in> members st {i} sid. holds (phase_of st j) = sl_owner (slot_at st sid)" if "sl_owner (slot_at st sid) \<noteq> None"
      using D(2)[OF that] h(1) that unfolding m by (metis DiffI singletonD)
    show "distinct (map wt_inv (sl_waiters (slot_at st sid)))" by (rule D(3))
    show "waiter_ok st {i} sid w" if "w \<in> set (sl_waiters (slot_at st sid))" for w
      using D(4)[OF that] h unfolding waiter_ok_def m by auto
    show "member_ok st sid j" if "j \<in> members st {i} sid" for j using D(5) that unfolding m by blast
    show "j = k" if "j \<in> members st {i} sid" "k \<in> members st {i} sid" "holds (phase_of st j) \<noteq> None" "holds (phase_of st k) \<noteq> None" for j k
      using D(6) that unfolding m by blast
  qed
  then show ?thesis using c by (simp add: core_def)
qed

text \<open>Changes to a slot that keep its owner and its waiters.\<close>

lemma slot_inv_content:
  assumes "slot_inv st E sid" "sl_owner (slot_at st' sid) = sl_owner (slot_at st sid)"
    "sl_waiters (slot_at st' sid) = sl_waiters (slot_at st sid)" "sl_owner (slot_at st sid) \<noteq> None \<Longrightarrow> sl_quarantine (slot_at st' sid) = None"
    "co_invs st' = co_invs st" "co_slots st' = co_slots st" "aborted st' = aborted st"
  shows "slot_inv st' E sid"
proof -
  have ph: "phase_of st' = phase_of st" using assms(5) by (simp add: phase_of_def fun_eq_iff)
  have m: "members st' E sid = members st E sid" using assms(5) by (simp add: members_def)
  show ?thesis using slot_invD[OF assms(1)] assms
    by (intro slot_invI) (simp_all add: m ph waiter_ok_def member_ok_def)
qed

lemma core_content:
  assumes c: "core st E S" and se: "same_elsewhere sid st st'" and
    "sl_owner (slot_at st' sid) = sl_owner (slot_at st sid)" "sl_waiters (slot_at st' sid) = sl_waiters (slot_at st sid)"
    "sl_owner (slot_at st sid) \<noteq> None \<Longrightarrow> sl_quarantine (slot_at st' sid) = None"
    "co_invs st' = co_invs st" "co_slots st' = co_slots st" "S \<subseteq> insert sid S'" "sid < length (co_store st) \<Longrightarrow> sid \<notin> S' \<Longrightarrow> wakeup st' sid"
  shows "core st' E S'"
proof (rule core_local[OF c se _ _ refl])
  show "slots_ok st'" using slots_ok_local[OF coreD(1)[OF c] se] assms(7) by simp
  show "slot_inv st' E sid" if "sid < length (co_store st)"
    using slot_inv_content[OF coreD(2)[OF c that]] assms(2-7) by (simp add: same_elsewhere_def)
qed (use assms in auto)

text \<open>A detached invocation joins the waiters of its slot.\<close>

definition joined :: "nat \<Rightarrow> waiter \<Rightarrow> coordinator \<Rightarrow> coordinator" where
  "joined sid w st = upd_slot sid (\<lambda>s. s\<lparr>sl_waiters := sl_waiters s @ [w]\<rparr>) (set_phase (wt_inv w) PhAwaiting st)"

lemma core_join:
  assumes c: "core st {i} S" and i: "i < length (co_invs st)" "iv_slot (co_invs st ! i) = sid" "wt_inv w = i"
    and sid: "sid < length (co_store st)" and sig: "wt_signal w = iv_signal (co_invs st ! i)" "\<not> aborted st (iv_signal (co_invs st ! i))"
    and mp: "map_of (co_slots st) (iv_account (co_invs st ! i)) = Some sid" and busy: "\<not> idle st sid"
  shows "core (joined sid w st) {} S"
proof -
  let ?st = "joined sid w st"
  note inv = coreD(2)[OF c sid]
  have se: "same_elsewhere sid st ?st" using i by (auto simp: joined_def intro: se_trans[OF se_phase se_upd])
  have sl: "sl_owner (slot_at ?st sid) = sl_owner (slot_at st sid)" "sl_quarantine (slot_at ?st sid) = sl_quarantine (slot_at st sid)"
    "sl_waiters (slot_at ?st sid) = sl_waiters (slot_at st sid) @ [w]" using sid by (simp_all add: joined_def)
  have pj: "phase_of ?st j = (if j = i then PhAwaiting else phase_of st j)" for j using i by (simp add: joined_def)
  have iv: "iv_signal (co_invs ?st ! j) = iv_signal (co_invs st ! j)" "iv_account (co_invs ?st ! j) = iv_account (co_invs st ! j)"
    "aborted ?st = aborted st" "co_slots ?st = co_slots st" for j by (simp_all add: joined_def)
  have m: "members ?st {} sid = insert i (members st {i} sid)" "i \<notin> members st {i} sid" using i by (auto simp: members_def joined_def)
  have others: "wt_inv v \<noteq> i" if "v \<in> set (sl_waiters (slot_at st sid))" for v
    using slot_invD(4)[OF inv that] by (auto simp: waiter_ok_def members_def)
  show ?thesis
  proof (rule core_local[OF c se])
    show "slots_ok ?st" by (rule slots_ok_local[OF coreD(1)[OF c] se]) (simp add: iv)
    show "slot_inv ?st {} sid"
    proof (rule slot_invI)
      show "sl_quarantine (slot_at ?st sid) = None" if "sl_owner (slot_at ?st sid) \<noteq> None" using slot_invD(1)[OF inv] that sl by simp
      show "\<exists>j \<in> members ?st {} sid. holds (phase_of ?st j) = sl_owner (slot_at ?st sid)" if some: "sl_owner (slot_at ?st sid) \<noteq> None"
      proof -
        obtain j where "j \<in> members st {i} sid" "holds (phase_of st j) = sl_owner (slot_at st sid)" using slot_invD(2)[OF inv] some sl by auto
        then show ?thesis using m pj sl by (intro bexI[of _ j]) auto
      qed
      show "distinct (map wt_inv (sl_waiters (slot_at ?st sid)))" using slot_invD(3)[OF inv] others i(3) by (force simp: sl)
      show "waiter_ok ?st {} sid v" if "v \<in> set (sl_waiters (slot_at ?st sid))" for v
      proof (cases "v = w")
        case True
        then show ?thesis using i sig by (simp add: waiter_ok_def m pj iv)
      next
        case False
        then have "v \<in> set (sl_waiters (slot_at st sid))" using that sl by simp
        then show ?thesis using slot_invD(4)[OF inv] others by (auto simp: waiter_ok_def m pj iv)
      qed
      show "member_ok ?st sid j" if "j \<in> members ?st {} sid" for j
        using that slot_invD(5)[OF inv, of j] mp i(3) by (cases "j = i") (auto simp: m member_ok_def pj sl iv)
      show "j = k" if "j \<in> members ?st {} sid" "k \<in> members ?st {} sid" "holds (phase_of ?st j) \<noteq> None" "holds (phase_of ?st k) \<noteq> None" for j k
        using that slot_invD(6)[OF inv, of j k] unfolding m(1) pj by (auto split: if_splits)
    qed
    show "wakeup ?st sid" using busy unfolding wakeup_def idle_def sl by auto
  qed (use i in \<open>auto simp: members_def\<close>)
qed

text \<open>A detached invocation takes a free slot.\<close>

definition acquired :: "nat \<Rightarrow> nat \<Rightarrow> lease_owner \<Rightarrow> coordinator \<Rightarrow> coordinator" where
  "acquired sid i ow st = upd_slot sid (\<lambda>s. s\<lparr>sl_owner := Some ow\<rparr>) (set_phase i (PhRunning ow) st)"

lemma core_acquire:
  assumes c: "core st {i} S" and i: "i < length (co_invs st)" "iv_slot (co_invs st ! i) = sid"
    and sid: "sid < length (co_store st)" and mp: "map_of (co_slots st) (iv_account (co_invs st ! i)) = Some sid" and free: "idle st sid"
  shows "core (acquired sid i ow st) {} S"
proof -
  let ?st = "acquired sid i ow st"
  note inv = coreD(2)[OF c sid]
  have se: "same_elsewhere sid st ?st" using i by (auto simp: acquired_def intro: se_trans[OF se_phase se_upd])
  have sl: "sl_owner (slot_at ?st sid) = Some ow" "sl_quarantine (slot_at ?st sid) = None"
    "sl_waiters (slot_at ?st sid) = sl_waiters (slot_at st sid)" using sid free by (simp_all add: acquired_def idle_def)
  have pj: "phase_of ?st j = (if j = i then PhRunning ow else phase_of st j)" for j using i by (simp add: acquired_def)
  have iv: "iv_signal (co_invs ?st ! j) = iv_signal (co_invs st ! j)" "iv_account (co_invs ?st ! j) = iv_account (co_invs st ! j)"
    "aborted ?st = aborted st" "co_slots ?st = co_slots st" for j by (simp_all add: acquired_def)
  have m: "members ?st {} sid = insert i (members st {i} sid)" "i \<notin> members st {i} sid" using i by (auto simp: members_def acquired_def)
  have none: "holds (phase_of st j) = None" if "j \<in> members st {i} sid" for j
    using slot_invD(5)[OF inv that] free by (cases "holds (phase_of st j)") (auto simp: member_ok_def idle_def)
  show ?thesis
  proof (rule core_local[OF c se])
    show "slots_ok ?st" by (rule slots_ok_local[OF coreD(1)[OF c] se]) (simp add: iv)
    show "slot_inv ?st {} sid"
    proof (rule slot_invI)
      show "waiter_ok ?st {} sid v" if "v \<in> set (sl_waiters (slot_at ?st sid))" for v
        using slot_invD(4)[OF inv, of v] that m by (auto simp: sl waiter_ok_def pj iv)
      show "member_ok ?st sid j" if "j \<in> members ?st {} sid" for j
        using that slot_invD(5)[OF inv, of j] mp none by (cases "j = i") (auto simp: m member_ok_def pj sl iv)
      show "j = k" if "j \<in> members ?st {} sid" "k \<in> members ?st {} sid" "holds (phase_of ?st j) \<noteq> None" "holds (phase_of ?st k) \<noteq> None" for j k
        using that none unfolding m(1) pj by (auto split: if_splits)
      show "\<exists>j \<in> members ?st {} sid. holds (phase_of ?st j) = sl_owner (slot_at ?st sid)" by (intro bexI[of _ i]) (simp_all add: m pj sl)
    qed (use sl slot_invD(3)[OF inv] in simp_all)
    show "wakeup ?st sid" by (simp add: wakeup_def idle_def sl)
  qed (use i in \<open>auto simp: members_def\<close>)
qed


subsection \<open>The operations\<close>

lemma core_leave:
  assumes c: "core st {} S" and i: "i < length (co_invs st)" "holds (phase_of st i) = Some ow"
    and "sid = iv_slot (co_invs st ! i)"
  shows "core (drop_owner sid ow st) {i} (insert sid S)" "idle (drop_owner sid ow st) sid" "sid < length (co_store st)"
    "map_of (co_slots st) (iv_account (co_invs st ! i)) = Some sid" "sl_owner (slot_at st sid) = Some ow"
proof -
  show sid: "sid < length (co_store st)" using coreD(1)[OF c] i assms(4) by (simp add: slots_ok_def)
  note inv = coreD(2)[OF c sid]
  have mem: "i \<in> members st {} sid" using i assms(4) by (simp add: members_def)
  show ow: "sl_owner (slot_at st sid) = Some ow" and "map_of (co_slots st) (iv_account (co_invs st ! i)) = Some sid"
    using slot_invD(5)[OF inv mem] i by (auto simp: member_ok_def active_def)
  show "idle (drop_owner sid ow st) sid" using slot_invD(1)[OF inv] ow sid by (simp add: idle_def slot_at_drop)
  show "core (drop_owner sid ow st) {i} (insert sid S)"
  proof (rule core_local[OF c se_drop])
    show "slots_ok (drop_owner sid ow st)" by (rule slots_ok_local[OF coreD(1)[OF c] se_drop]) simp
    show "slot_inv (drop_owner sid ow st) {i} sid"
      using slot_inv_leave[OF inv mem, of "drop_owner sid ow st"] i ow sid by (simp add: slot_at_drop)
  qed (use assms(4) in \<open>auto simp: members_def\<close>)
qed

lemma promote_sel [simp]:
  "length (co_invs (promote sid st)) = length (co_invs st)" "length (co_store (promote sid st)) = length (co_store st)"
  "co_slots (promote sid st) = co_slots st" "aborted (promote sid st) = aborted st" "co_install (promote sid st) = co_install st"
  by (simp_all add: promote_def Let_def resolve_grant_def split: list.split)

lemma core_released:
  assumes "core st {} {}" "i < length (co_invs st)" "holds (phase_of st i) = Some ow" "sid = iv_slot (co_invs st ! i)" "\<not> active ph"
  shows "core (set_phase i ph (releaseUnstartedOwner a sid ow st)) {} {}"
proof -
  note L = core_leave[OF assms(1-4)]
  have "core (promote sid (drop_owner sid ow st)) {i} ({sid} - {sid})" using core_promote[OF L(1), of sid] L(2,3) by simp
  then have "core (releaseUnstartedOwner a sid ow st) {i} {}" unfolding releaseUnstartedOwner_def using core_cleanup L(3) by simp
  then show ?thesis using assms(2,5) by (intro core_finish) (simp_all add: releaseUnstartedOwner_def)
qed

lemma core_resume:
  assumes c: "core st {} {}" and i: "i < length (co_invs st)"
  shows "core (resume_granted i st) {} {}"
proof (cases "phase_of st i")
  case (PhGranted g)
  show ?thesis
  proof (cases g)
    case None
    then have "core st {i} {}" using PhGranted by (intro core_weaken[OF c]) (simp add: active_def)
    then show ?thesis using PhGranted None i by (simp add: resume_granted_def core_finish active_def)
  next
    case (Some ow)
    then have h: "holds (phase_of st i) = Some ow" using PhGranted by simp
    note L = core_leave[OF c i h refl]
    show ?thesis
    proof (cases "aborted st (iv_signal (co_invs st ! i))")
      case True
      then show ?thesis using PhGranted Some core_released[OF c i h refl, of "PhDone None"]
        by (simp add: resume_granted_def Let_def active_def)
    next
      case False
      have "core (acquired (iv_slot (co_invs st ! i)) i ow (drop_owner (iv_slot (co_invs st ! i)) ow st)) {} {iv_slot (co_invs st ! i)}"
        using L i by (intro core_acquire) simp_all
      moreover have "acquired (iv_slot (co_invs st ! i)) i ow (drop_owner (iv_slot (co_invs st ! i)) ow st) =
          (set_phase i (PhRunning ow) st)\<lparr>co_released := lo_id ow # co_released st\<rparr>"
        using L(3,5) by (simp add: acquired_def drop_owner_def owns_def upd_slot_def set_phase_def slot_at_def list_update_same_conv)
      ultimately have k: "core ((set_phase i (PhRunning ow) st)\<lparr>co_released := lo_id ow # co_released st\<rparr>) {} {iv_slot (co_invs st ! i)}" by simp
      have "core (set_phase i (PhRunning ow) st) {} {}"
      proof (rule core_content[OF k, of "iv_slot (co_invs st ! i)"])
        show "wakeup (set_phase i (PhRunning ow) st) (iv_slot (co_invs st ! i))" using L(5) by (simp add: wakeup_def idle_def)
      qed (use slot_invD(1)[OF coreD(2)[OF c L(3)]] in \<open>auto simp: same_elsewhere_def\<close>)
      then show ?thesis using PhGranted Some False by (simp add: resume_granted_def Let_def)
    qed
  qed
qed (use c in \<open>simp_all add: resume_granted_def\<close>)


definition quarantined :: "nat \<Rightarrow> string \<Rightarrow> lease_owner \<Rightarrow> close_report option \<Rightarrow> nat option \<Rightarrow> coordinator \<Rightarrow> coordinator" where
  "quarantined sid a ow report probe st = drop_owner sid ow (notify_quarantine sid a ow (quarantine_slot sid report probe st))"

lemma quarantined_sel [simp]:
  "co_invs (quarantined sid a ow report probe st) = co_invs st" "co_slots (quarantined sid a ow report probe st) = co_slots st"
  "length (co_store (quarantined sid a ow report probe st)) = length (co_store st)"
  "aborted (quarantined sid a ow report probe st) = aborted st" "phase_of (quarantined sid a ow report probe st) = phase_of st"
  by (simp_all add: quarantined_def notify_quarantine_def quarantine_slot_def)

lemma se_quarantined [simp]: "same_elsewhere sid st (quarantined sid a ow report probe st)"
proof -
  have "same_elsewhere sid st (quarantine_slot sid report probe st)"
    unfolding quarantine_slot_def by (rule se_trans[OF se_upd se_fields(1)])
  moreover have "same_elsewhere sid st' (notify_quarantine sid a ow st')" for st' by (simp add: notify_quarantine_def)
  ultimately show ?thesis unfolding quarantined_def by (blast intro: se_trans se_drop)
qed

lemma slot_at_quarantined:
  assumes "sl_owner (slot_at st sid) = Some ow" "sid < length (co_store st)"
  shows "sl_owner (slot_at (quarantined sid a ow report probe st) sid) = None"
    "sl_quarantine (slot_at (quarantined sid a ow report probe st) sid) \<noteq> None"
    "sl_waiters (slot_at (quarantined sid a ow report probe st) sid) = sl_waiters (slot_at st sid)"
  using assms by (simp_all add: quarantined_def notify_quarantine_def quarantine_slot_def drop_owner_def owns_def Let_def)

lemma core_quarantined:
  assumes c: "core st {} {}" and i: "i < length (co_invs st)" "holds (phase_of st i) = Some ow" and sid: "sid = iv_slot (co_invs st ! i)"
  shows "core (quarantined sid a ow report probe st) {i} {}"
proof -
  note L = core_leave[OF c i sid]
  have mem: "i \<in> members st {} sid" using i sid by (simp add: members_def)
  show ?thesis
  proof (rule core_local[OF c se_quarantined])
    show "slots_ok (quarantined sid a ow report probe st)" by (rule slots_ok_local[OF coreD(1)[OF c] se_quarantined]) simp
    show "slot_inv (quarantined sid a ow report probe st) {i} sid"
      by (rule slot_inv_leave[OF coreD(2)[OF c L(3)] mem]) (use i L in \<open>simp_all add: slot_at_quarantined\<close>)
    show "wakeup (quarantined sid a ow report probe st) sid" using slot_at_quarantined(2)[OF L(5,3), of a report probe] by (intro wakeup_busy) (simp add: idle_def)
  qed (use sid in \<open>auto simp: members_def\<close>)
qed

lemma core_settle:
  assumes c: "core st {} {}" and i: "i < length (co_invs st)"
  shows "core (run_settled i r st) {} {}"
proof (cases "phase_of st i")
  case (PhRunning ow)
  then have h: "holds (phase_of st i) = Some ow" by simp
  let ?iv = "co_invs st ! i" let ?sid = "iv_slot ?iv" let ?a = "iv_account ?iv"
  note L = core_leave[OF c i h refl]
  obtain ok report probe err where rr: "run_reading r = (ok, report, probe, err)" by (cases "run_reading r") auto
  show ?thesis
  proof (cases ok)
    case True
    then have "run_settled i r st = set_phase i (PhDone err) (releaseUnstartedOwner ?a ?sid ow st)"
      using PhRunning rr by (simp add: run_settled_def releaseUnstartedOwner_def Let_def)
    then show ?thesis using core_released[OF c i h refl, of "PhDone err"] by (simp add: active_def)
  next
    case False
    let ?q = "quarantined ?sid ?a ow report probe st"
    have q: "core ?q {i} {}" by (rule core_quarantined[OF c i h refl])
    show ?thesis
    proof (cases "aborted st (iv_signal ?iv)")
      case True
      then have "run_settled i r st = set_phase i (PhDone err) (cleanupSlot ?a ?sid ?q)"
        using PhRunning rr False by (simp add: run_settled_def Let_def quarantined_def[symmetric])
      then show ?thesis using core_finish[OF core_cleanup[OF q], of ?sid ?a "PhDone err"] i L(3) by (simp add: active_def)
    next
      case na: False
      let ?w = "\<lparr>wt_inv = i, wt_install = lo_install ow, wt_arrival = lo_arrival ow, wt_signal = iv_signal ?iv\<rparr>"
      have "run_settled i r st = joined ?sid ?w ?q"
        using PhRunning rr False na i by (simp add: run_settled_def Let_def quarantined_def[symmetric] awaitGrant_def joined_def)
      moreover have "core (joined ?sid ?w ?q) {} {}"
        using q i L(3,4) na slot_at_quarantined[OF L(5,3)] by (intro core_join) (simp_all add: idle_def)
      ultimately show ?thesis by simp
    qed
  qed
qed (use c in \<open>simp_all add: run_settled_def\<close>)

lemma core_probes_update: "core st E S \<Longrightarrow> core (st\<lparr>co_probes := ps\<rparr>) E S"
  by (simp add: core_def slots_ok_def slot_inv_def members_def waiter_ok_def member_ok_def wakeup_def idle_def)

lemma core_probe:
  assumes c: "core st {} {}" and p: "\<forall>p \<in> set (co_probes st). pp_slot p < length (co_store st)"
  shows "core (probe_settled k ans st) {} {}"
proof (cases "k < length (co_probes st)")
  case True
  let ?p = "co_probes st ! k" let ?sid = "pp_slot ?p"
  let ?st = "st\<lparr>co_probes := take k (co_probes st) @ drop (Suc k) (co_probes st)\<rparr>"
  have c1: "core ?st {} {}" by (rule core_probes_update[OF c])
  have sid: "?sid < length (co_store ?st)" using p True by simp
  show ?thesis
  proof (cases "sl_quarantine (slot_at ?st ?sid)")
    case None
    then show ?thesis using True c1 by (simp add: probe_settled_def Let_def)
  next
    case (Some q)
    then have free: "sl_owner (slot_at ?st ?sid) = None" using slot_invD(1)[OF coreD(2)[OF c1 sid]] by fastforce
    let ?clear = "upd_slot ?sid (\<lambda>s. s\<lparr>sl_quarantine := None\<rparr>) ?st"
    have c2: "core ?clear {} {?sid}"
      by (rule core_content[OF c1 se_upd]) (use free sid in simp_all)
    then have c3: "core (promote ?sid ?clear) {} ({?sid} - {?sid})" using free sid by (intro core_promote) (simp_all add: idle_def)
    let ?keep = "upd_slot ?sid (\<lambda>s. s\<lparr>sl_quarantine := Some (q\<lparr>probing := False, probeCutoffArrival := nextArrival s\<rparr>)\<rparr>) ?st"
    have c4: "core ?keep {} {}"
      by (rule core_content[OF c1 se_upd]) (use free sid in \<open>simp_all add: wakeup_def idle_def\<close>)
    have "core (cleanupSlot (pp_account ?p) ?sid (promote ?sid ?clear)) {} {}" "core (cleanupSlot (pp_account ?p) ?sid ?keep) {} {}"
      using core_cleanup[OF c3, of ?sid] core_cleanup[OF c4, of ?sid] sid by simp_all
    then show ?thesis using True Some c1 by (simp add: probe_settled_def Let_def)
  qed
qed (use c in \<open>simp add: probe_settled_def\<close>)


lemma core_enter:
  assumes c: "core st {} {}" and e: "enter_slot a st = (sid, st')"
  shows "core st' {} {}" "sid < length (co_store st')" "map_of (co_slots st') a = Some sid"
    "co_invs st' = co_invs st" "aborted st' = aborted st" "length (co_store st) \<le> length (co_store st')" "co_probes st' = co_probes st"
proof -
  have all: "core st' {} {} \<and> sid < length (co_store st') \<and> map_of (co_slots st') a = Some sid \<and> co_invs st' = co_invs st \<and>
    aborted st' = aborted st \<and> length (co_store st) \<le> length (co_store st') \<and> co_probes st' = co_probes st"
  proof (cases "map_of (co_slots st) a")
    case (Some t)
    then have "st' = st" "sid = t" "t < length (co_store st)" using e coreD(1)[OF c] by (auto simp: enter_slot_def slots_ok_def)
    then show ?thesis using Some c by simp
  next
    case None
    let ?n = "length (co_store st)"
    have st': "st' = st\<lparr>co_store := co_store st @ [new_slot], co_slots := AList.update a ?n (co_slots st)\<rparr>" and sid: "sid = ?n"
      using e None by (auto simp: enter_slot_def)
    note ok = coreD(1)[OF c, unfolded slots_ok_def]
    have old: "slot_at st' t = slot_at st t" if "t < ?n" for t using that by (simp add: st' slot_at_def nth_append)
    have new: "slot_at st' ?n = new_slot" by (simp add: st' slot_at_def)
    have ph: "phase_of st' = phase_of st" "aborted st' = aborted st" "co_invs st' = co_invs st" by (simp_all add: st' phase_of_def aborted_def fun_eq_iff)
    have mp: "map_of (co_slots st') b = (if b = a then Some ?n else map_of (co_slots st) b)" for b by (simp add: st' AList.update_conv')
    have m: "members st' {} t = members st {} t" for t by (simp add: members_def ph)
    have m0: "members st {} ?n = {}" using ok by (fastforce simp: members_def dest: nth_mem)
    have "slots_ok st'" unfolding slots_ok_def mp ph(3) using ok by (auto simp: st' less_Suc_eq split: if_splits)
    moreover have "slot_inv st' {} t" if "t < length (co_store st')" for t
    proof (cases "t = ?n")
      case True
      then show ?thesis by (simp add: slot_inv_def new m m0 new_slot_def)
    next
      case False
      then have t: "t < ?n" using that by (simp add: st')
      note D = slot_invD[OF coreD(2)[OF c t]]
      have "member_ok st' t i" if "i \<in> members st {} t" for i
        using D(5)[OF that] None by (auto simp: member_ok_def old[OF t] ph mp)
      then show ?thesis using D by (intro slot_invI) (simp_all add: m old[OF t] ph waiter_ok_def)
    qed
    moreover have "wakeup st' t" if "t < length (co_store st')" for t
      using that coreD(3)[OF c, of t] old[of t] new by (cases "t = ?n") (auto simp: st' wakeup_def idle_def new_slot_def slot_at_def nth_append)
    ultimately have "core st' {} {}" by (simp add: core_def)
    then show ?thesis using mp ph by (simp add: sid) (simp add: st')
  qed
  then show "core st' {} {}" "sid < length (co_store st')" "map_of (co_slots st') a = Some sid"
    "co_invs st' = co_invs st" "aborted st' = aborted st" "length (co_store st) \<le> length (co_store st')" "co_probes st' = co_probes st" by auto
qed

lemma add_sel [simp]:
  "slot_at (add_invocation a sid sig ph st) = slot_at st" "aborted (add_invocation a sid sig ph st) = aborted st"
  "co_store (add_invocation a sid sig ph st) = co_store st" "co_slots (add_invocation a sid sig ph st) = co_slots st"
  "co_probes (add_invocation a sid sig ph st) = co_probes st" "co_fresh (add_invocation a sid sig ph st) = co_fresh st"
  "length (co_invs (add_invocation a sid sig ph st)) = Suc (length (co_invs st))"
  by (simp_all add: add_invocation_def slot_at_def aborted_def fun_eq_iff)

lemma core_add:
  assumes c: "core st {} S" and sid: "sid < length (co_store st)" and ph: "\<not> active ph"
  shows "core (add_invocation a sid sig ph st) {length (co_invs st)} S"
proof -
  let ?st = "add_invocation a sid sig ph st" and ?n = "length (co_invs st)"
  have old: "co_invs ?st ! i = co_invs st ! i" "phase_of ?st i = phase_of st i" if "i < ?n" for i
    using that by (simp_all add: add_invocation_def nth_append phase_of_def)
  have m: "members ?st {?n} t = members st {} t" for t by (auto simp: members_def old)
  have lt: "i < ?n" if "i \<in> members st {} t" for i t using that by (simp add: members_def)
  have "slots_ok ?st" using coreD(1)[OF c] sid by (auto simp: slots_ok_def add_invocation_def)
  moreover have "slot_inv ?st {?n} t" if "t < length (co_store ?st)" for t
  proof -
    note D = slot_invD[OF coreD(2)[OF c, of t]]
    have t: "t < length (co_store st)" using that by simp
    show ?thesis
    proof (rule slot_invI)
      show "sl_quarantine (slot_at ?st t) = None" if "sl_owner (slot_at ?st t) \<noteq> None" using D(1)[OF t] that by simp
      show "\<exists>i \<in> members ?st {?n} t. holds (phase_of ?st i) = sl_owner (slot_at ?st t)" if "sl_owner (slot_at ?st t) \<noteq> None"
        using D(2)[OF t] that lt by (auto simp: m old)
      show "distinct (map wt_inv (sl_waiters (slot_at ?st t)))" using D(3)[OF t] by simp
      show "waiter_ok ?st {?n} t w" if "w \<in> set (sl_waiters (slot_at ?st t))" for w
        using D(4)[OF t, of w] that lt by (auto simp: waiter_ok_def m old)
      show "member_ok ?st t i" if "i \<in> members ?st {?n} t" for i
        using D(5)[OF t, of i] that lt[of i t] by (simp add: m member_ok_def old)
      show "i = j" if "i \<in> members ?st {?n} t" "j \<in> members ?st {?n} t" "holds (phase_of ?st i) \<noteq> None" "holds (phase_of ?st j) \<noteq> None" for i j
        using D(6)[OF t, of i j] that lt[of i t] lt[of j t] by (simp add: m old)
    qed
  qed
  moreover have "wakeup ?st t" if "t < length (co_store ?st)" "t \<notin> S" for t
    using coreD(3)[OF c, of t] that by (simp add: wakeup_def idle_def)
  ultimately show ?thesis by (simp add: core_def)
qed


lemma core_add_done:
  assumes "core st {} S" "sid < length (co_store st)" "\<not> active ph"
  shows "core (add_invocation a sid sig ph st) {} S"
proof -
  have "set_phase (length (co_invs st)) ph (add_invocation a sid sig ph st) = add_invocation a sid sig ph st"
    by (simp add: set_phase_def add_invocation_def)
  then show ?thesis using core_finish[OF core_add[OF assms, of a sig], of ph] assms(3) by simp
qed

lemma core_fields:
  assumes "core st E S"
  shows "core (st\<lparr>co_fresh := n\<rparr>) E S" "core (st\<lparr>co_released := rs\<rparr>) E S"
  using assms by (simp_all add: core_def slots_ok_def slot_inv_def members_def waiter_ok_def member_ok_def wakeup_def idle_def)

lemma core_maybeProbe:
  assumes c: "core st E S" and "sid < length (co_store st)"
  shows "core (maybeProbe a sid w st) E S"
proof (cases "sl_quarantine (slot_at st sid)")
  case (Some q)
  then have "sl_owner (slot_at st sid) = None" using slot_invD(1)[OF coreD(2)[OF assms]] by fastforce
  then have "core (upd_slot sid (\<lambda>s. s\<lparr>sl_quarantine := Some (q\<lparr>probing := True\<rparr>)\<rparr>) st) E S"
    using assms(2) by (intro core_content[OF c se_upd]) (auto intro!: wakeup_busy simp: idle_def)
  then show ?thesis using c core_probes_update Some by (simp add: maybeProbe_def)
qed (use c in \<open>simp add: maybeProbe_def\<close>)

lemma maybeProbe_sel [simp]:
  "co_invs (maybeProbe a sid w st) = co_invs st" "aborted (maybeProbe a sid w st) = aborted st"
  "length (co_store (maybeProbe a sid w st)) = length (co_store st)" "co_slots (maybeProbe a sid w st) = co_slots st"
  by (simp_all add: maybeProbe_def split: option.split)

lemma maybeProbe_aborted: "aborted st (wt_signal w) \<Longrightarrow> maybeProbe a sid w st = st"
  by (simp add: maybeProbe_def split: option.split)

lemma core_detached_phase:
  assumes c: "core st {i} S"
  shows "core (set_phase i ph st) {i} S"
proof -
  have m: "members (set_phase i ph st) {i} t = members st {i} t" for t by (simp add: members_def)
  have ph: "phase_of (set_phase i ph st) j = phase_of st j" if "j \<in> members st {i} t" for j t using that by (auto simp: members_def)
  have "slot_inv (set_phase i ph st) {i} t" if inv: "slot_inv st {i} t" for t
  proof (rule slot_invI)
    show "waiter_ok (set_phase i ph st) {i} t w" if "w \<in> set (sl_waiters (slot_at (set_phase i ph st) t))" for w
      using slot_invD(4)[OF inv, of w] that ph[of "wt_inv w" t] by (simp add: waiter_ok_def m del: phase_of_set)
    show "\<exists>j \<in> members (set_phase i ph st) {i} t. holds (phase_of (set_phase i ph st) j) = sl_owner (slot_at (set_phase i ph st) t)"
      if "sl_owner (slot_at (set_phase i ph st) t) \<noteq> None"
      using slot_invD(2)[OF inv] that by (auto simp: m ph simp del: phase_of_set)
    show "member_ok (set_phase i ph st) t j" if "j \<in> members (set_phase i ph st) {i} t" for j
      using slot_invD(5)[OF inv, of j] that ph[of j t] by (simp add: member_ok_def m del: phase_of_set)
    show "j = k" if "j \<in> members (set_phase i ph st) {i} t" "k \<in> members (set_phase i ph st) {i} t"
        "holds (phase_of (set_phase i ph st) j) \<noteq> None" "holds (phase_of (set_phase i ph st) k) \<noteq> None" for j k
      using slot_invD(6)[OF inv, of j k] that by (simp add: m ph del: phase_of_set)
  qed (use slot_invD[OF inv] in simp_all)
  moreover have "slots_ok (set_phase i ph st)" by (rule slots_ok_local[OF coreD(1)[OF c] se_phase[OF refl]]) simp
  ultimately show ?thesis using c by (simp add: core_def wakeup_def idle_def)
qed

lemma core_run:
  assumes c: "core st {} {}" and r: "runAccount a sig st = Inr st'"
  shows "core st' {} {}"
proof -
  obtain ins where ins: "co_install st = Some ins" using r by (auto simp: runAccount_def split: option.splits)
  obtain sid st1 where e: "enter_slot a st = (sid, st1)" by force
  note E = core_enter[OF c e]
  define arrival where "arrival = nextArrival (slot_at st1 sid) + 1"
  define st2 where "st2 = upd_slot sid (\<lambda>s. s\<lparr>nextArrival := arrival, highestGeneration := max (highestGeneration s) (in_generation ins)\<rparr>) st1"
  have c2: "core st2 {} {}" unfolding st2_def
    by (rule core_content[OF E(1) se_upd])
      (use E(2) coreD(3)[OF E(1,2)] slot_invD(1)[OF coreD(2)[OF E(1,2)]] in \<open>auto simp: wakeup_def idle_def less_max_iff_disj\<close>)
  have sel: "sid < length (co_store st2)" "map_of (co_slots st2) a = Some sid" "co_invs st2 = co_invs st" "aborted st2 = aborted st"
    using E by (simp_all add: st2_def)
  let ?n = "length (co_invs st2)"
  note run = r[unfolded runAccount_def ins e option.case prod.case Let_def, folded arrival_def, folded st2_def]
  show ?thesis
  proof (cases "idle st2 sid")
    case True
    define ow where "ow = \<lparr>lo_id = co_fresh st2, lo_install = ins, lo_arrival = arrival, lo_signal = sig\<rparr>"
    let ?f = "st2\<lparr>co_fresh := co_fresh st2 + 1\<rparr>"
    let ?st3 = "upd_slot sid (\<lambda>s. s\<lparr>sl_owner := Some ow\<rparr>) ?f"
    note cf = core_fields(1)[OF c2, of "co_fresh st2 + 1"]
    have st': "st' = (if aborted st2 sig then add_invocation a sid sig (PhDone None) (releaseUnstartedOwner a sid ow ?st3)
        else add_invocation a sid sig (PhRunning ow) ?st3)"
      using run True by (auto simp: ow_def idle_def split: if_splits)
    show ?thesis
    proof (cases "aborted st2 sig")
      case True
      have "drop_owner sid ow ?st3 = ?f\<lparr>co_released := lo_id ow # co_released ?f\<rparr>"
        using sel(1) \<open>idle st2 sid\<close> by (simp add: drop_owner_def owns_def idle_def upd_slot_def slot_at_def list_update_same_conv)
      then have "core (drop_owner sid ow ?st3) {} {}" "idle (drop_owner sid ow ?st3) sid"
        using core_fields(2)[OF cf] \<open>idle st2 sid\<close> by (simp_all add: idle_def)
      then have "core (promote sid (drop_owner sid ow ?st3)) {} ({} - {sid})" using sel(1) by (intro core_promote) simp_all
      then have "core (releaseUnstartedOwner a sid ow ?st3) {} {}" unfolding releaseUnstartedOwner_def using sel(1) by (intro core_cleanup) simp_all
      then show ?thesis using True sel(1) unfolding st' by (simp add: active_def releaseUnstartedOwner_def core_add_done)
    next
      case False
      let ?d = "add_invocation a sid sig (PhDone None) ?f"
      have "add_invocation a sid sig (PhRunning ow) ?st3 = acquired sid ?n ow ?d"
        by (simp add: acquired_def upd_slot_def set_phase_def add_invocation_def slot_at_def)
      moreover have d: "core ?d {?n} {}" using core_add[OF cf, of sid "PhDone None" a sig] sel(1) by (simp add: active_def)
      have "core (acquired sid ?n ow ?d) {} {}"
        by (rule core_acquire[OF d]) (use sel True in \<open>simp_all add: idle_def\<close>, simp_all add: add_invocation_def)
      ultimately show ?thesis using False st' by simp
    qed
  next
    case False
    define w where "w = \<lparr>wt_inv = ?n, wt_install = ins, wt_arrival = arrival, wt_signal = sig\<rparr>"
    have ws: "wt_signal w = sig" by (simp add: w_def)
    let ?d = "add_invocation a sid sig (PhDone None) st2"
    have d: "core ?d {?n} {}" using sel(1) by (intro core_add[OF c2]) (simp_all add: active_def)
    have iv: "co_invs ?d ! ?n = \<lparr>iv_account = a, iv_slot = sid, iv_signal = sig, iv_phase = PhDone None\<rparr>" by (simp add: add_invocation_def)
    have j: "upd_slot sid (\<lambda>s. s\<lparr>sl_waiters := sl_waiters s @ [w]\<rparr>) (add_invocation a sid sig PhAwaiting st2) = joined sid w ?d"
      by (simp add: joined_def w_def upd_slot_def set_phase_def add_invocation_def slot_at_def)
    have st': "st' = awaitGrant ?n (maybeProbe a sid w (joined sid w ?d))"
      using run False unfolding j[symmetric] by (auto simp: w_def idle_def split: if_splits)
    have jv: "co_invs (joined sid w ?d) ! ?n = \<lparr>iv_account = a, iv_slot = sid, iv_signal = sig, iv_phase = PhAwaiting\<rparr>"
      "length (co_store (joined sid w ?d)) = length (co_store st2)" "aborted (joined sid w ?d) = aborted st2"
      by (simp_all add: joined_def w_def, simp_all add: set_phase_def add_invocation_def)
    show ?thesis
    proof (cases "aborted st2 sig")
      case na: False
      then have "st' = maybeProbe a sid w (joined sid w ?d)" by (simp add: st' awaitGrant_def Let_def jv)
      moreover have "core (joined sid w ?d) {} {}"
        by (rule core_join[OF d]) (use sel na False iv in \<open>simp_all add: w_def idle_def\<close>)
      ultimately show ?thesis using core_maybeProbe sel(1) jv(2) by simp
    next
      case True
      let ?x = "set_phase ?n PhAwaiting ?d"
      have old: "wt_inv v \<noteq> ?n" if "v \<in> set (sl_waiters (slot_at st2 sid))" for v
        using slot_invD(4)[OF coreD(2)[OF c2 sel(1)] that] by (auto simp: waiter_ok_def members_def)
      have "filter (\<lambda>v. wt_inv v \<noteq> ?n) (sl_waiters (slot_at st2 sid)) = sl_waiters (slot_at st2 sid)" using old by (simp add: filter_id_conv)
      then have "upd_slot sid (\<lambda>s. s\<lparr>sl_waiters := filter (\<lambda>v. wt_inv v \<noteq> ?n) (sl_waiters s)\<rparr>) (joined sid w ?d) = ?x"
        using sel(1) by (simp add: joined_def w_def upd_slot_def slot_at_def set_phase_def add_invocation_def list_update_same_conv)
      then have "st' = set_phase ?n (PhGranted None) (cleanupSlot a sid ?x)"
        using True ws by (simp add: st' maybeProbe_aborted jv awaitGrant_def Let_def removeWaiter_def)
      moreover have "core (cleanupSlot a sid ?x) {?n} {}" using core_detached_phase[OF d] sel(1) by (intro core_cleanup) simp_all
      ultimately show ?thesis using core_finish[of "cleanupSlot a sid ?x" ?n "{}" "PhGranted None"] by (simp add: active_def)
    qed
  qed
qed


lemma core_unjoin:
  assumes c: "core st {} S" and i: "i < length (co_invs st)" "phase_of st i = PhAwaiting" "sid = iv_slot (co_invs st ! i)"
  shows "core (upd_slot sid (\<lambda>s. s\<lparr>sl_waiters := filter (\<lambda>w. wt_inv w \<noteq> i) (sl_waiters s)\<rparr>) st) {i} S" (is "core ?st _ _")
    and "sid < length (co_store st)"
proof -
  show sid: "sid < length (co_store st)" using coreD(1)[OF c] i by (simp add: slots_ok_def)
  note D = slot_invD[OF coreD(2)[OF c sid]]
  have m: "members ?st {i} sid = members st {} sid - {i}" by (auto simp: members_def)
  show "core ?st {i} S"
  proof (rule core_local[OF c se_upd])
    show "slots_ok ?st" by (rule slots_ok_local[OF coreD(1)[OF c] se_upd]) simp
    show "slot_inv ?st {i} sid"
    proof (rule slot_invI)
      show "\<exists>j \<in> members ?st {i} sid. holds (phase_of ?st j) = sl_owner (slot_at ?st sid)" if some: "sl_owner (slot_at ?st sid) \<noteq> None"
      proof -
        obtain j where "j \<in> members st {} sid" "holds (phase_of st j) = sl_owner (slot_at st sid)" using D(2) some sid by auto
        moreover from this have "j \<noteq> i" using i some sid by auto
        ultimately show ?thesis using sid unfolding m by (intro bexI[of _ j]) auto
      qed
      show "waiter_ok ?st {i} sid w" if "w \<in> set (sl_waiters (slot_at ?st sid))" for w
        using D(4)[of w] that sid by (simp add: waiter_ok_def m)
      show "member_ok ?st sid j" if "j \<in> members ?st {i} sid" for j
        using D(5)[of j] that sid unfolding m by (auto simp: member_ok_def)
      show "j = k" if "j \<in> members ?st {i} sid" "k \<in> members ?st {i} sid" "holds (phase_of ?st j) \<noteq> None" "holds (phase_of ?st k) \<noteq> None" for j k
        using D(6)[of j k] that unfolding m by simp
    qed (use D(1,3) sid in \<open>auto simp: distinct_map_filter\<close>)
    show "wakeup ?st sid" if "sid \<notin> S" using coreD(3)[OF c sid that] sid by (simp add: wakeup_def idle_def)
  qed (use i in \<open>auto simp: members_def\<close>)
qed

lemma on_abort_step:
  assumes c: "core st {} {}" and i: "i < length (co_invs st)"
  shows "core (on_abort sig i st) {} {}"
    and "iv_signal (co_invs st ! i) = sig \<Longrightarrow> phase_of (on_abort sig i st) i \<noteq> PhAwaiting"
proof -
  let ?iv = "co_invs st ! i"
  have "core (on_abort sig i st) {} {} \<and> (iv_signal ?iv = sig \<longrightarrow> phase_of (on_abort sig i st) i \<noteq> PhAwaiting)"
  proof (cases "iv_signal ?iv = sig \<and> phase_of st i = PhAwaiting")
    case True
    note U = core_unjoin[OF c i conjunct2[OF True] refl]
    have "core (removeWaiter (iv_account ?iv) (iv_slot ?iv) i st) {i} {}" unfolding removeWaiter_def
      by (rule core_cleanup[OF U(1)]) (simp add: U(2))
    moreover have "on_abort sig i st = set_phase i (PhGranted None) (removeWaiter (iv_account ?iv) (iv_slot ?iv) i st)"
      using True by (simp add: on_abort_def Let_def resolve_grant_def removeWaiter_def phase_of_def[symmetric])
    ultimately show ?thesis using core_finish[of "removeWaiter (iv_account ?iv) (iv_slot ?iv) i st" i "{}" "PhGranted None"] i
      by (simp add: removeWaiter_def active_def)
  next
    case False
    then show ?thesis using c by (auto simp: on_abort_def Let_def phase_of_def)
  qed
  then show "core (on_abort sig i st) {} {}" "iv_signal (co_invs st ! i) = sig \<Longrightarrow> phase_of (on_abort sig i st) i \<noteq> PhAwaiting" by simp_all
qed

lemma on_abort_sel:
  "length (co_invs (on_abort sig i st)) = length (co_invs st)"
  "iv_signal (co_invs (on_abort sig i st) ! j) = iv_signal (co_invs st ! j)"
  "phase_of st j \<noteq> PhAwaiting \<Longrightarrow> phase_of (on_abort sig i st) j \<noteq> PhAwaiting"
  "on_abort sig i (st\<lparr>co_aborted := as\<rparr>) = (on_abort sig i st)\<lparr>co_aborted := as\<rparr>"
proof -
  show "length (co_invs (on_abort sig i st)) = length (co_invs st)" "iv_signal (co_invs (on_abort sig i st) ! j) = iv_signal (co_invs st ! j)"
    "phase_of st j \<noteq> PhAwaiting \<Longrightarrow> phase_of (on_abort sig i st) j \<noteq> PhAwaiting"
    by (simp_all add: on_abort_def Let_def resolve_grant_def removeWaiter_def)
  show "on_abort sig i (st\<lparr>co_aborted := as\<rparr>) = (on_abort sig i st)\<lparr>co_aborted := as\<rparr>"
    by (simp add: on_abort_def Let_def resolve_grant_def removeWaiter_def cleanupSlot_def upd_slot_def slot_at_def phase_of_def set_phase_def)
qed

lemma abort_fold:
  assumes "core st {} {}" "set xs \<subseteq> {..<length (co_invs st)}"
  shows "core (fold (on_abort sig) xs st) {} {} \<and> length (co_invs (fold (on_abort sig) xs st)) = length (co_invs st) \<and>
    (\<forall>j. iv_signal (co_invs (fold (on_abort sig) xs st) ! j) = iv_signal (co_invs st ! j)) \<and>
    (\<forall>j. phase_of st j \<noteq> PhAwaiting \<or> j \<in> set xs \<and> iv_signal (co_invs st ! j) = sig \<longrightarrow>
       phase_of (fold (on_abort sig) xs st) j \<noteq> PhAwaiting)"
  using assms
proof (induction xs arbitrary: st)
  case (Cons x xs)
  then have x: "x < length (co_invs st)" by simp
  have "core (on_abort sig x st) {} {}" by (rule on_abort_step(1)[OF Cons.prems(1) x])
  then have ih: "core (fold (on_abort sig) xs (on_abort sig x st)) {} {} \<and>
      length (co_invs (fold (on_abort sig) xs (on_abort sig x st))) = length (co_invs st) \<and>
      (\<forall>j. iv_signal (co_invs (fold (on_abort sig) xs (on_abort sig x st)) ! j) = iv_signal (co_invs st ! j)) \<and>
      (\<forall>j. phase_of (on_abort sig x st) j \<noteq> PhAwaiting \<or> j \<in> set xs \<and> iv_signal (co_invs st ! j) = sig \<longrightarrow>
         phase_of (fold (on_abort sig) xs (on_abort sig x st)) j \<noteq> PhAwaiting)"
    using Cons.IH[of "on_abort sig x st"] Cons.prems(2) by (simp add: on_abort_sel(1,2))
  moreover have "phase_of (on_abort sig x st) j \<noteq> PhAwaiting \<or> j \<in> set xs \<and> iv_signal (co_invs st ! j) = sig"
    if "phase_of st j \<noteq> PhAwaiting \<or> j \<in> set (x # xs) \<and> iv_signal (co_invs st ! j) = sig" for j
    using that on_abort_step(2)[OF Cons.prems(1) x] on_abort_sel(3)[of st j sig x] by auto
  ultimately show ?case unfolding fold_simps(2) by blast
qed simp

lemma fold_on_abort_aborted: "fold (on_abort sig) xs (st\<lparr>co_aborted := as\<rparr>) = (fold (on_abort sig) xs st)\<lparr>co_aborted := as\<rparr>"
  by (induction xs arbitrary: st) (simp_all add: on_abort_sel)


lemma core_abort:
  assumes c: "core st {} {}"
  shows "core (abort_signal sig st) {} {}"
proof (cases "aborted st sig")
  case False
  let ?xs = "[0..<length (co_invs st)]" let ?f = "fold (on_abort sig) ?xs st"
  let ?st = "?f\<lparr>co_aborted := sig # co_aborted st\<rparr>"
  have F: "core ?f {} {}" "length (co_invs ?f) = length (co_invs st)" "iv_signal (co_invs ?f ! j) = iv_signal (co_invs st ! j)"
    "j < length (co_invs st) \<Longrightarrow> iv_signal (co_invs st ! j) = sig \<Longrightarrow> phase_of ?f j \<noteq> PhAwaiting" for j
  proof -
    have sub: "set ?xs \<subseteq> {..<length (co_invs st)}" by auto
    show "core ?f {} {}" "length (co_invs ?f) = length (co_invs st)" "iv_signal (co_invs ?f ! j) = iv_signal (co_invs st ! j)"
      using abort_fold[OF c sub, of sig] by blast+
    show "phase_of ?f j \<noteq> PhAwaiting" if "j < length (co_invs st)" "iv_signal (co_invs st ! j) = sig"
      using abort_fold[OF c sub, of sig] that by (metis atLeastLessThan_iff le0 set_upt)
  qed
  have e: "abort_signal sig st = ?st" using False by (simp add: abort_signal_def fold_on_abort_aborted)
  have sel: "slot_at ?st = slot_at ?f" "phase_of ?st = phase_of ?f" "co_invs ?st = co_invs ?f" "co_slots ?st = co_slots ?f" "co_store ?st = co_store ?f"
    "members ?st {} t = members ?f {} t" for t
    by (simp_all add: slot_at_def phase_of_def members_def fun_eq_iff)
  have ab: "aborted ?st s \<longleftrightarrow> s = sig \<or> aborted ?f s" for s
  proof -
    have "co_aborted (on_abort sig i s') = co_aborted s'" for i s'
      by (simp add: on_abort_def Let_def resolve_grant_def removeWaiter_def)
    then have "co_aborted (fold (on_abort sig) xs s') = co_aborted s'" for xs s' by (induction xs arbitrary: s') simp_all
    then show ?thesis by (simp add: aborted_def)
  qed
  have "waiter_ok ?st {} t w" if "waiter_ok ?f {} t w" for t w
    using that F(2) F(3,4)[of "wt_inv w"] unfolding waiter_ok_def sel ab by (auto simp: members_def)
  then have "slot_inv ?st {} t" if "slot_inv ?f {} t" for t
    using slot_invD[OF that] by (intro slot_invI) (simp_all add: sel member_ok_def)
  then show ?thesis unfolding e using F(1) by (simp add: core_def slots_ok_def sel wakeup_def idle_def)
qed (use c in \<open>simp add: abort_signal_def\<close>)

lemma core_install:
  assumes "core st {} {}"
  shows "core (install_fingerprint fp rt lg st) {} {}"
proof -
  have "core (st\<lparr>co_install := x\<rparr>) {} {}" "core (st\<lparr>co_nextGeneration := n, co_install := x\<rparr>) {} {}" for x n
    using assms by (simp_all add: core_def slots_ok_def slot_inv_def members_def waiter_ok_def member_ok_def wakeup_def idle_def
        slot_at_def phase_of_def aborted_def)
  then show ?thesis by (simp add: install_fingerprint_def split: option.split)
qed

definition probes_ok :: "coordinator \<Rightarrow> bool" where
  "probes_ok st \<longleftrightarrow> (\<forall>p \<in> set (co_probes st). pp_slot p < length (co_store st))"

lemma probes_sel [simp]:
  "co_probes (promote sid st) = co_probes st" "co_probes (cleanupSlot a sid st) = co_probes st"
  "co_probes (drop_owner sid ow st) = co_probes st" "co_probes (releaseUnstartedOwner a sid ow st) = co_probes st"
  "length (co_store (releaseUnstartedOwner a sid ow st)) = length (co_store st)"
  "co_probes (removeWaiter a sid i st) = co_probes st" "length (co_store (removeWaiter a sid i st)) = length (co_store st)"
  "co_probes (awaitGrant i st) = co_probes st" "length (co_store (awaitGrant i st)) = length (co_store st)"
  "co_probes (quarantine_slot sid rep pr st) = co_probes st" "length (co_store (quarantine_slot sid rep pr st)) = length (co_store st)"
  "co_probes (notify_quarantine sid a ow st) = co_probes st" "co_store (notify_quarantine sid a ow st) = co_store st"
  "co_probes (on_abort sig i st) = co_probes st" "length (co_store (on_abort sig i st)) = length (co_store st)"
  by (simp_all add: promote_def cleanupSlot_def drop_owner_def releaseUnstartedOwner_def removeWaiter_def awaitGrant_def quarantine_slot_def
      notify_quarantine_def on_abort_def resolve_grant_def Let_def split: list.split)

lemma probes_run:
  assumes "core st {} {}" "probes_ok st" "runAccount a sig st = Inr st'"
  shows "probes_ok st'"
proof -
  obtain sid st1 where e: "enter_slot a st = (sid, st1)" by force
  note E = core_enter[OF assms(1) e]
  have "probes_ok st1" using assms(2) E(6,7) by (auto simp: probes_ok_def intro: less_le_trans)
  moreover have new: "p \<in> set (co_probes st2) \<or> pp_slot p = sid" if "p \<in> set (co_probes (maybeProbe b sid w st2))" for p b w st2
    using that by (auto simp: maybeProbe_def split: option.splits if_splits)
  ultimately show ?thesis using assms(3) e E(2)
    by (auto simp: runAccount_def Let_def probes_ok_def split: option.splits if_splits dest!: new)
qed


lemma probes_probe: "probes_ok st \<Longrightarrow> probes_ok (probe_settled k ans st)"
  by (auto simp: probe_settled_def probes_ok_def Let_def dest: in_set_takeD in_set_dropD split: option.splits)

lemma probes_run_settled: "probes_ok st \<Longrightarrow> probes_ok (run_settled i r st)"
  by (auto simp: run_settled_def probes_ok_def Let_def split: phase.splits prod.splits)

lemma probes_resume: "probes_ok st \<Longrightarrow> probes_ok (resume_granted i st)"
  by (auto simp: resume_granted_def probes_ok_def Let_def split: phase.splits option.splits)

lemma probes_abort: "probes_ok st \<Longrightarrow> probes_ok (abort_signal sig st)"
proof -
  have "co_probes (fold (on_abort sig) xs s) = co_probes s \<and> length (co_store (fold (on_abort sig) xs s)) = length (co_store s)" for xs s
    by (induction xs arbitrary: s) simp_all
  then show "probes_ok st \<Longrightarrow> probes_ok (abort_signal sig st)" by (simp add: abort_signal_def probes_ok_def)
qed

lemma probes_install: "probes_ok st \<Longrightarrow> probes_ok (install_fingerprint fp rt lg st)"
  by (auto simp: install_fingerprint_def probes_ok_def split: option.split)

definition lease_inv :: "coordinator \<Rightarrow> bool" where
  "lease_inv st \<longleftrightarrow> core st {} {} \<and> probes_ok st"

lemma lease_inv_new: "lease_inv new_coordinator"
  by (simp add: lease_inv_def core_def slots_ok_def probes_ok_def new_coordinator_def)

lemma lease_inv_step:
  assumes "lease_inv st"
  shows "lease_inv (lease_run op st)"
proof (cases op)
  case (OpInstall fp rt lg)
  then show ?thesis using assms by (simp add: lease_inv_def core_install probes_install)
next
  case (OpRun a sig)
  then show ?thesis using assms core_run probes_run by (auto simp: lease_inv_def split: sum.split)
next
  case (OpSettle i r)
  then show ?thesis using assms by (simp add: lease_inv_def core_settle probes_run_settled)
next
  case (OpResume i)
  then show ?thesis using assms by (simp add: lease_inv_def core_resume probes_resume)
next
  case (OpAbort sig)
  then show ?thesis using assms by (simp add: lease_inv_def core_abort probes_abort)
next
  case (OpProbe k ans)
  have "core (probe_settled k ans st) {} {}" using core_probe[of st k ans] assms by (simp add: lease_inv_def probes_ok_def)
  then show ?thesis using OpProbe assms by (simp add: lease_inv_def probes_probe)
qed

lemma reachable_lease_inv: "reachable_co st \<Longrightarrow> lease_inv st"
  by (induction rule: reachable_co.induct) (simp_all add: lease_inv_new lease_inv_step)

end
