(* ===== verification/Lease_Lock.thy ===== *)
theory Lease_Lock
  imports Lease_Invariant
begin

text \<open>
  What the account coordinator promises, stated on its executions: an abstract lock with a
  quarantine state per account, which every operation refines, and the properties that follow
  from the invariant (one owner per account, nothing runs under quarantine, a quarantine lasts
  until it is confirmed, a clean end wakes the right successor).
\<close>

section \<open>Refinement of an account lock\<close>

text \<open>
  What the coordinator promises about one account is a lock with a quarantine state.  An end
  with a confirmed close, or an abort before the start, frees the lock or hands it on; an end
  without confirmation quarantines it; only a confirmed probe of that quarantine lifts it.
\<close>

datatype lock = Free | Held nat | Quarantined nat

datatype evidence = NoEvidence | Arrival | CleanEnd nat | UnconfirmedEnd nat | ConfirmedProbe nat

inductive lock_step :: "evidence \<Rightarrow> lock \<Rightarrow> lock \<Rightarrow> bool" where
  stay: "lock_step ev l l"
| acquire: "lock_step Arrival Free (Held x)"
| release: "lock_step (CleanEnd x) (Held x) Free"
| handoff: "lock_step (CleanEnd x) (Held x) (Held y)"
| quarantine: "lock_step (UnconfirmedEnd x) (Held x) (Quarantined q)"
| lift: "lock_step (ConfirmedProbe q) (Quarantined q) Free"
| lift_grant: "lock_step (ConfirmedProbe q) (Quarantined q) (Held y)"

inductive_cases lock_step_quarantinedE: "lock_step ev (Quarantined q) l"
inductive_cases lock_step_toQuarantinedE: "lock_step ev l (Quarantined q)"

text \<open>What an operation tells about the account it works on.\<close>

definition evidence_of :: "lease_op \<Rightarrow> coordinator \<Rightarrow> evidence" where
  "evidence_of op st =
     (case op of
        OpRun _ _ \<Rightarrow> Arrival
      | OpSettle i r \<Rightarrow>
          (case phase_of st i of PhRunning ow \<Rightarrow> if fst (run_reading r) then CleanEnd (lo_id ow) else UnconfirmedEnd (lo_id ow)
           | _ \<Rightarrow> NoEvidence)
      | OpResume i \<Rightarrow>
          (case phase_of st i of PhGranted (Some ow) \<Rightarrow> if aborted st (iv_signal (co_invs st ! i)) then CleanEnd (lo_id ow) else NoEvidence
           | _ \<Rightarrow> NoEvidence)
      | OpProbe k ans \<Rightarrow>
          (case sl_quarantine (slot_at st (pp_slot (co_probes st ! k))) of
             Some q \<Rightarrow> if closes_socket (probe_answer (probePhysicalClose q) ans) then ConfirmedProbe (qu_id q) else NoEvidence
           | None \<Rightarrow> NoEvidence)
      | _ \<Rightarrow> NoEvidence)"

definition slot_lock :: "slot \<Rightarrow> lock" where
  "slot_lock s = (case sl_quarantine s of Some q \<Rightarrow> Quarantined (qu_id q)
     | None \<Rightarrow> (case sl_owner s of Some ow \<Rightarrow> Held (lo_id ow) | None \<Rightarrow> Free))"

definition account_lock :: "coordinator \<Rightarrow> string \<Rightarrow> lock" where
  "account_lock st a = (case map_of (co_slots st) a of Some sid \<Rightarrow> slot_lock (slot_at st sid) | None \<Rightarrow> Free)"

lemma slot_lock_idle: "idle st sid \<longleftrightarrow> slot_lock (slot_at st sid) = Free"
  by (auto simp: idle_def slot_lock_def split: option.splits)

text \<open>An operation on one slot refines the lock when the lock of that slot does.\<close>

lemma refine_local:
  assumes se: "same_elsewhere sid st st'" and sub: "\<And>b t. map_of (co_slots st') b = Some t \<Longrightarrow> map_of (co_slots st) b = Some t"
    and gone: "\<And>b. map_of (co_slots st) b = Some sid \<Longrightarrow> map_of (co_slots st') b = None \<Longrightarrow> idle st' sid"
    and step: "lock_step ev (slot_lock (slot_at st sid)) (slot_lock (slot_at st' sid))"
  shows "lock_step ev (account_lock st a) (account_lock st' a)"
proof (cases "map_of (co_slots st) a")
  case None
  then have "map_of (co_slots st') a = None" using sub[of a] by (cases "map_of (co_slots st') a") auto
  then show ?thesis using None by (simp add: account_lock_def lock_step.stay)
next
  case (Some t)
  show ?thesis
  proof (cases "t = sid")
    case True
    then show ?thesis using Some step gone[of a] sub[of a] by (cases "map_of (co_slots st') a") (auto simp: account_lock_def slot_lock_idle)
  next
    case False
    then have "map_of (co_slots st') a = Some t" "slot_at st' t = slot_at st t" using se Some by (auto simp: same_elsewhere_def)
    then show ?thesis using Some by (simp add: account_lock_def lock_step.stay)
  qed
qed

lemma cleanup_gone:
  "map_of (co_slots st) b = Some sid \<Longrightarrow> map_of (co_slots (cleanupSlot a sid st)) b = None \<Longrightarrow> idle st sid"
  by (auto simp: cleanupSlot_def Let_def idle_def split: if_splits)

lemma promote_lock:
  assumes "slot_inv st E sid" "idle st sid" "sid < length (co_store st)"
  shows "slot_lock (slot_at (promote sid st) sid) = Free \<or> (\<exists>y. slot_lock (slot_at (promote sid st) sid) = Held y)"
  using assms(1)
proof (cases rule: promote_cases)
  case none
  then show ?thesis using assms(2) by (simp add: slot_lock_idle)
next
  case (grant w)
  then show ?thesis using assms(2,3) by (auto simp: granted_to_def Let_def slot_lock_def idle_def)
qed

lemma se_promote:
  assumes "slot_inv st E sid"
  shows "same_elsewhere sid st (promote sid st)"
  using assms
proof (cases rule: promote_cases)
  case (grant w)
  then show ?thesis using se_grant[OF slot_invD(4)[OF assms grant(1)]] by simp
qed simp

text \<open>The end of an owner that frees or hands on its slot.\<close>

lemma refine_release:
  assumes c: "core st {} {}" and i: "i < length (co_invs st)" "holds (phase_of st i) = Some ow" and sid: "sid = iv_slot (co_invs st ! i)"
  shows "lock_step (CleanEnd (lo_id ow)) (account_lock st a) (account_lock (set_phase i ph (releaseUnstartedOwner b sid ow st)) a)"
proof -
  note L = core_leave[OF c i sid]
  let ?d = "drop_owner sid ow st"
  have d: "slot_inv ?d {i} sid" using coreD(2)[OF L(1), of sid] L(3) by simp
  have held: "slot_lock (slot_at st sid) = Held (lo_id ow)"
    using L(5) slot_invD(1)[OF coreD(2)[OF c L(3)]] by (simp add: slot_lock_def)
  have se: "same_elsewhere sid st (set_phase i ph (releaseUnstartedOwner b sid ow st))" unfolding releaseUnstartedOwner_def
    by (rule se_trans[OF se_trans[OF se_trans[OF se_drop se_promote[OF d]] se_cleanup] se_phase])
      (use se_promote[OF d] i sid in \<open>simp add: same_elsewhere_def\<close>)
  show ?thesis
  proof (rule refine_local[OF se])
    show "map_of (co_slots st) b' = Some t" if "map_of (co_slots (set_phase i ph (releaseUnstartedOwner b sid ow st))) b' = Some t" for b' t
      using that by (auto simp: releaseUnstartedOwner_def dest: cleanup_sub)
    show "idle (set_phase i ph (releaseUnstartedOwner b sid ow st)) sid"
      if "map_of (co_slots st) b' = Some sid" "map_of (co_slots (set_phase i ph (releaseUnstartedOwner b sid ow st))) b' = None" for b'
      using that cleanup_gone[of "promote sid ?d" b' sid b] by (simp add: releaseUnstartedOwner_def idle_def)
    show "lock_step (CleanEnd (lo_id ow)) (slot_lock (slot_at st sid)) (slot_lock (slot_at (set_phase i ph (releaseUnstartedOwner b sid ow st)) sid))"
      using promote_lock[OF d L(2)] L(3) held by (auto simp: releaseUnstartedOwner_def intro: lock_step.intros)
  qed
qed


text \<open>Updates that change neither the map nor any slot's owner or quarantine number.\<close>

lemma account_lock_same:
  assumes "co_slots st' = co_slots st" "\<And>t. slot_lock (slot_at st' t) = slot_lock (slot_at st t)"
  shows "account_lock st' a = account_lock st a"
  using assms by (simp add: account_lock_def split: option.split)

lemma slot_lock_cong:
  "sl_owner s' = sl_owner s \<Longrightarrow> map_option qu_id (sl_quarantine s') = map_option qu_id (sl_quarantine s) \<Longrightarrow> slot_lock s' = slot_lock s"
  by (cases "sl_quarantine s"; cases "sl_quarantine s'") (simp_all add: slot_lock_def)

lemma account_lock_phase [simp]: "account_lock (set_phase i ph st) a = account_lock st a"
  by (rule account_lock_same) simp_all

lemma account_lock_cleanup [simp]: "account_lock (cleanupSlot b sid st) a = account_lock st a"
  by (auto simp: account_lock_def cleanupSlot_def Let_def slot_lock_def AList.delete_conv' split: option.splits)

lemma account_lock_waiters [simp]:
  "account_lock (upd_slot sid (\<lambda>s. s\<lparr>sl_waiters := f s\<rparr>) st) a = account_lock st a"
  by (intro account_lock_same slot_lock_cong) simp_all

lemma account_lock_remove [simp]: "account_lock (removeWaiter b sid i st) a = account_lock st a"
  by (simp add: removeWaiter_def)

lemma account_lock_await [simp]: "account_lock (awaitGrant i st) a = account_lock st a"
  by (simp add: awaitGrant_def Let_def)

lemma account_lock_probing [simp]: "account_lock (maybeProbe b sid w st) a = account_lock st a"
proof (cases "sl_quarantine (slot_at st sid)")
  case (Some q)
  then show ?thesis by (intro account_lock_same slot_lock_cong) (simp_all add: maybeProbe_def)
qed (simp add: maybeProbe_def)

lemma account_lock_add [simp]: "account_lock (add_invocation b sid sig ph st) a = account_lock st a"
  by (rule account_lock_same) simp_all

lemma account_lock_abort [simp]: "account_lock (abort_signal sig st) a = account_lock st a"
proof -
  have "account_lock (on_abort sig i s) a = account_lock s a" for i s by (simp add: on_abort_def Let_def resolve_grant_def)
  then have "account_lock (fold (on_abort sig) xs s) a = account_lock s a" for xs s by (induction xs arbitrary: s) simp_all
  moreover have "account_lock (s\<lparr>co_aborted := as\<rparr>) a = account_lock s a" for s as
    by (simp add: account_lock_def slot_at_def split: option.split)
  ultimately show ?thesis by (simp add: abort_signal_def)
qed

lemma account_lock_enter:
  assumes "core st {} {}" "enter_slot b st = (sid, st')"
  shows "account_lock st' a = account_lock st a"
proof (cases "map_of (co_slots st) b")
  case (Some t)
  then show ?thesis using assms(2) by (simp add: enter_slot_def)
next
  case None
  then have st': "st' = st\<lparr>co_store := co_store st @ [new_slot], co_slots := AList.update b (length (co_store st)) (co_slots st)\<rparr>"
    using assms(2) by (auto simp: enter_slot_def)
  have "t < length (co_store st)" if "map_of (co_slots st) a = Some t" for t using that coreD(1)[OF assms(1)] by (simp add: slots_ok_def)
  then show ?thesis using None
    by (auto simp: st' account_lock_def AList.update_conv' slot_at_def nth_append new_slot_def slot_lock_def split: option.splits)
qed

lemma refine_quarantine:
  assumes c: "core st {} {}" and i: "i < length (co_invs st)" "holds (phase_of st i) = Some ow" and sid: "sid = iv_slot (co_invs st ! i)"
  shows "lock_step (UnconfirmedEnd (lo_id ow)) (account_lock st a) (account_lock (quarantined sid b ow report probe st) a)"
proof -
  note L = core_leave[OF c i sid]
  show ?thesis
  proof (rule refine_local[OF se_quarantined])
    have "slot_lock (slot_at st sid) = Held (lo_id ow)"
      using L(5) slot_invD(1)[OF coreD(2)[OF c L(3)]] by (simp add: slot_lock_def)
    moreover have "\<exists>q. slot_lock (slot_at (quarantined sid b ow report probe st) sid) = Quarantined q"
      using slot_at_quarantined(2)[OF L(5,3), of b report probe] by (auto simp: slot_lock_def)
    ultimately show "lock_step (UnconfirmedEnd (lo_id ow)) (slot_lock (slot_at st sid)) (slot_lock (slot_at (quarantined sid b ow report probe st) sid))"
      by (auto intro: lock_step.quarantine)
  qed simp_all
qed

lemma refine_settle:
  assumes c: "core st {} {}" and i: "i < length (co_invs st)"
  shows "lock_step (evidence_of (OpSettle i r) st) (account_lock st a) (account_lock (run_settled i r st) a)"
proof (cases "phase_of st i")
  case (PhRunning ow)
  then have h: "holds (phase_of st i) = Some ow" by simp
  obtain ok report probe err where rr: "run_reading r = (ok, report, probe, err)" by (cases "run_reading r") auto
  show ?thesis
  proof (cases ok)
    case True
    then have "run_settled i r st = set_phase i (PhDone err) (releaseUnstartedOwner (iv_account (co_invs st ! i)) (iv_slot (co_invs st ! i)) ow st)"
      using PhRunning rr by (simp add: run_settled_def releaseUnstartedOwner_def Let_def)
    then show ?thesis using refine_release[OF c i h refl, of a "PhDone err"] True PhRunning rr by (simp add: evidence_of_def)
  next
    case False
    then have "account_lock (run_settled i r st) a =
        account_lock (quarantined (iv_slot (co_invs st ! i)) (iv_account (co_invs st ! i)) ow report probe st) a"
      using PhRunning rr by (simp add: run_settled_def Let_def quarantined_def[symmetric])
    then show ?thesis using refine_quarantine[OF c i h refl, of a] False PhRunning rr by (simp add: evidence_of_def)
  qed
qed (simp_all add: run_settled_def lock_step.stay)

lemma refine_resume:
  assumes c: "core st {} {}" and i: "i < length (co_invs st)"
  shows "lock_step (evidence_of (OpResume i) st) (account_lock st a) (account_lock (resume_granted i st) a)"
proof (cases "phase_of st i")
  case (PhGranted g)
  show ?thesis
  proof (cases "g \<noteq> None \<and> aborted st (iv_signal (co_invs st ! i))")
    case True
    then obtain ow where g: "g = Some ow" by auto
    then have h: "holds (phase_of st i) = Some ow" using PhGranted by simp
    show ?thesis using refine_release[OF c i h refl, of a "PhDone None" "iv_account (co_invs st ! i)"] True g PhGranted
      by (simp add: resume_granted_def Let_def evidence_of_def)
  next
    case False
    then have "account_lock (resume_granted i st) a = account_lock st a"
      using PhGranted by (cases g) (simp_all add: resume_granted_def Let_def)
    then show ?thesis by (simp add: lock_step.stay)
  qed
qed (simp_all add: resume_granted_def lock_step.stay)

lemma refine_probe:
  assumes c: "core st {} {}" and p: "probes_ok st"
  shows "lock_step (evidence_of (OpProbe k ans) st) (account_lock st a) (account_lock (probe_settled k ans st) a)"
proof (cases "k < length (co_probes st)")
  case True
  let ?p = "co_probes st ! k" let ?sid = "pp_slot ?p"
  let ?st = "st\<lparr>co_probes := take k (co_probes st) @ drop (Suc k) (co_probes st)\<rparr>"
  have c1: "core ?st {} {}" by (rule core_probes_update[OF c])
  have sid: "?sid < length (co_store ?st)" using p True by (simp add: probes_ok_def)
  have same: "account_lock ?st a = account_lock st a" by (rule account_lock_same) simp_all
  show ?thesis
  proof (cases "sl_quarantine (slot_at st ?sid)")
    case None
    then show ?thesis using True same by (simp add: probe_settled_def Let_def lock_step.stay)
  next
    case (Some q)
    then have free: "sl_owner (slot_at ?st ?sid) = None" using slot_invD(1)[OF coreD(2)[OF c1 sid]] by fastforce
    show ?thesis
    proof (cases "qu_id q = pp_quarantine ?p")
      case False
      then show ?thesis using True Some same by (simp add: probe_settled_def Let_def lock_step.stay)
    next
      case own: True
      show ?thesis
      proof (cases "closes_socket (probe_answer (probePhysicalClose q) ans)")
        case False
        have "account_lock (upd_slot ?sid (\<lambda>s. s\<lparr>sl_quarantine := Some (q\<lparr>probing := False, probeCutoffArrival := nextArrival s\<rparr>)\<rparr>) ?st) a = account_lock st a"
          using Some by (intro account_lock_same slot_lock_cong) simp_all
        then show ?thesis using True Some own False by (simp add: probe_settled_def Let_def lock_step.stay)
      next
        case closed: True
        let ?clear = "upd_slot ?sid (\<lambda>s. s\<lparr>sl_quarantine := None\<rparr>) ?st"
        have c2: "core ?clear {} {?sid}" by (rule core_content[OF c1 se_upd]) (use free sid in simp_all)
        have inv: "slot_inv ?clear {} ?sid" and idle: "idle ?clear ?sid" using coreD(2)[OF c2, of ?sid] sid free by (simp_all add: idle_def)
        have "lock_step (ConfirmedProbe (qu_id q)) (account_lock ?st a) (account_lock (promote ?sid ?clear) a)"
        proof (rule refine_local[OF se_trans[OF se_upd se_promote[OF inv]]])
          show "lock_step (ConfirmedProbe (qu_id q)) (slot_lock (slot_at ?st ?sid)) (slot_lock (slot_at (promote ?sid ?clear) ?sid))"
            using promote_lock[OF inv idle] sid Some by (auto simp: slot_lock_def[of "slot_at st ?sid"] intro: lock_step.intros)
        qed simp_all
        then show ?thesis using True Some own closed same by (simp add: probe_settled_def Let_def evidence_of_def)
      qed
    qed
  qed
qed (simp add: probe_settled_def lock_step.stay)


lemma refine_run:
  assumes c: "core st {} {}" and r: "runAccount b sig st = Inr st'"
  shows "lock_step Arrival (account_lock st a) (account_lock st' a)"
proof -
  obtain ins where ins: "co_install st = Some ins" using r by (auto simp: runAccount_def split: option.splits)
  obtain sid st1 where e: "enter_slot b st = (sid, st1)" by force
  note E = core_enter[OF c e]
  define arrival where "arrival = nextArrival (slot_at st1 sid) + 1"
  define st2 where "st2 = upd_slot sid (\<lambda>s. s\<lparr>nextArrival := arrival, highestGeneration := max (highestGeneration s) (in_generation ins)\<rparr>) st1"
  have c2: "core st2 {} {}" unfolding st2_def
    by (rule core_content[OF E(1) se_upd])
      (use E(2) coreD(3)[OF E(1,2)] slot_invD(1)[OF coreD(2)[OF E(1,2)]] in \<open>auto simp: wakeup_def idle_def less_max_iff_disj\<close>)
  have same: "account_lock st2 a = account_lock st a"
  proof -
    have "account_lock st2 a = account_lock st1 a" unfolding st2_def by (intro account_lock_same slot_lock_cong) simp_all
    then show ?thesis using account_lock_enter[OF c e] by simp
  qed
  have sid: "sid < length (co_store st2)" using E(2) by (simp add: st2_def)
  note run = r[unfolded runAccount_def ins e option.case prod.case Let_def, folded arrival_def, folded st2_def]
  show ?thesis
  proof (cases "idle st2 sid")
    case True
    define ow where "ow = \<lparr>lo_id = co_fresh st2, lo_install = ins, lo_arrival = arrival, lo_signal = sig\<rparr>"
    let ?f = "st2\<lparr>co_fresh := co_fresh st2 + 1\<rparr>"
    let ?st3 = "upd_slot sid (\<lambda>s. s\<lparr>sl_owner := Some ow\<rparr>) ?f"
    have st': "account_lock st' a = (if aborted st2 sig then account_lock (promote sid (drop_owner sid ow ?st3)) a else account_lock ?st3 a)"
      using run True by (auto simp: ow_def idle_def releaseUnstartedOwner_def split: if_splits)
    have se3: "same_elsewhere sid st2 ?st3" by (rule se_trans[OF se_fields(1) se_upd])
    show ?thesis
    proof (cases "aborted st2 sig")
      case True
      have d: "drop_owner sid ow ?st3 = ?f\<lparr>co_released := lo_id ow # co_released ?f\<rparr>"
        using sid \<open>idle st2 sid\<close> by (simp add: drop_owner_def owns_def idle_def upd_slot_def slot_at_def list_update_same_conv)
      have inv: "slot_inv (drop_owner sid ow ?st3) {} sid" unfolding d
        using coreD(2)[OF core_fields(2)[OF core_fields(1)[OF c2, of "co_fresh st2 + 1"]], of sid] sid by simp
      have idle: "idle (drop_owner sid ow ?st3) sid" unfolding d using \<open>idle st2 sid\<close> by (simp add: idle_def)
      have "lock_step Arrival (account_lock st2 a) (account_lock (promote sid (drop_owner sid ow ?st3)) a)"
      proof (rule refine_local[OF se_trans[OF se_trans[OF se3 se_drop] se_promote[OF inv]]])
        show "lock_step Arrival (slot_lock (slot_at st2 sid)) (slot_lock (slot_at (promote sid (drop_owner sid ow ?st3)) sid))"
          using promote_lock[OF inv idle] sid \<open>idle st2 sid\<close> by (auto simp: slot_lock_idle intro: lock_step.intros)
      qed simp_all
      then show ?thesis using True st' same by simp
    next
      case False
      have "lock_step Arrival (account_lock st2 a) (account_lock ?st3 a)"
      proof (rule refine_local[OF se3])
        show "lock_step Arrival (slot_lock (slot_at st2 sid)) (slot_lock (slot_at ?st3 sid))"
          using \<open>idle st2 sid\<close> sid by (auto simp: idle_def slot_lock_def intro: lock_step.acquire)
      qed simp_all
      then show ?thesis using False st' same by simp
    qed
  next
    case False
    then have "account_lock st' a = account_lock st2 a" using run by (auto simp: idle_def split: if_splits)
    then show ?thesis using same by (simp add: lock_step.stay)
  qed
qed

lemma account_lock_install [simp]: "account_lock (install_fingerprint fp rt lg st) a = account_lock st a"
  by (simp add: install_fingerprint_def account_lock_def slot_at_def split: option.split)

lemma refine_step:
  assumes "lease_inv st"
  shows "lock_step (evidence_of op st) (account_lock st a) (account_lock (lease_run op st) a)"
proof (cases op)
  case (OpRun b sig)
  then show ?thesis using assms refine_run by (auto simp: lease_inv_def evidence_of_def intro: lock_step.stay split: sum.split)
next
  case (OpSettle i r)
  then show ?thesis using assms refine_settle by (simp add: lease_inv_def lock_step.stay)
next
  case (OpResume i)
  then show ?thesis using assms refine_resume by (simp add: lease_inv_def lock_step.stay)
next
  case (OpProbe k ans)
  then show ?thesis using assms refine_probe by (simp add: lease_inv_def)
qed (simp_all add: lock_step.stay)


section \<open>Properties\<close>

text \<open>Executions on a fresh coordinator, for the witnesses.\<close>

definition lease_exec :: "lease_op list \<Rightarrow> coordinator" where
  "lease_exec ops = fold lease_run ops new_coordinator"

lemma reachable_exec: "reachable_co (lease_exec ops)"
  unfolding lease_exec_def by (induction ops rule: rev_induct) (simp_all add: reachable_co.intros)

definition stuck_report :: "cause + run_result" where
  "stuck_report = Inr \<lparr>rr_closeReport = Some unconfirmed_default, rr_probePhysicalClose = Some 7\<rparr>"

definition clean_report :: "cause + run_result" where
  "clean_report = Inr \<lparr>rr_closeReport = None, rr_probePhysicalClose = None\<rparr>"

text \<open>Two invocations of one account; and the first of them ended without a confirmed close.\<close>

definition two_runs :: "lease_op list" where
  "two_runs = [OpInstall ''f'' 0 0, OpRun ''a'' 1, OpRun ''a'' 2]"

definition quarantined_run :: "lease_op list" where
  "quarantined_run = two_runs @ [OpSettle 0 stuck_report]"

lemma holder_slot:
  assumes "lease_inv st" "i < length (co_invs st)" "holds (phase_of st i) = Some ow"
  shows "map_of (co_slots st) (iv_account (co_invs st ! i)) = Some (iv_slot (co_invs st ! i))"
    "iv_slot (co_invs st ! i) < length (co_store st)" "sl_owner (slot_at st (iv_slot (co_invs st ! i))) = Some ow"
    "i \<in> members st {} (iv_slot (co_invs st ! i))"
proof -
  have c: "core st {} {}" using assms(1) by (simp add: lease_inv_def)
  show "map_of (co_slots st) (iv_account (co_invs st ! i)) = Some (iv_slot (co_invs st ! i))"
    "iv_slot (co_invs st ! i) < length (co_store st)" "sl_owner (slot_at st (iv_slot (co_invs st ! i))) = Some ow"
    "i \<in> members st {} (iv_slot (co_invs st ! i))"
    using core_leave[OF c assms(2,3) refl] assms(2) by (simp_all add: members_def)
qed

lemma one_holder:
  assumes "reachable_co st" "i < length (co_invs st)" "j < length (co_invs st)"
    and "iv_account (co_invs st ! i) = iv_account (co_invs st ! j)"
    and "holds (phase_of st i) \<noteq> None" "holds (phase_of st j) \<noteq> None"
  shows "i = j"
proof -
  have inv: "lease_inv st" by (rule reachable_lease_inv[OF assms(1)])
  obtain x y where xy: "holds (phase_of st i) = Some x" "holds (phase_of st j) = Some y" using assms(5,6) by auto
  note I = holder_slot[OF inv assms(2) xy(1)] and J = holder_slot[OF inv assms(3) xy(2)]
  have "iv_slot (co_invs st ! i) = iv_slot (co_invs st ! j)" using I(1) J(1) assms(4) by simp
  then show ?thesis using slot_invD(6)[of st "{}" "iv_slot (co_invs st ! i)" i j] coreD(2)[of st "{}" "{}"] inv I(2,4) J(4) xy
    by (simp add: lease_inv_def)
qed

text \<open>C11: One owner per account. In every execution at most one invocation of an account has been
  granted its lease or is running, whatever slots were forgotten and recreated in between.\<close>

theorem lease_mutual_exclusion:
  assumes "reachable_co st"
  shows "card {i. i < length (co_invs st) \<and> iv_account (co_invs st ! i) = a \<and> holds (phase_of st i) \<noteq> None} \<le> 1"
proof -
  have "\<forall>i \<in> {i. i < length (co_invs st) \<and> iv_account (co_invs st ! i) = a \<and> holds (phase_of st i) \<noteq> None}.
      \<forall>j \<in> {i. i < length (co_invs st) \<and> iv_account (co_invs st ! i) = a \<and> holds (phase_of st i) \<noteq> None}. i = j"
    using one_holder[OF assms] by blast
  then show ?thesis by (simp add: card_le_Suc0_iff_eq)
qed

theorem lease_mutual_exclusion_witness:
  "{i. i < length (co_invs (lease_exec two_runs)) \<and> iv_account (co_invs (lease_exec two_runs) ! i) = ''a'' \<and>
      holds (phase_of (lease_exec two_runs) i) \<noteq> None} = {0}" (is "?S = _")
proof -
  have "0 < length (co_invs (lease_exec two_runs)) \<and> iv_account (co_invs (lease_exec two_runs) ! 0) = ''a'' \<and>
      holds (phase_of (lease_exec two_runs) 0) \<noteq> None" by code_simp
  then have z: "0 \<in> ?S" by blast
  have "card ?S \<le> 1" by (rule lease_mutual_exclusion[OF reachable_exec])
  then have "\<forall>i \<in> ?S. \<forall>j \<in> ?S. i = j" by (simp add: card_le_Suc0_iff_eq)
  then show ?thesis using z by blast
qed

text \<open>A quarantined account runs nothing. While an account is quarantined it has no owner, and no
  invocation of it has been granted a lease or is running.\<close>

theorem quarantine_blocks:
  assumes "reachable_co st" "inspectAccountState a st = Some s" "as_quarantined s"
    and "i < length (co_invs st)" "iv_account (co_invs st ! i) = a"
  shows "\<not> as_owner s \<and> holds (phase_of st i) = None"
proof -
  have inv: "lease_inv st" by (rule reachable_lease_inv[OF assms(1)])
  obtain sid where sid: "map_of (co_slots st) a = Some sid" "sl_quarantine (slot_at st sid) \<noteq> None" "as_owner s = (sl_owner (slot_at st sid) \<noteq> None)"
    using assms(2,3) by (auto simp: inspectAccountState_def Let_def split: option.splits)
  have "sid < length (co_store st)" using sid(1) coreD(1)[of st "{}" "{}"] inv by (simp add: lease_inv_def slots_ok_def)
  then have none: "sl_owner (slot_at st sid) = None"
    using slot_invD(1)[of st "{}" sid] coreD(2)[of st "{}" "{}" sid] inv sid(2) by (fastforce simp: lease_inv_def)
  moreover have "holds (phase_of st i) = None"
  proof (cases "holds (phase_of st i)")
    case (Some ow)
    then show ?thesis using holder_slot[OF inv assms(4) Some] assms(5) sid(1) none by simp
  qed
  ultimately show ?thesis using sid(3) by simp
qed

theorem quarantine_blocks_witness:
  "(\<exists>s. inspectAccountState ''a'' (lease_exec quarantined_run) = Some s \<and> as_quarantined s \<and> \<not> as_owner s) \<and>
   holds (phase_of (lease_exec quarantined_run) 0) = None"
proof -
  obtain s where s: "inspectAccountState ''a'' (lease_exec quarantined_run) = Some s" "as_quarantined s"
  proof
    show "inspectAccountState ''a'' (lease_exec quarantined_run) =
        Some \<lparr>as_owner = False, as_waiters = 2, as_quarantined = True, as_probing = False\<rparr>" by code_simp
  qed simp
  have "0 < length (co_invs (lease_exec quarantined_run))" "iv_account (co_invs (lease_exec quarantined_run) ! 0) = ''a''" by code_simp+
  from quarantine_blocks[OF reachable_exec s this] s show ?thesis by auto
qed

text \<open>C10: The coordinator implements an account lock. Every operation of a reachable coordinator moves
  the lock of every account by a step of the abstract machine: a free lock is taken only by an
  arriving invocation, a held lock is freed or handed on only by a confirmed end of its owner (or
  an abort before it started) and quarantined only by an unconfirmed end of its owner, and a
  quarantine is lifted only by a probe of that quarantine which confirms that the socket is gone.\<close>

theorem lease_refines_lock:
  assumes "reachable_co st"
  shows "lock_step (evidence_of op st) (account_lock st a) (account_lock (lease_run op st) a)"
  by (rule refine_step[OF reachable_lease_inv[OF assms]])

theorem lease_refines_lock_witness:
  "lock_step (UnconfirmedEnd 0) (Held 0) (Quarantined 1)"
proof -
  have "evidence_of (OpSettle 0 stuck_report) (lease_exec two_runs) = UnconfirmedEnd 0" by code_simp
  moreover have "account_lock (lease_exec two_runs) ''a'' = Held 0" by code_simp
  moreover have "account_lock (lease_run (OpSettle 0 stuck_report) (lease_exec two_runs)) ''a'' = Quarantined 1" by code_simp
  ultimately show ?thesis using lease_refines_lock[OF reachable_exec, of "OpSettle 0 stuck_report" two_runs "''a''"] by simp
qed

lemma lock_step_quarantined_stays:
  "lock_step ev (Quarantined q) l \<Longrightarrow> ev \<noteq> ConfirmedProbe q \<Longrightarrow> l = Quarantined q"
  by (erule lock_step_quarantinedE) auto

lemma quarantine_kept:
  assumes "lease_inv st" "account_lock st a = Quarantined q"
    and "\<forall>n < length ops. evidence_of (ops ! n) (fold lease_run (take n ops) st) \<noteq> ConfirmedProbe q"
  shows "account_lock (fold lease_run ops st) a = Quarantined q"
  using assms
proof (induction ops arbitrary: st)
  case (Cons op ops)
  have "account_lock (lease_run op st) a = Quarantined q"
    using refine_step[OF Cons.prems(1), of op a] Cons.prems(2) Cons.prems(3)[rule_format, of 0] lock_step_quarantined_stays by fastforce
  moreover have "\<forall>n < length ops. evidence_of (ops ! n) (fold lease_run (take n ops) (lease_run op st)) \<noteq> ConfirmedProbe q"
    using Cons.prems(3) by fastforce
  ultimately show ?case using Cons.IH lease_inv_step[OF Cons.prems(1)] by simp
qed simp

text \<open>A quarantine lasts until it is confirmed. Whatever invocations arrive, end, abort or probe,
  an account stays in the same quarantine as long as no probe of it confirms the close.\<close>

theorem quarantine_until_confirmed:
  assumes "reachable_co st" "account_lock st a = Quarantined q"
    and "\<forall>n < length ops. evidence_of (ops ! n) (fold lease_run (take n ops) st) \<noteq> ConfirmedProbe q"
  shows "account_lock (fold lease_run ops st) a = Quarantined q"
  by (rule quarantine_kept[OF reachable_lease_inv[OF assms(1)] assms(2,3)])

theorem quarantine_until_confirmed_witness:
  "account_lock (fold lease_run [OpRun ''a'' 3, OpProbe 0 (Inr unconfirmed_default), OpAbort 2] (lease_exec quarantined_run)) ''a'' = Quarantined 1"
proof (rule quarantine_until_confirmed[OF reachable_exec])
  show "account_lock (lease_exec quarantined_run) ''a'' = Quarantined 1" by code_simp
  have "list_all (\<lambda>n. evidence_of ([OpRun ''a'' 3, OpProbe 0 (Inr unconfirmed_default), OpAbort 2] ! n)
      (fold lease_run (take n [OpRun ''a'' 3, OpProbe 0 (Inr unconfirmed_default), OpAbort 2]) (lease_exec quarantined_run)) \<noteq> ConfirmedProbe 1) [0, 1, 2]"
    by code_simp
  then show "\<forall>n < length [OpRun ''a'' 3, OpProbe 0 (Inr unconfirmed_default), OpAbort 2].
      evidence_of ([OpRun ''a'' 3, OpProbe 0 (Inr unconfirmed_default), OpAbort 2] ! n)
      (fold lease_run (take n [OpRun ''a'' 3, OpProbe 0 (Inr unconfirmed_default), OpAbort 2]) (lease_exec quarantined_run)) \<noteq> ConfirmedProbe 1"
    by (auto simp: less_Suc_eq numeral_2_eq_2 simp del: take_Suc_Cons fold_simps)
qed


lemma promote_hands_over:
  assumes inv: "slot_inv st E sid" and idle: "idle st sid" and sid: "sid < length (co_store st)"
    and w0: "w0 \<in> set (sl_waiters (slot_at st sid))" "highestGeneration (slot_at st sid) \<le> in_generation (wt_install w0)"
  shows "\<exists>w \<in> set (sl_waiters (slot_at st sid)). \<exists>ow. phase_of (promote sid st) (wt_inv w) = PhGranted (Some ow) \<and>
    lo_install ow = wt_install w \<and> (\<forall>v \<in> set (sl_waiters (slot_at st sid)). waiter_rank w \<le> waiter_rank v)"
  using inv
proof (cases rule: promote_cases)
  case none
  then show ?thesis using w0 by (meson linorder_not_le)
next
  case (grant w)
  have i: "wt_inv w < length (co_invs st)" using slot_invD(4)[OF inv grant(1)] by (simp add: waiter_ok_def members_def)
  have "waiter_rank w \<le> waiter_rank v" if "v \<in> set (sl_waiters (slot_at st sid))" for v
    using grant(3,4) that by (cases "highestGeneration (slot_at st sid) \<le> in_generation (wt_install v)") (auto simp: waiter_rank_def)
  then show ?thesis using grant(1,2) i by (intro bexI[of _ w]) (auto simp: granted_to_def Let_def)
qed

text \<open>A clean end wakes the right successor. When the owner of an account ends with its socket
  gone and some waiter is not superseded by a newer configuration, the waiter with the newest
  configuration (the earliest to arrive among those) is granted the lease under its own
  configuration, and its invocation runs as soon as it resumes.\<close>

theorem lease_passes_on:
  assumes "reachable_co st" "i < length (co_invs st)" "phase_of st i = PhRunning ow" "fst (run_reading r)"
    and "w0 \<in> set (sl_waiters (slot_at st (iv_slot (co_invs st ! i))))"
    and "highestGeneration (slot_at st (iv_slot (co_invs st ! i))) \<le> in_generation (wt_install w0)"
  shows "\<exists>w \<in> set (sl_waiters (slot_at st (iv_slot (co_invs st ! i)))). \<exists>ow'. lo_install ow' = wt_install w \<and>
    (\<forall>v \<in> set (sl_waiters (slot_at st (iv_slot (co_invs st ! i)))). waiter_rank w \<le> waiter_rank v) \<and>
    phase_of (lease_run (OpSettle i r) st) (wt_inv w) = PhGranted (Some ow') \<and>
    phase_of (lease_run (OpResume (wt_inv w)) (lease_run (OpSettle i r) st)) (wt_inv w) = PhRunning ow'"
proof -
  let ?sid = "iv_slot (co_invs st ! i)" let ?d = "drop_owner ?sid ow st" let ?p = "promote ?sid ?d"
  have c: "core st {} {}" using reachable_lease_inv[OF assms(1)] by (simp add: lease_inv_def)
  have h: "holds (phase_of st i) = Some ow" using assms(3) by simp
  note L = core_leave[OF c assms(2) h refl]
  have sl: "sl_waiters (slot_at ?d ?sid) = sl_waiters (slot_at st ?sid)" "highestGeneration (slot_at ?d ?sid) = highestGeneration (slot_at st ?sid)"
    using L(3,5) by (simp_all add: slot_at_drop)
  have inv: "slot_inv ?d {i} ?sid" using coreD(2)[OF L(1), of ?sid] L(3) by simp
  obtain w ow' where w: "w \<in> set (sl_waiters (slot_at st ?sid))" "phase_of ?p (wt_inv w) = PhGranted (Some ow')" "lo_install ow' = wt_install w"
    "\<forall>v \<in> set (sl_waiters (slot_at st ?sid)). waiter_rank w \<le> waiter_rank v"
    using promote_hands_over[OF inv L(2), of w0] L(3) assms(5,6) unfolding sl by auto
  have ok: "waiter_ok st {} ?sid w" by (rule slot_invD(4)[OF coreD(2)[OF c L(3)] w(1)])
  then have wi: "wt_inv w < length (co_invs st)" "wt_inv w \<noteq> i" using assms(3) by (auto simp: waiter_ok_def members_def)
  obtain err where run: "lease_run (OpSettle i r) st = set_phase i (PhDone err) (cleanupSlot (iv_account (co_invs st ! i)) ?sid ?p)"
    using assms(2-4) by (cases "run_reading r") (auto simp: run_settled_def Let_def)
  have "iv_signal (co_invs ?p ! wt_inv w) = iv_signal (co_invs st ! wt_inv w)"
    using se_promote[OF inv] wi(1) by (simp add: same_elsewhere_def)
  then have "\<not> aborted ?p (iv_signal (co_invs ?p ! wt_inv w))" using ok by (simp add: waiter_ok_def)
  then have "phase_of (lease_run (OpResume (wt_inv w)) (lease_run (OpSettle i r) st)) (wt_inv w) = PhRunning ow'"
    using w(2) wi unfolding run by (simp add: resume_granted_def Let_def)
  moreover have "phase_of (lease_run (OpSettle i r) st) (wt_inv w) = PhGranted (Some ow')" using w(2) wi unfolding run by simp
  ultimately show ?thesis using w by blast
qed

text \<open>Three invocations wait while the first runs; a new configuration was installed in between.\<close>

definition queue_ops :: "lease_op list" where
  "queue_ops = [OpInstall ''f'' 0 0, OpRun ''a'' 1, OpRun ''a'' 2, OpInstall ''g'' 0 0, OpRun ''a'' 3, OpRun ''a'' 4]"

theorem lease_passes_on_witness:
  "phase_of (lease_run (OpResume 2) (lease_run (OpSettle 0 clean_report) (lease_exec queue_ops))) 2 =
     PhRunning \<lparr>lo_id = 1, lo_install = \<lparr>in_generation = 2, in_fingerprint = ''g'', in_runtime = 0, in_logger = 0\<rparr>, lo_arrival = 3, lo_signal = 3\<rparr>"
proof -
  let ?st = "lease_exec queue_ops" let ?g = "\<lparr>in_generation = 2, in_fingerprint = ''g'', in_runtime = 0, in_logger = 0\<rparr>"
  let ?w = "\<lparr>wt_inv = 2, wt_install = ?g, wt_arrival = 3, wt_signal = 3\<rparr>"
  have ws: "sl_waiters (slot_at ?st (iv_slot (co_invs ?st ! 0))) =
      [\<lparr>wt_inv = 1, wt_install = \<lparr>in_generation = 1, in_fingerprint = ''f'', in_runtime = 0, in_logger = 0\<rparr>, wt_arrival = 2, wt_signal = 2\<rparr>,
       ?w, \<lparr>wt_inv = 3, wt_install = ?g, wt_arrival = 4, wt_signal = 4\<rparr>]" by code_simp
  have h: "highestGeneration (slot_at ?st (iv_slot (co_invs ?st ! 0))) = 2" by code_simp
  have p: "phase_of ?st 0 = PhRunning \<lparr>lo_id = 0, lo_install = \<lparr>in_generation = 1, in_fingerprint = ''f'', in_runtime = 0, in_logger = 0\<rparr>,
      lo_arrival = 1, lo_signal = 1\<rparr>" by code_simp
  have "\<exists>w \<in> set (sl_waiters (slot_at ?st (iv_slot (co_invs ?st ! 0)))). \<exists>ow'. lo_install ow' = wt_install w \<and>
    (\<forall>v \<in> set (sl_waiters (slot_at ?st (iv_slot (co_invs ?st ! 0)))). waiter_rank w \<le> waiter_rank v) \<and>
    phase_of (lease_run (OpSettle 0 clean_report) ?st) (wt_inv w) = PhGranted (Some ow') \<and>
    phase_of (lease_run (OpResume (wt_inv w)) (lease_run (OpSettle 0 clean_report) ?st)) (wt_inv w) = PhRunning ow'"
    by (rule lease_passes_on[OF reachable_exec _ p, of clean_report ?w]) (code_simp, code_simp, simp add: ws, simp add: h)
  moreover have "phase_of (lease_run (OpSettle 0 clean_report) ?st) 2 =
      PhGranted (Some \<lparr>lo_id = 1, lo_install = ?g, lo_arrival = 3, lo_signal = 3\<rparr>)" by code_simp
  ultimately show ?thesis unfolding ws by (auto simp: waiter_rank_def simp del: lease_run.simps)
qed

end
