(* ===== verification/Spec2Isabelle.thy ===== *)
theory Spec2Isabelle
  imports Device_Flow Handshake Nats_Channel Credential_Ledger Retention Result_Chunks Inbound_Queue Outcome_Store Overflow_Resolver Ingress_Flush Debouncer Chacha Startup Lease_Lock Canonical
begin

text \<open>
  Verification of the webchannel plugin for OpenClaw and of the browser and SaaS code that
  speaks to it.

  \<^bold>\<open>The program.\<close>  A browser (\<^verbatim>\<open>src/packages/client\<close>) and an agent gateway
  (\<^verbatim>\<open>src/packages/plugin\<close>) exchange end-to-end encrypted messages over NATS subjects; a SaaS
  (\<^verbatim>\<open>src/packages/saas\<close>) enrols agents and issues credentials.  On the agent side a decrypted user
  message runs through a pipeline: the debouncer collects bursts per session
  (\<^verbatim>\<open>bounded-inbound-debouncer.ts\<close>), the flush handler (\<^verbatim>\<open>ingress-dedupe.ts\<close>) decides each item
  once against the durable outcome store (\<^verbatim>\<open>ingress-outcome.ts\<close>) and offers the fresh ones to the
  serial dispatcher (\<^verbatim>\<open>inbound-queue.ts\<close>); all of them charge what they retain to one budget
  (\<^verbatim>\<open>inbound-retention.ts\<close>).  Results go back in bounded frames (\<^verbatim>\<open>ingress-result-chunks.ts\<close>), and
  ids whose frame could not be retained are resolved apart (\<^verbatim>\<open>inbound-overflow-resolver.ts\<close>).
  Around the pipeline a coordinator starts, retries and retires the NATS runtime of each account
  under an exclusive lease (\<^verbatim>\<open>nats-account-coordinator.ts\<close>).

  Before a browser or an agent may speak it proves who it is.  A browser that registers signs a
  single-use nonce (\<^verbatim>\<open>pop-challenge.ts\<close>, \<^verbatim>\<open>pop-signed-message.ts\<close>) and receives the conversation key
  wrapped for that attempt (\<^verbatim>\<open>wrap-aad.ts\<close>), both through one request handler (\<^verbatim>\<open>nats-register.ts\<close>); the
  browser's side is \<^verbatim>\<open>pop-register.ts\<close>, and from then on both sides exchange sealed envelopes (\<^verbatim>\<open>e2e-envelope.ts\<close>, \<^verbatim>\<open>e2e-crypto-browser.ts\<close>).  An agent enrols through the device flow of the SaaS
  (\<^verbatim>\<open>device-flow-enrollment.ts\<close>): it obtains a device code and a user code, an operator approves or denies the user
  code, and the agent polls for the outcome; the repository (\<^verbatim>\<open>enrollment-repository.ts\<close>) commits the
  approval together with the activation of the agent's key (\<^verbatim>\<open>agent-key-registry.ts\<close>).  Every browser
  credential the SaaS issues is recorded in a ledger (\<^verbatim>\<open>browser-credential-ledger.ts\<close>), which answers
  what a revocation has to cut.

  \<^bold>\<open>Conventions.\<close>  Strings are lists of code units below 256.  JavaScript integers are \<open>int\<close>; where
  a value may be fractional, NaN or infinite it is a \<open>js_number\<close>.  A throw is the left side of a sum
  (or \<open>None\<close> where the error carries nothing), so every error path is a value.  A \<open>Map\<close> is an
  association list in insertion order.  Objects compared by identity are indices into a store.
  Asynchronous code is cut at its awaits: each piece between two awaits is one definition, the
  awaited answer is its argument, and the theorems quantify over every order of the pieces the
  runtime allows.  Clocks, random draws, third-party stores and host callbacks are parameters; what
  is relied on of them is a named hypothesis (the laws of the persistent dedupe store, for
  instance), and a witness shows that it can hold.

  \<^bold>\<open>Theories.\<close>
  \<^item> \<open>Prelude\<close> and \<open>Json\<close>: numbers, strings, exceptions, insertion-ordered maps, the evict-oldest
    loop shared by the bounded caches, \<^verbatim>\<open>JSON.stringify\<close> sizes.  The locales \<open>total_step\<close> and
    \<open>settling_step\<close> state what a loop body must promise so that a loop over it neither throws nor
    forgets an element; \<open>Retention\<close> interprets them for the release of reservations and holds.
  \<^item> \<open>Retention\<close>: \<^verbatim>\<open>InboundRetentionBudget\<close> with its reservations (\<open>tryReserve\<close>, transfer, hold,
    release) and the pressure log.  Every counter is the sum over the reservations not released, the hard
    limits hold after any sequence of operations, admission is exact and the internal errors are unreachable.
  \<^item> \<open>Result_Chunks\<close>: the writer of \<^verbatim>\<open>ack\<close> and \<^verbatim>\<open>rejected\<close> frames; frames are bounded, lose no id
    and repeat none within a frame.
  \<^item> \<open>Inbound_Queue\<close>: coalescing and the serial dispatcher with its leases; one handler per session
    at a time, no stranded session, progress on settlement, complete disposal.  The closures of turns that
    were queued or running when the dispatcher was disposed live on in the field \<open>d_detached\<close>, and the reachable states include
    those that a throwing \<open>offer\<close> or \<open>dispatch\<close> leaves behind (\<open>disp_after\<close>).
  \<^item> \<open>Outcome_Store\<close>: hot cache, receipts, commit, rollback and quarantine over the third-party store;
    bounds, ownership of keys, durability of overload decisions, and a quarantine that lasts until an operation on the key
    deletes the marker.  The hypothesis \<open>dedupe_laws\<close> says of the third-party store that an error-free answer tells the truth and
    that no marker appears but by a record of its own; any other marker may expire or be evicted at any call.
  \<^item> \<open>Overflow_Resolver\<close>: one task per session and per key, cut at its awaits; bounds, settlement of receipts and publication
    authority.  A run logs the calls of every task (\<open>resolver_run\<close>), so that an answer is read with the call it answers.
  \<^item> \<open>Ingress_Flush\<close>: dedupe keys, tombstones of stopped messages and the flush handler as a trace of
    effects; every offer and every write is settled, results are published with authority only.  The fallback for stopped
    messages is optional as in the code, and stopped messages are acknowledged with or without it.
  \<^item> \<open>Debouncer\<close>: buckets, workers, cancellation and generation fence.  The locale \<open>act_frame\<close> carries
    a preorder on states through the sequencing combinators and is interpreted for three of them.
  \<^item> \<open>Chacha\<close>: the browser's ChaCha20-Poly1305 on words and octets, its round trip, rejection of
    foreign tags and the equality with the textbook polynomial and key-stream formulations.
  \<^item> \<open>Startup\<close>: failure classification, backoff, the retry loop, readiness and diagnostics of an account.
  \<^item> \<open>Lease_Coordinator\<close>, \<open>Lease_Invariant\<close>, \<open>Lease_Lock\<close>: the lease state machine, its invariant and its
    refinement of an abstract lock with quarantine.
  \<^item> \<open>Canonical\<close>: \<^verbatim>\<open>canonicalJson\<close> and the configuration generation; equal renderings are equal trees.
  \<^item> \<open>Pop_Challenge\<close>: \<^verbatim>\<open>PopChallengeStore\<close> with \<open>issue\<close>, \<open>consume\<close> and the sweep, \<open>verify\<close>, the signed message and
    the associated data of a wrapped key.  A nonce passes at most once, what passes was signed for exactly that account, peer and
    device key, a flood of other devices does not evict it, and both encodings are injective.
  \<^item> \<open>Register_Hop\<close>: \<^verbatim>\<open>handleRegisterRequest\<close> (\<^verbatim>\<open>nats-register.ts\<close>) over that store, with \<^verbatim>\<open>logSafe\<close>.  A run is the list of
    calls on the dependencies, the store and whether the promise resolves.  What is done for a peer was authorised, a captured request
    is worth nothing again, replies are single and opaque, an honest browser gets in, log lines cannot be forged.  The locale
    \<open>single_use\<close> of the prelude states the contract of a single-use token; the nonce store and the handler interpret it.
  \<^item> \<open>Browser_Crypto\<close>: the browser's base64url, the unwrapping of the conversation key and the message envelopes (\<^verbatim>\<open>e2e-crypto-browser.ts\<close>) over \<open>Chacha\<close>.
    base64url is exact, and an opened frame carries the tag of exactly its routing and its ciphertext.  X25519, HKDF, \<^verbatim>\<open>TextDecoder\<close> and \<^verbatim>\<open>JSON.parse\<close> are the
    fields of a platform record.
  \<^item> \<open>Agent_Crypto\<close>: the agent's envelopes with their validation (\<^verbatim>\<open>e2e-envelope.ts\<close>, \<^verbatim>\<open>e2e-session.ts\<close>) and the key wrap (\<^verbatim>\<open>late-join-decryptor.ts\<close>) over Node's cryptography,
    a platform record too.  Given that Node's cipher is the one of RFC 8439 (\<open>standard_node\<close>), agent and browser seal the same octets and open each other's frames; given that
    both key agreements meet (\<open>same_wrap_key\<close>), a wrapped key opens at its device, and in another attempt only if two tags collide.
  \<^item> \<open>Browser_Register\<close>: \<^verbatim>\<open>registerWithPop\<close> and \<^verbatim>\<open>unregisterWithPop\<close> (\<^verbatim>\<open>pop-register.ts\<close>) over any network: every register frame has its own client nonce, the
    retries are bounded and given up only for a reason.
  \<^item> \<open>Handshake\<close>: both ends together.  The locale \<open>register_server\<close> states what the retry loop relies on; the handler behind a network that loses requests and replies
    interprets it, and the browser ends up with the conversation key as long as fewer round trips fail than it has attempts.
  \<^item> \<open>Nats_Channel\<close>: \<^verbatim>\<open>NatsChannel\<close> (\<^verbatim>\<open>nats-channel.ts\<close>) with its peers, keys, replay windows, approval resolutions and every frame it sends.
    After any operations it has returned from each and keeps its bounds.  Transport, key store, clock and draws are the fields of an
    environment record per operation.
  \<^item> \<open>Enrollment\<close>: the enrolment repository and the key registry.  Approval, credentials and activation
    appear together, a revoked key is never active again, a decision is final, and a claim that has lapsed can
    neither commit nor block.
  \<^item> \<open>Device_Flow\<close>: \<open>enroll\<close>, \<open>poll\<close>, \<open>deny\<close> and the stages of \<^verbatim>\<open>approveInner\<close> over that repository, with any number of
    calls interleaved.  Two approvals of one enrolment that report success report the credentials the poll
    returns, and a denial is never overturned.  These theorems are about executions in which operation ids do not repeat and
    the sweep does not run, since the sweep drops finished enrolments.
  \<^item> \<open>Credential_Ledger\<close>: validation and every operation of the reference ledger.  Records stay well
    typed, paging by cursor is exact while the ledger changes and ends, a mark cuts exactly its scope, and a credential that can
    still be used is never forgotten.

  \<^bold>\<open>Bounds and fuel.\<close>  No definition uses fuel.  Loops recurse structurally on the list they consume
  or terminate by a measure (\<open>canonicalJson\<close> on the size of the value, the retry loop on the list of
  attempt answers).  Draining a ledger page by page is a recursion over the states the pages are read from; one state more than there are
  records is enough.  Witnesses use small limits and evaluate by \<open>simp\<close> or \<open>code_simp\<close>.

  \<^bold>\<open>Simplifications.\<close>  The promise chain that serializes the operations of the outcome store on one key is an ideal lock: the
  order of the waiters is not fixed, and an operation is atomic, so operations on other keys fall before or after it, but freely
  while a receipt is open.  Message texts are strings, though the code does not check them, and wire measurements are
  integers.  The result writers are handed to the flush handler.  The id of a retained entry, which nothing reads, is left out, and
  a fallback of capacity zero is excluded where the bound on it is stated.

  \<^bold>\<open>Not modelled.\<close>  The legacy non-coalescing chains of the dispatcher; abort scopes, timers and
  relay-origin formatting of the coordinator; the process-local queue per user code of the device flow (the theorems hold
  without it), the minting of credentials and the sweep timers; log lines.  SHA-256, Ed25519, X25519, HKDF and the random draws are
  parameters, and so is \<^verbatim>\<open>JSON.parse\<close>.  The NATS clients, transports and channel
  glue, the message adapter, setup, doctor and migration commands are I/O over third-party
  packages; the manifest lists them one by one with the reason.
\<close>

end
